(* ===== verification/Prelude.thy ===== *)
theory Prelude
  imports Main "HOL-Library.Word" "HOL-Library.Multiset"
begin

text \<open>
  Shared vocabulary of the development: the machine types of the Rust sources, the
  arithmetic of \<open>usize\<close> with its saturating and checked operations, results that may
  panic, and the generic facts on lists and maps that the component theories use.

  A \<open>usize\<close> is a 64-bit unsigned integer. It is modelled by \<open>nat\<close>; an operation whose
  source says what happens at the end of the range (\<open>saturating_add\<close>, \<open>checked_mul\<close>,
  \<open>saturating_sub\<close>, \<open>div_ceil\<close>) is written out against \<open>usize_max\<close>. Token ids,
  request ids and bit patterns stay words of their width.
\<close>

section \<open>Machine types\<close>

type_synonym usize = nat
type_synonym u8 = "8 word"
type_synonym u32 = "32 word"
type_synonym u64 = "64 word"

text \<open>A 32-bit float is carried by its bit pattern.\<close>

type_synonym f32 = "32 word"

named_theorems panic_simps \<open>rewrite rules for results that may panic\<close>
named_theorems usize_defs \<open>definitions of the usize operations\<close>

section \<open>Arithmetic of usize\<close>

definition usize_max :: usize where
  "usize_max = 18446744073709551615"

definition saturating_add :: "usize \<Rightarrow> usize \<Rightarrow> usize" where
  [usize_defs]: "saturating_add a b = min (a + b) usize_max"

definition saturating_mul :: "usize \<Rightarrow> usize \<Rightarrow> usize" where
  [usize_defs]: "saturating_mul a b = min (a * b) usize_max"

definition saturating_sub :: "usize \<Rightarrow> usize \<Rightarrow> usize" where
  [usize_defs]: "saturating_sub a b = a - b"

definition checked_mul :: "usize \<Rightarrow> usize \<Rightarrow> usize option" where
  [usize_defs]: "checked_mul a b = (if a * b \<le> usize_max then Some (a * b) else None)"

text \<open>\<open>usize::div_ceil\<close>; the sources only divide by positive block and page sizes.\<close>

definition div_ceil :: "usize \<Rightarrow> usize \<Rightarrow> usize" where
  "div_ceil a b = (if a mod b = 0 then a div b else a div b + 1)"

lemma checked_mul_Some_iff [panic_simps]:
  "checked_mul a b = Some c \<longleftrightarrow> c = a * b \<and> a * b \<le> usize_max"
  by (auto simp: checked_mul_def)

lemma saturating_add_le_max [simp]: "saturating_add a b \<le> usize_max"
  by (simp add: saturating_add_def)

lemma saturating_add_exact: "a + b \<le> usize_max \<Longrightarrow> saturating_add a b = a + b"
  by (simp add: saturating_add_def)

lemma div_ceil_zero [simp]: "div_ceil 0 b = 0"
  by (simp add: div_ceil_def)

lemma div_ceil_le_iff:
  assumes "0 < b"
  shows "div_ceil a b \<le> n \<longleftrightarrow> a \<le> n * b"
proof -
  have a: "a = a div b * b + a mod b" by simp
  show ?thesis
  proof (cases "a mod b = 0")
    case True
    then show ?thesis using a assms
      by (metis add.right_neutral div_ceil_def mult_le_cancel2 not_gr_zero)
  next
    case False
    have "a div b + 1 \<le> n \<longleftrightarrow> a div b < n" by linarith
    also have "\<dots> \<longleftrightarrow> a < n * b"
      using assms by (simp add: div_less_iff_less_mult)
    also have "\<dots> \<longleftrightarrow> a \<le> n * b"
      using False by (auto simp: le_less)
    finally show ?thesis using False by (simp add: div_ceil_def)
  qed
qed

lemma div_ceil_upper: "0 < b \<Longrightarrow> a \<le> div_ceil a b * b"
  using div_ceil_le_iff [of b a "div_ceil a b"] by simp

lemma div_ceil_lower:
  assumes "0 < b" and "0 < a"
  shows "(div_ceil a b - 1) * b < a"
proof (rule ccontr)
  assume "\<not> (div_ceil a b - 1) * b < a"
  then have "div_ceil a b \<le> div_ceil a b - 1"
    using assms by (simp add: div_ceil_le_iff)
  moreover have "\<not> div_ceil a b \<le> 0"
    using assms by (simp only: div_ceil_le_iff)
  ultimately show False by linarith
qed

lemma div_ceil_mono: "0 < b \<Longrightarrow> a \<le> a' \<Longrightarrow> div_ceil a b \<le> div_ceil a' b"
  by (simp only: div_ceil_le_iff) (rule order_trans [OF _ div_ceil_upper])

section \<open>Results that may panic\<close>

text \<open>
  A call that may panic, fail an \<open>assert!\<close> or hit an \<open>expect\<close> has a value of a sum type:
  \<open>Inl\<close> carries the reason, \<open>Inr\<close> the value. \<open>bind_res\<close> sequences two such calls and
  \<open>ensure\<close> is an \<open>assert!\<close>.
\<close>

definition bind_res :: "'e + 'a \<Rightarrow> ('a \<Rightarrow> 'e + 'b) \<Rightarrow> 'e + 'b" where
  "bind_res r f = (case r of Inl e \<Rightarrow> Inl e | Inr x \<Rightarrow> f x)"

definition ensure :: "bool \<Rightarrow> 'e \<Rightarrow> 'e + unit" where
  "ensure b e = (if b then Inr () else Inl e)"

definition ok_or :: "'a option \<Rightarrow> 'e \<Rightarrow> 'e + 'a" where
  "ok_or m e = (case m of None \<Rightarrow> Inl e | Some x \<Rightarrow> Inr x)"

lemma bind_res_simps [simp]:
  "bind_res (Inl e) f = Inl e"
  "bind_res (Inr x) f = f x"
  by (simp_all add: bind_res_def)

lemma ensure_simps [simp]:
  "ensure True e = Inr ()"
  "ensure False e = Inl e"
  by (simp_all add: ensure_def)

lemma ok_or_simps [simp]:
  "ok_or None e = Inl e"
  "ok_or (Some x) e = Inr x"
  by (simp_all add: ok_or_def)

lemma bind_res_Inr_iff [panic_simps]:
  "bind_res r f = Inr y \<longleftrightarrow> (\<exists>x. r = Inr x \<and> f x = Inr y)"
  by (cases r) auto

lemma ensure_Inr_iff [panic_simps]: "ensure b e = Inr u \<longleftrightarrow> b"
  by (simp add: ensure_def)

lemma ok_or_Inr_iff [panic_simps]: "ok_or m e = Inr x \<longleftrightarrow> m = Some x"
  by (cases m) auto

lemma case_option_Inr [panic_simps]:
  "(case m of None \<Rightarrow> Inl e | Some a \<Rightarrow> g a) = Inr y \<longleftrightarrow> (\<exists>a. m = Some a \<and> g a = Inr y)"
  by (cases m) auto

lemma case_sum_Inr [panic_simps]:
  "(case r of Inl e \<Rightarrow> Inl (h e) | Inr x \<Rightarrow> g x) = Inr z \<longleftrightarrow> (\<exists>x. r = Inr x \<and> g x = Inr z)"
  by (cases r) auto

lemma bind_res_cong [fundef_cong]:
  "r = r' \<Longrightarrow> (\<And>x. r' = Inr x \<Longrightarrow> f x = f' x) \<Longrightarrow> bind_res r f = bind_res r' f'"
  by (cases r') auto

text \<open>A \<open>for\<close> loop whose body may panic.\<close>

fun fold_res :: "('a \<Rightarrow> 's \<Rightarrow> 'e + 's) \<Rightarrow> 'a list \<Rightarrow> 's \<Rightarrow> 'e + 's" where
  "fold_res f [] s = Inr s"
| "fold_res f (x # xs) s = bind_res (f x s) (fold_res f xs)"

lemma fold_res_append:
  "fold_res f (xs @ ys) s = bind_res (fold_res f xs s) (fold_res f ys)"
  by (induction xs arbitrary: s) (auto simp: bind_res_def split: sum.splits)

lemma fold_res_invariant:
  assumes "fold_res f xs s = Inr s'" and "P s"
    and "\<And>x t t'. x \<in> set xs \<Longrightarrow> P t \<Longrightarrow> f x t = Inr t' \<Longrightarrow> P t'"
  shows "P s'"
  using assms by (induction xs arbitrary: s) (auto simp: panic_simps)

section \<open>Lists and maps\<close>

lemma sum_list_map_le:
  "(\<And>x. x \<in> set xs \<Longrightarrow> f x \<le> (g x :: nat)) \<Longrightarrow> sum_list (map f xs) \<le> sum_list (map g xs)"
  by (induction xs) (auto intro: add_mono)

lemma distinct_set_singleton: "distinct xs \<Longrightarrow> set xs = {x} \<Longrightarrow> xs = [x]"
proof (cases xs)
  case (Cons y ys)
  assume "distinct xs" and "set xs = {x}"
  with Cons have "y = x" and "set ys \<subseteq> {x}" and "x \<notin> set ys" by auto
  then have "ys = []" by (cases ys) auto
  with Cons \<open>y = x\<close> show ?thesis by simp
qed simp

lemma map_filter_ident [simp]: "List.map_filter (\<lambda>x. x) = List.map_filter id"
  by (simp add: id_def)

lemma set_map_filter_id: "x \<in> set (List.map_filter id xs) \<longleftrightarrow> Some x \<in> set xs"
  by (force simp: List.map_filter_def)

lemma distinct_map_filter_id:
  "(\<And>k l x y. k < length xs \<Longrightarrow> l < length xs \<Longrightarrow> xs ! k = Some x \<Longrightarrow> xs ! l = Some y \<Longrightarrow>
      f x = f y \<Longrightarrow> k = l) \<Longrightarrow> distinct (map f (List.map_filter id xs))"
proof (induction xs)
  case Nil
  then show ?case by simp
next
  case (Cons z zs)
  have IH: "distinct (map f (List.map_filter id zs))"
  proof (rule Cons.IH)
    fix k l x y
    assume "k < length zs" "l < length zs" "zs ! k = Some x" "zs ! l = Some y" "f x = f y"
    then have "Suc k = Suc l" by (intro Cons.prems [of _ _ x y]) auto
    then show "k = l" by simp
  qed
  show ?case
  proof (cases z)
    case None
    then show ?thesis using IH by simp
  next
    case (Some x)
    have "f x \<notin> f ` set (List.map_filter id zs)"
    proof
      assume "f x \<in> f ` set (List.map_filter id zs)"
      then obtain y where y: "f x = f y" "Some y \<in> set zs"
        by (auto simp: set_map_filter_id)
      then obtain l where "l < length zs" "zs ! l = Some y" by (auto simp: in_set_conv_nth)
      with y(1) have "0 = Suc l" using Some by (intro Cons.prems [of _ _ x y]) auto
      then show False by simp
    qed
    then show ?thesis using IH Some by simp
  qed
qed

lemma distinct_map_filter_fst:
  "distinct (map f xs) \<Longrightarrow> distinct (map f (filter P xs))"
  by (induction xs) auto

text \<open>\<open>iter().position(..)\<close>.\<close>

fun find_position :: "('a \<Rightarrow> bool) \<Rightarrow> 'a list \<Rightarrow> nat option" where
  "find_position P [] = None"
| "find_position P (x # xs) = (if P x then Some 0 else map_option Suc (find_position P xs))"

lemma find_position_Some:
  "find_position P xs = Some i \<Longrightarrow> i < length xs \<and> P (xs ! i) \<and> (\<forall>j < i. \<not> P (xs ! j))"
  by (induction xs arbitrary: i) (auto split: if_splits simp: less_Suc_eq_0_disj)

lemma find_position_None: "find_position P xs = None \<longleftrightarrow> (\<forall>x \<in> set xs. \<not> P x)"
  by (induction xs) auto

end
