(* ===== verification/Step_Contract.thy ===== *)
theory Step_Contract
  imports Prelude
begin

text \<open>
  The vocabulary of the engine contract: what a frontend submits and what one scheduler
  step sends back (\<open>pegainfer-frontend/src/engine/step.rs\<close>, \<open>event.rs\<close>, \<open>request.rs\<close>,
  \<open>kv.rs\<close> and \<open>sampler.rs\<close>). Everything here is data; the operations on it are in
  \<open>Ledger\<close>. JSON values and client labels are carried and never inspected by the code
  modelled here; they are represented by their text. An \<open>Instant\<close> is a reading of the
  monotonic clock.
\<close>

type_synonym request_id = u64
type_synonym token = u32
type_synonym instant = nat
type_synonym json_value = string

section \<open>Sampling parameters\<close>

record sampling_params =
  temperature :: f32
  top_k :: "32 word"
  top_p :: f32
  min_p :: f32
  seed :: "u64 option"
  ignore_eos :: bool

text \<open>
  \<open>self.temperature < 1e-5\<close> on the IEEE bit pattern: a NaN compares false, every other
  pattern with the sign bit set is at most zero, and non-negative patterns are ordered as
  unsigned integers. \<open>0x3727C5AC\<close> is the pattern of \<open>1e-5\<close>.
\<close>

definition f32_below_1em5 :: "f32 \<Rightarrow> bool" where
  "f32_below_1em5 x =
     (if x < 0x80000000 then x < 0x3727C5AC
      else x - 0x80000000 \<le> 0x7F800000)"

definition default_sampling_params :: sampling_params where
  "default_sampling_params =
     \<lparr>temperature = 0, top_k = - 1, top_p = 0x3F800000, min_p = 0, seed = None,
      ignore_eos = False\<rparr>"

definition is_greedy :: "sampling_params \<Rightarrow> bool" where
  "is_greedy p \<longleftrightarrow> f32_below_1em5 (temperature p) \<or> top_k p = 1"

section \<open>Requests\<close>

record request =
  rq_prompt_tokens :: "token list"
  rq_params :: sampling_params
  rq_max_tokens :: usize
  rq_lora_adapter :: "string option"
  rq_kv_transfer_params :: "json_value option"
  rq_logprobs :: usize
  rq_echo :: bool
  rq_trace_parent :: "nat option"
  rq_client_label :: "string option"

record queued_request =
  qr_id :: request_id
  qr_request :: request

section \<open>Step outputs\<close>

record token_logprob =
  logprob :: f32
  top_logprobs :: "(token \<times> f32) list"

datatype finish_reason = Length | Stop | Error

datatype reject_reason =
    ContextLength usize usize usize
  | EchoPrefillTokens usize usize
  | KvBudget usize usize
  | UnknownLoraAdapter string
  | Unsupported string

datatype terminal =
    Finished finish_reason usize usize
  | Rejected reject_reason usize
  | Failed string usize usize

record scheduled_info =
  si_queued_at :: instant
  si_scheduled_at :: instant
  si_prompt_tokens :: usize

record prompt_echo =
  pe_ids :: "token list"
  pe_logprobs :: "token_logprob option list"

record request_update =
  upd_id :: request_id
  upd_scheduled :: "scheduled_info option"
  upd_tokens :: "token list"
  upd_logprobs :: "token_logprob option list"
  upd_cached_tokens :: "usize option"
  upd_prompt_echo :: "prompt_echo option"
  upd_kv_transfer :: "json_value option"
  upd_terminal :: "terminal option"

type_synonym step_outputs = "request_update list"

definition empty_update :: "request_id \<Rightarrow> request_update" where
  "empty_update i =
     \<lparr>upd_id = i, upd_scheduled = None, upd_tokens = [], upd_logprobs = [],
      upd_cached_tokens = None, upd_prompt_echo = None, upd_kv_transfer = None,
      upd_terminal = None\<rparr>"

definition is_vacant :: "request_update \<Rightarrow> bool" where
  "is_vacant u \<longleftrightarrow>
     upd_scheduled u = None \<and> upd_tokens u = [] \<and> upd_cached_tokens u = None \<and>
     upd_prompt_echo u = None \<and> upd_kv_transfer u = None \<and> upd_terminal u = None"

lemma empty_update_sels [simp]:
  "upd_id (empty_update i) = i"
  "upd_scheduled (empty_update i) = None"
  "upd_tokens (empty_update i) = []"
  "upd_logprobs (empty_update i) = []"
  "upd_cached_tokens (empty_update i) = None"
  "upd_prompt_echo (empty_update i) = None"
  "upd_kv_transfer (empty_update i) = None"
  "upd_terminal (empty_update i) = None"
  by (simp_all add: empty_update_def)

section \<open>Capacity\<close>

record kv_capacity =
  kc_total_blocks :: usize
  kc_block_size :: usize

definition kc_total_tokens :: "kv_capacity \<Rightarrow> usize" where
  "kc_total_tokens c = saturating_mul (kc_total_blocks c) (kc_block_size c)"

definition kc_blocks_for :: "kv_capacity \<Rightarrow> usize \<Rightarrow> usize" where
  "kc_blocks_for c tokens = div_ceil tokens (max (kc_block_size c) 1)"

text \<open>A request fits in the blocks \<open>kc_blocks_for\<close> counts and in no fewer.\<close>

lemma kc_blocks_for_le_iff:
  "kc_blocks_for c t \<le> n \<longleftrightarrow> t \<le> n * max (kc_block_size c) 1"
  unfolding kc_blocks_for_def by (rule div_ceil_le_iff) simp

end
