(* ===== verification/Ledger.thy ===== *)
theory Ledger
  imports Step_Contract
begin

text \<open>
  The request ledger of \<open>pegainfer-frontend/src/engine/ledger.rs\<close>: one account per
  unanswered request, the step statement in which the outgoing updates of the current step
  are merged, and the operations a scheduler and the driver call. Every \<open>panic!\<close>,
  \<open>assert!\<close> and \<open>expect\<close> is an \<open>Inl\<close> result that carries the ledger as unwinding
  finds it: some operations have already changed it by then.

  The step stream is an unbounded channel: a send to a closed receiver is dropped. The abort
  flag of an account is the address of a shared \<open>AtomicBool\<close>; the flags themselves are
  an argument of \<open>is_aborted\<close>, since the frontend may set one at any moment. The hash map
  of accounts is a finite map; where the source iterates over it, the order is an argument.
\<close>

section \<open>State\<close>

type_synonym flag_addr = nat
type_synonym abort_flags = "flag_addr \<Rightarrow> bool"

datatype account_state = Queued | Active usize

record account =
  acct_abort :: flag_addr
  acct_prompt_len :: usize
  acct_queued_at :: instant
  acct_state :: account_state

record step_statement =
  st_buffer :: "request_update option list"
  st_index :: "request_id \<rightharpoonup> nat"

record ledger =
  lg_accounts :: "request_id \<rightharpoonup> account"
  lg_statement :: step_statement

record step_channel =
  ch_messages :: "step_outputs list"
  ch_closed :: bool

datatype panic =
    NoOpenAccount request_id
  | AlreadyAdmitted request_id
  | RejectAfterAdmission request_id
  | LogprobsNotParallel
  | BeforeAdmission request_id
  | DuplicateRequestId request_id
  | ExtractedEntry
  | IndexOutOfBounds
  | SchedulerPanic string

text \<open>A ledger call returns a value, or unwinds with a reason and the ledger it leaves behind.\<close>

type_synonym 'a ledger_res = "(panic \<times> ledger) + 'a"

definition ch_send :: "step_outputs \<Rightarrow> step_channel \<Rightarrow> step_channel" where
  "ch_send m c = (if ch_closed c then c else c\<lparr>ch_messages := ch_messages c @ [m]\<rparr>)"

fun state_completion_tokens :: "account_state \<Rightarrow> usize" where
  "state_completion_tokens Queued = 0"
| "state_completion_tokens (Active n) = n"

definition acct_completion_tokens :: "account \<Rightarrow> usize" where
  "acct_completion_tokens a = state_completion_tokens (acct_state a)"

section \<open>The step statement\<close>

definition empty_statement :: step_statement where
  "empty_statement = \<lparr>st_buffer = [], st_index = Map.empty\<rparr>"

definition statement_entry :: "request_id \<Rightarrow> step_statement \<Rightarrow> step_statement \<times> nat" where
  "statement_entry i s =
     (case st_index s i of
        Some k \<Rightarrow> (s, k)
      | None \<Rightarrow>
          (\<lparr>st_buffer = st_buffer s @ [Some (empty_update i)],
            st_index = (st_index s)(i \<mapsto> length (st_buffer s))\<rparr>,
           length (st_buffer s)))"

text \<open>\<open>self.statement.entry(id)\<close> followed by an assignment through the reference.\<close>

definition modify_entry ::
  "request_id \<Rightarrow> (request_update \<Rightarrow> request_update) \<Rightarrow> step_statement \<Rightarrow> panic + step_statement"
where
  "modify_entry i f s =
     (let (t, k) = statement_entry i s in
      if k < length (st_buffer t) then
        (case st_buffer t ! k of
           None \<Rightarrow> Inl ExtractedEntry
         | Some u \<Rightarrow> Inr (t\<lparr>st_buffer := (st_buffer t)[k := Some (f u)]\<rparr>))
      else Inl IndexOutOfBounds)"

definition extract_entry ::
  "request_id \<Rightarrow> step_statement \<Rightarrow> panic + (step_statement \<times> request_update option)"
where
  "extract_entry i s =
     (case st_index s i of
        None \<Rightarrow> Inr (s, None)
      | Some k \<Rightarrow>
          if k < length (st_buffer s) then
            Inr (\<lparr>st_buffer = (st_buffer s)[k := None], st_index = (st_index s)(i := None)\<rparr>,
                 st_buffer s ! k)
          else Inl IndexOutOfBounds)"

definition take_updates :: "step_statement \<Rightarrow> step_statement \<times> request_update list" where
  "take_updates s =
     (empty_statement, filter (\<lambda>u. \<not> is_vacant u) (List.map_filter id (st_buffer s)))"

section \<open>Ledger operations\<close>

definition new_ledger :: ledger where
  "new_ledger = \<lparr>lg_accounts = Map.empty, lg_statement = empty_statement\<rparr>"

definition get_account :: "request_id \<Rightarrow> ledger \<Rightarrow> account ledger_res" where
  "get_account i L = ok_or (lg_accounts L i) (NoOpenAccount i, L)"

definition close_account :: "request_id \<Rightarrow> ledger \<Rightarrow> (account \<times> ledger) ledger_res" where
  "close_account i L =
     (case lg_accounts L i of
        None \<Rightarrow> Inl (NoOpenAccount i, L)
      | Some a \<Rightarrow> Inr (a, L\<lparr>lg_accounts := (lg_accounts L)(i := None)\<rparr>))"

definition with_entry ::
  "request_id \<Rightarrow> (request_update \<Rightarrow> request_update) \<Rightarrow> ledger \<Rightarrow> ledger ledger_res" where
  "with_entry i f L =
     (case modify_entry i f (lg_statement L) of
        Inl e \<Rightarrow> Inl (e, L)
      | Inr s \<Rightarrow> Inr (L\<lparr>lg_statement := s\<rparr>))"

definition is_aborted :: "abort_flags \<Rightarrow> request_id \<Rightarrow> ledger \<Rightarrow> bool ledger_res" where
  "is_aborted flags i L = bind_res (get_account i L) (\<lambda>a. Inr (flags (acct_abort a)))"

definition is_active :: "request_id \<Rightarrow> ledger \<Rightarrow> bool" where
  "is_active i L =
     (case lg_accounts L i of
        None \<Rightarrow> False
      | Some a \<Rightarrow> (case acct_state a of Queued \<Rightarrow> False | Active _ \<Rightarrow> True))"

definition completion_tokens :: "request_id \<Rightarrow> ledger \<Rightarrow> usize ledger_res" where
  "completion_tokens i L = bind_res (get_account i L) (\<lambda>a. Inr (acct_completion_tokens a))"

definition admit :: "instant \<Rightarrow> request_id \<Rightarrow> ledger \<Rightarrow> ledger ledger_res" where
  "admit now i L =
     (case lg_accounts L i of
        None \<Rightarrow> Inl (NoOpenAccount i, L)
      | Some a \<Rightarrow>
         (case acct_state a of
            Active _ \<Rightarrow> Inl (AlreadyAdmitted i, L)
          | Queued \<Rightarrow>
             with_entry i
               (\<lambda>u. u\<lparr>upd_scheduled :=
                  Some \<lparr>si_queued_at = acct_queued_at a, si_scheduled_at = now,
                        si_prompt_tokens = acct_prompt_len a\<rparr>\<rparr>)
               (L\<lparr>lg_accounts := (lg_accounts L)(i \<mapsto> a\<lparr>acct_state := Active 0\<rparr>)\<rparr>)))"

definition reject :: "request_id \<Rightarrow> reject_reason \<Rightarrow> ledger \<Rightarrow> ledger ledger_res" where
  "reject i reason L =
     bind_res (close_account i L) (\<lambda>(a, L').
       case acct_state a of
         Active _ \<Rightarrow> Inl (RejectAfterAdmission i, L')
       | Queued \<Rightarrow>
          with_entry i (\<lambda>u. u\<lparr>upd_terminal := Some (Rejected reason (acct_prompt_len a))\<rparr>) L')"

definition push_tokens ::
  "request_id \<Rightarrow> token list \<Rightarrow> token_logprob option list \<Rightarrow> ledger \<Rightarrow> ledger ledger_res"
where
  "push_tokens i ids lps L =
     (if \<not> (lps = [] \<or> length lps = length ids) then Inl (LogprobsNotParallel, L)
      else case lg_accounts L i of
        None \<Rightarrow> Inl (NoOpenAccount i, L)
      | Some a \<Rightarrow>
         (case acct_state a of
            Queued \<Rightarrow> Inl (BeforeAdmission i, L)
          | Active n \<Rightarrow>
             with_entry i
               (\<lambda>u. u\<lparr>upd_tokens := upd_tokens u @ ids,
                      upd_logprobs := upd_logprobs u @
                        (if lps = [] then map (\<lambda>_. None) ids else lps)\<rparr>)
               (L\<lparr>lg_accounts :=
                  (lg_accounts L)(i \<mapsto> a\<lparr>acct_state := Active (n + length ids)\<rparr>)\<rparr>)))"

definition set_cached_tokens :: "request_id \<Rightarrow> usize \<Rightarrow> ledger \<Rightarrow> ledger ledger_res" where
  "set_cached_tokens i n L =
     (if is_active i L then with_entry i (\<lambda>u. u\<lparr>upd_cached_tokens := Some n\<rparr>) L
      else Inl (BeforeAdmission i, L))"

definition echo_prompt :: "request_id \<Rightarrow> prompt_echo \<Rightarrow> ledger \<Rightarrow> ledger ledger_res" where
  "echo_prompt i e L =
     (if is_active i L then with_entry i (\<lambda>u. u\<lparr>upd_prompt_echo := Some e\<rparr>) L
      else Inl (BeforeAdmission i, L))"

definition kv_transfer :: "request_id \<Rightarrow> json_value \<Rightarrow> ledger \<Rightarrow> ledger ledger_res" where
  "kv_transfer i v L =
     (if is_active i L then with_entry i (\<lambda>u. u\<lparr>upd_kv_transfer := Some v\<rparr>) L
      else Inl (BeforeAdmission i, L))"

definition finish :: "request_id \<Rightarrow> finish_reason \<Rightarrow> ledger \<Rightarrow> ledger ledger_res" where
  "finish i reason L =
     bind_res (close_account i L) (\<lambda>(a, L').
       case acct_state a of
         Queued \<Rightarrow> Inl (BeforeAdmission i, L')
       | Active n \<Rightarrow>
          with_entry i
            (\<lambda>u. u\<lparr>upd_terminal := Some (Finished reason (acct_prompt_len a) n)\<rparr>) L')"

definition fail :: "request_id \<Rightarrow> string \<Rightarrow> ledger \<Rightarrow> ledger ledger_res" where
  "fail i message L =
     bind_res (close_account i L) (\<lambda>(a, L').
       with_entry i
         (\<lambda>u. u\<lparr>upd_terminal :=
            Some (Failed message (acct_prompt_len a) (acct_completion_tokens a))\<rparr>) L')"

definition retire :: "request_id \<Rightarrow> ledger \<Rightarrow> ledger ledger_res" where
  "retire i L =
     bind_res (close_account i L) (\<lambda>(a, L').
       case extract_entry i (lg_statement L') of
         Inl e \<Rightarrow> Inl (e, L')
       | Inr (s, _) \<Rightarrow> Inr (L'\<lparr>lg_statement := s\<rparr>))"

text \<open>
  \<open>defer_finish\<close> returns the record that a \<open>DeferredFinish\<close> carries until it is sent.
\<close>

definition defer_finish ::
  "request_id \<Rightarrow> finish_reason \<Rightarrow> ledger \<Rightarrow> (ledger \<times> request_update) ledger_res" where
  "defer_finish i reason L =
     bind_res (close_account i L) (\<lambda>(a, L').
       case acct_state a of
         Queued \<Rightarrow> Inl (BeforeAdmission i, L')
       | Active n \<Rightarrow>
          (case extract_entry i (lg_statement L') of
             Inl e \<Rightarrow> Inl (e, L')
           | Inr (s, u) \<Rightarrow>
              Inr (L'\<lparr>lg_statement := s\<rparr>,
                   (case u of None \<Rightarrow> empty_update i | Some v \<Rightarrow> v)
                     \<lparr>upd_terminal := Some (Finished reason (acct_prompt_len a) n)\<rparr>)))"

definition commit_step :: "ledger \<Rightarrow> step_channel \<Rightarrow> ledger \<times> step_channel" where
  "commit_step L c =
     (let (s, updates) = take_updates (lg_statement L) in
      (L\<lparr>lg_statement := s\<rparr>, if updates = [] then c else ch_send updates c))"

text \<open>\<open>fail_all\<close> fails every open account; \<open>order\<close> is the iteration order of the map.\<close>

definition fail_all :: "request_id list \<Rightarrow> string \<Rightarrow> ledger \<Rightarrow> ledger ledger_res" where
  "fail_all order message L = fold_res (\<lambda>i. fail i message) order L"

section \<open>Envelopes, deferred finishes and teardown\<close>

record envelope =
  env_id :: request_id
  env_abort :: flag_addr
  env_request :: request
  env_queued_at :: instant

definition register :: "envelope \<Rightarrow> ledger \<Rightarrow> (ledger \<times> queued_request) ledger_res" where
  "register e L =
     (let L' = L\<lparr>lg_accounts := (lg_accounts L)(env_id e \<mapsto>
                 \<lparr>acct_abort = env_abort e,
                  acct_prompt_len = length (rq_prompt_tokens (env_request e)),
                  acct_queued_at = env_queued_at e, acct_state = Queued\<rparr>)\<rparr> in
      if lg_accounts L (env_id e) = None
      then Inr (L', \<lparr>qr_id = env_id e, qr_request = env_request e\<rparr>)
      else Inl (DuplicateRequestId (env_id e), L'))"

definition dropped_queued_message :: string where
  "dropped_queued_message = ''request dropped by the engine before it was answered''"

definition dropped_active_message :: string where
  "dropped_active_message = ''request dropped by the engine mid-stream''"

definition dropped_deferred_message :: string where
  "dropped_deferred_message = ''deferred finish dropped by the engine before delivery''"

text \<open>The answer of an envelope that is dropped before a ledger consumed it.\<close>

definition drop_envelope :: "envelope \<Rightarrow> step_channel \<Rightarrow> step_channel" where
  "drop_envelope e c =
     ch_send [(empty_update (env_id e))
       \<lparr>upd_terminal := Some (Failed dropped_queued_message
          (length (rq_prompt_tokens (env_request e))) 0)\<rparr>] c"

definition send_deferred :: "request_update \<Rightarrow> step_channel \<Rightarrow> step_channel" where
  "send_deferred u c = ch_send [u] c"

definition drop_deferred :: "request_update \<Rightarrow> step_channel \<Rightarrow> step_channel" where
  "drop_deferred u c =
     (let (p, n) =
        (case upd_terminal u of
           Some (Finished _ p n) \<Rightarrow> (p, n)
         | _ \<Rightarrow> (0, length (upd_tokens u)))
      in ch_send [u\<lparr>upd_terminal := Some (Failed dropped_deferred_message p n)\<rparr>] c)"

definition write_off :: "request_id \<Rightarrow> account \<Rightarrow> request_update" where
  "write_off i a =
     (empty_update i)\<lparr>upd_terminal :=
        Some (Failed
          (case acct_state a of Queued \<Rightarrow> dropped_queued_message
                              | Active _ \<Rightarrow> dropped_active_message)
          (acct_prompt_len a) (acct_completion_tokens a))\<rparr>"

text \<open>
  \<open>Drop\<close> of the ledger; \<open>order\<close> lists the keys of the map in the order in which it is
  drained, so the map is empty when \<open>order\<close> is.
\<close>

definition drop_ledger :: "request_id list \<Rightarrow> ledger \<Rightarrow> step_channel \<Rightarrow> step_channel" where
  "drop_ledger order L c =
     (if order = [] then c
      else ch_send
        (List.map_filter (\<lambda>i. map_option (write_off i) (lg_accounts L i)) order) c)"

lemmas ledger_op_defs =
  admit_def reject_def push_tokens_def set_cached_tokens_def echo_prompt_def kv_transfer_def
  finish_def fail_def retire_def defer_finish_def register_def

section \<open>The statement is a finite map of updates\<close>

text \<open>
  What the ledger relies on of its statement: an update buffer holds at most one record per
  request id, modifying an entry creates it when missing, extracting removes it, and
  draining returns every record that carries a fact, once.
\<close>

locale update_buffer =
  fixes bwf :: "'s \<Rightarrow> bool"
    and blook :: "'s \<Rightarrow> request_id \<Rightarrow> request_update option"
    and bmodify :: "request_id \<Rightarrow> (request_update \<Rightarrow> request_update) \<Rightarrow> 's \<Rightarrow> panic + 's"
    and bextract :: "request_id \<Rightarrow> 's \<Rightarrow> panic + ('s \<times> request_update option)"
    and bdrain :: "'s \<Rightarrow> 's \<times> request_update list"
    and bempty :: 's
  assumes bwf_empty: "bwf bempty"
    and blook_empty: "blook bempty i = None"
    and blook_id: "bwf s \<Longrightarrow> blook s i = Some u \<Longrightarrow> upd_id u = i"
    and bmodify_ok: "bwf s \<Longrightarrow> (\<And>u. upd_id (f u) = upd_id u) \<Longrightarrow>
      \<exists>s'. bmodify i f s = Inr s' \<and> bwf s' \<and>
        blook s' = (blook s)(i \<mapsto> f (case blook s i of None \<Rightarrow> empty_update i | Some u \<Rightarrow> u))"
    and bextract_ok: "bwf s \<Longrightarrow>
      \<exists>s'. bextract i s = Inr (s', blook s i) \<and> bwf s' \<and> blook s' = (blook s)(i := None)"
    and bdrain_empty: "fst (bdrain s) = bempty"
    and bdrain_distinct: "bwf s \<Longrightarrow> distinct (map upd_id (snd (bdrain s)))"
    and bdrain_mem: "bwf s \<Longrightarrow>
      u \<in> set (snd (bdrain s)) \<longleftrightarrow> blook s (upd_id u) = Some u \<and> \<not> is_vacant u"
begin

lemma bdrain_for:
  assumes "bwf s"
  shows "filter (\<lambda>u. upd_id u = i) (snd (bdrain s)) =
    (case blook s i of None \<Rightarrow> [] | Some u \<Rightarrow> if is_vacant u then [] else [u])"
proof -
  let ?us = "filter (\<lambda>u. upd_id u = i) (snd (bdrain s))"
  have mem: "u \<in> set ?us \<longleftrightarrow> blook s i = Some u \<and> \<not> is_vacant u" for u
    using bdrain_mem [OF assms, of u] blook_id [OF assms, of i u] by auto
  have "distinct (map upd_id ?us)"
    by (rule distinct_map_filter_fst [OF bdrain_distinct [OF assms]])
  then have dist: "distinct ?us" by (simp add: distinct_map)
  show ?thesis
  proof (cases "blook s i")
    case None
    then have "set ?us = {}" using mem by auto
    then show ?thesis using None by simp
  next
    case (Some u)
    show ?thesis
    proof (cases "is_vacant u")
      case True
      then have "set ?us = {}" using mem Some by auto
      then show ?thesis using Some True by simp
    next
      case False
      then have "set ?us = {u}" using mem Some by auto
      with dist have "?us = [u]"
        by (rule distinct_set_singleton)
      then show ?thesis using Some False by simp
    qed
  qed
qed

lemma bdrain_count:
  assumes "bwf s" and "\<And>u. P u \<Longrightarrow> upd_id u = i \<and> \<not> is_vacant u"
  shows "length (filter P (snd (bdrain s))) =
    (case blook s i of None \<Rightarrow> 0 | Some u \<Rightarrow> if P u then 1 else 0)"
proof -
  have "filter P (snd (bdrain s)) = filter P (filter (\<lambda>u. upd_id u = i) (snd (bdrain s)))"
    using assms(2) by (auto intro: filter_cong)
  also have "\<dots> = filter P
      (case blook s i of None \<Rightarrow> [] | Some u \<Rightarrow> if is_vacant u then [] else [u])"
    by (simp only: bdrain_for [OF assms(1)])
  finally show ?thesis
    using assms(2) by (auto split: option.splits)
qed

end

definition wf_statement :: "step_statement \<Rightarrow> bool" where
  "wf_statement s \<longleftrightarrow>
     (\<forall>i k. st_index s i = Some k \<longrightarrow>
        k < length (st_buffer s) \<and> (\<exists>u. st_buffer s ! k = Some u \<and> upd_id u = i)) \<and>
     (\<forall>k u. k < length (st_buffer s) \<longrightarrow> st_buffer s ! k = Some u \<longrightarrow>
        st_index s (upd_id u) = Some k)"

definition buffered :: "step_statement \<Rightarrow> request_id \<Rightarrow> request_update option" where
  "buffered s i =
     (case st_index s i of
        None \<Rightarrow> None
      | Some k \<Rightarrow> if k < length (st_buffer s) then st_buffer s ! k else None)"

lemma wf_statementI:
  assumes "\<And>i k. st_index s i = Some k \<Longrightarrow>
      k < length (st_buffer s) \<and> (\<exists>u. st_buffer s ! k = Some u \<and> upd_id u = i)"
    and "\<And>k u. k < length (st_buffer s) \<Longrightarrow> st_buffer s ! k = Some u \<Longrightarrow>
      st_index s (upd_id u) = Some k"
  shows "wf_statement s"
  using assms by (simp add: wf_statement_def)

lemma wf_statement_index:
  assumes "wf_statement s" and "st_index s i = Some k"
  obtains u where "k < length (st_buffer s)" and "st_buffer s ! k = Some u" and "upd_id u = i"
  using assms by (auto simp: wf_statement_def)

lemma wf_statement_slot:
  "wf_statement s \<Longrightarrow> k < length (st_buffer s) \<Longrightarrow> st_buffer s ! k = Some u \<Longrightarrow>
    st_index s (upd_id u) = Some k"
  by (simp add: wf_statement_def)

lemma buffered_index:
  "wf_statement s \<Longrightarrow> st_index s i = Some k \<Longrightarrow> buffered s i = st_buffer s ! k"
  by (auto simp: buffered_def elim: wf_statement_index)

lemma buffered_Some_iff:
  assumes "wf_statement s"
  shows "buffered s i = Some u \<longleftrightarrow>
    upd_id u = i \<and> (\<exists>k < length (st_buffer s). st_buffer s ! k = Some u)"
proof
  assume "buffered s i = Some u"
  then obtain k where k: "st_index s i = Some k" "k < length (st_buffer s)"
      "st_buffer s ! k = Some u"
    by (auto simp: buffered_def split: option.splits if_splits)
  with assms have "upd_id u = i" by (auto elim: wf_statement_index)
  with k show "upd_id u = i \<and> (\<exists>k < length (st_buffer s). st_buffer s ! k = Some u)" by auto
next
  assume "upd_id u = i \<and> (\<exists>k < length (st_buffer s). st_buffer s ! k = Some u)"
  then show "buffered s i = Some u"
    using wf_statement_slot [OF assms] by (auto simp: buffered_def)
qed

lemma statement_entry_ok:
  assumes "wf_statement s" and "statement_entry i s = (t, k)"
  shows "wf_statement t" and "k < length (st_buffer t)" and "st_index t i = Some k"
    and "st_buffer t ! k = Some (case buffered s i of None \<Rightarrow> empty_update i | Some u \<Rightarrow> u)"
    and "\<And>j. j \<noteq> i \<Longrightarrow> buffered t j = buffered s j"
proof -
  have *: "wf_statement t \<and> k < length (st_buffer t) \<and> st_index t i = Some k \<and>
    st_buffer t ! k = Some (case buffered s i of None \<Rightarrow> empty_update i | Some u \<Rightarrow> u) \<and>
    (\<forall>j. j \<noteq> i \<longrightarrow> buffered t j = buffered s j)"
  proof (cases "st_index s i")
    case None
    then have t: "t = \<lparr>st_buffer = st_buffer s @ [Some (empty_update i)],
        st_index = (st_index s)(i \<mapsto> length (st_buffer s))\<rparr>" and k: "k = length (st_buffer s)"
      using assms(2) by (auto simp: statement_entry_def)
    have "wf_statement t"
    proof (rule wf_statementI)
      fix j l assume "st_index t j = Some l"
      then show "l < length (st_buffer t) \<and> (\<exists>u. st_buffer t ! l = Some u \<and> upd_id u = j)"
        using assms(1) by (auto simp: t nth_append split: if_splits elim: wf_statement_index)
    next
      fix l u assume l: "l < length (st_buffer t)" and u: "st_buffer t ! l = Some u"
      show "st_index t (upd_id u) = Some l"
      proof (cases "l = length (st_buffer s)")
        case True
        then show ?thesis using u by (auto simp: t)
      next
        case False
        then have l': "l < length (st_buffer s)" "st_buffer s ! l = Some u"
          using l u by (auto simp: t nth_append)
        then have "st_index s (upd_id u) = Some l" by (rule wf_statement_slot [OF assms(1)])
        with None show ?thesis by (auto simp: t)
      qed
    qed
    moreover have "buffered t j = buffered s j" if "j \<noteq> i" for j
      using that assms(1)
      by (auto simp: t buffered_def nth_append split: option.splits elim: wf_statement_index)
    ultimately show ?thesis
      using None by (simp add: t k buffered_def)
  next
    case (Some l)
    then have "t = s" and "k = l" using assms(2) by (auto simp: statement_entry_def)
    with Some assms(1) show ?thesis
      by (auto simp: buffered_def elim: wf_statement_index)
  qed
  show "wf_statement t" and "k < length (st_buffer t)" and "st_index t i = Some k"
    and "st_buffer t ! k = Some (case buffered s i of None \<Rightarrow> empty_update i | Some u \<Rightarrow> u)"
    and "\<And>j. j \<noteq> i \<Longrightarrow> buffered t j = buffered s j"
    using * by blast+
qed

lemma modify_entry_ok:
  assumes wf: "wf_statement s" and f: "\<And>u. upd_id (f u) = upd_id u"
  shows "\<exists>s'. modify_entry i f s = Inr s' \<and> wf_statement s' \<and>
    buffered s' =
      (buffered s)(i \<mapsto> f (case buffered s i of None \<Rightarrow> empty_update i | Some u \<Rightarrow> u))"
proof -
  obtain t k where tk: "statement_entry i s = (t, k)" by fastforce
  note entry = statement_entry_ok [OF wf tk]
  let ?u = "case buffered s i of None \<Rightarrow> empty_update i | Some u \<Rightarrow> u"
  let ?s' = "t\<lparr>st_buffer := (st_buffer t)[k := Some (f ?u)]\<rparr>"
  have id_u: "upd_id ?u = i"
    using wf_statement_slot [OF entry(1,2,4)] entry(1) entry(3)
    by (metis entry(4) option.inject wf_statement_index)
  have eq: "modify_entry i f s = Inr ?s'"
    using entry(2,4) by (simp add: modify_entry_def tk)
  have wf': "wf_statement ?s'"
  proof (rule wf_statementI)
    fix j l assume "st_index ?s' j = Some l"
    then have "st_index t j = Some l" by simp
    then obtain v where v: "l < length (st_buffer t)" "st_buffer t ! l = Some v" "upd_id v = j"
      by (rule wf_statement_index [OF entry(1)])
    show "l < length (st_buffer ?s') \<and> (\<exists>u. st_buffer ?s' ! l = Some u \<and> upd_id u = j)"
      using v entry(2,4) f by (cases "l = k") auto
  next
    fix l u assume l: "l < length (st_buffer ?s')" and u: "st_buffer ?s' ! l = Some u"
    show "st_index ?s' (upd_id u) = Some l"
    proof (cases "l = k")
      case True
      then show ?thesis using u l f id_u entry(3) by auto
    next
      case False
      then show ?thesis using u l wf_statement_slot [OF entry(1)] by auto
    qed
  qed
  have "buffered ?s' j = ((buffered s)(i \<mapsto> f ?u)) j" for j
  proof (cases "j = i")
    case True
    then show ?thesis using entry(2,3) by (simp add: buffered_def)
  next
    case False
    then have "st_index t j \<noteq> Some k"
      using entry(1,4) id_u by (auto elim!: wf_statement_index)
    then have "buffered ?s' j = buffered t j"
      by (auto simp: buffered_def split: option.splits)
    then show ?thesis using False entry(5) by simp
  qed
  then have "buffered ?s' = (buffered s)(i \<mapsto> f ?u)" by (rule ext)
  then show ?thesis using eq wf' by blast
qed

lemma extract_entry_ok:
  assumes wf: "wf_statement s"
  shows "\<exists>s'. extract_entry i s = Inr (s', buffered s i) \<and> wf_statement s' \<and>
    buffered s' = (buffered s)(i := None)"
proof (cases "st_index s i")
  case None
  then have "buffered s i = None" by (simp add: buffered_def)
  then have "(buffered s)(i := None) = buffered s" by auto
  with None wf \<open>buffered s i = None\<close> show ?thesis by (simp add: extract_entry_def)
next
  case (Some k)
  then obtain u where u: "k < length (st_buffer s)" "st_buffer s ! k = Some u" "upd_id u = i"
    by (rule wf_statement_index [OF wf])
  let ?s' = "\<lparr>st_buffer = (st_buffer s)[k := None], st_index = (st_index s)(i := None)\<rparr>"
  have eq: "extract_entry i s = Inr (?s', buffered s i)"
    using Some u by (simp add: extract_entry_def buffered_def)
  have other: "st_index s j = Some l \<Longrightarrow> j \<noteq> i \<Longrightarrow> l \<noteq> k" for j l
    using wf u by (auto elim!: wf_statement_index)
  have wf': "wf_statement ?s'"
  proof (rule wf_statementI)
    fix j l assume "st_index ?s' j = Some l"
    then have j: "j \<noteq> i" "st_index s j = Some l" by (auto split: if_splits)
    then have "l \<noteq> k" using other by blast
    with j show "l < length (st_buffer ?s') \<and> (\<exists>u. st_buffer ?s' ! l = Some u \<and> upd_id u = j)"
      using wf by (auto elim: wf_statement_index)
  next
    fix l v assume l: "l < length (st_buffer ?s')" and v: "st_buffer ?s' ! l = Some v"
    then have lk: "l \<noteq> k" by auto
    with l v have idx: "st_index s (upd_id v) = Some l"
      using wf_statement_slot [OF wf] by auto
    then have "upd_id v \<noteq> i" using Some lk by auto
    with idx show "st_index ?s' (upd_id v) = Some l" by simp
  qed
  have "buffered ?s' j = ((buffered s)(i := None)) j" for j
    using other [of j] by (auto simp: buffered_def split: option.splits)
  then have "buffered ?s' = (buffered s)(i := None)" by (rule ext)
  then show ?thesis using eq wf' by blast
qed

lemma take_updates_mem:
  assumes "wf_statement s"
  shows "u \<in> set (snd (take_updates s)) \<longleftrightarrow>
    buffered s (upd_id u) = Some u \<and> \<not> is_vacant u"
  using assms
  by (simp add: take_updates_def set_map_filter_id buffered_Some_iff)
    (auto simp: in_set_conv_nth)

lemma take_updates_distinct:
  assumes "wf_statement s"
  shows "distinct (map upd_id (snd (take_updates s)))"
proof -
  have "distinct (map upd_id (List.map_filter id (st_buffer s)))"
  proof (rule distinct_map_filter_id)
    fix k l x y
    assume "k < length (st_buffer s)" "l < length (st_buffer s)"
      "st_buffer s ! k = Some x" "st_buffer s ! l = Some y" "upd_id x = upd_id y"
    then show "k = l"
      using wf_statement_slot [OF assms] by (metis option.inject)
  qed
  then show ?thesis
    by (simp add: take_updates_def distinct_map_filter_fst)
qed

lemma empty_statement_simps [simp]:
  "wf_statement empty_statement"
  "buffered empty_statement i = None"
  "fst (take_updates s) = empty_statement"
  by (simp_all add: empty_statement_def wf_statement_def buffered_def take_updates_def)

interpretation statement: update_buffer
  wf_statement buffered modify_entry extract_entry take_updates empty_statement
proof
  show "upd_id u = i" if "wf_statement s" "buffered s i = Some u" for s i u
    using that by (simp add: buffered_Some_iff)
  show "u \<in> set (snd (take_updates s)) \<longleftrightarrow> buffered s (upd_id u) = Some u \<and> \<not> is_vacant u"
    if "wf_statement s" for s u
    using that by (rule take_updates_mem)
qed (simp_all add: modify_entry_ok extract_entry_ok take_updates_distinct)

section \<open>Effect of the operations on accounts and entries\<close>

definition wf_ledger :: "ledger \<Rightarrow> bool" where
  "wf_ledger L \<longleftrightarrow> wf_statement (lg_statement L)"

definition lg_entry :: "ledger \<Rightarrow> request_id \<Rightarrow> request_update option" where
  "lg_entry L i = buffered (lg_statement L) i"

text \<open>The record an operation on \<open>i\<close> starts from.\<close>

definition entry_or_empty :: "request_id \<Rightarrow> request_update option \<Rightarrow> request_update" where
  "entry_or_empty i b = (case b of None \<Rightarrow> empty_update i | Some u \<Rightarrow> u)"

lemma entry_or_empty_simps [simp]:
  "entry_or_empty i None = empty_update i"
  "entry_or_empty i (Some u) = u"
  by (simp_all add: entry_or_empty_def)

lemma with_entry_total:
  assumes "wf_ledger L" and "\<And>u. upd_id (f u) = upd_id u"
  obtains L' where "with_entry i f L = Inr L'" and "wf_ledger L'"
    and "lg_accounts L' = lg_accounts L"
    and "lg_entry L' = (lg_entry L)(i \<mapsto> f (entry_or_empty i (lg_entry L i)))"
proof -
  obtain s where s: "modify_entry i f (lg_statement L) = Inr s" "wf_statement s"
      "buffered s = (buffered (lg_statement L))(i \<mapsto>
         f (entry_or_empty i (buffered (lg_statement L) i)))"
    using statement.bmodify_ok [of "lg_statement L" f i] assms
    unfolding wf_ledger_def entry_or_empty_def by blast
  show thesis
    by (rule that [of "L\<lparr>lg_statement := s\<rparr>"])
      (use s in \<open>auto simp: with_entry_def wf_ledger_def lg_entry_def fun_eq_iff\<close>)
qed

lemma with_entry_Inr:
  assumes "with_entry i f L = Inr L'" and "wf_ledger L" and "\<And>u. upd_id (f u) = upd_id u"
  shows "wf_ledger L'" and "lg_accounts L' = lg_accounts L"
    and "lg_entry L' = (lg_entry L)(i \<mapsto> f (entry_or_empty i (lg_entry L i)))"
proof -
  obtain K where "with_entry i f L = Inr K" and K: "wf_ledger K" "lg_accounts K = lg_accounts L"
      "lg_entry K = (lg_entry L)(i \<mapsto> f (entry_or_empty i (lg_entry L i)))"
    by (rule with_entry_total [OF assms(2,3)])
  with assms(1) have "K = L'" by simp
  with K show "wf_ledger L'" and "lg_accounts L' = lg_accounts L"
    and "lg_entry L' = (lg_entry L)(i \<mapsto> f (entry_or_empty i (lg_entry L i)))" by simp_all
qed

lemma extract_entry_Inr:
  assumes "extract_entry i s = Inr (s', b)" and "wf_statement s"
  shows "wf_statement s'" and "b = buffered s i" and "buffered s' = (buffered s)(i := None)"
  using assms statement.bextract_ok [OF assms(2), of i] by auto

lemma with_entry_not_Inl:
  "wf_ledger L \<Longrightarrow> (\<And>u. upd_id (f u) = upd_id u) \<Longrightarrow> with_entry i f L \<noteq> Inl e"
  by (erule with_entry_total [of L f i]) auto

lemma extract_entry_not_Inl: "wf_statement s \<Longrightarrow> extract_entry i s \<noteq> Inl e"
  using statement.bextract_ok [of s i] by auto

lemma wf_new_ledger [simp]:
  "wf_ledger new_ledger" "lg_entry new_ledger i = None" "lg_accounts new_ledger = Map.empty"
  by (simp_all add: wf_ledger_def lg_entry_def new_ledger_def)

lemma wf_ledger_accounts [simp]: "wf_ledger (L\<lparr>lg_accounts := A\<rparr>) = wf_ledger L"
  by (simp add: wf_ledger_def)

lemma lg_entry_accounts [simp]: "lg_entry (L\<lparr>lg_accounts := A\<rparr>) = lg_entry L"
  by (simp add: lg_entry_def fun_eq_iff)

lemma case_state_Inr [panic_simps]:
  "(case st of Queued \<Rightarrow> Inl e | Active n \<Rightarrow> g n) = Inr y \<longleftrightarrow>
    (\<exists>n. st = Active n \<and> g n = Inr y)"
  "(case st of Queued \<Rightarrow> z | Active n \<Rightarrow> Inl (h n)) = Inr y \<longleftrightarrow> st = Queued \<and> z = Inr y"
  by (cases st; auto)+

lemma close_account_Inr [panic_simps]:
  "close_account i L = Inr (a, L') \<longleftrightarrow>
    lg_accounts L i = Some a \<and> L' = L\<lparr>lg_accounts := (lg_accounts L)(i := None)\<rparr>"
  by (auto simp: close_account_def split: option.splits)

text \<open>
  A commit ships each buffered record that carries a fact, and leaves an empty statement.
\<close>

lemma commit_step_ledger:
  "lg_accounts (fst (commit_step L c)) = lg_accounts L"
  "lg_entry (fst (commit_step L c)) i = None"
  "wf_ledger (fst (commit_step L c))"
  by (simp_all add: commit_step_def take_updates_def lg_entry_def wf_ledger_def)

end
