(* ===== verification/Speculative.thy ===== *)
theory Speculative
  imports Step_Contract
begin

text \<open>
  The method-agnostic half of speculative decoding, \<open>pegainfer-qwen3/src/speculative.rs\<close>:
  verify spans, the acceptance rule and its batched form over a flattened verify result. The
  indexed reads of the source are written with their bounds: \<open>None\<close> and \<open>Inl\<close> are
  the panics and the errors of the code.
\<close>

section \<open>Items and results\<close>

record verify_item =
  vi_id :: request_id
  vi_token_ids :: "token list"
  vi_params :: sampling_params

record verify_result =
  vr_id :: request_id
  vr_matched_draft_tokens :: usize
  vr_accepted_tokens :: "token list"

record draft_item =
  dft_id :: request_id
  dft_current_token :: token
  dft_hedge_budget :: usize

record draft_result =
  dfr_id :: request_id
  dfr_token_ids :: "token list"

datatype verify_error =
    EmptySpan request_id
  | ShortTargets
  | UnusedTargets usize usize
  | IndexPanic

section \<open>Acceptance\<close>

function num_accepted_from :: "token list \<Rightarrow> token list \<Rightarrow> nat \<Rightarrow> nat option" where
  "num_accepted_from proposed target i =
     (if i < length proposed then
        (if i < length target then
           (if proposed ! i = target ! i then num_accepted_from proposed target (Suc i) else Some i)
         else None)
      else Some i)"
  by pat_completeness auto
termination
  by (relation "measure (\<lambda>(proposed, target, i). length proposed - i)") auto

declare num_accepted_from.simps [simp del]

definition num_accepted :: "token list \<Rightarrow> token list \<Rightarrow> nat option" where
  "num_accepted proposed target = num_accepted_from proposed target 0"

definition accept_prefix_match :: "token list \<Rightarrow> token list \<Rightarrow> token list option" where
  "accept_prefix_match proposed target =
     (case num_accepted proposed target of
        None \<Rightarrow> None
      | Some n \<Rightarrow> if n < length target then Some (take n proposed @ [target ! n]) else None)"

fun verify_loop ::
  "verify_item list \<Rightarrow> token list \<Rightarrow> nat \<Rightarrow> verify_result list \<Rightarrow>
   verify_error + (nat \<times> verify_result list)"
where
  "verify_loop [] target offset outputs = Inr (offset, outputs)"
| "verify_loop (r # rs) target offset outputs =
     (let span_len = length (vi_token_ids r); stop = offset + span_len in
      if span_len = 0 then Inl (EmptySpan (vi_id r))
      else if stop > length target then Inl ShortTargets
      else case accept_prefix_match (drop 1 (vi_token_ids r)) (take span_len (drop offset target)) of
        None \<Rightarrow> Inl IndexPanic
      | Some accepted \<Rightarrow>
          verify_loop rs target stop
            (outputs @ [\<lparr>vr_id = vi_id r, vr_matched_draft_tokens = length accepted - 1,
                         vr_accepted_tokens = accepted\<rparr>]))"

definition build_verify_results ::
  "verify_item list \<Rightarrow> token list \<Rightarrow> verify_error + verify_result list" where
  "build_verify_results requests target =
     bind_res (verify_loop requests target 0 []) (\<lambda>(offset, outputs).
       if offset = length target then Inr outputs
       else Inl (UnusedTargets offset (length target)))"

section \<open>Reference acceptance\<close>

text \<open>
  The specification: the drafts are compared one by one with the target's tokens; every
  agreeing draft is committed, and the target's own token closes the run.
\<close>

fun accept_ref :: "token list \<Rightarrow> token list \<Rightarrow> token list" where
  "accept_ref [] target = take 1 target"
| "accept_ref (p # ps) [] = []"
| "accept_ref (p # ps) (t # ts) = (if p = t then p # accept_ref ps ts else [t])"

lemma num_accepted_from_shift:
  "num_accepted_from (p # ps) (t # ts) (Suc i) = map_option Suc (num_accepted_from ps ts i)"
proof (induction ps ts i rule: num_accepted_from.induct)
  case (1 ps ts i)
  then show ?case
    by (subst (1 2) num_accepted_from.simps) auto
qed

lemma num_accepted_simps [simp]:
  "num_accepted [] target = Some 0"
  "num_accepted (p # ps) (t # ts) =
     (if p = t then map_option Suc (num_accepted ps ts) else Some 0)"
  by (simp_all add: num_accepted_def num_accepted_from.simps [of "[]"]
      num_accepted_from.simps [of "p # ps" "t # ts" 0] num_accepted_from_shift)

lemma accept_prefix_match_ref:
  "length target = length proposed + 1 \<Longrightarrow>
    accept_prefix_match proposed target = Some (accept_ref proposed target)"
proof (induction proposed target rule: accept_ref.induct)
  case (1 target)
  then show ?case by (cases target) (auto simp: accept_prefix_match_def)
next
  case (3 p ps t ts)
  then show ?case
    by (auto simp: accept_prefix_match_def split: option.splits if_splits)
qed simp

text \<open>The committed run: a prefix of the drafts, then one token of the target.\<close>

lemma accept_ref_shape:
  assumes "length target = length proposed + 1"
  shows "\<exists>n \<le> length proposed.
    accept_ref proposed target = take n proposed @ [target ! n] \<and>
    take n proposed = take n target \<and>
    (n < length proposed \<longrightarrow> proposed ! n \<noteq> target ! n)"
  using assms
proof (induction proposed target rule: accept_ref.induct)
  case (1 target)
  then show ?case by (cases target) auto
next
  case (3 p ps t ts)
  show ?case
  proof (cases "p = t")
    case True
    have "length ts = length ps + 1" using "3.prems" by simp
    from "3.IH" [OF True this] obtain n where "n \<le> length ps" "accept_ref ps ts = take n ps @ [ts ! n]"
        "take n ps = take n ts" "n < length ps \<longrightarrow> ps ! n \<noteq> ts ! n"
      by blast
    with True show ?thesis by (intro exI [of _ "Suc n"]) auto
  next
    case False
    then show ?thesis by (intro exI [of _ 0]) auto
  qed
qed simp

lemma accept_ref_length:
  "length target = length proposed + 1 \<Longrightarrow>
    1 \<le> length (accept_ref proposed target) \<and> length (accept_ref proposed target) \<le> length proposed + 1"
  using accept_ref_shape [of target proposed] by auto

section \<open>Batched acceptance\<close>

text \<open>Each request's span of the flattened target tokens.\<close>

fun target_spans :: "verify_item list \<Rightarrow> token list \<Rightarrow> token list list" where
  "target_spans [] target = []"
| "target_spans (r # rs) target =
     take (length (vi_token_ids r)) target # target_spans rs (drop (length (vi_token_ids r)) target)"

definition verify_ref :: "verify_item \<Rightarrow> token list \<Rightarrow> verify_result" where
  "verify_ref r span =
     (let accepted = accept_ref (drop 1 (vi_token_ids r)) span in
      \<lparr>vr_id = vi_id r, vr_matched_draft_tokens = length accepted - 1,
       vr_accepted_tokens = accepted\<rparr>)"

definition span_total :: "verify_item list \<Rightarrow> nat" where
  "span_total rs = sum_list (map (\<lambda>r. length (vi_token_ids r)) rs)"

lemma verify_loop_ref:
  assumes "\<forall>r \<in> set rs. vi_token_ids r \<noteq> []" and "offset + span_total rs \<le> length target"
  shows "verify_loop rs target offset outputs =
    Inr (offset + span_total rs, outputs @ map2 verify_ref rs (target_spans rs (drop offset target)))"
  using assms
proof (induction rs arbitrary: offset outputs)
  case Nil
  then show ?case by (simp add: span_total_def)
next
  case (Cons r rs)
  let ?n = "length (vi_token_ids r)"
  have n: "0 < ?n" "offset + ?n \<le> length target" and
      rest: "offset + ?n + span_total rs \<le> length target"
    using Cons.prems by (auto simp: span_total_def)
  have "accept_prefix_match (drop 1 (vi_token_ids r)) (take ?n (drop offset target)) =
      Some (accept_ref (drop 1 (vi_token_ids r)) (take ?n (drop offset target)))"
    using n by (intro accept_prefix_match_ref) auto
  with n rest Cons.IH [of "offset + ?n"] Cons.prems show ?case
    by (simp add: verify_ref_def span_total_def Let_def add_ac)
qed

definition verify_fits :: "verify_item \<Rightarrow> verify_result \<Rightarrow> bool" where
  "verify_fits r v \<longleftrightarrow> vr_id v = vi_id r \<and> 1 \<le> length (vr_accepted_tokens v) \<and>
     length (vr_accepted_tokens v) \<le> length (vi_token_ids r) \<and>
     vr_matched_draft_tokens v + 1 = length (vr_accepted_tokens v)"

lemma verify_loop_Inr:
  "verify_loop rs target offset outputs = Inr (offset', outputs') \<Longrightarrow>
    offset' = offset + span_total rs \<and>
    (\<exists>vs. outputs' = outputs @ vs \<and> list_all2 verify_fits rs vs)"
proof (induction rs arbitrary: offset outputs)
  case Nil
  then show ?case by (simp add: span_total_def)
next
  case (Cons r rs)
  let ?n = "length (vi_token_ids r)"
  let ?acc = "accept_ref (drop 1 (vi_token_ids r)) (take ?n (drop offset target))"
  let ?v = "\<lparr>vr_id = vi_id r, vr_matched_draft_tokens = length ?acc - 1, vr_accepted_tokens = ?acc\<rparr>"
  have n: "0 < ?n" "offset + ?n \<le> length target"
    using Cons.prems by (auto simp: Let_def split: if_splits)
  then have len: "length (take ?n (drop offset target)) = length (drop 1 (vi_token_ids r)) + 1" by auto
  have "verify_loop rs target (offset + ?n) (outputs @ [?v]) = Inr (offset', outputs')"
    using Cons.prems n accept_prefix_match_ref [OF len] by (simp add: Let_def)
  from Cons.IH [OF this] obtain vs where "offset' = offset + ?n + span_total rs"
      "outputs' = outputs @ ?v # vs" "list_all2 verify_fits rs vs" by auto
  moreover have "verify_fits r ?v"
    using accept_ref_length [OF len] n by (auto simp: verify_fits_def)
  ultimately show ?case by (auto simp: span_total_def)
qed

section \<open>Properties of speculative acceptance\<close>

definition demo_verify :: "verify_item list" where
  "demo_verify =
     [\<lparr>vi_id = 1, vi_token_ids = [5, 6, 7], vi_params = default_sampling_params\<rparr>,
      \<lparr>vi_id = 2, vi_token_ids = [8], vi_params = default_sampling_params\<rparr>]"

text \<open>
  C30: The acceptance loop commits the longest prefix of the drafts the target agrees with,
  followed by exactly one token of the target, so between one and \<open>K + 1\<close> tokens; it
  never reads out of bounds when the target has one token more than the drafts.
\<close>

theorem accept_prefix_match_correct:
  assumes "length target = length proposed + 1"
  shows "\<exists>n \<le> length proposed.
    accept_prefix_match proposed target = Some (take n proposed @ [target ! n]) \<and>
    take n proposed = take n target \<and> (n = length proposed \<or> proposed ! n \<noteq> target ! n)"
  using accept_ref_shape [OF assms] accept_prefix_match_ref [OF assms] by auto

theorem accept_prefix_match_correct_witness:
  "\<exists>n \<le> length [10, 11, 12 :: token].
    accept_prefix_match [10, 11, 12] [10, 11, 99, 7] = Some (take n [10, 11, 12] @ [[10, 11, 99, 7] ! n]) \<and>
    take n [10, 11, 12] = take n [10, 11, 99, 7 :: token] \<and>
    (n = length [10, 11, 12 :: token] \<or> [10, 11, 12] ! n \<noteq> [10, 11, 99, 7 :: token] ! n)"
  by (rule accept_prefix_match_correct) simp

text \<open>
  C31: Batched acceptance over a flattened verify result is the reference acceptance of
  each request on its own span: no request sees another request's tokens.
\<close>

theorem build_verify_results_correct:
  assumes "\<forall>r \<in> set requests. vi_token_ids r \<noteq> []" and "span_total requests = length target"
  shows "build_verify_results requests target =
    Inr (map2 verify_ref requests (target_spans requests target))"
  using verify_loop_ref [of requests 0 target "[]"] assms by (simp add: build_verify_results_def)

theorem build_verify_results_correct_witness:
  "build_verify_results demo_verify [6, 9, 4, 3] =
    Inr [\<lparr>vr_id = 1, vr_matched_draft_tokens = 1, vr_accepted_tokens = [6, 9]\<rparr>,
         \<lparr>vr_id = 2, vr_matched_draft_tokens = 0, vr_accepted_tokens = [3]\<rparr>]"
  using build_verify_results_correct [of demo_verify "[6, 9, 4, 3]"]
  by (simp add: demo_verify_def span_total_def verify_ref_def)

text \<open>
  A verify result whose length does not match the spans is refused, never misread: a
  success consumes every target token, and every request commits at least one token and at
  most as many as its span has.
\<close>

theorem build_verify_results_exact:
  assumes "build_verify_results requests target = Inr outputs"
  shows "span_total requests = length target \<and> list_all2 verify_fits requests outputs"
  using assms verify_loop_Inr [of requests target 0 "[]"]
  by (auto simp: build_verify_results_def panic_simps split: if_splits)

theorem build_verify_results_exact_witness:
  "span_total demo_verify = length [6, 9, 4, 3 :: token] \<and>
    list_all2 verify_fits demo_verify
      [\<lparr>vr_id = 1, vr_matched_draft_tokens = 1, vr_accepted_tokens = [6, 9]\<rparr>,
       \<lparr>vr_id = 2, vr_matched_draft_tokens = 0, vr_accepted_tokens = [3]\<rparr>]"
  by (rule build_verify_results_exact)
    (simp add: demo_verify_def build_verify_results_def accept_prefix_match_def Let_def)

end
