(* ===== verification/Qwen3_Scheduler.thy ===== *)
theory Qwen3_Scheduler
  imports Ledger Speculative
begin

text \<open>
  The scheduling mechanics of the Qwen3 model line: \<open>pegainfer-qwen3/src/scheduler.rs\<close>
  (chunked-prefill batching, prefetch parking, admission, plan selection),
  \<open>scheduler/plan.rs\<close> (plans and their execution), \<open>scheduler/resolve.rs\<close> and
  \<open>scheduler/effects.rs\<close> (results turned into per-request effects) and
  \<open>scheduler/phase_trace.rs\<close>.

  The executor is generic in the source (the \<open>ModelExecutor\<close> trait); here it is a record
  of functions over a state of any type, an argument of every definition that calls it. A
  fallible executor call returns \<open>Inl\<close> of an error text. The seeds a step draws from
  the random generator are read from a sequence that is an argument too.
\<close>

section \<open>Requests\<close>

record active_request =
  ar_id :: request_id
  ar_lora_adapter :: "string option"
  ar_last_token :: token
  ar_generated_count :: usize
  ar_max_tokens :: usize
  ar_prompt_len :: usize
  ar_params :: sampling_params
  ar_logprobs :: usize

record pending_request =
  pr_id :: request_id
  pr_lora_adapter :: "string option"
  pr_prompt_tokens :: "token list"
  pr_params :: sampling_params
  pr_max_tokens :: usize
  pr_logprobs :: usize
  pr_echo :: bool
  pr_prefetch_offered :: bool
  pr_prefill_pos :: usize
  pr_step_chunk :: usize
  pr_cached_tokens :: usize

definition from_request :: "request_id \<Rightarrow> request \<Rightarrow> pending_request" where
  "from_request i r =
     \<lparr>pr_id = i, pr_lora_adapter = rq_lora_adapter r, pr_prompt_tokens = rq_prompt_tokens r,
      pr_params = rq_params r, pr_max_tokens = rq_max_tokens r, pr_logprobs = rq_logprobs r,
      pr_echo = rq_echo r, pr_prefetch_offered = False, pr_prefill_pos = 0, pr_step_chunk = 0,
      pr_cached_tokens = 0\<rparr>"

text \<open>The subtraction is on \<open>usize\<close>: below zero it wraps.\<close>

definition remaining_prompt_tokens :: "pending_request \<Rightarrow> usize" where
  "remaining_prompt_tokens r =
     (if pr_prefill_pos r \<le> length (pr_prompt_tokens r)
      then length (pr_prompt_tokens r) - pr_prefill_pos r
      else usize_max + 1 - (pr_prefill_pos r - length (pr_prompt_tokens r)))"

section \<open>Chunked-prefill batching\<close>

text \<open>The chunk one request takes from the budget, or \<open>None\<close> when it sits the step out.\<close>

definition prefill_chunk :: "usize \<Rightarrow> bool \<Rightarrow> usize \<Rightarrow> pending_request \<Rightarrow> usize option" where
  "prefill_chunk max_prefill request_local budget r =
     (let remaining = remaining_prompt_tokens r in
      if pr_echo r then (if remaining > budget then None else Some remaining)
      else if request_local then
        (let desired = min remaining max_prefill in
         if desired > budget then None else Some desired)
      else Some (min remaining budget))"

definition remove_nth :: "nat \<Rightarrow> 'a list \<Rightarrow> 'a list" where
  "remove_nth i xs = take i xs @ drop (Suc i) xs"

lemma length_remove_nth [simp]: "i < length xs \<Longrightarrow> length (remove_nth i xs) = length xs - 1"
  by (simp add: remove_nth_def)

function take_chunks_loop ::
  "usize \<Rightarrow> bool \<Rightarrow> pending_request list \<Rightarrow> nat \<Rightarrow> usize \<Rightarrow> pending_request list \<Rightarrow>
   pending_request list \<times> pending_request list"
where
  "take_chunks_loop m loc prefilling i budget taken =
     (if i < length prefilling \<and> budget > 0 then
        (case prefill_chunk m loc budget (prefilling ! i) of
           None \<Rightarrow> take_chunks_loop m loc prefilling (Suc i) budget taken
         | Some chunk \<Rightarrow>
             take_chunks_loop m loc (remove_nth i prefilling) i (saturating_sub budget chunk)
               (taken @ [(prefilling ! i)\<lparr>pr_step_chunk := chunk\<rparr>]))
      else (prefilling, taken))"
  by pat_completeness auto
termination
  by (relation "measure (\<lambda>(m, loc, prefilling, i, budget, taken). length prefilling - i)") auto

declare take_chunks_loop.simps [simp del]

definition take_prefill_chunks ::
  "pending_request list \<Rightarrow> usize \<Rightarrow> bool \<Rightarrow> pending_request list \<times> pending_request list"
where
  "take_prefill_chunks prefilling m loc =
     (let (rest, taken) = take_chunks_loop m loc prefilling 0 m [] in
      (rest, sort_key pr_id taken))"

definition servable_len :: "usize \<Rightarrow> usize \<Rightarrow> usize \<Rightarrow> u32" where
  "servable_len max_context max_blocks block_size =
     (let n = min max_context (saturating_mul max_blocks block_size) in
      if n < 2 ^ 32 then of_nat n else - 1)"

section \<open>Step items and results\<close>

record prefill_item =
  pi_id :: request_id
  pi_prompt_tokens :: "token list"
  pi_max_output_tokens :: usize
  pi_params :: sampling_params
  pi_logprobs :: usize
  pi_echo :: bool
  pi_lora_adapter :: "string option"
  pi_cached_tokens :: usize
  pi_chunk_budget :: usize
  pi_chunk_start :: usize
  pi_chunk_tokens :: usize

record decode_item =
  di_id :: request_id
  di_token :: token
  di_params :: sampling_params
  di_logprobs :: usize
  di_lora_adapter :: "string option"

record prefill_request_result =
  pq_id :: request_id
  pq_first_token :: token
  pq_first_token_logprob :: "token_logprob option"
  pq_prompt_logprobs :: "token_logprob option list option"
  pq_cached_tokens :: usize
  pq_completed :: bool
  pq_prefill_pos :: usize

record decode_request_result =
  dr_id :: request_id
  dr_token :: token
  dr_logprob :: "token_logprob option"

record prefill_plan =
  pp_requests :: "prefill_item list"
  pp_echo :: bool
  pp_sample_seed :: u64

record decode_plan =
  dp_requests :: "decode_item list"
  dp_sample_seed :: u64

record unified_plan =
  up_prefill_requests :: "prefill_item list"
  up_decode_requests :: "decode_item list"
  up_sample_seed :: u64

record prefill_result =
  prr_requests :: "prefill_request_result list"
  prr_captured :: "request_id list"

record unified_result =
  ur_prefill_requests :: "prefill_request_result list"
  ur_decode_requests :: "decode_request_result list"

datatype lora_control = LoraLoad string string bool | LoraUnload string "int option" | LoraList

section \<open>The executor interface\<close>

record 'x executor =
  ex_block_size :: "'x \<Rightarrow> usize"
  ex_max_request_blocks :: "'x \<Rightarrow> usize"
  ex_max_context_tokens :: "'x \<Rightarrow> usize"
  ex_max_decode_batch_size :: "'x \<Rightarrow> usize"
  ex_available_blocks :: "'x \<Rightarrow> usize"
  ex_is_stop_token :: "'x \<Rightarrow> token \<Rightarrow> bool"
  ex_drop_request :: "request_id \<Rightarrow> 'x \<Rightarrow> (string + unit) \<times> 'x"
  ex_execute_prefill :: "prefill_plan \<Rightarrow> 'x \<Rightarrow> (string + prefill_result) \<times> 'x"
  ex_execute_decode :: "decode_plan \<Rightarrow> 'x \<Rightarrow> (string + decode_request_result list) \<times> 'x"
  ex_execute_unified :: "unified_plan \<Rightarrow> 'x \<Rightarrow> (string + unified_result) \<times> 'x"
  ex_execute_draft :: "draft_item list \<Rightarrow> 'x \<Rightarrow> (string + draft_result list) \<times> 'x"
  ex_execute_verify :: "verify_item list \<Rightarrow> u64 \<Rightarrow> 'x \<Rightarrow> (string + verify_result list) \<times> 'x"
  ex_speculative_enabled :: "'x \<Rightarrow> bool"
  ex_request_ready :: "'x \<Rightarrow> request_id \<Rightarrow> bool"
  ex_list_lora_adapters :: "'x \<Rightarrow> string list"
  ex_lora_command :: "lora_control \<Rightarrow> 'x \<Rightarrow> 'x"
  ex_begin_kv_prefetch ::
    "request_id \<Rightarrow> token list \<Rightarrow> string option \<Rightarrow> usize \<Rightarrow> 'x \<Rightarrow> bool \<times> 'x"
  ex_drain_ready_prefetch :: "usize \<Rightarrow> 'x \<Rightarrow> request_id list \<times> 'x"
  ex_wait_ready_prefetch :: "usize \<Rightarrow> 'x \<Rightarrow> request_id list \<times> 'x"
  ex_prefetched_blocks :: "'x \<Rightarrow> request_id \<Rightarrow> usize"
  ex_withholds_finishes :: "'x \<Rightarrow> bool"
  ex_has_decode_overlap :: "'x \<Rightarrow> bool"
  ex_poll_async_prefill :: "'x \<Rightarrow> prefill_result option \<times> 'x"

section \<open>Prefetch parking\<close>

fun promote_ready ::
  "request_id list \<Rightarrow> pending_request list \<Rightarrow> pending_request list \<Rightarrow>
   pending_request list \<times> pending_request list"
where
  "promote_ready [] deferred loading = (deferred, loading)"
| "promote_ready (i # ready) deferred loading =
     (case find_position (\<lambda>p. pr_id p = i) loading of
        None \<Rightarrow> promote_ready ready deferred loading
      | Some pos \<Rightarrow> promote_ready ready (loading ! pos # deferred) (remove_nth pos loading))"

definition reclaim_ready_prefetch ::
  "'x executor \<Rightarrow> 'x \<Rightarrow> pending_request list \<Rightarrow> pending_request list \<Rightarrow> usize \<Rightarrow>
   pending_request list \<times> pending_request list \<times> 'x"
where
  "reclaim_ready_prefetch E x deferred loading reserve_floor =
     (let (ready, x') = ex_drain_ready_prefetch E reserve_floor x;
          (d, l) = promote_ready ready deferred loading in (d, l, x'))"

definition block_on_loading ::
  "'x executor \<Rightarrow> 'x \<Rightarrow> pending_request list \<Rightarrow> pending_request list \<Rightarrow> usize \<Rightarrow>
   pending_request list \<times> pending_request list \<times> 'x"
where
  "block_on_loading E x deferred loading reserve_floor =
     (let (ready, x') = ex_wait_ready_prefetch E reserve_floor x;
          (d, l) = promote_ready ready deferred loading in (d, l, x'))"

fun offer_prefetch ::
  "'x executor \<Rightarrow> usize \<Rightarrow> 'x \<Rightarrow> pending_request list \<Rightarrow> pending_request list \<Rightarrow>
   pending_request list \<Rightarrow> pending_request list \<times> pending_request list \<times> 'x"
where
  "offer_prefetch E reserve_floor x [] loading keep = (keep, loading, x)"
| "offer_prefetch E reserve_floor x (r # deferred) loading keep =
     (if \<not> pr_prefetch_offered r \<and> \<not> pr_echo r then
        (let r' = r\<lparr>pr_prefetch_offered := True\<rparr>;
             (started, x') = ex_begin_kv_prefetch E (pr_id r) (pr_prompt_tokens r)
               (pr_lora_adapter r) reserve_floor x in
         if started then offer_prefetch E reserve_floor x' deferred (loading @ [r']) keep
         else offer_prefetch E reserve_floor x' deferred loading (keep @ [r']))
      else offer_prefetch E reserve_floor x deferred loading (keep @ [r]))"

section \<open>Admission\<close>

datatype admission_reject =
    AdmContextLength usize
  | AdmEchoPrefillTokens usize
  | AdmKvBudget

record admission_outcome =
  ao_pending :: "pending_request list"
  ao_deferred :: "pending_request list"
  ao_rejected :: "(pending_request \<times> admission_reject) list"

record lora_validation =
  lv_accepted :: "pending_request list"
  lv_rejected :: "pending_request list"

definition names_unknown_adapter :: "string list \<Rightarrow> pending_request \<Rightarrow> bool" where
  "names_unknown_adapter loaded r =
     (case pr_lora_adapter r of Some adapter \<Rightarrow> adapter \<notin> set loaded | None \<Rightarrow> False)"

definition reject_unknown_lora_requests ::
  "pending_request list \<Rightarrow> 'x executor \<Rightarrow> 'x \<Rightarrow> lora_validation" where
  "reject_unknown_lora_requests deferred E x =
     (if list_all (\<lambda>r. pr_lora_adapter r = None) deferred
      then \<lparr>lv_accepted = deferred, lv_rejected = []\<rparr>
      else (let loaded = ex_list_lora_adapters E x in
        \<lparr>lv_accepted = filter (\<lambda>r. \<not> names_unknown_adapter loaded r) deferred,
         lv_rejected = filter (names_unknown_adapter loaded) deferred\<rparr>))"

definition blocks_needed :: "usize \<Rightarrow> usize \<Rightarrow> usize" where
  "blocks_needed token_count block_size = div_ceil token_count block_size"

definition max_request_tokens :: "pending_request \<Rightarrow> usize" where
  "max_request_tokens r =
     saturating_add (length (pr_prompt_tokens r)) (saturating_sub (pr_max_tokens r) 1)"

definition current_active_tokens :: "active_request \<Rightarrow> usize" where
  "current_active_tokens r =
     saturating_add (ar_prompt_len r) (saturating_sub (ar_generated_count r) 1)"

definition request_lifetime_blocks :: "usize \<Rightarrow> usize \<Rightarrow> usize \<Rightarrow> usize" where
  "request_lifetime_blocks prompt_len max_tokens block_size =
     max (div_ceil (if max_tokens \<le> 1 then prompt_len else saturating_add prompt_len max_tokens)
            block_size) 1"

definition pending_lifetime_blocks :: "pending_request \<Rightarrow> usize \<Rightarrow> usize" where
  "pending_lifetime_blocks r block_size =
     request_lifetime_blocks (length (pr_prompt_tokens r)) (pr_max_tokens r) block_size"

definition active_lifetime_blocks :: "active_request \<Rightarrow> usize \<Rightarrow> usize" where
  "active_lifetime_blocks r block_size =
     request_lifetime_blocks (ar_prompt_len r) (ar_max_tokens r) block_size"

definition active_future_blocks :: "active_request list \<Rightarrow> usize \<Rightarrow> usize" where
  "active_future_blocks active block_size =
     sum_list (map (\<lambda>r. saturating_sub (active_lifetime_blocks r block_size)
       (blocks_needed (current_active_tokens r) block_size)) active)"

definition echo_exceeds_prefill_bound :: "pending_request \<Rightarrow> usize \<Rightarrow> bool" where
  "echo_exceeds_prefill_bound r max_prefill \<longleftrightarrow>
     pr_echo r \<and> length (pr_prompt_tokens r) > max_prefill"

definition prefilling_future_blocks ::
  "pending_request list \<Rightarrow> usize \<Rightarrow> (request_id \<Rightarrow> usize) \<Rightarrow> usize" where
  "prefilling_future_blocks prefilling block_size credit =
     sum_list (map (\<lambda>r. saturating_sub
       (saturating_sub (pending_lifetime_blocks r block_size)
          (blocks_needed (pr_prefill_pos r) block_size)) (credit (pr_id r))) prefilling)"

definition admitted_future_blocks ::
  "'x executor \<Rightarrow> 'x \<Rightarrow> active_request list \<Rightarrow> pending_request list \<Rightarrow> usize" where
  "admitted_future_blocks E x active prefilling =
     (let bs = ex_block_size E x in
      active_future_blocks active bs +
      prefilling_future_blocks prefilling bs (ex_prefetched_blocks E x))"

text \<open>The verdict on one request before budget and slots are looked at.\<close>

definition admission_verdict ::
  "usize \<Rightarrow> usize \<Rightarrow> usize \<Rightarrow> usize \<Rightarrow> pending_request \<Rightarrow> admission_reject option" where
  "admission_verdict block_size max_request_blocks max_context max_prefill r =
     (if saturating_add (length (pr_prompt_tokens r)) (pr_max_tokens r) > max_context
      then Some (AdmContextLength max_context)
      else if echo_exceeds_prefill_bound r max_prefill then Some (AdmEchoPrefillTokens max_prefill)
      else if pending_lifetime_blocks r block_size > max_request_blocks then Some AdmKvBudget
      else None)"

fun admit_loop ::
  "usize \<Rightarrow> usize \<Rightarrow> usize \<Rightarrow> usize \<Rightarrow> (request_id \<Rightarrow> usize) \<Rightarrow>
   pending_request list \<Rightarrow> usize \<Rightarrow> usize \<Rightarrow> admission_outcome \<Rightarrow> admission_outcome"
where
  "admit_loop bs mrb mct mpt credit [] budget slots out = out"
| "admit_loop bs mrb mct mpt credit (r # rs) budget slots out =
     (case admission_verdict bs mrb mct mpt r of
        Some why \<Rightarrow>
          admit_loop bs mrb mct mpt credit rs budget slots
            (out\<lparr>ao_rejected := ao_rejected out @ [(r, why)]\<rparr>)
      | None \<Rightarrow>
          (let fresh = saturating_sub (pending_lifetime_blocks r bs) (credit (pr_id r)) in
           if fresh \<le> budget \<and> slots > 0 then
             admit_loop bs mrb mct mpt credit rs (budget - fresh) (slots - 1)
               (out\<lparr>ao_pending := ao_pending out @ [r]\<rparr>)
           else
             admit_loop bs mrb mct mpt credit rs budget slots
               (out\<lparr>ao_deferred := ao_deferred out @ [r]\<rparr>)))"

definition admit_deferred_requests ::
  "pending_request list \<Rightarrow> active_request list \<Rightarrow> pending_request list \<Rightarrow> usize \<Rightarrow> usize \<Rightarrow>
   usize \<Rightarrow> usize \<Rightarrow> usize \<Rightarrow> usize \<Rightarrow> (request_id \<Rightarrow> usize) \<Rightarrow> admission_outcome"
where
  "admit_deferred_requests deferred active prefilling block_size available_blocks
     max_request_blocks max_context max_decode_batch max_prefill credit =
     admit_loop block_size max_request_blocks max_context max_prefill credit deferred
       (saturating_sub (saturating_sub available_blocks (active_future_blocks active block_size))
          (prefilling_future_blocks prefilling block_size credit))
       (saturating_sub (saturating_sub max_decode_batch (length active)) (length prefilling))
       \<lparr>ao_pending = [], ao_deferred = [], ao_rejected = []\<rparr>"

section \<open>Plans\<close>

datatype execution_plan =
    PlanPrefill "pending_request list"
  | PlanDecode
  | PlanSpeculative
  | PlanUnified "pending_request list"

datatype artifacts =
    ArtPrefill "pending_request list" prefill_result
  | ArtDecode "decode_request_result list"
  | ArtSpeculative "verify_result list"
  | ArtUnified "pending_request list" unified_result

definition build_next_plan :: "bool \<Rightarrow> pending_request list \<Rightarrow> bool \<Rightarrow> execution_plan option" where
  "build_next_plan have_active pending speculative =
     (let needs_prompt_logprobs = list_ex (\<lambda>r. pr_echo r \<and> pr_logprobs r > 0) pending;
          needs_dflash_capture = speculative \<and>
            list_ex (\<lambda>r. pr_lora_adapter r = None \<and> pr_logprobs r = 0) pending in
      if pending \<noteq> [] \<and> have_active \<and> \<not> needs_prompt_logprobs \<and> \<not> needs_dflash_capture
      then Some (PlanUnified pending)
      else if pending \<noteq> [] then Some (PlanPrefill pending)
      else if have_active then Some PlanDecode
      else None)"

definition should_speculative_decode :: "'x executor \<Rightarrow> 'x \<Rightarrow> active_request list \<Rightarrow> bool" where
  "should_speculative_decode E x active \<longleftrightarrow>
     ex_speculative_enabled E x \<and> active \<noteq> [] \<and>
     list_all (\<lambda>r. ex_request_ready E x (ar_id r) \<and> ar_lora_adapter r = None \<and> ar_logprobs r = 0)
       active"

definition runtime_plan ::
  "'x executor \<Rightarrow> 'x \<Rightarrow> active_request list \<Rightarrow> pending_request list \<Rightarrow> execution_plan option" where
  "runtime_plan E x active pending =
     (if should_speculative_decode E x active then
        (if pending = [] then Some PlanSpeculative else Some (PlanPrefill pending))
      else build_next_plan (active \<noteq> []) pending (ex_speculative_enabled E x))"

fun failure_target_ids :: "active_request list \<Rightarrow> execution_plan \<Rightarrow> request_id list" where
  "failure_target_ids active (PlanPrefill pending) = map pr_id pending"
| "failure_target_ids active PlanDecode = map ar_id active"
| "failure_target_ids active PlanSpeculative = map ar_id active"
| "failure_target_ids active (PlanUnified pending) = map ar_id active @ map pr_id pending"

definition build_prefill_items :: "pending_request list \<Rightarrow> prefill_item list" where
  "build_prefill_items pending = map (\<lambda>r.
     \<lparr>pi_id = pr_id r, pi_prompt_tokens = pr_prompt_tokens r,
      pi_max_output_tokens = pr_max_tokens r, pi_params = pr_params r,
      pi_logprobs = pr_logprobs r, pi_echo = pr_echo r, pi_lora_adapter = pr_lora_adapter r,
      pi_cached_tokens = pr_cached_tokens r, pi_chunk_budget = pr_step_chunk r,
      pi_chunk_start = 0, pi_chunk_tokens = 0\<rparr>) pending"

definition build_decode_items :: "active_request list \<Rightarrow> decode_item list" where
  "build_decode_items active = map (\<lambda>r.
     \<lparr>di_id = ar_id r, di_token = ar_last_token r, di_params = ar_params r,
      di_logprobs = ar_logprobs r, di_lora_adapter = ar_lora_adapter r\<rparr>) active"

definition build_speculative_draft_items :: "active_request list \<Rightarrow> draft_item list" where
  "build_speculative_draft_items active = map (\<lambda>r.
     \<lparr>dft_id = ar_id r, dft_current_token = ar_last_token r,
      dft_hedge_budget =
        (if is_greedy (ar_params r) then saturating_sub (ar_max_tokens r) (ar_generated_count r)
         else 0)\<rparr>) active"

definition find_active :: "request_id \<Rightarrow> active_request list \<Rightarrow> active_request option" where
  "find_active i active = find (\<lambda>r. ar_id r = i) active"

text \<open>\<open>None\<close> is the panic of an id the active set does not hold.\<close>

fun build_speculative_verify_items ::
  "active_request list \<Rightarrow> draft_result list \<Rightarrow> verify_item list option" where
  "build_speculative_verify_items active [] = Some []"
| "build_speculative_verify_items active (d # ds) =
     (case find_active (dfr_id d) active of
        None \<Rightarrow> None
      | Some r \<Rightarrow>
          (case build_speculative_verify_items active ds of
             None \<Rightarrow> None
           | Some vs \<Rightarrow>
               Some (\<lparr>vi_id = dfr_id d,
                      vi_token_ids =
                        take (saturating_sub (ar_max_tokens r) (ar_generated_count r))
                          (dfr_token_ids d),
                      vi_params = ar_params r\<rparr> # vs)))"

datatype 'a exec_outcome = ExecPanic string | ExecErr string | ExecOk 'a

text \<open>
  One plan, executed: the executor's results sorted by request id. \<open>draw\<close> is the sequence
  of the random generator and \<open>n\<close> how much of it is used; a failed draft draws nothing.
\<close>

fun execute_plan ::
  "'x executor \<Rightarrow> (nat \<Rightarrow> u64) \<Rightarrow> active_request list \<Rightarrow> execution_plan \<Rightarrow> nat \<Rightarrow> 'x \<Rightarrow>
   artifacts exec_outcome \<times> nat \<times> 'x"
where
  "execute_plan E draw active (PlanPrefill pending) n x =
     (case ex_execute_prefill E
        \<lparr>pp_requests = build_prefill_items pending, pp_echo = list_ex pr_echo pending,
         pp_sample_seed = draw n\<rparr> x of
        (Inl e, x') \<Rightarrow> (ExecErr e, Suc n, x')
      | (Inr r, x') \<Rightarrow>
          (ExecOk (ArtPrefill pending (r\<lparr>prr_requests := sort_key pq_id (prr_requests r)\<rparr>)), Suc n, x'))"
| "execute_plan E draw active PlanDecode n x =
     (case ex_execute_decode E
        \<lparr>dp_requests = build_decode_items active, dp_sample_seed = draw n\<rparr> x of
        (Inl e, x') \<Rightarrow> (ExecErr e, Suc n, x')
      | (Inr rs, x') \<Rightarrow> (ExecOk (ArtDecode (sort_key dr_id rs)), Suc n, x'))"
| "execute_plan E draw active PlanSpeculative n x =
     (case ex_execute_draft E (build_speculative_draft_items active) x of
        (Inl e, x') \<Rightarrow> (ExecErr e, n, x')
      | (Inr drafts, x') \<Rightarrow>
          (case build_speculative_verify_items active (sort_key dfr_id drafts) of
             None \<Rightarrow> (ExecPanic ''draft request_id must exist in active set'', n, x')
           | Some items \<Rightarrow>
               (case ex_execute_verify E items (draw n) x' of
                  (Inl e, x'') \<Rightarrow> (ExecErr e, Suc n, x'')
                | (Inr vs, x'') \<Rightarrow> (ExecOk (ArtSpeculative (sort_key vr_id vs)), Suc n, x''))))"
| "execute_plan E draw active (PlanUnified pending) n x =
     (case ex_execute_unified E
        \<lparr>up_prefill_requests = build_prefill_items pending,
         up_decode_requests = build_decode_items active, up_sample_seed = draw n\<rparr> x of
        (Inl e, x') \<Rightarrow> (ExecErr e, Suc n, x')
      | (Inr r, x') \<Rightarrow>
          (ExecOk (ArtUnified pending
             \<lparr>ur_prefill_requests = sort_key pq_id (ur_prefill_requests r),
              ur_decode_requests = sort_key dr_id (ur_decode_requests r)\<rparr>), Suc n, x'))"

section \<open>Effects\<close>

record cached_effect =
  ce_id :: request_id
  ce_cached_tokens :: usize

record echo_effect =
  ee_id :: request_id
  ee_ids :: "token list"
  ee_logprobs :: "token_logprob option list"

datatype pending_effect =
    PeFinish request_id finish_reason
  | PeEmitAndFinish request_id token "token_logprob option" finish_reason
  | PePromote active_request token "token_logprob option"
  | PeContinuePrefill pending_request

datatype decode_effect =
    DeFinish request_id finish_reason
  | DeEmitAndFinish request_id token "token_logprob option" finish_reason
  | DeEmitAndContinue request_id token "token_logprob option" usize
  | DeEmitManyAndContinue request_id "token list" usize
  | DeEmitManyAndFinish request_id "token list" finish_reason

record step_effects =
  se_cached :: "cached_effect list"
  se_prompt_echoes :: "echo_effect list"
  se_pending :: "pending_effect list"
  se_decode :: "decode_effect list"

definition empty_effects :: step_effects where
  "empty_effects = \<lparr>se_cached = [], se_prompt_echoes = [], se_pending = [], se_decode = []\<rparr>"

section \<open>Resolving results\<close>

text \<open>The walk over one accepted span; \<open>emitted\<close> and \<open>cnt\<close> are its running locals.\<close>

fun resolve_span ::
  "(token \<Rightarrow> bool) \<Rightarrow> active_request \<Rightarrow> request_id \<Rightarrow> token list \<Rightarrow> token list \<Rightarrow> usize \<Rightarrow>
   decode_effect"
where
  "resolve_span stop r i [] emitted cnt = DeEmitManyAndContinue i emitted cnt"
| "resolve_span stop r i (t # ts) emitted cnt =
     (if \<not> ignore_eos (ar_params r) \<and> stop t then DeEmitManyAndFinish i emitted Stop
      else if Suc cnt \<ge> ar_max_tokens r then DeEmitManyAndFinish i (emitted @ [t]) Length
      else resolve_span stop r i ts (emitted @ [t]) (Suc cnt))"

fun resolve_speculative_outputs ::
  "(token \<Rightarrow> bool) \<Rightarrow> active_request list \<Rightarrow> verify_result list \<Rightarrow> decode_effect list option"
where
  "resolve_speculative_outputs stop active [] = Some []"
| "resolve_speculative_outputs stop active (v # vs) =
     (case find_active (vr_id v) active of
        None \<Rightarrow> None
      | Some r \<Rightarrow>
          map_option (\<lambda>es. resolve_span stop r (vr_id v) (vr_accepted_tokens v) []
                             (ar_generated_count r) # es)
            (resolve_speculative_outputs stop active vs))"

definition resolve_decode ::
  "(token \<Rightarrow> bool) \<Rightarrow> active_request \<Rightarrow> decode_request_result \<Rightarrow> decode_effect" where
  "resolve_decode stop r d =
     (let completion_tokens = ar_generated_count r + 1 in
      if \<not> ignore_eos (ar_params r) \<and> stop (dr_token d) then DeFinish (dr_id d) Stop
      else if completion_tokens \<ge> ar_max_tokens r
      then DeEmitAndFinish (dr_id d) (dr_token d) (dr_logprob d) Length
      else DeEmitAndContinue (dr_id d) (dr_token d) (dr_logprob d) completion_tokens)"

fun resolve_decode_outputs ::
  "(token \<Rightarrow> bool) \<Rightarrow> active_request list \<Rightarrow> decode_request_result list \<Rightarrow>
   decode_effect list option"
where
  "resolve_decode_outputs stop active [] = Some []"
| "resolve_decode_outputs stop active (d # ds) =
     (case find_active (dr_id d) active of
        None \<Rightarrow> None
      | Some r \<Rightarrow>
          map_option (\<lambda>es. resolve_decode stop r d # es) (resolve_decode_outputs stop active ds))"

definition promote_state :: "pending_request \<Rightarrow> token \<Rightarrow> active_request" where
  "promote_state r t =
     \<lparr>ar_id = pr_id r, ar_lora_adapter = pr_lora_adapter r, ar_last_token = t,
      ar_generated_count = 1, ar_max_tokens = pr_max_tokens r,
      ar_prompt_len = length (pr_prompt_tokens r), ar_params = pr_params r,
      ar_logprobs = pr_logprobs r\<rparr>"

definition resolve_prefill ::
  "(token \<Rightarrow> bool) \<Rightarrow> pending_request \<Rightarrow> prefill_request_result \<Rightarrow> step_effects \<Rightarrow> step_effects"
where
  "resolve_prefill stop r q effects =
     (let e1 = (if pr_prefill_pos r = 0
           then effects\<lparr>se_cached := se_cached effects @
                  [\<lparr>ce_id = pr_id r, ce_cached_tokens = pq_cached_tokens q\<rparr>]\<rparr>
           else effects) in
      if \<not> pq_completed q then
        e1\<lparr>se_pending := se_pending e1 @ [PeContinuePrefill
             (r\<lparr>pr_prefill_pos := pq_prefill_pos q,
                pr_cached_tokens := max (pr_cached_tokens r) (pq_cached_tokens q)\<rparr>)]\<rparr>
      else
        (let e2 = (if pr_echo r
             then e1\<lparr>se_prompt_echoes := se_prompt_echoes e1 @
                    [\<lparr>ee_id = pr_id r, ee_ids = pr_prompt_tokens r,
                      ee_logprobs = (case pq_prompt_logprobs q of
                         Some l \<Rightarrow> l
                       | None \<Rightarrow> replicate (length (pr_prompt_tokens r)) None)\<rparr>]\<rparr>
             else e1) in
         if \<not> ignore_eos (pr_params r) \<and> stop (pq_first_token q)
         then e2\<lparr>se_pending := se_pending e2 @ [PeFinish (pr_id r) Stop]\<rparr>
         else if pr_max_tokens r \<le> 1
         then e2\<lparr>se_pending := se_pending e2 @
                [PeEmitAndFinish (pr_id r) (pq_first_token q) (pq_first_token_logprob q) Length]\<rparr>
         else e2\<lparr>se_pending := se_pending e2 @
                [PePromote (promote_state r (pq_first_token q)) (pq_first_token q)
                   (pq_first_token_logprob q)]\<rparr>))"

text \<open>Requests and results are paired by position; a mismatch of ids is a panic.\<close>

fun resolve_prefill_outputs ::
  "(token \<Rightarrow> bool) \<Rightarrow> pending_request list \<Rightarrow> prefill_request_result list \<Rightarrow> step_effects \<Rightarrow>
   step_effects option"
where
  "resolve_prefill_outputs stop (r # rs) (q # qs) effects =
     (if pr_id r = pq_id q
      then resolve_prefill_outputs stop rs qs (resolve_prefill stop r q effects)
      else None)"
| "resolve_prefill_outputs stop _ _ effects = Some effects"

fun resolve_step :: "(token \<Rightarrow> bool) \<Rightarrow> active_request list \<Rightarrow> artifacts \<Rightarrow> step_effects option" where
  "resolve_step stop active (ArtPrefill pending result) =
     resolve_prefill_outputs stop pending (prr_requests result) empty_effects"
| "resolve_step stop active (ArtDecode results) =
     map_option (\<lambda>ds. empty_effects\<lparr>se_decode := ds\<rparr>) (resolve_decode_outputs stop active results)"
| "resolve_step stop active (ArtSpeculative results) =
     map_option (\<lambda>ds. empty_effects\<lparr>se_decode := ds\<rparr>)
       (resolve_speculative_outputs stop active results)"
| "resolve_step stop active (ArtUnified pending result) =
     (case resolve_prefill_outputs stop pending (ur_prefill_requests result) empty_effects of
        None \<Rightarrow> None
      | Some effects \<Rightarrow>
          map_option (\<lambda>ds. effects\<lparr>se_decode := ds\<rparr>)
            (resolve_decode_outputs stop active (ur_decode_requests result)))"

section \<open>Phase tracking\<close>

datatype phase = PhQueue | PhPrefill | PhDecode

type_synonym tracker = "request_id \<rightharpoonup> phase"

definition enter_queue :: "request_id \<Rightarrow> nat option \<Rightarrow> tracker \<Rightarrow> tracker" where
  "enter_queue i parent t = (case parent of None \<Rightarrow> t | Some _ \<Rightarrow> t(i \<mapsto> PhQueue))"

definition enter_prefill :: "request_id \<Rightarrow> tracker \<Rightarrow> tracker" where
  "enter_prefill i t = (if t i = Some PhQueue then t(i \<mapsto> PhPrefill) else t)"

definition enter_decode :: "request_id \<Rightarrow> tracker \<Rightarrow> tracker" where
  "enter_decode i t = (case t i of None \<Rightarrow> t | Some PhDecode \<Rightarrow> t | Some _ \<Rightarrow> t(i \<mapsto> PhDecode))"

definition finish_tracking :: "request_id \<Rightarrow> tracker \<Rightarrow> tracker" where
  "finish_tracking i t = t(i := None)"

end
