(* ===== verification/Qwen3_Mechanics.thy ===== *)
theory Qwen3_Mechanics
  imports Qwen3_Scheduler
begin

text \<open>
  Correctness of the Qwen3 scheduling mechanics: the chunked-prefill loop against a
  structural reference and its budget, admission as a partition of the queue that keeps the
  block budget and the decode slots, plan selection, and the resolution of results within the
  output budget of each request.
\<close>

section \<open>Chunked prefill\<close>

fun take_ref ::
  "usize \<Rightarrow> bool \<Rightarrow> usize \<Rightarrow> pending_request list \<Rightarrow> pending_request list \<times> pending_request list"
where
  "take_ref m loc budget [] = ([], [])"
| "take_ref m loc budget (r # rs) =
     (if budget = 0 then (r # rs, [])
      else case prefill_chunk m loc budget r of
        None \<Rightarrow> (let (rest, taken) = take_ref m loc budget rs in (r # rest, taken))
      | Some c \<Rightarrow>
          (let (rest, taken) = take_ref m loc (budget - c) rs in
           (rest, r\<lparr>pr_step_chunk := c\<rparr> # taken)))"

lemma take_ref_zero [simp]: "take_ref m loc 0 rs = (rs, [])"
  by (cases rs) auto

lemma remove_nth_append [simp]: "remove_nth (length pre) (pre @ r # rs) = pre @ rs"
  by (simp add: remove_nth_def)

lemma take_chunks_loop_ref:
  "take_chunks_loop m loc (pre @ rs) (length pre) budget taken =
     (let (rest, more) = take_ref m loc budget rs in (pre @ rest, taken @ more))"
proof (induction rs arbitrary: pre budget taken)
  case Nil
  then show ?case by (simp add: take_chunks_loop.simps)
next
  case (Cons r rs)
  show ?case
  proof (cases "budget = 0")
    case True
    then show ?thesis by (simp add: take_chunks_loop.simps)
  next
    case False
    show ?thesis
    proof (cases "prefill_chunk m loc budget r")
      case None
      then show ?thesis
        using False Cons.IH [of "pre @ [r]" budget taken]
        by (subst take_chunks_loop.simps) (simp add: split: prod.splits)
    next
      case (Some c)
      then show ?thesis
        using False Cons.IH [of pre "budget - c" "taken @ [r\<lparr>pr_step_chunk := c\<rparr>]"]
        by (subst take_chunks_loop.simps) (simp add: saturating_sub_def split: prod.splits)
    qed
  qed
qed

lemma take_prefill_chunks_ref:
  "take_prefill_chunks rs m loc =
     (let (rest, taken) = take_ref m loc m rs in (rest, sort_key pr_id taken))"
  using take_chunks_loop_ref [of m loc "[]" rs m "[]"]
  by (simp add: take_prefill_chunks_def split: prod.splits)

definition clear_chunk :: "pending_request \<Rightarrow> pending_request" where
  "clear_chunk r = r\<lparr>pr_step_chunk := 0\<rparr>"

definition chunk_total :: "pending_request list \<Rightarrow> usize" where
  "chunk_total rs = sum_list (map pr_step_chunk rs)"

lemma prefill_chunk_bounds:
  "prefill_chunk m loc budget r = Some c \<Longrightarrow> c \<le> budget \<and> c \<le> remaining_prompt_tokens r"
  by (auto simp: prefill_chunk_def Let_def split: if_splits)

lemma take_ref_budget:
  "take_ref m loc budget rs = (rest, taken) \<Longrightarrow> chunk_total taken \<le> budget"
proof (induction rs arbitrary: budget rest taken)
  case (Cons r rs)
  show ?case
  proof (cases "budget = 0 \<or> prefill_chunk m loc budget r = None")
    case True
    then show ?thesis using Cons by (auto simp: chunk_total_def split: prod.splits if_splits)
  next
    case False
    then obtain c where c: "prefill_chunk m loc budget r = Some c" by auto
    obtain rest' taken' where t: "take_ref m loc (budget - c) rs = (rest', taken')" by fastforce
    have "chunk_total taken' \<le> budget - c" by (rule Cons.IH [OF t])
    moreover have "c \<le> budget" using prefill_chunk_bounds [OF c] by simp
    ultimately show ?thesis using Cons.prems False c t by (auto simp: chunk_total_def)
  qed
qed (simp add: chunk_total_def)

lemma take_ref_mset:
  "take_ref m loc budget rs = (rest, taken) \<Longrightarrow>
    mset (map clear_chunk rest) + mset (map clear_chunk taken) = mset (map clear_chunk rs)"
  by (induction rs arbitrary: budget rest taken)
    (auto simp: clear_chunk_def split: if_splits option.splits prod.splits)

lemma take_ref_chunks:
  "take_ref m loc budget rs = (rest, taken) \<Longrightarrow> r \<in> set taken \<Longrightarrow>
    pr_step_chunk r \<le> remaining_prompt_tokens r \<and>
    (pr_echo r \<longrightarrow> pr_step_chunk r = remaining_prompt_tokens r) \<and>
    (loc \<and> \<not> pr_echo r \<longrightarrow> pr_step_chunk r = min (remaining_prompt_tokens r) m)"
proof (induction rs arbitrary: budget rest taken)
  case (Cons q rs)
  then show ?case
    by (auto simp: prefill_chunk_def Let_def remaining_prompt_tokens_def
        split: if_splits option.splits prod.splits)
qed simp

lemma take_ref_head:
  assumes "take_ref m loc m (r # rs) = (rest, taken)" and "0 < m"
    and "pr_echo r \<Longrightarrow> remaining_prompt_tokens r \<le> m"
  shows "\<exists>tl. taken = r\<lparr>pr_step_chunk := min (remaining_prompt_tokens r) m\<rparr> # tl"
  using assms by (auto simp: prefill_chunk_def Let_def min_absorb1 split: prod.splits if_splits)

section \<open>Admission\<close>

lemma admit_loop_mset:
  "mset (ao_pending (admit_loop bs mrb mct mpt credit rs budget slots out)) +
   mset (ao_deferred (admit_loop bs mrb mct mpt credit rs budget slots out)) +
   mset (map fst (ao_rejected (admit_loop bs mrb mct mpt credit rs budget slots out))) =
   mset rs + mset (ao_pending out) + mset (ao_deferred out) + mset (map fst (ao_rejected out))"
  by (induction rs arbitrary: budget slots out)
    (auto simp: Let_def split: option.splits)

definition fresh_blocks :: "usize \<Rightarrow> (request_id \<Rightarrow> usize) \<Rightarrow> pending_request \<Rightarrow> usize" where
  "fresh_blocks bs credit r = saturating_sub (pending_lifetime_blocks r bs) (credit (pr_id r))"

text \<open>The requests a loop run admits, after those already in the accumulator.\<close>

lemma admit_loop_pending:
  "\<exists>ps. ao_pending (admit_loop bs mrb mct mpt credit rs budget slots out) = ao_pending out @ ps \<and>
     sum_list (map (fresh_blocks bs credit) ps) \<le> budget \<and> length ps \<le> slots \<and>
     (\<forall>r \<in> set ps. r \<in> set rs \<and> admission_verdict bs mrb mct mpt r = None)"
proof (induction rs arbitrary: budget slots out)
  case (Cons r rs)
  let ?out = "out\<lparr>ao_pending := ao_pending out @ [r]\<rparr>"
  let ?f = "fresh_blocks bs credit r"
  show ?case
  proof (cases "admission_verdict bs mrb mct mpt r")
    case None
    show ?thesis
    proof (cases "?f \<le> budget \<and> 0 < slots")
      case True
      obtain ps where ps: "ao_pending (admit_loop bs mrb mct mpt credit rs (budget - ?f) (slots - 1) ?out)
            = ao_pending ?out @ ps"
          "sum_list (map (fresh_blocks bs credit) ps) \<le> budget - ?f" "length ps \<le> slots - 1"
          "\<forall>r \<in> set ps. r \<in> set rs \<and> admission_verdict bs mrb mct mpt r = None"
        using Cons.IH [of "budget - ?f" "slots - 1" ?out] by blast
      have "sum_list (map (fresh_blocks bs credit) (r # ps)) \<le> budget" "length (r # ps) \<le> slots"
        using ps(2,3) True by auto
      with ps None True show ?thesis
        by (intro exI [of _ "r # ps"]) (simp add: Let_def flip: fresh_blocks_def)
    next
      case False
      then show ?thesis using None Cons.IH [of budget slots "out\<lparr>ao_deferred := ao_deferred out @ [r]\<rparr>"]
        by (auto simp: fresh_blocks_def Let_def)
    qed
  next
    case (Some why)
    then show ?thesis using Cons.IH [of budget slots "out\<lparr>ao_rejected := ao_rejected out @ [(r, why)]\<rparr>"]
      by auto
  qed
qed simp

lemma admit_loop_rejected:
  "(r, why) \<in> set (ao_rejected (admit_loop bs mrb mct mpt credit rs budget slots out)) \<longleftrightarrow>
    (r, why) \<in> set (ao_rejected out) \<or>
    r \<in> set rs \<and> admission_verdict bs mrb mct mpt r = Some why"
  by (induction rs arbitrary: budget slots out) (auto simp: Let_def split: option.splits)

lemma admit_loop_deferred:
  "r \<in> set (ao_deferred (admit_loop bs mrb mct mpt credit rs budget slots out)) \<Longrightarrow>
    r \<in> set (ao_deferred out) \<or> r \<in> set rs \<and> admission_verdict bs mrb mct mpt r = None"
  by (induction rs arbitrary: budget slots out)
    (fastforce simp: Let_def split: option.splits if_splits)+

text \<open>The head of the queue is admitted whenever it is servable and there is room.\<close>

lemma admit_loop_mono:
  "set (ao_pending out) \<subseteq> set (ao_pending (admit_loop bs mrb mct mpt credit rs budget slots out))"
  using admit_loop_pending [of bs mrb mct mpt credit rs budget slots out] by auto

section \<open>Block reservations\<close>

text \<open>
  The blocks reserved for a request's lifetime cover every position whose KV it ever
  writes: the prompt and all generated tokens but the last.
\<close>

lemma lifetime_covers:
  assumes "0 < bs" and "prompt_len + max_tokens \<le> usize_max" and "generated \<le> max_tokens"
  shows "blocks_needed (saturating_add prompt_len (saturating_sub generated 1)) bs
    \<le> request_lifetime_blocks prompt_len max_tokens bs"
proof -
  have "saturating_add prompt_len (saturating_sub generated 1)
      \<le> (if max_tokens \<le> 1 then prompt_len else saturating_add prompt_len max_tokens)"
    using assms by (auto simp: saturating_add_def saturating_sub_def)
  then show ?thesis
    unfolding blocks_needed_def request_lifetime_blocks_def
    using div_ceil_mono [OF assms(1)] by (simp add: le_max_iff_disj)
qed

section \<open>Resolution within the output budget\<close>

fun decode_tokens :: "decode_effect \<Rightarrow> token list" where
  "decode_tokens (DeFinish i r) = []"
| "decode_tokens (DeEmitAndFinish i t l r) = [t]"
| "decode_tokens (DeEmitAndContinue i t l n) = [t]"
| "decode_tokens (DeEmitManyAndContinue i ts n) = ts"
| "decode_tokens (DeEmitManyAndFinish i ts r) = ts"

fun decode_continues :: "decode_effect \<Rightarrow> bool" where
  "decode_continues (DeEmitAndContinue i t l n) = True"
| "decode_continues (DeEmitManyAndContinue i ts n) = True"
| "decode_continues _ = False"

fun decode_effect_id :: "decode_effect \<Rightarrow> request_id" where
  "decode_effect_id (DeFinish i r) = i"
| "decode_effect_id (DeEmitAndFinish i t l r) = i"
| "decode_effect_id (DeEmitAndContinue i t l n) = i"
| "decode_effect_id (DeEmitManyAndContinue i ts n) = i"
| "decode_effect_id (DeEmitManyAndFinish i ts r) = i"

definition stops :: "(token \<Rightarrow> bool) \<Rightarrow> active_request \<Rightarrow> token \<Rightarrow> bool" where
  "stops stop r t \<longleftrightarrow> \<not> ignore_eos (ar_params r) \<and> stop t"

text \<open>
  The reference: cut the accepted span before its first stop token and after the token that
  fills the output budget, whichever comes first.
\<close>

definition span_ref ::
  "(token \<Rightarrow> bool) \<Rightarrow> active_request \<Rightarrow> request_id \<Rightarrow> token list \<Rightarrow> usize \<Rightarrow> decode_effect" where
  "span_ref stop r i ts n =
     (let clean = takeWhile (\<lambda>t. \<not> stops stop r t) ts; room = max (ar_max_tokens r - n) 1 in
      if room \<le> length clean then DeEmitManyAndFinish i (take room clean) Length
      else if length clean < length ts then DeEmitManyAndFinish i clean Stop
      else DeEmitManyAndContinue i ts (n + length ts))"

lemma resolve_span_ref:
  "resolve_span stop r i ts emitted n =
     (case span_ref stop r i ts n of
        DeEmitManyAndFinish j us reason \<Rightarrow> DeEmitManyAndFinish j (emitted @ us) reason
      | DeEmitManyAndContinue j us m \<Rightarrow> DeEmitManyAndContinue j (emitted @ us) m
      | e \<Rightarrow> e)"
proof (induction ts arbitrary: emitted n)
  case Nil
  then show ?case by (simp add: span_ref_def Let_def)
next
  case (Cons t ts)
  show ?case
  proof (cases "stops stop r t")
    case True
    then show ?thesis by (simp add: span_ref_def Let_def stops_def)
  next
    case False
    show ?thesis
    proof (cases "ar_max_tokens r \<le> Suc n")
      case True
      then have "max (ar_max_tokens r - n) 1 = 1" by simp
      with True False show ?thesis by (simp add: span_ref_def Let_def stops_def)
    next
      case ge: False
      then have "max (ar_max_tokens r - n) 1 = Suc (max (ar_max_tokens r - Suc n) 1)" by simp
      with ge False show ?thesis using Cons.IH [of "emitted @ [t]" "Suc n"]
        by (auto simp: span_ref_def Let_def stops_def)
    qed
  qed
qed

section \<open>Properties of the mechanics\<close>

definition demo_pending :: "request_id \<Rightarrow> nat \<Rightarrow> usize \<Rightarrow> bool \<Rightarrow> pending_request" where
  "demo_pending i n max_tokens echo =
     \<lparr>pr_id = i, pr_lora_adapter = None, pr_prompt_tokens = replicate n 1,
      pr_params = default_sampling_params, pr_max_tokens = max_tokens, pr_logprobs = 0,
      pr_echo = echo, pr_prefetch_offered = False, pr_prefill_pos = 0, pr_step_chunk = 0,
      pr_cached_tokens = 0\<rparr>"

definition demo_active :: "request_id \<Rightarrow> usize \<Rightarrow> usize \<Rightarrow> active_request" where
  "demo_active i generated max_tokens =
     \<lparr>ar_id = i, ar_lora_adapter = None, ar_last_token = 1, ar_generated_count = generated,
      ar_max_tokens = max_tokens, ar_prompt_len = 3, ar_params = default_sampling_params,
      ar_logprobs = 0\<rparr>"

text \<open>
  C26: One prefill step takes no token more than its budget, loses and invents no request,
  and hands the taken requests over in request-id order.
\<close>

theorem prefill_step_within_budget:
  "let (rest, taken) = take_prefill_chunks rs m loc in
     chunk_total taken \<le> m \<and> sorted (map pr_id taken) \<and>
     mset (map clear_chunk rest) + mset (map clear_chunk taken) = mset (map clear_chunk rs)"
proof -
  obtain rest taken where t: "take_ref m loc m rs = (rest, taken)" by fastforce
  have "chunk_total (sort_key pr_id taken) = chunk_total taken"
    by (metis (no_types, lifting) chunk_total_def mset_map mset_sort sum_mset_sum_list)
  moreover have "mset (map clear_chunk (sort_key pr_id taken)) = mset (map clear_chunk taken)"
    by (simp only: mset_map mset_sort)
  ultimately show ?thesis
    using take_ref_budget [OF t] take_ref_mset [OF t] by (simp add: take_prefill_chunks_ref t)
qed

text \<open>
  The chunk of a taken request: never more than its remaining prompt; the whole
  remainder for an echo request; and under request-local chunking the smaller of the
  remainder and the step budget, whatever else is in the batch.
\<close>

theorem prefill_chunk_sizes:
  assumes "r \<in> set (snd (take_prefill_chunks rs m loc))"
  shows "pr_step_chunk r \<le> remaining_prompt_tokens r \<and>
    (pr_echo r \<longrightarrow> pr_step_chunk r = remaining_prompt_tokens r) \<and>
    (loc \<and> \<not> pr_echo r \<longrightarrow> pr_step_chunk r = min (remaining_prompt_tokens r) m)"
proof -
  obtain rest taken where t: "take_ref m loc m rs = (rest, taken)" by fastforce
  have "r \<in> set taken" using assms by (simp add: take_prefill_chunks_ref t)
  then show ?thesis using take_ref_chunks [OF t] by blast
qed

theorem prefill_chunk_sizes_witness:
  "let r = (demo_pending 4 9 2 False)\<lparr>pr_step_chunk := 6\<rparr> in
     pr_step_chunk r \<le> remaining_prompt_tokens r \<and>
     (pr_echo r \<longrightarrow> pr_step_chunk r = remaining_prompt_tokens r) \<and>
     (True \<and> \<not> pr_echo r \<longrightarrow> pr_step_chunk r = min (remaining_prompt_tokens r) 6)"
  unfolding Let_def
  by (rule prefill_chunk_sizes [of _ "[demo_pending 4 9 2 False, demo_pending 2 5 2 False]"])
    (simp add: take_prefill_chunks_ref demo_pending_def prefill_chunk_def
      remaining_prompt_tokens_def Let_def)

text \<open>
  C27: The oldest prefilling request always makes progress: with a positive budget it is
  taken with as much of its remaining prompt as the budget holds (an echo request that was
  admitted fits the budget whole).
\<close>

theorem prefill_head_progress:
  assumes "0 < m" and "pr_echo r \<Longrightarrow> remaining_prompt_tokens r \<le> m"
  shows "r\<lparr>pr_step_chunk := min (remaining_prompt_tokens r) m\<rparr>
    \<in> set (snd (take_prefill_chunks (r # rs) m loc))"
proof -
  obtain rest taken where t: "take_ref m loc m (r # rs) = (rest, taken)" by fastforce
  then show ?thesis
    using take_ref_head [OF t assms] by (auto simp: take_prefill_chunks_ref simp del: take_ref.simps)
qed

theorem prefill_head_progress_witness:
  "(demo_pending 4 9 2 True)\<lparr>pr_step_chunk := min (remaining_prompt_tokens (demo_pending 4 9 2 True)) 16\<rparr>
    \<in> set (snd (take_prefill_chunks [demo_pending 4 9 2 True, demo_pending 2 30 2 False] 16 False))"
  by (rule prefill_head_progress) (simp_all add: demo_pending_def remaining_prompt_tokens_def)

text \<open>
  C25: Admission decides every deferred request exactly once: it is admitted, kept deferred
  or rejected, and rejected exactly when the model's limits say so, with that reason.
\<close>

theorem admission_partitions:
  "let out = admit_deferred_requests deferred active prefilling bs available mrb mct mdb mpt credit in
     mset (ao_pending out) + mset (ao_deferred out) + mset (map fst (ao_rejected out)) = mset deferred \<and>
     set (ao_rejected out) =
       {(r, why). r \<in> set deferred \<and> admission_verdict bs mrb mct mpt r = Some why}"
  using admit_loop_mset [of bs mrb mct mpt credit deferred]
  by (auto simp: admit_deferred_requests_def Let_def admit_loop_rejected)



text \<open>
  A servable request at the head of the deferred queue is admitted as soon as there is
  a decode slot and its blocks fit beside what running requests may still draw.
\<close>

theorem admission_head_first:
  assumes "admission_verdict bs mrb mct mpt r = None"
    and "active_future_blocks active bs + prefilling_future_blocks prefilling bs credit +
      fresh_blocks bs credit r \<le> available"
    and "length active + length prefilling < mdb"
  shows "r \<in> set (ao_pending
    (admit_deferred_requests (r # rs) active prefilling bs available mrb mct mdb mpt credit))"
proof -
  let ?budget = "available - active_future_blocks active bs - prefilling_future_blocks prefilling bs credit"
  let ?slots = "mdb - length active - length prefilling"
  let ?out = "\<lparr>ao_pending = [r], ao_deferred = [], ao_rejected = []\<rparr>"
  have "r \<in> set (ao_pending (admit_loop bs mrb mct mpt credit rs
      (?budget - fresh_blocks bs credit r) (?slots - 1) ?out))"
    using admit_loop_mono [of ?out] by auto
  moreover have "fresh_blocks bs credit r \<le> ?budget" and "0 < ?slots"
    using assms by simp_all
  ultimately show ?thesis using assms(1)
    by (simp only: admit_deferred_requests_def saturating_sub_def fresh_blocks_def Let_def
        admit_loop.simps option.case) simp
qed

theorem admission_head_first_witness:
  "demo_pending 7 20 5 False \<in> set (ao_pending
    (admit_deferred_requests [demo_pending 7 20 5 False, demo_pending 8 1 1 False]
       [demo_active 1 2 4] [] 16 3 10 1000 4 64 (\<lambda>_. 0)))"
  by (rule admission_head_first)
    (simp_all add: admission_verdict_def echo_exceeds_prefill_bound_def pending_lifetime_blocks_def
      fresh_blocks_def demo_pending_def active_future_blocks_def prefilling_future_blocks_def
      demo_active_def active_lifetime_blocks_def request_lifetime_blocks_def
      current_active_tokens_def blocks_needed_def div_ceil_def usize_defs usize_max_def)



text \<open>
  C29: Resolving an accepted speculative span cuts it before the first stop token and after
  the token that fills the output budget, whichever comes first: the request never emits a
  stop token, never exceeds \<open>max_tokens\<close>, and its count is exact when it continues.
\<close>

theorem speculative_span_resolution:
  assumes "ar_generated_count r < ar_max_tokens r"
  shows "resolve_span stop r i ts [] (ar_generated_count r) =
    (let clean = takeWhile (\<lambda>t. \<not> stops stop r t) ts;
         room = ar_max_tokens r - ar_generated_count r in
     if room \<le> length clean then DeEmitManyAndFinish i (take room clean) Length
     else if length clean < length ts then DeEmitManyAndFinish i clean Stop
     else DeEmitManyAndContinue i ts (ar_generated_count r + length ts))"
proof -
  have "max (ar_max_tokens r - ar_generated_count r) 1 = ar_max_tokens r - ar_generated_count r"
    using assms by simp
  then show ?thesis by (simp add: resolve_span_ref span_ref_def Let_def)
qed

theorem speculative_span_resolution_witness:
  "resolve_span (\<lambda>t. t = 9) (demo_active 1 2 4) 1 [5, 6, 7] [] 2 = DeEmitManyAndFinish 1 [5, 6] Length"
  using speculative_span_resolution [of "demo_active 1 2 4" "\<lambda>t. t = 9" 1 "[5, 6, 7]"]
  by (simp add: demo_active_def stops_def default_sampling_params_def Let_def)

fun plan_pending :: "execution_plan \<Rightarrow> pending_request list" where
  "plan_pending (PlanPrefill ps) = ps"
| "plan_pending PlanDecode = []"
| "plan_pending PlanSpeculative = []"
| "plan_pending (PlanUnified ps) = ps"

text \<open>
  C19: \<open>runtime_plan\<close> never drops work and never mixes a speculative step with prefill:
  the plan carries exactly the pending requests, and there is no plan only when there is
  neither pending nor active work.
\<close>

theorem runtime_plan_complete:
  "case runtime_plan E x active pending of
     None \<Rightarrow> pending = [] \<and> active = []
   | Some plan \<Rightarrow> plan_pending plan = pending \<and> 0 < length pending + length active"
  by (auto simp: runtime_plan_def build_next_plan_def should_speculative_decode_def Let_def)

end
