(* ===== verification/Contract_System.thy ===== *)
theory Contract_System
  imports Ledger
begin

text \<open>
  One frontend and one scheduler thread around the ledger: \<open>scheduler_pair\<close> and
  \<open>SchedulerHandle::submit\<close> of \<open>wiring.rs\<close>, the polling loop \<open>drive\<close> of
  \<open>driver.rs\<close> and the drop rules of \<open>request_lifecycle.rs\<close>, as a transition system.
  The scheduler is arbitrary: while the loop is inside \<open>step\<close> it may call any ledger
  operation with any arguments, including calls that panic. The frontend submits, aborts and
  goes away at any moment between two transitions.

  The specification is the protocol a client observes for one request
  (\<open>client_step\<close>): at most one admission record, first; token records; exactly one
  terminal, last, whose counts are the prompt length and the number of tokens streamed. The
  invariant \<open>sys_ok\<close> says where the duty to answer each request lies and that what was
  streamed follows the protocol.
\<close>

section \<open>The client's view of one request\<close>

datatype client = CWaiting | CStreaming usize | CAnswered

definition client_advance :: "usize \<Rightarrow> usize \<Rightarrow> request_update \<Rightarrow> client option" where
  "client_advance p n u =
     (if length (upd_logprobs u) \<noteq> length (upd_tokens u) then None
      else case upd_terminal u of
        None \<Rightarrow> Some (CStreaming (n + length (upd_tokens u)))
      | Some (Finished _ q k) \<Rightarrow>
          if q = p \<and> k = n + length (upd_tokens u) then Some CAnswered else None
      | Some (Failed _ q k) \<Rightarrow>
          if q = p \<and> k = n + length (upd_tokens u) then Some CAnswered else None
      | Some (Rejected _ _) \<Rightarrow> None)"

definition client_refused :: "usize \<Rightarrow> request_update \<Rightarrow> client option" where
  "client_refused p u =
     (if upd_tokens u \<noteq> [] \<or> upd_logprobs u \<noteq> [] \<or> upd_cached_tokens u \<noteq> None \<or>
         upd_prompt_echo u \<noteq> None \<or> upd_kv_transfer u \<noteq> None then None
      else case upd_terminal u of
        Some (Rejected _ q) \<Rightarrow> if q = p then Some CAnswered else None
      | Some (Failed _ q k) \<Rightarrow> if q = p \<and> k = 0 then Some CAnswered else None
      | _ \<Rightarrow> None)"

fun client_step :: "usize \<Rightarrow> client \<Rightarrow> request_update \<Rightarrow> client option" where
  "client_step p CAnswered u = None"
| "client_step p (CStreaming n) u =
     (if upd_scheduled u = None then client_advance p n u else None)"
| "client_step p CWaiting u =
     (case upd_scheduled u of
        None \<Rightarrow> client_refused p u
      | Some si \<Rightarrow> if si_prompt_tokens si = p then client_advance p 0 u else None)"

fun client_run :: "usize \<Rightarrow> client \<Rightarrow> request_update list \<Rightarrow> client option" where
  "client_run p c [] = Some c"
| "client_run p c (u # us) =
     (case client_step p c u of None \<Rightarrow> None | Some d \<Rightarrow> client_run p d us)"

lemma client_run_append:
  "client_run p c (us @ vs) =
     (case client_run p c us of None \<Rightarrow> None | Some d \<Rightarrow> client_run p d vs)"
  by (induction us arbitrary: c) (auto split: option.splits)

lemma client_run_snoc:
  "client_run p c us = Some d \<Longrightarrow> client_run p c (us @ [u]) = client_step p d u"
  by (simp add: client_run_append split: option.splits)

section \<open>The system\<close>

datatype driver_pc = Draining | Stepping | Exited

record system =
  sys_pc :: driver_pc
  sys_submissions_open :: bool
  sys_frontend :: bool
  sys_next_id :: u64
  sys_queue :: "envelope list"
  sys_ledger :: ledger
  sys_deferred :: "request_update list"
  sys_channel :: step_channel
  sys_flags :: abort_flags
  sys_minted :: "(request_id \<times> usize) list"
  sys_retired :: "request_id set"
  sys_panicked :: bool

text \<open>\<open>sys_minted\<close>, \<open>sys_retired\<close> and \<open>sys_panicked\<close> are history variables.\<close>

definition scheduler_pair :: system where
  "scheduler_pair =
     \<lparr>sys_pc = Draining, sys_submissions_open = True, sys_frontend = True, sys_next_id = 0,
      sys_queue = [], sys_ledger = new_ledger, sys_deferred = [],
      sys_channel = \<lparr>ch_messages = [], ch_closed = False\<rparr>, sys_flags = (\<lambda>_. False),
      sys_minted = [], sys_retired = {}, sys_panicked = False\<rparr>"

definition submit :: "request \<Rightarrow> instant \<Rightarrow> system \<Rightarrow> system" where
  "submit r now s =
     (let i = sys_next_id s;
          e = \<lparr>env_id = i, env_abort = length (sys_minted s), env_request = r,
               env_queued_at = now\<rparr>;
          s' = s\<lparr>sys_next_id := i + 1,
                 sys_minted := sys_minted s @ [(i, length (rq_prompt_tokens r))]\<rparr>
      in if sys_pc s = Exited
         then s'\<lparr>sys_channel := drop_envelope e (sys_channel s)\<rparr>
         else s'\<lparr>sys_queue := sys_queue s @ [e]\<rparr>)"

definition abort :: "flag_addr \<Rightarrow> system \<Rightarrow> system" where
  "abort a s = s\<lparr>sys_flags := (sys_flags s)(a := True)\<rparr>"

text \<open>The ledger calls a scheduler can make from \<open>step\<close>.\<close>

datatype ledger_op =
    OpAdmit instant request_id
  | OpReject request_id reject_reason
  | OpPush request_id "token list" "token_logprob option list"
  | OpCached request_id usize
  | OpEcho request_id prompt_echo
  | OpKvTransfer request_id json_value
  | OpFinish request_id finish_reason
  | OpFail request_id string
  | OpRetire request_id
  | OpDefer request_id finish_reason

fun op_id :: "ledger_op \<Rightarrow> request_id" where
  "op_id (OpAdmit _ i) = i"
| "op_id (OpReject i _) = i"
| "op_id (OpPush i _ _) = i"
| "op_id (OpCached i _) = i"
| "op_id (OpEcho i _) = i"
| "op_id (OpKvTransfer i _) = i"
| "op_id (OpFinish i _) = i"
| "op_id (OpFail i _) = i"
| "op_id (OpRetire i) = i"
| "op_id (OpDefer i _) = i"

definition no_deferred :: "ledger ledger_res \<Rightarrow> (ledger \<times> request_update list) ledger_res" where
  "no_deferred r = bind_res r (\<lambda>L. Inr (L, []))"

fun apply_op :: "ledger_op \<Rightarrow> ledger \<Rightarrow> (ledger \<times> request_update list) ledger_res" where
  "apply_op (OpAdmit now i) L = no_deferred (admit now i L)"
| "apply_op (OpReject i r) L = no_deferred (reject i r L)"
| "apply_op (OpPush i ids lps) L = no_deferred (push_tokens i ids lps L)"
| "apply_op (OpCached i n) L = no_deferred (set_cached_tokens i n L)"
| "apply_op (OpEcho i e) L = no_deferred (echo_prompt i e L)"
| "apply_op (OpKvTransfer i v) L = no_deferred (kv_transfer i v L)"
| "apply_op (OpFinish i r) L = no_deferred (finish i r L)"
| "apply_op (OpFail i m) L = no_deferred (fail i m L)"
| "apply_op (OpRetire i) L = no_deferred (retire i L)"
| "apply_op (OpDefer i r) L = bind_res (defer_finish i r L) (\<lambda>(L', u). Inr (L', [u]))"

fun op_retires :: "ledger_op \<Rightarrow> request_id set" where
  "op_retires (OpRetire i) = {i}"
| "op_retires _ = {}"

text \<open>
  Leaving \<open>drive\<close>, by return or by unwinding: the ledger falls, then the receiving end of
  the submission channel with every envelope still queued.
\<close>

definition teardown :: "request_id list \<Rightarrow> ledger \<Rightarrow> system \<Rightarrow> system" where
  "teardown order L s =
     s\<lparr>sys_pc := Exited, sys_ledger := new_ledger, sys_queue := [],
       sys_channel := fold drop_envelope (sys_queue s) (drop_ledger order L (sys_channel s))\<rparr>"

definition drain_order :: "request_id list \<Rightarrow> ledger \<Rightarrow> bool" where
  "drain_order order L \<longleftrightarrow> distinct order \<and> set order = dom (lg_accounts L)"

definition fatal_message :: "string \<Rightarrow> string" where
  "fatal_message e = ''engine fatal: '' @ e"

inductive sys_step :: "system \<Rightarrow> system \<Rightarrow> bool" where
  submit: "sys_frontend s \<Longrightarrow> sys_step s (submit r now s)"
| abort: "a < length (sys_minted s) \<Longrightarrow> sys_step s (abort a s)"
| frontend_gone: "sys_step s (s\<lparr>sys_frontend := False\<rparr>)"
| receiver_gone: "sys_step s (s\<lparr>sys_channel := (sys_channel s)\<lparr>ch_closed := True\<rparr>\<rparr>)"
| drain_recv: "sys_pc s = Draining \<Longrightarrow> sys_queue s = e # q \<Longrightarrow>
    register e (sys_ledger s) = Inr (L, qr) \<Longrightarrow>
    sys_step s (s\<lparr>sys_queue := q, sys_ledger := L\<rparr>)"
| drain_panic: "sys_pc s = Draining \<Longrightarrow> sys_queue s = e # q \<Longrightarrow>
    register e (sys_ledger s) = Inl (err, L) \<Longrightarrow> drain_order order L \<Longrightarrow>
    sys_step s (teardown order L (s\<lparr>sys_queue := q, sys_panicked := True\<rparr>))"
| drain_empty: "sys_pc s = Draining \<Longrightarrow> sys_queue s = [] \<Longrightarrow>
    sys_step s (s\<lparr>sys_pc := Stepping,
      sys_submissions_open := sys_submissions_open s \<and> sys_frontend s\<rparr>)"
| op: "sys_pc s = Stepping \<Longrightarrow> apply_op x (sys_ledger s) = Inr (L, ds) \<Longrightarrow>
    sys_step s (s\<lparr>sys_ledger := L, sys_deferred := sys_deferred s @ ds,
      sys_retired := sys_retired s \<union> op_retires x\<rparr>)"
| op_panic: "sys_pc s = Stepping \<Longrightarrow> apply_op x (sys_ledger s) = Inl (err, L) \<Longrightarrow>
    drain_order order L \<Longrightarrow>
    sys_step s (teardown order L (s\<lparr>sys_panicked := True\<rparr>))"
| step_ok: "sys_pc s = Stepping \<Longrightarrow>
    commit_step (sys_ledger s) (sys_channel s) = (L, c) \<Longrightarrow>
    sys_step s (s\<lparr>sys_pc := Draining, sys_ledger := L, sys_channel := c\<rparr>)"
| step_drained: "sys_pc s = Stepping \<Longrightarrow> \<not> sys_submissions_open s \<Longrightarrow>
    commit_step (sys_ledger s) (sys_channel s) = (L, c) \<Longrightarrow> drain_order order L \<Longrightarrow>
    sys_step s (teardown order L (s\<lparr>sys_channel := c\<rparr>))"
| step_fatal: "sys_pc s = Stepping \<Longrightarrow>
    commit_step (sys_ledger s) (sys_channel s) = (L, c) \<Longrightarrow> drain_order keys L \<Longrightarrow>
    fail_all keys (fatal_message e) L = Inr L' \<Longrightarrow>
    commit_step L' c = (L'', c') \<Longrightarrow> drain_order order L'' \<Longrightarrow>
    sys_step s (teardown order L'' (s\<lparr>sys_channel := c'\<rparr>))"
| deferred_send: "sys_deferred s = ds @ u # ds' \<Longrightarrow>
    sys_step s (s\<lparr>sys_deferred := ds @ ds', sys_channel := send_deferred u (sys_channel s)\<rparr>)"
| deferred_drop: "sys_deferred s = ds @ u # ds' \<Longrightarrow>
    sys_step s (s\<lparr>sys_deferred := ds @ ds', sys_channel := drop_deferred u (sys_channel s)\<rparr>)"

inductive reachable :: "system \<Rightarrow> bool" where
  init: "reachable scheduler_pair"
| step: "reachable s \<Longrightarrow> sys_step s t \<Longrightarrow> reachable t"

text \<open>The records about one request, in the order the step stream carries them.\<close>

definition stream :: "step_channel \<Rightarrow> request_id \<Rightarrow> request_update list" where
  "stream c i = filter (\<lambda>u. upd_id u = i) (concat (ch_messages c))"

definition delivered :: "system \<Rightarrow> request_id \<Rightarrow> request_update list" where
  "delivered s i = stream (sys_channel s) i"

section \<open>Where the duty to answer lies\<close>

text \<open>
  \<open>request_ok i p q a b d us r\<close>: request \<open>i\<close> with prompt length \<open>p\<close> (\<open>None\<close>
  before it is submitted) is in exactly one place. \<open>q\<close> are its queued envelopes, \<open>a\<close>
  its account, \<open>b\<close> its entry in the step statement, \<open>d\<close> its deferred finishes,
  \<open>us\<close> what was delivered and \<open>r\<close> whether it was retired.
\<close>

inductive request_ok ::
  "request_id \<Rightarrow> usize option \<Rightarrow> envelope list \<Rightarrow> account option \<Rightarrow> request_update option \<Rightarrow>
   request_update list \<Rightarrow> request_update list \<Rightarrow> bool \<Rightarrow> bool"
for i where
  unsubmitted: "request_ok i None [] None None [] [] False"
| waiting: "env_id e = i \<Longrightarrow> length (rq_prompt_tokens (env_request e)) = p \<Longrightarrow>
    request_ok i (Some p) [e] None None [] [] False"
| queued: "acct_prompt_len a = p \<Longrightarrow> acct_state a = Queued \<Longrightarrow>
    request_ok i (Some p) [] (Some a) None [] [] False"
| active: "acct_prompt_len a = p \<Longrightarrow> acct_state a = Active n \<Longrightarrow>
    client_run p CWaiting us = Some c \<Longrightarrow>
    client_step p c (entry_or_empty i b) = Some (CStreaming n) \<Longrightarrow>
    request_ok i (Some p) [] (Some a) b [] us False"
| answering: "client_run p CWaiting us = Some c \<Longrightarrow> client_step p c u = Some CAnswered \<Longrightarrow>
    request_ok i (Some p) [] None (Some u) [] us False"
| deferred: "client_run p CWaiting us = Some c \<Longrightarrow> client_step p c u = Some CAnswered \<Longrightarrow>
    upd_terminal u = Some (Finished r p k) \<Longrightarrow>
    request_ok i (Some p) [] None None [u] us False"
| answered: "client_run p CWaiting us = Some CAnswered \<Longrightarrow>
    request_ok i (Some p) [] None None [] us False"
| retired: "client_run p CWaiting us = Some c \<Longrightarrow> c \<noteq> CAnswered \<Longrightarrow>
    request_ok i (Some p) [] None None [] us True"

inductive_cases request_ok_accountE: "request_ok i p q (Some a) b d us r"
inductive_cases request_ok_envelopeE: "request_ok i p (e # q) a b d us r"
inductive_cases request_ok_deferredE: "request_ok i p q a b (u # d) us r"

section \<open>Ledger operations follow the protocol\<close>

lemma client_advance_simps [simp]:
  "client_advance p n (u\<lparr>upd_cached_tokens := x\<rparr>) = client_advance p n u"
  "client_advance p n (u\<lparr>upd_prompt_echo := y\<rparr>) = client_advance p n u"
  "client_advance p n (u\<lparr>upd_kv_transfer := z\<rparr>) = client_advance p n u"
  "client_advance p n (u\<lparr>upd_scheduled := w\<rparr>) = client_advance p n u"
  "client_advance p n (empty_update i) = Some (CStreaming n)"
  by (simp_all add: client_advance_def split: option.split terminal.split)

lemma client_advance_streaming:
  "client_advance p n u = Some (CStreaming m) \<longleftrightarrow>
    length (upd_logprobs u) = length (upd_tokens u) \<and> upd_terminal u = None \<and>
    m = n + length (upd_tokens u)"
  by (auto simp: client_advance_def split: option.splits terminal.splits if_splits)

text \<open>A step that leaves the client streaming is an advance; here is what it starts from.\<close>

lemma client_step_streaming:
  "client_step p c u = Some (CStreaming m) \<longleftrightarrow>
    (\<exists>n. client_advance p n u = Some (CStreaming m) \<and>
      (c = CStreaming n \<and> upd_scheduled u = None \<or>
       c = CWaiting \<and> n = 0 \<and> (\<exists>si. upd_scheduled u = Some si \<and> si_prompt_tokens si = p)))"
  by (cases c) (auto simp: client_refused_def split: option.splits terminal.splits if_splits)

lemma client_step_rewrite:
  assumes "client_step p c u = Some (CStreaming m)" and "upd_scheduled v = upd_scheduled u"
    and "\<And>n. client_advance p n u = Some (CStreaming m) \<Longrightarrow> client_advance p n v = x"
  shows "client_step p c v = x"
  using assms by (auto simp: client_step_streaming)

lemma client_step_facts:
  assumes "client_step p c u = Some (CStreaming m)"
  shows "client_step p c (u\<lparr>upd_cached_tokens := x\<rparr>) = Some (CStreaming m)"
    and "client_step p c (u\<lparr>upd_prompt_echo := y\<rparr>) = Some (CStreaming m)"
    and "client_step p c (u\<lparr>upd_kv_transfer := z\<rparr>) = Some (CStreaming m)"
    and "length lps = length ids \<Longrightarrow>
      client_step p c (u\<lparr>upd_tokens := upd_tokens u @ ids, upd_logprobs := upd_logprobs u @ lps\<rparr>)
        = Some (CStreaming (m + length ids))"
    and "client_step p c (u\<lparr>upd_terminal := Some (Finished r p m)\<rparr>) = Some CAnswered"
    and "client_step p c (u\<lparr>upd_terminal := Some (Failed msg p m)\<rparr>) = Some CAnswered"
  by (rule client_step_rewrite [OF assms];
      simp add: client_advance_streaming; simp add: client_advance_def)+


text \<open>
  What each operation does to the account and the entry of its request; the others keep theirs.
\<close>

inductive op_effect ::
  "ledger_op \<Rightarrow> account option \<Rightarrow> request_update option \<Rightarrow>
   account option \<Rightarrow> request_update option \<Rightarrow> request_update list \<Rightarrow> bool"
where
  admit: "acct_state a = Queued \<Longrightarrow>
    op_effect (OpAdmit now i) (Some a) b (Some (a\<lparr>acct_state := Active 0\<rparr>))
      (Some ((entry_or_empty i b)\<lparr>upd_scheduled :=
         Some \<lparr>si_queued_at = acct_queued_at a, si_scheduled_at = now,
               si_prompt_tokens = acct_prompt_len a\<rparr>\<rparr>)) []"
| reject: "acct_state a = Queued \<Longrightarrow>
    op_effect (OpReject i reason) (Some a) b None
      (Some ((entry_or_empty i b)\<lparr>upd_terminal := Some (Rejected reason (acct_prompt_len a))\<rparr>)) []"
| push: "acct_state a = Active n \<Longrightarrow> lps = [] \<or> length lps = length ids \<Longrightarrow>
    lps' = (if lps = [] then map (\<lambda>_. None) ids else lps) \<Longrightarrow> u = entry_or_empty i b \<Longrightarrow>
    op_effect (OpPush i ids lps) (Some a) b (Some (a\<lparr>acct_state := Active (n + length ids)\<rparr>))
      (Some (u\<lparr>upd_tokens := upd_tokens u @ ids, upd_logprobs := upd_logprobs u @ lps'\<rparr>)) []"
| cached: "acct_state a = Active n \<Longrightarrow>
    op_effect (OpCached i m) (Some a) b (Some a)
      (Some ((entry_or_empty i b)\<lparr>upd_cached_tokens := Some m\<rparr>)) []"
| echo: "acct_state a = Active n \<Longrightarrow>
    op_effect (OpEcho i e) (Some a) b (Some a)
      (Some ((entry_or_empty i b)\<lparr>upd_prompt_echo := Some e\<rparr>)) []"
| kv: "acct_state a = Active n \<Longrightarrow>
    op_effect (OpKvTransfer i v) (Some a) b (Some a)
      (Some ((entry_or_empty i b)\<lparr>upd_kv_transfer := Some v\<rparr>)) []"
| finish: "acct_state a = Active n \<Longrightarrow>
    op_effect (OpFinish i reason) (Some a) b None
      (Some ((entry_or_empty i b)
         \<lparr>upd_terminal := Some (Finished reason (acct_prompt_len a) n)\<rparr>)) []"
| fail: "op_effect (OpFail i m) (Some a) b None
      (Some ((entry_or_empty i b)\<lparr>upd_terminal :=
         Some (Failed m (acct_prompt_len a) (acct_completion_tokens a))\<rparr>)) []"
| retire: "op_effect (OpRetire i) (Some a) b None None []"
| defer_fin: "acct_state a = Active n \<Longrightarrow>
    op_effect (OpDefer i reason) (Some a) b None None
      [(entry_or_empty i b)\<lparr>upd_terminal := Some (Finished reason (acct_prompt_len a) n)\<rparr>]"

lemma is_active_iff:
  "is_active i L \<longleftrightarrow> (\<exists>a n. lg_accounts L i = Some a \<and> acct_state a = Active n)"
  by (auto simp: is_active_def split: option.splits account_state.splits)

lemma apply_op_effect:
  assumes "apply_op x L = Inr (L', ds)" and "wf_ledger L"
  shows "wf_ledger L' \<and>
    op_effect x (lg_accounts L (op_id x)) (lg_entry L (op_id x))
      (lg_accounts L' (op_id x)) (lg_entry L' (op_id x)) ds \<and>
    (\<forall>j. j \<noteq> op_id x \<longrightarrow> lg_accounts L' j = lg_accounts L j \<and> lg_entry L' j = lg_entry L j)"
proof -
  have *: "with_entry i f K = Inr L' \<Longrightarrow> wf_ledger K \<Longrightarrow> (\<And>u. upd_id (f u) = upd_id u) \<Longrightarrow>
      wf_ledger L' \<and> lg_accounts L' = lg_accounts K \<and>
      lg_entry L' = (lg_entry K)(i \<mapsto> f (entry_or_empty i (lg_entry K i)))" for i f K
    using with_entry_Inr by blast
  have **: "extract_entry i s = Inr (s', b) \<Longrightarrow> wf_statement s \<Longrightarrow>
      wf_statement s' \<and> b = buffered s i \<and> buffered s' = (buffered s)(i := None)" for i s s' b
    using extract_entry_Inr by blast
  show ?thesis
  proof (cases x)
    case (OpAdmit now i)
    then show ?thesis using assms
      by (auto simp: no_deferred_def panic_simps admit_def op_effect.simps
          dest!: *)
  next
    case (OpReject i r)
    then show ?thesis using assms
      by (auto simp: no_deferred_def panic_simps reject_def op_effect.simps
          dest!: *)
  next
    case (OpPush i ids lps)
    then show ?thesis using assms
      by (auto simp: no_deferred_def panic_simps push_tokens_def op_effect.simps
          split: if_splits dest!: *)
  next
    case (OpCached i n)
    then show ?thesis using assms
      by (auto simp: no_deferred_def panic_simps set_cached_tokens_def is_active_iff op_effect.simps
          split: if_splits dest!: *)
  next
    case (OpEcho i e)
    then show ?thesis using assms
      by (auto simp: no_deferred_def panic_simps echo_prompt_def is_active_iff op_effect.simps
          split: if_splits dest!: *)
  next
    case (OpKvTransfer i e)
    then show ?thesis using assms
      by (auto simp: no_deferred_def panic_simps kv_transfer_def is_active_iff op_effect.simps
          split: if_splits dest!: *)
  next
    case (OpFinish i r)
    then show ?thesis using assms
      by (auto simp: no_deferred_def panic_simps finish_def op_effect.simps
          dest!: *)
  next
    case (OpFail i m)
    then show ?thesis using assms
      by (auto simp: no_deferred_def panic_simps fail_def op_effect.simps
          dest!: *)
  next
    case (OpRetire i)
    then show ?thesis using assms
      by (auto simp: no_deferred_def panic_simps retire_def op_effect.simps wf_ledger_def
          lg_entry_def dest!: **)
  next
    case (OpDefer i r)
    then show ?thesis using assms
      by (auto simp: panic_simps defer_finish_def op_effect.simps wf_ledger_def
          lg_entry_def entry_or_empty_def dest!: **)
  qed
qed


lemma client_refused_empty [simp]:
  "client_refused p ((empty_update i)\<lparr>upd_terminal := Some (Rejected r p)\<rparr>) = Some CAnswered"
  "client_refused p ((empty_update i)\<lparr>upd_terminal := Some (Failed m p 0)\<rparr>) = Some CAnswered"
  by (simp_all add: client_refused_def)

lemma client_step_scheduled:
  "si_prompt_tokens si = p \<Longrightarrow>
    client_step p CWaiting ((empty_update i)\<lparr>upd_scheduled := Some si\<rparr>) = Some (CStreaming 0)"
  by simp

lemma op_effect_request_ok:
  assumes "op_effect x a b a' b' ds" and "op_id x = i" and "request_ok i p q a b d us r"
  shows "request_ok i p q a' b' (d @ ds) us (r \<or> i \<in> op_retires x)"
  using assms
proof (induction rule: op_effect.induct)
  case (admit a now j b)
  then show ?case
    by (auto elim!: request_ok_accountE intro!: request_ok.active client_step_scheduled)
next
  case (reject a j reason b)
  then show ?case
    by (auto elim!: request_ok_accountE intro!: request_ok.answering)
next
  case (push a n lps ids lps' u j b)
  then have len: "length lps' = length ids" by auto
  from push.prems(2) push.hyps(1) obtain c where "p = Some (acct_prompt_len a)" "q = []" "d = []" "\<not> r"
      and run: "client_run (acct_prompt_len a) CWaiting us = Some c"
      and stp: "client_step (acct_prompt_len a) c (entry_or_empty i b) = Some (CStreaming n)"
    by (auto elim!: request_ok_accountE)
  with push client_step_facts(4) [OF stp len] show ?case
    by (auto intro!: request_ok.active [OF _ _ run])
next
  case (cached a n j m b)
  then show ?case
    by (auto elim!: request_ok_accountE intro!: request_ok.active client_step_facts(1))
next
  case (echo a n j e b)
  then show ?case
    by (auto elim!: request_ok_accountE intro!: request_ok.active client_step_facts(2))
next
  case (kv a n j v b)
  then show ?case
    by (auto elim!: request_ok_accountE intro!: request_ok.active client_step_facts(3))
next
  case (finish a n j reason b)
  then show ?case
    by (auto elim!: request_ok_accountE intro!: request_ok.answering client_step_facts(5))
next
  case (fail j m a b)
  show ?case
  proof (cases "acct_state a")
    case Queued
    then show ?thesis using fail
      by (auto simp: acct_completion_tokens_def elim!: request_ok_accountE
          intro!: request_ok.answering [where c = CWaiting])
  next
    case (Active n)
    then show ?thesis using fail
      by (auto simp: acct_completion_tokens_def elim!: request_ok_accountE
          intro!: request_ok.answering client_step_facts(6))
  qed
next
  case (retire j a b)
  then show ?case
    by (auto elim!: request_ok_accountE intro!: request_ok.retired)
next
  case (defer_fin a n j reason b)
  then show ?case
    by (auto elim!: request_ok_accountE intro!: request_ok.deferred client_step_facts(5))
qed

section \<open>What each send adds to a stream\<close>

lemma ch_closed_send [simp]: "ch_closed (ch_send m c) = ch_closed c"
  by (simp add: ch_send_def)

lemma stream_send [simp]:
  "\<not> ch_closed c \<Longrightarrow> stream (ch_send m c) i = stream c i @ filter (\<lambda>u. upd_id u = i) m"
  by (simp add: stream_def ch_send_def)

definition shipped :: "request_update option \<Rightarrow> request_update list" where
  "shipped b = (case b of None \<Rightarrow> [] | Some u \<Rightarrow> if is_vacant u then [] else [u])"

lemma commit_step_closed [simp]: "ch_closed (snd (commit_step L c)) = ch_closed c"
  by (simp add: commit_step_def split: prod.split)

lemma stream_commit:
  assumes "wf_ledger L" and "\<not> ch_closed c"
  shows "stream (snd (commit_step L c)) i = stream c i @ shipped (lg_entry L i)"
proof -
  have "filter (\<lambda>u. upd_id u = i) (snd (take_updates (lg_statement L))) = shipped (lg_entry L i)"
    using assms(1) statement.bdrain_for [of "lg_statement L" i]
    by (simp add: wf_ledger_def lg_entry_def shipped_def)
  then show ?thesis
    using assms(2) by (auto simp: commit_step_def split: prod.splits)
qed

definition envelope_failure :: "envelope \<Rightarrow> request_update" where
  "envelope_failure e = (empty_update (env_id e))
     \<lparr>upd_terminal := Some (Failed dropped_queued_message
        (length (rq_prompt_tokens (env_request e))) 0)\<rparr>"

lemma drop_envelope_send: "drop_envelope e c = ch_send [envelope_failure e] c"
  by (simp add: drop_envelope_def envelope_failure_def)

lemma envelope_failure_id [simp]: "upd_id (envelope_failure e) = env_id e"
  by (simp add: envelope_failure_def)

lemma fold_drop_closed [simp]: "ch_closed (fold drop_envelope q c) = ch_closed c"
  by (induction q arbitrary: c) (auto simp: drop_envelope_send)

lemma stream_fold_drop:
  "\<not> ch_closed c \<Longrightarrow>
    stream (fold drop_envelope q c) i =
      stream c i @ map envelope_failure (filter (\<lambda>e. env_id e = i) q)"
  by (induction q arbitrary: c) (auto simp: drop_envelope_send)

definition written_off :: "request_id \<Rightarrow> account option \<Rightarrow> request_update list" where
  "written_off i a = (case a of None \<Rightarrow> [] | Some a \<Rightarrow> [write_off i a])"

lemma drop_ledger_closed [simp]: "ch_closed (drop_ledger order L c) = ch_closed c"
  by (simp add: drop_ledger_def)

lemma write_off_id [simp]: "upd_id (write_off i a) = i"
  by (simp add: write_off_def)

lemma filter_write_off:
  "distinct order \<Longrightarrow> set order \<subseteq> dom A \<Longrightarrow>
    filter (\<lambda>u. upd_id u = i) (List.map_filter (\<lambda>j. map_option (write_off j) (A j)) order) =
      (if i \<in> set order then written_off i (A i) else [])"
  by (induction order) (auto simp: written_off_def)

lemma stream_drop_ledger:
  assumes "\<not> ch_closed c" and "drain_order order L"
  shows "stream (drop_ledger order L c) i = stream c i @ written_off i (lg_accounts L i)"
proof (cases "i \<in> set order")
  case True
  then show ?thesis using assms filter_write_off [of order "lg_accounts L" i]
    by (auto simp: drop_ledger_def drain_order_def)
next
  case False
  then have "lg_accounts L i = None" using assms by (auto simp: drain_order_def)
  then show ?thesis using False assms filter_write_off [of order "lg_accounts L" i]
    by (auto simp: drop_ledger_def drain_order_def written_off_def)
qed

section \<open>Committing, falling and delivering keep the duty\<close>

lemma client_step_vacant:
  "client_step p c u = Some (CStreaming n) \<Longrightarrow> is_vacant u \<Longrightarrow> c = CStreaming n"
  by (auto simp: client_step_streaming client_advance_streaming is_vacant_def)

lemma request_ok_commit:
  assumes "request_ok i p q a b d us r"
  shows "request_ok i p q a None d (us @ shipped b) r"
  using assms
proof (induction rule: request_ok.induct)
  case (active a p n us c b)
  show ?case
  proof (cases b)
    case None
    with active show ?thesis by (auto simp: shipped_def intro: request_ok.active)
  next
    case (Some u)
    have "client_run p CWaiting (us @ shipped b) = Some (CStreaming n)"
      using active client_step_vacant [of p c u n] Some
      by (auto simp: shipped_def client_run_snoc)
    then show ?thesis using active by (auto intro: request_ok.active)
  qed
next
  case (answering p us c u)
  then have "\<not> is_vacant u"
    by (cases c) (auto simp: is_vacant_def client_advance_def client_refused_def
        split: option.splits if_splits)
  with answering show ?case
    by (auto simp: shipped_def client_run_snoc intro: request_ok.answered)
qed (auto simp: shipped_def intro: request_ok.intros)

lemma client_step_write_off:
  assumes "client_step p c (empty_update i) = Some (CStreaming n)"
    and "acct_state a = Active n" and "acct_prompt_len a = p"
  shows "client_step p c (write_off i a) = Some CAnswered"
  using assms client_step_facts(6) [OF assms(1)]
  by (auto simp: write_off_def acct_completion_tokens_def)

lemma request_ok_fall:
  assumes "request_ok i p q a None d us r"
  shows "request_ok i p [] None None d
    (us @ written_off i a @ map envelope_failure q) r"
  using assms
proof (cases rule: request_ok.cases)
  case (waiting e p)
  then show ?thesis
    by (auto simp: written_off_def envelope_failure_def intro!: request_ok.answered)
next
  case (queued a p)
  then show ?thesis
    by (auto simp: written_off_def write_off_def acct_completion_tokens_def
        intro!: request_ok.answered)
next
  case (active a p n c)
  then show ?thesis
    by (auto simp: written_off_def client_run_snoc client_step_write_off intro!: request_ok.answered)
qed (auto simp: written_off_def intro: request_ok.intros)

lemma request_ok_send:
  "request_ok i p q a b [u] us r \<Longrightarrow> request_ok i p q a b [] (us @ [u]) r"
  by (auto elim!: request_ok_deferredE intro!: request_ok.answered simp: client_run_snoc)

lemma client_step_refail:
  assumes "client_step p c u = Some CAnswered" and "upd_terminal u = Some (Finished r p k)"
  shows "client_step p c (u\<lparr>upd_terminal := Some (Failed m p k)\<rparr>) = Some CAnswered"
  using assms
  by (cases c) (auto simp: client_advance_def client_refused_def split: option.splits if_splits)

definition deferred_failure :: "request_update \<Rightarrow> request_update" where
  "deferred_failure u =
     (let (p, n) =
        (case upd_terminal u of
           Some (Finished _ p n) \<Rightarrow> (p, n)
         | _ \<Rightarrow> (0, length (upd_tokens u)))
      in u\<lparr>upd_terminal := Some (Failed dropped_deferred_message p n)\<rparr>)"

lemma drop_deferred_send: "drop_deferred u c = ch_send [deferred_failure u] c"
  by (auto simp: drop_deferred_def deferred_failure_def split: option.splits terminal.splits)

lemma deferred_failure_id [simp]: "upd_id (deferred_failure u) = upd_id u"
  by (auto simp: deferred_failure_def split: option.splits terminal.splits)

lemma request_ok_drop:
  "request_ok i p q a b [u] us r \<Longrightarrow> request_ok i p q a b [] (us @ [deferred_failure u]) r"
  by (auto elim!: request_ok_deferredE intro!: request_ok.answered
      simp: client_run_snoc client_step_refail deferred_failure_def)

section \<open>The invariant\<close>

definition minted_ok :: "system \<Rightarrow> bool" where
  "minted_ok s \<longleftrightarrow>
     sys_next_id s = of_nat (length (sys_minted s)) \<and>
     map fst (sys_minted s) = map of_nat [0..<length (sys_minted s)]"

definition sys_request_ok :: "system \<Rightarrow> request_id \<Rightarrow> bool" where
  "sys_request_ok s i \<longleftrightarrow>
     request_ok i (map_of (sys_minted s) i) (filter (\<lambda>e. env_id e = i) (sys_queue s))
       (lg_accounts (sys_ledger s) i) (lg_entry (sys_ledger s) i)
       (filter (\<lambda>u. upd_id u = i) (sys_deferred s)) (delivered s i) (i \<in> sys_retired s)"

definition sys_ok :: "system \<Rightarrow> bool" where
  "sys_ok s \<longleftrightarrow> wf_ledger (sys_ledger s) \<and>
     (sys_pc s = Exited \<longrightarrow> sys_queue s = [] \<and> sys_ledger s = new_ledger) \<and>
     (\<forall>i. sys_request_ok s i)"

text \<open>The guarantee holds while nothing panicked, the receiver lives and ids are not reused.\<close>

definition sound :: "system \<Rightarrow> bool" where
  "sound s \<longleftrightarrow> \<not> sys_panicked s \<and> \<not> ch_closed (sys_channel s) \<and> length (sys_minted s) \<le> 2 ^ 64"

lemma minted_fresh:
  assumes "minted_ok s" and "length (sys_minted s) < 2 ^ 64"
  shows "map_of (sys_minted s) (sys_next_id s) = None"
proof -
  let ?n = "length (sys_minted s)"
  have "(of_nat ?n :: u64) \<notin> of_nat ` {0..<?n}"
  proof
    assume "(of_nat ?n :: u64) \<in> of_nat ` {0..<?n}"
    then obtain k where k: "k < ?n" "(of_nat ?n :: u64) = of_nat k" by auto
    then have "unat (of_nat ?n :: u64) = unat (of_nat k :: u64)" by simp
    with k(1) assms(2) show False by (simp add: unat_of_nat)
  qed
  moreover have "fst ` set (sys_minted s) = of_nat ` {0..<?n}"
    using assms(1) unfolding minted_ok_def by (metis list.set_map set_upt)
  ultimately show ?thesis
    using assms(1) by (simp add: map_of_eq_None_iff minted_ok_def)
qed

lemma teardown_sels [simp]:
  "sys_pc (teardown order L s) = Exited" "sys_queue (teardown order L s) = []"
  "sys_ledger (teardown order L s) = new_ledger" "sys_deferred (teardown order L s) = sys_deferred s"
  "sys_minted (teardown order L s) = sys_minted s" "sys_retired (teardown order L s) = sys_retired s"
  "sys_panicked (teardown order L s) = sys_panicked s"
  "sys_next_id (teardown order L s) = sys_next_id s"
  "sys_channel (teardown order L s) =
     fold drop_envelope (sys_queue s) (drop_ledger order L (sys_channel s))"
  by (simp_all add: teardown_def)

lemma submit_sels [simp]:
  "sys_minted (submit r now s) = sys_minted s @ [(sys_next_id s, length (rq_prompt_tokens r))]"
  "sys_next_id (submit r now s) = sys_next_id s + 1"
  "sys_panicked (submit r now s) = sys_panicked s"
  "ch_closed (sys_channel (submit r now s)) = ch_closed (sys_channel s)"
  "sys_ledger (submit r now s) = sys_ledger s" "sys_deferred (submit r now s) = sys_deferred s"
  "sys_retired (submit r now s) = sys_retired s" "sys_pc (submit r now s) = sys_pc s"
  by (simp_all add: submit_def Let_def drop_envelope_def)

lemma abort_sels [simp]:
  "sys_minted (abort a s) = sys_minted s" "sys_next_id (abort a s) = sys_next_id s"
  "sys_panicked (abort a s) = sys_panicked s" "sys_channel (abort a s) = sys_channel s"
  "sys_ledger (abort a s) = sys_ledger s" "sys_deferred (abort a s) = sys_deferred s"
  "sys_retired (abort a s) = sys_retired s" "sys_pc (abort a s) = sys_pc s"
  "sys_queue (abort a s) = sys_queue s"
  by (simp_all add: abort_def)

lemma minted_ok_step: "sys_step s t \<Longrightarrow> minted_ok s \<Longrightarrow> minted_ok t"
  by (induction rule: sys_step.induct) (auto simp: minted_ok_def)

lemma reachable_minted_ok: "reachable s \<Longrightarrow> minted_ok s"
proof (induction rule: reachable.induct)
  case init
  then show ?case by (simp add: scheduler_pair_def minted_ok_def)
qed (rule minted_ok_step)

lemma commit_step_closed_eq: "commit_step L c = (L', c') \<Longrightarrow> ch_closed c' = ch_closed c"
  using commit_step_closed [of L c] by simp

lemma sound_step: "sys_step s t \<Longrightarrow> sound t \<Longrightarrow> sound s"
  by (induction rule: sys_step.induct)
    (auto simp: sound_def send_deferred_def drop_deferred_send dest: commit_step_closed_eq)

text \<open>The ledger side of the invariant, with the rest of the system as it is.\<close>

definition ledger_ok :: "system \<Rightarrow> envelope list \<Rightarrow> step_channel \<Rightarrow> ledger \<Rightarrow> bool" where
  "ledger_ok s q c L \<longleftrightarrow> wf_ledger L \<and>
     (\<forall>i. request_ok i (map_of (sys_minted s) i) (filter (\<lambda>e. env_id e = i) q)
        (lg_accounts L i) (lg_entry L i) (filter (\<lambda>u. upd_id u = i) (sys_deferred s))
        (stream c i) (i \<in> sys_retired s))"

lemma sys_ok_ledger_ok:
  "sys_ok s \<longleftrightarrow> ledger_ok s (sys_queue s) (sys_channel s) (sys_ledger s) \<and>
    (sys_pc s = Exited \<longrightarrow> sys_queue s = [] \<and> sys_ledger s = new_ledger)"
  by (auto simp: sys_ok_def ledger_ok_def sys_request_ok_def delivered_def)

lemma ledger_ok_commit:
  assumes "ledger_ok s q c L" and "commit_step L c = (L', c')" and "\<not> ch_closed c"
  shows "ledger_ok s q c' L'" and "\<And>i. lg_entry L' i = None" and "\<not> ch_closed c'"
proof -
  have L': "L' = fst (commit_step L c)" and c': "c' = snd (commit_step L c)"
    using assms(2) by simp_all
  show "ledger_ok s q c' L'"
    using assms(1,3)
    by (auto simp: ledger_ok_def L' c' commit_step_ledger stream_commit intro: request_ok_commit)
  show "\<And>i. lg_entry L' i = None" and "\<not> ch_closed c'"
    using assms(3) by (simp_all add: L' c' commit_step_ledger)
qed

lemma ledger_ok_fail_all:
  assumes "fail_all keys m L = Inr L'" and "ledger_ok s q c L"
  shows "ledger_ok s q c L'"
  using assms(1)
  unfolding fail_all_def
proof (rule fold_res_invariant [where P = "ledger_ok s q c"])
  fix i K K' assume "ledger_ok s q c K" and "fail i m K = Inr K'"
  then have "apply_op (OpFail i m) K = Inr (K', [])" and K: "ledger_ok s q c K"
    by (simp_all add: no_deferred_def)
  then have eff: "wf_ledger K'"
      "op_effect (OpFail i m) (lg_accounts K i) (lg_entry K i) (lg_accounts K' i) (lg_entry K' i) []"
      "\<And>j. j \<noteq> i \<Longrightarrow> lg_accounts K' j = lg_accounts K j \<and> lg_entry K' j = lg_entry K j"
    using apply_op_effect [of "OpFail i m" K K' "[]"] by (auto simp: ledger_ok_def)
  have "request_ok j (map_of (sys_minted s) j) (filter (\<lambda>e. env_id e = j) q)
      (lg_accounts K' j) (lg_entry K' j) (filter (\<lambda>u. upd_id u = j) (sys_deferred s))
      (stream c j) (j \<in> sys_retired s)" for j
    using op_effect_request_ok [OF eff(2)] K eff(3) [of j]
    by (cases "j = i") (fastforce simp: ledger_ok_def)+
  with eff(1) show "ledger_ok s q c K'" by (simp add: ledger_ok_def)
qed (rule assms(2))

lemma teardown_ok:
  assumes "ledger_ok s (sys_queue s) (sys_channel s) L" and "\<And>i. lg_entry L i = None"
    and "\<not> ch_closed (sys_channel s)" and "drain_order order L"
  shows "sys_ok (teardown order L s)"
  using assms request_ok_fall
  by (auto simp: sys_ok_ledger_ok ledger_ok_def stream_fold_drop stream_drop_ledger)

lemma ledger_ok_updates [simp]:
  "ledger_ok (s\<lparr>sys_pc := pc\<rparr>) q c L = ledger_ok s q c L"
  "ledger_ok (s\<lparr>sys_channel := c'\<rparr>) q c L = ledger_ok s q c L"
  "ledger_ok (s\<lparr>sys_ledger := K\<rparr>) q c L = ledger_ok s q c L"
  "ledger_ok (s\<lparr>sys_queue := q'\<rparr>) q c L = ledger_ok s q c L"
  "ledger_ok (s\<lparr>sys_frontend := f\<rparr>) q c L = ledger_ok s q c L"
  "ledger_ok (s\<lparr>sys_submissions_open := f\<rparr>) q c L = ledger_ok s q c L"
  "ledger_ok (abort a s) q c L = ledger_ok s q c L"
  by (simp_all add: ledger_ok_def)

lemma submit_ok:
  assumes ok: "sys_ok s" and fresh: "map_of (sys_minted s) (sys_next_id s) = None"
    and op: "\<not> ch_closed (sys_channel s)"
  shows "sys_ok (submit r now s)"
proof -
  let ?i = "sys_next_id s" and ?t = "submit r now s"
  have "request_ok ?i None (filter (\<lambda>e. env_id e = ?i) (sys_queue s))
      (lg_accounts (sys_ledger s) ?i) (lg_entry (sys_ledger s) ?i)
      (filter (\<lambda>u. upd_id u = ?i) (sys_deferred s)) (stream (sys_channel s) ?i)
      (?i \<in> sys_retired s)"
    using ok fresh by (metis sys_ok_def sys_request_ok_def delivered_def)
  then have new: "filter (\<lambda>e. env_id e = ?i) (sys_queue s) = []"
      "lg_accounts (sys_ledger s) ?i = None" "lg_entry (sys_ledger s) ?i = None"
      "filter (\<lambda>u. upd_id u = ?i) (sys_deferred s) = []" "stream (sys_channel s) ?i = []"
      "?i \<notin> sys_retired s"
    by (auto elim: request_ok.cases)
  have "sys_request_ok ?t j" for j
  proof (cases "j = ?i")
    case True
    then show ?thesis using new fresh op
      by (cases "sys_pc s = Exited")
        (auto simp: sys_request_ok_def delivered_def submit_def Let_def drop_envelope_send
          map_add_def envelope_failure_def intro!: request_ok.waiting request_ok.answered)
  next
    case False
    then have "map_of (sys_minted ?t) j = map_of (sys_minted s) j"
      by (simp add: map_add_def split: option.splits)
    moreover have "filter (\<lambda>e. env_id e = j) (sys_queue ?t) = filter (\<lambda>e. env_id e = j) (sys_queue s)"
      using False by (auto simp: submit_def Let_def)
    moreover have "stream (sys_channel ?t) j = stream (sys_channel s) j"
      using False op by (auto simp: submit_def Let_def drop_envelope_send)
    ultimately show ?thesis
      using ok by (simp add: sys_ok_def sys_request_ok_def delivered_def)
  qed
  moreover have "sys_pc ?t = Exited \<longrightarrow> sys_queue ?t = []"
    using ok by (simp add: sys_ok_def submit_def Let_def)
  ultimately show ?thesis using ok by (simp add: sys_ok_def)
qed

lemma register_ok:
  assumes ok: "sys_ok s" and queue: "sys_queue s = e # q"
    and reg: "register e (sys_ledger s) = Inr (L, qr)" and pc: "sys_pc s \<noteq> Exited"
  shows "sys_ok (s\<lparr>sys_queue := q, sys_ledger := L\<rparr>)"
proof -
  let ?K = "sys_ledger s" and ?t = "s\<lparr>sys_queue := q, sys_ledger := L\<rparr>"
  have L: "wf_ledger L = wf_ledger ?K" "lg_entry L = lg_entry ?K"
      "lg_accounts L = (lg_accounts ?K)(env_id e \<mapsto>
        \<lparr>acct_abort = env_abort e, acct_prompt_len = length (rq_prompt_tokens (env_request e)),
         acct_queued_at = env_queued_at e, acct_state = Queued\<rparr>)"
    using reg by (auto simp: register_def Let_def split: if_splits)
  have "sys_request_ok ?t j" for j
  proof (cases "j = env_id e")
    case True
    have "sys_request_ok s j" using ok by (simp add: sys_ok_def)
    then show ?thesis
      using True queue L
      by (auto simp: sys_request_ok_def delivered_def elim!: request_ok_envelopeE
          intro!: request_ok.queued)
  next
    case False
    have "sys_request_ok s j" using ok by (simp add: sys_ok_def)
    with False show ?thesis using queue L
      by (auto simp: sys_request_ok_def delivered_def)
  qed
  then show ?thesis using ok pc L by (simp add: sys_ok_def)
qed

lemma lg_entry_id: "wf_ledger L \<Longrightarrow> upd_id (entry_or_empty i (lg_entry L i)) = i"
  by (auto simp: entry_or_empty_def lg_entry_def wf_ledger_def split: option.splits
      intro: statement.blook_id)

lemma op_effect_ids:
  "op_effect x a b a' b' ds \<Longrightarrow> upd_id (entry_or_empty (op_id x) b) = op_id x \<Longrightarrow>
    \<forall>u \<in> set ds. upd_id u = op_id x"
  by (induction rule: op_effect.induct) auto

lemma op_ok:
  assumes ok: "sys_ok s" and op: "apply_op x (sys_ledger s) = Inr (L, ds)"
    and pc: "sys_pc s \<noteq> Exited"
  shows "sys_ok (s\<lparr>sys_ledger := L, sys_deferred := sys_deferred s @ ds,
      sys_retired := sys_retired s \<union> op_retires x\<rparr>)" (is "sys_ok ?t")
proof -
  have wf: "wf_ledger (sys_ledger s)" and req: "sys_request_ok s j" for j
    using ok by (simp_all add: sys_ok_def)
  note eff = apply_op_effect [OF op wf]
  have "\<forall>u \<in> set ds. upd_id u = op_id x"
    using op_effect_ids [of x _ _ _ _ ds] eff lg_entry_id [OF wf] by blast
  then have ids: "filter (\<lambda>u. upd_id u = j) ds = (if j = op_id x then ds else [])" for j
    by (auto intro: filter_True simp: filter_empty_conv)
  have "sys_request_ok ?t j" for j
  proof (cases "j = op_id x")
    case True
    then show ?thesis
      using op_effect_request_ok [OF conjunct1 [OF conjunct2 [OF eff]] refl] req [of j] ids [of j]
      by (simp add: sys_request_ok_def delivered_def)
  next
    case False
    then have "j \<notin> op_retires x" by (cases x) auto
    with False show ?thesis using eff req [of j] ids [of j]
      by (simp add: sys_request_ok_def delivered_def)
  qed
  then show ?thesis using eff pc by (simp add: sys_ok_def)
qed

lemma deliver_ok:
  assumes ok: "sys_ok s" and ds: "sys_deferred s = ds @ u # ds'" and "\<not> ch_closed (sys_channel s)"
    and id: "upd_id v = upd_id u"
    and keep: "\<And>i p q a b us r. request_ok i p q a b [u] us r \<Longrightarrow> request_ok i p q a b [] (us @ [v]) r"
  shows "sys_ok (s\<lparr>sys_deferred := ds @ ds', sys_channel := ch_send [v] (sys_channel s)\<rparr>)"
    (is "sys_ok ?t")
proof -
  have "sys_request_ok ?t j" for j
  proof -
    have req: "sys_request_ok s j" using ok by (simp add: sys_ok_def)
    show ?thesis
    proof (cases "upd_id u = j")
      case True
      then have "\<exists>w. filter (\<lambda>u. upd_id u = j) (ds @ u # ds') = [w]"
        using req ds by (auto simp: sys_request_ok_def filter_empty_conv elim!: request_ok.cases)
      with True have "filter (\<lambda>u. upd_id u = j) ds = []" "filter (\<lambda>u. upd_id u = j) ds' = []"
        by (auto simp: append_eq_Cons_conv)
      with True show ?thesis
        using req ds keep id assms(3) by (auto simp: sys_request_ok_def delivered_def)
    next
      case False
      then show ?thesis
        using req ds id assms(3) by (auto simp: sys_request_ok_def delivered_def)
    qed
  qed
  then show ?thesis using ok by (simp add: sys_ok_def)
qed

lemma sys_ok_step:
  assumes "sys_step s t" and "sys_ok s" and "minted_ok s" and "sound t"
  shows "sys_ok t"
  using assms
proof (induction rule: sys_step.induct)
  case (submit s r now)
  then have "map_of (sys_minted s) (sys_next_id s) = None"
    by (intro minted_fresh) (auto simp: sound_def)
  with submit show ?case by (intro submit_ok) (auto simp: sound_def)
next
  case (drain_recv s e q L qr)
  then show ?case by (intro register_ok) auto
next
  case (op s x L ds)
  then show ?case by (intro op_ok) auto
next
  case (step_ok s L c)
  then have "\<not> ch_closed (sys_channel s)"
    by (auto simp: sound_def dest: commit_step_closed_eq)
  with step_ok ledger_ok_commit(1) [of s "sys_queue s" "sys_channel s" "sys_ledger s" L c]
  show ?case by (auto simp: sys_ok_ledger_ok)
next
  case (step_drained s L c order)
  then have "\<not> ch_closed (sys_channel s)"
    by (auto simp: sound_def dest: commit_step_closed_eq)
  with step_drained ledger_ok_commit [of s "sys_queue s" "sys_channel s" "sys_ledger s" L c]
  show ?case by (intro teardown_ok) (auto simp: sys_ok_ledger_ok)
next
  case (step_fatal s L c keys e L' L'' c' order)
  then have op: "\<not> ch_closed (sys_channel s)"
    by (auto simp: sound_def dest: commit_step_closed_eq)
  have "ledger_ok s (sys_queue s) (sys_channel s) (sys_ledger s)"
    using step_fatal by (simp add: sys_ok_ledger_ok)
  note one = ledger_ok_commit [OF this step_fatal(2) op]
  note two = ledger_ok_commit [OF ledger_ok_fail_all [OF step_fatal(4) one(1)] step_fatal(5) one(3)]
  show ?case using two step_fatal(6) by (intro teardown_ok) auto
next
  case (deferred_send s ds u ds')
  then show ?case
    using deliver_ok [of s ds u ds' u] request_ok_send
    by (auto simp: send_deferred_def sound_def)
next
  case (deferred_drop s ds u ds')
  then show ?case
    using deliver_ok [of s ds u ds' "deferred_failure u"] request_ok_drop
    by (auto simp: drop_deferred_send sound_def)
qed (auto simp: sys_ok_ledger_ok sound_def)

lemma reachable_ok: "reachable s \<Longrightarrow> sound s \<Longrightarrow> sys_ok s"
proof (induction rule: reachable.induct)
  case init
  then show ?case
    by (auto simp: scheduler_pair_def sys_ok_def sys_request_ok_def delivered_def stream_def
        intro: request_ok.unsubmitted)
next
  case (step s t)
  then show ?case by (meson reachable_minted_ok sound_step sys_ok_step)
qed

section \<open>At most one answer, panics included\<close>

definition terminals :: "request_update list \<Rightarrow> nat" where
  "terminals us = length (filter (\<lambda>u. upd_terminal u \<noteq> None) us)"

definition entry_terminals :: "request_update option \<Rightarrow> nat" where
  "entry_terminals b = (case b of None \<Rightarrow> 0 | Some u \<Rightarrow> terminals [u])"

definition account_count :: "account option \<Rightarrow> nat" where
  "account_count a = (case a of None \<Rightarrow> 0 | Some _ \<Rightarrow> 1)"

text \<open>Terminals already delivered for \<open>i\<close>, and the places that may still produce one.\<close>

definition duty :: "system \<Rightarrow> request_id \<Rightarrow> nat" where
  "duty s i =
     length (filter (\<lambda>e. env_id e = i) (sys_queue s)) + account_count (lg_accounts (sys_ledger s) i) +
     entry_terminals (lg_entry (sys_ledger s) i) +
     length (filter (\<lambda>u. upd_id u = i) (sys_deferred s)) + terminals (delivered s i)"

lemma terminals_simps [simp]:
  "terminals [] = 0"
  "terminals (u # us) = (if upd_terminal u = None then terminals us else Suc (terminals us))"
  "terminals (us @ vs) = terminals us + terminals vs"
  by (simp_all add: terminals_def)

lemma account_count_simps [simp]:
  "account_count None = 0" "account_count (Some a) = 1"
  by (simp_all add: account_count_def)

lemma entry_terminals_simps [simp]:
  "entry_terminals None = 0"
  "entry_terminals (Some u) = (if upd_terminal u = None then 0 else 1)"
  by (simp_all add: entry_terminals_def)

lemma terminals_le: "terminals us \<le> length us"
  by (simp add: terminals_def)

lemma entry_or_empty_terminals:
  "upd_terminal (entry_or_empty i b) = None \<longleftrightarrow> entry_terminals b = 0"
  by (cases b) auto

lemma op_effect_duty:
  "op_effect x a b a' b' ds \<Longrightarrow>
    account_count a' + entry_terminals b' + length ds \<le> account_count a + entry_terminals b"
  by (induction rule: op_effect.induct) (auto simp: entry_or_empty_terminals)

text \<open>A panicking call leaves the accounts as they were, less the one it may have closed.\<close>

lemma apply_op_panic:
  assumes "apply_op x L = Inl (err, L')" and "wf_ledger L"
  shows "lg_accounts L' = lg_accounts L \<or> lg_accounts L' = (lg_accounts L)(op_id x := None)"
proof -
  have *: "with_entry i f K = Inl (err, L') \<longleftrightarrow> False"
    if "wf_ledger K" "\<And>u. upd_id (f u) = upd_id u" for i f K
    using with_entry_not_Inl [of K f i] that by auto
  have **: "extract_entry i (lg_statement L) = Inl e \<longleftrightarrow> False" for i e
    using extract_entry_not_Inl [of "lg_statement L" i] assms(2) by (auto simp: wf_ledger_def)
  show ?thesis
    using assms
    by (cases x)
      (auto simp: no_deferred_def ledger_op_defs bind_res_def close_account_def * **
        split: option.splits account_state.splits if_splits sum.splits)
qed

lemma stream_send_le:
  "terminals (stream (ch_send m c) i) \<le>
    terminals (stream c i) + terminals (filter (\<lambda>u. upd_id u = i) m)"
  by (cases "ch_closed c") (auto simp: ch_send_def stream_def)

lemma stream_commit_le:
  assumes "wf_ledger L"
  shows "terminals (stream (snd (commit_step L c)) i) \<le>
    terminals (stream c i) + entry_terminals (lg_entry L i)"
proof (cases "ch_closed c")
  case True
  then show ?thesis by (simp add: commit_step_def ch_send_def split: prod.splits)
next
  case False
  then show ?thesis using assms by (auto simp: stream_commit shipped_def split: option.splits)
qed

lemma fold_drop_le:
  "terminals (stream (fold drop_envelope q c) i) \<le>
    terminals (stream c i) + length (filter (\<lambda>e. env_id e = i) q)"
proof (induction q arbitrary: c)
  case (Cons e q)
  have "terminals (stream (drop_envelope e c) i) \<le>
      terminals (stream c i) + (if env_id e = i then 1 else 0)"
    using stream_send_le [of "[envelope_failure e]" c i]
    by (auto simp: drop_envelope_send envelope_failure_def split: if_splits)
  with Cons [of "drop_envelope e c"] show ?case by auto
qed simp

lemma drop_ledger_le:
  assumes "drain_order order L"
  shows "terminals (stream (drop_ledger order L c) i) \<le>
    terminals (stream c i) + account_count (lg_accounts L i)"
proof (cases "ch_closed c")
  case True
  then show ?thesis by (simp add: drop_ledger_def ch_send_def)
next
  case False
  then show ?thesis using assms
    by (auto simp: stream_drop_ledger written_off_def write_off_def split: option.splits)
qed

lemma teardown_duty:
  assumes "drain_order order L"
  shows "duty (teardown order L s) i \<le>
    length (filter (\<lambda>e. env_id e = i) (sys_queue s)) + account_count (lg_accounts L i) +
    length (filter (\<lambda>u. upd_id u = i) (sys_deferred s)) + terminals (delivered s i)"
  using fold_drop_le [of "sys_queue s" "drop_ledger order L (sys_channel s)" i]
    drop_ledger_le [OF assms, of "sys_channel s" i]
  by (simp add: duty_def delivered_def)

lemma wf_step: "sys_step s t \<Longrightarrow> wf_ledger (sys_ledger s) \<Longrightarrow> wf_ledger (sys_ledger t)"
proof (induction rule: sys_step.induct)
  case (step_ok s L c)
  then show ?case using commit_step_ledger(3) [of "sys_ledger s" "sys_channel s"] by simp
next
  case (op s x L ds)
  then show ?case using apply_op_effect by auto
qed (auto simp: register_def Let_def split: if_splits)

lemma fail_all_duty:
  assumes "fail_all keys m L = Inr L'" and "wf_ledger L"
  shows "wf_ledger L' \<and>
    (\<forall>i. account_count (lg_accounts L' i) + entry_terminals (lg_entry L' i) \<le>
       account_count (lg_accounts L i) + entry_terminals (lg_entry L i))"
  using assms(1) unfolding fail_all_def
proof (rule fold_res_invariant [where P = "\<lambda>K. wf_ledger K \<and>
    (\<forall>i. account_count (lg_accounts K i) + entry_terminals (lg_entry K i) \<le>
       account_count (lg_accounts L i) + entry_terminals (lg_entry L i))"])
  fix i K K' assume K: "wf_ledger K \<and>
    (\<forall>i. account_count (lg_accounts K i) + entry_terminals (lg_entry K i) \<le>
       account_count (lg_accounts L i) + entry_terminals (lg_entry L i))"
    and "fail i m K = Inr K'"
  then have "apply_op (OpFail i m) K = Inr (K', [])" by (simp add: no_deferred_def)
  then have eff: "wf_ledger K'"
      "op_effect (OpFail i m) (lg_accounts K i) (lg_entry K i) (lg_accounts K' i) (lg_entry K' i) []"
      "\<And>j. j \<noteq> i \<Longrightarrow> lg_accounts K' j = lg_accounts K j \<and> lg_entry K' j = lg_entry K j"
    using apply_op_effect [of "OpFail i m" K K' "[]"] K by auto
  have "account_count (lg_accounts K' j) + entry_terminals (lg_entry K' j) \<le>
      account_count (lg_accounts K j) + entry_terminals (lg_entry K j)" for j
    using op_effect_duty [OF eff(2)] eff(3) [of j] by (cases "j = i") auto
  with K eff(1) show "wf_ledger K' \<and>
    (\<forall>i. account_count (lg_accounts K' i) + entry_terminals (lg_entry K' i) \<le>
       account_count (lg_accounts L i) + entry_terminals (lg_entry L i))"
    by (meson order_trans)
qed (use assms(2) in simp)

lemma deliver_duty:
  assumes "sys_deferred s = ds @ u # ds'" and "upd_id v = upd_id u"
  shows "duty (s\<lparr>sys_deferred := ds @ ds', sys_channel := ch_send [v] (sys_channel s)\<rparr>) i \<le> duty s i"
  using assms stream_send_le [of "[v]" "sys_channel s" i]
  by (auto simp: duty_def delivered_def split: if_splits)

lemma commit_duty:
  assumes "commit_step L c = (L', c')" and "wf_ledger L"
  shows "account_count (lg_accounts L' i) + entry_terminals (lg_entry L' i) +
      terminals (stream c' i) \<le>
    account_count (lg_accounts L i) + entry_terminals (lg_entry L i) + terminals (stream c i)"
    and "wf_ledger L'"
  using assms commit_step_ledger [of L c] stream_commit_le [of L c i] by auto

lemma duty_step:
  assumes "sys_step s t" and "wf_ledger (sys_ledger s)"
  shows "duty t i + length (filter (\<lambda>m. fst m = i) (sys_minted s)) \<le>
    duty s i + length (filter (\<lambda>m. fst m = i) (sys_minted t))"
  using assms
proof (induction rule: sys_step.induct)
  case (submit s r now)
  show ?case
    using stream_send_le [of "[envelope_failure \<lparr>env_id = sys_next_id s,
        env_abort = length (sys_minted s), env_request = r, env_queued_at = now\<rparr>]" "sys_channel s" i]
    by (auto simp: duty_def delivered_def submit_def Let_def drop_envelope_send
        envelope_failure_def split: if_splits)
next
  case (drain_recv s e q L qr)
  then show ?case
    by (auto simp: duty_def delivered_def register_def Let_def split: if_splits)
next
  case (drain_panic s e q err L order)
  then have "account_count (lg_accounts L i) \<le>
      account_count (lg_accounts (sys_ledger s) i) + (if env_id e = i then 1 else 0)"
    by (auto simp: register_def Let_def split: if_splits)
  then show ?case
    using drain_panic teardown_duty [of order L "s\<lparr>sys_queue := q, sys_panicked := True\<rparr>" i]
    by (auto simp: duty_def delivered_def split: if_splits)
next
  case (op s x L ds)
  then have eff: "op_effect x (lg_accounts (sys_ledger s) (op_id x)) (lg_entry (sys_ledger s) (op_id x))
      (lg_accounts L (op_id x)) (lg_entry L (op_id x)) ds"
    and frame: "\<And>j. j \<noteq> op_id x \<Longrightarrow> lg_accounts L j = lg_accounts (sys_ledger s) j \<and>
      lg_entry L j = lg_entry (sys_ledger s) j"
    using apply_op_effect [of x "sys_ledger s" L ds] by auto
  have "\<forall>u \<in> set ds. upd_id u = op_id x"
    by (rule op_effect_ids [OF eff lg_entry_id [OF op.prems]])
  then have "filter (\<lambda>u. upd_id u = i) ds = (if i = op_id x then ds else [])"
    by (auto intro: filter_True simp: filter_empty_conv)
  then show ?case
    using op_effect_duty [OF eff] frame [of i] by (auto simp: duty_def delivered_def)
next
  case (op_panic s x err L order)
  then have "account_count (lg_accounts L i) \<le> account_count (lg_accounts (sys_ledger s) i)"
    using apply_op_panic [of x "sys_ledger s" err L] by auto
  then show ?case
    using op_panic teardown_duty [of order L "s\<lparr>sys_panicked := True\<rparr>" i]
    by (auto simp: duty_def delivered_def)
next
  case (step_ok s L c)
  then show ?case
    using commit_duty(1) [of "sys_ledger s" "sys_channel s" L c i] by (auto simp: duty_def delivered_def)
next
  case (step_drained s L c order)
  then show ?case
    using commit_duty(1) [of "sys_ledger s" "sys_channel s" L c i]
      teardown_duty [of order L "s\<lparr>sys_channel := c\<rparr>" i]
    by (auto simp: duty_def delivered_def)
next
  case (step_fatal s L c keys e L' L'' c' order)
  note one = commit_duty(1) [OF step_fatal(2) step_fatal.prems, of i]
  note all = fail_all_duty [OF step_fatal(4) commit_duty(2) [OF step_fatal(2) step_fatal.prems]]
  then have "wf_ledger L'" by simp
  note two = commit_duty(1) [OF step_fatal(5) this, of i]
  show ?case
    using one two all [THEN conjunct2, rule_format, of i]
      teardown_duty [OF step_fatal(6), of "s\<lparr>sys_channel := c'\<rparr>" i]
    by (simp add: duty_def delivered_def)
next
  case (deferred_send s ds u ds')
  then show ?case using deliver_duty [of s ds u ds' u i] by (simp add: send_deferred_def)
next
  case (deferred_drop s ds u ds')
  then show ?case using deliver_duty [of s ds u ds' "deferred_failure u" i]
    by (simp add: drop_deferred_send)
qed (auto simp: duty_def delivered_def stream_def)

lemma reachable_wf: "reachable s \<Longrightarrow> wf_ledger (sys_ledger s)"
proof (induction rule: reachable.induct)
  case init
  then show ?case by (simp add: scheduler_pair_def)
qed (rule wf_step)

lemma reachable_duty: "reachable s \<Longrightarrow> duty s i \<le> length (filter (\<lambda>m. fst m = i) (sys_minted s))"
proof (induction rule: reachable.induct)
  case init
  then show ?case by (simp add: scheduler_pair_def duty_def delivered_def stream_def)
next
  case (step s t)
  then show ?case using duty_step [OF step.hyps(2) reachable_wf [OF step.hyps(1)], of i] by linarith
qed

lemma minted_distinct:
  assumes "minted_ok s" and "length (sys_minted s) \<le> 2 ^ 64"
  shows "distinct (map fst (sys_minted s))"
proof -
  have "inj_on (of_nat :: nat \<Rightarrow> u64) {0..<length (sys_minted s)}"
  proof (rule inj_onI)
    fix k l assume "k \<in> {0..<length (sys_minted s)}" "l \<in> {0..<length (sys_minted s)}"
      and "(of_nat k :: u64) = of_nat l"
    then have "unat (of_nat k :: u64) = unat (of_nat l :: u64)" "k < 2 ^ 64" "l < 2 ^ 64"
      using assms(2) by auto
    then show "k = l" by (simp add: unat_of_nat)
  qed
  then show ?thesis using assms(1) by (simp add: minted_ok_def distinct_map)
qed

lemma distinct_fst_count: "distinct (map fst xs) \<Longrightarrow> length (filter (\<lambda>m. fst m = i) xs) \<le> 1"
  by (induction xs) (auto simp: filter_empty_conv rev_image_eqI)

lemma fail_all_total:
  assumes "wf_ledger L" and "distinct keys" and "set keys \<subseteq> dom (lg_accounts L)"
  shows "\<exists>L'. fail_all keys m L = Inr L' \<and>
    lg_accounts L' = (\<lambda>i. if i \<in> set keys then None else lg_accounts L i)"
  using assms
proof (induction keys arbitrary: L)
  case Nil
  then show ?case by (simp add: fail_all_def)
next
  case (Cons k keys)
  then obtain a where a: "lg_accounts L k = Some a" by auto
  let ?f = "\<lambda>u. u\<lparr>upd_terminal := Some (Failed m (acct_prompt_len a) (acct_completion_tokens a))\<rparr>"
  let ?K = "L\<lparr>lg_accounts := (lg_accounts L)(k := None)\<rparr>"
  obtain L1 where L1: "with_entry k ?f ?K = Inr L1" "wf_ledger L1"
      "lg_accounts L1 = (lg_accounts L)(k := None)"
    by (rule with_entry_total [of ?K ?f k]) (use Cons.prems in auto)
  then have "fail k m L = Inr L1" using a by (simp add: fail_def close_account_def)
  moreover obtain L' where "fail_all keys m L1 = Inr L'"
      "lg_accounts L' = (\<lambda>i. if i \<in> set keys then None else lg_accounts L1 i)"
    using Cons.IH [OF L1(2)] Cons.prems L1(3) by (auto simp: dom_if subset_iff domI)
  ultimately show ?case using L1(3) by (auto simp: fail_all_def)
qed

section \<open>Running the system\<close>

text \<open>An executable interpreter of transitions; every run it makes is a run of the system.\<close>

datatype action =
    ASubmit request instant
  | AAbort flag_addr
  | AFrontendGone
  | ARecv
  | AEmpty
  | AOp ledger_op
  | AOpPanic ledger_op "request_id list"
  | ACommit
  | ADrained "request_id list"

definition drain_order_exec :: "request_id list \<Rightarrow> request_id list \<Rightarrow> ledger \<Rightarrow> bool" where
  "drain_order_exec ids order L \<longleftrightarrow> distinct order \<and>
     list_all (\<lambda>i. lg_accounts L i \<noteq> None) order \<and>
     list_all (\<lambda>i. lg_accounts L i \<noteq> None \<longrightarrow> i \<in> set order) ids"

fun act :: "action \<Rightarrow> system \<Rightarrow> system option" where
  "act (ASubmit r now) s = (if sys_frontend s then Some (submit r now s) else None)"
| "act (AAbort a) s = (if a < length (sys_minted s) then Some (abort a s) else None)"
| "act AFrontendGone s = Some (s\<lparr>sys_frontend := False\<rparr>)"
| "act ARecv s =
     (case (sys_pc s, sys_queue s) of
        (Draining, e # q) \<Rightarrow>
          (case register e (sys_ledger s) of
             Inl _ \<Rightarrow> None
           | Inr (L, _) \<Rightarrow> Some (s\<lparr>sys_queue := q, sys_ledger := L\<rparr>))
      | _ \<Rightarrow> None)"
| "act AEmpty s =
     (if sys_pc s = Draining \<and> sys_queue s = []
      then Some (s\<lparr>sys_pc := Stepping,
        sys_submissions_open := sys_submissions_open s \<and> sys_frontend s\<rparr>) else None)"
| "act (AOp x) s =
     (if sys_pc s = Stepping then
        (case apply_op x (sys_ledger s) of
           Inl _ \<Rightarrow> None
         | Inr (L, ds) \<Rightarrow> Some (s\<lparr>sys_ledger := L, sys_deferred := sys_deferred s @ ds,
             sys_retired := sys_retired s \<union> op_retires x\<rparr>))
      else None)"
| "act (AOpPanic x order) s =
     (if sys_pc s = Stepping then
        (case apply_op x (sys_ledger s) of
           Inl (_, L) \<Rightarrow>
             if drain_order_exec (map fst (sys_minted s)) order L
             then Some (teardown order L (s\<lparr>sys_panicked := True\<rparr>)) else None
         | Inr _ \<Rightarrow> None)
      else None)"
| "act ACommit s =
     (if sys_pc s = Stepping then
        (case commit_step (sys_ledger s) (sys_channel s) of
           (L, c) \<Rightarrow> Some (s\<lparr>sys_pc := Draining, sys_ledger := L, sys_channel := c\<rparr>))
      else None)"
| "act (ADrained order) s =
     (if sys_pc s = Stepping \<and> \<not> sys_submissions_open s then
        (case commit_step (sys_ledger s) (sys_channel s) of
           (L, c) \<Rightarrow>
             if drain_order_exec (map fst (sys_minted s)) order L
             then Some (teardown order L (s\<lparr>sys_channel := c\<rparr>)) else None)
      else None)"

fun run_actions :: "action list \<Rightarrow> system \<Rightarrow> system option" where
  "run_actions [] s = Some s"
| "run_actions (x # xs) s = (case act x s of None \<Rightarrow> None | Some t \<Rightarrow> run_actions xs t)"

lemma account_minted:
  assumes "reachable s" and "lg_accounts (sys_ledger s) i = Some a"
  shows "i \<in> fst ` set (sys_minted s)"
proof -
  have "0 < duty s i" using assms(2) by (simp add: duty_def)
  then have "filter (\<lambda>m. fst m = i) (sys_minted s) \<noteq> []"
    using reachable_duty [OF assms(1), of i] by auto
  then show ?thesis by (auto simp: filter_empty_conv rev_image_eqI)
qed

lemma drain_order_execD:
  assumes "drain_order_exec (map fst (sys_minted s)) order L" and "reachable s"
    and "\<And>i a. lg_accounts L i = Some a \<Longrightarrow> lg_accounts (sys_ledger s) i \<noteq> None"
  shows "drain_order order L"
  using assms account_minted [OF assms(2)]
  by (fastforce simp: drain_order_exec_def drain_order_def list_all_iff)

lemma act_reachable:
  assumes "reachable s" and "act x s = Some t"
  shows "reachable t"
proof -
  have "sys_step s t"
  proof (cases x)
    case (AOpPanic y order)
    with assms(2) obtain err L where y: "sys_pc s = Stepping" "apply_op y (sys_ledger s) = Inl (err, L)"
        "drain_order_exec (map fst (sys_minted s)) order L"
        "t = teardown order L (s\<lparr>sys_panicked := True\<rparr>)"
      by (auto split: if_splits sum.splits)
    have "drain_order order L"
      by (rule drain_order_execD [OF y(3) assms(1)])
        (use apply_op_panic [OF y(2) reachable_wf [OF assms(1)]] in \<open>auto split: if_splits\<close>)
    then show ?thesis using y by (auto intro: sys_step.op_panic)
  next
    case (ADrained order)
    with assms(2) obtain L c where y: "sys_pc s = Stepping" "\<not> sys_submissions_open s"
        "commit_step (sys_ledger s) (sys_channel s) = (L, c)"
        "drain_order_exec (map fst (sys_minted s)) order L"
        "t = teardown order L (s\<lparr>sys_channel := c\<rparr>)"
      by (auto split: if_splits prod.splits)
    have "drain_order order L"
      by (rule drain_order_execD [OF y(4) assms(1)])
        (use y(3) commit_step_ledger(1) [of "sys_ledger s" "sys_channel s"] in auto)
    then show ?thesis using y by (auto intro: sys_step.step_drained)
  qed (use assms(2) in \<open>auto intro: sys_step.intros
      split: if_splits sum.splits prod.splits driver_pc.splits list.splits\<close>)
  then show ?thesis using assms(1) by (blast intro: reachable.step)
qed

lemma run_actions_reachable: "reachable s \<Longrightarrow> run_actions xs s = Some t \<Longrightarrow> reachable t"
  by (induction xs arbitrary: s) (auto split: option.splits intro: act_reachable)

definition demo_request :: request where
  "demo_request = \<lparr>rq_prompt_tokens = [1, 2], rq_params = default_sampling_params,
     rq_max_tokens = 2, rq_lora_adapter = None, rq_kv_transfer_params = None, rq_logprobs = 0,
     rq_echo = False, rq_trace_parent = None, rq_client_label = None\<rparr>"

definition demo_actions :: "action list" where
  "demo_actions =
     [ASubmit demo_request 1, ASubmit demo_request 2, ARecv, ARecv, AEmpty,
      AOp (OpAdmit 3 0), AOp (OpPush 0 [7] []), ACommit, AFrontendGone, AEmpty,
      AOp (OpPush 0 [8] []), AOp (OpFinish 0 Length), ADrained [1]]"

definition demo_state :: system where
  "demo_state = (case run_actions demo_actions scheduler_pair of Some s \<Rightarrow> s | None \<Rightarrow> scheduler_pair)"

lemmas run_defs =
  demo_actions_def demo_request_def scheduler_pair_def submit_def abort_def register_def
  new_ledger_def empty_statement_def ledger_op_defs no_deferred_def close_account_def
  with_entry_def modify_entry_def statement_entry_def extract_entry_def is_active_def
  commit_step_def take_updates_def ch_send_def drain_order_exec_def teardown_def
  drop_ledger_def drop_envelope_def write_off_def acct_completion_tokens_def empty_update_def
  is_vacant_def Let_def

lemma demo_run:
  "run_actions demo_actions scheduler_pair = Some demo_state"
  "sys_minted demo_state = [(0, 2), (1, 2)]" "sys_pc demo_state = Exited"
  "\<not> sys_panicked demo_state" "\<not> ch_closed (sys_channel demo_state)"
  "sys_deferred demo_state = []"
  by (simp_all add: demo_state_def run_defs)

lemma demo_reachable: "reachable demo_state"
  by (rule run_actions_reachable [OF reachable.init demo_run(1)])

lemma demo_sound: "sound demo_state"
  by (simp add: sound_def demo_run)

section \<open>Properties of the engine contract\<close>

lemma delivered_protocol:
  assumes "sys_ok s" and "map_of (sys_minted s) i = Some p"
  obtains c where "client_run p CWaiting (delivered s i) = Some c"
proof -
  have "sys_request_ok s i" using assms(1) by (simp add: sys_ok_def)
  then show thesis using assms(2) that
    by (auto simp: sys_request_ok_def elim!: request_ok.cases)
qed

text \<open>
  C1: What the client of a submitted request reads from the step stream follows the protocol
  at every moment, whatever the scheduler does short of panicking: admission first and once,
  tokens with parallel logprobs, one terminal and nothing after it, and a terminal whose
  prompt length is that of the request and whose completion count is the number of tokens
  streamed. Nothing is delivered for an id that was not submitted.
\<close>

theorem stream_follows_protocol:
  assumes "reachable s" and "sound s"
  shows "(case map_of (sys_minted s) i of
      None \<Rightarrow> delivered s i = []
    | Some p \<Rightarrow> client_run p CWaiting (delivered s i) \<noteq> None)"
proof (cases "map_of (sys_minted s) i")
  case None
  have "sys_request_ok s i" using reachable_ok [OF assms] by (simp add: sys_ok_def)
  with None show ?thesis by (auto simp: sys_request_ok_def elim!: request_ok.cases)
next
  case (Some p)
  then show ?thesis using delivered_protocol [OF reachable_ok [OF assms] Some] by auto
qed

theorem stream_follows_protocol_witness:
  "client_run 2 CWaiting (delivered demo_state 0) \<noteq> None"
  using stream_follows_protocol [OF demo_reachable demo_sound, of 0] by (simp add: demo_run(2))



text \<open>
  C3: At most one terminal is ever delivered for a request, even if the scheduler panics,
  the receiver goes away, or deferred finishes are dropped, as long as fewer than
  \<open>2 ^ 64\<close> requests were submitted.
\<close>

theorem at_most_one_terminal:
  assumes "reachable s" and "length (sys_minted s) \<le> 2 ^ 64"
  shows "terminals (delivered s i) \<le> 1"
proof -
  have "terminals (delivered s i) \<le> duty s i" by (simp add: duty_def)
  also have "\<dots> \<le> length (filter (\<lambda>m. fst m = i) (sys_minted s))"
    by (rule reachable_duty [OF assms(1)])
  also have "\<dots> \<le> 1"
    by (rule distinct_fst_count [OF minted_distinct [OF reachable_minted_ok [OF assms(1)] assms(2)]])
  finally show ?thesis .
qed

theorem at_most_one_terminal_witness: "terminals (delivered demo_state 0) \<le> 1"
  by (rule at_most_one_terminal [OF demo_reachable]) (simp add: demo_run)

text \<open>
  The driver never panics while it drains submissions: an id is registered once.
\<close>

theorem register_never_panics:
  assumes "reachable s" and "length (sys_minted s) \<le> 2 ^ 64" and "sys_queue s = e # q"
  shows "\<exists>L qr. register e (sys_ledger s) = Inr (L, qr)"
proof -
  have "duty s (env_id e) \<le> 1"
    using reachable_duty [OF assms(1), of "env_id e"]
      distinct_fst_count [OF minted_distinct [OF reachable_minted_ok [OF assms(1)] assms(2)], of "env_id e"]
    by linarith
  then have "lg_accounts (sys_ledger s) (env_id e) = None"
    using assms(3) by (cases "lg_accounts (sys_ledger s) (env_id e)") (auto simp: duty_def)
  then show ?thesis by (simp add: register_def)
qed

definition demo_queued :: system where
  "demo_queued = submit demo_request 1 scheduler_pair"

theorem register_never_panics_witness:
  "\<exists>L qr. register (hd (sys_queue demo_queued)) (sys_ledger demo_queued) = Inr (L, qr)"
proof (rule register_never_panics [of _ _ "[]"])
  show "reachable demo_queued"
    unfolding demo_queued_def
    by (rule reachable.step [OF reachable.init sys_step.submit]) (simp add: scheduler_pair_def)
qed (simp_all add: demo_queued_def submit_def scheduler_pair_def)

text \<open>
  C13: The write-off after a fatal step error cannot panic: \<open>fail_all\<close> over the keys of the
  account map closes every account, whatever the statement of the ledger holds.
\<close>

theorem fail_all_closes_everything:
  assumes "reachable s" and "drain_order keys (sys_ledger s)"
  shows "\<exists>L. fail_all keys message (sys_ledger s) = Inr L \<and> lg_accounts L = Map.empty"
proof -
  have "distinct keys" "set keys = dom (lg_accounts (sys_ledger s))"
    using assms(2) by (simp_all add: drain_order_def)
  then obtain L where "fail_all keys message (sys_ledger s) = Inr L"
      "lg_accounts L = (\<lambda>i. if i \<in> dom (lg_accounts (sys_ledger s)) then None
        else lg_accounts (sys_ledger s) i)"
    using fail_all_total [OF reachable_wf [OF assms(1)], of keys message] by auto
  then show ?thesis by (auto simp: fun_eq_iff domIff)
qed

definition demo_mid :: system where
  "demo_mid = (case run_actions (take 6 demo_actions) scheduler_pair of
     Some s \<Rightarrow> s | None \<Rightarrow> scheduler_pair)"

lemma demo_mid_run: "run_actions (take 6 demo_actions) scheduler_pair = Some demo_mid"
  by (simp add: demo_mid_def run_defs)

theorem fail_all_closes_everything_witness:
  "\<exists>L. fail_all [0, 1] ''lost'' (sys_ledger demo_mid) = Inr L \<and> lg_accounts L = Map.empty"
proof (rule fail_all_closes_everything)
  show "reachable demo_mid" by (rule run_actions_reachable [OF reachable.init demo_mid_run])
  show "drain_order [0, 1] (sys_ledger demo_mid)"
    by (auto simp: drain_order_def demo_mid_def run_defs split: if_splits)
qed

definition panic_actions :: "action list" where
  "panic_actions =
     [ASubmit demo_request 1, ASubmit demo_request 2, ARecv, ARecv, AEmpty,
      AOp (OpAdmit 3 0), AOp (OpPush 0 [7] []), AOp (OpFinish 0 Stop),
      AOpPanic (OpPush 1 [9] []) [1]]"

text \<open>
  A panic in \<open>step\<close> can lose an answer. A request that was admitted and finished in
  the current step has its account closed and its terminal only in the uncommitted
  statement; when the scheduler then panics on another request, the ledger's \<open>Drop\<close> sweeps
  open accounts only, and this request gets no terminal although the receiver is alive.
\<close>

theorem panic_loses_a_finished_answer:
  "\<exists>s. reachable s \<and> sys_pc s = Exited \<and> \<not> ch_closed (sys_channel s) \<and> sys_deferred s = [] \<and>
     map_of (sys_minted s) 0 = Some 2 \<and> 0 \<notin> sys_retired s \<and> delivered s 0 = []"
proof -
  obtain s where s: "run_actions panic_actions scheduler_pair = Some s"
      "sys_pc s = Exited" "\<not> ch_closed (sys_channel s)" "sys_deferred s = []"
      "map_of (sys_minted s) 0 = Some 2" "0 \<notin> sys_retired s" "delivered s 0 = []"
    by (simp add: panic_actions_def run_defs delivered_def stream_def)
  then show ?thesis using run_actions_reachable [OF reachable.init] by blast
qed

end
