(* ===== verification/Qwen3_Adapter.thy ===== *)
theory Qwen3_Adapter
  imports Qwen3_Mechanics Contract_System
begin

text \<open>
  The Qwen3 scheduler behind the engine contract, \<open>pegainfer-qwen3/src/frontend_adapter.rs\<close>:
  the state of \<open>Qwen3Scheduler\<close>, its \<open>submit\<close>, \<open>step\<close> and \<open>metrics\<close>, and the
  translation of step effects into ledger writes.

  A step runs on a \<open>run_state\<close>: the scheduler, the ledger, the deferred finishes handed to
  the executor, the ledger calls made so far and a tick that numbers the reads of shared state
  (abort flags, clock). A ledger panic unwinds the step. What the step reads of its
  surroundings is the \<open>step_env\<close>: the abort flags and the clock at each tick, the random
  seeds, whether the numeric policy makes chunking request-local, and the LoRA commands that
  wait in the private channel.
\<close>

section \<open>State\<close>

record 'x qwen3 =
  qs_executor :: 'x
  qs_rng :: nat
  qs_max_prefill_tokens :: usize
  qs_kv_total :: usize
  qs_tracker :: tracker
  qs_deferred :: "pending_request list"
  qs_loading :: "pending_request list"
  qs_prefilling :: "pending_request list"
  qs_active :: "active_request list"
  qs_inflight :: "pending_request list option"
  qs_pending_control :: "lora_control list"
  qs_post_control :: "pending_request list"

record step_env =
  en_flags :: "nat \<Rightarrow> abort_flags"
  en_now :: "nat \<Rightarrow> instant"
  en_draw :: "nat \<Rightarrow> u64"
  en_request_local :: bool
  en_lora_commands :: "lora_control list"

record 'x run_state =
  ru_sched :: "'x qwen3"
  ru_ledger :: ledger
  ru_released :: "request_update list"
  ru_ops :: "ledger_op list"
  ru_tick :: nat

definition new_qwen3 :: "'x \<Rightarrow> usize \<Rightarrow> usize \<Rightarrow> 'x qwen3" where
  "new_qwen3 x max_prefill kv_total =
     \<lparr>qs_executor = x, qs_rng = 0, qs_max_prefill_tokens = max_prefill, qs_kv_total = kv_total,
      qs_tracker = Map.empty, qs_deferred = [], qs_loading = [], qs_prefilling = [],
      qs_active = [], qs_inflight = None, qs_pending_control = [], qs_post_control = []\<rparr>"

definition qs_idle :: "'x qwen3 \<Rightarrow> bool" where
  "qs_idle q \<longleftrightarrow>
     qs_active q = [] \<and> qs_deferred q = [] \<and> qs_prefilling q = [] \<and> qs_inflight q = None"

section \<open>Primitives of a step\<close>

definition do_op :: "ledger_op \<Rightarrow> 'x run_state \<Rightarrow> (panic \<times> ledger) + 'x run_state" where
  "do_op op r =
     bind_res (apply_op op (ru_ledger r)) (\<lambda>(L, ds).
       Inr (r\<lparr>ru_ledger := L, ru_released := ru_released r @ ds, ru_ops := ru_ops r @ [op]\<rparr>))"

definition probe_abort ::
  "step_env \<Rightarrow> request_id \<Rightarrow> 'x run_state \<Rightarrow> (panic \<times> ledger) + (bool \<times> 'x run_state)" where
  "probe_abort env i r =
     bind_res (is_aborted (en_flags env (ru_tick r)) i (ru_ledger r)) (\<lambda>b.
       Inr (b, r\<lparr>ru_tick := Suc (ru_tick r)\<rparr>))"

definition on_sched :: "('x qwen3 \<Rightarrow> 'x qwen3) \<Rightarrow> 'x run_state \<Rightarrow> 'x run_state" where
  "on_sched f r = r\<lparr>ru_sched := f (ru_sched r)\<rparr>"

definition drop_request :: "'x executor \<Rightarrow> request_id \<Rightarrow> 'x qwen3 \<Rightarrow> 'x qwen3" where
  "drop_request E i q = q\<lparr>qs_executor := snd (ex_drop_request E i (qs_executor q))\<rparr>"

definition untrack :: "request_id \<Rightarrow> 'x qwen3 \<Rightarrow> 'x qwen3" where
  "untrack i q = q\<lparr>qs_tracker := finish_tracking i (qs_tracker q)\<rparr>"

text \<open>\<open>tracker.finish(id)\<close> and \<open>executor.drop_request(id)\<close>, whose error is only logged.\<close>

definition release_request :: "'x executor \<Rightarrow> request_id \<Rightarrow> 'x run_state \<Rightarrow> 'x run_state" where
  "release_request E i r = on_sched (\<lambda>q. drop_request E i (untrack i q)) r"

definition release_rejected :: "'x executor \<Rightarrow> pending_request \<Rightarrow> 'x run_state \<Rightarrow> 'x run_state" where
  "release_rejected E req r = release_request E (pr_id req) r"

definition admit_or_retire ::
  "'x executor \<Rightarrow> step_env \<Rightarrow> pending_request \<Rightarrow> 'x run_state \<Rightarrow>
   (panic \<times> ledger) + (bool \<times> 'x run_state)"
where
  "admit_or_retire E env req r =
     bind_res (probe_abort env (pr_id req) r) (\<lambda>(aborted, r1).
       if aborted then
         bind_res (do_op (OpRetire (pr_id req)) r1) (\<lambda>r2. Inr (False, release_rejected E req r2))
       else
         bind_res (do_op (OpAdmit (en_now env (ru_tick r1)) (pr_id req)) r1) (\<lambda>r2.
           Inr (True, r2\<lparr>ru_tick := Suc (ru_tick r2)\<rparr>)))"

definition reject_pending ::
  "'x executor \<Rightarrow> pending_request \<Rightarrow> reject_reason \<Rightarrow> 'x run_state \<Rightarrow>
   (panic \<times> ledger) + 'x run_state"
where
  "reject_pending E req reason r =
     bind_res (do_op (OpReject (pr_id req) reason) r) (\<lambda>r1. Inr (release_rejected E req r1))"

definition retire_aborted ::
  "'x executor \<Rightarrow> request_id \<Rightarrow> 'x run_state \<Rightarrow> (panic \<times> ledger) + 'x run_state" where
  "retire_aborted E i r =
     bind_res (do_op (OpRetire i) r) (\<lambda>r1. Inr (release_request E i r1))"

definition fail_touched_request ::
  "'x executor \<Rightarrow> string \<Rightarrow> request_id \<Rightarrow> 'x run_state \<Rightarrow> (panic \<times> ledger) + 'x run_state" where
  "fail_touched_request E message i r =
     bind_res (if is_active i (ru_ledger r) then do_op (OpFail i message) r else Inr r)
       (\<lambda>r1. Inr (release_request E i r1))"

definition fail_touched_requests ::
  "'x executor \<Rightarrow> request_id list \<Rightarrow> string \<Rightarrow> 'x run_state \<Rightarrow> (panic \<times> ledger) + 'x run_state"
where
  "fail_touched_requests E targets message r =
     bind_res (fold_res (fail_touched_request E message) targets r) (\<lambda>r1.
       Inr (on_sched (\<lambda>q. q\<lparr>qs_active := []\<rparr>) r1))"

section \<open>Applying effects\<close>

definition apply_cached :: "cached_effect \<Rightarrow> 'x run_state \<Rightarrow> (panic \<times> ledger) + 'x run_state" where
  "apply_cached c r =
     (if is_active (ce_id c) (ru_ledger r) then do_op (OpCached (ce_id c) (ce_cached_tokens c)) r
      else Inr r)"

definition apply_echo :: "echo_effect \<Rightarrow> 'x run_state \<Rightarrow> (panic \<times> ledger) + 'x run_state" where
  "apply_echo e r =
     (if is_active (ee_id e) (ru_ledger r)
      then do_op (OpEcho (ee_id e) \<lparr>pe_ids = ee_ids e, pe_logprobs = ee_logprobs e\<rparr>) r
      else Inr r)"

text \<open>The locals of the effect loop: finishes to settle at the end, indices to remove.\<close>

record 'x effect_state =
  ef_run :: "'x run_state"
  ef_finishes :: "(request_id \<times> finish_reason) list"
  ef_retire :: "nat list"
  ef_continued :: "pending_request list"

text \<open>
  A finishing effect: retire if aborted, else push the last tokens (\<open>None\<close>: none to push)
  and queue the finish; then close the span and drop the executor state.
\<close>

definition settle_finish ::
  "'x executor \<Rightarrow> step_env \<Rightarrow> request_id \<Rightarrow> (token list \<times> token_logprob option list) option \<Rightarrow>
   finish_reason \<Rightarrow> 'x effect_state \<Rightarrow> (panic \<times> ledger) + 'x effect_state"
where
  "settle_finish E env i toks reason s =
     (let r = ef_run s in
      bind_res
        (if is_active i (ru_ledger r) then
           bind_res (probe_abort env i r) (\<lambda>(aborted, r1).
             if aborted then bind_res (do_op (OpRetire i) r1) (\<lambda>r2. Inr (r2, ef_finishes s))
             else
               bind_res (case toks of None \<Rightarrow> Inr r1 | Some (ids, lps) \<Rightarrow> do_op (OpPush i ids lps) r1)
                 (\<lambda>r2. Inr (r2, ef_finishes s @ [(i, reason)])))
         else Inr (r, ef_finishes s))
        (\<lambda>(r3, fs). Inr (s\<lparr>ef_run := release_request E i r3, ef_finishes := fs\<rparr>)))"

text \<open>A continuing decode effect: retire if aborted, else push and update the active entry.\<close>

definition settle_continue ::
  "'x executor \<Rightarrow> step_env \<Rightarrow> request_id \<Rightarrow> nat \<Rightarrow> token list \<Rightarrow> token_logprob option list \<Rightarrow>
   usize \<Rightarrow> 'x effect_state \<Rightarrow> (panic \<times> ledger) + 'x effect_state"
where
  "settle_continue E env i index ids lps completion s =
     bind_res (probe_abort env i (ef_run s)) (\<lambda>(aborted, r1).
       if aborted then
         bind_res (retire_aborted E i r1) (\<lambda>r2.
           Inr (s\<lparr>ef_run := r2, ef_retire := ef_retire s @ [index]\<rparr>))
       else
         bind_res (do_op (OpPush i ids lps) r1) (\<lambda>r2.
           Inr (s\<lparr>ef_run :=
             (if ids = [] then r2
              else on_sched (\<lambda>q. q\<lparr>qs_active := (qs_active q)[index :=
                     (qs_active q ! index)\<lparr>ar_last_token := last ids,
                                            ar_generated_count := completion\<rparr>]\<rparr>) r2)\<rparr>)))"

definition active_position :: "request_id \<Rightarrow> 'x effect_state \<Rightarrow> nat option" where
  "active_position i s = find_position (\<lambda>r. ar_id r = i) (qs_active (ru_sched (ef_run s)))"

definition finish_decode ::
  "'x executor \<Rightarrow> step_env \<Rightarrow> request_id \<Rightarrow> (token list \<times> token_logprob option list) option \<Rightarrow>
   finish_reason \<Rightarrow> 'x effect_state \<Rightarrow> (panic \<times> ledger) + 'x effect_state"
where
  "finish_decode E env i toks reason s =
     (case active_position i s of
        None \<Rightarrow> Inr s
      | Some index \<Rightarrow>
          bind_res (settle_finish E env i toks reason s) (\<lambda>s1.
            Inr (s1\<lparr>ef_retire := ef_retire s1 @ [index]\<rparr>)))"

definition continue_decode ::
  "'x executor \<Rightarrow> step_env \<Rightarrow> request_id \<Rightarrow> token list \<Rightarrow> token_logprob option list \<Rightarrow> usize \<Rightarrow>
   'x effect_state \<Rightarrow> (panic \<times> ledger) + 'x effect_state"
where
  "continue_decode E env i ids lps completion s =
     (case active_position i s of
        None \<Rightarrow> Inr s
      | Some index \<Rightarrow> settle_continue E env i index ids lps completion s)"

fun apply_decode ::
  "'x executor \<Rightarrow> step_env \<Rightarrow> decode_effect \<Rightarrow> 'x effect_state \<Rightarrow>
   (panic \<times> ledger) + 'x effect_state"
where
  "apply_decode E env (DeFinish i reason) s = finish_decode E env i None reason s"
| "apply_decode E env (DeEmitAndFinish i t lp reason) s =
     finish_decode E env i (Some ([t], [lp])) reason s"
| "apply_decode E env (DeEmitAndContinue i t lp n) s = continue_decode E env i [t] [lp] n s"
| "apply_decode E env (DeEmitManyAndContinue i ts n) s = continue_decode E env i ts [] n s"
| "apply_decode E env (DeEmitManyAndFinish i ts reason) s =
     finish_decode E env i (Some (ts, [])) reason s"

definition swap_remove :: "nat \<Rightarrow> 'a list \<Rightarrow> 'a list" where
  "swap_remove i xs = (if i < length xs then butlast (xs[i := last xs]) else xs)"

definition remove_retired :: "nat list \<Rightarrow> 'a list \<Rightarrow> 'a list" where
  "remove_retired idx xs = fold swap_remove (rev (remdups_adj (sort idx))) xs"

fun apply_pending ::
  "'x executor \<Rightarrow> step_env \<Rightarrow> pending_effect \<Rightarrow> 'x effect_state \<Rightarrow>
   (panic \<times> ledger) + 'x effect_state"
where
  "apply_pending E env (PeContinuePrefill req) s =
     bind_res (probe_abort env (pr_id req) (ef_run s)) (\<lambda>(aborted, r1).
       if aborted then
         bind_res (retire_aborted E (pr_id req) r1) (\<lambda>r2. Inr (s\<lparr>ef_run := r2\<rparr>))
       else Inr (s\<lparr>ef_run := r1, ef_continued := ef_continued s @ [req]\<rparr>))"
| "apply_pending E env (PeFinish i reason) s = settle_finish E env i None reason s"
| "apply_pending E env (PeEmitAndFinish i t lp reason) s =
     settle_finish E env i (Some ([t], [lp])) reason s"
| "apply_pending E env (PePromote st t lp) s =
     bind_res (probe_abort env (ar_id st) (ef_run s)) (\<lambda>(aborted, r1).
       if aborted then
         bind_res (retire_aborted E (ar_id st) r1) (\<lambda>r2. Inr (s\<lparr>ef_run := r2\<rparr>))
       else
         bind_res (do_op (OpPush (ar_id st) [t] [lp]) r1) (\<lambda>r2.
           Inr (s\<lparr>ef_run := on_sched (\<lambda>q. q\<lparr>qs_tracker := enter_decode (ar_id st) (qs_tracker q),
                                        qs_active := qs_active q @ [st]\<rparr>) r2\<rparr>)))"

definition apply_finish ::
  "bool \<Rightarrow> request_id \<times> finish_reason \<Rightarrow> 'x run_state \<Rightarrow> (panic \<times> ledger) + 'x run_state" where
  "apply_finish withhold f r =
     do_op (if withhold then OpDefer (fst f) (snd f) else OpFinish (fst f) (snd f)) r"

definition apply_effects ::
  "'x executor \<Rightarrow> step_env \<Rightarrow> step_effects \<Rightarrow> 'x run_state \<Rightarrow> (panic \<times> ledger) + 'x run_state"
where
  "apply_effects E env effects r =
     bind_res (fold_res apply_cached (se_cached effects) r) (\<lambda>r1.
     bind_res (fold_res apply_echo (se_prompt_echoes effects) r1) (\<lambda>r2.
     bind_res (fold_res (apply_decode E env) (se_decode effects)
        \<lparr>ef_run = r2, ef_finishes = [], ef_retire = [], ef_continued = []\<rparr>) (\<lambda>s1.
     let s2 = s1\<lparr>ef_run := on_sched (\<lambda>q. q\<lparr>qs_active :=
                remove_retired (ef_retire s1) (qs_active q)\<rparr>) (ef_run s1)\<rparr> in
     bind_res (fold_res (apply_pending E env) (se_pending effects) s2) (\<lambda>s3.
     let r3 = on_sched (\<lambda>q. q\<lparr>qs_prefilling := ef_continued s3 @ qs_prefilling q\<rparr>) (ef_run s3) in
     fold_res (apply_finish (ex_withholds_finishes E (qs_executor (ru_sched r3))))
       (ef_finishes s3) r3))))"

section \<open>Submit, step and metrics\<close>

definition qwen3_submit :: "queued_request \<Rightarrow> 'x qwen3 \<Rightarrow> 'x qwen3" where
  "qwen3_submit qr q =
     (let i = qr_id qr; req = qr_request qr; pending = from_request i req;
          q' = q\<lparr>qs_tracker := enter_queue i (rq_trace_parent req) (qs_tracker q)\<rparr> in
      if qs_pending_control q = [] then q'\<lparr>qs_deferred := qs_deferred q @ [pending]\<rparr>
      else q'\<lparr>qs_post_control := qs_post_control q @ [pending]\<rparr>)"

fun contract_reject_reason :: "pending_request \<Rightarrow> admission_reject \<Rightarrow> reject_reason" where
  "contract_reject_reason req (AdmContextLength limit) =
     ContextLength (length (pr_prompt_tokens req)) (pr_max_tokens req) limit"
| "contract_reject_reason req (AdmEchoPrefillTokens limit) =
     EchoPrefillTokens (length (pr_prompt_tokens req)) limit"
| "contract_reject_reason req AdmKvBudget =
     KvBudget (length (pr_prompt_tokens req)) (max_request_tokens req)"

definition drain_idle_control :: "'x executor \<Rightarrow> 'x qwen3 \<Rightarrow> 'x qwen3" where
  "drain_idle_control E q =
     q\<lparr>qs_executor := fold (ex_lora_command E) (qs_pending_control q) (qs_executor q),
       qs_pending_control := []\<rparr>"

text \<open>Steps 1 to 4 of \<open>step\<close>, one definition per numbered part of the source.\<close>

definition step_poll_prefill ::
  "'x executor \<Rightarrow> step_env \<Rightarrow> 'x run_state \<Rightarrow> (panic \<times> ledger) + 'x run_state" where
  "step_poll_prefill E env r =
     (let q = ru_sched r in
      case qs_inflight q of
        None \<Rightarrow> Inr r
      | Some pending \<Rightarrow>
          (case ex_poll_async_prefill E (qs_executor q) of
             (None, x) \<Rightarrow> Inr (on_sched (\<lambda>q. q\<lparr>qs_executor := x\<rparr>) r)
           | (Some result, x) \<Rightarrow>
               (case resolve_step (ex_is_stop_token E x) (qs_active q) (ArtPrefill pending result) of
                  None \<Rightarrow> Inl (SchedulerPanic ''misaligned prefill results'', ru_ledger r)
                | Some effects \<Rightarrow>
                    apply_effects E env effects
                      (on_sched (\<lambda>q. q\<lparr>qs_executor := x, qs_inflight := None\<rparr>) r))))"

definition step_prefetch :: "'x executor \<Rightarrow> 'x qwen3 \<Rightarrow> 'x qwen3" where
  "step_prefetch E q =
     (let x = qs_executor q;
          reserve_floor = admitted_future_blocks E x (qs_active q) (qs_prefilling q);
          (d, l, x1) = reclaim_ready_prefetch E x (qs_deferred q) (qs_loading q) reserve_floor;
          (d2, l2, x2) = (if qs_pending_control q = []
             then offer_prefetch E reserve_floor x1 d l [] else (d, l, x1)) in
      q\<lparr>qs_deferred := d2, qs_loading := l2, qs_executor := x2\<rparr>)"

definition step_control :: "'x executor \<Rightarrow> 'x qwen3 \<Rightarrow> 'x qwen3" where
  "step_control E q =
     (if qs_idle q then
        (let q1 = drain_idle_control E q in
         if qs_pending_control q1 = [] \<and> qs_post_control q1 \<noteq> []
         then q1\<lparr>qs_deferred := qs_deferred q1 @ qs_post_control q1, qs_post_control := []\<rparr>
         else q1)
      else q)"

definition step_wait_loading :: "'x executor \<Rightarrow> 'x qwen3 \<Rightarrow> 'x qwen3" where
  "step_wait_loading E q =
     (if qs_loading q \<noteq> [] then
        (let x = qs_executor q;
             reserve_floor = admitted_future_blocks E x (qs_active q) (qs_prefilling q);
             (d, l, x1) = block_on_loading E x (qs_deferred q) (qs_loading q) reserve_floor in
         q\<lparr>qs_deferred := d, qs_loading := l, qs_executor := x1\<rparr>)
      else q)"

definition reject_unknown_lora ::
  "'x executor \<Rightarrow> pending_request \<Rightarrow> 'x run_state \<Rightarrow> (panic \<times> ledger) + 'x run_state" where
  "reject_unknown_lora E req r =
     (case pr_lora_adapter req of
        None \<Rightarrow> Inl (SchedulerPanic ''only requests naming an adapter can fail'', ru_ledger r)
      | Some name \<Rightarrow> reject_pending E req (UnknownLoraAdapter name) r)"

definition admit_pending ::
  "'x executor \<Rightarrow> step_env \<Rightarrow> pending_request \<Rightarrow> 'x run_state \<Rightarrow> (panic \<times> ledger) + 'x run_state"
where
  "admit_pending E env req r =
     bind_res (admit_or_retire E env req r) (\<lambda>(admitted, r1).
       Inr (if admitted then on_sched (\<lambda>q. q\<lparr>qs_prefilling := qs_prefilling q @ [req]\<rparr>) r1
            else r1))"

text \<open>Step 5: LoRA validation, then admission on what is left.\<close>

definition qs_admission :: "'x executor \<Rightarrow> 'x qwen3 \<Rightarrow> pending_request list \<Rightarrow> admission_outcome" where
  "qs_admission E q accepted =
     (let x = qs_executor q in
      admit_deferred_requests accepted (qs_active q) (qs_prefilling q)
        (ex_block_size E x) (ex_available_blocks E x) (ex_max_request_blocks E x)
        (ex_max_context_tokens E x) (ex_max_decode_batch_size E x)
        (qs_max_prefill_tokens q) (ex_prefetched_blocks E x))"

definition step_admission ::
  "'x executor \<Rightarrow> step_env \<Rightarrow> 'x run_state \<Rightarrow> (panic \<times> ledger) + 'x run_state" where
  "step_admission E env r =
     (let q = ru_sched r;
          lv = reject_unknown_lora_requests (qs_deferred q) E (qs_executor q) in
      bind_res (fold_res (reject_unknown_lora E) (lv_rejected lv)
                  (on_sched (\<lambda>q. q\<lparr>qs_deferred := []\<rparr>) r)) (\<lambda>r1.
      let adm = qs_admission E (ru_sched r1) (lv_accepted lv) in
      bind_res (fold_res (\<lambda>(req, why). reject_pending E req (contract_reject_reason req why))
                  (ao_rejected adm) r1) (\<lambda>r2.
      fold_res (admit_pending E env) (ao_pending adm)
        (on_sched (\<lambda>q. q\<lparr>qs_deferred := ao_deferred adm\<rparr>) r2))))"

text \<open>Step 6: chunk selection; nothing is taken while an async prefill is in flight.\<close>

definition step_take_chunks :: "step_env \<Rightarrow> 'x qwen3 \<Rightarrow> pending_request list \<times> 'x qwen3" where
  "step_take_chunks env q =
     (if qs_inflight q \<noteq> None then ([], q)
      else
        (let (rest, taken) = take_prefill_chunks (qs_prefilling q) (qs_max_prefill_tokens q)
               (en_request_local env) in
         (taken, q\<lparr>qs_prefilling := rest,
                   qs_tracker := fold (\<lambda>r. enter_prefill (pr_id r)) taken (qs_tracker q)\<rparr>)))"

text \<open>Steps 7 and 8: execute the plan, resolve and apply; a failure kills the touched batch.\<close>

definition step_execute ::
  "'x executor \<Rightarrow> step_env \<Rightarrow> execution_plan \<Rightarrow> 'x run_state \<Rightarrow> (panic \<times> ledger) + 'x run_state"
where
  "step_execute E env plan r =
     (let q = ru_sched r;
          overlap = (case plan of
             PlanUnified pending \<Rightarrow>
               if ex_has_decode_overlap E (qs_executor q) \<and> qs_inflight q = None
               then Some pending else None
           | _ \<Rightarrow> None);
          targets = failure_target_ids (qs_active q) plan;
          (outcome, n, x) = execute_plan E (en_draw env) (qs_active q) plan (qs_rng q) (qs_executor q);
          r1 = on_sched (\<lambda>q. q\<lparr>qs_executor := x, qs_rng := n\<rparr>) r in
      case outcome of
        ExecPanic m \<Rightarrow> Inl (SchedulerPanic m, ru_ledger r1)
      | ExecErr e \<Rightarrow> fail_touched_requests E targets e r1
      | ExecOk artifacts \<Rightarrow>
          (case resolve_step (ex_is_stop_token E x) (qs_active q) artifacts of
             None \<Rightarrow> Inl (SchedulerPanic ''misaligned step results'', ru_ledger r1)
           | Some effects \<Rightarrow>
               bind_res (apply_effects E env effects r1) (\<lambda>r2.
                 Inr (case overlap of
                        None \<Rightarrow> r2
                      | Some pending \<Rightarrow> on_sched (\<lambda>q. q\<lparr>qs_inflight := Some pending\<rparr>) r2))))"

definition qwen3_step ::
  "'x executor \<Rightarrow> step_env \<Rightarrow> 'x run_state \<Rightarrow> (panic \<times> ledger) + 'x run_state" where
  "qwen3_step E env r0 =
     bind_res (step_poll_prefill E env
       (on_sched (\<lambda>q. q\<lparr>qs_pending_control := qs_pending_control q @ en_lora_commands env\<rparr>) r0)) (\<lambda>r1.
     let r2 = on_sched (\<lambda>q. step_control E (step_prefetch E q)) r1 in
     if qs_idle (ru_sched r2) then Inr (on_sched (step_wait_loading E) r2)
     else
       bind_res (step_admission E env r2) (\<lambda>r3.
       let (pending, q) = step_take_chunks env (ru_sched r3); r4 = r3\<lparr>ru_sched := q\<rparr> in
       case runtime_plan E (qs_executor q) (qs_active q) pending of
         None \<Rightarrow> Inr r4
       | Some plan \<Rightarrow> step_execute E env plan r4))"

record scheduler_metrics =
  sm_kv_used_blocks :: usize
  sm_kv_total_blocks :: usize
  sm_num_running_reqs :: usize
  sm_num_waiting_reqs :: usize

definition qwen3_metrics :: "'x executor \<Rightarrow> 'x qwen3 \<Rightarrow> scheduler_metrics" where
  "qwen3_metrics E q =
     \<lparr>sm_kv_used_blocks = saturating_sub (qs_kv_total q) (ex_available_blocks E (qs_executor q)),
      sm_kv_total_blocks = qs_kv_total q,
      sm_num_running_reqs = length (qs_active q) + length (qs_prefilling q) +
        (case qs_inflight q of None \<Rightarrow> 0 | Some ps \<Rightarrow> length ps),
      sm_num_waiting_reqs = length (qs_deferred q) + length (qs_loading q) +
        length (qs_post_control q)\<rparr>"

section \<open>A step is a sequence of ledger calls\<close>

text \<open>
  A predicate on run states that survives every ledger call, and does not look at the
  scheduler's own state or the tick, survives a whole step.
\<close>

locale step_invariant =
  fixes P :: "'x run_state \<Rightarrow> bool"
  assumes P_sched: "P r \<Longrightarrow> P (r\<lparr>ru_sched := q\<rparr>)"
    and P_tick: "P r \<Longrightarrow> P (r\<lparr>ru_tick := n\<rparr>)"
    and P_op: "P r \<Longrightarrow> do_op x r = Inr r' \<Longrightarrow> P r'"
begin

lemma P_on_sched: "P r \<Longrightarrow> P (on_sched f r)"
  by (simp add: on_sched_def P_sched)

lemma P_release: "P r \<Longrightarrow> P (release_request E i r)"
  by (simp add: release_request_def P_on_sched)

lemma P_do_op: "do_op x r = Inr r' \<Longrightarrow> P r \<Longrightarrow> P r'"
  by (rule P_op)

lemma P_probe: "probe_abort env i r = Inr (b, r') \<Longrightarrow> P r \<Longrightarrow> P r'"
  by (auto simp: probe_abort_def panic_simps P_tick)

lemma P_retire_aborted: "retire_aborted E i r = Inr r' \<Longrightarrow> P r \<Longrightarrow> P r'"
  by (auto simp: retire_aborted_def panic_simps intro!: P_release intro: P_do_op)

lemmas P_safe = P_on_sched P_release P_sched P_tick
lemmas P_calls = P_do_op P_probe P_retire_aborted

lemma P_admit_pending: "admit_pending E env req r = Inr r' \<Longrightarrow> P r \<Longrightarrow> P r'"
  by (auto simp: admit_pending_def admit_or_retire_def release_rejected_def panic_simps
      split: if_splits intro!: P_safe dest!: P_calls)

lemma P_reject_pending: "reject_pending E req reason r = Inr r' \<Longrightarrow> P r \<Longrightarrow> P r'"
  by (auto simp: reject_pending_def release_rejected_def panic_simps intro!: P_safe dest!: P_calls)

lemma P_fold:
  assumes "fold_res f xs r = Inr r'" and "P r"
    and "\<And>x s s'. f x s = Inr s' \<Longrightarrow> P s \<Longrightarrow> P s'"
  shows "P r'"
  by (rule fold_res_invariant [where P = P, OF assms(1,2)]) (rule assms(3))

lemma P_fold_run:
  assumes "fold_res f xs s = Inr s'" and "P (ef_run s)"
    and "\<And>x s s'. f x s = Inr s' \<Longrightarrow> P (ef_run s) \<Longrightarrow> P (ef_run s')"
  shows "P (ef_run s')"
  by (rule fold_res_invariant [where P = "\<lambda>s. P (ef_run s)", OF assms(1,2)]) (rule assms(3))

lemma P_fail_touched:
  assumes "fail_touched_requests E targets m r = Inr r'" and "P r"
  shows "P r'"
proof -
  obtain r1 where f: "fold_res (fail_touched_request E m) targets r = Inr r1"
      and r': "r' = on_sched (\<lambda>q. q\<lparr>qs_active := []\<rparr>) r1"
    using assms(1) by (auto simp: fail_touched_requests_def panic_simps)
  have "P r1"
    by (rule P_fold [OF f assms(2)])
      (auto simp: fail_touched_request_def panic_simps split: if_splits intro!: P_safe dest!: P_calls)
  then show ?thesis by (simp add: r' P_on_sched)
qed

lemma P_settle_finish:
  "settle_finish E env i toks reason s = Inr s' \<Longrightarrow> P (ef_run s) \<Longrightarrow> P (ef_run s')"
  by (cases toks)
    (auto simp: settle_finish_def Let_def panic_simps split: if_splits intro!: P_safe dest!: P_calls)

lemma P_settle_continue:
  "settle_continue E env i k ids lps n s = Inr s' \<Longrightarrow> P (ef_run s) \<Longrightarrow> P (ef_run s')"
  by (auto simp: settle_continue_def panic_simps split: if_splits intro!: P_safe dest!: P_calls)

lemma P_apply_decode: "apply_decode E env d s = Inr s' \<Longrightarrow> P (ef_run s) \<Longrightarrow> P (ef_run s')"
  by (cases d) (auto simp: finish_decode_def continue_decode_def panic_simps
      split: option.splits dest: P_settle_finish P_settle_continue)

lemma P_apply_pending: "apply_pending E env e s = Inr s' \<Longrightarrow> P (ef_run s) \<Longrightarrow> P (ef_run s')"
  by (cases e) (auto simp: panic_simps split: if_splits intro!: P_safe dest!: P_calls dest: P_settle_finish)

lemma P_apply_effects:
  assumes "apply_effects E env effects r = Inr r'" and "P r"
  shows "P r'"
proof -
  let ?s0 = "\<lambda>r2. \<lparr>ef_run = r2, ef_finishes = [], ef_retire = [], ef_continued = []\<rparr>"
  let ?s2 = "\<lambda>s1. s1\<lparr>ef_run := on_sched (\<lambda>q. q\<lparr>qs_active :=
      remove_retired (ef_retire s1) (qs_active q)\<rparr>) (ef_run s1)\<rparr>"
  obtain r1 r2 s1 s3 where c: "fold_res apply_cached (se_cached effects) r = Inr r1"
      and e: "fold_res apply_echo (se_prompt_echoes effects) r1 = Inr r2"
      and d: "fold_res (apply_decode E env) (se_decode effects) (?s0 r2) = Inr s1"
      and p: "fold_res (apply_pending E env) (se_pending effects) (?s2 s1) = Inr s3"
      and f: "fold_res (apply_finish (ex_withholds_finishes E (qs_executor (ru_sched (ef_run s3)))))
        (ef_finishes s3)
        (on_sched (\<lambda>q. q\<lparr>qs_prefilling := ef_continued s3 @ qs_prefilling q\<rparr>) (ef_run s3)) = Inr r'"
    using assms(1) by (auto simp: apply_effects_def Let_def panic_simps on_sched_def)
  have "P r1"
    by (rule P_fold [OF c assms(2)]) (auto simp: apply_cached_def split: if_splits intro: P_do_op)
  then have "P r2"
    by (rule P_fold [OF e]) (auto simp: apply_echo_def split: if_splits intro: P_do_op)
  then have "P (ef_run s1)"
    by (intro P_fold_run [OF d]) (auto intro: P_apply_decode)
  then have "P (ef_run s3)"
    by (intro P_fold_run [OF p]) (auto intro!: P_on_sched intro: P_apply_pending)
  then show ?thesis
    by (intro P_fold [OF f]) (auto simp: apply_finish_def intro!: P_on_sched intro: P_do_op)
qed

lemma P_step_admission:
  assumes "step_admission E env r = Inr r'" and "P r"
  shows "P r'"
proof -
  let ?lv = "reject_unknown_lora_requests (qs_deferred (ru_sched r)) E (qs_executor (ru_sched r))"
  let ?adm = "\<lambda>r1. qs_admission E (ru_sched r1) (lv_accepted ?lv)"
  obtain r1 r2 where
      l: "fold_res (reject_unknown_lora E) (lv_rejected ?lv) (on_sched (\<lambda>q. q\<lparr>qs_deferred := []\<rparr>) r) = Inr r1"
      and a: "fold_res (\<lambda>(req, why). reject_pending E req (contract_reject_reason req why))
        (ao_rejected (?adm r1)) r1 = Inr r2"
      and p: "fold_res (admit_pending E env) (ao_pending (?adm r1))
        (on_sched (\<lambda>q. q\<lparr>qs_deferred := ao_deferred (?adm r1)\<rparr>) r2) = Inr r'"
    using assms(1) by (auto simp: step_admission_def Let_def panic_simps)
  have "P r1"
    by (rule P_fold [OF l])
      (auto simp: assms(2) reject_unknown_lora_def split: option.splits intro!: P_on_sched intro: P_reject_pending)
  then have "P r2"
    by (rule P_fold [OF a]) (auto intro: P_reject_pending)
  then show ?thesis
    by (intro P_fold [OF p]) (auto intro!: P_on_sched intro: P_admit_pending)
qed

lemma P_step_execute: "step_execute E env plan r = Inr r' \<Longrightarrow> P r \<Longrightarrow> P r'"
  by (auto simp: step_execute_def Let_def panic_simps split: prod.splits exec_outcome.splits
      option.splits intro!: P_on_sched dest: P_fail_touched P_apply_effects)

lemma P_step_poll: "step_poll_prefill E env r = Inr r' \<Longrightarrow> P r \<Longrightarrow> P r'"
  by (auto simp: step_poll_prefill_def Let_def split: prod.splits option.splits
      intro!: P_on_sched intro: P_apply_effects)

lemma P_step:
  assumes "qwen3_step E env r = Inr r'" and "P r"
  shows "P r'"
proof -
  obtain r1 where r1: "step_poll_prefill E env (on_sched (\<lambda>q. q\<lparr>qs_pending_control :=
      qs_pending_control q @ en_lora_commands env\<rparr>) r) = Inr r1"
    using assms(1) by (auto simp: qwen3_step_def panic_simps)
  have "P r1" by (rule P_step_poll [OF r1 P_on_sched [OF assms(2)]])
  let ?r2 = "on_sched (\<lambda>q. step_control E (step_prefetch E q)) r1"
  have P2: "P ?r2" by (rule P_on_sched) fact
  show ?thesis
  proof (cases "qs_idle (ru_sched ?r2)")
    case True
    then have "r' = on_sched (step_wait_loading E) ?r2"
      using assms(1) r1 by (simp add: qwen3_step_def Let_def)
    then show ?thesis using P_on_sched [OF P2] by simp
  next
    case False
    then obtain r3 where r3: "step_admission E env ?r2 = Inr r3"
      using assms(1) r1 by (auto simp: qwen3_step_def Let_def panic_simps)
    have P3: "P r3" by (rule P_step_admission [OF r3 P2])
    obtain pending q where t: "step_take_chunks env (ru_sched r3) = (pending, q)" by fastforce
    have "(case runtime_plan E (qs_executor q) (qs_active q) pending of
        None \<Rightarrow> Inr (r3\<lparr>ru_sched := q\<rparr>)
      | Some plan \<Rightarrow> step_execute E env plan (r3\<lparr>ru_sched := q\<rparr>)) = Inr r'"
      using assms(1) r1 False r3 t by (simp add: qwen3_step_def Let_def)
    then show ?thesis using P_sched [OF P3] P_step_execute by (auto split: option.splits)
  qed
qed

end

fun apply_ops :: "ledger_op list \<Rightarrow> ledger \<Rightarrow> (ledger \<times> request_update list) ledger_res" where
  "apply_ops [] L = Inr (L, [])"
| "apply_ops (x # xs) L =
     bind_res (apply_op x L) (\<lambda>(L', ds). bind_res (apply_ops xs L') (\<lambda>(L'', es). Inr (L'', ds @ es)))"

lemma apply_ops_snoc:
  "apply_ops (xs @ [x]) L =
     bind_res (apply_ops xs L) (\<lambda>(L', ds). bind_res (apply_op x L') (\<lambda>(L'', es). Inr (L'', ds @ es)))"
  by (induction xs arbitrary: L) (auto simp: bind_res_def split: sum.splits prod.splits)

definition tracks :: "ledger \<Rightarrow> 'x run_state \<Rightarrow> bool" where
  "tracks L0 r \<longleftrightarrow> apply_ops (ru_ops r) L0 = Inr (ru_ledger r, ru_released r)"

interpretation tracked: step_invariant "tracks L0" for L0
proof
  fix r r' :: "'x run_state" and x
  assume "tracks L0 r" and "do_op x r = Inr r'"
  then show "tracks L0 r'"
    by (auto simp: tracks_def do_op_def panic_simps apply_ops_snoc)
qed (simp_all add: tracks_def)

definition start_run :: "'x qwen3 \<Rightarrow> ledger \<Rightarrow> 'x run_state" where
  "start_run q L = \<lparr>ru_sched = q, ru_ledger = L, ru_released = [], ru_ops = [], ru_tick = 0\<rparr>"

lemma apply_ops_reachable:
  "reachable s \<Longrightarrow> sys_pc s = Stepping \<Longrightarrow> apply_ops xs (sys_ledger s) = Inr (L, ds) \<Longrightarrow>
    reachable (s\<lparr>sys_ledger := L, sys_deferred := sys_deferred s @ ds,
      sys_retired := sys_retired s \<union> (\<Union>x \<in> set xs. op_retires x)\<rparr>)"
proof (induction xs arbitrary: s ds)
  case Nil
  then have L: "L = sys_ledger s" "ds = []" by auto
  have "s\<lparr>sys_ledger := sys_ledger s\<rparr> = s" by (cases s) simp
  with Nil.prems(1) show ?case by (simp add: L)
next
  case (Cons x xs)
  then obtain L1 ds1 ds2 where x: "apply_op x (sys_ledger s) = Inr (L1, ds1)"
      and xs: "apply_ops xs L1 = Inr (L, ds2)" and ds: "ds = ds1 @ ds2"
    by (auto simp: panic_simps)
  let ?t = "s\<lparr>sys_ledger := L1, sys_deferred := sys_deferred s @ ds1,
      sys_retired := sys_retired s \<union> op_retires x\<rparr>"
  have "reachable ?t"
    using Cons.prems x by (blast intro: reachable.step sys_step.op)
  from Cons.IH [OF this, of ds2] xs Cons.prems ds show ?case
    by (simp add: Un_assoc)
qed

section \<open>A demonstration executor\<close>

text \<open>
  An executor that answers every request of a plan; its state counts prefill calls, and it
  fails the prefill calls a list names. It is only used to evaluate the model.
\<close>

definition demo_prefill_result :: "prefill_item \<Rightarrow> prefill_request_result" where
  "demo_prefill_result it =
     \<lparr>pq_id = pi_id it, pq_first_token = 7, pq_first_token_logprob = None,
      pq_prompt_logprobs = None, pq_cached_tokens = 0, pq_completed = True,
      pq_prefill_pos = length (pi_prompt_tokens it)\<rparr>"

definition demo_decode_result :: "decode_item \<Rightarrow> decode_request_result" where
  "demo_decode_result it = \<lparr>dr_id = di_id it, dr_token = 8, dr_logprob = None\<rparr>"

definition demo_executor :: "nat list \<Rightarrow> nat executor" where
  "demo_executor failing =
     \<lparr>ex_block_size = (\<lambda>_. 16), ex_max_request_blocks = (\<lambda>_. 100),
      ex_max_context_tokens = (\<lambda>_. 1000), ex_max_decode_batch_size = (\<lambda>_. 4),
      ex_available_blocks = (\<lambda>_. 100), ex_is_stop_token = (\<lambda>_ t. t = 0),
      ex_drop_request = (\<lambda>i x. (Inr (), x)),
      ex_execute_prefill = (\<lambda>p x.
        (if x \<in> set failing then Inl ''prefill failed''
         else Inr \<lparr>prr_requests = map demo_prefill_result (pp_requests p), prr_captured = []\<rparr>, Suc x)),
      ex_execute_decode = (\<lambda>p x. (Inr (map demo_decode_result (dp_requests p)), x)),
      ex_execute_unified = (\<lambda>p x.
        (Inr \<lparr>ur_prefill_requests = map demo_prefill_result (up_prefill_requests p),
              ur_decode_requests = map demo_decode_result (up_decode_requests p)\<rparr>, x)),
      ex_execute_draft = (\<lambda>ds x. (Inl ''unsupported'', x)),
      ex_execute_verify = (\<lambda>vs sd x. (Inl ''unsupported'', x)),
      ex_speculative_enabled = (\<lambda>_. False), ex_request_ready = (\<lambda>_ _. False),
      ex_list_lora_adapters = (\<lambda>_. []), ex_lora_command = (\<lambda>_ x. x),
      ex_begin_kv_prefetch = (\<lambda>_ _ _ _ x. (False, x)),
      ex_drain_ready_prefetch = (\<lambda>_ x. ([], x)), ex_wait_ready_prefetch = (\<lambda>_ x. ([], x)),
      ex_prefetched_blocks = (\<lambda>_ _. 0), ex_withholds_finishes = (\<lambda>_. False),
      ex_has_decode_overlap = (\<lambda>_. False), ex_poll_async_prefill = (\<lambda>x. (None, x))\<rparr>"

definition demo_env :: step_env where
  "demo_env = \<lparr>en_flags = (\<lambda>_ _. False), en_now = (\<lambda>n. n), en_draw = (\<lambda>_. 0),
     en_request_local = False, en_lora_commands = []\<rparr>"

section \<open>Properties of the adapter\<close>


definition demo_stepping :: system where
  "demo_stepping = scheduler_pair\<lparr>sys_pc := Stepping\<rparr>"

lemma demo_stepping_reachable: "reachable demo_stepping"
proof -
  have "sys_step scheduler_pair demo_stepping"
    using sys_step.drain_empty [of scheduler_pair]
    by (simp add: demo_stepping_def scheduler_pair_def)
  then show ?thesis using reachable.init reachable.step by blast
qed

lemma demo_idle_step:
  "qwen3_step (demo_executor []) demo_env (start_run (new_qwen3 0 64 100) L) =
     Inr (start_run (new_qwen3 0 64 100) L)"
  by (simp add: qwen3_step_def step_poll_prefill_def step_prefetch_def step_control_def
      step_wait_loading_def drain_idle_control_def qs_idle_def on_sched_def start_run_def
      new_qwen3_def demo_env_def reclaim_ready_prefetch_def demo_executor_def)


end
