(* ===== verification/Qwen3_Books.thy ===== *)
theory Qwen3_Books
  imports Qwen3_Adapter
begin

text \<open>
  The queues of the Qwen3 scheduler against the accounts of the ledger. A request waits in
  exactly one queue while its account is queued, and is in exactly one running queue (or in
  hand) while its account is active. From consistent books a step never panics and leaves
  consistent books. The only requests that can drop out are the active ones when a dedicated
  prefill step fails.
\<close>

section \<open>Total correctness of calls\<close>

definition succeeds :: "'e + 'a \<Rightarrow> ('a \<Rightarrow> bool) \<Rightarrow> bool" where
  "succeeds res Q \<longleftrightarrow> (\<exists>x. res = Inr x \<and> Q x)"

lemma succeeds_Inr [simp]: "succeeds (Inr x) Q = Q x"
  and succeeds_Inl [simp]: "\<not> succeeds (Inl e) Q"
  by (auto simp: succeeds_def)

lemma succeeds_bind: "succeeds (bind_res res f) Q = succeeds res (\<lambda>x. succeeds (f x) Q)"
  by (cases res) auto

lemma succeeds_mono: "succeeds res Q \<Longrightarrow> (\<And>x. Q x \<Longrightarrow> R x) \<Longrightarrow> succeeds res R"
  by (auto simp: succeeds_def)

lemma succeeds_fold:
  assumes "I xs s" and "\<And>x xs s. I (x # xs) s \<Longrightarrow> succeeds (f x s) (I xs)"
  shows "succeeds (fold_res f xs s) (I [])"
  using assms(1)
proof (induction xs arbitrary: s)
  case (Cons x xs)
  from assms(2) [OF Cons.prems] show ?case
    by (auto simp: succeeds_bind intro: succeeds_mono Cons.IH)
qed simp

section \<open>Status of an account\<close>

definition lstat :: "ledger \<Rightarrow> request_id \<Rightarrow> bool option" where
  "lstat L i = map_option (\<lambda>a. acct_state a \<noteq> Queued) (lg_accounts L i)"

fun op_pre :: "ledger_op \<Rightarrow> bool option \<Rightarrow> bool" where
  "op_pre (OpAdmit now i) st \<longleftrightarrow> st = Some False"
| "op_pre (OpReject i r) st \<longleftrightarrow> st = Some False"
| "op_pre (OpPush i ids lps) st \<longleftrightarrow> st = Some True \<and> (lps = [] \<or> length lps = length ids)"
| "op_pre (OpCached i n) st \<longleftrightarrow> st = Some True"
| "op_pre (OpEcho i e) st \<longleftrightarrow> st = Some True"
| "op_pre (OpKvTransfer i v) st \<longleftrightarrow> st = Some True"
| "op_pre (OpFinish i r) st \<longleftrightarrow> st = Some True"
| "op_pre (OpFail i m) st \<longleftrightarrow> st \<noteq> None"
| "op_pre (OpRetire i) st \<longleftrightarrow> st \<noteq> None"
| "op_pre (OpDefer i r) st \<longleftrightarrow> st = Some True"

fun op_post :: "ledger_op \<Rightarrow> bool option" where
  "op_post (OpAdmit now i) = Some True"
| "op_post (OpPush i ids lps) = Some True"
| "op_post (OpCached i n) = Some True"
| "op_post (OpEcho i e) = Some True"
| "op_post (OpKvTransfer i v) = Some True"
| "op_post _ = None"

lemma lstat_active: "lstat L i = Some True \<longleftrightarrow> is_active i L"
  by (auto simp: lstat_def is_active_def split: option.splits account_state.splits)

lemma op_effect_stat:
  "op_effect x a b a' b' ds \<Longrightarrow>
    map_option (\<lambda>a. acct_state a \<noteq> Queued) a' = op_post x"
  by (induction rule: op_effect.induct) auto

lemma apply_op_total:
  assumes "wf_ledger L" and "op_pre x (lstat L (op_id x))"
  shows "succeeds (apply_op x L) (\<lambda>_. True)"
proof -
  have *: "succeeds (with_entry i f K) (\<lambda>_. True)"
    if "wf_ledger K" "\<And>u. upd_id (f u) = upd_id u" for i f K
    using with_entry_total [OF that] by (auto simp: succeeds_def)
  have **: "extract_entry i (lg_statement L) = Inl e \<longleftrightarrow> False" for i e
    using extract_entry_not_Inl [of "lg_statement L" i] assms(1) by (auto simp: wf_ledger_def)
  show ?thesis
    using assms
    by (cases x)
      (auto simp: lstat_def no_deferred_def ledger_op_defs succeeds_bind close_account_def
        is_active_def * ** split: option.splits account_state.splits sum.splits)
qed

text \<open>One ledger call of a step: it returns, changes one status and nothing of the scheduler.\<close>

lemma do_op_ok:
  assumes "wf_ledger (ru_ledger r)" and "op_pre x (lstat (ru_ledger r) (op_id x))"
  shows "succeeds (do_op x r) (\<lambda>r'. wf_ledger (ru_ledger r') \<and> ru_sched r' = ru_sched r \<and>
    lstat (ru_ledger r') = (lstat (ru_ledger r))(op_id x := op_post x))"
proof -
  obtain L ds where L: "apply_op x (ru_ledger r) = Inr (L, ds)"
    using apply_op_total [OF assms] by (auto simp: succeeds_def)
  have eff: "wf_ledger L"
      "op_effect x (lg_accounts (ru_ledger r) (op_id x)) (lg_entry (ru_ledger r) (op_id x))
        (lg_accounts L (op_id x)) (lg_entry L (op_id x)) ds"
      "\<And>j. j \<noteq> op_id x \<Longrightarrow> lg_accounts L j = lg_accounts (ru_ledger r) j"
    using apply_op_effect [OF L assms(1)] by blast+
  have "lstat L = (lstat (ru_ledger r))(op_id x := op_post x)"
    using op_effect_stat [OF eff(2)] eff(3) by (auto simp: lstat_def fun_eq_iff)
  with eff(1) L show ?thesis by (simp add: do_op_def)
qed

lemma probe_ok:
  assumes "lstat (ru_ledger r) i \<noteq> None"
  shows "succeeds (probe_abort env i r) (\<lambda>(b, r'). ru_ledger r' = ru_ledger r \<and> ru_sched r' = ru_sched r)"
  using assms
  by (auto simp: probe_abort_def is_aborted_def get_account_def lstat_def)

section \<open>The books\<close>

definition queued_ids :: "'x qwen3 \<Rightarrow> request_id list" where
  "queued_ids q = map pr_id (qs_deferred q @ qs_loading q @ qs_post_control q)"

definition inflight_ids :: "'x qwen3 \<Rightarrow> request_id list" where
  "inflight_ids q = (case qs_inflight q of None \<Rightarrow> [] | Some ps \<Rightarrow> map pr_id ps)"

definition running_ids :: "'x qwen3 \<Rightarrow> request_id list" where
  "running_ids q = map pr_id (qs_prefilling q) @ map ar_id (qs_active q) @ inflight_ids q"

text \<open>
  \<open>books fl X F G H q L\<close>: \<open>G\<close> and \<open>H\<close> are the queued and the admitted requests a
  step has in hand, \<open>X\<close> requests the scheduler no longer knows about, \<open>fl\<close> the
  executor's own record of its in-flight prefill and \<open>F\<close> the in-flight prefill as the
  scheduler and the executor know it.
\<close>

definition tracked_stat ::
  "'x qwen3 \<Rightarrow> request_id list \<Rightarrow> request_id list \<Rightarrow> request_id \<Rightarrow> bool option" where
  "tracked_stat q G H i =
     (if i \<in> set (running_ids q @ H) then Some True
      else if i \<in> set (queued_ids q @ G) then Some False else None)"

type_synonym inflight = "pending_request list option \<times> request_id list"

definition inflight_matches :: "inflight \<Rightarrow> bool" where
  "inflight_matches F \<longleftrightarrow> (\<forall>ps. fst F = Some ps \<longrightarrow> map pr_id ps = snd F)"

definition books ::
  "('x \<Rightarrow> request_id list) \<Rightarrow> request_id set \<Rightarrow> inflight \<Rightarrow> request_id list \<Rightarrow>
   request_id list \<Rightarrow> 'x qwen3 \<Rightarrow> ledger \<Rightarrow> bool"
where
  "books fl X F G H q L \<longleftrightarrow>
     wf_ledger L \<and> fl (qs_executor q) = snd F \<and> qs_inflight q = fst F \<and> inflight_matches F \<and>
     distinct ((queued_ids q @ G) @ (running_ids q @ H)) \<and>
     X \<inter> set ((queued_ids q @ G) @ (running_ids q @ H)) = {} \<and>
     (\<forall>i. i \<notin> X \<longrightarrow> lstat L i = tracked_stat q G H i)"

lemma books_wf: "books fl X F G H q L \<Longrightarrow> wf_ledger L"
  by (simp add: books_def)

lemma books_running:
  "books fl X F G H q L \<Longrightarrow> i \<in> set (running_ids q @ H) \<Longrightarrow> lstat L i = Some True"
  by (auto simp: books_def tracked_stat_def)

lemma books_queued:
  assumes "books fl X F G H q L" and "i \<in> set (queued_ids q @ G)"
  shows "lstat L i = Some False"
proof -
  have "i \<notin> X" and "i \<notin> set (running_ids q @ H)"
    using assms unfolding books_def distinct_append [of "queued_ids q @ G"] by auto
  then show ?thesis using assms by (simp add: books_def tracked_stat_def)
qed

lemma books_move:
  assumes "books fl X F G H q L"
    and "mset (queued_ids q' @ G') = mset (queued_ids q @ G)"
    and "mset (running_ids q' @ H') = mset (running_ids q @ H)"
    and "fl (qs_executor q') = snd F'" and "qs_inflight q' = fst F'" and "inflight_matches F'"
  shows "books fl X F' G' H' q' L"
proof -
  have sets: "set (queued_ids q' @ G') = set (queued_ids q @ G)"
      "set (running_ids q' @ H') = set (running_ids q @ H)"
    using assms(2,3) by (metis set_mset_mset)+
  have "mset ((queued_ids q' @ G') @ (running_ids q' @ H')) =
      mset ((queued_ids q @ G) @ (running_ids q @ H))"
    using assms(2,3) by (metis mset_append)
  then have "distinct ((queued_ids q' @ G') @ (running_ids q' @ H')) =
      distinct ((queued_ids q @ G) @ (running_ids q @ H))"
    by (rule mset_eq_imp_distinct_iff)
  then show ?thesis
    using assms sets unfolding books_def tracked_stat_def by (metis set_append)
qed

lemma books_close:
  assumes "books fl X F G (i # H) q L" and "wf_ledger L'" and "lstat L' = (lstat L)(i := None)"
  shows "books fl X F G H q L'"
  using assms by (auto simp: books_def tracked_stat_def)

lemma books_close_queued:
  assumes "books fl X F (i # G) H q L" and "wf_ledger L'" and "lstat L' = (lstat L)(i := None)"
  shows "books fl X F G H q L'"
  using assms by (auto simp: books_def tracked_stat_def)

lemma books_admit:
  assumes "books fl X F (i # G) H q L" and "wf_ledger L'" and "lstat L' = (lstat L)(i := Some True)"
  shows "books fl X F G (i # H) q L'"
  using assms by (auto simp: books_def tracked_stat_def)

lemma books_keep:
  assumes "books fl X F G H q L" and "wf_ledger L'" and "lstat L' = (lstat L)(i := Some True)"
    and "i \<in> set (running_ids q @ H)"
  shows "books fl X F G H q L'"
proof -
  have "lstat L i = Some True" by (rule books_running [OF assms(1,4)])
  then have "lstat L' = lstat L" using assms(3) by auto
  then show ?thesis using assms(1,2) by (simp add: books_def)
qed

section \<open>What the scheduler relies on of an executor\<close>

text \<open>
  Results are for exactly the requests of the plan. With decode overlap a unified step
  returns no prefill results and its prefill becomes the in-flight one, which a later poll
  returns in plan order. Nothing else changes the in-flight prefill.
\<close>

definition executor_ok :: "'x executor \<Rightarrow> ('x \<Rightarrow> request_id list) \<Rightarrow> bool" where
  "executor_ok E fl \<longleftrightarrow>
     (\<forall>p x r x'. ex_execute_prefill E p x = (Inr r, x') \<longrightarrow>
        mset (map pq_id (prr_requests r)) = mset (map pi_id (pp_requests p))) \<and>
     (\<forall>p x rs x'. ex_execute_decode E p x = (Inr rs, x') \<longrightarrow>
        mset (map dr_id rs) = mset (map di_id (dp_requests p))) \<and>
     (\<forall>ds x rs x'. ex_execute_draft E ds x = (Inr rs, x') \<longrightarrow>
        mset (map dfr_id rs) = mset (map dft_id ds)) \<and>
     (\<forall>vs sd x rs x'. ex_execute_verify E vs sd x = (Inr rs, x') \<longrightarrow>
        mset (map vr_id rs) = mset (map vi_id vs)) \<and>
     (\<forall>p x r x'. ex_execute_unified E p x = (Inr r, x') \<longrightarrow>
        mset (map dr_id (ur_decode_requests r)) = mset (map di_id (up_decode_requests p)) \<and>
        (ex_has_decode_overlap E x \<longrightarrow>
           ur_prefill_requests r = [] \<and> fl x' = map pi_id (up_prefill_requests p)) \<and>
        (\<not> ex_has_decode_overlap E x \<longrightarrow>
           mset (map pq_id (ur_prefill_requests r)) = mset (map pi_id (up_prefill_requests p)))) \<and>
     (\<forall>x r x'. ex_poll_async_prefill E x = (Some r, x') \<longrightarrow>
        map pq_id (prr_requests r) = fl x) \<and>
     (\<forall>x x'. ex_poll_async_prefill E x = (None, x') \<longrightarrow> fl x' = fl x) \<and>
     (\<forall>i x. fl (snd (ex_drop_request E i x)) = fl x) \<and>
     (\<forall>p x. fl (snd (ex_execute_decode E p x)) = fl x) \<and>
     (\<forall>ds x. fl (snd (ex_execute_draft E ds x)) = fl x) \<and>
     (\<forall>vs sd x. fl (snd (ex_execute_verify E vs sd x)) = fl x) \<and>
     (\<forall>c x. fl (ex_lora_command E c x) = fl x) \<and>
     (\<forall>i ts l n x. fl (snd (ex_begin_kv_prefetch E i ts l n x)) = fl x) \<and>
     (\<forall>n x. fl (snd (ex_drain_ready_prefetch E n x)) = fl x) \<and>
     (\<forall>n x. fl (snd (ex_wait_ready_prefetch E n x)) = fl x)"

lemma executor_okD:
  assumes "executor_ok E fl"
  shows "ex_execute_prefill E p x = (Inr r, x') \<Longrightarrow>
      mset (map pq_id (prr_requests r)) = mset (map pi_id (pp_requests p))"
    and "ex_execute_decode E dp x = (Inr drs, x') \<Longrightarrow>
      mset (map dr_id drs) = mset (map di_id (dp_requests dp))"
    and "ex_execute_draft E dfs x = (Inr dfrs, x') \<Longrightarrow> mset (map dfr_id dfrs) = mset (map dft_id dfs)"
    and "ex_execute_verify E vs sd x = (Inr vrs, x') \<Longrightarrow> mset (map vr_id vrs) = mset (map vi_id vs)"
    and "ex_execute_unified E up x = (Inr ur, x') \<Longrightarrow>
      mset (map dr_id (ur_decode_requests ur)) = mset (map di_id (up_decode_requests up))"
    and "ex_execute_unified E up x = (Inr ur, x') \<Longrightarrow> ex_has_decode_overlap E x \<Longrightarrow>
      ur_prefill_requests ur = [] \<and> fl x' = map pi_id (up_prefill_requests up)"
    and "ex_execute_unified E up x = (Inr ur, x') \<Longrightarrow> \<not> ex_has_decode_overlap E x \<Longrightarrow>
      mset (map pq_id (ur_prefill_requests ur)) = mset (map pi_id (up_prefill_requests up))"
    and "ex_poll_async_prefill E x = (Some r, x') \<Longrightarrow> map pq_id (prr_requests r) = fl x"
    and "ex_poll_async_prefill E x = (None, x') \<Longrightarrow> fl x' = fl x"
  using assms unfolding executor_ok_def by - (elim conjE, metis)+

lemma executor_ok_fl:
  assumes "executor_ok E fl"
  shows "fl (snd (ex_drop_request E i x)) = fl x" "fl (snd (ex_execute_decode E dp x)) = fl x"
    "fl (snd (ex_execute_draft E dfs x)) = fl x" "fl (snd (ex_execute_verify E vs sd x)) = fl x"
    "fl (ex_lora_command E c x) = fl x" "fl (snd (ex_begin_kv_prefetch E i ts l n x)) = fl x"
    "fl (snd (ex_drain_ready_prefetch E n x)) = fl x" "fl (snd (ex_wait_ready_prefetch E n x)) = fl x"
  using assms unfolding executor_ok_def by blast+

lemma ids_simps [simp]:
  "queued_ids (q\<lparr>qs_executor := x\<rparr>) = queued_ids q" "running_ids (q\<lparr>qs_executor := x\<rparr>) = running_ids q"
  "queued_ids (q\<lparr>qs_tracker := t\<rparr>) = queued_ids q" "running_ids (q\<lparr>qs_tracker := t\<rparr>) = running_ids q"
  "queued_ids (q\<lparr>qs_rng := n\<rparr>) = queued_ids q" "running_ids (q\<lparr>qs_rng := n\<rparr>) = running_ids q"
  "queued_ids (q\<lparr>qs_active := a\<rparr>) = queued_ids q" "queued_ids (q\<lparr>qs_prefilling := p\<rparr>) = queued_ids q"
  "queued_ids (q\<lparr>qs_inflight := f\<rparr>) = queued_ids q"
  "queued_ids (q\<lparr>qs_pending_control := c\<rparr>) = queued_ids q"
  "running_ids (q\<lparr>qs_pending_control := c\<rparr>) = running_ids q"
  "running_ids (q\<lparr>qs_deferred := d\<rparr>) = running_ids q" "running_ids (q\<lparr>qs_loading := d\<rparr>) = running_ids q"
  "running_ids (q\<lparr>qs_post_control := d\<rparr>) = running_ids q"
  "inflight_ids (q\<lparr>qs_executor := x\<rparr>) = inflight_ids q" "inflight_ids (q\<lparr>qs_tracker := t\<rparr>) = inflight_ids q"
  "inflight_ids (q\<lparr>qs_active := a\<rparr>) = inflight_ids q" "inflight_ids (q\<lparr>qs_prefilling := p\<rparr>) = inflight_ids q"
  "inflight_ids (q\<lparr>qs_deferred := d\<rparr>) = inflight_ids q" "inflight_ids (q\<lparr>qs_loading := d\<rparr>) = inflight_ids q"
  "inflight_ids (q\<lparr>qs_post_control := d\<rparr>) = inflight_ids q" "inflight_ids (q\<lparr>qs_rng := n\<rparr>) = inflight_ids q"
  "inflight_ids (q\<lparr>qs_pending_control := c\<rparr>) = inflight_ids q"
  by (simp_all add: queued_ids_def running_ids_def inflight_ids_def)

lemma books_release:
  assumes "executor_ok E fl"
  shows "books fl X F G H (drop_request E i (untrack i q)) L = books fl X F G H q L"
  using executor_ok_fl(1) [OF assms]
  by (simp add: books_def tracked_stat_def drop_request_def untrack_def)

lemma books_run_release:
  assumes "executor_ok E fl"
  shows "books fl X F G H (ru_sched (release_request E i r)) (ru_ledger (release_request E i r)) =
    books fl X F G H (ru_sched r) (ru_ledger r)"
  using books_release [OF assms] by (simp add: release_request_def on_sched_def)

section \<open>Ledger calls on the books\<close>

lemma books_perm:
  assumes "books fl X F G H q L" and "mset G' = mset G" and "mset H' = mset H"
  shows "books fl X F G' H' q L"
  by (rule books_move [OF assms(1)]) (use assms in \<open>auto simp: books_def\<close>)

lemma op_close_ok:
  assumes "books fl X F G (op_id x # H) q (ru_ledger r)" and "op_pre x (Some True)" and "op_post x = None"
  shows "succeeds (do_op x r) (\<lambda>r'. ru_sched r' = ru_sched r \<and> books fl X F G H q (ru_ledger r'))"
proof -
  have "lstat (ru_ledger r) (op_id x) = Some True"
    using books_running [OF assms(1)] by simp
  then show ?thesis
    using do_op_ok [OF books_wf [OF assms(1)], of x] assms books_close [OF assms(1)]
    by (auto elim!: succeeds_mono)
qed

lemma op_close_queued_ok:
  assumes "books fl X F (op_id x # G) H q (ru_ledger r)" and "op_pre x (Some False)" and "op_post x = None"
  shows "succeeds (do_op x r) (\<lambda>r'. ru_sched r' = ru_sched r \<and> books fl X F G H q (ru_ledger r'))"
proof -
  have "lstat (ru_ledger r) (op_id x) = Some False"
    using books_queued [OF assms(1)] by simp
  then show ?thesis
    using do_op_ok [OF books_wf [OF assms(1)], of x] assms books_close_queued [OF assms(1)]
    by (auto elim!: succeeds_mono)
qed

lemma op_keep_ok:
  assumes "books fl X F G H q (ru_ledger r)" and "lstat (ru_ledger r) (op_id x) = Some True"
    and "op_pre x (Some True)" and "op_post x = Some True"
  shows "succeeds (do_op x r) (\<lambda>r'. ru_sched r' = ru_sched r \<and> books fl X F G H q (ru_ledger r'))"
proof -
  have "succeeds (do_op x r) (\<lambda>r'. wf_ledger (ru_ledger r') \<and> ru_sched r' = ru_sched r \<and>
      lstat (ru_ledger r') = lstat (ru_ledger r))"
    using do_op_ok [OF books_wf [OF assms(1)], of x] assms
    by (auto elim!: succeeds_mono simp: fun_upd_idem)
  then show ?thesis
    by (rule succeeds_mono) (use assms(1) in \<open>auto simp: books_def\<close>)
qed

lemma books_probe_ok:
  assumes "lstat (ru_ledger r) i \<noteq> None"
    and "\<And>b r'. ru_ledger r' = ru_ledger r \<Longrightarrow> ru_sched r' = ru_sched r \<Longrightarrow> succeeds (k (b, r')) Q"
  shows "succeeds (bind_res (probe_abort env i r) k) Q"
  using probe_ok [OF assms(1), of env] assms(2)
  by (auto simp: succeeds_bind elim!: succeeds_mono)

lemma books_probe_cases:
  fixes r :: "'x run_state"
  assumes "lstat (ru_ledger r) i \<noteq> None"
    and "\<And>r'. ru_ledger r' = ru_ledger r \<Longrightarrow> ru_sched r' = ru_sched r \<Longrightarrow> succeeds (f r') Q"
    and "\<And>r'. ru_ledger r' = ru_ledger r \<Longrightarrow> ru_sched r' = ru_sched r \<Longrightarrow> succeeds (g r') Q"
  shows "succeeds (bind_res (probe_abort env i r) (\<lambda>(aborted, r1 :: 'x run_state). if aborted then f r1 else g r1)) Q"
  by (rule books_probe_ok [OF assms(1)]) (simp add: assms(2,3))

lemma release_sels [simp]:
  "ru_ledger (release_request E i r) = ru_ledger r"
  "ru_sched (release_request E i r) = drop_request E i (untrack i (ru_sched r))"
  by (simp_all add: release_request_def on_sched_def)

lemma settle_finish_ok:
  fixes s :: "'x effect_state" and q :: "'x qwen3"
  assumes "books fl X F G (i # map fst (ef_finishes s) @ H) q (ru_ledger (ef_run s))"
    and "\<And>ids lps. toks = Some (ids, lps) \<Longrightarrow> lps = [] \<or> length lps = length ids"
  shows "succeeds (settle_finish E env i toks reason s) (\<lambda>s'.
    books fl X F G (map fst (ef_finishes s') @ H) q (ru_ledger (ef_run s')) \<and>
    ru_sched (ef_run s') = drop_request E i (untrack i (ru_sched (ef_run s))) \<and>
    ef_retire s' = ef_retire s \<and> ef_continued s' = ef_continued s)"
proof -
  let ?L = "ru_ledger (ef_run s)"
  have st: "lstat ?L i = Some True" using books_running [OF assms(1)] by simp
  have push: "succeeds (case toks of None \<Rightarrow> Inr r | Some (ids, lps) \<Rightarrow> do_op (OpPush i ids lps) r)
      (\<lambda>r'. ru_sched r' = ru_sched r \<and>
        books fl X F G (map fst (ef_finishes s @ [(i, reason)]) @ H) q (ru_ledger r'))"
    if "ru_ledger r = ?L" for r :: "'x run_state"
  proof -
    have b: "books fl X F G (map fst (ef_finishes s @ [(i, reason)]) @ H) q (ru_ledger r)"
      using books_perm [OF assms(1)] that by simp
    show ?thesis
      using b op_keep_ok [OF b, of "OpPush i _ _"] st that assms(2)
      by (cases toks) auto
  qed
  have act: "is_active i ?L" using st by (simp add: lstat_active)
  let ?k = "\<lambda>(aborted, r1 :: 'x run_state).
      if aborted then bind_res (do_op (OpRetire i) r1) (\<lambda>r2. Inr (r2, ef_finishes s))
      else bind_res (case toks of None \<Rightarrow> Inr r1 | Some (ids, lps) \<Rightarrow> do_op (OpPush i ids lps) r1)
        (\<lambda>r2. Inr (r2, ef_finishes s @ [(i, reason)]))"
  have "succeeds (bind_res (probe_abort env i (ef_run s)) ?k)
      (\<lambda>(r3, fs). ru_sched r3 = ru_sched (ef_run s) \<and> books fl X F G (map fst fs @ H) q (ru_ledger r3))"
  proof (rule books_probe_ok)
    show "lstat ?L i \<noteq> None" using st by simp
    fix b and r' :: "'x run_state"
    assume r': "ru_ledger r' = ?L" "ru_sched r' = ru_sched (ef_run s)"
    have "succeeds (do_op (OpRetire i) r')
        (\<lambda>r2. ru_sched r2 = ru_sched r' \<and> books fl X F G (map fst (ef_finishes s) @ H) q (ru_ledger r2))"
      using op_close_ok [of fl X F G "OpRetire i" _ q r'] assms(1) r'(1) by simp
    then show "succeeds (?k (b, r')) (\<lambda>(r3, fs). ru_sched r3 = ru_sched (ef_run s) \<and>
        books fl X F G (map fst fs @ H) q (ru_ledger r3))"
      using push [OF r'(1)] r'(2) by (cases b) (auto simp: succeeds_bind elim!: succeeds_mono)
  qed
  then show ?thesis
    using act by (auto simp: settle_finish_def Let_def succeeds_bind elim!: succeeds_mono)
qed

section \<open>Removing by index\<close>

definition without :: "nat list \<Rightarrow> 'a list \<Rightarrow> 'a list" where
  "without idx xs = nths xs {k. k \<notin> set idx}"

lemma mset_nths: "mset (nths xs S) = image_mset ((!) xs) (mset_set ({..<length xs} \<inter> S))"
proof (induction xs rule: rev_induct)
  case (snoc x xs)
  have *: "{..<length (xs @ [x])} \<inter> S =
      (if length xs \<in> S then insert (length xs) ({..<length xs} \<inter> S) else {..<length xs} \<inter> S)"
    by (auto simp: less_Suc_eq)
  have "image_mset ((!) (xs @ [x])) (mset_set ({..<length xs} \<inter> S)) =
      image_mset ((!) xs) (mset_set ({..<length xs} \<inter> S))"
    by (rule image_mset_cong) (auto simp: nth_append)
  then show ?case using snoc * by (auto simp: nths_append)
qed simp

lemma mset_without_snoc:
  assumes "k < length xs" and "k \<notin> set idx"
  shows "mset (without idx xs) = add_mset (xs ! k) (mset (without (idx @ [k]) xs))"
proof -
  have "{..<length xs} \<inter> {j. j \<notin> set idx} =
      insert k ({..<length xs} \<inter> {j. j \<notin> set (idx @ [k])})"
    using assms by auto
  then show ?thesis by (simp add: without_def mset_nths)
qed

lemma map_without: "map f (without idx xs) = without idx (map f xs)"
  by (simp add: without_def nths_map)

lemma without_Nil [simp]: "without [] xs = xs"
  by (simp add: without_def nths_all)

lemma without_update:
  "f x = f (xs ! k) \<Longrightarrow> map f (without idx (xs[k := x])) = map f (without idx xs)"
proof -
  assume "f x = f (xs ! k)"
  then have "map f (xs[k := x]) = map f xs"
    by (cases "k < length xs") (simp_all add: map_update list_update_same_conv list_update_beyond)
  then show ?thesis by (simp add: map_without)
qed

lemma in_without: "k < length xs \<Longrightarrow> k \<notin> set idx \<Longrightarrow> xs ! k \<in> set (without idx xs)"
  by (auto simp: without_def set_nths)

lemma swap_remove_nth: "i < length xs \<Longrightarrow> k < i \<Longrightarrow> swap_remove i xs ! k = xs ! k"
  by (simp add: swap_remove_def nth_butlast)

lemma length_swap_remove: "i < length xs \<Longrightarrow> length (swap_remove i xs) = length xs - 1"
  by (simp add: swap_remove_def)

lemma mset_swap_remove:
  assumes "i < length xs"
  shows "mset xs = add_mset (xs ! i) (mset (swap_remove i xs))"
proof -
  obtain ys y where xs: "xs = ys @ [y]" using assms by (cases xs rule: rev_cases) auto
  show ?thesis
  proof (cases "i = length ys")
    case True
    then show ?thesis by (simp add: xs swap_remove_def)
  next
    case False
    then have i: "i < length ys" using assms xs by simp
    have "mset ys = add_mset (ys ! i) (mset (take i ys @ drop (Suc i) ys))"
      using id_take_nth_drop [OF i] by (metis mset.simps(2) mset_append union_mset_add_mset_right)
    moreover have "mset (ys[i := y]) = add_mset y (mset (take i ys @ drop (Suc i) ys))"
      using i by (simp add: upd_conv_take_nth_drop)
    ultimately show ?thesis using i
      by (simp add: xs swap_remove_def list_update_append butlast_append nth_append)
  qed
qed

lemma fold_swap_remove:
  assumes "sorted_wrt (>) idx" and "\<forall>k \<in> set idx. k < length xs"
  shows "mset xs = mset (fold swap_remove idx xs) + mset (map ((!) xs) idx)"
  using assms
proof (induction idx arbitrary: xs)
  case (Cons i idx)
  let ?ys = "swap_remove i xs"
  have i: "i < length xs" and lt: "\<forall>k \<in> set idx. k < i" using Cons.prems by auto
  have "\<forall>k \<in> set idx. k < length ?ys"
    using lt i by (auto simp: length_swap_remove)
  then have "mset ?ys = mset (fold swap_remove idx ?ys) + mset (map ((!) ?ys) idx)"
    using Cons.IH [of ?ys] Cons.prems(1) by simp
  moreover have "map ((!) ?ys) idx = map ((!) xs) idx"
    using lt i by (simp add: swap_remove_nth)
  ultimately show ?case using mset_swap_remove [OF i] by simp
qed simp

lemma strict_remdups_adj:
  fixes xs :: "nat list"
  shows "sorted xs \<Longrightarrow> sorted_wrt (<) (remdups_adj xs)"
proof (induction xs rule: remdups_adj.induct)
  case (3 x y xs)
  then show ?case by (cases "x = y") (auto simp: less_le_trans)
qed auto

lemma mset_remove_retired:
  assumes "\<forall>k \<in> set idx. k < length xs"
  shows "mset (remove_retired idx xs) = mset (without idx xs)"
proof -
  let ?js = "rev (remdups_adj (sort idx))"
  have sorted: "sorted_wrt (<) (remdups_adj (sort idx))"
    by (simp add: strict_remdups_adj)
  then have "sorted_wrt (>) ?js" by (simp add: sorted_wrt_rev)
  then have *: "mset xs = mset (remove_retired idx xs) + mset (map ((!) xs) ?js)"
    using fold_swap_remove [of ?js xs] assms by (simp add: remove_retired_def)
  have "distinct ?js" using sorted by (simp add: strict_sorted_iff)
  then have "mset ?js = mset_set (set idx)"
    using mset_set_set [of ?js] by simp
  then have js: "mset (map ((!) xs) ?js) = image_mset ((!) xs) (mset_set (set idx))"
    by (metis mset_map)
  have "{..<length xs} = ({..<length xs} \<inter> {k. k \<notin> set idx}) \<union> set idx"
    using assms by auto
  then have "mset_set {..<length xs} = mset_set ({..<length xs} \<inter> {k. k \<notin> set idx}) + mset_set (set idx)"
    by (metis (no_types, lifting) disjoint_iff finite_Int finite_lessThan finite_set Int_iff mem_Collect_eq mset_set_Union)
  moreover have "mset xs = image_mset ((!) xs) (mset_set {..<length xs})"
    using mset_nths [of xs UNIV] by (simp add: nths_all)
  ultimately have "mset xs = mset (without idx xs) + image_mset ((!) xs) (mset_set (set idx))"
    by (simp add: without_def mset_nths)
  with * js show ?thesis by simp
qed

section \<open>The decode loop\<close>

definition live_view :: "'x effect_state \<Rightarrow> 'x qwen3" where
  "live_view s = (ru_sched (ef_run s))\<lparr>qs_active :=
     without (ef_retire s) (qs_active (ru_sched (ef_run s)))\<rparr>"

text \<open>
  The books during the loop over decode effects: entries whose index is marked for removal
  no longer count, and the ids of the effects to come are live active requests.
\<close>

definition decode_books ::
  "('x \<Rightarrow> request_id list) \<Rightarrow> request_id set \<Rightarrow> inflight \<Rightarrow> request_id list \<Rightarrow>
   request_id list \<Rightarrow> request_id list \<Rightarrow> 'x effect_state \<Rightarrow> bool"
where
  "decode_books fl X F G H ids s \<longleftrightarrow>
     books fl X F G (map fst (ef_finishes s) @ H) (live_view s) (ru_ledger (ef_run s)) \<and>
     distinct (map ar_id (qs_active (ru_sched (ef_run s)))) \<and>
     (\<forall>k \<in> set (ef_retire s). k < length (qs_active (ru_sched (ef_run s)))) \<and>
     distinct ids \<and> set ids \<subseteq> set (map ar_id (qs_active (live_view s))) \<and> ef_continued s = []"

lemma running_ids_active:
  "mset (running_ids (q\<lparr>qs_active := a\<rparr>)) =
    mset (map pr_id (qs_prefilling q)) + mset (map ar_id a) + mset (inflight_ids q)"
  by (simp add: running_ids_def)

lemma active_position_live:
  assumes "decode_books fl X F G H (i # ids) s"
  obtains k where "active_position i s = Some k" and "k < length (qs_active (ru_sched (ef_run s)))"
    and "k \<notin> set (ef_retire s)" and "ar_id (qs_active (ru_sched (ef_run s)) ! k) = i"
proof -
  let ?act = "qs_active (ru_sched (ef_run s))"
  have "i \<in> set (without (ef_retire s) (map ar_id ?act))"
    using assms by (simp add: decode_books_def live_view_def map_without)
  then obtain j where j: "j < length ?act" "j \<notin> set (ef_retire s)" "ar_id (?act ! j) = i"
    by (auto simp: without_def set_nths)
  then have "find_position (\<lambda>r. ar_id r = i) ?act \<noteq> None"
    using nth_mem by (auto simp: find_position_None)
  then obtain k where k: "active_position i s = Some k" by (auto simp: active_position_def)
  then have k': "k < length ?act" "ar_id (?act ! k) = i"
    using find_position_Some [of _ ?act k] by (auto simp: active_position_def)
  have "distinct (map ar_id ?act)" using assms by (simp add: decode_books_def)
  then have "k = j" using k' j by (simp add: distinct_conv_nth) (metis nth_map length_map)
  with k k' j show thesis using that by blast
qed

text \<open>Marking the entry of \<open>i\<close> for removal takes the request in hand.\<close>

lemma decode_books_mark:
  assumes "decode_books fl X F G H (i # ids) s" and "k < length (qs_active (ru_sched (ef_run s)))"
    and "k \<notin> set (ef_retire s)" and "ar_id (qs_active (ru_sched (ef_run s)) ! k) = i"
  shows "books fl X F G (i # map fst (ef_finishes s) @ H)
      (live_view (s\<lparr>ef_retire := ef_retire s @ [k]\<rparr>)) (ru_ledger (ef_run s))"
    and "set ids \<subseteq> set (map ar_id (qs_active (live_view (s\<lparr>ef_retire := ef_retire s @ [k]\<rparr>))))"
proof -
  let ?act = "qs_active (ru_sched (ef_run s))"
  let ?s' = "s\<lparr>ef_retire := ef_retire s @ [k]\<rparr>"
  have m: "mset (map ar_id (without (ef_retire s) ?act)) =
      add_mset i (mset (map ar_id (without (ef_retire s @ [k]) ?act)))"
    using mset_without_snoc [of k "map ar_id ?act" "ef_retire s"] assms(2-4) by (simp add: map_without)
  have b: "books fl X F G (map fst (ef_finishes s) @ H) (live_view s) (ru_ledger (ef_run s))"
    using assms(1) by (simp add: decode_books_def)
  have F: "fl (qs_executor (ru_sched (ef_run s))) = snd F"
      "qs_inflight (ru_sched (ef_run s)) = fst F" "inflight_matches F"
    using b by (auto simp: books_def live_view_def)
  show "books fl X F G (i # map fst (ef_finishes s) @ H) (live_view ?s') (ru_ledger (ef_run s))"
    by (rule books_move [OF b]) (use m F in \<open>auto simp: live_view_def running_ids_active\<close>)
  have "set (map ar_id (without (ef_retire s) ?act)) =
      insert i (set (map ar_id (without (ef_retire s @ [k]) ?act)))"
    using m by (metis set_mset_add_mset_insert set_mset_mset)
  then show "set ids \<subseteq> set (map ar_id (qs_active (live_view ?s')))"
    using assms(1) by (auto simp: decode_books_def live_view_def)
qed

lemma live_view_release:
  assumes "ru_sched (ef_run t) = drop_request E i (untrack i (ru_sched (ef_run s)))"
    and "ef_retire t = ef_retire s"
  shows "live_view t = drop_request E i (untrack i (live_view s))"
  using assms by (simp add: live_view_def drop_request_def untrack_def)

text \<open>A marked entry whose request was closed or queued to finish, after its release.\<close>

lemma decode_books_settled:
  assumes E: "executor_ok E fl" and D: "decode_books fl X F G H (i # ids) s"
    and k: "k < length (qs_active (ru_sched (ef_run s)))" "k \<notin> set (ef_retire s)"
      "ar_id (qs_active (ru_sched (ef_run s)) ! k) = i"
    and b: "books fl X F G (map fst (ef_finishes t) @ H)
      (live_view (s\<lparr>ef_retire := ef_retire s @ [k]\<rparr>)) (ru_ledger (ef_run t))"
    and t: "ru_sched (ef_run t) = drop_request E i (untrack i (ru_sched (ef_run s)))"
      "ef_retire t = ef_retire s @ [k]" "ef_continued t = ef_continued s"
  shows "decode_books fl X F G H ids t"
proof -
  let ?s' = "s\<lparr>ef_retire := ef_retire s @ [k]\<rparr>"
  have view: "live_view t = drop_request E i (untrack i (live_view ?s'))"
    by (rule live_view_release) (use t in simp_all)
  have "qs_active (ru_sched (ef_run t)) = qs_active (ru_sched (ef_run s))"
      "qs_active (live_view t) = qs_active (live_view ?s')"
    by (simp_all add: t view drop_request_def untrack_def)
  then show ?thesis
    using b D k t decode_books_mark(2) [OF D k]
    by (simp add: decode_books_def view books_release [OF E])
qed

lemma finish_decode_ok:
  assumes E: "executor_ok E fl" and D: "decode_books fl X F G H (i # ids) s"
    and toks: "\<And>us lps. toks = Some (us, lps) \<Longrightarrow> lps = [] \<or> length lps = length us"
  shows "succeeds (finish_decode E env i toks reason s) (decode_books fl X F G H ids)"
proof -
  obtain k where pos: "active_position i s = Some k" and k: "k < length (qs_active (ru_sched (ef_run s)))"
      "k \<notin> set (ef_retire s)" "ar_id (qs_active (ru_sched (ef_run s)) ! k) = i"
    by (rule active_position_live [OF D])
  have "succeeds (settle_finish E env i toks reason s) (\<lambda>s1.
      decode_books fl X F G H ids (s1\<lparr>ef_retire := ef_retire s1 @ [k]\<rparr>))"
    by (rule succeeds_mono [OF settle_finish_ok [OF decode_books_mark(1) [OF D k] toks]])
      (auto intro!: decode_books_settled [OF E D k])
  then show ?thesis by (simp add: finish_decode_def pos succeeds_bind)
qed

lemma retire_aborted_ok:
  assumes "books fl X F G (i # H) q (ru_ledger r)"
  shows "succeeds (retire_aborted E i r) (\<lambda>r'. books fl X F G H q (ru_ledger r') \<and>
    ru_sched r' = drop_request E i (untrack i (ru_sched r)))"
  using op_close_ok [of fl X F G "OpRetire i" H q r] assms
  by (auto simp: retire_aborted_def succeeds_bind elim!: succeeds_mono)

lemma continue_decode_ok:
  fixes s :: "'x effect_state"
  assumes E: "executor_ok E fl" and D: "decode_books fl X F G H (i # ids) s"
    and lps: "lps = [] \<or> length lps = length us"
  shows "succeeds (continue_decode E env i us lps n s) (decode_books fl X F G H ids)"
proof -
  obtain k where pos: "active_position i s = Some k" and k: "k < length (qs_active (ru_sched (ef_run s)))"
      "k \<notin> set (ef_retire s)" "ar_id (qs_active (ru_sched (ef_run s)) ! k) = i"
    by (rule active_position_live [OF D])
  note mark = decode_books_mark(1) [OF D k]
  have b: "books fl X F G (map fst (ef_finishes s) @ H) (live_view s) (ru_ledger (ef_run s))"
    using D by (simp add: decode_books_def)
  have st: "lstat (ru_ledger (ef_run s)) i = Some True" using books_running [OF mark] by simp
  have "succeeds (settle_continue E env i k us lps n s) (decode_books fl X F G H ids)"
    unfolding settle_continue_def
  proof (rule books_probe_ok)
    show "lstat (ru_ledger (ef_run s)) i \<noteq> None" using st by simp
    fix aborted and r1 :: "'x run_state"
    assume r1: "ru_ledger r1 = ru_ledger (ef_run s)" "ru_sched r1 = ru_sched (ef_run s)"
    have "succeeds (retire_aborted E i r1) (\<lambda>r2.
        decode_books fl X F G H ids (s\<lparr>ef_run := r2, ef_retire := ef_retire s @ [k]\<rparr>))"
      by (rule succeeds_mono [OF retire_aborted_ok [of fl X F G i]], use mark r1 in simp)
        (use r1 in \<open>auto intro!: decode_books_settled [OF E D k]\<close>)
    moreover have "succeeds (do_op (OpPush i us lps) r1) (\<lambda>r2.
        decode_books fl X F G H ids (s\<lparr>ef_run := (if us = [] then r2
          else on_sched (\<lambda>q. q\<lparr>qs_active := (qs_active q)[k := (qs_active q ! k)
            \<lparr>ar_last_token := last us, ar_generated_count := n\<rparr>]\<rparr>) r2)\<rparr>))"
    proof (rule succeeds_mono [OF op_keep_ok [of fl X F G "map fst (ef_finishes s) @ H" "live_view s"]])
      fix r2 :: "'x run_state"
      assume r2: "ru_sched r2 = ru_sched r1 \<and>
        books fl X F G (map fst (ef_finishes s) @ H) (live_view s) (ru_ledger r2)"
      define t where "t = s\<lparr>ef_run := (if us = [] then r2
          else on_sched (\<lambda>q. q\<lparr>qs_active := (qs_active q)[k := (qs_active q ! k)
            \<lparr>ar_last_token := last us, ar_generated_count := n\<rparr>]\<rparr>) r2)\<rparr>"
      have ids: "map ar_id (qs_active (ru_sched (ef_run t))) = map ar_id (qs_active (ru_sched (ef_run s)))"
          "map ar_id (qs_active (live_view t)) = map ar_id (qs_active (live_view s))"
        using r1 r2 k
        by (auto simp: t_def on_sched_def live_view_def map_update list_update_same_conv
            intro!: without_update)
      have same: "queued_ids (live_view t) = queued_ids (live_view s)"
          "inflight_ids (live_view t) = inflight_ids (live_view s)"
          "qs_inflight (live_view t) = qs_inflight (live_view s)"
          "qs_executor (live_view t) = qs_executor (live_view s)"
          "qs_prefilling (live_view t) = qs_prefilling (live_view s)"
        using r1 r2 by (cases "us = []"; simp add: t_def live_view_def on_sched_def)+
      then have "running_ids (live_view t) = running_ids (live_view s)"
        using ids(2) by (simp only: running_ids_def)
      with same b have "books fl X F G (map fst (ef_finishes s) @ H) (live_view t) (ru_ledger r2)"
        by (intro books_move [OF conjunct2 [OF r2]]) (simp_all add: books_def)
      moreover have "ef_finishes t = ef_finishes s" "ef_retire t = ef_retire s"
          "ef_continued t = ef_continued s" "ru_ledger (ef_run t) = ru_ledger r2"
        by (simp_all add: t_def on_sched_def)
      moreover have "length (qs_active (ru_sched (ef_run t))) = length (qs_active (ru_sched (ef_run s)))"
        using ids(1) by (metis length_map)
      ultimately have "decode_books fl X F G H ids t"
        using D ids unfolding decode_books_def by (simp only: list.set distinct.simps) blast
      then show "decode_books fl X F G H ids (s\<lparr>ef_run := (if us = [] then r2
          else on_sched (\<lambda>q. q\<lparr>qs_active := (qs_active q)[k := (qs_active q ! k)
            \<lparr>ar_last_token := last us, ar_generated_count := n\<rparr>]\<rparr>) r2)\<rparr>)"
        by (simp only: t_def)
    qed (use b r1 st lps in auto)
    ultimately show "succeeds (case (aborted, r1) of (aborted, r1) \<Rightarrow>
        if aborted then bind_res (retire_aborted E i r1) (\<lambda>r2.
          Inr (s\<lparr>ef_run := r2, ef_retire := ef_retire s @ [k]\<rparr>))
        else bind_res (do_op (OpPush i us lps) r1) (\<lambda>r2. Inr (s\<lparr>ef_run := (if us = [] then r2
          else on_sched (\<lambda>q. q\<lparr>qs_active := (qs_active q)[k := (qs_active q ! k)
            \<lparr>ar_last_token := last us, ar_generated_count := n\<rparr>]\<rparr>) r2)\<rparr>)))
        (decode_books fl X F G H ids)"
      by (cases aborted) (simp_all add: succeeds_bind)
  qed
  then show ?thesis by (simp add: continue_decode_def pos)
qed

lemma apply_decode_ok:
  assumes "executor_ok E fl" and "decode_books fl X F G H (decode_effect_id d # ids) s"
  shows "succeeds (apply_decode E env d s) (decode_books fl X F G H ids)"
  using assms
  by (cases d) (auto intro!: finish_decode_ok continue_decode_ok)

section \<open>The loop over pending effects\<close>

fun pending_effect_id :: "pending_effect \<Rightarrow> request_id" where
  "pending_effect_id (PeFinish i r) = i"
| "pending_effect_id (PeEmitAndFinish i t l r) = i"
| "pending_effect_id (PePromote st t l) = ar_id st"
| "pending_effect_id (PeContinuePrefill req) = pr_id req"

definition pending_books ::
  "('x \<Rightarrow> request_id list) \<Rightarrow> request_id set \<Rightarrow> inflight \<Rightarrow> request_id list \<Rightarrow>
   request_id list \<Rightarrow> request_id list \<Rightarrow> 'x effect_state \<Rightarrow> bool"
where
  "pending_books fl X F G H ids s \<longleftrightarrow>
     books fl X F G (ids @ map fst (ef_finishes s) @ map pr_id (ef_continued s) @ H)
       (ru_sched (ef_run s)) (ru_ledger (ef_run s))"

lemma apply_pending_ok:
  fixes s :: "'x effect_state"
  assumes E: "executor_ok E fl" and P: "pending_books fl X F G H (pending_effect_id e # ids) s"
  shows "succeeds (apply_pending E env e s) (pending_books fl X F G H ids)"
proof -
  let ?i = "pending_effect_id e" and ?r = "ef_run s"
  let ?rest = "ids @ map fst (ef_finishes s) @ map pr_id (ef_continued s) @ H"
  have b: "books fl X F G (?i # ?rest) (ru_sched ?r) (ru_ledger ?r)"
    using P by (simp add: pending_books_def)
  have st: "lstat (ru_ledger ?r) ?i = Some True" using books_running [OF b] by simp
  have finish: "succeeds (settle_finish E env ?i toks reason s) (pending_books fl X F G H ids)"
    if "\<And>us lps. toks = Some (us, lps) \<Longrightarrow> lps = [] \<or> length lps = length us" for toks reason
  proof -
    have "books fl X F G (?i # map fst (ef_finishes s) @ (ids @ map pr_id (ef_continued s) @ H))
        (ru_sched ?r) (ru_ledger ?r)"
      by (rule books_perm [OF b]) simp_all
    from settle_finish_ok [OF this that] show ?thesis
      by (rule succeeds_mono)
        (auto simp: pending_books_def books_release [OF E] intro: books_perm)
  qed
  have retire: "succeeds (retire_aborted E ?i r1) (\<lambda>r2. pending_books fl X F G H ids (s\<lparr>ef_run := r2\<rparr>))"
    if "ru_ledger r1 = ru_ledger ?r" "ru_sched r1 = ru_sched ?r" for r1 :: "'x run_state"
    by (rule succeeds_mono [OF retire_aborted_ok [of fl X F G ?i ?rest "ru_sched ?r"]])
      (use b that in \<open>auto simp: pending_books_def books_release [OF E]\<close>)
  show ?thesis
  proof (cases e)
    case (PeContinuePrefill req)
    have "pending_books fl X F G H ids (s\<lparr>ef_run := r1, ef_continued := ef_continued s @ [req]\<rparr>)"
      if "ru_ledger r1 = ru_ledger ?r" "ru_sched r1 = ru_sched ?r" for r1
      using books_perm [OF b] that PeContinuePrefill by (simp add: pending_books_def)
    with retire st PeContinuePrefill show ?thesis
      by simp (rule books_probe_cases, simp_all add: succeeds_bind)
  next
    case (PePromote st' t lp)
    have "succeeds (do_op (OpPush ?i [t] [lp]) r1) (\<lambda>r2. pending_books fl X F G H ids
        (s\<lparr>ef_run := on_sched (\<lambda>q. q\<lparr>qs_tracker := enter_decode (ar_id st') (qs_tracker q),
           qs_active := qs_active q @ [st']\<rparr>) r2\<rparr>))"
      if "ru_ledger r1 = ru_ledger ?r" "ru_sched r1 = ru_sched ?r" for r1 :: "'x run_state"
    proof (rule succeeds_mono [OF op_keep_ok [of fl X F G "?i # ?rest" "ru_sched ?r"]])
      fix r2 :: "'x run_state"
      assume r2: "ru_sched r2 = ru_sched r1 \<and> books fl X F G (?i # ?rest) (ru_sched ?r) (ru_ledger r2)"
      have "books fl X F G ?rest ((ru_sched ?r)\<lparr>qs_tracker := enter_decode (ar_id st') (qs_tracker (ru_sched ?r)),
          qs_active := qs_active (ru_sched ?r) @ [st']\<rparr>) (ru_ledger r2)"
        by (rule books_move [OF conjunct2 [OF r2]])
          (use b PePromote in \<open>auto simp: running_ids_def books_def\<close>)
      then show "pending_books fl X F G H ids
        (s\<lparr>ef_run := on_sched (\<lambda>q. q\<lparr>qs_tracker := enter_decode (ar_id st') (qs_tracker q),
           qs_active := qs_active q @ [st']\<rparr>) r2\<rparr>)"
        using r2 that by (simp add: pending_books_def on_sched_def)
    qed (use b st that in auto)
    with retire st PePromote show ?thesis
      by simp (rule books_probe_cases, simp_all add: succeeds_bind)
  next
    case (PeEmitAndFinish i t lp reason)
    then show ?thesis using finish [of "Some ([t], [lp])" reason] by simp
  next
    case (PeFinish i reason)
    then show ?thesis using finish [of None reason] by simp
  qed
qed

lemma apply_finish_ok:
  assumes "books fl X F G (i # H) (ru_sched r) (ru_ledger r)"
  shows "succeeds (apply_finish w (i, reason) r) (\<lambda>r'. books fl X F G H (ru_sched r') (ru_ledger r'))"
  unfolding apply_finish_def
  by (rule succeeds_mono [OF op_close_ok [of fl X F G _ H "ru_sched r"]]) (use assms in auto)

section \<open>Applying the effects of a step\<close>

lemma guarded_keep_ok:
  assumes "books fl X F G H (ru_sched r) (ru_ledger r)" and "op_pre x (Some True)" and "op_post x = Some True"
  shows "succeeds (if is_active (op_id x) (ru_ledger r) then do_op x r else Inr r)
    (\<lambda>r'. ru_sched r' = ru_sched r \<and> books fl X F G H (ru_sched r') (ru_ledger r'))"
proof (cases "is_active (op_id x) (ru_ledger r)")
  case True
  then show ?thesis
    using op_keep_ok [OF assms(1) _ assms(2,3)] by (auto simp: lstat_active elim!: succeeds_mono)
qed (use assms(1) in simp)

lemma apply_cached_ok:
  assumes "ru_sched r = q" and "books fl X F G H q (ru_ledger r)"
  shows "succeeds (apply_cached c r) (\<lambda>r'. ru_sched r' = q \<and> books fl X F G H q (ru_ledger r'))"
  using guarded_keep_ok [of fl X F G H r "OpCached (ce_id c) (ce_cached_tokens c)"] assms
  by (auto simp: apply_cached_def elim!: succeeds_mono)

lemma apply_echo_ok:
  assumes "ru_sched r = q" and "books fl X F G H q (ru_ledger r)"
  shows "succeeds (apply_echo e r) (\<lambda>r'. ru_sched r' = q \<and> books fl X F G H q (ru_ledger r'))"
  using guarded_keep_ok [of fl X F G H r "OpEcho (ee_id e) \<lparr>pe_ids = ee_ids e, pe_logprobs = ee_logprobs e\<rparr>"]
    assms
  by (auto simp: apply_echo_def elim!: succeeds_mono)

lemma facts_loop_ok:
  assumes "\<And>x r. ru_sched r = q \<Longrightarrow> books fl X F G H q (ru_ledger r) \<Longrightarrow>
      succeeds (f x r) (\<lambda>r'. ru_sched r' = q \<and> books fl X F G H q (ru_ledger r'))"
    and "ru_sched r = q \<and> books fl X F G H q (ru_ledger r)"
  shows "succeeds (fold_res f xs r) (\<lambda>r'. ru_sched r' = q \<and> books fl X F G H q (ru_ledger r'))"
  using assms(2)
  by (rule succeeds_fold [where I = "\<lambda>_ r'. ru_sched r' = q \<and> books fl X F G H q (ru_ledger r')"])
    (simp add: assms(1))

abbreviation effects_start :: "'x run_state \<Rightarrow> 'x effect_state" where
  "effects_start r \<equiv> \<lparr>ef_run = r, ef_finishes = [], ef_retire = [], ef_continued = []\<rparr>"

abbreviation drop_retired :: "'x effect_state \<Rightarrow> 'x effect_state" where
  "drop_retired s \<equiv> s\<lparr>ef_run := on_sched (\<lambda>q. q\<lparr>qs_active :=
     remove_retired (ef_retire s) (qs_active q)\<rparr>) (ef_run s)\<rparr>"

lemma decode_loop_ok:
  assumes E: "executor_ok E fl" and b: "books fl X F G H (ru_sched r) (ru_ledger r)"
    and d: "distinct (map decode_effect_id ds)"
      "set (map decode_effect_id ds) \<subseteq> set (map ar_id (qs_active (ru_sched r)))"
  shows "succeeds (fold_res (apply_decode E env) ds (effects_start r)) (decode_books fl X F G H [])"
proof -
  have "distinct (map ar_id (qs_active (ru_sched r)))"
    using b by (simp add: books_def running_ids_def)
  then have "decode_books fl X F G H (map decode_effect_id ds) (effects_start r)"
    using b d by (simp add: decode_books_def live_view_def)
  then show ?thesis
    by (rule succeeds_fold [where I = "\<lambda>ds. decode_books fl X F G H (map decode_effect_id ds)", simplified])
      (simp add: apply_decode_ok [OF E])
qed

lemma drop_retired_ok:
  assumes D: "decode_books fl X F G (ids @ H) [] s"
  shows "pending_books fl X F G H ids (drop_retired s)"
proof -
  let ?q = "ru_sched (ef_run s)"
  have b: "books fl X F G (map fst (ef_finishes s) @ ids @ H) (live_view s) (ru_ledger (ef_run s))"
    and c: "ef_continued s = []"
    using D by (simp_all add: decode_books_def)
  have F: "fl (qs_executor ?q) = snd F" "qs_inflight ?q = fst F" "inflight_matches F"
    using b by (simp_all add: books_def live_view_def)
  have "mset (map ar_id (remove_retired (ef_retire s) (qs_active ?q))) =
      mset (map ar_id (without (ef_retire s) (qs_active ?q)))"
    using D mset_remove_retired [of "ef_retire s" "qs_active ?q"] by (simp add: decode_books_def)
  then have "books fl X F G (ids @ map fst (ef_finishes s) @ H)
      (?q\<lparr>qs_active := remove_retired (ef_retire s) (qs_active ?q)\<rparr>) (ru_ledger (ef_run s))"
    by (intro books_move [OF b]) (simp_all add: live_view_def running_ids_active F)
  then show ?thesis using c by (simp add: pending_books_def on_sched_def)
qed

lemma pending_loop_ok:
  assumes "executor_ok E fl" and "pending_books fl X F G H (map pending_effect_id es) s"
  shows "succeeds (fold_res (apply_pending E env) es s) (pending_books fl X F G H [])"
  using assms(2)
  by (rule succeeds_fold [where I = "\<lambda>es. pending_books fl X F G H (map pending_effect_id es)", simplified])
    (simp add: apply_pending_ok [OF assms(1)])

lemma finish_loop_ok:
  assumes P: "pending_books fl X F G H [] s"
  shows "succeeds (fold_res (apply_finish w) (ef_finishes s)
      (on_sched (\<lambda>q. q\<lparr>qs_prefilling := ef_continued s @ qs_prefilling q\<rparr>) (ef_run s)))
    (\<lambda>r'. books fl X F G H (ru_sched r') (ru_ledger r'))"
proof -
  let ?q = "ru_sched (ef_run s)"
  let ?r = "on_sched (\<lambda>q. q\<lparr>qs_prefilling := ef_continued s @ qs_prefilling q\<rparr>) (ef_run s)"
  have b: "books fl X F G (map fst (ef_finishes s) @ map pr_id (ef_continued s) @ H) ?q
      (ru_ledger (ef_run s))"
    using P by (simp add: pending_books_def)
  then have "fl (qs_executor ?q) = snd F" "qs_inflight ?q = fst F" "inflight_matches F"
    by (simp_all add: books_def)
  then have "books fl X F G (map fst (ef_finishes s) @ H)
      (?q\<lparr>qs_prefilling := ef_continued s @ qs_prefilling ?q\<rparr>) (ru_ledger (ef_run s))"
    by (intro books_move [OF b]) (simp_all add: running_ids_def)
  then have "books fl X F G (map fst (ef_finishes s) @ H) (ru_sched ?r) (ru_ledger ?r)"
    by (simp add: on_sched_def)
  then show ?thesis
    by (rule succeeds_fold [where I = "\<lambda>fs t. books fl X F G (map fst fs @ H) (ru_sched t) (ru_ledger t)",
          simplified])
      (auto intro: apply_finish_ok)
qed

lemma apply_effects_ok:
  fixes r :: "'x run_state"
  assumes E: "executor_ok E fl"
    and b: "books fl X F G (map pending_effect_id (se_pending eff) @ H) (ru_sched r) (ru_ledger r)"
    and d: "distinct (map decode_effect_id (se_decode eff))"
      "set (map decode_effect_id (se_decode eff)) \<subseteq> set (map ar_id (qs_active (ru_sched r)))"
  shows "succeeds (apply_effects E env eff r) (\<lambda>r'. books fl X F G H (ru_sched r') (ru_ledger r'))"
proof -
  let ?H = "map pending_effect_id (se_pending eff) @ H"
  let ?Q = "\<lambda>t. ru_sched t = ru_sched r \<and> books fl X F G ?H (ru_sched r) (ru_ledger t)"
  have cached: "succeeds (fold_res apply_cached (se_cached eff) r) ?Q"
    by (rule facts_loop_ok) (use b in \<open>auto intro: apply_cached_ok\<close>)
  have echo: "succeeds (fold_res apply_echo (se_prompt_echoes eff) r1) ?Q" if "?Q r1" for r1
    by (rule facts_loop_ok) (use that in \<open>auto intro: apply_echo_ok\<close>)
  have decode: "succeeds (fold_res (apply_decode E env) (se_decode eff) (effects_start r2))
      (decode_books fl X F G ?H [])" if "?Q r2" for r2
    using that d by (intro decode_loop_ok [OF E]) auto
  have pending: "succeeds (fold_res (apply_pending E env) (se_pending eff) (drop_retired s1))
      (pending_books fl X F G H [])" if "decode_books fl X F G ?H [] s1" for s1
    by (rule pending_loop_ok [OF E drop_retired_ok [OF that]])
  show ?thesis
    unfolding apply_effects_def Let_def succeeds_bind
    by (rule succeeds_mono [OF cached], rule succeeds_mono [OF echo], assumption,
        rule succeeds_mono [OF decode], assumption, rule succeeds_mono [OF pending], assumption,
        rule finish_loop_ok, assumption)
qed

section \<open>Results of an executor that keeps its contract resolve\<close>

lemma sorted_ids_align:
  fixes f :: "'a \<Rightarrow> request_id" and g :: "'b \<Rightarrow> request_id"
  assumes "mset (map f xs) = mset (map g ys)" and "sorted (map g ys)"
  shows "map f (sort_key f xs) = map g ys"
proof -
  have "sort (map g ys) = map f (sort_key f xs)"
    by (rule properties_for_sort) (use assms(1) in simp_all)
  then show ?thesis using assms(2) by (simp add: sorted_sort_id)
qed

lemma resolve_prefill_pending:
  "map pending_effect_id (se_pending (resolve_prefill stop r q eff)) =
     map pending_effect_id (se_pending eff) @ [pr_id r]"
  "se_decode (resolve_prefill stop r q eff) = se_decode eff"
  by (auto simp: resolve_prefill_def Let_def promote_state_def)

lemma resolve_prefill_outputs_ok:
  "map pr_id rs = map pq_id qs \<Longrightarrow>
    \<exists>eff'. resolve_prefill_outputs stop rs qs eff = Some eff' \<and> se_decode eff' = se_decode eff \<and>
      map pending_effect_id (se_pending eff') = map pending_effect_id (se_pending eff) @ map pr_id rs"
proof (induction rs arbitrary: qs eff)
  case (Cons r rs)
  then obtain q qs' where "qs = q # qs'" "pr_id r = pq_id q" "map pr_id rs = map pq_id qs'"
    by (cases qs) auto
  with Cons.IH [of qs' "resolve_prefill stop r q eff"] show ?case
    by (auto simp: resolve_prefill_pending)
qed (cases qs; simp)

lemma resolve_span_id: "decode_effect_id (resolve_span stop r i ts emitted n) = i"
  by (induction ts arbitrary: emitted n) auto

lemma resolve_decode_outputs_ok:
  "set (map dr_id ds) \<subseteq> set (map ar_id active) \<Longrightarrow>
    \<exists>es. resolve_decode_outputs stop active ds = Some es \<and> map decode_effect_id es = map dr_id ds"
proof (induction ds)
  case (Cons d ds)
  then have "find_active (dr_id d) active \<noteq> None" by (auto simp: find_active_def find_None_iff)
  with Cons show ?case by (auto simp: resolve_decode_def Let_def)
qed simp

lemma resolve_speculative_outputs_ok:
  "set (map vr_id vs) \<subseteq> set (map ar_id active) \<Longrightarrow>
    \<exists>es. resolve_speculative_outputs stop active vs = Some es \<and> map decode_effect_id es = map vr_id vs"
proof (induction vs)
  case (Cons v vs)
  then have "find_active (vr_id v) active \<noteq> None" by (auto simp: find_active_def find_None_iff)
  with Cons show ?case by (auto simp: resolve_span_id)
qed simp

lemma verify_items_ok:
  "set (map dfr_id ds) \<subseteq> set (map ar_id active) \<Longrightarrow>
    \<exists>vs. build_speculative_verify_items active ds = Some vs \<and> map vi_id vs = map dfr_id ds"
proof (induction ds)
  case (Cons d ds)
  then have "find_active (dfr_id d) active \<noteq> None" by (auto simp: find_active_def find_None_iff)
  with Cons show ?case by auto
qed simp

text \<open>
  What executing and resolving a plan gives: an error, or effects on exactly the requests
  the plan touches (with decode overlap, the prefill half comes later).
\<close>

definition plan_overlaps :: "'x executor \<Rightarrow> 'x \<Rightarrow> execution_plan \<Rightarrow> bool" where
  "plan_overlaps E x plan \<longleftrightarrow> (\<exists>ps. plan = PlanUnified ps) \<and> ex_has_decode_overlap E x"

definition effects_fit :: "execution_plan \<Rightarrow> bool \<Rightarrow> active_request list \<Rightarrow> step_effects \<Rightarrow> bool" where
  "effects_fit plan overlap active eff \<longleftrightarrow>
     map pending_effect_id (se_pending eff) = (if overlap then [] else map pr_id (plan_pending plan)) \<and>
     distinct (map decode_effect_id (se_decode eff)) \<and>
     set (map decode_effect_id (se_decode eff)) \<subseteq> set (map ar_id active)"

lemma mset_ids_distinct:
  assumes "mset (map f xs) = mset (map g ys)" and "distinct (map g ys)"
  shows "distinct (map f xs)" and "set (map f xs) = set (map g ys)"
  using assms by (metis mset_eq_imp_distinct_iff, metis set_mset_mset)

lemma execute_prefill_fits:
  assumes E: "executor_ok E fl" and s: "sorted (map pr_id ps)" and "plan = PlanPrefill ps"
    and x: "execute_plan E draw active plan n x = (ExecOk art, n', x')"
  shows "\<exists>eff. resolve_step stop active art = Some eff \<and> effects_fit plan False active eff"
proof -
  obtain r where r: "ex_execute_prefill E \<lparr>pp_requests = build_prefill_items ps,
        pp_echo = list_ex pr_echo ps, pp_sample_seed = draw n\<rparr> x = (Inr r, x')"
      and art: "art = ArtPrefill ps (r\<lparr>prr_requests := sort_key pq_id (prr_requests r)\<rparr>)"
    using x assms(3) by (auto split: prod.splits sum.splits)
  have "mset (map pq_id (prr_requests r)) = mset (map pr_id ps)"
    using executor_okD(1) [OF E r] by (simp add: build_prefill_items_def comp_def)
  then have "map pr_id ps = map pq_id (sort_key pq_id (prr_requests r))"
    using sorted_ids_align s by metis
  from resolve_prefill_outputs_ok [OF this, of stop empty_effects] show ?thesis
    by (auto simp: art assms(3) effects_fit_def empty_effects_def)
qed

lemma aligned_ids:
  "map f es = map g (sort_key h ys) \<Longrightarrow> g ` set ys = A \<Longrightarrow> x \<in> set es \<Longrightarrow> f x \<in> A"
  by (metis imageI set_map set_sort)

lemma execute_decode_fits:
  assumes E: "executor_ok E fl" and d: "distinct (map ar_id active)"
    and x: "execute_plan E draw active PlanDecode n x = (ExecOk art, n', x')"
  shows "fl x' = fl x \<and> (\<exists>eff. resolve_step stop active art = Some eff \<and> effects_fit PlanDecode False active eff)"
proof -
  let ?p = "\<lparr>dp_requests = build_decode_items active, dp_sample_seed = draw n\<rparr>"
  obtain rs where r: "ex_execute_decode E ?p x = (Inr rs, x')" and art: "art = ArtDecode (sort_key dr_id rs)"
    using x by (auto split: prod.splits sum.splits)
  have "mset (map dr_id (sort_key dr_id rs)) = mset (map ar_id active)"
    using executor_okD(2) [OF E r] by (simp add: build_decode_items_def comp_def)
  note ids = mset_ids_distinct [OF this d]
  moreover have "fl x' = fl x" using executor_ok_fl(2) [OF E, of ?p x] r by simp
  ultimately show ?thesis
    using resolve_decode_outputs_ok [of "sort_key dr_id rs" active stop]
    by (auto simp: art effects_fit_def empty_effects_def intro: aligned_ids)
qed

lemma execute_speculative_fits:
  assumes E: "executor_ok E fl" and d: "distinct (map ar_id active)"
    and x: "execute_plan E draw active PlanSpeculative n x = (out, n', x')"
  shows "fl x' = fl x \<and> (case out of ExecPanic m \<Rightarrow> False | ExecErr e \<Rightarrow> True
     | ExecOk art \<Rightarrow> \<exists>eff. resolve_step stop active art = Some eff \<and> effects_fit PlanSpeculative False active eff)"
proof -
  let ?ds = "build_speculative_draft_items active"
  obtain res x1 where dr: "ex_execute_draft E ?ds x = (res, x1)" by fastforce
  have f1: "fl x1 = fl x" using executor_ok_fl(3) [OF E, of ?ds x] dr by simp
  show ?thesis
  proof (cases res)
    case (Inl e)
    then show ?thesis using x dr f1 by auto
  next
    case (Inr drafts)
    have "mset (map dfr_id (sort_key dfr_id drafts)) = mset (map ar_id active)"
      using executor_okD(3) [OF E dr [unfolded Inr]]
      by (simp add: build_speculative_draft_items_def comp_def)
    note dids = mset_ids_distinct [OF this d]
    obtain vs where vs: "build_speculative_verify_items active (sort_key dfr_id drafts) = Some vs"
        "map vi_id vs = map dfr_id (sort_key dfr_id drafts)"
      using verify_items_ok [of "sort_key dfr_id drafts" active] dids(2) by auto
    obtain res2 x2 where v: "ex_execute_verify E vs (draw n) x1 = (res2, x2)" by fastforce
    have f2: "fl x2 = fl x" using executor_ok_fl(4) [OF E, of vs "draw n" x1] v f1 by simp
    show ?thesis
    proof (cases res2)
      case (Inl e)
      then show ?thesis using x dr Inr vs v f2 by auto
    next
      case (Inr rs)
      have "mset (map vr_id (sort_key vr_id rs)) = mset (map vi_id vs)"
        using executor_okD(4) [OF E v [unfolded Inr]] by simp
      note vids = mset_ids_distinct [OF this]
      then have "distinct (map vr_id (sort_key vr_id rs))"
          "set (map vr_id (sort_key vr_id rs)) = set (map ar_id active)"
        using dids by (simp_all only: vs(2))
      then show ?thesis
        using x dr \<open>res = Inr drafts\<close> vs(1) v Inr f2 resolve_speculative_outputs_ok [of "sort_key vr_id rs" active stop]
        by (auto simp: effects_fit_def empty_effects_def intro: aligned_ids)
    qed
  qed
qed

lemma execute_unified_fits:
  assumes E: "executor_ok E fl" and d: "distinct (map ar_id active)" and s: "sorted (map pr_id ps)"
    and x: "execute_plan E draw active (PlanUnified ps) n x = (ExecOk art, n', x')"
  shows "(ex_has_decode_overlap E x \<longrightarrow> fl x' = map pr_id ps) \<and>
    (\<exists>eff. resolve_step stop active art = Some eff \<and>
       effects_fit (PlanUnified ps) (ex_has_decode_overlap E x) active eff)"
proof -
  let ?p = "\<lparr>up_prefill_requests = build_prefill_items ps, up_decode_requests = build_decode_items active,
      up_sample_seed = draw n\<rparr>"
  obtain r where r: "ex_execute_unified E ?p x = (Inr r, x')"
      and art: "art = ArtUnified ps \<lparr>ur_prefill_requests = sort_key pq_id (ur_prefill_requests r),
              ur_decode_requests = sort_key dr_id (ur_decode_requests r)\<rparr>"
    using x by (auto split: prod.splits sum.splits)
  have "mset (map dr_id (sort_key dr_id (ur_decode_requests r))) = mset (map ar_id active)"
    using executor_okD(5) [OF E r] by (simp add: build_decode_items_def comp_def)
  note ids = mset_ids_distinct [OF this d]
  then obtain es where es: "resolve_decode_outputs stop active (sort_key dr_id (ur_decode_requests r)) = Some es"
      "map decode_effect_id es = map dr_id (sort_key dr_id (ur_decode_requests r))"
    using resolve_decode_outputs_ok [of "sort_key dr_id (ur_decode_requests r)" active stop] by auto
  show ?thesis
  proof (cases "ex_has_decode_overlap E x")
    case True
    then show ?thesis
      using executor_okD(6) [OF E r True] es ids
      by (auto simp: art effects_fit_def empty_effects_def build_prefill_items_def comp_def
          intro: aligned_ids)
  next
    case False
    have "mset (map pq_id (ur_prefill_requests r)) = mset (map pr_id ps)"
      using executor_okD(7) [OF E r False] by (simp add: build_prefill_items_def comp_def)
    then have "map pr_id ps = map pq_id (sort_key pq_id (ur_prefill_requests r))"
      using sorted_ids_align s by metis
    from resolve_prefill_outputs_ok [OF this, of stop empty_effects] show ?thesis
      using False es ids by (auto simp: art effects_fit_def empty_effects_def intro: aligned_ids)
  qed
qed

fun plan_prefills :: "execution_plan \<Rightarrow> bool" where
  "plan_prefills (PlanPrefill ps) = True"
| "plan_prefills (PlanUnified ps) = True"
| "plan_prefills _ = False"

definition plan_result_ok ::
  "'x executor \<Rightarrow> ('x \<Rightarrow> request_id list) \<Rightarrow> execution_plan \<Rightarrow> active_request list \<Rightarrow> (token \<Rightarrow> bool) \<Rightarrow>
   'x \<Rightarrow> artifacts exec_outcome \<Rightarrow> 'x \<Rightarrow> bool"
where
  "plan_result_ok E fl plan active stop x out x' \<longleftrightarrow>
     (\<not> plan_prefills plan \<longrightarrow> fl x' = fl x) \<and>
     (case out of
        ExecPanic m \<Rightarrow> False
      | ExecErr e \<Rightarrow> True
      | ExecOk art \<Rightarrow>
          (plan_overlaps E x plan \<longrightarrow> fl x' = map pr_id (plan_pending plan)) \<and>
          (\<exists>eff. resolve_step stop active art = Some eff \<and>
             effects_fit plan (plan_overlaps E x plan) active eff))"

lemma execute_plan_ok:
  assumes E: "executor_ok E fl" and d: "distinct (map ar_id active)"
    and s: "sorted (map pr_id (plan_pending plan))"
    and x: "execute_plan E draw active plan n x = (out, n', x')"
  shows "plan_result_ok E fl plan active stop x out x'"
proof (cases plan)
  case (PlanPrefill ps)
  then show ?thesis using s x execute_prefill_fits [OF E _ PlanPrefill, of draw active n x]
    by (auto simp: plan_result_ok_def plan_overlaps_def split: prod.splits sum.splits exec_outcome.splits
        simp del: resolve_step.simps)
next
  case PlanDecode
  then have "fl x' = fl x"
    using x executor_ok_fl(2) [OF E, of "\<lparr>dp_requests = build_decode_items active, dp_sample_seed = draw n\<rparr>" x]
    by (auto split: prod.splits sum.splits)
  moreover have "out = ExecPanic m \<Longrightarrow> False" for m
    using x PlanDecode by (auto split: prod.splits sum.splits)
  ultimately show ?thesis
    using PlanDecode x execute_decode_fits [OF E d, of draw n x _ n' x' stop]
    by (auto simp: plan_result_ok_def plan_overlaps_def split: exec_outcome.splits
        simp del: resolve_step.simps execute_plan.simps)
next
  case PlanSpeculative
  then show ?thesis
    using execute_speculative_fits [OF E d, of draw n x out n' x' stop] x
    by (auto simp: plan_result_ok_def plan_overlaps_def split: exec_outcome.splits
        simp del: resolve_step.simps execute_plan.simps)
next
  case (PlanUnified ps)
  moreover have "out = ExecPanic m \<Longrightarrow> False" for m
    using x PlanUnified by (auto split: prod.splits sum.splits)
  ultimately show ?thesis
    using execute_unified_fits [OF E d, of ps draw n x _ n' x' stop] x s
    by (auto simp: plan_result_ok_def plan_overlaps_def split: exec_outcome.splits
        simp del: resolve_step.simps execute_plan.simps)
qed

section \<open>A failed batch\<close>

lemma fail_touched_request_ok:
  fixes r :: "'x run_state"
  assumes E: "executor_ok E fl"
    and b: "books fl X F G (i # H) ((ru_sched r)\<lparr>qs_active := []\<rparr>) (ru_ledger r)"
  shows "succeeds (fail_touched_request E m i r)
    (\<lambda>r'. books fl X F G H ((ru_sched r')\<lparr>qs_active := []\<rparr>) (ru_ledger r'))"
proof -
  have "is_active i (ru_ledger r)" using books_running [OF b, of i] by (simp add: lstat_active)
  moreover have "succeeds (do_op (OpFail i m) r) (\<lambda>r'. ru_sched r' = ru_sched r \<and>
      books fl X F G H ((ru_sched r)\<lparr>qs_active := []\<rparr>) (ru_ledger r'))"
    using op_close_ok [of fl X F G "OpFail i m" H _ r] b by simp
  moreover have "(drop_request E i (untrack i q))\<lparr>qs_active := []\<rparr> =
      drop_request E i (untrack i (q\<lparr>qs_active := []\<rparr>))" for q
    by (simp add: drop_request_def untrack_def)
  ultimately show ?thesis
    by (auto simp: fail_touched_request_def succeeds_bind release_request_def on_sched_def
        books_release [OF E] elim!: succeeds_mono)
qed

lemma books_lose: "books fl X F G H q L \<Longrightarrow> books fl (X \<union> set H) F G [] q L"
  by (auto simp: books_def tracked_stat_def)

text \<open>The active requests a failed plan forgets: those of a step that only prefilled.\<close>

fun plan_forgets :: "execution_plan \<Rightarrow> active_request list \<Rightarrow> request_id list" where
  "plan_forgets (PlanPrefill ps) active = map ar_id active"
| "plan_forgets _ active = []"

lemma failure_targets_mset:
  "mset (failure_target_ids active plan @ plan_forgets plan active) =
     mset (map pr_id (plan_pending plan) @ map ar_id active)"
  by (cases plan) auto

lemma fail_touched_requests_ok:
  fixes r :: "'x run_state"
  assumes E: "executor_ok E fl"
    and b: "books fl X F [] (map pr_id (plan_pending plan)) (ru_sched r) (ru_ledger r)"
  shows "succeeds (fail_touched_requests E (failure_target_ids (qs_active (ru_sched r)) plan) m r)
    (\<lambda>r'. books fl (X \<union> set (plan_forgets plan (qs_active (ru_sched r)))) F [] [] (ru_sched r') (ru_ledger r'))"
proof -
  let ?q = "ru_sched r" and ?T = "failure_target_ids (qs_active (ru_sched r)) plan"
  let ?Z = "plan_forgets plan (qs_active (ru_sched r))"
  have F: "fl (qs_executor ?q) = snd F" "qs_inflight ?q = fst F" "inflight_matches F"
    using b by (simp_all add: books_def)
  have "mset (running_ids (?q\<lparr>qs_active := []\<rparr>) @ ?T @ ?Z) =
      mset (running_ids ?q @ map pr_id (plan_pending plan))"
    using failure_targets_mset [of "qs_active ?q" plan] running_ids_active [of "qs_active ?q" ?q]
    by (simp add: running_ids_active)
  then have "books fl X F [] (?T @ ?Z) (?q\<lparr>qs_active := []\<rparr>) (ru_ledger r)"
    by (intro books_move [OF b]) (simp_all add: F)
  then have "succeeds (fold_res (fail_touched_request E m) ?T r)
      (\<lambda>r'. books fl X F [] ?Z ((ru_sched r')\<lparr>qs_active := []\<rparr>) (ru_ledger r'))"
    by (rule succeeds_fold [where I = "\<lambda>ids r'. books fl X F [] (ids @ ?Z)
          ((ru_sched r')\<lparr>qs_active := []\<rparr>) (ru_ledger r')", simplified])
      (simp add: fail_touched_request_ok [OF E])
  then show ?thesis
    by (auto simp: fail_touched_requests_def succeeds_bind on_sched_def elim!: succeeds_mono
        dest: books_lose)
qed

section \<open>Executing a plan\<close>

definition books_at :: "('x \<Rightarrow> request_id list) \<Rightarrow> request_id set \<Rightarrow> 'x run_state \<Rightarrow> bool" where
  "books_at fl X r \<longleftrightarrow>
     books fl X (qs_inflight (ru_sched r), fl (qs_executor (ru_sched r))) [] [] (ru_sched r) (ru_ledger r)"

lemma books_atI: "books fl X F [] [] (ru_sched r) (ru_ledger r) \<Longrightarrow> books_at fl X r"
  unfolding books_at_def by (cases F) (simp add: books_def)

definition prefill_total :: "'x executor \<Rightarrow> bool" where
  "prefill_total E \<longleftrightarrow> (\<forall>p x. \<exists>r. fst (ex_execute_prefill E p x) = Inr r)"

text \<open>After a step: nothing more is lost, or the executor's prefill can fail.\<close>

definition books_after :: "'x executor \<Rightarrow> ('x \<Rightarrow> request_id list) \<Rightarrow> request_id set \<Rightarrow> 'x run_state \<Rightarrow> bool" where
  "books_after E fl X r \<longleftrightarrow> (\<exists>Y. (prefill_total E \<longrightarrow> Y = {}) \<and> books_at fl (X \<union> Y) r)"

lemma books_after_same: "books fl X F [] [] (ru_sched r) (ru_ledger r) \<Longrightarrow> books_after E fl X r"
  unfolding books_after_def by (rule exI [of _ "{}"]) (auto intro: books_atI)

lemma prefill_total_err:
  "prefill_total E \<Longrightarrow> execute_plan E draw active (PlanPrefill ps) n x \<noteq> (ExecErr e, n', x')"
  by (auto simp: prefill_total_def split: prod.splits sum.splits) (metis fst_conv sum.distinct(1))

lemma step_execute_effects_ok:
  fixes r :: "'x run_state"
  assumes E: "executor_ok E fl" and fit: "effects_fit plan overlap (qs_active (ru_sched r)) eff"
    and b: "books fl X F [] (map pr_id (plan_pending plan)) (ru_sched r) (ru_ledger r)"
    and f: "overlap \<Longrightarrow> snd F = map pr_id (plan_pending plan) \<and> fst F = None"
  shows "succeeds (apply_effects E env eff r)
    (\<lambda>r'. books_after E fl X (if overlap then on_sched (\<lambda>q. q\<lparr>qs_inflight := Some (plan_pending plan)\<rparr>) r' else r'))"
proof (cases overlap)
  case True
  have "succeeds (apply_effects E env eff r)
      (\<lambda>r'. books fl X F [] (map pr_id (plan_pending plan)) (ru_sched r') (ru_ledger r'))"
    using fit b True by (intro apply_effects_ok [OF E]) (auto simp: effects_fit_def)
  then show ?thesis
  proof (rule succeeds_mono)
    fix r' :: "'x run_state"
    let ?q = "(ru_sched r')\<lparr>qs_inflight := Some (plan_pending plan)\<rparr>"
    assume b': "books fl X F [] (map pr_id (plan_pending plan)) (ru_sched r') (ru_ledger r')"
    have "books fl X (Some (plan_pending plan), map pr_id (plan_pending plan)) [] [] ?q (ru_ledger r')"
      by (rule books_move [OF b'])
        (use b' f True in \<open>auto simp: books_def inflight_matches_def running_ids_def inflight_ids_def\<close>)
    then show "books_after E fl X (if overlap then on_sched (\<lambda>q. q\<lparr>qs_inflight := Some (plan_pending plan)\<rparr>) r' else r')"
      using True by (auto simp: on_sched_def intro: books_after_same)
  qed
next
  case False
  then have "succeeds (apply_effects E env eff r) (\<lambda>r'. books fl X F [] [] (ru_sched r') (ru_ledger r'))"
    using fit b by (intro apply_effects_ok [OF E]) (auto simp: effects_fit_def)
  then show ?thesis using False by (auto elim!: succeeds_mono intro: books_after_same)
qed

lemma step_execute_ok:
  fixes r :: "'x run_state"
  assumes E: "executor_ok E fl" and s: "sorted (map pr_id (plan_pending plan))"
    and b: "books fl X F [] (map pr_id (plan_pending plan)) (ru_sched r) (ru_ledger r)"
    and free: "plan_prefills plan \<Longrightarrow> qs_inflight (ru_sched r) = None"
  shows "succeeds (step_execute E env plan r) (books_after E fl X)"
proof -
  let ?q = "ru_sched r"
  obtain out n x where x: "execute_plan E (en_draw env) (qs_active ?q) plan (qs_rng ?q) (qs_executor ?q) =
      (out, n, x)" by (metis prod_cases3)
  define r1 where "r1 = on_sched (\<lambda>q. q\<lparr>qs_executor := x, qs_rng := n\<rparr>) r"
  define F1 where "F1 = (fst F, fl x)"
  have q1: "qs_active (ru_sched r1) = qs_active ?q" by (simp add: r1_def on_sched_def)
  have dist: "distinct (map ar_id (qs_active ?q))" using b by (simp add: books_def running_ids_def)
  have fit: "plan_result_ok E fl plan (qs_active ?q) (ex_is_stop_token E x) (qs_executor ?q) out x"
    by (rule execute_plan_ok [OF E dist s x])
  have F: "fl (qs_executor ?q) = snd F" "qs_inflight ?q = fst F" "inflight_matches F"
    using b by (simp_all add: books_def)
  have "inflight_matches F1"
    using F fit free by (cases "plan_prefills plan") (auto simp: F1_def plan_result_ok_def inflight_matches_def)
  then have b1: "books fl X F1 [] (map pr_id (plan_pending plan)) (ru_sched r1) (ru_ledger r1)"
    unfolding r1_def on_sched_def by (simp, intro books_move [OF b]) (simp_all add: F F1_def)
  show ?thesis
  proof (cases out)
    case (ExecPanic m)
    then show ?thesis using fit by (simp add: plan_result_ok_def)
  next
    case (ExecErr e)
    have "prefill_total E \<Longrightarrow> set (plan_forgets plan (qs_active ?q)) = {}"
      using x ExecErr by (cases plan) (auto dest: prefill_total_err simp del: execute_plan.simps)
    with fail_touched_requests_ok [OF E b1, of e] q1 show ?thesis
      by (auto simp: step_execute_def x ExecErr r1_def [symmetric] books_after_def
          elim!: succeeds_mono intro!: exI [of _ "set (plan_forgets plan (qs_active ?q))"] intro: books_atI)
  next
    case (ExecOk art)
    define ov where "ov = plan_overlaps E (qs_executor ?q) plan"
    obtain eff where eff: "resolve_step (ex_is_stop_token E x) (qs_active ?q) art = Some eff"
        "effects_fit plan ov (qs_active (ru_sched r1)) eff" and fl: "ov \<Longrightarrow> fl x = map pr_id (plan_pending plan)"
      using fit ExecOk q1 by (auto simp: plan_result_ok_def ov_def)
    have "ov \<Longrightarrow> qs_inflight ?q = None" using free by (auto simp: ov_def plan_overlaps_def)
    moreover from this have "(case plan of
             PlanUnified pending \<Rightarrow>
               if ex_has_decode_overlap E (qs_executor ?q) \<and> qs_inflight ?q = None
               then Some pending else None
           | _ \<Rightarrow> None) = (if ov then Some (plan_pending plan) else None)"
      by (auto simp: ov_def plan_overlaps_def split: execution_plan.splits)
    ultimately show ?thesis
      using step_execute_effects_ok [OF E eff(2) b1, of env] F fl
      by (auto simp: step_execute_def x ExecOk eff(1) succeeds_bind r1_def [symmetric] F1_def
          elim!: succeeds_mono)
  qed
qed

end
