(* ===== verification/Qwen3_Progress.thy ===== *)
theory Qwen3_Progress
  imports Qwen3_Books
begin

text \<open>
  Every part of a Qwen3 step keeps the books of \<open>Qwen3_Books\<close>, so a scheduler that is
  driven by the engine loop from its creation never panics, and as long as dedicated prefill
  steps succeed every open account is in exactly one of its queues. A dedicated prefill
  step that fails drops the active requests instead: their accounts stay open.
\<close>

section \<open>Polling, prefetch and control\<close>

lemma step_poll_ok:
  fixes r :: "'x run_state"
  assumes E: "executor_ok E fl" and b: "books_at fl X r"
  shows "succeeds (step_poll_prefill E env r) (books_at fl X)"
proof (cases "qs_inflight (ru_sched r)")
  case None
  then show ?thesis using b by (simp add: step_poll_prefill_def)
next
  case (Some ps)
  let ?q = "ru_sched r"
  obtain res x where x: "ex_poll_async_prefill E (qs_executor ?q) = (res, x)" by fastforce
  have b': "books fl X (Some ps, fl (qs_executor ?q)) [] [] ?q (ru_ledger r)"
    using b Some by (simp add: books_at_def)
  then have ids: "map pr_id ps = fl (qs_executor ?q)" by (simp add: books_def inflight_matches_def)
  show ?thesis
  proof (cases res)
    case None
    then have "fl x = fl (qs_executor ?q)" using executor_okD(9) [OF E] x by simp
    then have "books fl X (Some ps, fl x) [] [] (?q\<lparr>qs_executor := x\<rparr>) (ru_ledger r)"
      by (intro books_move [OF b']) (use Some ids in \<open>auto simp: inflight_matches_def\<close>)
    then show ?thesis
      using Some x None by (auto simp: step_poll_prefill_def on_sched_def intro: books_atI)
  next
    fix result assume res: "res = Some result"
    let ?q1 = "?q\<lparr>qs_executor := x, qs_inflight := None\<rparr>"
    let ?r1 = "on_sched (\<lambda>q. q\<lparr>qs_executor := x, qs_inflight := None\<rparr>) r"
    have "map pr_id ps = map pq_id (prr_requests result)"
      using executor_okD(8) [OF E, of "qs_executor ?q" result x] x res ids by simp
    then obtain eff where eff: "resolve_step (ex_is_stop_token E x) (qs_active ?q) (ArtPrefill ps result) = Some eff"
        "se_decode eff = []" "map pending_effect_id (se_pending eff) = map pr_id ps"
      using resolve_prefill_outputs_ok [of ps "prr_requests result" _ empty_effects]
      by (fastforce simp: empty_effects_def)
    have "books fl X (None, fl x) [] (map pr_id ps) ?q1 (ru_ledger r)"
      by (rule books_move [OF b'])
        (use Some in \<open>auto simp: inflight_matches_def running_ids_def inflight_ids_def\<close>)
    then have "succeeds (apply_effects E env eff ?r1)
        (\<lambda>r'. books fl X (None, fl x) [] [] (ru_sched r') (ru_ledger r'))"
      using eff by (intro apply_effects_ok [OF E]) (auto simp: on_sched_def)
    then show ?thesis
      using Some x res eff(1)
      by (auto simp: step_poll_prefill_def elim!: succeeds_mono intro: books_atI simp del: resolve_step.simps)
  qed
qed

lemma books_requeue:
  assumes "books fl X F G H q L" and "mset (queued_ids q') = mset (queued_ids q)"
    and "running_ids q' = running_ids q" and "fl (qs_executor q') = fl (qs_executor q)"
    and "qs_inflight q' = qs_inflight q"
  shows "books fl X F G H q' L"
  by (rule books_move [OF assms(1)]) (use assms in \<open>auto simp: books_def\<close>)

lemma mset_remove_nth: "k < length xs \<Longrightarrow> add_mset (xs ! k) (mset (remove_nth k xs)) = mset xs"
  by (subst (3) id_take_nth_drop [of k xs]) (auto simp: remove_nth_def)

lemma promote_ready_mset:
  "promote_ready ready d l = (d', l') \<Longrightarrow> mset d' + mset l' = mset d + mset l"
proof (induction ready d l arbitrary: d' l' rule: promote_ready.induct)
  case (2 i ready d l)
  show ?case
  proof (cases "find_position (\<lambda>p. pr_id p = i) l")
    case None
    then show ?thesis using 2 by simp
  next
    case (Some pos)
    then have "pos < length l" by (auto dest: find_position_Some)
    then have "add_mset (l ! pos) (mset (remove_nth pos l)) = mset l" by (simp add: mset_remove_nth)
    then show ?thesis using 2 Some by (auto simp: add.commute)
  qed
qed simp

lemma offer_prefetch_mset:
  "offer_prefetch E n x d l k = (d', l', x') \<Longrightarrow>
    mset (map pr_id d') + mset (map pr_id l') = mset (map pr_id (k @ d @ l))"
  by (induction d arbitrary: x l k) (auto simp: Let_def split: if_splits prod.splits)

lemma offer_prefetch_fl:
  assumes "executor_ok E fl"
  shows "offer_prefetch E n x d l k = (d', l', x') \<Longrightarrow> fl x' = fl x"
proof (induction d arbitrary: x l k)
  case (Cons r d)
  have "fl x1 = fl x" if "ex_begin_kv_prefetch E (pr_id r) (pr_prompt_tokens r) (pr_lora_adapter r) n x = (b, x1)" for b x1
    using executor_ok_fl(6) [OF assms, of "pr_id r" "pr_prompt_tokens r" "pr_lora_adapter r" n x] that by simp
  with Cons show ?case by (auto simp: Let_def split: if_splits prod.splits) 
qed simp

lemma queued_ids_mset:
  "mset (queued_ids (q\<lparr>qs_deferred := d, qs_loading := l, qs_executor := x\<rparr>)) =
     mset (map pr_id d) + mset (map pr_id l) + mset (map pr_id (qs_post_control q))"
  by (simp add: queued_ids_def)

lemma step_prefetch_ok:
  assumes E: "executor_ok E fl" and b: "books fl X F [] [] q L"
  shows "books fl X F [] [] (step_prefetch E q) L"
proof -
  define n where "n = admitted_future_blocks E (qs_executor q) (qs_active q) (qs_prefilling q)"
  obtain ready x1 where dr: "ex_drain_ready_prefetch E n (qs_executor q) = (ready, x1)" by fastforce
  obtain d l where pr: "promote_ready ready (qs_deferred q) (qs_loading q) = (d, l)" by fastforce
  obtain d2 l2 x2 where of: "(if qs_pending_control q = [] then offer_prefetch E n x1 d l []
      else (d, l, x1)) = (d2, l2, x2)" by (metis prod_cases3)
  have "fl x2 = fl x1"
    using of offer_prefetch_fl [OF E] by (auto split: if_splits)
  moreover have "fl x1 = fl (qs_executor q)"
    using executor_ok_fl(7) [OF E, of n "qs_executor q"] dr by simp
  moreover have "mset (map pr_id d2) + mset (map pr_id l2) = mset (map pr_id d) + mset (map pr_id l)"
    using of offer_prefetch_mset [of E n x1 d l "[]" d2 l2 x2] by (auto split: if_splits)
  moreover have "mset (map pr_id d) + mset (map pr_id l) =
      mset (map pr_id (qs_deferred q)) + mset (map pr_id (qs_loading q))"
    using promote_ready_mset [OF pr] by (metis image_mset_union mset_map)
  ultimately have "books fl X F [] [] (q\<lparr>qs_deferred := d2, qs_loading := l2, qs_executor := x2\<rparr>) L"
    by (intro books_requeue [OF b]) (simp_all add: queued_ids_mset, simp add: queued_ids_def)
  then show ?thesis
    using dr pr of
    by (auto simp: step_prefetch_def reclaim_ready_prefetch_def n_def [symmetric] Let_def split: if_splits)
qed

lemma step_wait_ok:
  assumes E: "executor_ok E fl" and b: "books fl X F [] [] q L"
  shows "books fl X F [] [] (step_wait_loading E q) L"
proof -
  define n where "n = admitted_future_blocks E (qs_executor q) (qs_active q) (qs_prefilling q)"
  obtain ready x1 where wr: "ex_wait_ready_prefetch E n (qs_executor q) = (ready, x1)" by fastforce
  obtain d l where pr: "promote_ready ready (qs_deferred q) (qs_loading q) = (d, l)" by fastforce
  have "fl x1 = fl (qs_executor q)"
    using executor_ok_fl(8) [OF E, of n "qs_executor q"] wr by simp
  moreover have "mset (map pr_id d) + mset (map pr_id l) =
      mset (map pr_id (qs_deferred q)) + mset (map pr_id (qs_loading q))"
    using promote_ready_mset [OF pr] by (metis image_mset_union mset_map)
  ultimately have "books fl X F [] [] (q\<lparr>qs_deferred := d, qs_loading := l, qs_executor := x1\<rparr>) L"
    by (intro books_requeue [OF b]) (simp_all add: queued_ids_mset, simp add: queued_ids_def)
  then show ?thesis
    using wr pr b by (simp add: step_wait_loading_def block_on_loading_def n_def Let_def)
qed

lemma step_control_ok:
  assumes E: "executor_ok E fl" and b: "books fl X F [] [] q L"
  shows "books fl X F [] [] (step_control E q) L"
proof -
  have fl: "fl (fold (ex_lora_command E) cs x) = fl x" for cs x
    by (induction cs arbitrary: x) (simp_all add: executor_ok_fl(5) [OF E])
  have drained: "books fl X F [] [] (drain_idle_control E q) L"
    by (rule books_requeue [OF b]) (simp_all add: drain_idle_control_def fl)
  have released: "books fl X F [] [] (p\<lparr>qs_deferred := qs_deferred p @ qs_post_control p, qs_post_control := []\<rparr>) L"
    if "books fl X F [] [] p L" for p
    by (rule books_requeue [OF that]) (simp_all add: queued_ids_def)
  show ?thesis
    using b drained released by (simp add: step_control_def Let_def)
qed

section \<open>Admission\<close>

lemma books_deferred:
  assumes "books fl X F G H q L" and "mset (map pr_id d @ G') = mset (map pr_id (qs_deferred q) @ G)"
  shows "books fl X F G' H (q\<lparr>qs_deferred := d\<rparr>) L"
proof -
  have "mset (queued_ids (q\<lparr>qs_deferred := d\<rparr>) @ G') = mset (queued_ids q @ G)"
    using assms(2) by (simp add: queued_ids_def)
  then show ?thesis by (rule books_move [OF assms(1)]) (use assms(1) in \<open>auto simp: books_def\<close>)
qed

lemma reject_pending_ok:
  fixes r :: "'x run_state"
  assumes E: "executor_ok E fl" and b: "books fl X F (pr_id req # G) H (ru_sched r) (ru_ledger r)"
  shows "succeeds (reject_pending E req why r)
    (\<lambda>r'. books fl X F G H (ru_sched r') (ru_ledger r') \<and> qs_deferred (ru_sched r') = qs_deferred (ru_sched r))"
  using op_close_queued_ok [of fl X F "OpReject (pr_id req) why" G H "ru_sched r" r] b
  by (auto simp: reject_pending_def release_rejected_def succeeds_bind books_release [OF E]
      drop_request_def untrack_def elim!: succeeds_mono)
    (use books_release [OF E] in \<open>auto simp: drop_request_def untrack_def\<close>)

lemma reject_loop_ok:
  fixes r :: "'x run_state"
  assumes E: "executor_ok E fl"
    and f: "\<And>x t. P x \<Longrightarrow> f x t = reject_pending E (req x) (why x) t" and P: "\<forall>x \<in> set xs. P x"
    and b: "books fl X F (map (\<lambda>x. pr_id (req x)) xs @ G) H (ru_sched r) (ru_ledger r)"
  shows "succeeds (fold_res f xs r)
    (\<lambda>r'. books fl X F G H (ru_sched r') (ru_ledger r') \<and> qs_deferred (ru_sched r') = qs_deferred (ru_sched r))"
proof -
  let ?I = "\<lambda>xs t. books fl X F (map (\<lambda>x. pr_id (req x)) xs @ G) H (ru_sched t) (ru_ledger t) \<and>
      qs_deferred (ru_sched t) = qs_deferred (ru_sched r) \<and> (\<forall>x \<in> set xs. P x)"
  have "succeeds (fold_res f xs r) (?I [])"
  proof (rule succeeds_fold [where I = ?I])
    fix x xs and t :: "'x run_state"
    assume I: "?I (x # xs) t"
    then have "succeeds (reject_pending E (req x) (why x) t) (\<lambda>r'. books fl X F (map (\<lambda>x. pr_id (req x)) xs @ G) H
        (ru_sched r') (ru_ledger r') \<and> qs_deferred (ru_sched r') = qs_deferred (ru_sched t))"
      by (intro reject_pending_ok [OF E]) simp
    with I f show "succeeds (f x t) (?I xs)" by (auto elim!: succeeds_mono)
  qed (use b P in simp)
  then show ?thesis by (auto elim!: succeeds_mono)
qed

lemma admit_op_ok:
  fixes r :: "'x run_state"
  assumes b: "books fl X F (i # G) H q (ru_ledger r)"
  shows "succeeds (do_op (OpAdmit now i) r)
    (\<lambda>r'. ru_sched r' = ru_sched r \<and> books fl X F G (i # H) q (ru_ledger r'))"
proof -
  have "lstat (ru_ledger r) i = Some False" using books_queued [OF b] by simp
  then show ?thesis
    using do_op_ok [OF books_wf [OF b], of "OpAdmit now i"] books_admit [OF b]
    by (auto elim!: succeeds_mono)
qed

lemma books_enter_prefill:
  assumes "books fl X F G (pr_id req # H) q L"
  shows "books fl X F G H (q\<lparr>qs_prefilling := qs_prefilling q @ [req]\<rparr>) L"
  by (rule books_move [OF assms]) (use assms in \<open>auto simp: books_def running_ids_def\<close>)

lemma admit_pending_ok:
  fixes r :: "'x run_state"
  assumes E: "executor_ok E fl" and b: "books fl X F (pr_id req # G) H (ru_sched r) (ru_ledger r)"
  shows "succeeds (admit_pending E env req r) (\<lambda>r'. books fl X F G H (ru_sched r') (ru_ledger r'))"
proof -
  let ?i = "pr_id req" and ?q = "ru_sched r"
  let ?Q = "\<lambda>(admitted, r1). ru_sched r1 = (if admitted then ?q else drop_request E ?i (untrack ?i ?q)) \<and>
      books fl X F G (if admitted then ?i # H else H) ?q (ru_ledger r1)"
  have st: "lstat (ru_ledger r) ?i \<noteq> None" using books_queued [OF b, of ?i] by simp
  have retire: "succeeds (do_op (OpRetire ?i) t) (\<lambda>t'. ru_sched t' = ?q \<and> books fl X F G H ?q (ru_ledger t'))"
    if "ru_ledger t = ru_ledger r" "ru_sched t = ?q" for t :: "'x run_state"
    using op_close_queued_ok [of fl X F "OpRetire ?i" G H ?q t] b that by simp
  have admit: "succeeds (do_op (OpAdmit now ?i) t) (\<lambda>t'. ru_sched t' = ?q \<and> books fl X F G (?i # H) ?q (ru_ledger t'))"
    if "ru_ledger t = ru_ledger r" "ru_sched t = ?q" for t :: "'x run_state" and now
    using admit_op_ok [of fl X F ?i G H ?q t now] b that by simp
  have "succeeds (admit_or_retire E env req r) ?Q"
    unfolding admit_or_retire_def
    by (rule books_probe_cases [OF st])
      (auto simp: succeeds_bind release_rejected_def elim!: succeeds_mono
        intro!: succeeds_mono [OF retire] succeeds_mono [OF admit])
  then show ?thesis
    by (auto simp: admit_pending_def succeeds_bind on_sched_def books_release [OF E] books_enter_prefill
        elim!: succeeds_mono split: if_splits)
qed

lemma lora_partition:
  "mset (lv_rejected (reject_unknown_lora_requests d E x)) +
     mset (lv_accepted (reject_unknown_lora_requests d E x)) = mset d"
  by (simp add: reject_unknown_lora_requests_def Let_def)

lemma lora_rejected_named:
  "r \<in> set (lv_rejected (reject_unknown_lora_requests d E x)) \<Longrightarrow> pr_lora_adapter r \<noteq> None"
  by (auto simp: reject_unknown_lora_requests_def Let_def names_unknown_adapter_def split: if_splits option.splits)

lemma admission_partition:
  "mset (map (\<lambda>x. pr_id (fst x)) (ao_rejected (qs_admission E q d))) +
     mset (map pr_id (ao_pending (qs_admission E q d))) + mset (map pr_id (ao_deferred (qs_admission E q d))) =
     mset (map pr_id d)"
proof -
  let ?a = "qs_admission E q d"
  have "mset (ao_pending ?a) + mset (ao_deferred ?a) + mset (map fst (ao_rejected ?a)) = mset d"
    unfolding qs_admission_def admit_deferred_requests_def Let_def admit_loop_mset by simp
  from arg_cong [OF this, of "image_mset pr_id"] show ?thesis
    by (simp add: multiset.map_comp comp_def ac_simps)
qed

lemma admission_verdicts_ok:
  fixes r :: "'x run_state"
  assumes E: "executor_ok E fl"
    and b: "books fl X F (map pr_id accepted) [] (ru_sched r) (ru_ledger r)" and d: "qs_deferred (ru_sched r) = []"
  shows "succeeds (let adm = qs_admission E (ru_sched r) accepted in
      bind_res (fold_res (\<lambda>(req, why). reject_pending E req (contract_reject_reason req why)) (ao_rejected adm) r)
        (\<lambda>r2. fold_res (admit_pending E env) (ao_pending adm)
          (on_sched (\<lambda>q. q\<lparr>qs_deferred := ao_deferred adm\<rparr>) r2)))
      (\<lambda>r'. books fl X F [] [] (ru_sched r') (ru_ledger r'))"
proof -
  define adm where "adm = qs_admission E (ru_sched r) accepted"
  let ?rej = "map (\<lambda>x. pr_id (fst x)) (ao_rejected adm)" and ?pen = "map pr_id (ao_pending adm)"
  let ?def = "map pr_id (ao_deferred adm)"
  have "books fl X F (?rej @ ?pen @ ?def) [] (ru_sched r) (ru_ledger r)"
    using admission_partition [of E "ru_sched r" accepted]
    by (intro books_perm [OF b]) (simp_all add: adm_def [symmetric] ac_simps)
  then have reject: "succeeds (fold_res (\<lambda>(req, why). reject_pending E req (contract_reject_reason req why))
      (ao_rejected adm) r)
      (\<lambda>r2. books fl X F (?pen @ ?def) [] (ru_sched r2) (ru_ledger r2) \<and> qs_deferred (ru_sched r2) = qs_deferred (ru_sched r))"
    by (intro reject_loop_ok [OF E, where P = "\<lambda>_. True" and req = fst and
          why = "\<lambda>x. contract_reject_reason (fst x) (snd x)"]) (auto split: prod.splits)
  have admit: "succeeds (fold_res (admit_pending E env) (ao_pending adm) t)
      (\<lambda>r'. books fl X F [] [] (ru_sched r') (ru_ledger r'))"
    if "books fl X F ?pen [] (ru_sched t) (ru_ledger t)" for t :: "'x run_state"
    using that
    by (rule succeeds_fold [where I = "\<lambda>xs t. books fl X F (map pr_id xs) [] (ru_sched t) (ru_ledger t)", simplified])
      (auto intro: admit_pending_ok [OF E])
  have requeue: "books fl X F ?pen [] (ru_sched (on_sched (\<lambda>q. q\<lparr>qs_deferred := ao_deferred adm\<rparr>) t)) (ru_ledger t)"
    if "books fl X F (?pen @ ?def) [] (ru_sched t) (ru_ledger t)" "qs_deferred (ru_sched t) = []"
    for t :: "'x run_state"
    using books_deferred [OF that(1), of "ao_deferred adm" ?pen] that(2) by (simp add: on_sched_def)
  show ?thesis
    unfolding adm_def [symmetric] Let_def succeeds_bind
    by (rule succeeds_mono [OF reject], rule admit) (use requeue d in \<open>auto simp: on_sched_def\<close>)
qed

lemma step_admission_ok:
  fixes r :: "'x run_state"
  assumes E: "executor_ok E fl" and b: "books fl X F [] [] (ru_sched r) (ru_ledger r)"
  shows "succeeds (step_admission E env r) (\<lambda>r'. books fl X F [] [] (ru_sched r') (ru_ledger r'))"
proof -
  let ?q = "ru_sched r"
  define lv where "lv = reject_unknown_lora_requests (qs_deferred ?q) E (qs_executor ?q)"
  let ?r0 = "on_sched (\<lambda>q. q\<lparr>qs_deferred := []\<rparr>) r"
  have "mset (map pr_id (lv_rejected lv) @ map pr_id (lv_accepted lv)) = mset (map pr_id (qs_deferred ?q))"
    unfolding lv_def by (metis image_mset_union lora_partition mset_append mset_map)
  then have "books fl X F (map pr_id (lv_rejected lv) @ map pr_id (lv_accepted lv)) [] (ru_sched ?r0) (ru_ledger ?r0)"
    by (simp add: on_sched_def books_deferred [OF b])
  then have "succeeds (fold_res (reject_unknown_lora E) (lv_rejected lv) ?r0)
      (\<lambda>r'. books fl X F (map pr_id (lv_accepted lv)) [] (ru_sched r') (ru_ledger r') \<and>
        qs_deferred (ru_sched r') = qs_deferred (ru_sched ?r0))"
    by (intro reject_loop_ok [OF E, where P = "\<lambda>x. pr_lora_adapter x \<noteq> None" and req = "\<lambda>x. x" and
          why = "\<lambda>x. UnknownLoraAdapter (the (pr_lora_adapter x))"])
      (auto simp: reject_unknown_lora_def lv_def dest: lora_rejected_named)
  then have lora: "succeeds (fold_res (reject_unknown_lora E) (lv_rejected lv) ?r0)
      (\<lambda>r1. books fl X F (map pr_id (lv_accepted lv)) [] (ru_sched r1) (ru_ledger r1) \<and> qs_deferred (ru_sched r1) = [])"
    by (simp add: on_sched_def)
  show ?thesis
    unfolding step_admission_def Let_def [of "ru_sched r"] lv_def [symmetric] Let_def [of lv] succeeds_bind
    by (rule succeeds_mono [OF lora]) (use admission_verdicts_ok [OF E] in auto)
qed

section \<open>The whole step\<close>

lemma take_chunks_ids:
  assumes "take_prefill_chunks rs m loc = (rest, taken)"
  shows "mset (map pr_id rest) + mset (map pr_id taken) = mset (map pr_id rs)"
    and "sorted (map pr_id taken)"
proof -
  obtain taken' where t: "take_ref m loc m rs = (rest, taken')" "taken = sort_key pr_id taken'"
    using assms by (auto simp: take_prefill_chunks_ref split: prod.splits)
  from arg_cong [OF take_ref_mset [OF t(1)], of "image_mset pr_id"] t(2)
  show "mset (map pr_id rest) + mset (map pr_id taken) = mset (map pr_id rs)"
    by (simp add: multiset.map_comp comp_def clear_chunk_def)
  show "sorted (map pr_id taken)" using t(2) by simp
qed

lemma step_take_chunks_ok:
  assumes "books fl X F [] [] q L" and "step_take_chunks env q = (pending, q')"
  shows "books fl X F [] (map pr_id pending) q' L" and "sorted (map pr_id pending)"
    and "pending \<noteq> [] \<Longrightarrow> qs_inflight q' = None"
proof -
  show "books fl X F [] (map pr_id pending) q' L"
  proof (cases "qs_inflight q")
    case None
    then obtain rest where t: "take_prefill_chunks (qs_prefilling q) (qs_max_prefill_tokens q)
          (en_request_local env) = (rest, pending)"
        and q': "q' = q\<lparr>qs_prefilling := rest,
          qs_tracker := fold (\<lambda>r. enter_prefill (pr_id r)) pending (qs_tracker q)\<rparr>"
      using assms(2) by (auto simp: step_take_chunks_def split: prod.splits)
    show ?thesis
      by (rule books_move [OF assms(1)])
        (use take_chunks_ids(1) [OF t, symmetric] assms(1) in \<open>simp_all add: q' running_ids_def books_def\<close>)
  qed (use assms in \<open>simp add: step_take_chunks_def\<close>)
  show "sorted (map pr_id pending)" "pending \<noteq> [] \<Longrightarrow> qs_inflight q' = None"
    using assms(2) take_chunks_ids(2)
    by (auto simp: step_take_chunks_def split: if_splits prod.splits)
qed

lemma runtime_plan_pending:
  "runtime_plan E x active pending = Some plan \<Longrightarrow>
    plan_pending plan = pending \<and> (plan_prefills plan \<longrightarrow> pending \<noteq> [])"
  by (auto simp: runtime_plan_def build_next_plan_def split: if_splits)

text \<open>Steps 6 to 8: chunk selection, the plan and its execution.\<close>

abbreviation plan_and_execute ::
  "'x executor \<Rightarrow> step_env \<Rightarrow> 'x run_state \<Rightarrow> (panic \<times> ledger) + 'x run_state" where
  "plan_and_execute E env r \<equiv>
     (let (pending, q) = step_take_chunks env (ru_sched r); r4 = r\<lparr>ru_sched := q\<rparr> in
      case runtime_plan E (qs_executor q) (qs_active q) pending of
        None \<Rightarrow> Inr r4
      | Some plan \<Rightarrow> step_execute E env plan r4)"

lemma plan_and_execute_ok:
  fixes r :: "'x run_state"
  assumes E: "executor_ok E fl" and b: "books fl X F [] [] (ru_sched r) (ru_ledger r)"
  shows "succeeds (plan_and_execute E env r) (books_after E fl X)"
proof -
  obtain pending q where t: "step_take_chunks env (ru_sched r) = (pending, q)" by fastforce
  note taken = step_take_chunks_ok [OF b t]
  show ?thesis
  proof (cases "runtime_plan E (qs_executor q) (qs_active q) pending")
    case None
    then have "pending = []" by (auto simp: runtime_plan_def build_next_plan_def split: if_splits)
    then show ?thesis using t taken(1) None by (auto simp: Let_def intro: books_after_same)
  next
    case (Some plan)
    have "succeeds (step_execute E env plan (r\<lparr>ru_sched := q\<rparr>)) (books_after E fl X)"
      using runtime_plan_pending [OF Some] taken by (intro step_execute_ok [OF E]) auto
    then show ?thesis using t Some by (simp add: Let_def)
  qed
qed

lemma qwen3_step_books:
  fixes r :: "'x run_state"
  assumes E: "executor_ok E fl" and b: "books_at fl X r"
  shows "succeeds (qwen3_step E env r) (books_after E fl X)"
proof -
  let ?r0 = "on_sched (\<lambda>q. q\<lparr>qs_pending_control := qs_pending_control q @ en_lora_commands env\<rparr>) r"
  have "books_at fl X ?r0"
    by (rule books_atI, simp add: on_sched_def, rule books_requeue [OF b [unfolded books_at_def]]) simp_all
  from step_poll_ok [OF E this, of env] show ?thesis
    unfolding qwen3_step_def succeeds_bind
  proof (rule succeeds_mono)
    fix r1 :: "'x run_state"
    define r2 where "r2 = on_sched (\<lambda>q. step_control E (step_prefetch E q)) r1"
    assume "books_at fl X r1"
    from step_control_ok [OF E step_prefetch_ok [OF E this [unfolded books_at_def]]]
    obtain F where b2: "books fl X F [] [] (ru_sched r2) (ru_ledger r2)"
      by (simp add: r2_def on_sched_def)
    have "succeeds (step_admission E env r2) (\<lambda>r3. succeeds (plan_and_execute E env r3) (books_after E fl X))"
      by (rule succeeds_mono [OF step_admission_ok [OF E b2]]) (rule plan_and_execute_ok [OF E])
    with step_wait_ok [OF E b2]
    show "succeeds (let r2 = on_sched (\<lambda>q. step_control E (step_prefetch E q)) r1 in
        if qs_idle (ru_sched r2) then Inr (on_sched (step_wait_loading E) r2)
        else bind_res (step_admission E env r2) (plan_and_execute E env)) (books_after E fl X)"
      unfolding r2_def [symmetric] Let_def [of r2]
      by (auto simp: succeeds_bind on_sched_def intro: books_after_same)
  qed
qed

section \<open>Serving\<close>

text \<open>
  The engine thread around the scheduler: it registers an envelope and submits the request,
  steps the scheduler, and commits the statement.
\<close>

inductive serving :: "'x executor \<Rightarrow> 'x qwen3 \<Rightarrow> ledger \<Rightarrow> bool" for E where
  start: "serving E (new_qwen3 x max_prefill kv_total) new_ledger"
| submit: "serving E q L \<Longrightarrow> register e L = Inr (L', qr) \<Longrightarrow> serving E (qwen3_submit qr q) L'"
| step: "serving E q L \<Longrightarrow> qwen3_step E env (start_run q L) = Inr r \<Longrightarrow>
    serving E (ru_sched r) (ru_ledger r)"
| commit: "serving E q L \<Longrightarrow> serving E q (fst (commit_step L c))"

lemma books_start: "books fl {} (None, fl x) [] [] (new_qwen3 x m k) new_ledger"
  by (simp add: books_def new_qwen3_def queued_ids_def running_ids_def inflight_ids_def
      inflight_matches_def tracked_stat_def lstat_def new_ledger_def wf_ledger_def)

lemma books_submit:
  assumes b: "books fl X F [] [] q L" and r: "register e L = Inr (L', qr)"
  shows "books fl (X - {qr_id qr}) F [] [] (qwen3_submit qr q) L'"
proof -
  let ?i = "qr_id qr" and ?q' = "qwen3_submit qr q"
  have L: "lstat L ?i = None" "lstat L' = (lstat L)(?i := Some False)" "wf_ledger L'"
    using r books_wf [OF b] by (auto simp: register_def lstat_def wf_ledger_def Let_def split: if_splits)
  have ids: "mset (queued_ids ?q') = add_mset ?i (mset (queued_ids q))" "running_ids ?q' = running_ids q"
      "qs_inflight ?q' = qs_inflight q" "qs_executor ?q' = qs_executor q"
    by (simp_all add: qwen3_submit_def Let_def queued_ids_def running_ids_def inflight_ids_def from_request_def)
  have fresh: "?i \<notin> set (queued_ids q) \<union> set (running_ids q)"
    using L(1) books_queued [OF b, of ?i] books_running [OF b, of ?i] by auto
  have set_q: "set (queued_ids ?q') = insert ?i (set (queued_ids q))"
    using ids(1) by (metis set_mset_add_mset_insert set_mset_mset)
  have "distinct (queued_ids ?q') = distinct (?i # queued_ids q)"
    using ids(1) by (intro mset_eq_imp_distinct_iff) simp
  moreover have "distinct (queued_ids q @ running_ids q)" "X \<inter> set (queued_ids q @ running_ids q) = {}"
      "\<forall>j. j \<notin> X \<longrightarrow> lstat L j = tracked_stat q [] [] j"
      "fl (qs_executor q) = snd F" "qs_inflight q = fst F" "inflight_matches F"
    using b by (simp_all add: books_def)
  moreover from this(3) have "\<forall>j. j \<notin> X - {?i} \<longrightarrow> lstat L' j = tracked_stat ?q' [] [] j"
    using L(2) fresh ids(2) set_q by (simp add: tracked_stat_def)
  ultimately show ?thesis
    using L(3) fresh ids(2-4) set_q by (auto simp add: books_def)
qed

lemma books_commit:
  assumes "books fl X F [] [] q L"
  shows "books fl X F [] [] q (fst (commit_step L c))"
proof -
  have "lstat (fst (commit_step L c)) = lstat L" by (simp add: lstat_def fun_eq_iff commit_step_ledger)
  then show ?thesis using assms commit_step_ledger(3) [of L c] by (simp add: books_def)
qed

lemma books_at_iff: "books_at fl X r \<longleftrightarrow> (\<exists>F. books fl X F [] [] (ru_sched r) (ru_ledger r))"
  by (auto simp only: books_at_def intro: books_atI [unfolded books_at_def])

lemma start_run_sels [simp]: "ru_sched (start_run q L) = q" "ru_ledger (start_run q L) = L"
  by (simp_all add: start_run_def)

lemma serving_books:
  assumes "serving E q L" and E: "executor_ok E fl"
  shows "\<exists>X F. (prefill_total E \<longrightarrow> X = {}) \<and> books fl X F [] [] q L"
  using assms(1)
proof induction
  case (start x m k)
  show ?case using books_start [of fl x m k] by blast
next
  case (submit q L e L' qr)
  then obtain X F where "prefill_total E \<longrightarrow> X = {}" "books fl X F [] [] q L" by blast
  with books_submit [OF _ submit.hyps(2)] show ?case by blast
next
  case (step q L env r)
  then obtain X F where X: "prefill_total E \<longrightarrow> X = {}" "books fl X F [] [] q L" by blast
  then have "books_at fl X (start_run q L)" unfolding books_at_iff start_run_sels by blast
  from qwen3_step_books [OF E this, of env] step.hyps(2) X(1) show ?case
    unfolding books_after_def books_at_iff succeeds_def by fastforce
next
  case (commit q L c)
  then obtain X F where "prefill_total E \<longrightarrow> X = {}" "books fl X F [] [] q L" by blast
  with books_commit [of fl X F q L c] show ?case by blast
qed

section \<open>A failed prefill\<close>

lemma fail_touched_request_other:
  assumes "fail_touched_request E m j r = Inr r'" and "wf_ledger (ru_ledger r)" and "i \<noteq> j"
  shows "wf_ledger (ru_ledger r') \<and> is_active i (ru_ledger r') = is_active i (ru_ledger r)"
proof (cases "is_active j (ru_ledger r)")
  case True
  with assms(1) obtain r1 where r1: "do_op (OpFail j m) r = Inr r1" "r' = release_request E j r1"
    by (auto simp: fail_touched_request_def panic_simps)
  then obtain L ds where "apply_op (OpFail j m) (ru_ledger r) = Inr (L, ds)" "ru_ledger r1 = L"
    by (auto simp: do_op_def panic_simps)
  with apply_op_effect [OF this(1) assms(2)] assms(3) r1(2) show ?thesis
    by (simp add: is_active_def)
qed (use assms in \<open>auto simp: fail_touched_request_def\<close>)

lemma fail_touched_requests_other:
  assumes "fail_touched_requests E ids m r = Inr r'" and "wf_ledger (ru_ledger r)" and "i \<notin> set ids"
  shows "is_active i (ru_ledger r') = is_active i (ru_ledger r) \<and> qs_active (ru_sched r') = []"
proof -
  obtain r1 where f: "fold_res (fail_touched_request E m) ids r = Inr r1"
      and r': "r' = on_sched (\<lambda>q. q\<lparr>qs_active := []\<rparr>) r1"
    using assms(1) by (auto simp: fail_touched_requests_def panic_simps)
  have "wf_ledger (ru_ledger r1) \<and> is_active i (ru_ledger r1) = is_active i (ru_ledger r)"
    by (rule fold_res_invariant [OF f]) (use assms(2) in simp, metis assms(3) fail_touched_request_other)
  then show ?thesis by (simp add: r' on_sched_def)
qed

lemma executor_ok_demo: "executor_ok (demo_executor failing) (\<lambda>_. [])"
  by (auto simp: executor_ok_def demo_executor_def demo_prefill_result_def demo_decode_result_def
      multiset.map_comp comp_def split: if_splits)

lemma prefill_total_demo: "prefill_total (demo_executor [])"
  by (simp add: prefill_total_def demo_executor_def)

text \<open>
  A state in which the plan is a dedicated prefill step while a request is decoding: request 1
  is active, request 2 asks for prompt log-probabilities.
\<close>

definition strand_pending :: pending_request where
  "strand_pending = (demo_pending 2 4 4 True)\<lparr>pr_logprobs := 1\<rparr>"

definition strand_account :: account where
  "strand_account = \<lparr>acct_abort = 0, acct_prompt_len = 3, acct_queued_at = 0, acct_state = Active 1\<rparr>"

definition strand_run :: "nat run_state" where
  "strand_run = start_run ((new_qwen3 0 64 100)\<lparr>qs_active := [demo_active 1 1 4]\<rparr>)
     \<lparr>lg_accounts = [1 \<mapsto> strand_account, 2 \<mapsto> strand_account], lg_statement = empty_statement\<rparr>"

lemma strand_books: "books (\<lambda>_. []) {} (None, []) [] [2] (ru_sched strand_run) (ru_ledger strand_run)"
  by (auto simp: books_def strand_run_def start_run_def new_qwen3_def queued_ids_def running_ids_def
      inflight_ids_def inflight_matches_def tracked_stat_def lstat_def strand_account_def wf_ledger_def
      demo_active_def)

lemma serving_demo:
  "serving (demo_executor []) (qwen3_submit \<lparr>qr_id = 5, qr_request = demo_request\<rparr> (new_qwen3 0 64 100))
    (fst (projr (register \<lparr>env_id = 5, env_abort = 0, env_request = demo_request, env_queued_at = 1\<rparr> new_ledger)))"
  by (rule serving.submit [OF serving.start, of
        "\<lparr>env_id = 5, env_abort = 0, env_request = demo_request, env_queued_at = 1\<rparr>"])
    (simp add: register_def new_ledger_def)

section \<open>Properties of serving\<close>

text \<open>
  C5: The Qwen3 scheduler never panics: driven by the engine loop from its creation, on
  any requests, with any aborts, clock and random seeds, and with an executor whose results
  are for the requests it was given (it may fail any call), every step returns.
\<close>

theorem qwen3_never_panics:
  assumes "serving E q L" and "executor_ok E fl"
  shows "\<exists>r. qwen3_step E env (start_run q L) = Inr r"
proof -
  obtain X F where "books fl X F [] [] q L" using serving_books [OF assms] by blast
  then have "books_at fl X (start_run q L)" unfolding books_at_iff start_run_sels by blast
  from qwen3_step_books [OF assms(2) this] show ?thesis by (auto simp: succeeds_def)
qed

theorem qwen3_never_panics_witness:
  "\<exists>r. qwen3_step (demo_executor []) demo_env
     (start_run (qwen3_submit \<lparr>qr_id = 5, qr_request = demo_request\<rparr> (new_qwen3 0 64 100))
       (fst (projr (register \<lparr>env_id = 5, env_abort = 0, env_request = demo_request, env_queued_at = 1\<rparr>
         new_ledger)))) = Inr r"
  by (rule qwen3_never_panics [OF serving_demo executor_ok_demo])

text \<open>
  C6: No request is lost: as long as dedicated prefill steps do not fail, every open account
  is in exactly one queue of the scheduler, and the queue says whether it was admitted.
\<close>

theorem qwen3_no_request_lost:
  assumes "serving E q L" and "executor_ok E fl" and "prefill_total E"
  shows "distinct (queued_ids q @ running_ids q) \<and>
    lstat L i = (if i \<in> set (running_ids q) then Some True
      else if i \<in> set (queued_ids q) then Some False else None)"
  using serving_books [OF assms(1,2)] assms(3) by (auto simp: books_def tracked_stat_def)

theorem qwen3_no_request_lost_witness:
  "let q = qwen3_submit \<lparr>qr_id = 5, qr_request = demo_request\<rparr> (new_qwen3 (0 :: nat) 64 100);
       L = fst (projr (register \<lparr>env_id = 5, env_abort = 0, env_request = demo_request, env_queued_at = 1\<rparr>
         new_ledger))
   in distinct (queued_ids q @ running_ids q) \<and> lstat L 5 = Some False \<and> lstat L 6 = None"
  using qwen3_no_request_lost [OF serving_demo executor_ok_demo prefill_total_demo, of 5]
    qwen3_no_request_lost [OF serving_demo executor_ok_demo prefill_total_demo, of 6]
  by (simp add: qwen3_submit_def new_qwen3_def queued_ids_def running_ids_def inflight_ids_def
      from_request_def Let_def)

text \<open>
  C14: A dedicated prefill step that fails strands the requests that were decoding: such a
  request is in no queue afterwards, while its account is still open and active, so nothing
  the scheduler does will ever answer it.
\<close>

theorem prefill_failure_strands_active:
  assumes "executor_ok E fl" and "books fl X F [] (map pr_id pending) (ru_sched r) (ru_ledger r)"
    and "execute_plan E (en_draw env) (qs_active (ru_sched r)) (PlanPrefill pending)
      (qs_rng (ru_sched r)) (qs_executor (ru_sched r)) = (ExecErr e, n, x)"
    and "i \<in> set (map ar_id (qs_active (ru_sched r)))" and "qs_inflight (ru_sched r) = None"
  shows "\<exists>r'. step_execute E env (PlanPrefill pending) r = Inr r' \<and> is_active i (ru_ledger r') \<and>
    i \<notin> set (queued_ids (ru_sched r') @ running_ids (ru_sched r'))"
proof -
  let ?q = "ru_sched r"
  define r1 where "r1 = on_sched (\<lambda>q. q\<lparr>qs_executor := x, qs_rng := n\<rparr>) r"
  define F1 where "F1 = (None :: pending_request list option, fl x)"
  have q1: "qs_active (ru_sched r1) = qs_active ?q" "ru_ledger r1 = ru_ledger r"
    by (simp_all add: r1_def on_sched_def)
  have b1: "books fl X F1 [] (map pr_id pending) (ru_sched r1) (ru_ledger r1)"
    unfolding r1_def on_sched_def using assms(5)
    by (simp, intro books_move [OF assms(2)]) (simp_all add: F1_def inflight_matches_def)
  obtain r' where r': "fail_touched_requests E (map pr_id pending) e r1 = Inr r'"
      "books fl (X \<union> set (map ar_id (qs_active ?q))) F1 [] [] (ru_sched r') (ru_ledger r')"
    using fail_touched_requests_ok [OF assms(1), of X F1 "PlanPrefill pending" r1 e] b1 q1
    by (auto simp: succeeds_def)
  have run: "i \<in> set (running_ids ?q)" using assms(4) by (auto simp: running_ids_def)
  then have "i \<notin> set (map pr_id pending)" using assms(2) by (auto simp: books_def)
  moreover have "is_active i (ru_ledger r1)"
    using books_running [OF assms(2), of i] run q1 by (simp add: lstat_active)
  ultimately have "is_active i (ru_ledger r')"
    using fail_touched_requests_other [OF r'(1)] books_wf [OF b1] by blast
  moreover have "i \<notin> set (queued_ids (ru_sched r') @ running_ids (ru_sched r'))"
    using r'(2) assms(4) by (auto simp: books_def)
  moreover have "step_execute E env (PlanPrefill pending) r = Inr r'"
    using r'(1) assms(3) by (simp add: step_execute_def r1_def del: execute_plan.simps)
  ultimately show ?thesis by blast
qed

theorem prefill_failure_strands_active_witness:
  "runtime_plan (demo_executor [0]) 0 (qs_active (ru_sched strand_run)) [strand_pending] =
     Some (PlanPrefill [strand_pending]) \<and>
   (\<exists>r'. step_execute (demo_executor [0]) demo_env (PlanPrefill [strand_pending]) strand_run = Inr r' \<and>
     is_active 1 (ru_ledger r') \<and> 1 \<notin> set (queued_ids (ru_sched r') @ running_ids (ru_sched r')))"
proof (rule conjI)
  show "runtime_plan (demo_executor [0]) 0 (qs_active (ru_sched strand_run)) [strand_pending] =
      Some (PlanPrefill [strand_pending])"
    by (simp add: runtime_plan_def should_speculative_decode_def build_next_plan_def demo_executor_def
        strand_run_def start_run_def new_qwen3_def strand_pending_def demo_pending_def)
  have "books (\<lambda>_. []) {} (None, []) [] (map pr_id [strand_pending]) (ru_sched strand_run) (ru_ledger strand_run)"
    using strand_books by (simp add: strand_pending_def demo_pending_def)
  moreover have "execute_plan (demo_executor [0]) (en_draw demo_env) (qs_active (ru_sched strand_run))
      (PlanPrefill [strand_pending]) (qs_rng (ru_sched strand_run)) (qs_executor (ru_sched strand_run)) =
      (ExecErr ''prefill failed'', 1, 1)"
    by (simp add: demo_executor_def strand_run_def start_run_def new_qwen3_def)
  ultimately show "\<exists>r'. step_execute (demo_executor [0]) demo_env (PlanPrefill [strand_pending]) strand_run = Inr r' \<and>
      is_active 1 (ru_ledger r') \<and> 1 \<notin> set (queued_ids (ru_sched r') @ running_ids (ru_sched r'))"
    by (rule prefill_failure_strands_active [OF executor_ok_demo])
      (simp_all add: strand_run_def start_run_def new_qwen3_def demo_active_def)
qed

end
