(* ===== verification/Page_Pool.thy ===== *)
theory Page_Pool
  imports Prelude
begin

text \<open>
  The paged KV allocator of the core crate: \<open>pegainfer-core/src/page_pool.rs\<close> (a pool with
  a free list and permits that return their pages when dropped) and
  \<open>pegainfer-core/src/kv_pool.rs\<close> (a pool with its page geometry, a padding page, per-request
  states and reservations).

  A pool is shared through an \<open>Arc\<close>; the model passes it explicitly, permits carry the
  address of their pool, and dropping a permit is an operation. The locale
  \<open>page_allocator\<close> is what the users of a pool rely on: pages move between the free list and
  permits, none is created, lost or handed out twice.
\<close>

section \<open>Ownership of pages\<close>

text \<open>\<open>own\<close> gives the pages of each owner: together they are the pages of the pool, once each.\<close>

definition owned :: "nat \<Rightarrow> ('o \<Rightarrow> nat list) \<Rightarrow> bool" where
  "owned cap own \<longleftrightarrow>
     (\<forall>a. distinct (own a)) \<and> (\<forall>a b. a \<noteq> b \<longrightarrow> set (own a) \<inter> set (own b) = {}) \<and>
     (\<Union>a. set (own a)) = {..<cap}"

lemma owned_move:
  assumes "owned cap own" and "a \<noteq> b" and "\<And>c. c \<noteq> a \<Longrightarrow> c \<noteq> b \<Longrightarrow> own' c = own c"
    and "mset (own' a) + mset (own' b) = mset (own a) + mset (own b)"
  shows "owned cap own'"
proof -
  have sets: "set (own' a) \<union> set (own' b) = set (own a) \<union> set (own b)"
    using assms(4) by (metis set_mset_mset set_mset_union)
  have "mset (own' a @ own' b) = mset (own a @ own b)" using assms(4) by simp
  then have "distinct (own' a @ own' b) = distinct (own a @ own b)" by (rule mset_eq_imp_distinct_iff)
  then have dist: "distinct (own' a)" "distinct (own' b)" "set (own' a) \<inter> set (own' b) = {}"
    using assms(1,2) by (auto simp: owned_def)
  have other: "set (own' d) \<inter> set (own' c) = {}" if "d \<in> {a, b}" "c \<noteq> a" "c \<noteq> b" for c d
  proof -
    have "set (own' d) \<subseteq> set (own a) \<union> set (own b)" using sets that(1) by auto
    moreover have "(set (own a) \<union> set (own b)) \<inter> set (own c) = {}"
      using assms(1) that(2,3) by (auto simp: owned_def)
    ultimately show ?thesis using assms(3) [OF that(2,3)] by auto
  qed
  have "(\<Union>c. set (own' c)) = set (own' a) \<union> set (own' b) \<union> (\<Union>c \<in> - {a, b}. set (own' c))" by auto
  also have "\<dots> = (\<Union>c. set (own c))" unfolding sets using assms(3) by auto
  finally have cover: "(\<Union>c. set (own' c)) = {..<cap}" using assms(1) by (simp add: owned_def)
  have "distinct (own' c)" for c
    using dist assms(1,3) by (cases "c = a \<or> c = b") (auto simp: owned_def)
  moreover have "set (own' c) \<inter> set (own' d) = {}" if "c \<noteq> d" for c d
    using that dist(3) other assms(1,3)
    by (cases "c \<in> {a, b}"; cases "d \<in> {a, b}") (auto simp: owned_def Int_commute)
  ultimately show ?thesis using cover by (simp add: owned_def)
qed

lemma owned_disjoint: "owned cap own \<Longrightarrow> a \<noteq> b \<Longrightarrow> set (own a) \<inter> set (own b) = {}"
  by (simp add: owned_def)

lemma owned_distinct: "owned cap own \<Longrightarrow> distinct (own a)"
  by (simp add: owned_def)

lemma owned_bound: "owned cap own \<Longrightarrow> i \<in> set (own a) \<Longrightarrow> i < cap"
  by (auto simp: owned_def)

section \<open>The allocator\<close>

type_synonym page_id = usize
type_synonym pool_addr = nat

record page_pool =
  pp_capacity :: usize
  pp_free :: "page_id list"

definition new_page_pool :: "usize \<Rightarrow> page_pool" where
  "new_page_pool capacity = \<lparr>pp_capacity = capacity, pp_free = rev [0..<capacity]\<rparr>"

datatype 'a acquired = Acquired 'a | Exhausted | AcquirePanic

text \<open>The loop that pops \<open>n\<close> pages off the free list, with the panic of its \<open>expect\<close>.\<close>

fun pop_pages :: "nat \<Rightarrow> page_id list \<Rightarrow> page_pool \<Rightarrow> (page_id list \<times> page_pool) acquired" where
  "pop_pages 0 pages p = Acquired (pages, p)"
| "pop_pages (Suc n) pages p =
     (if pp_free p = [] then AcquirePanic
      else pop_pages n (pages @ [last (pp_free p)]) (p\<lparr>pp_free := butlast (pp_free p)\<rparr>))"

definition try_acquire_many :: "usize \<Rightarrow> page_pool \<Rightarrow> (page_id list \<times> page_pool) acquired" where
  "try_acquire_many n p =
     (if n = 0 then Acquired ([], p)
      else if length (pp_free p) < n then Exhausted
      else pop_pages n [] p)"

definition available_pages :: "page_pool \<Rightarrow> usize" where
  "available_pages p = length (pp_free p)"

record permit =
  pm_pool :: pool_addr
  pm_pages :: "page_id list"

text \<open>\<open>absorb\<close>: \<open>None\<close> is the failed assertion that both permits are of one pool.\<close>

definition absorb :: "permit \<Rightarrow> permit \<Rightarrow> permit option" where
  "absorb other pm =
     (if pm_pool pm = pm_pool other then Some (pm\<lparr>pm_pages := pm_pages pm @ pm_pages other\<rparr>) else None)"

definition try_grow :: "usize \<Rightarrow> page_id list \<Rightarrow> page_pool \<Rightarrow> (page_id list \<times> page_pool) acquired" where
  "try_grow n pages p =
     (if n = 0 then Acquired (pages, p)
      else if length (pp_free p) < n then Exhausted
      else pop_pages n pages p)"

definition drop_permit :: "page_id list \<Rightarrow> page_pool \<Rightarrow> page_pool" where
  "drop_permit pages p = (if pages = [] then p else p\<lparr>pp_free := pp_free p @ rev pages\<rparr>)"

lemma pop_pages_total:
  "n \<le> length (pp_free p) \<Longrightarrow> \<exists>pages' p'. pop_pages n pages p = Acquired (pages', p') \<and>
    length pages' = length pages + n \<and> pp_capacity p' = pp_capacity p \<and>
    mset pages' + mset (pp_free p') = mset pages + mset (pp_free p)"
proof (induction n arbitrary: pages p)
  case (Suc n)
  let ?p = "p\<lparr>pp_free := butlast (pp_free p)\<rparr>"
  have ne: "pp_free p \<noteq> []" using Suc.prems by auto
  then have "mset (pp_free p) = add_mset (last (pp_free p)) (mset (butlast (pp_free p)))"
    by (metis append_butlast_last_id mset.simps(2) mset_append add.commute union_mset_add_mset_right mset.simps(1) add.right_neutral)
  with Suc.IH [of ?p "pages @ [last (pp_free p)]"] Suc.prems ne show ?case by auto
qed simp

lemma pop_pages_prefix: "pop_pages n pages p = Acquired (pages', p') \<Longrightarrow> \<exists>more. pages' = pages @ more"
  by (induction n arbitrary: pages p) (auto split: if_splits, metis append.assoc)

text \<open>
  What a user of a page pool relies on: growing takes exactly \<open>n\<close> pages off the free list or
  nothing, it fails exactly when there are fewer, it does not panic, and releasing gives back.
\<close>

locale page_allocator =
  fixes free :: "'p \<Rightarrow> nat list" and capacity :: "'p \<Rightarrow> nat"
    and grow :: "nat \<Rightarrow> nat list \<Rightarrow> 'p \<Rightarrow> (nat list \<times> 'p) acquired"
    and release :: "nat list \<Rightarrow> 'p \<Rightarrow> 'p"
  assumes grow_moves: "grow n ps p = Acquired (ps', p') \<Longrightarrow>
      mset ps' + mset (free p') = mset ps + mset (free p) \<and> length ps' = length ps + n \<and>
      capacity p' = capacity p"
    and grow_exhausted: "grow n ps p = Exhausted \<longleftrightarrow> length (free p) < n"
    and grow_safe: "grow n ps p \<noteq> AcquirePanic"
    and release_moves: "mset (free (release ps p)) = mset (free p) + mset ps"
    and release_capacity: "capacity (release ps p) = capacity p"
begin

lemma grow_total: "n \<le> length (free p) \<Longrightarrow> \<exists>ps' p'. grow n ps p = Acquired (ps', p')"
  using grow_safe [of n ps p] grow_exhausted [of n ps p] by (cases "grow n ps p") auto

lemma owned_grow:
  assumes "owned cap own" and "own a = free p" and "own b = ps" and "a \<noteq> b"
    and "grow n ps p = Acquired (ps', p')"
  shows "owned cap (own(a := free p', b := ps'))"
  by (rule owned_move [OF assms(1,4)]) (use assms grow_moves [OF assms(5)] in \<open>auto simp: add.commute\<close>)

lemma owned_release:
  assumes "owned cap own" and "own a = free p" and "own b = ps" and "a \<noteq> b"
  shows "owned cap (own(a := free (release ps p), b := []))"
  by (rule owned_move [OF assms(1,4)]) (use assms release_moves in auto)

lemma available_release: "length (free (release ps p)) = length (free p) + length ps"
  by (metis release_moves size_mset size_union)

lemma grow_release:
  assumes "grow n [] p = Acquired (ps, p')"
  shows "mset (free (release ps p')) = mset (free p)"
  using grow_moves [OF assms] by (simp add: release_moves add.commute)

end

lemma try_acquire_many_grow: "try_acquire_many n p = try_grow n [] p"
  by (simp add: try_acquire_many_def try_grow_def)

lemma try_grow_cases:
  "try_grow n ps p = Exhausted \<and> length (pp_free p) < n \<or>
   (\<exists>ps' p'. try_grow n ps p = Acquired (ps', p') \<and> n \<le> length (pp_free p) \<and>
      length ps' = length ps + n \<and> pp_capacity p' = pp_capacity p \<and>
      mset ps' + mset (pp_free p') = mset ps + mset (pp_free p))"
  using pop_pages_total [of n p ps] by (cases "n = 0"; cases "length (pp_free p) < n") (auto simp: try_grow_def)

interpretation pool: page_allocator pp_free pp_capacity try_grow drop_permit
proof unfold_locales
  fix n ps p
  show "try_grow n ps p = Exhausted \<longleftrightarrow> length (pp_free p) < n" "try_grow n ps p \<noteq> AcquirePanic"
    using try_grow_cases [of n ps p] by auto
  show "try_grow n ps p = Acquired (ps', p') \<Longrightarrow>
      mset ps' + mset (pp_free p') = mset ps + mset (pp_free p) \<and> length ps' = length ps + n \<and>
      pp_capacity p' = pp_capacity p" for ps' p'
    using try_grow_cases [of n ps p] by auto
qed (simp_all add: drop_permit_def)

section \<open>Page geometry\<close>

datatype kv_storage = Bf16 | E4m3

fun elem_bytes :: "kv_storage \<Rightarrow> usize" where
  "elem_bytes Bf16 = 2"
| "elem_bytes E4m3 = 1"

record kv_layout =
  kl_page_size :: usize
  kl_num_layers :: usize
  kl_num_kv_heads :: usize
  kl_head_dim :: usize
  kl_kv_block_len :: usize
  kl_layer_stride :: usize
  kl_page_stride :: usize
  kl_storage :: kv_storage

datatype kv_error =
    StridesOverflow
  | GeometryOverflow
  | ByteOverflow
  | AllocFailed string
  | OutOfPages usize usize
  | PageMismatch usize usize
  | KvPanic string

text \<open>\<open>KvLayout::with_storage\<close>: the strides, with every product checked.\<close>

definition layout_strides :: "usize \<Rightarrow> usize \<Rightarrow> usize \<Rightarrow> usize \<Rightarrow> (usize \<times> usize \<times> usize) option" where
  "layout_strides num_layers num_kv_heads head_dim page_size =
     (case checked_mul page_size num_kv_heads of None \<Rightarrow> None
      | Some a \<Rightarrow> (case checked_mul a head_dim of None \<Rightarrow> None
      | Some kv_block_len \<Rightarrow> (case checked_mul kv_block_len 2 of None \<Rightarrow> None
      | Some layer_stride \<Rightarrow> (case checked_mul num_layers layer_stride of None \<Rightarrow> None
      | Some page_stride \<Rightarrow> Some (kv_block_len, layer_stride, page_stride)))))"

definition layout_with_storage ::
  "usize \<Rightarrow> usize \<Rightarrow> usize \<Rightarrow> usize \<Rightarrow> kv_storage \<Rightarrow> kv_error + kv_layout" where
  "layout_with_storage num_layers num_kv_heads head_dim page_size storage =
     (case layout_strides num_layers num_kv_heads head_dim page_size of
        None \<Rightarrow> Inl StridesOverflow
      | Some (kv_block_len, layer_stride, page_stride) \<Rightarrow>
          Inr \<lparr>kl_page_size = page_size, kl_num_layers = num_layers, kl_num_kv_heads = num_kv_heads,
               kl_head_dim = head_dim, kl_kv_block_len = kv_block_len, kl_layer_stride = layer_stride,
               kl_page_stride = page_stride, kl_storage = storage\<rparr>)"

section \<open>The KV pool\<close>

text \<open>
  \<open>kp_addr\<close> is the identity of the shared pool, \<open>kp_slots\<close> the length of the device buffer in
  16-bit slots. The device allocator is a parameter that fails with a message.
\<close>

record kv_pool =
  kp_addr :: pool_addr
  kp_pool :: page_pool
  kp_layout :: kv_layout
  kp_slots :: usize
  kp_padding :: "page_id list"

definition kv_pool_with_storage ::
  "(usize \<Rightarrow> string option) \<Rightarrow> pool_addr \<Rightarrow> usize \<Rightarrow> usize \<Rightarrow> usize \<Rightarrow> usize \<Rightarrow> usize \<Rightarrow> kv_storage \<Rightarrow>
   kv_error + kv_pool"
where
  "kv_pool_with_storage alloc_zeros addr num_layers num_kv_heads head_dim page_size num_pages storage =
     bind_res (layout_with_storage num_layers num_kv_heads head_dim page_size storage) (\<lambda>layout.
     bind_res (ok_or (checked_mul num_pages (kl_page_stride layout)) GeometryOverflow) (\<lambda>total_elements.
     bind_res (ok_or (checked_mul total_elements (elem_bytes storage)) ByteOverflow) (\<lambda>total_bytes.
     let backing_slots = div_ceil total_bytes 2 in
     case alloc_zeros backing_slots of
       Some e \<Rightarrow> Inl (AllocFailed e)
     | None \<Rightarrow>
         (case try_acquire_many 1 (new_page_pool num_pages) of
            Acquired (padding, pool) \<Rightarrow>
              Inr \<lparr>kp_addr = addr, kp_pool = pool, kp_layout = layout, kp_slots = backing_slots,
                   kp_padding = padding\<rparr>
          | _ \<Rightarrow> Inl (KvPanic ''pool must have at least 1 page for padding'')))))"

text \<open>\<open>try_reserve\<close>: a reservation is a permit that has not been committed.\<close>

definition try_reserve :: "usize \<Rightarrow> kv_pool \<Rightarrow> (permit \<times> kv_pool) acquired" where
  "try_reserve pages P =
     (case try_acquire_many pages (kp_pool P) of
        Acquired (ps, pool) \<Rightarrow> Acquired (\<lparr>pm_pool = kp_addr P, pm_pages = ps\<rparr>, P\<lparr>kp_pool := pool\<rparr>)
      | Exhausted \<Rightarrow> Exhausted
      | AcquirePanic \<Rightarrow> AcquirePanic)"

definition drop_reservation :: "permit \<Rightarrow> kv_pool \<Rightarrow> kv_pool" where
  "drop_reservation pm P = P\<lparr>kp_pool := drop_permit (pm_pages pm) (kp_pool P)\<rparr>"

section \<open>Per-request state\<close>

record kv_state =
  ks_permit :: permit
  ks_seq_len :: usize

definition kv_alloc :: "kv_pool \<Rightarrow> kv_state" where
  "kv_alloc P = \<lparr>ks_permit = \<lparr>pm_pool = kp_addr P, pm_pages = []\<rparr>, ks_seq_len = 0\<rparr>"

text \<open>\<open>pages_needed\<close>: \<open>div_ceil\<close> panics on a page size of zero.\<close>

definition pages_needed :: "usize \<Rightarrow> usize \<Rightarrow> kv_error + usize" where
  "pages_needed token_count page_size =
     (if page_size = 0 then Inl (KvPanic ''attempt to divide by zero'')
      else Inr (div_ceil token_count page_size))"

definition last_page_len_for :: "usize \<Rightarrow> usize \<Rightarrow> usize" where
  "last_page_len_for token_count page_size =
     (if token_count = 0 then 0
      else if token_count mod page_size = 0 then page_size else token_count mod page_size)"

definition held_pages :: "kv_state \<Rightarrow> usize" where
  "held_pages s = length (pm_pages (ks_permit s))"

definition ensure_capacity :: "usize \<Rightarrow> kv_state \<Rightarrow> kv_pool \<Rightarrow> kv_error + kv_state \<times> kv_pool" where
  "ensure_capacity token_count s P =
     bind_res (pages_needed token_count (kl_page_size (kp_layout P))) (\<lambda>needed.
       if needed \<le> held_pages s then Inr (s, P)
       else
         (let grow = needed - held_pages s in
          case try_grow grow (pm_pages (ks_permit s)) (kp_pool P) of
            Acquired (ps, pool) \<Rightarrow>
              Inr (s\<lparr>ks_permit := (ks_permit s)\<lparr>pm_pages := ps\<rparr>\<rparr>, P\<lparr>kp_pool := pool\<rparr>)
          | Exhausted \<Rightarrow> Inl (OutOfPages grow (available_pages (kp_pool P)))
          | AcquirePanic \<Rightarrow> Inl (KvPanic ''free_list length checked above'')))"

definition commit_reservation :: "permit \<Rightarrow> kv_state \<Rightarrow> kv_error + kv_state" where
  "commit_reservation pm s =
     (case absorb pm (ks_permit s) of
        None \<Rightarrow> Inl (KvPanic ''absorb requires permits from the same pool'')
      | Some pm' \<Rightarrow> Inr (s\<lparr>ks_permit := pm'\<rparr>))"

text \<open>\<open>self.seq_len += count\<close>, wrapping at the width of \<open>usize\<close> as in a release build.\<close>

definition kv_advance :: "usize \<Rightarrow> kv_state \<Rightarrow> kv_state" where
  "kv_advance n s = s\<lparr>ks_seq_len := (ks_seq_len s + n) mod (usize_max + 1)\<rparr>"

record kv_desc =
  kd_pages :: "page_id list"
  kd_last_page_len :: usize

definition desc_for_len :: "usize \<Rightarrow> kv_state \<Rightarrow> kv_pool \<Rightarrow> kv_error + kv_desc" where
  "desc_for_len seq_len s P =
     bind_res (pages_needed seq_len (kl_page_size (kp_layout P))) (\<lambda>needed.
     bind_res (ensure (held_pages s = needed) (PageMismatch (held_pages s) needed)) (\<lambda>_.
       Inr \<lparr>kd_pages = pm_pages (ks_permit s),
            kd_last_page_len = last_page_len_for seq_len (kl_page_size (kp_layout P))\<rparr>))"

text \<open>\<open>page_indices_i32\<close>: \<open>usize as i32\<close> keeps the low 32 bits.\<close>

definition page_indices_i32 :: "page_id list \<Rightarrow> 32 word list" where
  "page_indices_i32 ps = map of_nat ps"

definition drop_state :: "kv_state \<Rightarrow> kv_pool \<Rightarrow> kv_pool" where
  "drop_state s P = P\<lparr>kp_pool := drop_permit (pm_pages (ks_permit s)) (kp_pool P)\<rparr>"

section \<open>A pool in use\<close>

text \<open>
  A pool with its live states and reservations. An operation that returns an error leaves
  everything as it was, so only the others are steps.
\<close>

record kv_world =
  kw_pool :: kv_pool
  kw_states :: "nat \<rightharpoonup> kv_state"
  kw_reserved :: "nat \<rightharpoonup> permit"

inductive kv_step :: "kv_world \<Rightarrow> kv_world \<Rightarrow> bool" where
  alloc: "kw_states w i = None \<Longrightarrow>
    kv_step w (w\<lparr>kw_states := (kw_states w)(i \<mapsto> kv_alloc (kw_pool w))\<rparr>)"
| ensure: "kw_states w i = Some s \<Longrightarrow> ensure_capacity n s (kw_pool w) = Inr (s', P) \<Longrightarrow>
    kv_step w (w\<lparr>kw_pool := P, kw_states := (kw_states w)(i \<mapsto> s')\<rparr>)"
| advance: "kw_states w i = Some s \<Longrightarrow>
    kv_step w (w\<lparr>kw_states := (kw_states w)(i \<mapsto> kv_advance n s)\<rparr>)"
| reserve: "kw_reserved w k = None \<Longrightarrow> try_reserve n (kw_pool w) = Acquired (pm, P) \<Longrightarrow>
    kv_step w (w\<lparr>kw_pool := P, kw_reserved := (kw_reserved w)(k \<mapsto> pm)\<rparr>)"
| commit: "kw_states w i = Some s \<Longrightarrow> kw_reserved w k = Some pm \<Longrightarrow> commit_reservation pm s = Inr s' \<Longrightarrow>
    kv_step w (w\<lparr>kw_states := (kw_states w)(i \<mapsto> s'), kw_reserved := (kw_reserved w)(k := None)\<rparr>)"
| drop_reservation: "kw_reserved w k = Some pm \<Longrightarrow>
    kv_step w (w\<lparr>kw_pool := drop_reservation pm (kw_pool w), kw_reserved := (kw_reserved w)(k := None)\<rparr>)"
| drop_state: "kw_states w i = Some s \<Longrightarrow>
    kv_step w (w\<lparr>kw_pool := drop_state s (kw_pool w), kw_states := (kw_states w)(i := None)\<rparr>)"

inductive kv_reachable :: "kv_pool \<Rightarrow> kv_world \<Rightarrow> bool" for P where
  start: "kv_reachable P \<lparr>kw_pool = P, kw_states = Map.empty, kw_reserved = Map.empty\<rparr>"
| step: "kv_reachable P w \<Longrightarrow> kv_step w w' \<Longrightarrow> kv_reachable P w'"

datatype owner = OFree | OPadding | OState nat | OReserved nat

fun pages_of :: "kv_world \<Rightarrow> owner \<Rightarrow> page_id list" where
  "pages_of w OFree = pp_free (kp_pool (kw_pool w))"
| "pages_of w OPadding = kp_padding (kw_pool w)"
| "pages_of w (OState i) = (case kw_states w i of None \<Rightarrow> [] | Some s \<Rightarrow> pm_pages (ks_permit s))"
| "pages_of w (OReserved k) = (case kw_reserved w k of None \<Rightarrow> [] | Some pm \<Rightarrow> pm_pages pm)"

definition world_owned :: "kv_world \<Rightarrow> bool" where
  "world_owned w \<longleftrightarrow> owned (pp_capacity (kp_pool (kw_pool w))) (pages_of w)"

lemma world_owned_via:
  assumes "owned cap f" and "cap = pp_capacity (kp_pool (kw_pool w))"
    and "pages_of w OFree = f OFree" and "pages_of w OPadding = f OPadding"
    and "\<And>i. pages_of w (OState i) = f (OState i)" and "\<And>k. pages_of w (OReserved k) = f (OReserved k)"
  shows "world_owned w"
proof -
  have "pages_of w a = f a" for a by (cases a) (simp_all only: assms(3-6))
  then have "pages_of w = f" by (rule ext)
  then show ?thesis using assms(1,2) by (simp add: world_owned_def)
qed

lemma try_reserve_Acquired:
  "try_reserve n P = Acquired (pm, P') \<longleftrightarrow>
    (\<exists>ps pool. try_grow n [] (kp_pool P) = Acquired (ps, pool) \<and>
       pm = \<lparr>pm_pool = kp_addr P, pm_pages = ps\<rparr> \<and> P' = P\<lparr>kp_pool := pool\<rparr>)"
  by (auto simp: try_reserve_def try_acquire_many_grow split: acquired.splits)

lemma ensure_capacity_Inr:
  "ensure_capacity n s P = Inr (s', P') \<longleftrightarrow>
    0 < kl_page_size (kp_layout P) \<and>
    (\<exists>ps pool. try_grow (div_ceil n (kl_page_size (kp_layout P)) - held_pages s)
        (pm_pages (ks_permit s)) (kp_pool P) = Acquired (ps, pool) \<and>
       s' = s\<lparr>ks_permit := (ks_permit s)\<lparr>pm_pages := ps\<rparr>\<rparr> \<and> P' = P\<lparr>kp_pool := pool\<rparr>)"
proof -
  have "try_grow 0 ps p = Acquired (ps, p)" for ps p by (simp add: try_grow_def)
  then show ?thesis
    by (auto simp: ensure_capacity_def pages_needed_def Let_def panic_simps split: acquired.splits)
qed

lemma kv_step_owned:
  assumes "kv_step w w'" and "world_owned w"
  shows "world_owned w'"
  using assms
proof induction
  case (alloc w i)
  show ?case
    by (rule world_owned_via [OF alloc(2) [unfolded world_owned_def]]) (use alloc(1) in \<open>auto simp: kv_alloc_def\<close>)
next
  case (ensure w i s n s' P)
  then obtain m ps pool where g: "try_grow m (pm_pages (ks_permit s)) (kp_pool (kw_pool w)) = Acquired (ps, pool)"
      and s': "s' = s\<lparr>ks_permit := (ks_permit s)\<lparr>pm_pages := ps\<rparr>\<rparr>" and P: "P = (kw_pool w)\<lparr>kp_pool := pool\<rparr>"
    by (auto simp: ensure_capacity_Inr)
  show ?case
    by (rule world_owned_via [OF pool.owned_grow [OF ensure(3) [unfolded world_owned_def], of OFree _ "OState i", OF _ _ _ g]])
      (use ensure(1) pool.grow_moves [OF g] s' P in \<open>auto\<close>)
next
  case (advance w i s n)
  show ?case
    by (rule world_owned_via [OF advance(2) [unfolded world_owned_def]]) (use advance(1) in \<open>auto simp: kv_advance_def\<close>)
next
  case (reserve w k n pm P)
  then obtain ps pool where g: "try_grow n [] (kp_pool (kw_pool w)) = Acquired (ps, pool)"
      and pm: "pm = \<lparr>pm_pool = kp_addr (kw_pool w), pm_pages = ps\<rparr>" and P: "P = (kw_pool w)\<lparr>kp_pool := pool\<rparr>"
    by (auto simp: try_reserve_Acquired)
  show ?case
    by (rule world_owned_via [OF pool.owned_grow [OF reserve(3) [unfolded world_owned_def], of OFree _ "OReserved k", OF _ _ _ g]])
      (use reserve(1) pool.grow_moves [OF g] pm P in \<open>auto\<close>)
next
  case (commit w i s k pm s')
  let ?own = "(pages_of w)(OState i := pm_pages (ks_permit s) @ pm_pages pm, OReserved k := [])"
  have "owned (pp_capacity (kp_pool (kw_pool w))) ?own"
    by (rule owned_move [OF commit(4) [unfolded world_owned_def], of "OState i" "OReserved k"])
      (use commit(1,2) in auto)
  then show ?case
    by (rule world_owned_via)
      (use commit(1-3) in \<open>auto simp: commit_reservation_def absorb_def split: if_splits\<close>)
next
  case (drop_reservation w k pm)
  show ?case
    by (rule world_owned_via [OF pool.owned_release [OF drop_reservation(2) [unfolded world_owned_def], of OFree _ "OReserved k"]])
      (use drop_reservation(1) in \<open>auto simp: drop_reservation_def pool.release_capacity\<close>)
next
  case (drop_state w i s)
  show ?case
    by (rule world_owned_via [OF pool.owned_release [OF drop_state(2) [unfolded world_owned_def], of OFree _ "OState i"]])
      (use drop_state(1) in \<open>auto simp: drop_state_def pool.release_capacity\<close>)
qed

lemma new_pool_Inr:
  assumes "kv_pool_with_storage dev addr nl nh hdim psz n st = Inr P"
  shows "pp_capacity (kp_pool P) = n" and "length (kp_padding P) = 1" and "kl_page_size (kp_layout P) = psz"
    and "mset (kp_padding P) + mset (pp_free (kp_pool P)) = mset [0..<n]"
    and "kl_page_stride (kp_layout P) = nl * (2 * (psz * nh * hdim))"
    and "kl_kv_block_len (kp_layout P) = psz * nh * hdim" and "kl_layer_stride (kp_layout P) = 2 * (psz * nh * hdim)"
    and "kp_slots P = div_ceil (n * kl_page_stride (kp_layout P) * elem_bytes st) 2"
    and "n * kl_page_stride (kp_layout P) * elem_bytes st \<le> usize_max"
proof -
  let ?pad = "\<lambda>l. case try_acquire_many 1 (new_page_pool n) of
      Acquired (padding, pool) \<Rightarrow>
        Inr \<lparr>kp_addr = addr, kp_pool = pool, kp_layout = l,
             kp_slots = div_ceil (n * kl_page_stride l * elem_bytes st) 2, kp_padding = padding\<rparr>
    | _ \<Rightarrow> Inl (KvPanic ''pool must have at least 1 page for padding'')"
  obtain l where l: "layout_with_storage nl nh hdim psz st = Inr l" "?pad l = Inr P"
      "n * kl_page_stride l * elem_bytes st \<le> usize_max"
    using assms
    by (auto simp: kv_pool_with_storage_def bind_res_Inr_iff ok_or_Inr_iff checked_mul_Some_iff Let_def
        split: option.split_asm)
  have layout: "l = \<lparr>kl_page_size = psz, kl_num_layers = nl, kl_num_kv_heads = nh, kl_head_dim = hdim,
      kl_kv_block_len = psz * nh * hdim, kl_layer_stride = psz * nh * hdim * 2,
      kl_page_stride = nl * (psz * nh * hdim * 2), kl_storage = st\<rparr>"
    using l(1) by (auto simp: layout_with_storage_def layout_strides_def checked_mul_Some_iff split: option.split_asm)
  obtain ps pool where g: "try_grow 1 [] (new_page_pool n) = Acquired (ps, pool)"
      and P: "P = \<lparr>kp_addr = addr, kp_pool = pool, kp_layout = l,
        kp_slots = div_ceil (n * kl_page_stride l * elem_bytes st) 2, kp_padding = ps\<rparr>"
    using l(2) by (cases "try_grow 1 [] (new_page_pool n)") (auto simp: try_acquire_many_grow)
  from pool.grow_moves [OF g] show "pp_capacity (kp_pool P) = n" "length (kp_padding P) = 1"
      "mset (kp_padding P) + mset (pp_free (kp_pool P)) = mset [0..<n]"
    by (simp_all add: new_page_pool_def P)
  show "kl_page_size (kp_layout P) = psz" "kl_page_stride (kp_layout P) = nl * (2 * (psz * nh * hdim))"
      "kl_kv_block_len (kp_layout P) = psz * nh * hdim" "kl_layer_stride (kp_layout P) = 2 * (psz * nh * hdim)"
      "kp_slots P = div_ceil (n * kl_page_stride (kp_layout P) * elem_bytes st) 2"
      "n * kl_page_stride (kp_layout P) * elem_bytes st \<le> usize_max"
    using l(3) by (simp_all add: P layout)
qed

lemma kv_step_pool:
  "kv_step w w' \<Longrightarrow> pp_capacity (kp_pool (kw_pool w')) = pp_capacity (kp_pool (kw_pool w)) \<and>
    kp_padding (kw_pool w') = kp_padding (kw_pool w) \<and> kp_layout (kw_pool w') = kp_layout (kw_pool w)"
  by (induction rule: kv_step.induct)
    (auto simp: ensure_capacity_Inr try_reserve_Acquired drop_reservation_def drop_state_def
      pool.release_capacity dest: pool.grow_moves)

lemma kv_reachable_owned:
  assumes "kv_reachable P w" and "kv_pool_with_storage dev addr nl nh hdim psz n st = Inr P"
  shows "world_owned w \<and> pp_capacity (kp_pool (kw_pool w)) = n \<and> kp_padding (kw_pool w) = kp_padding P"
  using assms(1)
proof induction
  case start
  let ?w = "\<lparr>kw_pool = P, kw_states = Map.empty, kw_reserved = Map.empty\<rparr>"
  have "owned n ((\<lambda>_. [])(OFree := [0..<n]))" by (auto simp: owned_def)
  then have "owned n ((\<lambda>_. [])(OFree := pp_free (kp_pool P), OPadding := kp_padding P))"
    by (rule owned_move [of _ _ OFree OPadding]) (use new_pool_Inr(4) [OF assms(2)] in \<open>auto simp: add.commute\<close>)
  then have "world_owned ?w"
    by (rule world_owned_via) (use new_pool_Inr(1) [OF assms(2)] in auto)
  then show ?case using new_pool_Inr(1) [OF assms(2)] by simp
next
  case (step w w')
  then show ?case using kv_step_owned kv_step_pool by auto
qed

section \<open>Properties of the KV pool\<close>

definition demo_layout :: kv_layout where
  "demo_layout = \<lparr>kl_page_size = 16, kl_num_layers = 1, kl_num_kv_heads = 1, kl_head_dim = 1,
     kl_kv_block_len = 16, kl_layer_stride = 32, kl_page_stride = 32, kl_storage = Bf16\<rparr>"

definition demo_pool :: kv_pool where
  "demo_pool = \<lparr>kp_addr = 0, kp_pool = \<lparr>pp_capacity = 4, pp_free = [3, 2, 1]\<rparr>, kp_layout = demo_layout,
     kp_slots = 128, kp_padding = [0]\<rparr>"

lemma demo_upt: "rev [0..<4] = [3, 2, 1, 0 :: nat]"
  by (simp add: upt_rec)

lemma demo_pool_new: "kv_pool_with_storage (\<lambda>_. None) 0 1 1 1 16 4 Bf16 = Inr demo_pool"
  by (simp add: demo_pool_def demo_layout_def kv_pool_with_storage_def layout_with_storage_def layout_strides_def
      checked_mul_def usize_max_def try_acquire_many_def new_page_pool_def div_ceil_def demo_upt)

definition demo_grown :: kv_state where
  "demo_grown = \<lparr>ks_permit = \<lparr>pm_pool = 0, pm_pages = [1, 2]\<rparr>, ks_seq_len = 0\<rparr>"

definition demo_world :: kv_world where
  "demo_world = \<lparr>kw_pool = demo_pool\<lparr>kp_pool := \<lparr>pp_capacity = 4, pp_free = [3]\<rparr>\<rparr>,
     kw_states = [5 \<mapsto> demo_grown], kw_reserved = Map.empty\<rparr>"

lemma demo_world_reachable: "kv_reachable demo_pool demo_world"
proof -
  let ?w = "\<lparr>kw_pool = demo_pool, kw_states = Map.empty, kw_reserved = Map.empty\<rparr>"
  let ?w1 = "?w\<lparr>kw_states := [5 \<mapsto> kv_alloc demo_pool]\<rparr>"
  have "kv_reachable demo_pool ?w1"
    using kv_reachable.step [OF kv_reachable.start kv_step.alloc [of ?w 5]] by simp
  moreover have "ensure_capacity 20 (kv_alloc demo_pool) demo_pool = Inr (demo_grown, kw_pool demo_world)"
    by (simp add: ensure_capacity_def pages_needed_def demo_pool_def demo_layout_def demo_grown_def demo_world_def
        try_grow_def held_pages_def kv_alloc_def div_ceil_def numeral_2_eq_2)
  ultimately show ?thesis
    using kv_reachable.step [OF _ kv_step.ensure [of ?w1 5 "kv_alloc demo_pool" 20 demo_grown "kw_pool demo_world"]]
    by (simp add: demo_world_def)
qed



text \<open>
  \<open>ensure_capacity\<close> either makes room for the tokens, keeping the pages the request had
  in place and taking exactly the missing ones, or reports how many are missing, which is
  more than the pool has; then nothing changed.
\<close>

theorem ensure_capacity_correct:
  assumes "0 < kl_page_size (kp_layout P)"
  shows "case ensure_capacity n s P of
      Inr (s', P') \<Rightarrow> n \<le> held_pages s' * kl_page_size (kp_layout P) \<and>
        held_pages s' = max (held_pages s) (div_ceil n (kl_page_size (kp_layout P))) \<and>
        take (held_pages s) (pm_pages (ks_permit s')) = pm_pages (ks_permit s) \<and>
        available_pages (kp_pool P') + held_pages s' = available_pages (kp_pool P) + held_pages s
    | Inl e \<Rightarrow> e = OutOfPages (div_ceil n (kl_page_size (kp_layout P)) - held_pages s) (available_pages (kp_pool P)) \<and>
        available_pages (kp_pool P) < div_ceil n (kl_page_size (kp_layout P)) - held_pages s"
proof -
  let ?need = "div_ceil n (kl_page_size (kp_layout P))"
  let ?g = "try_grow (?need - held_pages s) (pm_pages (ks_permit s)) (kp_pool P)"
  have up: "n \<le> k * kl_page_size (kp_layout P)" if "?need \<le> k" for k
    using that assms by (simp add: div_ceil_le_iff)
  show ?thesis
  proof (cases "?need \<le> held_pages s")
    case True
    then show ?thesis using assms up [OF True]
      by (simp add: ensure_capacity_def pages_needed_def held_pages_def max_absorb1)
  next
    case False
    show ?thesis
    proof (cases ?g)
      case (Acquired r)
      obtain ps p where r: "r = (ps, p)" by fastforce
      note moved = pool.grow_moves [OF Acquired [unfolded r]]
      have "length ps + length (pp_free p) = length (pm_pages (ks_permit s)) + length (pp_free (kp_pool P))"
        using moved by (metis size_mset size_union)
      moreover obtain more where "ps = pm_pages (ks_permit s) @ more"
        using Acquired r False by (auto simp: try_grow_def split: if_splits dest!: pop_pages_prefix)
      ultimately show ?thesis
        using Acquired r False assms moved up [of "length ps"]
        by (simp add: ensure_capacity_def pages_needed_def Let_def held_pages_def available_pages_def)
    next
      case Exhausted
      with False assms pool.grow_exhausted [of "?need - held_pages s" "pm_pages (ks_permit s)" "kp_pool P"]
      show ?thesis by (simp add: ensure_capacity_def pages_needed_def Let_def available_pages_def)
    next
      case AcquirePanic
      then show ?thesis using pool.grow_safe by blast
    qed
  qed
qed

theorem ensure_capacity_correct_witness:
  "available_pages (kp_pool demo_pool) = 3 \<and>
   (case ensure_capacity 40 (kv_alloc demo_pool) demo_pool of Inr (s', P') \<Rightarrow> held_pages s' = 3 | Inl e \<Rightarrow> False) \<and>
   ensure_capacity 100 (kv_alloc demo_pool) demo_pool = Inl (OutOfPages 7 3)"
proof (intro conjI)
  show av: "available_pages (kp_pool demo_pool) = 3" by (simp add: demo_pool_def available_pages_def)
  have geo: "kl_page_size (kp_layout demo_pool) = 16" by (simp add: demo_pool_def demo_layout_def)
  have "held_pages (kv_alloc demo_pool) = 0" by (simp add: held_pages_def kv_alloc_def)
  then show "case ensure_capacity 40 (kv_alloc demo_pool) demo_pool of
      Inr (s', P') \<Rightarrow> held_pages s' = 3 | Inl e \<Rightarrow> False"
    and "ensure_capacity 100 (kv_alloc demo_pool) demo_pool = Inl (OutOfPages 7 3)"
    using ensure_capacity_correct [of demo_pool 40 "kv_alloc demo_pool"]
      ensure_capacity_correct [of demo_pool 100 "kv_alloc demo_pool"] av geo
    by (auto simp: div_ceil_def split: sum.splits)
qed

text \<open>
  The descriptor handed to the attention kernels describes exactly \<open>seq_len\<close> tokens:
  all pages but the last are full and the last holds between one and a page of them.
\<close>

theorem desc_describes_tokens:
  assumes "desc_for_len m s P = Inr d" and "0 < m"
  shows "m = (length (kd_pages d) - 1) * kl_page_size (kp_layout P) + kd_last_page_len d \<and>
    0 < kd_last_page_len d \<and> kd_last_page_len d \<le> kl_page_size (kp_layout P) \<and> kd_pages d = pm_pages (ks_permit s)"
proof -
  let ?b = "kl_page_size (kp_layout P)"
  have b: "0 < ?b" and d: "d = \<lparr>kd_pages = pm_pages (ks_permit s), kd_last_page_len = last_page_len_for m ?b\<rparr>"
      and len: "length (pm_pages (ks_permit s)) = div_ceil m ?b"
    using assms(1) by (auto simp: desc_for_len_def pages_needed_def panic_simps held_pages_def split: if_splits)
  have "m = (div_ceil m ?b - 1) * ?b + last_page_len_for m ?b"
  proof (cases "m mod ?b = 0")
    case True
    then obtain k where "m = ?b * k" by auto
    with assms(2) b show ?thesis by (cases k) (auto simp: div_ceil_def last_page_len_for_def)
  qed (use assms(2) in \<open>simp add: div_ceil_def last_page_len_for_def\<close>)
  moreover have "0 < last_page_len_for m ?b" "last_page_len_for m ?b \<le> ?b"
    using assms(2) b by (simp_all add: last_page_len_for_def less_imp_le)
  ultimately show ?thesis using len by (simp add: d)
qed

theorem desc_describes_tokens_witness:
  "let d = projr (desc_for_len 20 demo_grown demo_pool) in
   20 = (length (kd_pages d) - 1) * kl_page_size (kp_layout demo_pool) + kd_last_page_len d \<and>
   kd_last_page_len d = 4 \<and> kd_pages d = [1, 2]"
  using desc_describes_tokens [of 20 demo_grown demo_pool "\<lparr>kd_pages = [1, 2], kd_last_page_len = 4\<rparr>"]
  by (simp add: desc_for_len_def pages_needed_def demo_grown_def demo_pool_def demo_layout_def held_pages_def
      div_ceil_def last_page_len_for_def)

end
