(* ===== verification/Gemma_Kv.thy ===== *)
theory Gemma_Kv
  imports Page_Pool
begin

text \<open>
  The KV state of a Gemma 4 request, \<open>pegainfer-gemma4/src/kv.rs\<close>: a sliding-window family
  whose pages are released from the front one by one, a global family that keeps all of
  them, and an admission that is atomic across the two pools.
\<close>

section \<open>Releasing what left the window\<close>

datatype gemma_error =
    FrontierOverflow
  | OriginPast usize usize
  | ReleaseDrift usize usize
  | WrongPools
  | FrontiersDiverged usize usize
  | AccountPast usize usize usize
  | Refused usize usize bool usize usize bool
  | GemmaPanic string

record release_state =
  rs_frontier :: usize
  rs_origin_pages :: usize
  rs_resident_pages :: usize

record release_step =
  rt_tokens :: usize
  rt_window :: usize
  rt_page_size :: usize

record release_plan =
  rp_frontier :: usize
  rp_origin_pages :: usize
  rp_release_pages :: usize

definition plan_release :: "release_state \<Rightarrow> release_step \<Rightarrow> gemma_error + release_plan" where
  "plan_release st t =
     (let frontier = rs_frontier st + rt_tokens t in
      bind_res (ensure (frontier \<le> usize_max) FrontierOverflow) (\<lambda>_.
      bind_res (ensure (rt_page_size t \<noteq> 0) (GemmaPanic ''attempt to divide by zero'')) (\<lambda>_.
      let origin_pages = saturating_sub frontier (rt_window t) div rt_page_size t in
      bind_res (ensure (rs_origin_pages st \<le> origin_pages) (OriginPast (rs_origin_pages st) origin_pages)) (\<lambda>_.
      let release_pages = origin_pages - rs_origin_pages st in
      bind_res (ensure (release_pages \<le> rs_resident_pages st) (ReleaseDrift release_pages (rs_resident_pages st))) (\<lambda>_.
        Inr \<lparr>rp_frontier = frontier, rp_origin_pages = origin_pages, rp_release_pages = release_pages\<rparr>)))))"

section \<open>The sliding family\<close>

record sliding_local_kv =
  sl_pool :: pool_addr
  sl_resident :: "permit list"
  sl_origin_pages :: usize
  sl_frontier :: usize

definition new_sliding :: "kv_pool \<Rightarrow> sliding_local_kv" where
  "new_sliding P = \<lparr>sl_pool = kp_addr P, sl_resident = [], sl_origin_pages = 0, sl_frontier = 0\<rparr>"

definition restore_sliding :: "kv_pool \<Rightarrow> permit list \<Rightarrow> usize \<Rightarrow> usize \<Rightarrow> sliding_local_kv" where
  "restore_sliding P resident origin_pages frontier =
     \<lparr>sl_pool = kp_addr P, sl_resident = resident, sl_origin_pages = origin_pages, sl_frontier = frontier\<rparr>"

definition page_row :: "sliding_local_kv \<Rightarrow> 32 word list" where
  "page_row kv = concat (map (\<lambda>pm. page_indices_i32 (pm_pages pm)) (sl_resident kv))"

definition extend_resident :: "permit list \<Rightarrow> sliding_local_kv \<Rightarrow> sliding_local_kv" where
  "extend_resident pages kv = kv\<lparr>sl_resident := sl_resident kv @ pages\<rparr>"

text \<open>\<open>self.frontier += count\<close>, wrapping at the width of \<open>usize\<close>.\<close>

definition advance_sliding :: "usize \<Rightarrow> sliding_local_kv \<Rightarrow> sliding_local_kv" where
  "advance_sliding n kv = kv\<lparr>sl_frontier := (sl_frontier kv + n) mod (usize_max + 1)\<rparr>"

text \<open>
  \<open>advance_and_release\<close>; the drained reservations are dropped, so the pool is part of the
  state.
\<close>

definition advance_and_release ::
  "usize \<Rightarrow> usize \<Rightarrow> sliding_local_kv \<Rightarrow> kv_pool \<Rightarrow> gemma_error + sliding_local_kv \<times> kv_pool" where
  "advance_and_release n window kv P =
     bind_res (plan_release
        \<lparr>rs_frontier = sl_frontier kv, rs_origin_pages = sl_origin_pages kv,
         rs_resident_pages = length (sl_resident kv)\<rparr>
        \<lparr>rt_tokens = n, rt_window = window, rt_page_size = kl_page_size (kp_layout P)\<rparr>) (\<lambda>plan.
       Inr (kv\<lparr>sl_resident := drop (rp_release_pages plan) (sl_resident kv),
               sl_origin_pages := rp_origin_pages plan, sl_frontier := rp_frontier plan\<rparr>,
            fold drop_reservation (take (rp_release_pages plan) (sl_resident kv)) P))"

section \<open>Admission across the two pools\<close>

record gemma_kv =
  gk_local :: sliding_local_kv
  gk_global :: kv_state

text \<open>\<open>pages_to_reserve\<close>: \<open>Inr None\<close> is an account past the frontier, \<open>Inl\<close> the panic.\<close>

definition pages_to_reserve :: "usize \<Rightarrow> usize \<Rightarrow> usize \<Rightarrow> gemma_error + usize option" where
  "pages_to_reserve kv_len accounted page_size =
     (if page_size = 0 then Inl (GemmaPanic ''attempt to divide by zero'')
      else Inr (if accounted \<le> div_ceil kv_len page_size then Some (div_ceil kv_len page_size - accounted) else None))"

definition need_of :: "usize \<Rightarrow> usize \<Rightarrow> usize \<Rightarrow> gemma_error + usize" where
  "need_of kv_len accounted page_size =
     bind_res (pages_to_reserve kv_len accounted page_size) (\<lambda>m.
       ok_or m (AccountPast accounted kv_len (div_ceil kv_len page_size)))"

text \<open>One reservation per page until there are enough or one is refused; \<open>None\<close> is a panic.\<close>

fun reserve_pages :: "nat \<Rightarrow> permit list \<Rightarrow> kv_pool \<Rightarrow> (permit list \<times> kv_pool) option" where
  "reserve_pages 0 rs P = Some (rs, P)"
| "reserve_pages (Suc n) rs P =
     (case try_reserve 1 P of
        Acquired (r, P') \<Rightarrow> reserve_pages n (rs @ [r]) P'
      | Exhausted \<Rightarrow> Some (rs, P)
      | AcquirePanic \<Rightarrow> None)"

text \<open>The result and the two pools after the call.\<close>

definition admit_needs ::
  "usize \<Rightarrow> usize \<Rightarrow> gemma_kv \<Rightarrow> kv_pool \<Rightarrow> kv_pool \<Rightarrow> (gemma_error + gemma_kv) \<times> kv_pool \<times> kv_pool" where
  "admit_needs local_need global_need kv lp gp =
     (case reserve_pages local_need [] lp of
        None \<Rightarrow> (Inl (GemmaPanic ''free_list length checked above''), lp, gp)
      | Some (local_rs, lp1) \<Rightarrow>
          (let local_granted = (length local_rs = local_need);
               global_r = (if local_granted then try_reserve global_need gp else Exhausted) in
           case (local_granted, global_r) of
             (True, Acquired (r, gp1)) \<Rightarrow>
               (case commit_reservation r (gk_global kv) of
                  Inl e \<Rightarrow> (Inl (GemmaPanic ''absorb requires permits from the same pool''),
                              lp1, drop_reservation r gp1)
                | Inr g \<Rightarrow> (Inr \<lparr>gk_local = extend_resident local_rs (gk_local kv), gk_global = g\<rparr>, lp1, gp1))
           | (_, AcquirePanic) \<Rightarrow>
               (Inl (GemmaPanic ''free_list length checked above''), fold drop_reservation local_rs lp1, gp)
           | (granted, _) \<Rightarrow>
               (let lp2 = fold drop_reservation local_rs lp1 in
                (Inl (Refused local_need (available_pages (kp_pool lp2)) granted
                        global_need (available_pages (kp_pool gp)) False), lp2, gp))))"

definition admit_tokens ::
  "usize \<Rightarrow> gemma_kv \<Rightarrow> kv_pool \<Rightarrow> kv_pool \<Rightarrow> (gemma_error + gemma_kv) \<times> kv_pool \<times> kv_pool" where
  "admit_tokens new_tokens kv lp gp =
     (let kv_len = (sl_frontier (gk_local kv) + new_tokens) mod (usize_max + 1);
          needs =
            bind_res (ensure (sl_pool (gk_local kv) = kp_addr lp \<and> pm_pool (ks_permit (gk_global kv)) = kp_addr gp)
              WrongPools) (\<lambda>_.
            bind_res (ensure (sl_frontier (gk_local kv) = ks_seq_len (gk_global kv))
              (FrontiersDiverged (sl_frontier (gk_local kv)) (ks_seq_len (gk_global kv)))) (\<lambda>_.
            bind_res (need_of kv_len (sl_origin_pages (gk_local kv) + length (sl_resident (gk_local kv)))
              (kl_page_size (kp_layout lp))) (\<lambda>local_need.
            bind_res (need_of kv_len (held_pages (gk_global kv)) (kl_page_size (kp_layout gp))) (\<lambda>global_need.
              Inr (local_need, global_need))))) in
      case needs of
        Inl e \<Rightarrow> (Inl e, lp, gp)
      | Inr (local_need, global_need) \<Rightarrow> admit_needs local_need global_need kv lp gp)"

section \<open>Pages move between a pool and its permits\<close>

abbreviation free_pages :: "kv_pool \<Rightarrow> page_id list" where
  "free_pages P \<equiv> pp_free (kp_pool P)"

definition permit_pages :: "permit list \<Rightarrow> page_id list" where
  "permit_pages rs = concat (map pm_pages rs)"

definition same_pool :: "kv_pool \<Rightarrow> kv_pool \<Rightarrow> bool" where
  "same_pool P Q \<longleftrightarrow> kp_addr P = kp_addr Q \<and> kp_layout P = kp_layout Q \<and> kp_padding P = kp_padding Q \<and>
     pp_capacity (kp_pool P) = pp_capacity (kp_pool Q)"

lemma permit_pages_simps [simp]:
  "permit_pages [] = []" "permit_pages (r # rs) = pm_pages r @ permit_pages rs"
  "permit_pages (rs @ rs') = permit_pages rs @ permit_pages rs'"
  by (simp_all add: permit_pages_def)

lemma same_pool_refl [simp]: "same_pool P P"
  and same_pool_trans: "same_pool P Q \<Longrightarrow> same_pool Q R \<Longrightarrow> same_pool P R"
  by (simp_all add: same_pool_def)

lemma drop_reservation_one:
  "mset (free_pages (drop_reservation r P)) = mset (free_pages P) + mset (pm_pages r) \<and>
    same_pool P (drop_reservation r P)"
  by (simp add: drop_reservation_def pool.release_moves pool.release_capacity same_pool_def)

lemma drop_reservations:
  "mset (free_pages (fold drop_reservation rs P)) = mset (free_pages P) + mset (permit_pages rs) \<and>
    same_pool P (fold drop_reservation rs P)"
proof (induction rs arbitrary: P)
  case (Cons r rs)
  show ?case
    using Cons.IH [of "drop_reservation r P"] drop_reservation_one [of r P] same_pool_trans by auto
qed simp

lemma try_reserve_cases:
  "try_reserve n P = Exhausted \<and> length (free_pages P) < n \<or>
   (\<exists>r P'. try_reserve n P = Acquired (r, P') \<and> n \<le> length (free_pages P) \<and> same_pool P P' \<and>
      pm_pool r = kp_addr P \<and> length (pm_pages r) = n \<and>
      mset (pm_pages r) + mset (free_pages P') = mset (free_pages P))"
  using try_grow_cases [of n "[]" "kp_pool P"]
  by (auto simp: try_reserve_def try_acquire_many_grow same_pool_def)

definition one_page_each :: "pool_addr \<Rightarrow> permit list \<Rightarrow> bool" where
  "one_page_each a rs \<longleftrightarrow> list_all (\<lambda>r. pm_pool r = a \<and> length (pm_pages r) = 1) rs"

lemma reserve_pages_ok:
  "\<exists>more P'. reserve_pages n rs P = Some (rs @ more, P') \<and> length more = min n (length (free_pages P)) \<and>
    same_pool P P' \<and> one_page_each (kp_addr P) more \<and>
    mset (permit_pages more) + mset (free_pages P') = mset (free_pages P)"
proof (induction n arbitrary: rs P)
  case (Suc n)
  show ?case
  proof (cases "free_pages P = []")
    case True
    then show ?thesis using try_reserve_cases [of 1 P] by (auto simp: one_page_each_def)
  next
    case False
    then obtain r Q where r: "try_reserve 1 P = Acquired (r, Q)" "same_pool P Q" "pm_pool r = kp_addr P"
        "length (pm_pages r) = 1" "mset (pm_pages r) + mset (free_pages Q) = mset (free_pages P)"
      using try_reserve_cases [of 1 P] by (cases "free_pages P") auto
    obtain more P' where m: "reserve_pages n ((rs @ [r])) Q = Some ((rs @ [r]) @ more, P')"
        "length more = min n (length (free_pages Q))" "same_pool Q P'" "one_page_each (kp_addr Q) more"
        "mset (permit_pages more) + mset (free_pages P') = mset (free_pages Q)"
      using Suc.IH by blast
    have "length (free_pages P) = Suc (length (free_pages Q))"
      using r(4,5) by (metis One_nat_def add_Suc plus_nat.add_0 size_mset size_union)
    moreover have "one_page_each (kp_addr P) (r # more)"
      using m(4) r(2-4) by (simp add: one_page_each_def same_pool_def)
    moreover have "mset (permit_pages (r # more)) + mset (free_pages P') = mset (free_pages P)"
      using r(5) m(5) by (simp add: add.assoc)
    ultimately show ?thesis
      using r(1) m(1,2) same_pool_trans [OF r(2) m(3)] by (intro exI [of _ "r # more"] exI [of _ P']) auto
  qed
qed (simp add: one_page_each_def)

text \<open>What an admission does, once the needs of the two families are known.\<close>

definition admitted ::
  "usize \<Rightarrow> usize \<Rightarrow> gemma_kv \<Rightarrow> kv_pool \<Rightarrow> kv_pool \<Rightarrow> gemma_kv \<Rightarrow> kv_pool \<Rightarrow> kv_pool \<Rightarrow> bool" where
  "admitted m k kv lp gp kv' lp' gp' \<longleftrightarrow>
     (\<exists>rs r. gk_local kv' = extend_resident rs (gk_local kv) \<and> one_page_each (kp_addr lp) rs \<and> length rs = m \<and>
        mset (permit_pages rs) + mset (free_pages lp') = mset (free_pages lp) \<and>
        gk_global kv' = (gk_global kv)\<lparr>ks_permit := (ks_permit (gk_global kv))
          \<lparr>pm_pages := pm_pages (ks_permit (gk_global kv)) @ r\<rparr>\<rparr> \<and>
        length r = k \<and> mset r + mset (free_pages gp') = mset (free_pages gp))"

definition rolled_back :: "usize \<Rightarrow> usize \<Rightarrow> kv_pool \<Rightarrow> kv_pool \<Rightarrow> kv_pool \<Rightarrow> kv_pool \<Rightarrow> gemma_error \<Rightarrow> bool" where
  "rolled_back m k lp gp lp' gp' e \<longleftrightarrow>
     mset (free_pages lp') = mset (free_pages lp) \<and> gp' = gp \<and>
     (length (free_pages lp) < m \<or> length (free_pages gp) < k) \<and>
     e = Refused m (length (free_pages lp)) (m \<le> length (free_pages lp)) k (length (free_pages gp)) False"

lemma admit_needs_ok:
  assumes "pm_pool (ks_permit (gk_global kv)) = kp_addr gp" and "admit_needs m k kv lp gp = (res, lp', gp')"
  shows "same_pool lp lp' \<and> same_pool gp gp' \<and>
    (case res of Inr kv' \<Rightarrow> admitted m k kv lp gp kv' lp' gp' | Inl e \<Rightarrow> rolled_back m k lp gp lp' gp' e)"
proof -
  obtain rs lp1 where r: "reserve_pages m [] lp = Some (rs, lp1)" "length rs = min m (length (free_pages lp))"
      "same_pool lp lp1" "one_page_each (kp_addr lp) rs"
      "mset (permit_pages rs) + mset (free_pages lp1) = mset (free_pages lp)"
    using reserve_pages_ok [of m "[]" lp] by auto
  define lp2 where "lp2 = fold drop_reservation rs lp1"
  have undo: "mset (free_pages lp2) = mset (free_pages lp)" "same_pool lp lp2"
    using drop_reservations [where rs = rs and P = lp1] r(3,5) same_pool_trans
    by (auto simp: lp2_def add.commute)
  then have len2: "length (free_pages lp2) = length (free_pages lp)" by (metis size_mset)
  show ?thesis
  proof (cases "length rs = m \<and> k \<le> length (free_pages gp)")
    case True
    then obtain r gp1 where g: "try_reserve k gp = Acquired (r, gp1)" "same_pool gp gp1" "pm_pool r = kp_addr gp"
        "length (pm_pages r) = k" "mset (pm_pages r) + mset (free_pages gp1) = mset (free_pages gp)"
      using try_reserve_cases [of k gp] by auto
    have "commit_reservation r (gk_global kv) = Inr ((gk_global kv)\<lparr>ks_permit := (ks_permit (gk_global kv))
        \<lparr>pm_pages := pm_pages (ks_permit (gk_global kv)) @ pm_pages r\<rparr>\<rparr>)"
      using assms(1) g(3) by (simp add: commit_reservation_def absorb_def)
    with True r g assms(2) show ?thesis
      by (auto simp: admit_needs_def admitted_def Let_def
          intro!: exI [of _ rs] exI [of _ "pm_pages r"])
  next
    case False
    then have "(if length rs = m then try_reserve k gp else Exhausted) = Exhausted"
      using try_reserve_cases [of k gp] by auto
    with False r(1,2) undo len2 assms(2) show ?thesis
      by (auto simp: admit_needs_def rolled_back_def Let_def lp2_def [symmetric] available_pages_def min_def
          split: if_splits)
  qed
qed

lemma need_of_Inr:
  "need_of n a b = Inr m \<longleftrightarrow> 0 < b \<and> a \<le> div_ceil n b \<and> m = div_ceil n b - a"
  by (auto simp: need_of_def pages_to_reserve_def panic_simps split: if_splits)

text \<open>
  The account of a request between steps: the local family starts where the window ends and
  both families reach exactly to the frontier.
\<close>

definition account_ok :: "usize \<Rightarrow> gemma_kv \<Rightarrow> kv_pool \<Rightarrow> kv_pool \<Rightarrow> bool" where
  "account_ok window kv lp gp \<longleftrightarrow>
     (let f = sl_frontier (gk_local kv); b = kl_page_size (kp_layout lp) in
      0 < b \<and> 0 < kl_page_size (kp_layout gp) \<and>
      sl_pool (gk_local kv) = kp_addr lp \<and> pm_pool (ks_permit (gk_global kv)) = kp_addr gp \<and>
      ks_seq_len (gk_global kv) = f \<and> sl_origin_pages (gk_local kv) = (f - window) div b \<and>
      sl_origin_pages (gk_local kv) + length (sl_resident (gk_local kv)) = div_ceil f b \<and>
      held_pages (gk_global kv) = div_ceil f (kl_page_size (kp_layout gp)))"

lemma admit_tokens_needs:
  assumes "account_ok window kv lp gp" and "sl_frontier (gk_local kv) + n \<le> usize_max"
  shows "admit_tokens n kv lp gp =
    admit_needs (div_ceil (sl_frontier (gk_local kv) + n) (kl_page_size (kp_layout lp)) -
        div_ceil (sl_frontier (gk_local kv)) (kl_page_size (kp_layout lp)))
      (div_ceil (sl_frontier (gk_local kv) + n) (kl_page_size (kp_layout gp)) -
        div_ceil (sl_frontier (gk_local kv)) (kl_page_size (kp_layout gp))) kv lp gp"
proof -
  let ?f = "sl_frontier (gk_local kv)"
  have mono: "div_ceil ?f b \<le> div_ceil (?f + n) b" if "0 < b" for b
    using that by (rule div_ceil_mono) simp
  have b: "0 < kl_page_size (kp_layout lp)" "0 < kl_page_size (kp_layout gp)"
    and acc: "sl_origin_pages (gk_local kv) + length (sl_resident (gk_local kv)) =
        div_ceil ?f (kl_page_size (kp_layout lp))"
      "held_pages (gk_global kv) = div_ceil ?f (kl_page_size (kp_layout gp))"
    using assms(1) by (simp_all add: account_ok_def Let_def)
  have l: "need_of (?f + n) (sl_origin_pages (gk_local kv) + length (sl_resident (gk_local kv)))
      (kl_page_size (kp_layout lp)) = Inr (div_ceil (?f + n) (kl_page_size (kp_layout lp)) -
        div_ceil ?f (kl_page_size (kp_layout lp)))"
    using b mono unfolding need_of_Inr acc by simp
  have g: "need_of (?f + n) (held_pages (gk_global kv)) (kl_page_size (kp_layout gp)) =
      Inr (div_ceil (?f + n) (kl_page_size (kp_layout gp)) - div_ceil ?f (kl_page_size (kp_layout gp)))"
    using b mono unfolding need_of_Inr acc by simp
  have "(?f + n) mod (usize_max + 1) = ?f + n" using assms(2) by simp
  with l g assms(1) show ?thesis by (simp add: admit_tokens_def account_ok_def Let_def)
qed

lemma plan_release_total:
  assumes "f + n \<le> usize_max" and "0 < b" and "(f - w) div b + r = div_ceil (f + n) b"
  shows "plan_release \<lparr>rs_frontier = f, rs_origin_pages = (f - w) div b, rs_resident_pages = r\<rparr>
      \<lparr>rt_tokens = n, rt_window = w, rt_page_size = b\<rparr> =
    Inr \<lparr>rp_frontier = f + n, rp_origin_pages = (f + n - w) div b,
      rp_release_pages = (f + n - w) div b - (f - w) div b\<rparr> \<and>
    (f - w) div b \<le> (f + n - w) div b \<and> (f + n - w) div b - (f - w) div b \<le> r"
proof -
  have "(f - w) div b \<le> (f + n - w) div b" by (rule div_le_mono) simp
  moreover have "(f + n - w) div b \<le> div_ceil (f + n) b"
  proof -
    have "(f + n - w) div b \<le> (f + n) div b" by (rule div_le_mono) simp
    then show ?thesis by (simp add: div_ceil_def)
  qed
  moreover from this have "(f + n - w) div b - (f - w) div b \<le> r" using assms(3) by linarith
  ultimately show ?thesis using assms(1,2) by (simp add: plan_release_def Let_def saturating_sub_def)
qed

section \<open>A request step by step\<close>

text \<open>
  One forward step of a request: admit its tokens, advance the global family, move the
  window. The error of a refused admission leaves the request as it was.
\<close>

definition forward_step ::
  "usize \<Rightarrow> usize \<Rightarrow> gemma_kv \<Rightarrow> kv_pool \<Rightarrow> kv_pool \<Rightarrow> (gemma_error + gemma_kv) \<times> kv_pool \<times> kv_pool" where
  "forward_step n window kv lp gp =
     (case admit_tokens n kv lp gp of
        (Inl e, lp1, gp1) \<Rightarrow> (Inl e, lp1, gp1)
      | (Inr kv1, lp1, gp1) \<Rightarrow>
          (case advance_and_release n window (gk_local kv1) lp1 of
             Inl e \<Rightarrow> (Inl e, lp1, gp1)
           | Inr (l, lp2) \<Rightarrow> (Inr \<lparr>gk_local = l, gk_global = kv_advance n (gk_global kv1)\<rparr>, lp2, gp1)))"

abbreviation local_pages :: "gemma_kv \<Rightarrow> page_id list" where
  "local_pages kv \<equiv> permit_pages (sl_resident (gk_local kv))"

abbreviation global_pages :: "gemma_kv \<Rightarrow> page_id list" where
  "global_pages kv \<equiv> pm_pages (ks_permit (gk_global kv))"

text \<open>A completed step: the account holds again and pages only moved.\<close>

definition step_done ::
  "usize \<Rightarrow> usize \<Rightarrow> gemma_kv \<Rightarrow> kv_pool \<Rightarrow> kv_pool \<Rightarrow> gemma_kv \<Rightarrow> kv_pool \<Rightarrow> kv_pool \<Rightarrow> bool" where
  "step_done n window kv lp gp kv' lp' gp' \<longleftrightarrow>
     account_ok window kv' lp' gp' \<and> sl_frontier (gk_local kv') = sl_frontier (gk_local kv) + n \<and>
     mset (local_pages kv') + mset (free_pages lp') = mset (local_pages kv) + mset (free_pages lp) \<and>
     mset (global_pages kv') + mset (free_pages gp') = mset (global_pages kv) + mset (free_pages gp)"

lemma permit_pages_split: "mset (permit_pages (take k rs)) + mset (permit_pages (drop k rs)) = mset (permit_pages rs)"
  by (metis append_take_drop_id mset_append permit_pages_simps(3))

lemma account_pool: "account_ok window kv lp gp \<Longrightarrow> same_pool lp lp' \<Longrightarrow> same_pool gp gp' \<Longrightarrow> account_ok window kv lp' gp'"
  by (simp add: account_ok_def same_pool_def)

lemma forward_step_done:
  assumes ok: "account_ok window kv lp gp" and f: "sl_frontier (gk_local kv) + n \<le> usize_max"
    and adm: "admit_tokens n kv lp gp = (Inr kv1, lp1, gp1)"
  shows "\<exists>kv' lp'. forward_step n window kv lp gp = (Inr kv', lp', gp1) \<and> step_done n window kv lp gp kv' lp' gp1 \<and>
    same_pool lp lp' \<and> same_pool gp gp1"
proof -
  let ?f = "sl_frontier (gk_local kv)" and ?b = "kl_page_size (kp_layout lp)" and ?c = "kl_page_size (kp_layout gp)"
  have acc: "0 < ?b" "0 < ?c" "sl_pool (gk_local kv) = kp_addr lp" "pm_pool (ks_permit (gk_global kv)) = kp_addr gp"
      "ks_seq_len (gk_global kv) = ?f" "sl_origin_pages (gk_local kv) = (?f - window) div ?b"
      "sl_origin_pages (gk_local kv) + length (sl_resident (gk_local kv)) = div_ceil ?f ?b"
      "held_pages (gk_global kv) = div_ceil ?f ?c"
    using ok by (simp_all add: account_ok_def Let_def)
  obtain rs r where A: "same_pool lp lp1" "same_pool gp gp1" "gk_local kv1 = extend_resident rs (gk_local kv)"
      "one_page_each (kp_addr lp) rs" "length rs = div_ceil (?f + n) ?b - div_ceil ?f ?b"
      "mset (permit_pages rs) + mset (free_pages lp1) = mset (free_pages lp)"
      "gk_global kv1 = (gk_global kv)\<lparr>ks_permit := (ks_permit (gk_global kv))
          \<lparr>pm_pages := pm_pages (ks_permit (gk_global kv)) @ r\<rparr>\<rparr>"
      "length r = div_ceil (?f + n) ?c - div_ceil ?f ?c" "mset r + mset (free_pages gp1) = mset (free_pages gp)"
    using admit_needs_ok [OF acc(4) adm [unfolded admit_tokens_needs [OF ok f]]]
    by (auto simp: admitted_def)
  have mono: "div_ceil ?f b \<le> div_ceil (?f + n) b" if "0 < b" for b
    using that by (rule div_ceil_mono) simp
  define k where "k = (?f + n - window) div ?b - (?f - window) div ?b"
  define res where "res = sl_resident (gk_local kv) @ rs"
  define l where "l = (gk_local kv1)\<lparr>sl_resident := drop k res, sl_origin_pages := (?f + n - window) div ?b, sl_frontier := ?f + n\<rparr>"
  have len: "(?f - window) div ?b + length res = div_ceil (?f + n) ?b"
    using acc(6,7) A(5) mono [OF acc(1)] by (simp add: res_def)
  note pl = plan_release_total [OF f acc(1) len]
  have release: "advance_and_release n window (gk_local kv1) lp1 = Inr (l, fold drop_reservation (take k res) lp1)"
    using pl A(1,3) acc(6) by (simp add: advance_and_release_def extend_resident_def same_pool_def l_def k_def res_def)
  let ?lp = "fold drop_reservation (take k res) lp1" and ?kv = "\<lparr>gk_local = l, gk_global = kv_advance n (gk_global kv1)\<rparr>"
  have fold: "mset (free_pages ?lp) = mset (free_pages lp1) + mset (permit_pages (take k res))" "same_pool lp ?lp"
    using drop_reservations [of "take k res" lp1] same_pool_trans [OF A(1)] by auto
  have geo: "kp_layout ?lp = kp_layout lp" "kp_layout gp1 = kp_layout gp" "kp_addr ?lp = kp_addr lp" "kp_addr gp1 = kp_addr gp"
    using fold(2) A(2) by (simp_all add: same_pool_def)
  have "(?f + n - window) div ?b + length (drop k res) = div_ceil (?f + n) ?b"
    using pl len unfolding k_def length_drop by linarith
  moreover have "held_pages (kv_advance n (gk_global kv1)) = div_ceil (?f + n) ?c"
    using A(7,8) acc(8) mono [OF acc(2)] by (simp add: held_pages_def kv_advance_def)
  ultimately have "account_ok window ?kv ?lp gp1"
    unfolding account_ok_def Let_def geo using acc(1-5) f
    by (simp add: l_def A(3,7) extend_resident_def kv_advance_def)
  moreover have "mset (permit_pages (drop k res)) + mset (free_pages ?lp) = mset (local_pages kv) + mset (free_pages lp)"
    using fold(1) permit_pages_split [of k res] A(6) by (simp add: res_def ac_simps)
  ultimately have "step_done n window kv lp gp ?kv ?lp gp1"
    using A(7,9) by (simp add: step_done_def l_def kv_advance_def)
  then show ?thesis using adm release fold(2) A(2) by (simp add: forward_step_def)
qed

section \<open>Requests sharing the two pools\<close>

record gemma_world =
  gw_local :: kv_pool
  gw_global :: kv_pool
  gw_kvs :: "nat \<rightharpoonup> gemma_kv"

definition new_gemma_kv :: "kv_pool \<Rightarrow> kv_pool \<Rightarrow> gemma_kv" where
  "new_gemma_kv lp gp = \<lparr>gk_local = new_sliding lp, gk_global = kv_alloc gp\<rparr>"

inductive gemma_step :: "usize \<Rightarrow> gemma_world \<Rightarrow> gemma_world \<Rightarrow> bool" for window where
  begin_request: "gw_kvs w i = None \<Longrightarrow>
    gemma_step window w \<lparr>gw_local = gw_local w, gw_global = gw_global w,
      gw_kvs = (gw_kvs w)(i \<mapsto> new_gemma_kv (gw_local w) (gw_global w))\<rparr>"
| forward: "gw_kvs w i = Some kv \<Longrightarrow> sl_frontier (gk_local kv) + n \<le> usize_max \<Longrightarrow>
    forward_step n window kv (gw_local w) (gw_global w) = (Inr kv', lp, gp) \<Longrightarrow>
    gemma_step window w \<lparr>gw_local = lp, gw_global = gp, gw_kvs = (gw_kvs w)(i \<mapsto> kv')\<rparr>"
| refused: "gw_kvs w i = Some kv \<Longrightarrow> sl_frontier (gk_local kv) + n \<le> usize_max \<Longrightarrow>
    forward_step n window kv (gw_local w) (gw_global w) = (Inl e, lp, gp) \<Longrightarrow>
    gemma_step window w \<lparr>gw_local = lp, gw_global = gp, gw_kvs = gw_kvs w\<rparr>"
| finish: "gw_kvs w i = Some kv \<Longrightarrow>
    gemma_step window w \<lparr>gw_local = fold drop_reservation (sl_resident (gk_local kv)) (gw_local w),
      gw_global = drop_state (gk_global kv) (gw_global w), gw_kvs = (gw_kvs w)(i := None)\<rparr>"

inductive gemma_reachable :: "usize \<Rightarrow> kv_pool \<Rightarrow> kv_pool \<Rightarrow> gemma_world \<Rightarrow> bool" for window lp gp where
  start: "gemma_reachable window lp gp \<lparr>gw_local = lp, gw_global = gp, gw_kvs = Map.empty\<rparr>"
| step: "gemma_reachable window lp gp w \<Longrightarrow> gemma_step window w w' \<Longrightarrow> gemma_reachable window lp gp w'"

text \<open>Owners of the pages of one of the pools, given what each request holds of it.\<close>

fun gemma_owner :: "kv_pool \<Rightarrow> (gemma_kv \<Rightarrow> page_id list) \<Rightarrow> (nat \<rightharpoonup> gemma_kv) \<Rightarrow> owner \<Rightarrow> page_id list" where
  "gemma_owner P held kvs OFree = free_pages P"
| "gemma_owner P held kvs OPadding = kp_padding P"
| "gemma_owner P held kvs (OState i) = (case kvs i of None \<Rightarrow> [] | Some kv \<Rightarrow> held kv)"
| "gemma_owner P held kvs (OReserved k) = []"

definition pool_owned :: "kv_pool \<Rightarrow> (gemma_kv \<Rightarrow> page_id list) \<Rightarrow> (nat \<rightharpoonup> gemma_kv) \<Rightarrow> bool" where
  "pool_owned P held kvs \<longleftrightarrow> owned (pp_capacity (kp_pool P)) (gemma_owner P held kvs)"

lemma pool_owned_update:
  assumes "pool_owned P held kvs" and "same_pool P Q"
    and "mset (gemma_owner Q held (kvs(i := x)) (OState i)) + mset (free_pages Q) =
      mset (gemma_owner P held kvs (OState i)) + mset (free_pages P)"
  shows "pool_owned Q held (kvs(i := x))"
proof -
  have "owned (pp_capacity (kp_pool P)) (gemma_owner Q held (kvs(i := x)))"
  proof (rule owned_move [of _ _ OFree "OState i"])
    show "owned (pp_capacity (kp_pool P)) (gemma_owner P held kvs)" using assms(1) by (simp add: pool_owned_def)
    show "gemma_owner Q held (kvs(i := x)) c = gemma_owner P held kvs c" if "c \<noteq> OFree" "c \<noteq> OState i" for c
      using that assms(2) by (cases c) (auto simp: same_pool_def)
  qed (use assms(3) in \<open>auto simp: add.commute\<close>)
  then show ?thesis using assms(2) by (simp add: pool_owned_def same_pool_def)
qed

definition gemma_ok :: "usize \<Rightarrow> gemma_world \<Rightarrow> bool" where
  "gemma_ok window w \<longleftrightarrow>
     pool_owned (gw_local w) local_pages (gw_kvs w) \<and> pool_owned (gw_global w) global_pages (gw_kvs w) \<and>
     0 < kl_page_size (kp_layout (gw_local w)) \<and> 0 < kl_page_size (kp_layout (gw_global w)) \<and>
     (\<forall>i kv. gw_kvs w i = Some kv \<longrightarrow> account_ok window kv (gw_local w) (gw_global w))"

lemma gemma_ok_update:
  assumes "gemma_ok window w" and "same_pool (gw_local w) lp" and "same_pool (gw_global w) gp"
    and "mset (case x of None \<Rightarrow> [] | Some kv \<Rightarrow> local_pages kv) + mset (free_pages lp) =
      mset (case gw_kvs w i of None \<Rightarrow> [] | Some kv \<Rightarrow> local_pages kv) + mset (free_pages (gw_local w))"
    and "mset (case x of None \<Rightarrow> [] | Some kv \<Rightarrow> global_pages kv) + mset (free_pages gp) =
      mset (case gw_kvs w i of None \<Rightarrow> [] | Some kv \<Rightarrow> global_pages kv) + mset (free_pages (gw_global w))"
    and "\<And>kv. x = Some kv \<Longrightarrow> account_ok window kv lp gp"
  shows "gemma_ok window \<lparr>gw_local = lp, gw_global = gp, gw_kvs = (gw_kvs w)(i := x)\<rparr>"
proof -
  have "pool_owned lp local_pages ((gw_kvs w)(i := x))"
    by (rule pool_owned_update [of "gw_local w"]) (use assms(1,2,4) in \<open>auto simp: gemma_ok_def\<close>)
  moreover have "pool_owned gp global_pages ((gw_kvs w)(i := x))"
    by (rule pool_owned_update [of "gw_global w"]) (use assms(1,3,5) in \<open>auto simp: gemma_ok_def\<close>)
  moreover have "account_ok window kv lp gp" if "((gw_kvs w)(i := x)) j = Some kv" for j kv
    using that assms(1,6) account_pool [OF _ assms(2,3)] by (auto simp: gemma_ok_def split: if_splits)
  ultimately show ?thesis using assms(1-3) by (simp add: gemma_ok_def same_pool_def)
qed

lemma refused_pools:
  assumes "account_ok window kv lp gp" and "sl_frontier (gk_local kv) + n \<le> usize_max"
    and "forward_step n window kv lp gp = (Inl e, lp', gp')"
  shows "same_pool lp lp' \<and> gp' = gp \<and> mset (free_pages lp') = mset (free_pages lp)"
proof (cases "admit_tokens n kv lp gp")
  case (fields res lp1 gp1)
  show ?thesis
  proof (cases res)
    case (Inl e')
    have "pm_pool (ks_permit (gk_global kv)) = kp_addr gp" using assms(1) by (simp add: account_ok_def Let_def)
    from admit_needs_ok [OF this fields [unfolded admit_tokens_needs [OF assms(1,2)]]] Inl fields assms(3)
    show ?thesis by (simp add: forward_step_def rolled_back_def)
  next
    case (Inr kv1)
    then show ?thesis using forward_step_done [OF assms(1,2)] fields assms(3) by fastforce
  qed
qed

lemma gemma_ok_step:
  assumes "gemma_step window w w'" and "gemma_ok window w"
  shows "gemma_ok window w'"
  using assms
proof induction
  case (begin_request w i)
  have "account_ok window (new_gemma_kv (gw_local w) (gw_global w)) (gw_local w) (gw_global w)"
    using begin_request(2)
    by (simp add: gemma_ok_def account_ok_def new_gemma_kv_def new_sliding_def kv_alloc_def held_pages_def)
  then show ?case
    using gemma_ok_update [OF begin_request(2), of "gw_local w" "gw_global w"
        "Some (new_gemma_kv (gw_local w) (gw_global w))" i] begin_request(1)
    by (simp add: new_gemma_kv_def new_sliding_def kv_alloc_def)
next
  case (forward w i kv n kv' lp gp)
  have acc: "account_ok window kv (gw_local w) (gw_global w)" using forward by (simp add: gemma_ok_def)
  obtain kv1 lp1 gp1 where adm: "admit_tokens n kv (gw_local w) (gw_global w) = (Inr kv1, lp1, gp1)"
    using forward(3) by (auto simp: forward_step_def split: prod.splits sum.splits)
  from forward_step_done [OF acc forward(2) adm] forward(3)
  have "step_done n window kv (gw_local w) (gw_global w) kv' lp gp" "same_pool (gw_local w) lp" "same_pool (gw_global w) gp"
    by auto
  then show ?case
    using gemma_ok_update [OF forward(4), of lp gp "Some kv'" i] forward(1) by (simp add: step_done_def)
next
  case (refused w i kv n e lp gp)
  have acc: "account_ok window kv (gw_local w) (gw_global w)" using refused by (simp add: gemma_ok_def)
  note r = refused_pools [OF acc refused(2,3)]
  then have "account_ok window kv lp gp" using account_pool [OF acc] by simp
  then have "gemma_ok window \<lparr>gw_local = lp, gw_global = gp, gw_kvs = (gw_kvs w)(i := Some kv)\<rparr>"
    using gemma_ok_update [OF refused(4), of lp gp "Some kv" i] refused(1) r by simp
  then show ?case using refused(1) by (simp add: fun_upd_idem)
next
  case (finish w i kv)
  have "same_pool (gw_global w) (drop_state (gk_global kv) (gw_global w))"
      "mset (free_pages (drop_state (gk_global kv) (gw_global w))) = mset (free_pages (gw_global w)) + mset (global_pages kv)"
    by (simp_all add: drop_state_def same_pool_def pool.release_moves pool.release_capacity)
  then show ?case
    using gemma_ok_update [OF finish(2), of _ _ None i] finish(1) drop_reservations [of "sl_resident (gk_local kv)" "gw_local w"]
    by (simp add: add.commute)
qed

definition gemma_pools :: "kv_pool \<Rightarrow> kv_pool \<Rightarrow> bool" where
  "gemma_pools lp gp \<longleftrightarrow>
     pool_owned lp local_pages Map.empty \<and> pool_owned gp global_pages Map.empty \<and>
     0 < kl_page_size (kp_layout lp) \<and> 0 < kl_page_size (kp_layout gp)"

lemma gemma_reachable_ok:
  assumes "gemma_reachable window lp gp w" and "gemma_pools lp gp"
  shows "gemma_ok window w"
  using assms(1)
proof induction
  case start
  then show ?case using assms(2) by (simp add: gemma_ok_def gemma_pools_def)
next
  case (step w w')
  then show ?case using gemma_ok_step by blast
qed

text \<open>A freshly created pool has all its pages on the free list but the padding page.\<close>

lemma new_pool_owned:
  assumes "kv_pool_with_storage dev addr nl nh hdim psz n st = Inr P"
  shows "pool_owned P held Map.empty"
proof -
  have "owned n (gemma_owner P held Map.empty)"
  proof (rule owned_move [of _ "(\<lambda>_. [])(OFree := [0..<n])" OFree OPadding])
    show "gemma_owner P held Map.empty c = ((\<lambda>_. [])(OFree := [0..<n])) c" if "c \<noteq> OFree" "c \<noteq> OPadding" for c
      using that by (cases c) auto
  qed (use new_pool_Inr(4) [OF assms] in \<open>auto simp: owned_def add.commute\<close>)
  then show ?thesis using new_pool_Inr(1) [OF assms] by (simp add: pool_owned_def)
qed

section \<open>Properties of the Gemma 4 KV state\<close>

definition demo_global :: kv_pool where
  "demo_global = demo_pool\<lparr>kp_addr := 1\<rparr>"

lemma demo_gemma_pools: "gemma_pools demo_pool demo_global"
proof -
  have "kv_pool_with_storage (\<lambda>_. None) 1 1 1 1 16 4 Bf16 = Inr demo_global"
    by (simp add: demo_global_def demo_pool_def demo_layout_def kv_pool_with_storage_def layout_with_storage_def
        layout_strides_def checked_mul_def usize_max_def try_acquire_many_def new_page_pool_def div_ceil_def demo_upt)
  from new_pool_owned [OF this] new_pool_owned [OF demo_pool_new] show ?thesis
    by (simp add: gemma_pools_def demo_global_def demo_pool_def demo_layout_def)
qed

definition demo_gemma :: gemma_kv where
  "demo_gemma =
     \<lparr>gk_local = \<lparr>sl_pool = 0, sl_resident = [\<lparr>pm_pool = 0, pm_pages = [2]\<rparr>], sl_origin_pages = 1, sl_frontier = 32\<rparr>,
      gk_global = \<lparr>ks_permit = \<lparr>pm_pool = 1, pm_pages = [1, 2]\<rparr>, ks_seq_len = 32\<rparr>\<rparr>"

definition demo_gemma_world :: gemma_world where
  "demo_gemma_world =
     \<lparr>gw_local = demo_pool\<lparr>kp_pool := \<lparr>pp_capacity = 4, pp_free = [3, 1]\<rparr>\<rparr>,
      gw_global = demo_global\<lparr>kp_pool := \<lparr>pp_capacity = 4, pp_free = [3]\<rparr>\<rparr>,
      gw_kvs = [1 \<mapsto> demo_gemma]\<rparr>"

lemma demo_gemma_reachable: "gemma_reachable 16 demo_pool demo_global demo_gemma_world"
proof -
  let ?kv = "new_gemma_kv demo_pool demo_global"
  let ?w = "\<lparr>gw_local = demo_pool, gw_global = demo_global, gw_kvs = [1 \<mapsto> ?kv]\<rparr>"
  have "gemma_reachable 16 demo_pool demo_global ?w"
    using gemma_reachable.step [OF gemma_reachable.start gemma_step.begin_request, of demo_pool demo_global 1 16] by simp
  moreover have "forward_step 32 16 ?kv demo_pool demo_global =
      (Inr demo_gemma, gw_local demo_gemma_world, gw_global demo_gemma_world)"
    by (simp add: forward_step_def admit_tokens_def admit_needs_def need_of_def pages_to_reserve_def new_gemma_kv_def
        new_sliding_def kv_alloc_def demo_pool_def demo_layout_def demo_global_def try_reserve_def try_acquire_many_def
        div_ceil_def held_pages_def commit_reservation_def absorb_def extend_resident_def advance_and_release_def
        plan_release_def saturating_sub_def kv_advance_def drop_reservation_def drop_permit_def demo_gemma_def
        demo_gemma_world_def usize_max_def numeral_2_eq_2)
  ultimately show ?thesis
    using gemma_reachable.step [OF _ gemma_step.forward, of 16 demo_pool demo_global ?w 1 ?kv 32]
    by (simp add: demo_gemma_world_def new_gemma_kv_def new_sliding_def usize_max_def)
qed

text \<open>
  C33: However requests start, run and end over the two pools, admissions that are refused
  included, no page of either family is held by two requests or lost: what a request holds,
  what the others hold, the padding page and the free list are disjoint and make up the pool.
\<close>

theorem gemma_pages_owned_once:
  assumes "gemma_pools lp gp" and "gemma_reachable window lp gp w"
  shows "owned (pp_capacity (kp_pool (gw_local w))) (gemma_owner (gw_local w) local_pages (gw_kvs w)) \<and>
    owned (pp_capacity (kp_pool (gw_global w))) (gemma_owner (gw_global w) global_pages (gw_kvs w))"
  using gemma_reachable_ok [OF assms(2,1)] by (simp add: gemma_ok_def pool_owned_def)

theorem gemma_pages_owned_once_witness:
  "owned 4 (gemma_owner (gw_local demo_gemma_world) local_pages [1 \<mapsto> demo_gemma])"
  using gemma_pages_owned_once [OF demo_gemma_pools demo_gemma_reachable] by (simp add: demo_gemma_world_def)

text \<open>
  C34: The sliding window is always resident and nothing more than a page is wasted: the pages
  a request holds cover every key position the next query can read, the last
  \<open>window - 1\<close> before the frontier, and the first page it holds is one the next query reaches
  or the one before it. The global family covers everything.
\<close>

theorem window_stays_resident:
  assumes "gemma_pools lp gp" and "gemma_reachable window lp gp w" and "gw_kvs w i = Some kv"
  shows "let b = kl_page_size (kp_layout (gw_local w)); first = sl_origin_pages (gk_local kv);
      f = sl_frontier (gk_local kv) in
    (\<forall>p < f. f \<le> p + window \<longrightarrow> first * b \<le> p \<and> p < (first + length (sl_resident (gk_local kv))) * b) \<and>
    f < (first + 1) * b + window \<and>
    f \<le> held_pages (gk_global kv) * kl_page_size (kp_layout (gw_global w))"
proof -
  let ?b = "kl_page_size (kp_layout (gw_local w))" and ?f = "sl_frontier (gk_local kv)"
  let ?o = "sl_origin_pages (gk_local kv)"
  have account: "account_ok window kv (gw_local w) (gw_global w)"
    using gemma_reachable_ok [OF assms(2,1)] assms(3) by (simp add: gemma_ok_def)
  have acc: "0 < ?b" "0 < kl_page_size (kp_layout (gw_global w))" "?o = (?f - window) div ?b"
      "?o + length (sl_resident (gk_local kv)) = div_ceil ?f ?b"
      "held_pages (gk_global kv) = div_ceil ?f (kl_page_size (kp_layout (gw_global w)))"
    using account unfolding account_ok_def Let_def by blast+
  have "?o * ?b \<le> ?f - window" using acc(3) by simp
  moreover have "?f - window < (?o + 1) * ?b"
    using acc(1,3) by (metis Suc_eq_plus1 dividend_less_div_times mult.commute mult_Suc add.commute)
  moreover have "?f \<le> (?o + length (sl_resident (gk_local kv))) * ?b"
    unfolding acc(4) using acc(1) by (rule div_ceil_upper)
  moreover have "?f \<le> held_pages (gk_global kv) * kl_page_size (kp_layout (gw_global w))"
    unfolding acc(5) using acc(2) by (rule div_ceil_upper)
  ultimately show ?thesis unfolding Let_def by auto
qed

theorem window_stays_resident_witness:
  "let first = sl_origin_pages (gk_local demo_gemma); f = sl_frontier (gk_local demo_gemma) in
    (\<forall>p < f. f \<le> p + 16 \<longrightarrow> first * 16 \<le> p \<and> p < (first + length (sl_resident (gk_local demo_gemma))) * 16) \<and>
    f < (first + 1) * 16 + 16"
  using window_stays_resident [OF demo_gemma_pools demo_gemma_reachable, of 1 demo_gemma]
  by (simp add: demo_gemma_world_def demo_pool_def demo_layout_def Let_def)

text \<open>
  C35: Admission is atomic across the pools: it is refused exactly when one of them cannot give
  the pages missing up to the new length, and then both have the pages they had before, and
  the error tells what was missing and what is free.
\<close>

theorem admission_is_atomic:
  assumes "account_ok window kv lp gp" and "sl_frontier (gk_local kv) + n \<le> usize_max"
    and "admit_tokens n kv lp gp = (res, lp', gp')"
  shows "let m = div_ceil (sl_frontier (gk_local kv) + n) (kl_page_size (kp_layout lp)) -
        div_ceil (sl_frontier (gk_local kv)) (kl_page_size (kp_layout lp));
      k = div_ceil (sl_frontier (gk_local kv) + n) (kl_page_size (kp_layout gp)) -
        div_ceil (sl_frontier (gk_local kv)) (kl_page_size (kp_layout gp)) in
    case res of
      Inr kv' \<Rightarrow> m \<le> length (free_pages lp) \<and> k \<le> length (free_pages gp) \<and>
        length (sl_resident (gk_local kv')) = length (sl_resident (gk_local kv)) + m \<and>
        held_pages (gk_global kv') = held_pages (gk_global kv) + k
    | Inl e \<Rightarrow> (length (free_pages lp) < m \<or> length (free_pages gp) < k) \<and>
        mset (free_pages lp') = mset (free_pages lp) \<and> gp' = gp \<and>
        e = Refused m (length (free_pages lp)) (m \<le> length (free_pages lp)) k (length (free_pages gp)) False"
proof -
  have a: "pm_pool (ks_permit (gk_global kv)) = kp_addr gp" using assms(1) by (simp add: account_ok_def Let_def)
  note ok = admit_needs_ok [OF a assms(3) [unfolded admit_tokens_needs [OF assms(1,2)]]]
  show ?thesis
  proof (cases res)
    case (Inl e)
    then show ?thesis using ok unfolding Let_def rolled_back_def by simp
  next
    case (Inr kv')
    have "length xs \<le> length zs" if "mset xs + mset ys = mset zs" for xs ys zs :: "nat list"
      using that by (metis le_add1 size_mset size_union)
    moreover have "length (permit_pages rs) = length rs" if "one_page_each a rs" for a rs
      using that by (induction rs) (auto simp: one_page_each_def)
    ultimately show ?thesis
      using ok Inr unfolding Let_def admitted_def
      by (auto simp: extend_resident_def held_pages_def) metis+
  qed
qed

theorem admission_is_atomic_witness:
  "\<exists>lp'. admit_tokens 40 demo_gemma (gw_local demo_gemma_world) (gw_global demo_gemma_world) =
     (Inl (Refused 3 2 False 3 1 False), lp', gw_global demo_gemma_world) \<and> mset (free_pages lp') = {#1, 3#}"
proof -
  obtain res lp' gp' where r: "admit_tokens 40 demo_gemma (gw_local demo_gemma_world) (gw_global demo_gemma_world) =
      (res, lp', gp')" by (metis prod_cases3)
  have "account_ok 16 demo_gemma (gw_local demo_gemma_world) (gw_global demo_gemma_world)"
    by (simp add: account_ok_def demo_gemma_def demo_gemma_world_def demo_pool_def demo_global_def demo_layout_def
        div_ceil_def held_pages_def)
  note atomic = admission_is_atomic [OF this _ r]
  have geo: "sl_frontier (gk_local demo_gemma) = 32" "kl_page_size (kp_layout (gw_local demo_gemma_world)) = 16"
      "kl_page_size (kp_layout (gw_global demo_gemma_world)) = 16"
      "free_pages (gw_local demo_gemma_world) = [3, 1]" "free_pages (gw_global demo_gemma_world) = [3]"
    by (simp_all add: demo_gemma_def demo_gemma_world_def demo_pool_def demo_global_def demo_layout_def)
  show ?thesis
    using atomic r by (cases res) (simp_all add: geo div_ceil_def usize_max_def numeral_2_eq_2 add_mset_commute)
qed

end
