(* ===== verification/TinyLFU.thy ===== *)
theory TinyLFU
  imports Prelude
begin

text \<open>
  The frequency sketch of the block manager, \<open>kvbm/kvbm-logical/src/tinylfu.rs\<close>: four 4-bit
  counters per key in a table of 64-bit words, with a periodic halving. The xxh3 hash is a
  parameter, a function of the key and the seed.
\<close>

unbundle bit_operations_syntax

section \<open>The sketch\<close>

type_synonym 'k sketch_hash = "'k \<Rightarrow> nat \<Rightarrow> u64"

text \<open>\<open>FixedDecayPolicy\<close>; a policy decides on the increments since the last reset.\<close>

definition from_capacity :: "usize \<Rightarrow> u32" where
  "from_capacity capacity = of_nat (min (saturating_mul capacity 10) 4294967295)"

definition should_decay :: "u32 \<Rightarrow> u32 \<Rightarrow> bool" where
  "should_decay sample_size increments \<longleftrightarrow> sample_size \<le> increments"

record sketch =
  sk_table :: "u64 list"
  sk_size :: u32
  sk_decay :: "u32 \<Rightarrow> bool"

definition with_decay_policy :: "usize \<Rightarrow> (u32 \<Rightarrow> bool) \<Rightarrow> sketch" where
  "with_decay_policy capacity decay =
     \<lparr>sk_table = replicate (max 1 (capacity div 4)) 0, sk_size = 0, sk_decay = decay\<rparr>"

definition new_sketch :: "usize \<Rightarrow> sketch" where
  "new_sketch capacity = with_decay_policy capacity (should_decay (from_capacity capacity))"

definition reset_mask :: u64 where
  "reset_mask = 0x7777777777777777"

definition one_mask :: u64 where
  "one_mask = 0x1111111111111111"

definition counter_mask :: "nat \<Rightarrow> u64" where
  "counter_mask k = push_bit (4 * k) 0xF"

text \<open>The slot of a key under a seed: an entry of the table and a counter in it.\<close>

definition table_index :: "'k sketch_hash \<Rightarrow> 'k \<Rightarrow> nat \<Rightarrow> sketch \<Rightarrow> nat" where
  "table_index hash key seed s = unat (hash key seed) mod length (sk_table s)"

definition counter_index :: "'k sketch_hash \<Rightarrow> 'k \<Rightarrow> nat \<Rightarrow> nat" where
  "counter_index hash key seed = unat (hash key seed AND 15)"

definition count_at :: "nat \<Rightarrow> nat \<Rightarrow> sketch \<Rightarrow> u8" where
  "count_at t k s = ucast (drop_bit (4 * k) (sk_table s ! t AND counter_mask k))"

definition increment_at :: "nat \<Rightarrow> nat \<Rightarrow> sketch \<Rightarrow> bool \<times> sketch" where
  "increment_at t k s =
     (if sk_table s ! t AND counter_mask k \<noteq> counter_mask k
      then (True, s\<lparr>sk_table := (sk_table s)[t := sk_table s ! t + push_bit (4 * k) 1]\<rparr>)
      else (False, s))"

definition count_ones :: "u64 \<Rightarrow> u32" where
  "count_ones e = of_nat (length (filter (bit e) [0..<64]))"

text \<open>The halving of all counters; the count of odd counters is a \<open>u32\<close> sum.\<close>

definition halve_entry :: "u64 \<Rightarrow> u64" where
  "halve_entry e = drop_bit 1 e AND reset_mask"

definition reset :: "sketch \<Rightarrow> sketch" where
  "reset s =
     (let odd = sum_list (map (\<lambda>e. count_ones (e AND one_mask)) (sk_table s));
          half = drop_bit 1 (sk_size s); d = drop_bit 2 odd in
      s\<lparr>sk_table := map halve_entry (sk_table s), sk_size := (if d \<le> half then half - d else 0)\<rparr>)"

text \<open>The loop over the seeds, and \<open>increment\<close>.\<close>

fun increment_seeds :: "'k sketch_hash \<Rightarrow> 'k \<Rightarrow> nat list \<Rightarrow> bool \<Rightarrow> sketch \<Rightarrow> bool \<times> sketch" where
  "increment_seeds hash key [] added s = (added, s)"
| "increment_seeds hash key (i # seeds) added s =
     (let (b, s') = increment_at (table_index hash key i s) (counter_index hash key i) s in
      increment_seeds hash key seeds (added \<or> b) s')"

definition seeds :: "nat list" where
  "seeds = [0, 1, 2, 3]"

definition increment :: "'k sketch_hash \<Rightarrow> 'k \<Rightarrow> sketch \<Rightarrow> sketch" where
  "increment hash key s =
     (if sk_table s = [] then s
      else (let (added, s1) = increment_seeds hash key seeds False s in
        if added then
          (let s2 = s1\<lparr>sk_size := sk_size s1 + 1\<rparr> in
           if sk_decay s2 (sk_size s2) then reset s2 else s2)
        else s1))"

definition estimate :: "'k sketch_hash \<Rightarrow> 'k \<Rightarrow> sketch \<Rightarrow> u32" where
  "estimate hash key s =
     (if sk_table s = [] then 0
      else fold (\<lambda>i m. min m (ucast (count_at (table_index hash key i s) (counter_index hash key i) s)))
             seeds (- 1))"

text \<open>The trackers the backends read: the sketch behind a lock, and one that counts nothing.\<close>

definition tracker_touch :: "'k sketch_hash \<Rightarrow> 'k \<Rightarrow> sketch \<Rightarrow> sketch" where
  "tracker_touch hash key s = increment hash key s"

definition tracker_count :: "'k sketch_hash \<Rightarrow> 'k \<Rightarrow> sketch \<Rightarrow> u32" where
  "tracker_count hash key s = estimate hash key s"

definition noop_count :: "'k \<Rightarrow> u32" where
  "noop_count key = 0"

section \<open>Counters of an entry\<close>

definition counter :: "u64 \<Rightarrow> nat \<Rightarrow> nat" where
  "counter e k = unat e div 16 ^ k mod 16"

lemma counter_bits: "counter e k = unat (take_bit 4 (drop_bit (4 * k) e))"
proof -
  have "counter e k = take_bit 4 (drop_bit (4 * k) (unat e))"
    by (simp add: counter_def take_bit_eq_mod drop_bit_eq_div power_mult)
  thus ?thesis
    by (simp only: unsigned_take_bit_eq unat_drop_bit_eq)
qed

lemma counter_le: "counter e k \<le> 15"
  by (simp add: counter_def)

lemma fifteen_mask: "(15 :: u64) = mask 4"
  by (simp add: mask_eq_exp_minus_1)

lemma and_counter_mask: "e AND counter_mask k = push_bit (4 * k) (take_bit 4 (drop_bit (4 * k) e))"
  unfolding counter_mask_def fifteen_mask
  by (rule bit_word_eqI) (auto simp: bit_simps)

lemma drop_push_counter:
  assumes "k < 16"
  shows "drop_bit (4 * k) (push_bit (4 * k) (take_bit 4 (x :: u64))) = take_bit 4 x"
  using assms by (intro bit_word_eqI) (auto simp: bit_simps)

lemma at_full:
  assumes "k < 16"
  shows "e AND counter_mask k = counter_mask k \<longleftrightarrow> counter e k = 15"
proof -
  let ?x = "take_bit 4 (drop_bit (4 * k) e)"
  have m: "counter_mask k = push_bit (4 * k) (take_bit 4 15)"
    by (simp add: counter_mask_def)
  have "e AND counter_mask k = counter_mask k \<longleftrightarrow> ?x = take_bit 4 15"
    unfolding and_counter_mask unfolding m by (metis drop_push_counter assms)
  also have "\<dots> \<longleftrightarrow> counter e k = 15"
    by (simp add: counter_bits word_unat_eq_iff)
  finally show ?thesis .
qed

lemma count_at_counter:
  assumes "k < 16"
  shows "unat (count_at t k s) = counter (sk_table s ! t) k"
proof -
  have "counter (sk_table s ! t) k < 256"
    using counter_le [of "sk_table s ! t" k] by linarith
  thus ?thesis
    unfolding count_at_def and_counter_mask drop_push_counter [OF assms] unsigned_ucast_eq
      counter_bits [symmetric]
    by (simp add: take_bit_nat_eq_self)
qed

lemma nat_add_div:
  fixes v :: nat
  assumes "v div 16 ^ k mod 16 < 15" and "k < j"
  shows "(v + 16 ^ k) div 16 ^ j = v div 16 ^ j"
proof -
  obtain d where d: "j = k + Suc d"
    using assms(2) less_imp_Suc_add by fastforce
  have "(q + 1) div 16 = q div 16" if "q mod 16 < 15" for q :: nat
    using that by (subst div_add1_eq) (simp add: div_eq_0_iff)
  hence "(v div 16 ^ k + 1) div 16 = v div 16 ^ k div 16"
    using assms(1) by blast
  moreover have "(v + 16 ^ k) div 16 ^ k = v div 16 ^ k + 1"
    by (subst div_add_self2) simp_all
  ultimately have "(v + 16 ^ k) div 16 ^ k div 16 div 16 ^ d = v div 16 ^ k div 16 div 16 ^ d"
    by simp
  moreover have "(16 :: nat) ^ j = 16 ^ k * 16 * 16 ^ d"
    by (simp add: d power_add)
  ultimately show ?thesis
    by (simp only: div_mult2_eq)
qed

lemma nat_add_div_mod:
  fixes v :: nat
  assumes "v div 16 ^ k mod 16 < 15"
  shows "(v + 16 ^ k) div 16 ^ j mod 16 = v div 16 ^ j mod 16 + (if j = k then 1 else 0)"
proof (cases "j \<le> k")
  case True
  then obtain d where d: "k = j + d"
    using le_Suc_ex by blast
  have "(v + 16 ^ k) div 16 ^ j = v div 16 ^ j + 16 ^ d"
    by (simp add: d power_add)
  thus ?thesis
    using assms by (cases d) (auto simp: d mod_Suc)
qed (use nat_add_div [OF assms, of j] in simp)

lemma counter_raise:
  assumes "k < 16" and "counter e k < 15"
  shows "counter (e + push_bit (4 * k) 1) j = counter e j + (if j = k then 1 else 0)"
proof -
  have small: "unat e div 16 ^ k mod 16 < 15"
    using assms(2) by (simp add: counter_def)
  have "(16 :: nat) ^ k < 16 ^ 16"
    using assms(1) by (rule power_strict_increasing) simp
  hence one: "unat (push_bit (4 * k) (1 :: u64)) = 16 ^ k"
    unfolding unsigned_push_bit_eq by (simp add: take_bit_eq_mod push_bit_eq_mult power_mult)
  have "unat e < 2 ^ 64"
    using unsigned_less [of e] by simp
  hence "(unat e + 16 ^ k) div 16 ^ 16 = 0"
    using nat_add_div [OF small assms(1)] by simp
  hence "unat e + 16 ^ k < 2 ^ 64"
    by (simp add: div_eq_0_iff)
  hence *: "unat (e + push_bit (4 * k) 1) = unat e + 16 ^ k"
    by (simp add: unat_word_ariths one del: push_bit_of_1)
  show ?thesis
    unfolding counter_def * by (rule nat_add_div_mod [OF small])
qed

section \<open>Halving\<close>

lemma bit_reset_mask: "bit reset_mask n \<longleftrightarrow> n < 64 \<and> n mod 4 \<noteq> 3"
proof (cases "n < 64")
  case True
  have "\<forall>n \<in> set [0..<64]. bit reset_mask n \<longleftrightarrow> n mod 4 \<noteq> 3"
    by code_simp
  thus ?thesis
    using True by simp
qed (simp add: bit_simps impossible_bit)

lemma counter_halve:
  assumes "k < 16"
  shows "counter (halve_entry e) k = counter e k div 2"
proof -
  have "4 * k + n < 64 \<and> (4 * k + n) mod 4 \<noteq> 3 \<longleftrightarrow> n < 3" if "n < 4" for n
    using assms that by presburger
  hence "take_bit 4 (drop_bit (4 * k) (halve_entry e)) = drop_bit 1 (take_bit 4 (drop_bit (4 * k) e))"
    using assms by (intro bit_word_eqI) (auto simp: halve_entry_def bit_simps bit_reset_mask)
  hence "counter (halve_entry e) k = drop_bit 1 (counter e k)"
    by (simp only: counter_bits unat_drop_bit_eq)
  thus ?thesis
    by (simp add: drop_bit_eq_div)
qed

section \<open>The sketch as a table of counters\<close>

definition sketch_slot :: "'k sketch_hash \<Rightarrow> nat \<Rightarrow> 'k \<Rightarrow> nat \<Rightarrow> nat \<times> nat" where
  "sketch_slot hash n key i = (unat (hash key i) mod n, counter_index hash key i)"

definition slot_count :: "sketch \<Rightarrow> nat \<times> nat \<Rightarrow> nat" where
  "slot_count s p = counter (sk_table s ! fst p) (snd p)"

abbreviation width :: "sketch \<Rightarrow> nat" where
  "width s \<equiv> length (sk_table s)"

lemma counter_index_less: "counter_index hash key i < 16"
proof -
  have "hash key i AND 15 = take_bit 4 (hash key i)"
    unfolding fifteen_mask by (simp add: take_bit_eq_mask)
  hence "counter_index hash key i = counter (hash key i) 0"
    by (simp add: counter_index_def counter_bits)
  thus ?thesis
    using counter_le [of "hash key i" 0] by simp
qed

lemma sketch_slot_in_table: "0 < n \<Longrightarrow> sketch_slot hash n key i = (t, k) \<Longrightarrow> t < n \<and> k < 16"
  by (auto simp: sketch_slot_def counter_index_less)

lemma slot_count_le: "slot_count s p \<le> 15"
  by (simp add: slot_count_def counter_le)

lemma increment_at_counts:
  assumes "t < width s" and "k < 16" and "increment_at t k s = (b, s')"
  shows "b \<longleftrightarrow> slot_count s (t, k) < 15"
    and "slot_count s' (t', k') = min 15 (slot_count s (t', k') + (if (t', k') = (t, k) then 1 else 0))"
    and "width s' = width s" and "sk_size s' = sk_size s" and "sk_decay s' = sk_decay s"
proof -
  have le: "counter (sk_table s ! t) j \<le> 15" for t j
    by (rule counter_le)
  show "b \<longleftrightarrow> slot_count s (t, k) < 15" "width s' = width s" "sk_size s' = sk_size s" "sk_decay s' = sk_decay s"
    using assms le [of t k] by (auto simp: increment_at_def at_full slot_count_def split: if_splits)
  show "slot_count s' (t', k') = min 15 (slot_count s (t', k') + (if (t', k') = (t, k) then 1 else 0))"
  proof (cases "counter (sk_table s ! t) k = 15")
    case True
    thus ?thesis
      using assms le [of t' k'] by (auto simp: increment_at_def at_full slot_count_def)
  next
    case False
    hence "counter (sk_table s ! t) k < 15"
      using le [of t k] by simp
    from counter_raise [OF assms(2) this] show ?thesis
      using assms False le [of t' k'] le [of t k] by (auto simp: increment_at_def at_full slot_count_def nth_list_update)
  qed
qed

definition seed_hits :: "'k sketch_hash \<Rightarrow> nat \<Rightarrow> nat list \<Rightarrow> 'k \<Rightarrow> nat \<times> nat \<Rightarrow> nat" where
  "seed_hits hash n is key p = length (filter (\<lambda>i. sketch_slot hash n key i = p) is)"

lemma increment_seeds_counts:
  assumes "sk_table s \<noteq> []" and "increment_seeds hash key is added s = (b, s')"
  shows "width s' = width s \<and> sk_size s' = sk_size s \<and> sk_decay s' = sk_decay s \<and>
    slot_count s' p = min 15 (slot_count s p + seed_hits hash (width s) is key p)"
  using assms
proof (induction "is" arbitrary: added s)
  case Nil
  thus ?case
    using slot_count_le [of s p] by (simp add: seed_hits_def)
next
  case (Cons i "is")
  obtain b1 s1 where s1: "increment_at (table_index hash key i s) (counter_index hash key i) s = (b1, s1)"
    by fastforce
  have t: "table_index hash key i s < width s"
    using Cons.prems(1) by (simp add: table_index_def)
  note at = increment_at_counts [OF t counter_index_less s1]
  have "sk_table s1 \<noteq> []"
    using at(3) Cons.prems(1) by (metis length_0_conv)
  from Cons.IH [OF this, of "added \<or> b1"] Cons.prems(2) s1 at(3-5)
    at(2) [of "fst p" "snd p"] slot_count_le [of s p]
  show ?case
    by (auto simp: seed_hits_def sketch_slot_def table_index_def split: if_splits)
qed

section \<open>Estimates\<close>

definition key_hits :: "'k sketch_hash \<Rightarrow> nat \<Rightarrow> 'k list \<Rightarrow> nat \<times> nat \<Rightarrow> nat" where
  "key_hits hash n keys p = (\<Sum>x\<leftarrow>keys. seed_hits hash n seeds x p)"

lemma unat_min: "unat (min a b) = min (unat a) (unat (b :: u32))"
  by (simp add: min_def word_le_nat_alt)

lemma estimate_min:
  assumes "sk_table s \<noteq> []"
  shows "unat (estimate hash key s) = Min ((\<lambda>i. slot_count s (sketch_slot hash (width s) key i)) ` set seeds)"
proof -
  define c where "c i = (ucast (count_at (table_index hash key i s) (counter_index hash key i) s) :: u32)" for i
  have c: "unat (c i) = slot_count s (sketch_slot hash (width s) key i)" for i
  proof -
    have "unat (count_at (table_index hash key i s) (counter_index hash key i) s) =
        slot_count s (sketch_slot hash (width s) key i)"
      by (simp add: count_at_counter counter_index_less slot_count_def sketch_slot_def table_index_def)
    moreover have "slot_count s (sketch_slot hash (width s) key i) < 2 ^ 32"
      using slot_count_le [of s "sketch_slot hash (width s) key i"] by simp
    ultimately show ?thesis
      unfolding c_def unsigned_ucast_eq by (simp add: take_bit_nat_eq_self)
  qed
  have "estimate hash key s = fold (\<lambda>i m. min m (c i)) seeds (- 1)"
    using assms by (simp add: estimate_def c_def)
  moreover have "min (- 1) (c 0) = c 0"
    by (rule min.absorb2) (rule word_n1_ge)
  ultimately have "estimate hash key s = min (min (min (c 0) (c 1)) (c 2)) (c 3)"
    by (simp add: seeds_def)
  hence "unat (estimate hash key s) = min (min (min (unat (c 0)) (unat (c 1))) (unat (c 2))) (unat (c 3))"
    by (simp only: unat_min)
  thus ?thesis
    unfolding c by (simp add: seeds_def min.assoc)
qed

lemma increment_counts:
  assumes "sk_table s \<noteq> []" and "sk_decay s = should_decay m" and "unat (sk_size s) + 1 < unat m"
  shows "width (increment hash key s) = width s"
    "sk_decay (increment hash key s) = sk_decay s"
    "unat (sk_size (increment hash key s)) \<le> unat (sk_size s) + 1"
    "slot_count (increment hash key s) p = min 15 (slot_count s p + seed_hits hash (width s) seeds key p)"
proof -
  obtain b s1 where s1: "increment_seeds hash key seeds False s = (b, s1)"
    by fastforce
  have "unat (sk_size s) + 1 < 2 ^ 32"
    using assms(3) unsigned_less [of m, where 'a = nat] by simp
  hence "unat (sk_size s + 1) = unat (sk_size s) + 1"
    by (simp add: unat_word_ariths)
  with assms(3) have keep: "\<not> should_decay m (sk_size s + 1)" "unat (sk_size s + 1) = unat (sk_size s) + 1"
    by (simp_all add: should_decay_def word_le_nat_alt)
  note seeds = increment_seeds_counts [OF assms(1) s1]
  have cnt: "slot_count (s1\<lparr>sk_size := n\<rparr>) p = slot_count s1 p" for n
    by (simp add: slot_count_def)
  have inc: "increment hash key s = (if b then s1\<lparr>sk_size := sk_size s + 1\<rparr> else s1)"
    using assms(1,2) seeds keep(1) s1 by (simp add: increment_def)
  show "width (increment hash key s) = width s" "sk_decay (increment hash key s) = sk_decay s"
    "unat (sk_size (increment hash key s)) \<le> unat (sk_size s) + 1"
    "slot_count (increment hash key s) p = min 15 (slot_count s p + seed_hits hash (width s) seeds key p)"
    unfolding inc using seeds keep(2) cnt by simp_all
qed

lemma fold_increment_counts:
  assumes "sk_table s \<noteq> []" and "sk_decay s = should_decay m" and "unat (sk_size s) + length keys < unat m"
  shows "width (fold (increment hash) keys s) = width s \<and>
    slot_count (fold (increment hash) keys s) p = min 15 (slot_count s p + key_hits hash (width s) keys p)"
  using assms
proof (induction keys arbitrary: s)
  case Nil
  thus ?case
    using slot_count_le [of s p] by (simp add: key_hits_def)
next
  case (Cons x keys)
  let ?s = "increment hash x s"
  have "unat (sk_size s) + 1 < unat m"
    using Cons.prems(3) by simp
  note inc = increment_counts [OF Cons.prems(1,2) this]
  have "sk_table ?s \<noteq> []"
    using inc(1) [of hash x] Cons.prems(1) by (metis length_0_conv)
  from Cons.IH [OF this] show ?case
    using inc(1-3) [of hash x] inc(4) [of hash x p] Cons.prems(2,3) by (auto simp: key_hits_def)
qed

lemma new_sketch_fields:
  "sk_table (new_sketch capacity) \<noteq> []"
  "fst p < width (new_sketch capacity) \<Longrightarrow> slot_count (new_sketch capacity) p = 0"
  "sk_decay (new_sketch capacity) = should_decay (from_capacity capacity)" "sk_size (new_sketch capacity) = 0"
  by (auto simp: new_sketch_def with_decay_policy_def slot_count_def counter_def)

lemma count_le_key_hits:
  assumes "i \<in> set seeds"
  shows "count_list keys key \<le> key_hits hash n keys (sketch_slot hash n key i)"
proof (induction keys)
  case (Cons x keys)
  have "x = key \<Longrightarrow> 1 \<le> seed_hits hash n seeds x (sketch_slot hash n key i)"
    using assms by (auto simp: seed_hits_def Suc_le_eq filter_empty_conv)
  with Cons show ?case
    by (auto simp: key_hits_def)
qed (simp add: key_hits_def)

lemma Min_cap: "finite A \<Longrightarrow> A \<noteq> {} \<Longrightarrow> Min ((\<lambda>i. min b (f i)) ` A) = min b (Min (f ` A))"
  for f :: "'a \<Rightarrow> nat"
  using mono_Min_commute [of "min b" "f ` A"] by (simp add: mono_def image_image min.coboundedI2 min_le_iff_disj)

lemma Min_div2: "finite A \<Longrightarrow> A \<noteq> {} \<Longrightarrow> Min ((\<lambda>i. f i div 2) ` A) = Min (f ` A) div 2"
  for f :: "'a \<Rightarrow> nat"
  using mono_Min_commute [of "\<lambda>x. x div 2" "f ` A"] by (simp add: mono_def image_image div_le_mono)

lemma seeds_finite: "finite (set seeds)" "set seeds \<noteq> {}" "set seeds = {0, 1, 2, 3}"
  by (auto simp: seeds_def)

lemma slot_count_reset:
  assumes "fst p < width s" and "snd p < 16"
  shows "slot_count (reset s) p = slot_count s p div 2"
  using assms by (simp add: reset_def Let_def slot_count_def counter_halve)

lemma fresh_sketch_estimate:
  assumes "length keys < unat (from_capacity capacity)"
  shows "unat (estimate hash key (fold (increment hash) keys (new_sketch capacity))) =
      min 15 (Min ((\<lambda>i. key_hits hash (max 1 (capacity div 4)) keys
        (sketch_slot hash (max 1 (capacity div 4)) key i)) ` {0, 1, 2, 3})) \<and>
    min 15 (count_list keys key) \<le>
      unat (estimate hash key (fold (increment hash) keys (new_sketch capacity)))"
proof -
  define s where "s = fold (increment hash) keys (new_sketch capacity)"
  define n where "n = max 1 (capacity div 4)"
  let ?hits = "\<lambda>i. key_hits hash n keys (sketch_slot hash n key i)"
  have n: "width (new_sketch capacity) = n"
    by (simp add: new_sketch_def with_decay_policy_def n_def)
  have counts: "width s = n \<and> slot_count s p = min 15 (slot_count (new_sketch capacity) p + key_hits hash n keys p)" for p
    unfolding s_def n [symmetric]
    by (rule fold_increment_counts [OF new_sketch_fields(1,3)]) (simp add: new_sketch_fields(4) assms)
  have w: "width s = n" and c: "slot_count s p = min 15 (key_hits hash n keys p)" if "fst p < n" for p
    using counts [of p] new_sketch_fields(2) [of p capacity] that n by auto
  have n0: "0 < n"
    by (simp add: n_def)
  hence "width s = n"
    using w [of "(0, 0)"] by simp
  moreover have "slot_count s (sketch_slot hash n key i) = min 15 (?hits i)" for i
    using c n0 by (simp add: sketch_slot_def)
  ultimately have "unat (estimate hash key s) = Min ((\<lambda>i. min 15 (?hits i)) ` set seeds)"
    using estimate_min [of s hash key] n0 by (metis (no_types, lifting) image_cong length_greater_0_conv)
  hence est: "unat (estimate hash key s) = min 15 (Min (?hits ` set seeds))"
    using Min_cap [OF seeds_finite(1,2), of 15 ?hits] by simp
  have "count_list keys key \<le> Min (?hits ` set seeds)"
    by (intro Min.boundedI) (auto simp: count_le_key_hits seeds_finite)
  hence "min 15 (count_list keys key) \<le> unat (estimate hash key s)"
    unfolding est by linarith
  thus ?thesis
    using est unfolding s_def n_def seeds_finite(3) by blast
qed


text \<open>
  A decay halves the estimate of every key.
\<close>

theorem decay_halves_estimates:
  "unat (estimate hash key (reset s)) = unat (estimate hash key s) div 2"
proof (cases "sk_table s = []")
  case True
  thus ?thesis
    by (simp add: estimate_def reset_def Let_def)
next
  case False
  hence "sk_table (reset s) \<noteq> []" "width (reset s) = width s"
    by (simp_all add: reset_def Let_def)
  moreover have "slot_count (reset s) (sketch_slot hash (width s) key i) = slot_count s (sketch_slot hash (width s) key i) div 2" for i
    using False by (intro slot_count_reset) (simp_all add: sketch_slot_def counter_index_less)
  ultimately show ?thesis
    using False Min_div2 [OF seeds_finite(1,2), of "\<lambda>i. slot_count s (sketch_slot hash (width s) key i)"]
    by (simp add: estimate_min)
qed

definition demo_hash :: "nat sketch_hash" where
  "demo_hash key i = of_nat (key + i)"


end
