(* ===== verification/Inactive_Index.thy ===== *)
theory Inactive_Index
  imports Prelude "HOL-Library.AList"
begin

text \<open>
  The eviction indices of the logical block manager,
  \<open>kvbm/kvbm-logical/src/pools/inactive/backends\<close>: a hash map with a FIFO reuse policy, an
  LRU cache, and four LRU tiers chosen by access frequency. The trait \<open>InactiveIndex\<close> of
  \<open>pools/store.rs\<close> is the locale \<open>inactive_index\<close>; each backend is an interpretation.

  An index is seen as the list of its entries in eviction order. The \<open>lru\<close> crate is a
  parameter of the models that use it, a record of its operations with their documented
  behaviour as the predicate \<open>lru_cache_ok\<close>. A failed \<open>assert!\<close> is \<open>None\<close>.
\<close>

section \<open>Entries and the loops of the trait\<close>

type_synonym seq_hash = "128 word"
type_synonym block_id = usize
type_synonym entry = "seq_hash \<times> block_id"

text \<open>
  \<open>find_matches\<close> pops the given hashes and stops at the first miss, \<open>scan_matches\<close> skips
  misses, \<open>allocate\<close> evicts up to \<open>n\<close> entries. The backends differ in how they pop one hash
  and evict one entry.
\<close>

fun pop_prefix :: "(seq_hash \<Rightarrow> 'i \<Rightarrow> block_id option \<times> 'i) \<Rightarrow> seq_hash list \<Rightarrow> 'i \<Rightarrow> entry list \<times> 'i" where
  "pop_prefix pop [] ix = ([], ix)"
| "pop_prefix pop (h # hs) ix =
     (case pop h ix of
        (None, ix') \<Rightarrow> ([], ix')
      | (Some b, ix') \<Rightarrow> (let (ms, ix'') = pop_prefix pop hs ix' in ((h, b) # ms, ix'')))"

fun pop_scan :: "(seq_hash \<Rightarrow> 'i \<Rightarrow> block_id option \<times> 'i) \<Rightarrow> seq_hash list \<Rightarrow> 'i \<Rightarrow> entry list \<times> 'i" where
  "pop_scan pop [] ix = ([], ix)"
| "pop_scan pop (h # hs) ix =
     (case pop h ix of
        (None, ix') \<Rightarrow> pop_scan pop hs ix'
      | (Some b, ix') \<Rightarrow> (let (ms, ix'') = pop_scan pop hs ix' in ((h, b) # ms, ix'')))"

fun evict_many :: "('i \<Rightarrow> entry option \<times> 'i) \<Rightarrow> nat \<Rightarrow> 'i \<Rightarrow> entry list \<times> 'i" where
  "evict_many evict 0 ix = ([], ix)"
| "evict_many evict (Suc n) ix =
     (case evict ix of
        (None, ix') \<Rightarrow> ([], ix')
      | (Some e, ix') \<Rightarrow> (let (es, ix'') = evict_many evict n ix' in (e # es, ix'')))"

text \<open>
  \<open>allocate_all\<close> evicts until nothing is left; \<open>None\<close> is a loop that does not end.
\<close>

partial_function (option) drain :: "('i \<Rightarrow> entry option \<times> 'i) \<Rightarrow> 'i \<Rightarrow> (entry list \<times> 'i) option" where
  "drain evict ix =
     (case evict ix of
        (None, ix') \<Rightarrow> Some ([], ix')
      | (Some e, ix') \<Rightarrow> Option.bind (drain evict ix') (\<lambda>(es, ix''). Some (e # es, ix'')))"

section \<open>The contract of an eviction index\<close>

definition without_key :: "seq_hash \<Rightarrow> entry list \<Rightarrow> entry list" where
  "without_key h es = filter (\<lambda>e. fst e \<noteq> h) es"

lemma map_of_without [simp]: "map_of (without_key h es) k = (if k = h then None else map_of es k)"
  by (induction es) (auto simp: without_key_def)

lemma distinct_without: "distinct (map fst es) \<Longrightarrow> distinct (map fst (without_key h es))"
  by (simp add: without_key_def distinct_map_filter)

lemma without_key_absent: "h \<notin> fst ` set es \<Longrightarrow> without_key h es = es"
  unfolding without_key_def by (induction es) auto

lemma without_key_mset:
  assumes "distinct (map fst es)" and "map_of es h = Some b"
  shows "mset es = add_mset (h, b) (mset (without_key h es))"
  using assms
proof (induction es)
  case (Cons e es)
  show ?case
  proof (cases "fst e = h")
    case True
    then have "h \<notin> fst ` set es" using Cons.prems(1) by auto
    then show ?thesis using Cons.prems(2) True without_key_absent [of h es]
      by (cases e) (auto simp: without_key_def)
  qed (use Cons in \<open>auto simp: without_key_def\<close>)
qed simp

locale inactive_index =
  fixes inv :: "'i \<Rightarrow> bool" and entries :: "'i \<Rightarrow> entry list"
    and pop :: "seq_hash \<Rightarrow> 'i \<Rightarrow> block_id option \<times> 'i"
    and evict :: "'i \<Rightarrow> entry option \<times> 'i"
    and put :: "seq_hash \<Rightarrow> block_id \<Rightarrow> 'i \<Rightarrow> 'i option"
    and can_put :: "seq_hash \<Rightarrow> block_id \<Rightarrow> 'i \<Rightarrow> bool"
    and peek :: "seq_hash \<Rightarrow> 'i \<Rightarrow> block_id option"
    and len :: "'i \<Rightarrow> nat"
  assumes keys_distinct: "inv ix \<Longrightarrow> distinct (map fst (entries ix))"
    and pop_entries: "inv ix \<Longrightarrow> pop h ix = (r, ix') \<Longrightarrow>
      r = map_of (entries ix) h \<and> inv ix' \<and> entries ix' = without_key h (entries ix)"
    and evict_entries: "inv ix \<Longrightarrow> evict ix = (x, ix') \<Longrightarrow>
      inv ix' \<and> (case entries ix of [] \<Rightarrow> x = None \<and> entries ix' = [] | e # es \<Rightarrow> x = Some e \<and> entries ix' = es)"
    and put_entries: "inv ix \<Longrightarrow> can_put h b ix \<Longrightarrow>
      \<exists>ix'. put h b ix = Some ix' \<and> inv ix' \<and> mset (entries ix') = add_mset (h, b) (mset (entries ix))"
    and peek_entries: "inv ix \<Longrightarrow> peek h ix = map_of (entries ix) h"
    and len_entries: "inv ix \<Longrightarrow> len ix = length (entries ix)"
begin

lemma pop_removes:
  assumes "inv ix" and "pop h ix = (Some b, ix')"
  shows "mset (entries ix) = add_mset (h, b) (mset (entries ix'))"
  using pop_entries [OF assms] without_key_mset [OF keys_distinct [OF assms(1)]] by simp

lemma pop_prefix_ok:
  "inv ix \<Longrightarrow> pop_prefix pop hs ix = (ms, ix') \<Longrightarrow>
    inv ix' \<and> mset (entries ix) = mset ms + mset (entries ix') \<and>
    (\<exists>k \<le> length hs. map fst ms = take k hs)"
proof (induction hs arbitrary: ix ms ix')
  case (Cons h hs)
  obtain r ix1 where p: "pop h ix = (r, ix1)" by fastforce
  note ok = pop_entries [OF Cons.prems(1) p]
  show ?case
  proof (cases r)
    case None
    then have "entries ix1 = entries ix"
      using ok without_key_absent [of h "entries ix"] by (metis map_of_eq_None_iff)
    then show ?thesis using Cons.prems(2) p None ok by (auto intro: exI [of _ 0])
  next
    case (Some b)
    obtain ms' ix2 where rest: "pop_prefix pop hs ix1 = (ms', ix2)" by fastforce
    have eq: "ms = (h, b) # ms'" "ix' = ix2" using Cons.prems(2) p Some rest by auto
    obtain k where "k \<le> length hs" "map fst ms' = take k hs" "inv ix2" "mset (entries ix1) = mset ms' + mset (entries ix2)"
      using Cons.IH [OF _ rest] ok by auto
    then show ?thesis
      using pop_removes [OF Cons.prems(1) p [unfolded Some]] by (auto simp: eq intro!: exI [of _ "Suc k"])
  qed
qed auto

lemma pop_scan_ok:
  "inv ix \<Longrightarrow> pop_scan pop hs ix = (ms, ix') \<Longrightarrow>
    inv ix' \<and> mset (entries ix) = mset ms + mset (entries ix') \<and>
    fst ` set (entries ix') = fst ` set (entries ix) - set hs"
proof (induction hs arbitrary: ix ms ix')
  case (Cons h hs)
  obtain r ix1 where p: "pop h ix = (r, ix1)" by fastforce
  note ok = pop_entries [OF Cons.prems(1) p]
  then have keys: "fst ` set (entries ix1) = fst ` set (entries ix) - {h}" by (auto simp: without_key_def)
  show ?case
  proof (cases r)
    case None
    then have "entries ix1 = entries ix"
      using ok without_key_absent [of h "entries ix"] by (metis map_of_eq_None_iff)
    then show ?thesis using Cons.prems(2) p None ok keys Cons.IH [of ix1 ms ix'] by auto
  next
    case (Some b)
    obtain ms' ix2 where rest: "pop_scan pop hs ix1 = (ms', ix2)" by fastforce
    have "ms = (h, b) # ms'" "ix' = ix2" using Cons.prems(2) p Some rest by auto
    then show ?thesis
      using Cons.IH [OF _ rest] ok keys pop_removes [OF Cons.prems(1) p [unfolded Some]] by auto
  qed
qed auto

lemma evict_many_ok:
  "inv ix \<Longrightarrow> evict_many evict n ix = (es, ix') \<Longrightarrow>
    inv ix' \<and> es = take n (entries ix) \<and> entries ix' = drop n (entries ix)"
proof (induction n arbitrary: ix es ix')
  case (Suc n)
  obtain r ix1 where e: "evict ix = (r, ix1)" by fastforce
  note ok = evict_entries [OF Suc.prems(1) e]
  show ?case
  proof (cases "entries ix")
    case Nil
    then show ?thesis using Suc.prems(2) e ok by auto
  next
    case (Cons x xs)
    obtain es' ix2 where rest: "evict_many evict n ix1 = (es', ix2)" by fastforce
    show ?thesis using Suc.IH [OF _ rest] Suc.prems(2) e ok Cons rest by auto
  qed
qed auto

lemma drain_ok:
  "inv ix \<Longrightarrow> \<exists>ix'. drain evict ix = Some (entries ix, ix') \<and> inv ix' \<and> entries ix' = []"
proof (induction "entries ix" arbitrary: ix)
  case Nil
  then show ?case using evict_entries [of ix] by (subst drain.simps) (auto split: prod.split)
next
  case (Cons e es)
  obtain ix1 where e: "evict ix = (Some e, ix1)" "inv ix1" "entries ix1 = es"
    using evict_entries [OF Cons.prems] Cons.hyps(2) by (cases "evict ix") (auto split: list.split_asm)
  with Cons.hyps(1) [of ix1] Cons.hyps(2) show ?case by (subst drain.simps) auto
qed

lemma put_then_pop:
  assumes "inv ix" and "can_put h b ix" and "h \<notin> fst ` set (entries ix)"
  shows "\<exists>ix1 ix2. put h b ix = Some ix1 \<and> pop h ix1 = (Some b, ix2) \<and> mset (entries ix2) = mset (entries ix)"
proof -
  obtain ix1 where p: "put h b ix = Some ix1" "inv ix1" "mset (entries ix1) = add_mset (h, b) (mset (entries ix))"
    using put_entries [OF assms(1,2)] by blast
  obtain r ix2 where q: "pop h ix1 = (r, ix2)" by fastforce
  have "(h, b) \<in> set (entries ix1)" using p(3) by (metis set_mset_mset union_single_eq_member)
  then have "r = Some b" using pop_entries [OF p(2) q] keys_distinct [OF p(2)] by (simp add: map_of_is_SomeI)
  with pop_removes [OF p(2), of h b ix2] q p(1,3) show ?thesis by auto
qed

end

section \<open>The LRU cache of the \<open>lru\<close> crate\<close>

record 'c lru_cache =
  lc_new :: "usize \<Rightarrow> 'c"
  lc_pop :: "seq_hash \<Rightarrow> 'c \<Rightarrow> block_id option \<times> 'c"
  lc_pop_lru :: "'c \<Rightarrow> entry option \<times> 'c"
  lc_put :: "seq_hash \<Rightarrow> block_id \<Rightarrow> 'c \<Rightarrow> 'c"
  lc_peek :: "seq_hash \<Rightarrow> 'c \<Rightarrow> block_id option"
  lc_len :: "'c \<Rightarrow> usize"
  lc_cap :: "'c \<Rightarrow> usize"

text \<open>
  Documented behaviour, over the entries from the least to the most recently used: \<open>pop\<close>
  removes a key, \<open>pop_lru\<close> the least recently used entry, \<open>put\<close> makes its entry the most
  recently used one and drops the least recently used entry of a full cache.
\<close>

definition lru_put_spec :: "usize \<Rightarrow> seq_hash \<Rightarrow> block_id \<Rightarrow> entry list \<Rightarrow> entry list" where
  "lru_put_spec cap h b es =
     (if h \<in> fst ` set es \<or> length es < cap then without_key h es @ [(h, b)] else tl es @ [(h, b)])"

definition lru_cache_ok :: "'c lru_cache \<Rightarrow> ('c \<Rightarrow> bool) \<Rightarrow> ('c \<Rightarrow> entry list) \<Rightarrow> bool" where
  "lru_cache_ok C valid order \<longleftrightarrow>
     (\<forall>n. valid (lc_new C n) \<and> order (lc_new C n) = [] \<and> lc_cap C (lc_new C n) = n) \<and>
     (\<forall>c. valid c \<longrightarrow> distinct (map fst (order c)) \<and> lc_len C c = length (order c)) \<and>
     (\<forall>c h. valid c \<longrightarrow> lc_peek C h c = map_of (order c) h) \<and>
     (\<forall>c h r c'. valid c \<longrightarrow> lc_pop C h c = (r, c') \<longrightarrow>
        r = map_of (order c) h \<and> valid c' \<and> order c' = without_key h (order c) \<and> lc_cap C c' = lc_cap C c) \<and>
     (\<forall>c r c'. valid c \<longrightarrow> lc_pop_lru C c = (r, c') \<longrightarrow> valid c' \<and> lc_cap C c' = lc_cap C c \<and>
        (case order c of [] \<Rightarrow> r = None \<and> order c' = [] | e # es \<Rightarrow> r = Some e \<and> order c' = es)) \<and>
     (\<forall>c h b. valid c \<longrightarrow> valid (lc_put C h b c) \<and> lc_cap C (lc_put C h b c) = lc_cap C c \<and>
        order (lc_put C h b c) = lru_put_spec (lc_cap C c) h b (order c))"

text \<open>A cache that keeps its capacity and its entries in order.\<close>

definition list_lru :: "(usize \<times> entry list) lru_cache" where
  "list_lru =
     \<lparr>lc_new = (\<lambda>n. (n, [])),
      lc_pop = (\<lambda>h (n, es). (map_of es h, (n, without_key h es))),
      lc_pop_lru = (\<lambda>(n, es). case es of [] \<Rightarrow> (None, (n, [])) | e # es \<Rightarrow> (Some e, (n, es))),
      lc_put = (\<lambda>h b (n, es). (n, lru_put_spec n h b es)),
      lc_peek = (\<lambda>h (n, es). map_of es h), lc_len = (\<lambda>(n, es). length es), lc_cap = fst\<rparr>"

lemma keys_without_key: "fst ` set (without_key h es) = fst ` set es - {h}"
  by (auto simp: without_key_def)

lemma lru_put_spec_distinct: "distinct (map fst es) \<Longrightarrow> distinct (map fst (lru_put_spec n h b es))"
  by (cases es) (auto simp: lru_put_spec_def distinct_without keys_without_key)

lemma list_lru_ok: "lru_cache_ok list_lru (\<lambda>(n, es). distinct (map fst es)) snd"
  by (auto simp: lru_cache_ok_def list_lru_def distinct_without lru_put_spec_distinct split: list.splits)

section \<open>The LRU backend\<close>

definition new_lru_backend :: "'c lru_cache \<Rightarrow> usize \<Rightarrow> 'c" where
  "new_lru_backend C capacity = lc_new C capacity"

definition lru_find_matches :: "'c lru_cache \<Rightarrow> seq_hash list \<Rightarrow> 'c \<Rightarrow> entry list \<times> 'c" where
  "lru_find_matches C hashes c = pop_prefix (lc_pop C) hashes c"

definition lru_find_match :: "'c lru_cache \<Rightarrow> seq_hash \<Rightarrow> 'c \<Rightarrow> entry option \<times> 'c" where
  "lru_find_match C h c = (let (r, c') = lc_pop C h c in (map_option (Pair h) r, c'))"

definition lru_scan_matches :: "'c lru_cache \<Rightarrow> seq_hash list \<Rightarrow> 'c \<Rightarrow> entry list \<times> 'c" where
  "lru_scan_matches C hashes c = pop_scan (lc_pop C) hashes c"

definition lru_allocate :: "'c lru_cache \<Rightarrow> usize \<Rightarrow> 'c \<Rightarrow> entry list \<times> 'c" where
  "lru_allocate C n c = evict_many (lc_pop_lru C) n c"

definition lru_insert :: "'c lru_cache \<Rightarrow> seq_hash \<Rightarrow> block_id \<Rightarrow> 'c \<Rightarrow> 'c option" where
  "lru_insert C h b c = (if lc_len C c < lc_cap C c then Some (lc_put C h b c) else None)"

definition lru_has :: "'c lru_cache \<Rightarrow> seq_hash \<Rightarrow> 'c \<Rightarrow> bool" where
  "lru_has C h c \<longleftrightarrow> lc_peek C h c \<noteq> None"

definition lru_take :: "'c lru_cache \<Rightarrow> seq_hash \<Rightarrow> block_id \<Rightarrow> 'c \<Rightarrow> bool \<times> 'c" where
  "lru_take C h b c = (if lc_peek C h c = Some b then (True, snd (lc_pop C h c)) else (False, c))"

definition lru_allocate_all :: "'c lru_cache \<Rightarrow> 'c \<Rightarrow> (entry list \<times> 'c) option" where
  "lru_allocate_all C c = drain (lc_pop_lru C) c"

definition lru_can_insert :: "'c lru_cache \<Rightarrow> ('c \<Rightarrow> entry list) \<Rightarrow> seq_hash \<Rightarrow> block_id \<Rightarrow> 'c \<Rightarrow> bool" where
  "lru_can_insert C order h b c \<longleftrightarrow> lc_len C c < lc_cap C c \<and> h \<notin> fst ` set (order c)"

text \<open>Any cache with the documented behaviour makes the LRU backend an eviction index.\<close>

lemma lru_cache_okD:
  assumes "lru_cache_ok C valid order" and "valid c"
  shows "distinct (map fst (order c))" and "lc_len C c = length (order c)"
    and "lc_peek C h c = map_of (order c) h"
    and "lc_pop C h c = (r, c') \<Longrightarrow>
      r = map_of (order c) h \<and> valid c' \<and> order c' = without_key h (order c) \<and> lc_cap C c' = lc_cap C c"
    and "lc_pop_lru C c = (x, c') \<Longrightarrow> valid c' \<and> lc_cap C c' = lc_cap C c \<and>
      (case order c of [] \<Rightarrow> x = None \<and> order c' = [] | e # es \<Rightarrow> x = Some e \<and> order c' = es)"
    and "valid (lc_put C h b c)" and "lc_cap C (lc_put C h b c) = lc_cap C c"
    and "order (lc_put C h b c) = lru_put_spec (lc_cap C c) h b (order c)"
proof -
  have basic: "\<forall>c. valid c \<longrightarrow> distinct (map fst (order c)) \<and> lc_len C c = length (order c)"
    and peek: "\<forall>c h. valid c \<longrightarrow> lc_peek C h c = map_of (order c) h"
    and pop: "\<forall>c h r c'. valid c \<longrightarrow> lc_pop C h c = (r, c') \<longrightarrow>
        r = map_of (order c) h \<and> valid c' \<and> order c' = without_key h (order c) \<and> lc_cap C c' = lc_cap C c"
    and pop_lru: "\<forall>c r c'. valid c \<longrightarrow> lc_pop_lru C c = (r, c') \<longrightarrow> valid c' \<and> lc_cap C c' = lc_cap C c \<and>
        (case order c of [] \<Rightarrow> r = None \<and> order c' = [] | e # es \<Rightarrow> r = Some e \<and> order c' = es)"
    and put: "\<forall>c h b. valid c \<longrightarrow> valid (lc_put C h b c) \<and> lc_cap C (lc_put C h b c) = lc_cap C c \<and>
        order (lc_put C h b c) = lru_put_spec (lc_cap C c) h b (order c)"
    using assms(1) unfolding lru_cache_ok_def by - (elim conjE, assumption)+
  show "distinct (map fst (order c))" "lc_len C c = length (order c)" using basic assms(2) by blast+
  show "lc_peek C h c = map_of (order c) h" using peek assms(2) by blast
  show "lc_pop C h c = (r, c') \<Longrightarrow>
      r = map_of (order c) h \<and> valid c' \<and> order c' = without_key h (order c) \<and> lc_cap C c' = lc_cap C c"
    by (rule pop [rule_format, OF assms(2)])
  show "lc_pop_lru C c = (x, c') \<Longrightarrow> valid c' \<and> lc_cap C c' = lc_cap C c \<and>
      (case order c of [] \<Rightarrow> x = None \<and> order c' = [] | e # es \<Rightarrow> x = Some e \<and> order c' = es)"
    by (rule pop_lru [rule_format, OF assms(2)])
  show "valid (lc_put C h b c)" "lc_cap C (lc_put C h b c) = lc_cap C c"
      "order (lc_put C h b c) = lru_put_spec (lc_cap C c) h b (order c)"
    using put assms(2) by blast+
qed

lemma lru_backend_index:
  assumes "lru_cache_ok C valid order"
  shows "inactive_index valid order (lc_pop C) (lc_pop_lru C) (lru_insert C) (lru_can_insert C order)
    (lc_peek C) (lc_len C)"
proof
  fix c h b r c' x
  assume c: "valid c"
  note ok = lru_cache_okD [OF assms c]
  show "distinct (map fst (order c))" "lc_peek C h c = map_of (order c) h" "lc_len C c = length (order c)"
    by (fact ok)+
  show "lc_pop C h c = (r, c') \<Longrightarrow> r = map_of (order c) h \<and> valid c' \<and> order c' = without_key h (order c)"
    using ok(4) by simp
  show "lc_pop_lru C c = (x, c') \<Longrightarrow>
      valid c' \<and> (case order c of [] \<Rightarrow> x = None \<and> order c' = [] | e # es \<Rightarrow> x = Some e \<and> order c' = es)"
    using ok(5) by simp
  show "lru_can_insert C order h b c \<Longrightarrow>
      \<exists>c'. lru_insert C h b c = Some c' \<and> valid c' \<and> mset (order c') = add_mset (h, b) (mset (order c))"
    using ok(2,6,8) by (auto simp: lru_insert_def lru_can_insert_def lru_put_spec_def without_key_absent)
qed

interpretation lru: inactive_index "\<lambda>(n, es). distinct (map fst es)" snd "lc_pop list_lru" "lc_pop_lru list_lru"
  "lru_insert list_lru" "lru_can_insert list_lru snd" "lc_peek list_lru" "lc_len list_lru"
  by (rule lru_backend_index [OF list_lru_ok])

section \<open>The four-tier LRU backend\<close>

record 'c multi_lru =
  ml_pools :: "'c list"
  ml_thresholds :: "u8 \<times> u8 \<times> u8"

datatype threshold_error = NotAscending | AboveCounterLimit | ColdBelowOne

definition new_multi_lru :: "'c lru_cache \<Rightarrow> usize \<Rightarrow> u8 \<times> u8 \<times> u8 \<Rightarrow> threshold_error + 'c multi_lru" where
  "new_multi_lru C block_count t =
     (case t of (t0, t1, t2) \<Rightarrow>
        if \<not> (t0 < t1 \<and> t1 < t2) then Inl NotAscending
        else if 15 < t2 then Inl AboveCounterLimit
        else if t0 < 1 then Inl ColdBelowOne
        else Inr \<lparr>ml_pools = replicate 4 (lc_new C block_count), ml_thresholds = t\<rparr>)"

text \<open>\<open>freq\<close> is the frequency tracker's count at the time of the call.\<close>

definition calculate_priority_level :: "(seq_hash \<Rightarrow> u32) \<Rightarrow> seq_hash \<Rightarrow> 'c multi_lru \<Rightarrow> nat" where
  "calculate_priority_level freq h m =
     (case ml_thresholds m of (t1, t2, t3) \<Rightarrow>
        if freq h < ucast t1 then 0
        else if freq h < ucast t2 then 1
        else if freq h < ucast t3 then 2
        else 3)"

fun pools_pop :: "'c lru_cache \<Rightarrow> seq_hash \<Rightarrow> 'c list \<Rightarrow> block_id option \<times> 'c list" where
  "pools_pop C h [] = (None, [])"
| "pools_pop C h (p # ps) =
     (case lc_pop C h p of
        (Some b, p') \<Rightarrow> (Some b, p' # ps)
      | (None, p') \<Rightarrow> (let (r, ps') = pools_pop C h ps in (r, p' # ps')))"

fun pools_pop_lru :: "'c lru_cache \<Rightarrow> 'c list \<Rightarrow> entry option \<times> 'c list" where
  "pools_pop_lru C [] = (None, [])"
| "pools_pop_lru C (p # ps) =
     (case lc_pop_lru C p of
        (Some e, p') \<Rightarrow> (Some e, p' # ps)
      | (None, p') \<Rightarrow> (let (r, ps') = pools_pop_lru C ps in (r, p' # ps')))"

definition ml_pop :: "'c lru_cache \<Rightarrow> seq_hash \<Rightarrow> 'c multi_lru \<Rightarrow> block_id option \<times> 'c multi_lru" where
  "ml_pop C h m = (let (r, ps) = pools_pop C h (ml_pools m) in (r, m\<lparr>ml_pools := ps\<rparr>))"

definition ml_evict :: "'c lru_cache \<Rightarrow> 'c multi_lru \<Rightarrow> entry option \<times> 'c multi_lru" where
  "ml_evict C m = (let (r, ps) = pools_pop_lru C (ml_pools m) in (r, m\<lparr>ml_pools := ps\<rparr>))"

definition ml_find_matches :: "'c lru_cache \<Rightarrow> seq_hash list \<Rightarrow> 'c multi_lru \<Rightarrow> entry list \<times> 'c multi_lru" where
  "ml_find_matches C hashes m = pop_prefix (ml_pop C) hashes m"

definition ml_find_match :: "'c lru_cache \<Rightarrow> seq_hash \<Rightarrow> 'c multi_lru \<Rightarrow> entry option \<times> 'c multi_lru" where
  "ml_find_match C h m = (let (r, m') = ml_pop C h m in (map_option (Pair h) r, m'))"

definition ml_scan_matches :: "'c lru_cache \<Rightarrow> seq_hash list \<Rightarrow> 'c multi_lru \<Rightarrow> entry list \<times> 'c multi_lru" where
  "ml_scan_matches C hashes m = pop_scan (ml_pop C) hashes m"

definition ml_allocate :: "'c lru_cache \<Rightarrow> usize \<Rightarrow> 'c multi_lru \<Rightarrow> entry list \<times> 'c multi_lru" where
  "ml_allocate C n m = evict_many (ml_evict C) n m"

text \<open>The \<open>debug_assert\<close> on a full tier is not in a release build, which evicts instead.\<close>

definition ml_insert ::
  "'c lru_cache \<Rightarrow> (seq_hash \<Rightarrow> u32) \<Rightarrow> seq_hash \<Rightarrow> block_id \<Rightarrow> 'c multi_lru \<Rightarrow> 'c multi_lru" where
  "ml_insert C freq h b m =
     (let level = calculate_priority_level freq h m in
      m\<lparr>ml_pools := (ml_pools m)[level := lc_put C h b (ml_pools m ! level)]\<rparr>)"

definition ml_len :: "'c lru_cache \<Rightarrow> 'c multi_lru \<Rightarrow> usize" where
  "ml_len C m = sum_list (map (lc_len C) (ml_pools m))"

definition ml_has :: "'c lru_cache \<Rightarrow> seq_hash \<Rightarrow> 'c multi_lru \<Rightarrow> bool" where
  "ml_has C h m \<longleftrightarrow> list_ex (\<lambda>p. lc_peek C h p \<noteq> None) (ml_pools m)"

fun pools_take :: "'c lru_cache \<Rightarrow> seq_hash \<Rightarrow> block_id \<Rightarrow> 'c list \<Rightarrow> bool \<times> 'c list" where
  "pools_take C h b [] = (False, [])"
| "pools_take C h b (p # ps) =
     (if lc_peek C h p = Some b then (True, snd (lc_pop C h p) # ps)
      else (let (r, ps') = pools_take C h b ps in (r, p # ps')))"

definition ml_take :: "'c lru_cache \<Rightarrow> seq_hash \<Rightarrow> block_id \<Rightarrow> 'c multi_lru \<Rightarrow> bool \<times> 'c multi_lru" where
  "ml_take C h b m = (let (r, ps) = pools_take C h b (ml_pools m) in (r, m\<lparr>ml_pools := ps\<rparr>))"

fun pools_drain :: "'c lru_cache \<Rightarrow> 'c list \<Rightarrow> (entry list \<times> 'c list) option" where
  "pools_drain C [] = Some ([], [])"
| "pools_drain C (p # ps) =
     Option.bind (drain (lc_pop_lru C) p) (\<lambda>(es, p').
     Option.bind (pools_drain C ps) (\<lambda>(es', ps'). Some (es @ es', p' # ps')))"

definition ml_allocate_all :: "'c lru_cache \<Rightarrow> 'c multi_lru \<Rightarrow> (entry list \<times> 'c multi_lru) option" where
  "ml_allocate_all C m =
     map_option (\<lambda>(es, ps). (es, m\<lparr>ml_pools := ps\<rparr>)) (pools_drain C (ml_pools m))"

text \<open>The entries tier by tier; a key is in one tier only.\<close>

definition tiers :: "('c \<Rightarrow> entry list) \<Rightarrow> 'c list \<Rightarrow> entry list" where
  "tiers order ps = concat (map order ps)"

definition ml_entries :: "('c \<Rightarrow> entry list) \<Rightarrow> 'c multi_lru \<Rightarrow> entry list" where
  "ml_entries order m = tiers order (ml_pools m)"

definition ml_inv :: "('c \<Rightarrow> bool) \<Rightarrow> ('c \<Rightarrow> entry list) \<Rightarrow> 'c multi_lru \<Rightarrow> bool" where
  "ml_inv valid order m \<longleftrightarrow> length (ml_pools m) = 4 \<and> list_all valid (ml_pools m) \<and>
     distinct (map fst (ml_entries order m))"

definition ml_can_insert ::
  "'c lru_cache \<Rightarrow> ('c \<Rightarrow> entry list) \<Rightarrow> (seq_hash \<Rightarrow> u32) \<Rightarrow> seq_hash \<Rightarrow> block_id \<Rightarrow> 'c multi_lru \<Rightarrow> bool" where
  "ml_can_insert C order freq h b m \<longleftrightarrow>
     (let p = ml_pools m ! calculate_priority_level freq h m in lc_len C p < lc_cap C p) \<and>
     h \<notin> fst ` set (ml_entries order m)"

definition ml_peek :: "'c lru_cache \<Rightarrow> seq_hash \<Rightarrow> 'c multi_lru \<Rightarrow> block_id option" where
  "ml_peek C h m = List.fold (\<lambda>p r. case r of None \<Rightarrow> lc_peek C h p | Some b \<Rightarrow> Some b) (ml_pools m) None"

lemma tiers_simps [simp]: "tiers order [] = []" "tiers order (p # ps) = order p @ tiers order ps"
  by (simp_all add: tiers_def)

lemma without_key_append [simp]: "without_key h (xs @ ys) = without_key h xs @ without_key h ys"
  by (simp add: without_key_def)

lemma pools_pop_ok:
  assumes ok: "lru_cache_ok C valid order"
  shows "list_all valid ps \<Longrightarrow> distinct (map fst (tiers order ps)) \<Longrightarrow> pools_pop C h ps = (r, ps') \<Longrightarrow>
    r = map_of (tiers order ps) h \<and> list_all valid ps' \<and> length ps' = length ps \<and>
    tiers order ps' = without_key h (tiers order ps)"
proof (induction ps arbitrary: r ps')
  case (Cons p ps)
  obtain x p' where p: "lc_pop C h p = (x, p')" by fastforce
  have p': "x = map_of (order p) h" "valid p'" "order p' = without_key h (order p)"
    using lru_cache_okD(4) [OF ok _ p] Cons.prems(1) by simp_all
  show ?case
  proof (cases x)
    case None
    then have m: "map_of (order p) h = None" using p'(1) by simp
    then have "order p' = order p" using p'(3) without_key_absent by (metis map_of_eq_None_iff)
    moreover obtain ps1 where "pools_pop C h ps = (r, ps1)" "ps' = p' # ps1"
      using Cons.prems(3) p None by (auto split: prod.splits)
    moreover have "without_key h (order p) = order p" using m by (simp add: map_of_eq_None_iff without_key_absent)
    ultimately show ?thesis
      using Cons.IH [of r ps1] Cons.prems(1,2) p'(2) m by (auto simp: map_add_def split: option.splits)
  next
    case (Some b)
    then have "h \<in> fst ` set (order p)" using p'(1) by (metis map_of_eq_None_iff option.distinct(1))
    then have "h \<notin> fst ` set (tiers order ps)" using Cons.prems(2) by auto
    then have "map_of (tiers order ps) h = None" "without_key h (tiers order ps) = tiers order ps"
      by (simp_all add: map_of_eq_None_iff without_key_absent)
    moreover have "map_of (order p) h = Some b" using p'(1) Some by simp
    ultimately show ?thesis using Cons.prems(1,3) p [unfolded Some] p'(2,3) by (auto simp: map_add_def split: option.splits)
  qed
qed (simp add: without_key_def)

lemma pools_pop_lru_ok:
  assumes ok: "lru_cache_ok C valid order"
  shows "list_all valid ps \<Longrightarrow> pools_pop_lru C ps = (x, ps') \<Longrightarrow>
    list_all valid ps' \<and> length ps' = length ps \<and>
    (case tiers order ps of [] \<Rightarrow> x = None \<and> tiers order ps' = [] | e # es \<Rightarrow> x = Some e \<and> tiers order ps' = es)"
proof (induction ps arbitrary: x ps')
  case (Cons p ps)
  obtain y p' where p: "lc_pop_lru C p = (y, p')" by fastforce
  note p' = lru_cache_okD(5) [OF ok _ p]
  show ?case
  proof (cases "order p")
    case Nil
    then obtain ps1 where "pools_pop_lru C ps = (x, ps1)" "ps' = p' # ps1"
      using Cons.prems p p' by (auto split: prod.splits)
    then show ?thesis using Cons.IH [of x ps1] Cons.prems(1) p' Nil by (auto split: list.splits)
  next
    case (Cons e es)
    then show ?thesis using Cons.prems p p' by auto
  qed
qed simp

lemma tiers_update:
  assumes "k < length ps" and "mset (order q) = add_mset e (mset (order (ps ! k)))"
  shows "mset (tiers order (ps[k := q])) = add_mset e (mset (tiers order ps))"
  using assms by (induction ps arbitrary: k) (auto simp: nth_Cons split: nat.splits)

lemma level_bound: "calculate_priority_level freq h m < 4"
  by (auto simp: calculate_priority_level_def split: prod.splits)

lemma map_of_tiers:
  "map_of (tiers order ps) h = List.fold (\<lambda>p r. case r of None \<Rightarrow> map_of (order p) h | Some b \<Rightarrow> Some b) ps None"
proof -
  have some: "List.fold (\<lambda>p r. case r of None \<Rightarrow> map_of (order p) h | Some b \<Rightarrow> Some b) ps (Some b) = Some b" for ps b
    by (induction ps) auto
  show ?thesis
    by (induction ps) (auto simp: map_add_def some split: option.splits)
qed

lemma ml_peek_eq:
  assumes "lru_cache_ok C valid order" and "list_all valid (ml_pools m)"
  shows "ml_peek C h m = map_of (ml_entries order m) h"
proof -
  have "List.fold (\<lambda>p r. case r of None \<Rightarrow> lc_peek C h p | Some b \<Rightarrow> Some b) ps x =
      List.fold (\<lambda>p r. case r of None \<Rightarrow> map_of (order p) h | Some b \<Rightarrow> Some b) ps x" if "list_all valid ps" for ps x
    using that lru_cache_okD(3) [OF assms(1)] by (induction ps arbitrary: x) auto
  then show ?thesis using assms(2) by (simp add: ml_peek_def ml_entries_def map_of_tiers)
qed

lemma ml_insert_ok:
  assumes ok: "lru_cache_ok C valid order" and m: "ml_inv valid order m" and can: "ml_can_insert C order freq h b m"
  shows "ml_inv valid order (ml_insert C freq h b m) \<and>
    mset (ml_entries order (ml_insert C freq h b m)) = add_mset (h, b) (mset (ml_entries order m))"
proof -
  let ?k = "calculate_priority_level freq h m"
  let ?p = "ml_pools m ! ?k"
  let ?ps = "(ml_pools m)[?k := lc_put C h b ?p]"
  have k: "?k < length (ml_pools m)" using m level_bound by (auto simp: ml_inv_def)
  have p: "valid ?p" using m k by (auto simp: ml_inv_def list_all_length)
  have "set (order ?p) \<subseteq> set (ml_entries order m)"
    using nth_mem [OF k] by (auto simp: ml_entries_def tiers_def)
  then have "h \<notin> fst ` set (order ?p)" using can by (auto simp: ml_can_insert_def)
  moreover have "length (order ?p) < lc_cap C ?p"
    using can lru_cache_okD(2) [OF ok p] by (auto simp: ml_can_insert_def Let_def)
  ultimately have "mset (order (lc_put C h b ?p)) = add_mset (h, b) (mset (order ?p))"
    by (simp add: lru_cache_okD(8) [OF ok p] lru_put_spec_def without_key_absent)
  from tiers_update [OF k, of order, OF this]
  have new: "mset (tiers order ?ps) = add_mset (h, b) (mset (tiers order (ml_pools m)))" .
  then have "mset (map fst (tiers order ?ps)) = mset (h # map fst (tiers order (ml_pools m)))" by simp
  then have "distinct (map fst (tiers order ?ps)) = distinct (h # map fst (tiers order (ml_pools m)))"
    by (rule mset_eq_imp_distinct_iff)
  moreover have "list_all valid ?ps"
    using m p lru_cache_okD(6) [OF ok p] k by (auto simp: ml_inv_def list_all_length nth_list_update)
  ultimately show ?thesis
    using m can new by (simp add: ml_inv_def ml_insert_def ml_entries_def ml_can_insert_def Let_def)
qed

lemma multi_lru_index:
  assumes ok: "lru_cache_ok C valid order"
  shows "inactive_index (ml_inv valid order) (ml_entries order) (ml_pop C) (ml_evict C)
    (\<lambda>h b m. Some (ml_insert C freq h b m)) (ml_can_insert C order freq) (ml_peek C) (ml_len C)"
proof
  fix m h b r m' x
  assume m: "ml_inv valid order m"
  then have ps: "list_all valid (ml_pools m)" "distinct (map fst (tiers order (ml_pools m)))"
    by (simp_all add: ml_inv_def ml_entries_def)
  show "distinct (map fst (ml_entries order m))" using ps by (simp add: ml_entries_def)
  show "ml_pop C h m = (r, m') \<Longrightarrow> r = map_of (ml_entries order m) h \<and> ml_inv valid order m' \<and>
      ml_entries order m' = without_key h (ml_entries order m)"
    using pools_pop_ok [OF ok ps, of h] m distinct_without
    by (auto simp: ml_pop_def ml_inv_def ml_entries_def split: prod.splits)
  show "ml_evict C m = (x, m') \<Longrightarrow> ml_inv valid order m' \<and> (case ml_entries order m of
      [] \<Rightarrow> x = None \<and> ml_entries order m' = [] | e # es \<Rightarrow> x = Some e \<and> ml_entries order m' = es)"
    using pools_pop_lru_ok [OF ok ps(1)] m
    by (auto simp: ml_evict_def ml_inv_def ml_entries_def split: prod.splits list.splits)
  show "ml_can_insert C order freq h b m \<Longrightarrow> \<exists>m'. Some (ml_insert C freq h b m) = Some m' \<and>
      ml_inv valid order m' \<and> mset (ml_entries order m') = add_mset (h, b) (mset (ml_entries order m))"
    using ml_insert_ok [OF ok m] by simp
  show "ml_peek C h m = map_of (ml_entries order m) h" by (rule ml_peek_eq [OF ok ps(1)])
  have "sum_list (map (lc_len C) ps) = length (tiers order ps)" if "list_all valid ps" for ps
    using that lru_cache_okD(2) [OF ok] by (induction ps) auto
  then show "ml_len C m = length (ml_entries order m)" using ps(1) by (simp add: ml_len_def ml_entries_def)
qed

interpretation multi_lru: inactive_index "ml_inv (\<lambda>(n, es). distinct (map fst es)) snd" "ml_entries snd"
  "ml_pop list_lru" "ml_evict list_lru" "\<lambda>h b m. Some (ml_insert list_lru freq h b m)"
  "ml_can_insert list_lru snd freq" "ml_peek list_lru" "ml_len list_lru" for freq
  by (rule multi_lru_index [OF list_lru_ok])

section \<open>FIFO reuse policy\<close>

record inactive_block =
  ib_block_id :: block_id
  ib_seq_hash :: seq_hash

text \<open>\<open>keys\<close> is a hash map, \<open>blocks\<close> an ordered map, kept as its entries in key order.\<close>

record fifo_policy =
  ff_keys :: "block_id \<rightharpoonup> u64"
  ff_blocks :: "(u64 \<times> inactive_block) list"
  ff_next_seq :: u64

definition new_fifo :: fifo_policy where
  "new_fifo = \<lparr>ff_keys = Map.empty, ff_blocks = [], ff_next_seq = 0\<rparr>"

fun ordered_insert :: "u64 \<Rightarrow> inactive_block \<Rightarrow> (u64 \<times> inactive_block) list \<Rightarrow> (u64 \<times> inactive_block) list" where
  "ordered_insert k v [] = [(k, v)]"
| "ordered_insert k v ((k', v') # xs) =
     (if k < k' then (k, v) # (k', v') # xs
      else if k = k' then (k, v) # xs
      else (k', v') # ordered_insert k v xs)"

text \<open>\<open>insert\<close>: \<open>None\<close> is the failed assertion that the block is new.\<close>

definition fifo_insert :: "inactive_block \<Rightarrow> fifo_policy \<Rightarrow> fifo_policy option" where
  "fifo_insert ib f =
     (if ff_keys f (ib_block_id ib) \<noteq> None then None
      else (let k = ff_next_seq f in
        Some \<lparr>ff_keys = (ff_keys f)(ib_block_id ib \<mapsto> k), ff_blocks = ordered_insert k ib (ff_blocks f),
              ff_next_seq = k + 1\<rparr>))"

text \<open>\<open>remove\<close>: the flag is false for \<open>BlockNotFound\<close>; \<open>None\<close> is the failed assertion.\<close>

definition fifo_remove :: "block_id \<Rightarrow> fifo_policy \<Rightarrow> (bool \<times> fifo_policy) option" where
  "fifo_remove b f =
     (case ff_keys f b of
        None \<Rightarrow> Some (False, f)
      | Some k \<Rightarrow>
          (if k \<in> fst ` set (ff_blocks f)
           then Some (True, f\<lparr>ff_keys := (ff_keys f)(b := None), ff_blocks := AList.delete k (ff_blocks f)\<rparr>)
           else None))"

definition fifo_next_free :: "fifo_policy \<Rightarrow> (inactive_block option \<times> fifo_policy) option" where
  "fifo_next_free f =
     (case ff_blocks f of
        [] \<Rightarrow> Some (None, f)
      | (k, ib) # rest \<Rightarrow>
          (if ff_keys f (ib_block_id ib) = None then None
           else Some (Some ib, f\<lparr>ff_keys := (ff_keys f)(ib_block_id ib := None), ff_blocks := rest\<rparr>)))"

definition fifo_inv :: "fifo_policy \<Rightarrow> bool" where
  "fifo_inv f \<longleftrightarrow>
     sorted_wrt (<) (map fst (ff_blocks f)) \<and> (\<forall>k \<in> fst ` set (ff_blocks f). k < ff_next_seq f) \<and>
     distinct (map (ib_block_id \<circ> snd) (ff_blocks f)) \<and>
     (\<forall>b k. ff_keys f b = Some k \<longleftrightarrow> (\<exists>ib. (k, ib) \<in> set (ff_blocks f) \<and> ib_block_id ib = b))"

definition fifo_queue :: "fifo_policy \<Rightarrow> inactive_block list" where
  "fifo_queue f = map snd (ff_blocks f)"

lemma ordered_insert_last: "\<forall>k' \<in> fst ` set xs. k' < k \<Longrightarrow> ordered_insert k v xs = xs @ [(k, v)]"
  by (induction xs) auto

lemma fifo_keys_None: "fifo_inv f \<Longrightarrow> ff_keys f b = None \<longleftrightarrow> b \<notin> ib_block_id ` set (fifo_queue f)"
proof -
  assume f: "fifo_inv f"
  have "ff_keys f b \<noteq> None \<longleftrightarrow> (\<exists>k ib. (k, ib) \<in> set (ff_blocks f) \<and> ib_block_id ib = b)"
    using f by (auto simp: fifo_inv_def)
  then show ?thesis by (force simp: fifo_queue_def)
qed

lemma word_less_Suc: "k \<noteq> - 1 \<Longrightarrow> k < k + 1" for k :: u64
proof -
  assume "k \<noteq> - 1"
  then have "1 + k \<noteq> 0" by (metis add.commute eq_neg_iff_add_eq_0)
  then show ?thesis by (simp add: word_less_nat_alt unatSuc add.commute)
qed

lemma fifo_insert_ok:
  assumes f: "fifo_inv f" and b: "ib_block_id ib \<notin> ib_block_id ` set (fifo_queue f)" and n: "ff_next_seq f \<noteq> - 1"
  shows "\<exists>f'. fifo_insert ib f = Some f' \<and> fifo_inv f' \<and> fifo_queue f' = fifo_queue f @ [ib]"
proof -
  let ?k = "ff_next_seq f"
  let ?f = "\<lparr>ff_keys = (ff_keys f)(ib_block_id ib \<mapsto> ?k), ff_blocks = ff_blocks f @ [(?k, ib)], ff_next_seq = ?k + 1\<rparr>"
  have lt: "\<forall>k \<in> fst ` set (ff_blocks f). k < ?k" using f by (simp add: fifo_inv_def)
  have suc: "?k < ?k + 1" by (rule word_less_Suc [OF n])
  have "fifo_insert ib f = Some ?f"
    using fifo_keys_None [OF f] b ordered_insert_last [OF lt] by (simp add: fifo_insert_def Let_def)
  moreover have "fifo_inv ?f"
  proof -
    have "sorted_wrt (<) (map fst (ff_blocks f @ [(?k, ib)]))"
      using f lt by (auto simp: fifo_inv_def sorted_wrt_append)
    moreover have "\<forall>k \<in> fst ` set (ff_blocks f @ [(?k, ib)]). k < ?k + 1"
      using lt suc by auto
    moreover have "distinct (map (ib_block_id \<circ> snd) (ff_blocks f @ [(?k, ib)]))"
      using f b by (auto simp: fifo_inv_def fifo_queue_def)
    moreover have "((ff_keys f)(ib_block_id ib \<mapsto> ?k)) c = Some k \<longleftrightarrow>
        (\<exists>ib'. (k, ib') \<in> set (ff_blocks f @ [(?k, ib)]) \<and> ib_block_id ib' = c)" for c k
      using f b by (auto simp: fifo_inv_def fifo_queue_def image_iff)
    ultimately show ?thesis by (simp add: fifo_inv_def)
  qed
  ultimately show ?thesis by (simp add: fifo_queue_def)
qed

lemma fifo_keys_distinct: "fifo_inv f \<Longrightarrow> distinct (map fst (ff_blocks f))"
  by (simp add: fifo_inv_def strict_sorted_iff)

lemma fifo_remove_ok:
  assumes f: "fifo_inv f" and "fifo_remove b f = res"
  shows "\<exists>ok f'. res = Some (ok, f') \<and> fifo_inv f' \<and> fifo_queue f' = filter (\<lambda>ib. ib_block_id ib \<noteq> b) (fifo_queue f) \<and>
    ff_next_seq f' = ff_next_seq f"
proof (cases "ff_keys f b")
  case None
  then have "filter (\<lambda>ib. ib_block_id ib \<noteq> b) (fifo_queue f) = fifo_queue f"
    using fifo_keys_None [OF f] by (auto simp: filter_id_conv)
  then show ?thesis using assms None by (auto simp: fifo_remove_def)
next
  case (Some k)
  let ?f = "f\<lparr>ff_keys := (ff_keys f)(b := None), ff_blocks := AList.delete k (ff_blocks f)\<rparr>"
  obtain ib where ib: "(k, ib) \<in> set (ff_blocks f)" "ib_block_id ib = b"
    using f Some by (auto simp: fifo_inv_def)
  have keys: "ff_keys f c = Some j \<longleftrightarrow> (\<exists>ib. (j, ib) \<in> set (ff_blocks f) \<and> ib_block_id ib = c)" for c j
    using f by (simp add: fifo_inv_def)
  have iff: "fst x \<noteq> k \<longleftrightarrow> ib_block_id (snd x) \<noteq> b" if "x \<in> set (ff_blocks f)" for x
  proof -
    have "fst x = k \<Longrightarrow> x = (k, ib)"
      using that ib(1) fifo_keys_distinct [OF f] by (metis eq_key_imp_eq_value prod.collapse)
    moreover have "ib_block_id (snd x) = b \<Longrightarrow> fst x = k"
      using that Some keys by (metis option.inject prod.collapse)
    ultimately show ?thesis using ib(2) by (metis snd_conv)
  qed
  have del: "AList.delete k (ff_blocks f) = filter (\<lambda>x. ib_block_id (snd x) \<noteq> b) (ff_blocks f)"
    unfolding AList.delete_eq
  proof (rule filter_cong [OF refl])
    show "(case x of (k', _) \<Rightarrow> k \<noteq> k') = (ib_block_id (snd x) \<noteq> b)" if "x \<in> set (ff_blocks f)" for x
      using iff [OF that] by (cases x) auto
  qed
  have "fifo_inv ?f"
    using f iff unfolding fifo_inv_def del
    by (auto simp: sorted_wrt_map sorted_wrt_filter distinct_map_filter)
  moreover have "fifo_queue ?f = filter (\<lambda>ib. ib_block_id ib \<noteq> b) (fifo_queue f)"
    by (simp add: fifo_queue_def del filter_map comp_def)
  moreover have "fifo_remove b f = Some (True, ?f)" using Some ib by (force simp: fifo_remove_def)
  ultimately show ?thesis using assms(2) by auto
qed

lemma fifo_next_free_ok:
  assumes f: "fifo_inv f"
  shows "\<exists>f'. fifo_next_free f = Some (case fifo_queue f of [] \<Rightarrow> None | ib # q \<Rightarrow> Some ib, f') \<and> fifo_inv f' \<and>
    fifo_queue f' = tl (fifo_queue f)"
proof (cases "ff_blocks f")
  case Nil
  then show ?thesis using f by (simp add: fifo_next_free_def fifo_queue_def)
next
  case (Cons x rest)
  obtain k ib where x: "x = (k, ib)" by fastforce
  let ?f = "f\<lparr>ff_keys := (ff_keys f)(ib_block_id ib := None), ff_blocks := rest\<rparr>"
  have key: "ff_keys f (ib_block_id ib) = Some k" using f Cons x by (auto simp: fifo_inv_def)
  have "fifo_inv ?f" using f Cons x by (auto simp: fifo_inv_def image_iff)
  then show ?thesis using Cons x key by (auto simp: fifo_next_free_def fifo_queue_def)
qed

section \<open>The hash-map backend\<close>

text \<open>
  The map is an association list whose order stands for the iteration order of the hash map.
  An operation whose policy call panics leaves \<open>None\<close>.
\<close>

record hashmap_backend =
  hb_blocks :: "entry list"
  hb_policy :: fifo_policy

definition new_hashmap_backend :: hashmap_backend where
  "new_hashmap_backend = \<lparr>hb_blocks = [], hb_policy = new_fifo\<rparr>"

definition hb_pop :: "seq_hash \<Rightarrow> hashmap_backend option \<Rightarrow> block_id option \<times> hashmap_backend option" where
  "hb_pop h s =
     (case s of None \<Rightarrow> (None, None)
      | Some m \<Rightarrow>
          (case map_of (hb_blocks m) h of
             None \<Rightarrow> (None, s)
           | Some b \<Rightarrow>
               (Some b, map_option (\<lambda>(_, f). \<lparr>hb_blocks = AList.delete h (hb_blocks m), hb_policy = f\<rparr>)
                          (fifo_remove b (hb_policy m)))))"

definition hb_find_matches ::
  "seq_hash list \<Rightarrow> hashmap_backend option \<Rightarrow> entry list \<times> hashmap_backend option" where
  "hb_find_matches hashes s = pop_prefix hb_pop hashes s"

definition hb_find_match :: "seq_hash \<Rightarrow> hashmap_backend option \<Rightarrow> entry option \<times> hashmap_backend option" where
  "hb_find_match h s = (let (r, s') = hb_pop h s in (map_option (Pair h) r, s'))"

definition hb_scan_matches ::
  "seq_hash list \<Rightarrow> hashmap_backend option \<Rightarrow> entry list \<times> hashmap_backend option" where
  "hb_scan_matches hashes s = pop_scan hb_pop hashes s"

text \<open>
  \<open>allocate\<close>: a block the policy yields and the map does not hold is skipped (the
  \<open>debug_assert\<close> is not in a release build).
\<close>

fun hb_allocate :: "nat \<Rightarrow> hashmap_backend option \<Rightarrow> entry list \<times> hashmap_backend option" where
  "hb_allocate 0 s = ([], s)"
| "hb_allocate (Suc n) None = ([], None)"
| "hb_allocate (Suc n) (Some m) =
     (case fifo_next_free (hb_policy m) of
        None \<Rightarrow> ([], None)
      | Some (None, f) \<Rightarrow> ([], Some (m\<lparr>hb_policy := f\<rparr>))
      | Some (Some ib, f) \<Rightarrow>
          (if ib_seq_hash ib \<in> fst ` set (hb_blocks m)
           then (let (es, s) = hb_allocate n (Some \<lparr>hb_blocks = AList.delete (ib_seq_hash ib) (hb_blocks m), hb_policy = f\<rparr>)
                 in ((ib_seq_hash ib, ib_block_id ib) # es, s))
           else hb_allocate n (Some (m\<lparr>hb_policy := f\<rparr>))))"

text \<open>\<open>insert\<close>: only the policy can panic; the map replaces the block of a hash it has.\<close>

definition hb_insert :: "seq_hash \<Rightarrow> block_id \<Rightarrow> hashmap_backend option \<Rightarrow> hashmap_backend option" where
  "hb_insert h b s =
     Option.bind s (\<lambda>m.
     Option.bind (fifo_insert \<lparr>ib_block_id = b, ib_seq_hash = h\<rparr> (hb_policy m)) (\<lambda>f.
       Some \<lparr>hb_blocks = AList.update h b (hb_blocks m), hb_policy = f\<rparr>))"

definition hb_len :: "hashmap_backend option \<Rightarrow> usize" where
  "hb_len s = (case s of None \<Rightarrow> 0 | Some m \<Rightarrow> length (hb_blocks m))"

definition hb_peek :: "seq_hash \<Rightarrow> hashmap_backend option \<Rightarrow> block_id option" where
  "hb_peek h s = Option.bind s (\<lambda>m. map_of (hb_blocks m) h)"

definition hb_has :: "seq_hash \<Rightarrow> hashmap_backend option \<Rightarrow> bool" where
  "hb_has h s \<longleftrightarrow> hb_peek h s \<noteq> None"

definition hb_take :: "seq_hash \<Rightarrow> block_id \<Rightarrow> hashmap_backend option \<Rightarrow> bool \<times> hashmap_backend option" where
  "hb_take h b s = (if hb_peek h s = Some b then (True, snd (hb_pop h s)) else (False, s))"

partial_function (option) fifo_drain :: "fifo_policy \<Rightarrow> fifo_policy option option" where
  "fifo_drain f =
     (case fifo_next_free f of
        None \<Rightarrow> Some None
      | Some (None, f') \<Rightarrow> Some (Some f')
      | Some (Some ib, f') \<Rightarrow> fifo_drain f')"

definition hb_allocate_all :: "hashmap_backend \<Rightarrow> (entry list \<times> hashmap_backend option) option" where
  "hb_allocate_all m =
     map_option (\<lambda>r. case r of None \<Rightarrow> ([], None)
                        | Some f \<Rightarrow> (hb_blocks m, Some \<lparr>hb_blocks = [], hb_policy = f\<rparr>))
       (fifo_drain (hb_policy m))"

text \<open>One eviction, and the entries in the order of the policy.\<close>

definition hb_evict :: "hashmap_backend option \<Rightarrow> entry option \<times> hashmap_backend option" where
  "hb_evict s = (case hb_allocate 1 s of ([], s') \<Rightarrow> (None, s') | (e # _, s') \<Rightarrow> (Some e, s'))"

definition ib_entry :: "inactive_block \<Rightarrow> entry" where
  "ib_entry ib = (ib_seq_hash ib, ib_block_id ib)"

definition hb_entries :: "hashmap_backend option \<Rightarrow> entry list" where
  "hb_entries s = (case s of None \<Rightarrow> [] | Some m \<Rightarrow> map ib_entry (fifo_queue (hb_policy m)))"

definition hb_inv :: "hashmap_backend option \<Rightarrow> bool" where
  "hb_inv s \<longleftrightarrow> (\<exists>m. s = Some m \<and> fifo_inv (hb_policy m) \<and> mset (hb_blocks m) = mset (hb_entries s) \<and>
     distinct (map fst (hb_entries s)))"

definition hb_can_insert :: "seq_hash \<Rightarrow> block_id \<Rightarrow> hashmap_backend option \<Rightarrow> bool" where
  "hb_can_insert h b s \<longleftrightarrow>
     (\<exists>m. s = Some m \<and> ff_next_seq (hb_policy m) \<noteq> - 1) \<and>
     h \<notin> fst ` set (hb_entries s) \<and> b \<notin> snd ` set (hb_entries s)"

lemma hb_invE:
  assumes "hb_inv s"
  obtains m where "s = Some m" "fifo_inv (hb_policy m)" "mset (hb_blocks m) = mset (map ib_entry (fifo_queue (hb_policy m)))"
    "distinct (map fst (hb_blocks m))" "hb_entries s = map ib_entry (fifo_queue (hb_policy m))"
    "map_of (hb_blocks m) = map_of (hb_entries s)"
proof -
  obtain m where m: "s = Some m" "fifo_inv (hb_policy m)" "mset (hb_blocks m) = mset (hb_entries s)"
      "distinct (map fst (hb_entries s))" using assms by (auto simp: hb_inv_def)
  have "mset (map fst (hb_blocks m)) = mset (map fst (hb_entries s))" using m(3) by simp
  then have d: "distinct (map fst (hb_blocks m))" using m(4) mset_eq_imp_distinct_iff by blast
  have "set (hb_blocks m) = set (hb_entries s)" using m(3) by (metis set_mset_mset)
  then have "map_of (hb_blocks m) = map_of (hb_entries s)" using d m(4) map_of_eqI [of "hb_blocks m" "hb_entries s"]
    by (metis map_of_inject_set)
  with m d that show thesis by (simp add: hb_entries_def)
qed

lemma without_key_map_entry:
  assumes "distinct (map fst (map ib_entry q))" and "distinct (map ib_block_id q)"
    and "map_of (map ib_entry q) h = Some b"
  shows "map ib_entry (filter (\<lambda>ib. ib_block_id ib \<noteq> b) q) = without_key h (map ib_entry q)"
proof -
  have "(h, b) \<in> set (map ib_entry q)" by (rule map_of_SomeD [OF assms(3)])
  then obtain ib where ib: "ib \<in> set q" "ib_seq_hash ib = h" "ib_block_id ib = b" by (auto simp: ib_entry_def)
  have "ib_block_id x \<noteq> b \<longleftrightarrow> ib_seq_hash x \<noteq> h" if "x \<in> set q" for x
  proof -
    have "ib_block_id x = b \<Longrightarrow> x = ib"
      using assms(2) that ib(1,3) by (auto simp: distinct_map dest: inj_onD)
    moreover have "ib_seq_hash x = h \<Longrightarrow> x = ib"
      using assms(1) that ib(1,2) by (auto simp: distinct_map ib_entry_def inj_on_def comp_def)
    ultimately show ?thesis using ib(2,3) by auto
  qed
  then show ?thesis
    by (simp add: without_key_def filter_map comp_def ib_entry_def cong: filter_cong)
qed

lemma fifo_block_ids: "fifo_inv f \<Longrightarrow> distinct (map ib_block_id (fifo_queue f))"
  by (simp add: fifo_inv_def fifo_queue_def comp_def)

lemma without_delete: "AList.delete h es = without_key h es"
  unfolding AList.delete_eq without_key_def by (rule filter_cong [OF refl]) auto

lemma hb_pop_ok:
  assumes "hb_inv s" and "hb_pop h s = (r, s')"
  shows "r = map_of (hb_entries s) h \<and> hb_inv s' \<and> hb_entries s' = without_key h (hb_entries s)"
proof -
  obtain m where m: "s = Some m" "fifo_inv (hb_policy m)"
      "mset (hb_blocks m) = mset (map ib_entry (fifo_queue (hb_policy m)))" "distinct (map fst (hb_blocks m))"
      "hb_entries s = map ib_entry (fifo_queue (hb_policy m))" "map_of (hb_blocks m) = map_of (hb_entries s)"
    by (rule hb_invE [OF assms(1)])
  have d: "distinct (map fst (hb_entries s))" using assms(1) by (auto simp: hb_inv_def)
  show ?thesis
  proof (cases "map_of (hb_entries s) h")
    case None
    then have "without_key h (hb_entries s) = hb_entries s" by (simp add: map_of_eq_None_iff without_key_absent)
    then show ?thesis using assms m None by (auto simp: hb_pop_def)
  next
    case (Some b)
    obtain ok f where f: "fifo_remove b (hb_policy m) = Some (ok, f)" "fifo_inv f"
        "fifo_queue f = filter (\<lambda>ib. ib_block_id ib \<noteq> b) (fifo_queue (hb_policy m))"
      using fifo_remove_ok [OF m(2) refl, of b] by blast
    let ?m = "\<lparr>hb_blocks = AList.delete h (hb_blocks m), hb_policy = f\<rparr>"
    have s': "r = Some b" "s' = Some ?m" using assms(2) m(1,6) Some f(1) by (auto simp: hb_pop_def)
    have e: "hb_entries s' = without_key h (hb_entries s)"
      using without_key_map_entry [OF d [unfolded m(5)] fifo_block_ids [OF m(2)] Some [unfolded m(5)]] m(5)
      by (simp add: s' hb_entries_def f(3))
    have "mset (hb_blocks ?m) = mset (hb_entries s')"
      using m(3) unfolding e m(5) by (simp add: without_delete without_key_def mset_filter)
    then have "hb_inv s'" using s'(2) f(2) distinct_without [OF d] e by (auto simp: hb_inv_def)
    then show ?thesis using e s'(1) Some by simp
  qed
qed

lemma hb_allocate_ok:
  "hb_inv s \<Longrightarrow> hb_allocate n s = (es, s') \<Longrightarrow>
    hb_inv s' \<and> es = take n (hb_entries s) \<and> hb_entries s' = drop n (hb_entries s)"
proof (induction n arbitrary: s es s')
  case (Suc n)
  obtain m where m: "s = Some m" "fifo_inv (hb_policy m)"
      "mset (hb_blocks m) = mset (map ib_entry (fifo_queue (hb_policy m)))" "distinct (map fst (hb_blocks m))"
      "hb_entries s = map ib_entry (fifo_queue (hb_policy m))" "map_of (hb_blocks m) = map_of (hb_entries s)"
    by (rule hb_invE [OF Suc.prems(1)])
  have d: "distinct (map fst (hb_entries s))" using Suc.prems(1) by (auto simp: hb_inv_def)
  obtain f where f: "fifo_next_free (hb_policy m) =
      Some (case fifo_queue (hb_policy m) of [] \<Rightarrow> None | ib # q \<Rightarrow> Some ib, f)" "fifo_inv f"
      "fifo_queue f = tl (fifo_queue (hb_policy m))"
    using fifo_next_free_ok [OF m(2)] by blast
  show ?case
  proof (cases "fifo_queue (hb_policy m)")
    case Nil
    have "hb_blocks m = []" using m(3) Nil by simp
    then show ?thesis using Suc.prems(2) m(1) f Nil by (auto simp: hb_inv_def hb_entries_def)
  next
    case (Cons ib q)
    let ?m = "\<lparr>hb_blocks = AList.delete (ib_seq_hash ib) (hb_blocks m), hb_policy = f\<rparr>"
    have es: "hb_entries s = ib_entry ib # map ib_entry q" "hb_entries (Some ?m) = map ib_entry q"
      using Cons f(3) m(5) by (simp_all add: hb_entries_def)
    have key: "ib_seq_hash ib \<notin> fst ` set (map ib_entry q)"
      using d unfolding es by (simp add: ib_entry_def image_image)
    have "mset (without_key (ib_seq_hash ib) (hb_blocks m)) = mset (without_key (ib_seq_hash ib) (hb_entries s))"
      using m(3,5) by (simp add: without_key_def mset_filter)
    also have "without_key (ib_seq_hash ib) (hb_entries s) = map ib_entry q"
      using without_key_absent [OF key] unfolding es by (simp add: without_key_def ib_entry_def)
    finally have "hb_inv (Some ?m)"
      using f(2) d unfolding hb_inv_def es by (auto simp: without_delete hb_entries_def)
    moreover have "ib_seq_hash ib \<in> fst ` set (hb_blocks m)"
      using m(3,5) es(1) by (metis ib_entry_def image_eqI fst_conv list.set_intros(1) set_mset_mset)
    moreover obtain es' s1 where rest: "hb_allocate n (Some ?m) = (es', s1)" by fastforce
    ultimately show ?thesis
      using Suc.IH [OF _ rest] Suc.prems(2) m(1) f(1) Cons rest unfolding es by (simp add: ib_entry_def)
  qed
qed simp

lemma update_absent: "h \<notin> fst ` set es \<Longrightarrow> AList.update h b es = es @ [(h, b)]"
  by (induction es) auto

lemma hb_insert_ok:
  assumes "hb_inv s" and "hb_can_insert h b s"
  shows "hb_inv (hb_insert h b s) \<and> hb_entries (hb_insert h b s) = hb_entries s @ [(h, b)] \<and> hb_insert h b s \<noteq> None"
proof -
  obtain m where m: "s = Some m" "fifo_inv (hb_policy m)"
      "mset (hb_blocks m) = mset (map ib_entry (fifo_queue (hb_policy m)))" "distinct (map fst (hb_blocks m))"
      "hb_entries s = map ib_entry (fifo_queue (hb_policy m))" "map_of (hb_blocks m) = map_of (hb_entries s)"
    by (rule hb_invE [OF assms(1)])
  have "b \<notin> ib_block_id ` set (fifo_queue (hb_policy m))" "ff_next_seq (hb_policy m) \<noteq> - 1"
    using assms(2) m(1,5) by (auto simp: hb_can_insert_def ib_entry_def image_image)
  then obtain f where f: "fifo_insert \<lparr>ib_block_id = b, ib_seq_hash = h\<rparr> (hb_policy m) = Some f" "fifo_inv f"
      "fifo_queue f = fifo_queue (hb_policy m) @ [\<lparr>ib_block_id = b, ib_seq_hash = h\<rparr>]"
    using fifo_insert_ok [OF m(2), of "\<lparr>ib_block_id = b, ib_seq_hash = h\<rparr>"] by auto
  have h: "h \<notin> fst ` set (hb_entries s)" using assms(2) by (simp add: hb_can_insert_def)
  then have "map_of (hb_blocks m) h = None" unfolding m(6) by (simp add: map_of_eq_None_iff)
  then have "h \<notin> fst ` set (hb_blocks m)" by (simp add: map_of_eq_None_iff)
  then have upd: "AList.update h b (hb_blocks m) = hb_blocks m @ [(h, b)]" by (rule update_absent)
  have s': "hb_insert h b s = Some \<lparr>hb_blocks = hb_blocks m @ [(h, b)], hb_policy = f\<rparr>"
    using m(1) f(1) upd by (simp add: hb_insert_def)
  have e: "hb_entries (hb_insert h b s) = hb_entries s @ [(h, b)]"
    unfolding s' m(5) by (simp add: hb_entries_def f(3) ib_entry_def)
  moreover have "hb_inv (hb_insert h b s)"
    using f(2) m(3) h assms(1) unfolding hb_inv_def e by (auto simp: s' m(5) hb_inv_def)
  ultimately show ?thesis by (simp add: s')
qed

lemma hb_evict_ok:
  assumes "hb_inv s" and "hb_evict s = (x, s')"
  shows "hb_inv s' \<and> (case hb_entries s of [] \<Rightarrow> x = None \<and> hb_entries s' = [] | e # es \<Rightarrow> x = Some e \<and> hb_entries s' = es)"
proof -
  obtain es s1 where a: "hb_allocate 1 s = (es, s1)" by fastforce
  then have "s1 = s'" using assms(2) by (auto simp: hb_evict_def split: list.splits)
  with hb_allocate_ok [OF assms(1) a] assms(2) a show ?thesis
    by (cases "hb_entries s") (auto simp: hb_evict_def)
qed

interpretation hashmap: inactive_index hb_inv hb_entries hb_pop hb_evict
  "\<lambda>h b s. Some (hb_insert h b s)" hb_can_insert hb_peek hb_len
proof
  fix s h b r s' x
  assume s: "hb_inv s"
  show "distinct (map fst (hb_entries s))" using s by (auto simp: hb_inv_def)
  show "hb_pop h s = (r, s') \<Longrightarrow> r = map_of (hb_entries s) h \<and> hb_inv s' \<and> hb_entries s' = without_key h (hb_entries s)"
    by (rule hb_pop_ok [OF s])
  show "hb_evict s = (x, s') \<Longrightarrow> hb_inv s' \<and>
      (case hb_entries s of [] \<Rightarrow> x = None \<and> hb_entries s' = [] | e # es \<Rightarrow> x = Some e \<and> hb_entries s' = es)"
    by (rule hb_evict_ok [OF s])
  show "hb_can_insert h b s \<Longrightarrow> \<exists>s'. Some (hb_insert h b s) = Some s' \<and> hb_inv s' \<and>
      mset (hb_entries s') = add_mset (h, b) (mset (hb_entries s))"
    using hb_insert_ok [OF s] by simp
  obtain m where m: "s = Some m" "mset (hb_blocks m) = mset (hb_entries s)" "map_of (hb_blocks m) = map_of (hb_entries s)"
    by (rule hb_invE [OF s]) simp
  show "hb_peek h s = map_of (hb_entries s) h" using m(3) by (simp add: hb_peek_def m(1))
  show "hb_len s = length (hb_entries s)" using mset_eq_length [OF m(2)] by (simp add: hb_len_def m(1))
qed

lemma fifo_drain_ends: "fifo_inv f \<Longrightarrow> \<exists>f'. fifo_drain f = Some (Some f') \<and> fifo_inv f' \<and> fifo_queue f' = []"
proof (induction "length (fifo_queue f)" arbitrary: f rule: less_induct)
  case less
  obtain f' where f': "fifo_next_free f = Some (case fifo_queue f of [] \<Rightarrow> None | ib # q \<Rightarrow> Some ib, f')" "fifo_inv f'"
      "fifo_queue f' = tl (fifo_queue f)"
    using fifo_next_free_ok [OF less.prems] by blast
  show ?case
  proof (cases "fifo_queue f")
    case Nil
    then show ?thesis using f' by (subst fifo_drain.simps) simp
  next
    case (Cons ib q)
    with less.hyps [of f'] f' show ?thesis by (subst fifo_drain.simps) simp
  qed
qed

section \<open>Properties of the eviction indices\<close>



text \<open>
  C37: Draining an LRU backend ends, on any cache that behaves as documented, with every entry
  returned once, the oldest first, and an empty cache.
\<close>

theorem lru_allocate_all_ends:
  assumes "lru_cache_ok C valid order" and "valid c"
  shows "\<exists>c'. lru_allocate_all C c = Some (order c, c') \<and> valid c' \<and> order c' = []"
  unfolding lru_allocate_all_def by (rule inactive_index.drain_ok [OF lru_backend_index [OF assms(1)] assms(2)])

theorem lru_allocate_all_ends_witness:
  "\<exists>c'. lru_allocate_all list_lru (8, [(1, 10), (2, 20)]) = Some ([(1, 10), (2, 20)], c') \<and> snd c' = []"
  using lru_allocate_all_ends [OF list_lru_ok, of "(8, [(1, 10), (2, 20)])"] by auto

text \<open>
  A block made evictable under a new hash is found again under it, and finding it
  restores the index: insert and \<open>find_match\<close> of the hash-map backend are inverse, no
  assertion of the reuse policy fails on the way, and the entries keep their FIFO order.
\<close>

theorem hashmap_insert_find:
  assumes "hb_inv s" and "hb_can_insert h b s"
  shows "hb_entries (hb_insert h b s) = hb_entries s @ [(h, b)] \<and>
    (case hb_find_match h (hb_insert h b s) of (r, s') \<Rightarrow>
      r = Some (h, b) \<and> hb_inv s' \<and> hb_entries s' = hb_entries s)"
proof -
  note ins = hb_insert_ok [OF assms]
  obtain r s' where p: "hb_pop h (hb_insert h b s) = (r, s')" by fastforce
  have h: "h \<notin> fst ` set (hb_entries s)" using assms(2) by (simp add: hb_can_insert_def)
  then have "map_of (hb_entries s @ [(h, b)]) h = Some b"
    by (simp add: map_add_def map_of_eq_None_iff [symmetric])
  moreover have "without_key h (hb_entries s @ [(h, b)]) = hb_entries s"
    using without_key_absent [OF h] by (simp add: without_key_def)
  ultimately show ?thesis
    using hb_pop_ok [OF _ p] ins p by (simp add: hb_find_match_def)
qed

theorem hashmap_insert_find_witness:
  "hb_find_match 7 (hb_insert 7 3 (Some new_hashmap_backend)) = (Some (7, 3), snd (hb_find_match 7 (hb_insert 7 3 (Some new_hashmap_backend)))) \<and>
   hb_entries (hb_insert 7 3 (Some new_hashmap_backend)) = [(7, 3)]"
proof -
  have "hb_inv (Some new_hashmap_backend)" "hb_can_insert 7 3 (Some new_hashmap_backend)"
    by (simp_all add: hb_inv_def hb_can_insert_def hb_entries_def new_hashmap_backend_def new_fifo_def fifo_inv_def fifo_queue_def)
  from hashmap_insert_find [OF this] show ?thesis
    by (auto simp: hb_entries_def new_hashmap_backend_def new_fifo_def fifo_queue_def split: prod.splits)
qed

text \<open>
  The tiered backend evicts cold blocks first: what \<open>allocate\<close> returns is a prefix of the
  tiers in ascending frequency class, oldest first within a tier, so no block of a tier
  leaves while a colder one remains; an insert puts the block last in the tier of its access
  frequency and moves nothing else.
\<close>

theorem multi_lru_evicts_cold_first:
  assumes "lru_cache_ok C valid order" and "ml_inv valid order m" and "ml_can_insert C order freq h b m"
  shows "(case ml_allocate C n m of (es, m') \<Rightarrow>
      es = take n (concat (map order (ml_pools m))) \<and>
      concat (map order (ml_pools m')) = drop n (concat (map order (ml_pools m)))) \<and>
    map order (ml_pools (ml_insert C freq h b m)) =
      (map order (ml_pools m))[calculate_priority_level freq h m :=
        order (ml_pools m ! calculate_priority_level freq h m) @ [(h, b)]]"
proof -
  note ix = multi_lru_index [OF assms(1), of freq]
  let ?k = "calculate_priority_level freq h m"
  let ?p = "ml_pools m ! ?k"
  have k: "?k < length (ml_pools m)" using assms(2) level_bound by (auto simp: ml_inv_def)
  then have p: "valid ?p" using assms(2) by (auto simp: ml_inv_def list_all_length)
  have "h \<notin> fst ` set (order ?p)"
    using assms(3) nth_mem [OF k] by (auto simp: ml_can_insert_def ml_entries_def tiers_def image_iff)
  moreover have "length (order ?p) < lc_cap C ?p"
    using assms(3) lru_cache_okD(2) [OF assms(1) p] by (simp add: ml_can_insert_def Let_def)
  ultimately have "order (lc_put C h b ?p) = order ?p @ [(h, b)]"
    by (simp add: lru_cache_okD(8) [OF assms(1) p] lru_put_spec_def without_key_absent)
  then have "map order (ml_pools (ml_insert C freq h b m)) = (map order (ml_pools m))[?k := order ?p @ [(h, b)]]"
    by (simp add: ml_insert_def Let_def map_update)
  then show ?thesis
    using inactive_index.evict_many_ok [OF ix assms(2), of n]
    by (auto simp: ml_allocate_def ml_entries_def tiers_def split: prod.split)
qed

definition demo_tiers :: "(usize \<times> entry list) multi_lru" where
  "demo_tiers = \<lparr>ml_pools = [(8, [(1, 10)]), (8, []), (8, [(2, 20)]), (8, [(3, 30)])], ml_thresholds = (2, 6, 15)\<rparr>"

theorem multi_lru_evicts_cold_first_witness:
  "fst (ml_allocate list_lru 2 demo_tiers) = [(1, 10), (2, 20)] \<and>
   map snd (ml_pools (ml_insert list_lru (\<lambda>_. 3) 4 40 demo_tiers)) = [[(1, 10)], [(4, 40)], [(2, 20)], [(3, 30)]]"
proof -
  have "ml_inv (\<lambda>(n, es). distinct (map fst es)) snd demo_tiers" "ml_can_insert list_lru snd (\<lambda>_. 3) 4 40 demo_tiers"
    by (simp_all add: demo_tiers_def ml_inv_def ml_entries_def tiers_def ml_can_insert_def list_lru_def
        calculate_priority_level_def)
  from multi_lru_evicts_cold_first [OF list_lru_ok this, of 2] show ?thesis
    by (auto simp: demo_tiers_def calculate_priority_level_def split: prod.splits)
qed

end
