(* ===== verification/Block_Store.thy ===== *)
theory Block_Store
  imports Inactive_Index "HOL-Library.Monad_Syntax"
begin

text \<open>
  The logical block store, \<open>kvbm/kvbm-logical/src/pools/store.rs\<close>, with the block guards of
  \<open>blocks/\<close> and the manager operations of \<open>manager/mod.rs\<close> that drive it.

  A call that holds the store mutex is one step. The end of an \<open>Arc<ImmutableBlockInner>\<close> is
  two steps, as in the code: the strong count reaches zero, and later \<open>Inner::drop\<close> takes the
  mutex; another lookup may come in between. Arcs live in \<open>bs_arcs\<close> under addresses that are
  not reused (a slot keeps a \<open>Weak\<close>, which keeps the allocation); a registration handle is its
  sequence hash. The presence markers of the handles are \<open>bs_presence\<close>. A panic is \<open>None\<close>.
  Metrics are left out.
\<close>

section \<open>State\<close>

text \<open>The operations of a boxed \<open>InactiveIndex\<close> the store calls.\<close>

record 'i index =
  ix_find :: "seq_hash \<Rightarrow> 'i \<Rightarrow> entry option \<times> 'i"
  ix_scan :: "seq_hash list \<Rightarrow> 'i \<Rightarrow> entry list \<times> 'i"
  ix_allocate :: "nat \<Rightarrow> 'i \<Rightarrow> entry list \<times> 'i"
  ix_insert :: "seq_hash \<Rightarrow> block_id \<Rightarrow> 'i \<Rightarrow> 'i option"
  ix_len :: "'i \<Rightarrow> usize"
  ix_allocate_all :: "'i \<Rightarrow> (entry list \<times> 'i) option"

type_synonym arc_addr = nat

datatype slot =
    Reset
  | Mutable
  | Staged seq_hash
  | Primary seq_hash arc_addr
  | Duplicate seq_hash arc_addr
  | Inactive seq_hash

text \<open>\<open>ImmutableBlockInner\<close> behind its \<open>Arc\<close>, with the strong count.\<close>

record inner =
  in_block :: block_id
  in_hash :: seq_hash
  in_primary :: bool
  in_keep :: "arc_addr option"
  in_strong :: nat

record 'i block_store =
  bs_slots :: "slot list"
  bs_free :: "block_id list"
  bs_inactive :: 'i
  bs_active :: "seq_hash \<rightharpoonup> block_id"
  bs_ror :: "bool list"
  bs_default :: bool
  bs_block_size :: usize
  bs_arcs :: "arc_addr \<rightharpoonup> inner"
  bs_next :: arc_addr
  bs_presence :: "seq_hash \<Rightarrow> nat"

definition new_store :: "usize \<Rightarrow> usize \<Rightarrow> 'i \<Rightarrow> bool \<Rightarrow> 'i block_store" where
  "new_store total_blocks block_size ix dflt =
     \<lparr>bs_slots = replicate total_blocks Reset, bs_free = [0..<total_blocks], bs_inactive = ix,
      bs_active = Map.empty, bs_ror = replicate total_blocks dflt, bs_default = dflt,
      bs_block_size = block_size, bs_arcs = Map.empty, bs_next = 0, bs_presence = (\<lambda>_. 0)\<rparr>"

section \<open>Slots and arcs\<close>

definition slot_at :: "'i block_store \<Rightarrow> block_id \<Rightarrow> slot option" where
  "slot_at st b = (if b < length (bs_slots st) then Some (bs_slots st ! b) else None)"

definition put_slot :: "block_id \<Rightarrow> slot \<Rightarrow> 'i block_store \<Rightarrow> 'i block_store option" where
  "put_slot b s st = (if b < length (bs_slots st) then Some (st\<lparr>bs_slots := (bs_slots st)[b := s]\<rparr>) else None)"

definition store_reset_on_release :: "block_id \<Rightarrow> bool \<Rightarrow> 'i block_store \<Rightarrow> 'i block_store option" where
  "store_reset_on_release b v st = (if b < length (bs_ror st) then Some (st\<lparr>bs_ror := (bs_ror st)[b := v]\<rparr>) else None)"

definition mark_present :: "seq_hash \<Rightarrow> 'i block_store \<Rightarrow> 'i block_store" where
  "mark_present h st = st\<lparr>bs_presence := (bs_presence st)(h := bs_presence st h + 1)\<rparr>"

definition mark_absent :: "seq_hash \<Rightarrow> 'i block_store \<Rightarrow> 'i block_store" where
  "mark_absent h st = st\<lparr>bs_presence := (bs_presence st)(h := bs_presence st h - 1)\<rparr>"

definition take_inactive_handle :: "block_id \<Rightarrow> 'i block_store \<Rightarrow> seq_hash option" where
  "take_inactive_handle b st = (case slot_at st b of Some (Inactive h) \<Rightarrow> Some h | _ \<Rightarrow> None)"

text \<open>A slot opened for a fresh tenant, in the loops of the allocations.\<close>

definition open_slot :: "block_id \<Rightarrow> 'i block_store \<Rightarrow> 'i block_store option" where
  "open_slot b st = do { st1 \<leftarrow> put_slot b Mutable st; store_reset_on_release b (bs_default st1) st1 }"

fun open_slots :: "block_id list \<Rightarrow> 'i block_store \<Rightarrow> 'i block_store option" where
  "open_slots [] st = Some st"
| "open_slots (b # bs) st = do { st1 \<leftarrow> open_slot b st; open_slots bs st1 }"

fun evict_slots :: "entry list \<Rightarrow> 'i block_store \<Rightarrow> (seq_hash list \<times> 'i block_store) option" where
  "evict_slots [] st = Some ([], st)"
| "evict_slots ((h, b) # es) st = do {
     k \<leftarrow> take_inactive_handle b st;
     st1 \<leftarrow> open_slot b st;
     (ks, st2) \<leftarrow> evict_slots es st1;
     Some (k # ks, st2) }"

definition arc_upgrade :: "arc_addr \<Rightarrow> 'i block_store \<Rightarrow> 'i block_store option" where
  "arc_upgrade a st =
     (case bs_arcs st a of
        None \<Rightarrow> None
      | Some i \<Rightarrow> if in_strong i = 0 then None
          else Some (st\<lparr>bs_arcs := (bs_arcs st)(a \<mapsto> i\<lparr>in_strong := in_strong i + 1\<rparr>)\<rparr>))"

definition install_primary :: "block_id \<Rightarrow> seq_hash \<Rightarrow> 'i block_store \<Rightarrow> (arc_addr \<times> 'i block_store) option" where
  "install_primary b h st = do {
     let a = bs_next st;
     st1 \<leftarrow> put_slot b (Primary h a) st;
     Some (a, st1\<lparr>bs_active := (bs_active st1)(h \<mapsto> b), bs_next := a + 1,
       bs_arcs := (bs_arcs st1)(a \<mapsto>
         \<lparr>in_block = b, in_hash = h, in_primary = True, in_keep = None, in_strong = 1\<rparr>)\<rparr>) }"

definition install_duplicate ::
  "block_id \<Rightarrow> seq_hash \<Rightarrow> arc_addr \<Rightarrow> 'i block_store \<Rightarrow> (arc_addr \<times> 'i block_store) option" where
  "install_duplicate b h p st = do {
     let a = bs_next st;
     st1 \<leftarrow> put_slot b (Duplicate h a) st;
     Some (a, st1\<lparr>bs_next := a + 1, bs_arcs := (bs_arcs st1)(a \<mapsto>
       \<lparr>in_block = b, in_hash = h, in_primary = False, in_keep = Some p, in_strong = 1\<rparr>)\<rparr>) }"

section \<open>Allocation\<close>

definition available_len :: "'i index \<Rightarrow> 'i block_store \<Rightarrow> usize" where
  "available_len I st = length (bs_free st) + ix_len I (bs_inactive st)"

definition allocate_reset_blocks :: "usize \<Rightarrow> 'i block_store \<Rightarrow> (block_id list \<times> 'i block_store) option" where
  "allocate_reset_blocks n st = do {
     let t = min n (length (bs_free st));
     let ids = take t (bs_free st);
     st1 \<leftarrow> open_slots ids (st\<lparr>bs_free := drop t (bs_free st)\<rparr>);
     Some (ids, st1) }"

fun put_back :: "'i index \<Rightarrow> entry list \<Rightarrow> 'i \<Rightarrow> 'i option" where
  "put_back I [] ix = Some ix"
| "put_back I ((h, b) # es) ix = do { ix1 \<leftarrow> ix_insert I h b ix; put_back I es ix1 }"

text \<open>The inner option is the answer to the caller, the outer one a panic.\<close>

definition allocate_atomic ::
  "'i index \<Rightarrow> usize \<Rightarrow> 'i block_store \<Rightarrow> ((block_id list \<times> seq_hash list) option \<times> 'i block_store) option" where
  "allocate_atomic I n st =
     (if n = 0 then Some (Some ([], []), st)
      else if length (bs_free st) + ix_len I (bs_inactive st) < n then Some (None, st)
      else
        let from_reset = min n (length (bs_free st));
            from_inactive = n - from_reset;
            reset_ids = take from_reset (bs_free st);
            rest = drop from_reset (bs_free st);
            (evicted, ix) = (if 0 < from_inactive then ix_allocate I from_inactive (bs_inactive st)
                             else ([], bs_inactive st))
        in if length evicted \<noteq> from_inactive then do {
             ix1 \<leftarrow> put_back I evicted ix;
             Some (None, st\<lparr>bs_inactive := ix1, bs_free := reset_ids @ rest\<rparr>) }
           else do {
             st1 \<leftarrow> open_slots reset_ids (st\<lparr>bs_inactive := ix, bs_free := rest\<rparr>);
             (handles, st2) \<leftarrow> evict_slots evicted st1;
             Some (Some (reset_ids @ map snd evicted, map fst evicted), fold mark_absent handles st2) })"

definition drain_inactive_to_mutable :: "'i index \<Rightarrow> 'i block_store \<Rightarrow> (block_id list \<times> 'i block_store) option" where
  "drain_inactive_to_mutable I st = do {
     (drained, ix) \<leftarrow> ix_allocate_all I (bs_inactive st);
     (handles, st1) \<leftarrow> evict_slots drained (st\<lparr>bs_inactive := ix\<rparr>);
     Some (map snd drained, fold mark_absent handles st1) }"

section \<open>Lookup\<close>

definition eager_primary_to_inactive ::
  "'i index \<Rightarrow> seq_hash \<Rightarrow> block_id \<Rightarrow> 'i block_store \<Rightarrow> 'i block_store option" where
  "eager_primary_to_inactive I h b st =
     (case slot_at st b of
        Some (Primary _ _) \<Rightarrow> do {
          st1 \<leftarrow> put_slot b (Inactive h) st;
          ix \<leftarrow> ix_insert I h b (bs_inactive st1);
          Some (st1\<lparr>bs_inactive := ix, bs_active := (bs_active st1)(h := None)\<rparr>) }
      | _ \<Rightarrow> None)"

definition resurrect :: "'i index \<Rightarrow> seq_hash \<Rightarrow> 'i block_store \<Rightarrow> (arc_addr option \<times> 'i block_store) option" where
  "resurrect I h st =
     (case ix_find I h (bs_inactive st) of
        (None, ix) \<Rightarrow> Some (None, st\<lparr>bs_inactive := ix\<rparr>)
      | (Some (_, b), ix) \<Rightarrow> do {
          _ \<leftarrow> take_inactive_handle b st;
          (a, st1) \<leftarrow> install_primary b h (st\<lparr>bs_inactive := ix\<rparr>);
          Some (Some a, st1) })"

definition acquire_for_hash :: "'i index \<Rightarrow> seq_hash \<Rightarrow> 'i block_store \<Rightarrow> (arc_addr option \<times> 'i block_store) option" where
  "acquire_for_hash I h st =
     (case bs_active st h of
        None \<Rightarrow> resurrect I h st
      | Some b \<Rightarrow>
          (case slot_at st b of
             Some (Primary _ a) \<Rightarrow>
               (case arc_upgrade a st of
                  Some st1 \<Rightarrow> Some (Some a, st1)
                | None \<Rightarrow> do { st1 \<leftarrow> eager_primary_to_inactive I h b st; resurrect I h st1 })
           | _ \<Rightarrow> None))"

fun match_prefix_locked_batch ::
  "'i index \<Rightarrow> seq_hash list \<Rightarrow> 'i block_store \<Rightarrow> (arc_addr list \<times> 'i block_store) option" where
  "match_prefix_locked_batch I [] st = Some ([], st)"
| "match_prefix_locked_batch I (h # hs) st = do {
     (r, st1) \<leftarrow> acquire_for_hash I h st;
     (case r of
        None \<Rightarrow> Some ([], st1)
      | Some a \<Rightarrow> do {
          (as, st2) \<leftarrow> match_prefix_locked_batch I hs st1;
          Some (a # as, st2) }) }"

text \<open>\<open>promote_inactive\<close> as its caller \<open>scan_inactive_primaries\<close> uses it.\<close>

fun promote_slots :: "entry list \<Rightarrow> 'i block_store \<Rightarrow> ((seq_hash \<times> arc_addr) list \<times> 'i block_store) option" where
  "promote_slots [] st = Some ([], st)"
| "promote_slots ((h, b) # es) st = do {
     _ \<leftarrow> take_inactive_handle b st;
     (a, st1) \<leftarrow> install_primary b h st;
     (as, st2) \<leftarrow> promote_slots es st1;
     Some ((h, a) # as, st2) }"

definition scan_inactive_primaries ::
  "'i index \<Rightarrow> seq_hash list \<Rightarrow> 'i block_store \<Rightarrow> ((seq_hash \<times> arc_addr) list \<times> 'i block_store) option" where
  "scan_inactive_primaries I hs st =
     (let (matched, ix) = ix_scan I hs (bs_inactive st) in promote_slots matched (st\<lparr>bs_inactive := ix\<rparr>))"

section \<open>Transitions of the guards\<close>

definition release_mutable :: "block_id \<Rightarrow> 'i block_store \<Rightarrow> 'i block_store option" where
  "release_mutable b st = do { st1 \<leftarrow> put_slot b Reset st; Some (st1\<lparr>bs_free := bs_free st1 @ [b]\<rparr>) }"

definition transition_to_staged :: "block_id \<Rightarrow> seq_hash \<Rightarrow> 'i block_store \<Rightarrow> 'i block_store option" where
  "transition_to_staged b h st = put_slot b (Staged h) st"

definition transition_back_to_mutable :: "block_id \<Rightarrow> 'i block_store \<Rightarrow> 'i block_store option" where
  "transition_back_to_mutable b st = open_slot b st"

definition release_staged :: "block_id \<Rightarrow> 'i block_store \<Rightarrow> 'i block_store option" where
  "release_staged b st = do { st1 \<leftarrow> put_slot b Reset st; Some (st1\<lparr>bs_free := bs_free st1 @ [b]\<rparr>) }"

datatype stage_error = BlockSizeMismatch usize usize

definition stage :: "block_id \<Rightarrow> seq_hash \<Rightarrow> usize \<Rightarrow> 'i block_store \<Rightarrow> (stage_error + 'i block_store) option" where
  "stage b h block_size st =
     (if block_size \<noteq> bs_block_size st then Some (Inl (BlockSizeMismatch (bs_block_size st) block_size))
      else map_option Inr (transition_to_staged b h st))"

datatype duplication_policy = Allow | Reject

definition register_completed_block ::
  "'i index \<Rightarrow> duplication_policy \<Rightarrow> block_id \<Rightarrow> seq_hash \<Rightarrow> 'i block_store \<Rightarrow> (arc_addr \<times> 'i block_store) option" where
  "register_completed_block I policy b h st = do {
     (existing, st1) \<leftarrow> acquire_for_hash I h st;
     (case existing of
        Some p \<Rightarrow> do {
          i \<leftarrow> bs_arcs st1 p;
          if in_block i = b then None
          else (case policy of
              Allow \<Rightarrow> do { (a, st2) \<leftarrow> install_duplicate b h p st1; Some (a, mark_present h st2) }
            | Reject \<Rightarrow> do { st2 \<leftarrow> release_staged b st1; Some (p, st2) }) }
      | None \<Rightarrow> do { (a, st2) \<leftarrow> install_primary b h st1; Some (a, mark_present h st2) }) }"

definition reset_slot_locked :: "block_id \<Rightarrow> 'i block_store \<Rightarrow> 'i block_store option" where
  "reset_slot_locked b st = do { st1 \<leftarrow> put_slot b Reset st; Some (st1\<lparr>bs_free := bs_free st1 @ [b]\<rparr>) }"

definition release_primary :: "'i index \<Rightarrow> block_id \<Rightarrow> arc_addr \<Rightarrow> 'i block_store \<Rightarrow> 'i block_store option" where
  "release_primary I b a st =
     (case slot_at st b of
        None \<Rightarrow> None
      | Some (Primary h a') \<Rightarrow>
          if a' \<noteq> a then Some st
          else if bs_ror st ! b then do {
            st1 \<leftarrow> reset_slot_locked b st;
            Some (mark_absent h (st1\<lparr>bs_active := (bs_active st1)(h := None)\<rparr>)) }
          else do {
            st1 \<leftarrow> put_slot b (Inactive h) st;
            ix \<leftarrow> ix_insert I h b (bs_inactive st1);
            Some (st1\<lparr>bs_inactive := ix, bs_active := (bs_active st1)(h := None)\<rparr>) }
      | Some _ \<Rightarrow> Some st)"

definition release_duplicate :: "block_id \<Rightarrow> arc_addr \<Rightarrow> 'i block_store \<Rightarrow> 'i block_store option" where
  "release_duplicate b a st =
     (case slot_at st b of
        None \<Rightarrow> None
      | Some (Duplicate h a') \<Rightarrow>
          if a' \<noteq> a then Some st
          else do { st1 \<leftarrow> reset_slot_locked b st; Some (mark_absent h st1) }
      | Some _ \<Rightarrow> Some st)"

text \<open>
  \<open>Inner::drop\<close>, run once the strong count is zero. The reference a duplicate kept on its
  primary is still counted there afterwards and is dropped by a later \<open>arc_drop\<close>.
\<close>

definition inner_drop :: "'i index \<Rightarrow> arc_addr \<Rightarrow> 'i block_store \<Rightarrow> 'i block_store option" where
  "inner_drop I a st = do {
     i \<leftarrow> bs_arcs st a;
     st1 \<leftarrow> (if in_primary i then release_primary I (in_block i) a st else release_duplicate (in_block i) a st);
     Some (st1\<lparr>bs_arcs := (bs_arcs st1)(a := None)\<rparr>) }"

text \<open>\<open>ImmutableBlock::clone\<close> and the drop of one reference.\<close>

definition arc_clone :: "arc_addr \<Rightarrow> 'i block_store \<Rightarrow> 'i block_store option" where
  "arc_clone a st = do { i \<leftarrow> bs_arcs st a; Some (st\<lparr>bs_arcs := (bs_arcs st)(a \<mapsto> i\<lparr>in_strong := in_strong i + 1\<rparr>)\<rparr>) }"

definition arc_drop :: "arc_addr \<Rightarrow> 'i block_store \<Rightarrow> 'i block_store option" where
  "arc_drop a st = do { i \<leftarrow> bs_arcs st a; Some (st\<lparr>bs_arcs := (bs_arcs st)(a \<mapsto> i\<lparr>in_strong := in_strong i - 1\<rparr>)\<rparr>) }"

definition set_primary_reset_on_release :: "arc_addr \<Rightarrow> bool \<Rightarrow> 'i block_store \<Rightarrow> 'i block_store option" where
  "set_primary_reset_on_release a v st = do {
     i \<leftarrow> bs_arcs st a;
     j \<leftarrow> (case in_keep i of None \<Rightarrow> Some i | Some p \<Rightarrow> bs_arcs st p);
     store_reset_on_release (in_block j) v st }"

text \<open>\<open>WeakBlock::upgrade\<close> of a weak reference to arc \<open>a\<close> with the handle of hash \<open>h\<close>.\<close>

definition weak_upgrade :: "'i index \<Rightarrow> arc_addr \<Rightarrow> seq_hash \<Rightarrow> 'i block_store \<Rightarrow> (arc_addr option \<times> 'i block_store) option" where
  "weak_upgrade I a h st =
     (case arc_upgrade a st of
        Some st1 \<Rightarrow> Some (Some a, st1)
      | None \<Rightarrow> acquire_for_hash I h st)"

section \<open>The manager\<close>

fun release_mutables :: "block_id list \<Rightarrow> 'i block_store \<Rightarrow> 'i block_store option" where
  "release_mutables [] st = Some st"
| "release_mutables (b # bs) st = do { st1 \<leftarrow> release_mutable b st; release_mutables bs st1 }"

definition evict_inactive :: "'i index \<Rightarrow> 'i block_store \<Rightarrow> 'i block_store option" where
  "evict_inactive I st = do { (bs, st1) \<leftarrow> drain_inactive_to_mutable I st; release_mutables bs st1 }"

datatype reset_error = BlockCountMismatch usize usize

definition reset_inactive_pool :: "'i index \<Rightarrow> 'i block_store \<Rightarrow> ((reset_error + unit) \<times> 'i block_store) option" where
  "reset_inactive_pool I st = do {
     st1 \<leftarrow> evict_inactive I st;
     let reset_count = length (bs_free st1);
     let total_blocks = length (bs_slots st1);
     Some (if reset_count \<noteq> total_blocks then Inl (BlockCountMismatch total_blocks reset_count) else Inr (), st1) }"

end
