(* ===== verification/Block_Invariant.thy ===== *)
theory Block_Invariant
  imports Block_Store
begin

text \<open>
  The lifecycle of blocks in the store: its invariant, the steps of the threads that use it, and
  what they guarantee.
\<close>

section \<open>Guards and the relation between the parts of the store\<close>

text \<open>A \<open>MutableBlock\<close> or a \<open>CompleteBlock\<close> some thread holds.\<close>

datatype guard = GMutable block_id | GComplete block_id seq_hash

definition slots_ok ::
  "(block_id \<rightharpoonup> slot) \<Rightarrow> block_id set \<Rightarrow> entry set \<Rightarrow> (seq_hash \<rightharpoonup> block_id) \<Rightarrow> guard set \<Rightarrow> bool" where
  "slots_ok sl F E act G \<longleftrightarrow>
     (\<forall>b. b \<in> F \<longleftrightarrow> sl b = Some Reset) \<and>
     (\<forall>h b. (h, b) \<in> E \<longleftrightarrow> sl b = Some (Inactive h)) \<and>
     (\<forall>b h a. sl b = Some (Primary h a) \<longrightarrow> act h = Some b) \<and>
     (\<forall>h b. act h = Some b \<longrightarrow> (\<exists>a. sl b = Some (Primary h a))) \<and>
     (\<forall>b h. sl b = Some (Inactive h) \<longrightarrow> act h = None) \<and>
     (\<forall>b. GMutable b \<in> G \<longleftrightarrow> sl b = Some Mutable) \<and>
     (\<forall>b h. GComplete b h \<in> G \<longleftrightarrow> sl b = Some (Staged h))"

definition bears :: "seq_hash \<Rightarrow> slot \<Rightarrow> bool" where
  "bears h s \<longleftrightarrow> (case s of Primary k _ \<Rightarrow> k = h | Duplicate k _ \<Rightarrow> k = h | Inactive k \<Rightarrow> k = h | _ \<Rightarrow> False)"

text \<open>The presence marker of a hash counts the slots that bear it, but for marks still owed.\<close>

definition presence_ok :: "(block_id \<rightharpoonup> slot) \<Rightarrow> (seq_hash \<Rightarrow> nat) \<Rightarrow> seq_hash multiset \<Rightarrow> bool" where
  "presence_ok sl P owed \<longleftrightarrow> finite (dom sl) \<and>
     (\<forall>h. P h = card {b. \<exists>s. sl b = Some s \<and> bears h s} + count owed h)"

definition keepers :: "(arc_addr \<rightharpoonup> inner) \<Rightarrow> arc_addr \<Rightarrow> nat" where
  "keepers arcs p = card {a. \<exists>i. arcs a = Some i \<and> in_keep i = Some p}"

definition arcs_ok :: "(block_id \<rightharpoonup> slot) \<Rightarrow> (arc_addr \<rightharpoonup> inner) \<Rightarrow> arc_addr \<Rightarrow> bool" where
  "arcs_ok sl arcs n \<longleftrightarrow>
     dom arcs \<subseteq> {..<n} \<and>
     (\<forall>b h a. sl b = Some (Primary h a) \<longrightarrow>
        (\<exists>i. arcs a = Some i \<and> in_block i = b \<and> in_hash i = h \<and> in_primary i)) \<and>
     (\<forall>b h a. sl b = Some (Duplicate h a) \<longrightarrow>
        (\<exists>i. arcs a = Some i \<and> in_block i = b \<and> in_hash i = h \<and> \<not> in_primary i)) \<and>
     (\<forall>a i. arcs a = Some i \<longrightarrow> in_primary i \<longrightarrow> in_keep i = None \<and> sl (in_block i) \<noteq> None \<and>
        (0 < in_strong i \<longrightarrow> sl (in_block i) = Some (Primary (in_hash i) a))) \<and>
     (\<forall>a i. arcs a = Some i \<longrightarrow> \<not> in_primary i \<longrightarrow>
        sl (in_block i) = Some (Duplicate (in_hash i) a) \<and>
        (\<exists>p j. in_keep i = Some p \<and> arcs p = Some j \<and> in_primary j \<and> in_hash j = in_hash i)) \<and>
     (\<forall>p j. arcs p = Some j \<longrightarrow> keepers arcs p \<le> in_strong j)"

section \<open>One slot changes\<close>

lemma slots_okD:
  assumes "slots_ok sl F E act G"
  shows "b \<in> F \<longleftrightarrow> sl b = Some Reset"
    and "(h, b) \<in> E \<longleftrightarrow> sl b = Some (Inactive h)"
    and "act h = Some b \<longleftrightarrow> (\<exists>a. sl b = Some (Primary h a))"
    and "(h, b) \<in> E \<Longrightarrow> act h = None"
    and "GMutable b \<in> G \<longleftrightarrow> sl b = Some Mutable"
    and "GComplete b h \<in> G \<longleftrightarrow> sl b = Some (Staged h)"
  using assms unfolding slots_ok_def by (blast, blast, blast, blast, blast, blast)

lemma slots_primary_active: "slots_ok sl F E act G \<Longrightarrow> sl b = Some (Primary h a) \<Longrightarrow> act h = Some b"
  using slots_okD(3) by blast

lemma slots_inactive_active: "slots_ok sl F E act G \<Longrightarrow> sl b = Some (Inactive h) \<Longrightarrow> act h = None"
  using slots_okD(2,4) by metis

text \<open>What the tables must say after slot \<open>b\<close> went from \<open>s\<close> to \<open>s'\<close>.\<close>

lemma slots_upd:
  assumes ok: "slots_ok sl F E act G"
    and F: "\<And>x. x \<in> F' \<longleftrightarrow> (if x = b then s' = Reset else x \<in> F)"
    and E: "\<And>h x. (h, x) \<in> E' \<longleftrightarrow> (if x = b then s' = Inactive h else (h, x) \<in> E)"
    and G: "\<And>x. GMutable x \<in> G' \<longleftrightarrow> (if x = b then s' = Mutable else GMutable x \<in> G)"
      "\<And>x h. GComplete x h \<in> G' \<longleftrightarrow> (if x = b then s' = Staged h else GComplete x h \<in> G)"
    and act: "\<And>h. act' h = (if \<exists>a. s' = Primary h a then Some b else if act h = Some b then None else act h)"
    and free: "\<And>h a. s' = Primary h a \<Longrightarrow> (act h = None \<or> act h = Some b) \<and> (\<forall>x. x \<noteq> b \<longrightarrow> (h, x) \<notin> E)"
      "\<And>h. s' = Inactive h \<Longrightarrow> act h = None \<or> act h = Some b"
  shows "slots_ok (sl(b \<mapsto> s')) F' E' act' G'"
proof -
  note D = slots_okD [OF ok]
  have 1: "act' h = Some x" if "(sl(b \<mapsto> s')) x = Some (Primary h a)" for x h a
  proof (cases "x = b")
    case False
    hence "act h = Some x"
      using that D(3) by auto
    moreover have "s' \<noteq> Primary h a'" for a'
      using free(1) [of h a'] \<open>act h = Some x\<close> False by auto
    ultimately show ?thesis
      using act [of h] False by auto
  qed (use that act in auto)
  have 2: "\<exists>a. (sl(b \<mapsto> s')) x = Some (Primary h a)" if "act' h = Some x" for x h
    using that act [of h] D(3) [of h x] by (cases "x = b") (auto split: if_splits)
  have 3: "act' h = None" if "(sl(b \<mapsto> s')) x = Some (Inactive h)" for x h
  proof (cases "x = b")
    case False
    hence "(h, x) \<in> E"
      using that D(2) by auto
    hence "act h = None" "\<not> (\<exists>a. s' = Primary h a)"
      using D(4) free(1) [of h] False by auto
    thus ?thesis
      using act [of h] by simp
  qed (use that act [of h] free(2) [of h] in auto)
  show ?thesis
    unfolding slots_ok_def
    using 1 2 3 F E G D(1,2,5,6) by (auto simp del: fun_upd_apply simp: fun_upd_def [of sl])
qed

lemma slots_free_open:
  "slots_ok sl F E act G \<Longrightarrow> b \<in> F \<Longrightarrow> slots_ok (sl(b \<mapsto> Mutable)) (F - {b}) E act (insert (GMutable b) G)"
  by (rule slots_upd, assumption) (auto simp: slots_okD split: if_splits dest: slots_okD(4))

lemma slots_evict:
  "slots_ok sl F E act G \<Longrightarrow> (h, b) \<in> E \<Longrightarrow> slots_ok (sl(b \<mapsto> Mutable)) F (E - {(h, b)}) act (insert (GMutable b) G)"
  by (rule slots_upd, assumption) (auto simp: slots_okD split: if_splits dest: slots_okD(4))

lemma slots_close_mutable:
  "slots_ok sl F E act G \<Longrightarrow> GMutable b \<in> G \<Longrightarrow>
    slots_ok (sl(b \<mapsto> Reset)) (insert b F) E act (G - {GMutable b})"
  by (rule slots_upd, assumption) (auto simp: slots_okD split: if_splits dest: slots_okD(4))

lemma slots_stage:
  "slots_ok sl F E act G \<Longrightarrow> GMutable b \<in> G \<Longrightarrow>
    slots_ok (sl(b \<mapsto> Staged h)) F E act (insert (GComplete b h) (G - {GMutable b}))"
  by (rule slots_upd, assumption) (auto simp: slots_okD split: if_splits dest: slots_okD(4))

lemma slots_unstage:
  "slots_ok sl F E act G \<Longrightarrow> GComplete b h \<in> G \<Longrightarrow>
    slots_ok (sl(b \<mapsto> Mutable)) F E act (insert (GMutable b) (G - {GComplete b h}))"
  by (rule slots_upd, assumption) (auto simp: slots_okD split: if_splits dest: slots_okD(4))

lemma slots_close_staged:
  "slots_ok sl F E act G \<Longrightarrow> GComplete b h \<in> G \<Longrightarrow>
    slots_ok (sl(b \<mapsto> Reset)) (insert b F) E act (G - {GComplete b h})"
  by (rule slots_upd, assumption) (auto simp: slots_okD split: if_splits dest: slots_okD(4))

lemma slots_register:
  "slots_ok sl F E act G \<Longrightarrow> GComplete b h \<in> G \<Longrightarrow> act h = None \<Longrightarrow> \<forall>b'. (h, b') \<notin> E \<Longrightarrow>
    slots_ok (sl(b \<mapsto> Primary h a)) F E (act(h \<mapsto> b)) (G - {GComplete b h})"
  by (rule slots_upd, assumption) (auto simp: slots_okD split: if_splits dest: slots_okD(4))

lemma slots_duplicate:
  "slots_ok sl F E act G \<Longrightarrow> GComplete b h \<in> G \<Longrightarrow>
    slots_ok (sl(b \<mapsto> Duplicate h a)) F E act (G - {GComplete b h})"
  by (rule slots_upd, assumption) (auto simp: slots_okD split: if_splits dest: slots_okD(4))

lemma slots_deactivate:
  "slots_ok sl F E act G \<Longrightarrow> sl b = Some (Primary h a) \<Longrightarrow>
    slots_ok (sl(b \<mapsto> Inactive h)) F (insert (h, b) E) (act(h := None)) G"
  by (rule slots_upd, assumption) (auto simp: slots_okD split: if_splits dest: slots_okD(4))

lemma slots_reset_primary:
  "slots_ok sl F E act G \<Longrightarrow> sl b = Some (Primary h a) \<Longrightarrow>
    slots_ok (sl(b \<mapsto> Reset)) (insert b F) E (act(h := None)) G"
  by (rule slots_upd, assumption) (auto simp: slots_okD split: if_splits dest: slots_okD(4))

lemma slots_reset_duplicate:
  "slots_ok sl F E act G \<Longrightarrow> sl b = Some (Duplicate h a) \<Longrightarrow>
    slots_ok (sl(b \<mapsto> Reset)) (insert b F) E act G"
  by (rule slots_upd, assumption) (auto simp: slots_okD split: if_splits dest: slots_okD(4))

lemma slots_resurrect:
  assumes ok: "slots_ok sl F E act G" and b: "(h, b) \<in> E" and only: "\<And>b'. (h, b') \<in> E \<Longrightarrow> b' = b"
  shows "slots_ok (sl(b \<mapsto> Primary h a)) F (E - {(h, b)}) (act(h \<mapsto> b)) G"
proof (rule slots_upd [OF ok])
  note D = slots_okD [OF ok]
  have sl: "sl b = Some (Inactive h)" and act: "act h = None"
    using b D(2,4) by blast+
  show "(act k = None \<or> act k = Some b) \<and> (\<forall>x. x \<noteq> b \<longrightarrow> (k, x) \<notin> E)" if "Primary h a = Primary k a'" for k a'
    using that act only by auto
  show "(k, x) \<in> E - {(h, b)} \<longleftrightarrow> (if x = b then Primary h a = Inactive k else (k, x) \<in> E)" for k x
    using sl D(2) by auto
qed (use b slots_okD [OF ok] in auto)

lemma presence_upd:
  assumes "presence_ok sl P D" and "sl b = Some s"
    and "\<And>h. P' h + count D h + of_bool (bears h s) = P h + count D' h + of_bool (bears h s')"
  shows "presence_ok (sl(b \<mapsto> s')) P' D'"
proof -
  let ?A = "\<lambda>sl h. {b. \<exists>s. sl b = Some s \<and> bears h s}"
  have fin: "finite (dom sl)"
    using assms(1) by (simp add: presence_ok_def)
  have sub: "?A sl h \<subseteq> dom sl" for h by auto
  have f: "finite (?A sl h)" for h
    using finite_subset [OF sub fin] .
  have "?A (sl(b \<mapsto> s')) h = (if bears h s' then insert b (?A sl h - {b}) else ?A sl h - {b})" for h
    by auto
  hence card: "card (?A (sl(b \<mapsto> s')) h) + of_bool (bears h s) = card (?A sl h) + of_bool (bears h s')" for h
    using f [of h] assms(2) card_Suc_Diff1 [OF f, of b h] by (cases "bears h s") (auto simp: card_insert_if)
  have P: "P h = card (?A sl h) + count D h" for h
    using assms(1) by (simp add: presence_ok_def)
  have "P' h = card (?A (sl(b \<mapsto> s')) h) + count D' h" for h
    using assms(3) [of h] card [of h] P [of h] by linarith
  thus ?thesis
    using fin by (simp add: presence_ok_def)
qed

section \<open>Arcs change\<close>

definition plain :: "slot \<Rightarrow> bool" where
  "plain s \<longleftrightarrow> (case s of Primary _ _ \<Rightarrow> False | Duplicate _ _ \<Rightarrow> False | _ \<Rightarrow> True)"

lemma plain_simps [simp]:
  "plain Reset" "plain Mutable" "plain (Staged h)" "plain (Inactive h)" "\<not> plain (Primary h a)" "\<not> plain (Duplicate h a)"
  by (simp_all add: plain_def)

lemma arcs_okD:
  assumes "arcs_ok sl arcs n"
  shows "arcs a = Some i \<Longrightarrow> a < n"
    and "sl b = Some (Primary h a) \<Longrightarrow> \<exists>i. arcs a = Some i \<and> in_block i = b \<and> in_hash i = h \<and> in_primary i"
    and "sl b = Some (Duplicate h a) \<Longrightarrow> \<exists>i. arcs a = Some i \<and> in_block i = b \<and> in_hash i = h \<and> \<not> in_primary i"
    and "arcs a = Some i \<Longrightarrow> in_primary i \<Longrightarrow> in_keep i = None \<and> sl (in_block i) \<noteq> None"
    and "arcs a = Some i \<Longrightarrow> in_primary i \<Longrightarrow> 0 < in_strong i \<Longrightarrow> sl (in_block i) = Some (Primary (in_hash i) a)"
    and "arcs a = Some i \<Longrightarrow> \<not> in_primary i \<Longrightarrow> sl (in_block i) = Some (Duplicate (in_hash i) a) \<and>
      (\<exists>p j. in_keep i = Some p \<and> arcs p = Some j \<and> in_primary j \<and> in_hash j = in_hash i)"
    and "arcs p = Some j \<Longrightarrow> keepers arcs p \<le> in_strong j"
    and "finite (dom arcs)"
proof -
  have sub: "dom arcs \<subseteq> {..<n}" using assms by (simp add: arcs_ok_def)
  show "arcs a = Some i \<Longrightarrow> a < n" using sub by auto
  show "finite (dom arcs)" using finite_subset [OF sub] by simp
  show "sl b = Some (Primary h a) \<Longrightarrow> \<exists>i. arcs a = Some i \<and> in_block i = b \<and> in_hash i = h \<and> in_primary i"
    using assms unfolding arcs_ok_def by blast
  show "sl b = Some (Duplicate h a) \<Longrightarrow> \<exists>i. arcs a = Some i \<and> in_block i = b \<and> in_hash i = h \<and> \<not> in_primary i"
    using assms unfolding arcs_ok_def by blast
  show "arcs a = Some i \<Longrightarrow> in_primary i \<Longrightarrow> in_keep i = None \<and> sl (in_block i) \<noteq> None"
    using assms unfolding arcs_ok_def by blast
  show "arcs a = Some i \<Longrightarrow> in_primary i \<Longrightarrow> 0 < in_strong i \<Longrightarrow> sl (in_block i) = Some (Primary (in_hash i) a)"
    using assms unfolding arcs_ok_def by blast
  show "arcs a = Some i \<Longrightarrow> \<not> in_primary i \<Longrightarrow> sl (in_block i) = Some (Duplicate (in_hash i) a) \<and>
      (\<exists>p j. in_keep i = Some p \<and> arcs p = Some j \<and> in_primary j \<and> in_hash j = in_hash i)"
    using assms unfolding arcs_ok_def by blast
  show "arcs p = Some j \<Longrightarrow> keepers arcs p \<le> in_strong j"
    using assms unfolding arcs_ok_def by blast
qed

lemma arcs_okI:
  assumes "\<And>a i. arcs a = Some i \<Longrightarrow> a < n"
    and "\<And>b h a. sl b = Some (Primary h a) \<Longrightarrow> \<exists>i. arcs a = Some i \<and> in_block i = b \<and> in_hash i = h \<and> in_primary i"
    and "\<And>b h a. sl b = Some (Duplicate h a) \<Longrightarrow> \<exists>i. arcs a = Some i \<and> in_block i = b \<and> in_hash i = h \<and> \<not> in_primary i"
    and "\<And>a i. arcs a = Some i \<Longrightarrow> in_primary i \<Longrightarrow> in_keep i = None \<and> sl (in_block i) \<noteq> None"
    and "\<And>a i. arcs a = Some i \<Longrightarrow> in_primary i \<Longrightarrow> 0 < in_strong i \<Longrightarrow> sl (in_block i) = Some (Primary (in_hash i) a)"
    and "\<And>a i. arcs a = Some i \<Longrightarrow> \<not> in_primary i \<Longrightarrow> sl (in_block i) = Some (Duplicate (in_hash i) a) \<and>
      (\<exists>p j. in_keep i = Some p \<and> arcs p = Some j \<and> in_primary j \<and> in_hash j = in_hash i)"
    and "\<And>p j. arcs p = Some j \<Longrightarrow> keepers arcs p \<le> in_strong j"
  shows "arcs_ok sl arcs n"
  unfolding arcs_ok_def
proof (intro conjI)
  show "dom arcs \<subseteq> {..<n}" using assms(1) by auto
qed (use assms(2-7) in blast)+

lemma keepers_same:
  "arcs a = Some i \<Longrightarrow> in_keep i' = in_keep i \<Longrightarrow> keepers (arcs(a \<mapsto> i')) p = keepers arcs p"
  unfolding keepers_def by (rule arg_cong [of _ _ card]) auto

lemma keepers_new:
  assumes "arcs a = None" and "finite (dom arcs)"
  shows "keepers (arcs(a \<mapsto> i)) p = keepers arcs p + (if in_keep i = Some p then 1 else 0)"
proof -
  let ?K = "{a. \<exists>i. arcs a = Some i \<and> in_keep i = Some p}"
  have "?K \<subseteq> dom arcs" by auto
  hence "finite ?K" using assms(2) finite_subset by blast
  moreover have "{x. \<exists>j. (arcs(a \<mapsto> i)) x = Some j \<and> in_keep j = Some p} = (if in_keep i = Some p then insert a ?K else ?K)"
    using assms(1) by auto
  moreover have "a \<notin> ?K" using assms(1) by simp
  ultimately show ?thesis unfolding keepers_def by simp
qed

lemma keepers_remove: "finite (dom arcs) \<Longrightarrow> keepers (arcs(a := None)) p \<le> keepers arcs p"
  unfolding keepers_def by (rule card_mono) (auto intro: finite_subset [of _ "dom arcs"])

lemma keepers_pos: "arcs a = Some i \<Longrightarrow> in_keep i = Some p \<Longrightarrow> finite (dom arcs) \<Longrightarrow> 0 < keepers arcs p"
  unfolding keepers_def by (auto simp: card_gt_0_iff intro: finite_subset [of _ "dom arcs"])

lemma arcs_plain:
  assumes ok: "arcs_ok sl arcs n" and b: "sl b = Some s" "plain s" "plain s'"
  shows "arcs_ok (sl(b \<mapsto> s')) arcs n"
proof (rule arcs_okI)
  note D = arcs_okD [OF ok]
  have ne: "s \<noteq> Primary h a" "s \<noteq> Duplicate h a" "s' \<noteq> Primary h a" "s' \<noteq> Duplicate h a" for h a
    using b by auto
  show "arcs a = Some i \<Longrightarrow> a < n" for a i by (rule D(1))
  show "\<exists>i. arcs a = Some i \<and> in_block i = x \<and> in_hash i = h \<and> in_primary i" if "(sl(b \<mapsto> s')) x = Some (Primary h a)" for x h a
    using that D(2) ne by (auto split: if_splits)
  show "\<exists>i. arcs a = Some i \<and> in_block i = x \<and> in_hash i = h \<and> \<not> in_primary i" if "(sl(b \<mapsto> s')) x = Some (Duplicate h a)" for x h a
    using that D(3) ne by (auto split: if_splits)
  show "in_keep i = None \<and> (sl(b \<mapsto> s')) (in_block i) \<noteq> None" if "arcs a = Some i" "in_primary i" for a i
    using that D(4) by auto
  show "(sl(b \<mapsto> s')) (in_block i) = Some (Primary (in_hash i) a)" if "arcs a = Some i" "in_primary i" "0 < in_strong i" for a i
    using D(5) [OF that] b ne by auto
  show "(sl(b \<mapsto> s')) (in_block i) = Some (Duplicate (in_hash i) a) \<and>
      (\<exists>p j. in_keep i = Some p \<and> arcs p = Some j \<and> in_primary j \<and> in_hash j = in_hash i)" if "arcs a = Some i" "\<not> in_primary i" for a i
    using D(6) [OF that] b ne by auto
  show "arcs p = Some j \<Longrightarrow> keepers arcs p \<le> in_strong j" for p j by (rule D(7))
qed

lemma arcs_count:
  assumes ok: "arcs_ok sl arcs n" and a: "arcs a = Some i" and k: "keepers arcs a \<le> k" and live: "0 < k \<Longrightarrow> 0 < in_strong i"
  shows "arcs_ok sl (arcs(a \<mapsto> i\<lparr>in_strong := k\<rparr>)) n"
proof (rule arcs_okI)
  note D = arcs_okD [OF ok]
  let ?arcs = "arcs(a \<mapsto> i\<lparr>in_strong := k\<rparr>)"
  have keep: "keepers ?arcs p = keepers arcs p" for p
    by (rule keepers_same [of arcs a i]) (simp_all add: a)
  show "?arcs x = Some j \<Longrightarrow> x < n" for x j using D(1) [OF a] D(1) [of x] by (auto split: if_splits)
  show "\<exists>j. ?arcs x = Some j \<and> in_block j = b \<and> in_hash j = h \<and> in_primary j" if "sl b = Some (Primary h x)" for b h x
    using D(2) [OF that] a by auto
  show "\<exists>j. ?arcs x = Some j \<and> in_block j = b \<and> in_hash j = h \<and> \<not> in_primary j" if "sl b = Some (Duplicate h x)" for b h x
    using D(3) [OF that] a by auto
  show "in_keep j = None \<and> sl (in_block j) \<noteq> None" if "?arcs x = Some j" "in_primary j" for x j
    using that D(4) [OF a] D(4) [of x j] by (auto split: if_splits)
  show "sl (in_block j) = Some (Primary (in_hash j) x)" if "?arcs x = Some j" "in_primary j" "0 < in_strong j" for x j
    using that D(5) [OF a] D(5) [of x j] live by (auto split: if_splits)
  show "sl (in_block j) = Some (Duplicate (in_hash j) x) \<and>
      (\<exists>p q. in_keep j = Some p \<and> ?arcs p = Some q \<and> in_primary q \<and> in_hash q = in_hash j)" if "?arcs x = Some j" "\<not> in_primary j" for x j
    using that D(6) [OF a] D(6) [of x j] a by (fastforce split: if_splits)
  show "keepers ?arcs p \<le> in_strong j" if "?arcs p = Some j" for p j
    using that D(7) [of p j] k unfolding keep by (auto split: if_splits)
qed

lemma arcs_leave:
  assumes ok: "arcs_ok sl arcs n" and b: "sl b = Some (Primary h a)" and dead: "arcs a = Some i" "in_strong i = 0" and s': "plain s'"
  shows "arcs_ok (sl(b \<mapsto> s')) arcs n"
proof (rule arcs_okI)
  note D = arcs_okD [OF ok]
  have ne: "s' \<noteq> Primary h a" "s' \<noteq> Duplicate h a" for h a
    using s' by auto
  show "arcs x = Some j \<Longrightarrow> x < n" for x j by (rule D(1))
  show "\<exists>j. arcs x = Some j \<and> in_block j = c \<and> in_hash j = k \<and> in_primary j" if "(sl(b \<mapsto> s')) c = Some (Primary k x)" for c k x
    using that D(2) ne by (auto split: if_splits)
  show "\<exists>j. arcs x = Some j \<and> in_block j = c \<and> in_hash j = k \<and> \<not> in_primary j" if "(sl(b \<mapsto> s')) c = Some (Duplicate k x)" for c k x
    using that D(3) ne by (auto split: if_splits)
  show "in_keep j = None \<and> (sl(b \<mapsto> s')) (in_block j) \<noteq> None" if "arcs x = Some j" "in_primary j" for x j
    using that D(4) by auto
  show "(sl(b \<mapsto> s')) (in_block j) = Some (Primary (in_hash j) x)" if "arcs x = Some j" "in_primary j" "0 < in_strong j" for x j
    using D(5) [OF that] b dead that by (cases "in_block j = b") auto
  show "(sl(b \<mapsto> s')) (in_block j) = Some (Duplicate (in_hash j) x) \<and>
      (\<exists>p q. in_keep j = Some p \<and> arcs p = Some q \<and> in_primary q \<and> in_hash q = in_hash j)" if "arcs x = Some j" "\<not> in_primary j" for x j
    using D(6) [OF that] b by auto
  show "arcs p = Some j \<Longrightarrow> keepers arcs p \<le> in_strong j" for p j by (rule D(7))
qed

lemma arcs_gone:
  assumes ok: "arcs_ok sl arcs n" and a: "arcs a = Some i" "in_primary i" "in_strong i = 0"
    and sl: "\<And>h. sl (in_block i) \<noteq> Some (Primary h a)"
  shows "arcs_ok sl (arcs(a := None)) n"
proof (rule arcs_okI)
  note D = arcs_okD [OF ok]
  let ?arcs = "arcs(a := None)"
  have no: "in_keep j \<noteq> Some a" if "arcs x = Some j" for x j
    using keepers_pos [OF that _ D(8), of a] D(7) [OF a(1)] a(3) by auto
  show "?arcs x = Some j \<Longrightarrow> x < n" for x j using D(1) [of x] by (auto split: if_splits)
  show "\<exists>j. ?arcs x = Some j \<and> in_block j = b \<and> in_hash j = h \<and> in_primary j" if "sl b = Some (Primary h x)" for b h x
    using D(2) [OF that] that a sl [of h] by (cases "x = a") auto
  show "\<exists>j. ?arcs x = Some j \<and> in_block j = b \<and> in_hash j = h \<and> \<not> in_primary j" if "sl b = Some (Duplicate h x)" for b h x
    using D(3) [OF that] a by auto
  show "in_keep j = None \<and> sl (in_block j) \<noteq> None" if "?arcs x = Some j" "in_primary j" for x j
    using that D(4) [of x j] by (auto split: if_splits)
  show "sl (in_block j) = Some (Primary (in_hash j) x)" if "?arcs x = Some j" "in_primary j" "0 < in_strong j" for x j
    using that D(5) [of x j] by (auto split: if_splits)
  show "sl (in_block j) = Some (Duplicate (in_hash j) x) \<and>
      (\<exists>p q. in_keep j = Some p \<and> ?arcs p = Some q \<and> in_primary q \<and> in_hash q = in_hash j)" if w: "?arcs x = Some j" "\<not> in_primary j" for x j
  proof -
    have x: "arcs x = Some j" using w(1) by (auto split: if_splits)
    obtain p q where pq: "in_keep j = Some p" "arcs p = Some q" "in_primary q" "in_hash q = in_hash j"
      using D(6) [OF x w(2)] by blast
    have "p \<noteq> a" using pq(1) no [OF x] by auto
    thus ?thesis using pq D(6) [OF x w(2)] by auto
  qed
  show "keepers ?arcs p \<le> in_strong j" if "?arcs p = Some j" for p j
    using that D(7) [of p j] keepers_remove [OF D(8), of a p] by (auto split: if_splits)
qed

lemma arcs_duplicate_gone:
  assumes ok: "arcs_ok sl arcs n" and a: "arcs a = Some i" "\<not> in_primary i" and s': "plain s'"
  shows "arcs_ok (sl(in_block i \<mapsto> s')) (arcs(a := None)) n"
proof (rule arcs_okI)
  note D = arcs_okD [OF ok]
  let ?arcs = "arcs(a := None)" and ?sl = "sl(in_block i \<mapsto> s')"
  have ne: "s' \<noteq> Primary h a" "s' \<noteq> Duplicate h a" for h a
    using s' by auto
  have b: "sl (in_block i) = Some (Duplicate (in_hash i) a)"
    using D(6) [OF a] by blast
  show "?arcs x = Some j \<Longrightarrow> x < n" for x j using D(1) [of x] by (auto split: if_splits)
  show "\<exists>j. ?arcs x = Some j \<and> in_block j = b \<and> in_hash j = h \<and> in_primary j" if "?sl b = Some (Primary h x)" for b h x
    using D(2) [of b h x] that a ne by (auto split: if_splits)
  show "\<exists>j. ?arcs x = Some j \<and> in_block j = b \<and> in_hash j = h \<and> \<not> in_primary j" if "?sl b = Some (Duplicate h x)" for b h x
    using D(3) [of b h x] that a ne by (auto split: if_splits)
  show "in_keep j = None \<and> ?sl (in_block j) \<noteq> None" if "?arcs x = Some j" "in_primary j" for x j
    using that D(4) [of x j] by (auto split: if_splits)
  show "?sl (in_block j) = Some (Primary (in_hash j) x)" if "?arcs x = Some j" "in_primary j" "0 < in_strong j" for x j
    using that D(5) [of x j] b by (auto split: if_splits)
  show "?sl (in_block j) = Some (Duplicate (in_hash j) x) \<and>
      (\<exists>p q. in_keep j = Some p \<and> ?arcs p = Some q \<and> in_primary q \<and> in_hash q = in_hash j)" if w: "?arcs x = Some j" "\<not> in_primary j" for x j
  proof -
    have x: "x \<noteq> a" "arcs x = Some j" using w(1) by (auto split: if_splits)
    obtain p q where pq: "in_keep j = Some p" "arcs p = Some q" "in_primary q" "in_hash q = in_hash j"
        and j: "sl (in_block j) = Some (Duplicate (in_hash j) x)"
      using D(6) [OF x(2) w(2)] by blast
    have "p \<noteq> a" "in_block j \<noteq> in_block i" using pq a j b x(1) by auto
    thus ?thesis using pq j by auto
  qed
  show "keepers ?arcs p \<le> in_strong j" if "?arcs p = Some j" for p j
    using that D(7) [of p j] keepers_remove [OF D(8), of a p] by (auto split: if_splits)
qed

lemma arcs_new:
  assumes ok: "arcs_ok sl arcs n" and b: "sl b = Some s" "plain s"
    and i: "in_block i = b" "in_hash i = h" "in_strong i = 1"
    and kind: "in_primary i \<and> in_keep i = None \<and> s' = Primary h n \<or>
      \<not> in_primary i \<and> s' = Duplicate h n \<and>
      (\<exists>p j. in_keep i = Some p \<and> arcs p = Some j \<and> in_primary j \<and> in_hash j = h \<and> keepers arcs p < in_strong j)"
  shows "arcs_ok (sl(b \<mapsto> s')) (arcs(n \<mapsto> i)) (n + 1)"
proof (rule arcs_okI)
  note D = arcs_okD [OF ok]
  let ?arcs = "arcs(n \<mapsto> i)" and ?sl = "sl(b \<mapsto> s')"
  have ne: "s \<noteq> Primary h a" "s \<noteq> Duplicate h a" for h a
    using b by auto
  have n: "arcs n = None"
    using D(1) [of n] by (cases "arcs n") auto
  have keep: "keepers ?arcs p = keepers arcs p + (if in_keep i = Some p then 1 else 0)" for p
    by (rule keepers_new [OF n D(8)])
  show "?arcs x = Some j \<Longrightarrow> x < n + 1" for x j using D(1) [of x j] by (auto split: if_splits)
  show "\<exists>j. ?arcs x = Some j \<and> in_block j = c \<and> in_hash j = k \<and> in_primary j" if "?sl c = Some (Primary k x)" for c k x
    using D(2) [of c k x] that kind i n by (auto split: if_splits)
  show "\<exists>j. ?arcs x = Some j \<and> in_block j = c \<and> in_hash j = k \<and> \<not> in_primary j" if "?sl c = Some (Duplicate k x)" for c k x
    using D(3) [of c k x] that kind i n by (auto split: if_splits)
  show "in_keep j = None \<and> ?sl (in_block j) \<noteq> None" if "?arcs x = Some j" "in_primary j" for x j
    using that D(4) [of x j] kind i by (auto split: if_splits)
  show "?sl (in_block j) = Some (Primary (in_hash j) x)" if "?arcs x = Some j" "in_primary j" "0 < in_strong j" for x j
    using that D(5) [of x j] kind i b ne by (auto split: if_splits)
  show "?sl (in_block j) = Some (Duplicate (in_hash j) x) \<and>
      (\<exists>p q. in_keep j = Some p \<and> ?arcs p = Some q \<and> in_primary q \<and> in_hash q = in_hash j)" if "?arcs x = Some j" "\<not> in_primary j" for x j
    using that D(6) [of x j] kind i b ne n by (cases "x = n") (fastforce split: if_splits)+
  have "in_keep j \<noteq> Some n" if "arcs x = Some j" for x j
    using D(4) [OF that] D(6) [OF that] n by (cases "in_primary j") auto
  hence "{x. \<exists>j. arcs x = Some j \<and> in_keep j = Some n} = {}"
    by blast
  hence "keepers arcs n = 0"
    unfolding keepers_def by (simp only: card.empty)
  moreover have "in_keep i \<noteq> Some n"
    using kind n by auto
  ultimately show "keepers ?arcs p \<le> in_strong j" if "?arcs p = Some j" for p j
    using that D(7) [of p j] kind keep [of p] by (cases "p = n") auto
qed

section \<open>The invariant of the store\<close>

text \<open>
  Inside an allocation the free list and the index have already given up blocks whose slots are
  not yet changed, and handles are still to be marked absent: \<open>pf\<close>, \<open>pe\<close> and \<open>owed\<close>, all empty
  between calls.
\<close>

definition store_ok ::
  "('i \<Rightarrow> bool) \<Rightarrow> ('i \<Rightarrow> entry list) \<Rightarrow> nat \<Rightarrow> block_id set \<Rightarrow> entry set \<Rightarrow> seq_hash multiset \<Rightarrow> guard list \<Rightarrow>
    'i block_store \<Rightarrow> bool" where
  "store_ok iv entries cap pf pe owed gs st \<longleftrightarrow>
     length (bs_slots st) = cap \<and> length (bs_ror st) = cap \<and>
     distinct (bs_free st) \<and> distinct gs \<and> iv (bs_inactive st) \<and>
     slots_ok (slot_at st) (set (bs_free st) \<union> pf) (set (entries (bs_inactive st)) \<union> pe) (bs_active st) (set gs) \<and>
     presence_ok (slot_at st) (bs_presence st) owed \<and>
     arcs_ok (slot_at st) (bs_arcs st) (bs_next st)"

lemma store_okD:
  assumes "store_ok iv entries cap pf pe owed gs st"
  shows "length (bs_slots st) = cap" "length (bs_ror st) = cap" "distinct (bs_free st)" "distinct gs"
    "iv (bs_inactive st)"
    "slots_ok (slot_at st) (set (bs_free st) \<union> pf) (set (entries (bs_inactive st)) \<union> pe) (bs_active st) (set gs)"
    "presence_ok (slot_at st) (bs_presence st) owed"
    "arcs_ok (slot_at st) (bs_arcs st) (bs_next st)"
  using assms unfolding store_ok_def by blast+

lemma slot_at_less: "slot_at st b = Some s \<Longrightarrow> b < length (bs_slots st)"
  by (simp add: slot_at_def split: if_splits)

lemma slot_at_put: "slot_at st b = Some s \<Longrightarrow> put_slot b s' st = Some (st\<lparr>bs_slots := (bs_slots st)[b := s']\<rparr>)"
  by (simp add: put_slot_def slot_at_less)

lemma slot_at_upd [simp]:
  "slot_at (st\<lparr>bs_slots := (bs_slots st)[b := s']\<rparr>) = (if b < length (bs_slots st) then (slot_at st)(b \<mapsto> s') else slot_at st)"
  by (auto simp: slot_at_def fun_eq_iff nth_list_update)

lemma slot_at_frame [simp]:
  "slot_at (st\<lparr>bs_free := f\<rparr>) = slot_at st" "slot_at (st\<lparr>bs_inactive := ix\<rparr>) = slot_at st"
  "slot_at (st\<lparr>bs_active := m\<rparr>) = slot_at st" "slot_at (st\<lparr>bs_ror := r\<rparr>) = slot_at st"
  "slot_at (st\<lparr>bs_arcs := x\<rparr>) = slot_at st" "slot_at (st\<lparr>bs_next := n\<rparr>) = slot_at st"
  "slot_at (st\<lparr>bs_presence := p\<rparr>) = slot_at st"
  by (simp_all add: slot_at_def fun_eq_iff)

text \<open>The eviction index as the store relies on it.\<close>

locale block_index =
  fixes I :: "'i index" and iv :: "'i \<Rightarrow> bool" and entries :: "'i \<Rightarrow> entry list" and cap :: nat
  assumes keys: "iv ix \<Longrightarrow> distinct (map fst (entries ix))"
    and find: "iv ix \<Longrightarrow> ix_find I h ix = (r, ix') \<Longrightarrow>
      iv ix' \<and> entries ix' = without_key h (entries ix) \<and> r = map_option (Pair h) (map_of (entries ix) h)"
    and scan: "iv ix \<Longrightarrow> ix_scan I hs ix = (ms, ix') \<Longrightarrow>
      iv ix' \<and> mset (entries ix) = mset ms + mset (entries ix')"
    and allocate: "iv ix \<Longrightarrow> ix_allocate I n ix = (ms, ix') \<Longrightarrow>
      iv ix' \<and> ms = take n (entries ix) \<and> entries ix' = drop n (entries ix)"
    and insert: "iv ix \<Longrightarrow> h \<notin> fst ` set (entries ix) \<Longrightarrow> b \<notin> snd ` set (entries ix) \<Longrightarrow> length (entries ix) < cap \<Longrightarrow>
      \<exists>ix'. ix_insert I h b ix = Some ix' \<and> iv ix' \<and> mset (entries ix') = add_mset (h, b) (mset (entries ix))"
    and len: "iv ix \<Longrightarrow> ix_len I ix = length (entries ix)"
    and all: "iv ix \<Longrightarrow> \<exists>ix'. ix_allocate_all I ix = Some (entries ix, ix') \<and> iv ix' \<and> entries ix' = []"
begin

abbreviation ok :: "guard list \<Rightarrow> 'i block_store \<Rightarrow> bool" where
  "ok \<equiv> store_ok iv entries cap {} {} {#}"

lemma ok_new: "iv ix \<Longrightarrow> entries ix = [] \<Longrightarrow> ok [] (new_store cap bsize ix d)"
  by (auto simp: store_ok_def new_store_def slots_ok_def presence_ok_def arcs_ok_def slot_at_def bears_def dom_def
      split: if_splits)

lemma only_entry: "iv ix \<Longrightarrow> (h, b) \<in> set (entries ix) \<Longrightarrow> (h, b') \<in> set (entries ix) \<Longrightarrow> b' = b"
  using keys [of ix] by (metis map_of_is_SomeI option.inject)

lemma set_without: "iv ix \<Longrightarrow> (h, b) \<in> set (entries ix) \<Longrightarrow> set (without_key h (entries ix)) = set (entries ix) - {(h, b)}"
  using only_entry by (auto simp: without_key_def)

lemma room:
  assumes "ok gs st" and "slot_at st b = Some s" and "\<And>h. s \<noteq> Inactive h"
  shows "length (entries (bs_inactive st)) < cap" and "b \<notin> snd ` set (entries (bs_inactive st))"
proof -
  let ?es = "entries (bs_inactive st)"
  note D = store_okD [OF assms(1)]
  have in_iff: "(h, x) \<in> set ?es \<longleftrightarrow> slot_at st x = Some (Inactive h)" for h x
    using slots_okD(2) [OF D(6)] by simp
  show b: "b \<notin> snd ` set ?es"
    using in_iff assms(2,3) by force
  have "inj_on snd (set ?es)"
    using in_iff by (auto simp: inj_on_def)
  moreover have "distinct ?es"
    using keys [OF D(5)] by (simp add: distinct_map)
  ultimately have "length ?es = card (snd ` set ?es)"
    by (simp add: card_image distinct_card)
  also have "snd ` set ?es \<subseteq> {..<cap} - {b}"
    using in_iff slot_at_less D(1) b by force
  hence "card (snd ` set ?es) \<le> card ({..<cap} - {b})"
    by (intro card_mono) auto
  also have "\<dots> < cap"
    using slot_at_less [OF assms(2)] D(1) by simp
  finally show "length ?es < cap" .
qed

end

end
