(* ===== verification/Block_Operations.thy ===== *)
theory Block_Operations
  imports Block_Invariant
begin

text \<open>
  Every operation of the block store keeps the invariant and does not panic, for any index with
  the laws of the locale \<open>block_index\<close>, when called by a holder of the guard or the reference
  it consumes.
\<close>

section \<open>Changing one slot\<close>

lemma open_slot_eq:
  assumes "slot_at st b = Some s" and "length (bs_ror st) = length (bs_slots st)"
  shows "open_slot b st = Some (st\<lparr>bs_slots := (bs_slots st)[b := Mutable], bs_ror := (bs_ror st)[b := bs_default st]\<rparr>)"
  using assms slot_at_less [OF assms(1)] by (simp add: open_slot_def slot_at_put store_reset_on_release_def)

lemma slot_at_changed:
  assumes "slot_at st b = Some s" and "bs_slots st' = (bs_slots st)[b := s']"
  shows "slot_at st' = (slot_at st)(b \<mapsto> s')"
  using slot_at_less [OF assms(1)] assms(2) by (auto simp: slot_at_def fun_eq_iff)

text \<open>A step that moves one slot, given what it does to each table.\<close>

lemma store_ok_upd:
  assumes ok: "store_ok iv entries cap pf pe D gs st" and b: "slot_at st b = Some s"
    and slots: "bs_slots st' = (bs_slots st)[b := s']" and ror: "length (bs_ror st') = length (bs_ror st)"
    and tables: "slots_ok ((slot_at st)(b \<mapsto> s')) (set (bs_free st') \<union> pf') (set (entries (bs_inactive st')) \<union> pe')
      (bs_active st') (set gs')"
    and pres: "\<And>h. bs_presence st' h + count D h + of_bool (bears h s) = bs_presence st h + count D' h + of_bool (bears h s')"
    and arcs: "arcs_ok ((slot_at st)(b \<mapsto> s')) (bs_arcs st') (bs_next st')"
    and rest: "distinct (bs_free st')" "distinct gs'" "iv (bs_inactive st')"
  shows "store_ok iv entries cap pf' pe' D' gs' st'"
proof -
  note D = store_okD [OF ok]
  have "presence_ok ((slot_at st)(b \<mapsto> s')) (bs_presence st') D'"
    by (rule presence_upd [OF D(7) b pres])
  thus ?thesis
    using slot_at_changed [OF b slots] slots ror tables arcs rest D(1,2) by (simp add: store_ok_def)
qed

lemma arcs_fresh: "arcs_ok sl arcs n \<Longrightarrow> arcs n = None"
  using arcs_okD(1) [of sl arcs n n] by (cases "arcs n") auto

lemma keepers_fresh:
  assumes "arcs_ok sl arcs n"
  shows "keepers arcs n = 0"
proof -
  have "in_keep j \<noteq> Some n" if "arcs x = Some j" for x j
    using arcs_okD(4,6) [OF assms that] arcs_fresh [OF assms] by (cases "in_primary j") auto
  hence "{x. \<exists>j. arcs x = Some j \<and> in_keep j = Some n} = {}"
    by blast
  thus ?thesis
    unfolding keepers_def by (simp only: card.empty)
qed

definition cached :: "'i block_store \<Rightarrow> seq_hash \<Rightarrow> block_id \<Rightarrow> bool" where
  "cached st h b \<longleftrightarrow> slot_at st b = Some (Inactive h) \<or> (\<exists>a. slot_at st b = Some (Primary h a))"

text \<open>What a lookup hands out: a counted reference to the live primary of the hash.\<close>

definition handed :: "'i block_store \<Rightarrow> seq_hash \<Rightarrow> block_id \<Rightarrow> arc_addr \<Rightarrow> bool" where
  "handed st h b a \<longleftrightarrow> slot_at st b = Some (Primary h a) \<and>
     (\<exists>i. bs_arcs st a = Some i \<and> in_primary i \<and> in_block i = b \<and> in_hash i = h \<and> keepers (bs_arcs st) a < in_strong i)"

context block_index
begin

lemma open_slots_ok:
  assumes "store_ok iv entries cap (pf \<union> set bs) pe D gs st" and "distinct bs" and "pf \<inter> set bs = {}"
    and "set bs \<inter> set (bs_free st) = {}"
  shows "\<exists>st'. open_slots bs st = Some st' \<and> store_ok iv entries cap pf pe D (rev (map GMutable bs) @ gs) st' \<and>
    bs_inactive st' = bs_inactive st \<and> bs_free st' = bs_free st"
  using assms
proof (induction bs arbitrary: st gs)
  case (Cons b bs)
  note D = store_okD [OF Cons.prems(1)]
  have b: "slot_at st b = Some Reset"
    using slots_okD(1) [OF D(6), of b] by simp
  let ?st = "st\<lparr>bs_slots := (bs_slots st)[b := Mutable], bs_ror := (bs_ror st)[b := bs_default st]\<rparr>"
  have op: "open_slot b st = Some ?st"
    using open_slot_eq [OF b] D(1,2) by simp
  have F: "set (bs_free st) \<union> (pf \<union> set (b # bs)) - {b} = set (bs_free st) \<union> (pf \<union> set bs)"
    using Cons.prems(2-4) by auto
  have "slots_ok ((slot_at st)(b \<mapsto> Mutable)) (set (bs_free st) \<union> (pf \<union> set bs)) (set (entries (bs_inactive st)) \<union> pe)
      (bs_active st) (set (GMutable b # gs))"
    using slots_free_open [OF D(6), of b] unfolding F by simp
  moreover have "GMutable b \<notin> set gs"
    using slots_okD(5) [OF D(6), of b] b by simp
  ultimately have "store_ok iv entries cap (pf \<union> set bs) pe D (GMutable b # gs) ?st"
    using arcs_plain [OF D(8) b] D(3-5)
    by (intro store_ok_upd [OF Cons.prems(1) b, where s' = Mutable]) (simp_all add: bears_def)
  from Cons.IH [OF this] Cons.prems(2-4) op show ?case
    by auto
qed simp

lemma evict_slots_ok:
  assumes "store_ok iv entries cap pf (set es) D gs st" and "distinct es" and "set es \<inter> set (entries (bs_inactive st)) = {}"
  shows "\<exists>ks st'. evict_slots es st = Some (ks, st') \<and> ks = map fst es \<and>
    store_ok iv entries cap pf {} (D + mset ks) (rev (map (GMutable \<circ> snd) es) @ gs) st' \<and>
    bs_inactive st' = bs_inactive st \<and> bs_free st' = bs_free st"
  using assms
proof (induction es arbitrary: st gs D)
  case (Cons e es)
  obtain h b where e: "e = (h, b)" by fastforce
  note D = store_okD [OF Cons.prems(1)]
  have b: "slot_at st b = Some (Inactive h)"
    using slots_okD(2) [OF D(6), of h b] e by simp
  let ?st = "st\<lparr>bs_slots := (bs_slots st)[b := Mutable], bs_ror := (bs_ror st)[b := bs_default st]\<rparr>"
  have op: "open_slot b st = Some ?st" "take_inactive_handle b st = Some h"
    using open_slot_eq [OF b] D(1,2) b by (simp_all add: take_inactive_handle_def)
  have E: "set (entries (bs_inactive st)) \<union> set (e # es) - {(h, b)} = set (entries (bs_inactive st)) \<union> set es"
    using Cons.prems(2,3) e by auto
  have "slots_ok ((slot_at st)(b \<mapsto> Mutable)) (set (bs_free st) \<union> pf) (set (entries (bs_inactive st)) \<union> set es)
      (bs_active st) (set (GMutable b # gs))"
    using slots_evict [OF D(6), of h b] e unfolding E by simp
  moreover have "GMutable b \<notin> set gs"
    using slots_okD(5) [OF D(6), of b] b by simp
  ultimately have "store_ok iv entries cap pf (set es) (add_mset h D) (GMutable b # gs) ?st"
    using arcs_plain [OF D(8) b] D(3-5)
    by (intro store_ok_upd [OF Cons.prems(1) b, where s' = Mutable]) (simp_all add: bears_def)
  from Cons.IH [OF this] Cons.prems(2,3) op e show ?case
    by auto
qed simp

lemma marks_ok: "store_ok iv entries cap pf pe (mset hs + D) gs st \<Longrightarrow> store_ok iv entries cap pf pe D gs (fold mark_absent hs st)"
proof (induction hs arbitrary: st)
  case (Cons h hs)
  have "store_ok iv entries cap pf pe (mset hs + D) gs (mark_absent h st)"
    using Cons.prems unfolding store_ok_def presence_ok_def by (auto simp: mark_absent_def)
  thus ?case using Cons.IH by simp
qed simp

lemma fold_mark_absent_fields:
  "bs_inactive (fold mark_absent hs st) = bs_inactive st" "bs_free (fold mark_absent hs st) = bs_free st"
  "bs_slots (fold mark_absent hs st) = bs_slots st"
  by (induction hs arbitrary: st) (simp_all add: mark_absent_def)

lemma allocate_reset_ok:
  assumes "ok gs st"
  shows "\<exists>ids st'. allocate_reset_blocks n st = Some (ids, st') \<and> ids = take n (bs_free st) \<and>
    ok (rev (map GMutable ids) @ gs) st'"
proof -
  note D = store_okD [OF assms]
  let ?t = "min n (length (bs_free st))"
  let ?ids = "take ?t (bs_free st)" and ?rest = "drop ?t (bs_free st)"
  have split: "set ?rest \<union> set ?ids = set (bs_free st)"
    by (metis append_take_drop_id set_append sup_commute)
  have dis: "distinct ?ids" "set ?ids \<inter> set ?rest = {}" "distinct ?rest"
    using D(3) by (metis append_take_drop_id distinct_append)+
  have "store_ok iv entries cap ({} \<union> set ?ids) {} {#} gs (st\<lparr>bs_free := ?rest\<rparr>)"
    using D dis by (simp add: store_ok_def split)
  from open_slots_ok [OF this] dis show ?thesis
    by (auto simp: allocate_reset_blocks_def min_def)
qed

lemma ok_guards: "store_ok iv entries cap pf pe D gs st \<Longrightarrow> mset gs' = mset gs \<Longrightarrow> store_ok iv entries cap pf pe D gs' st"
  unfolding store_ok_def by (metis mset_eq_imp_distinct_iff set_mset_mset)

text \<open>Allocation serves the request in full or not at all, reset blocks first, then in eviction order.\<close>

lemma allocate_atomic_ok:
  assumes "ok gs st" and "n \<le> length (bs_free st) + length (entries (bs_inactive st))"
  defines "evicted \<equiv> take (n - length (bs_free st)) (entries (bs_inactive st))"
  defines "ids \<equiv> take n (bs_free st) @ map snd evicted"
  shows "\<exists>st'. allocate_atomic I n st = Some (Some (ids, map fst evicted), st') \<and> ok (map GMutable ids @ gs) st'"
proof (cases "n = 0")
  case True
  thus ?thesis using assms(1) by (simp add: allocate_atomic_def ids_def evicted_def)
next
  case False
  note D = store_okD [OF assms(1)]
  define r where "r = min n (length (bs_free st))"
  define k where "k = n - r"
  let ?es = "entries (bs_inactive st)" and ?ids = "take r (bs_free st)" and ?rest = "drop r (bs_free st)"
  have ev: "evicted = take k ?es" and idsr: "?ids = take n (bs_free st)"
    by (simp_all add: evicted_def min_def r_def k_def)
  obtain ix where ix: "(if 0 < k then ix_allocate I k (bs_inactive st) else ([], bs_inactive st)) = (evicted, ix)"
      "iv ix" "entries ix = drop k ?es"
  proof (cases "0 < k")
    case True
    thus thesis using allocate [OF D(5), of k] that ev by (cases "ix_allocate I k (bs_inactive st)") auto
  qed (use D(5) ev that in auto)
  have split: "set ?rest \<union> set ?ids = set (bs_free st)" "set (entries ix) \<union> set evicted = set ?es"
    unfolding ev ix(3) by (metis append_take_drop_id set_append sup_commute)+
  have dis: "distinct ?ids" "set ?ids \<inter> set ?rest = {}" "distinct ?rest"
    using D(3) by (metis append_take_drop_id distinct_append)+
  have "distinct ?es"
    using keys [OF D(5)] by (simp add: distinct_map)
  hence dis2: "distinct evicted" "set evicted \<inter> set (entries ix) = {}"
    unfolding ev ix(3) by (metis append_take_drop_id distinct_append)+
  let ?st = "st\<lparr>bs_inactive := ix, bs_free := ?rest\<rparr>"
  have "store_ok iv entries cap ({} \<union> set ?ids) (set evicted) {#} gs ?st"
    using D dis ix(2) by (simp add: store_ok_def split)
  from open_slots_ok [OF this dis(1)] dis(2) obtain st1 where st1: "open_slots ?ids ?st = Some st1"
      "store_ok iv entries cap {} (set evicted) {#} (rev (map GMutable ?ids) @ gs) st1" "bs_inactive st1 = ix"
    by auto
  obtain st2 where st2: "evict_slots evicted st1 = Some (map fst evicted, st2)"
      "store_ok iv entries cap {} {} (mset (map fst evicted) + {#}) (rev (map (GMutable \<circ> snd) evicted) @ rev (map GMutable ?ids) @ gs) st2"
    using evict_slots_ok [OF st1(2) dis2(1)] dis2(2) st1(3) by auto
  have lev: "length evicted = k"
    using assms(2) by (auto simp: ev k_def r_def)
  have "ok (map GMutable ids @ gs) (fold mark_absent (map fst evicted) st2)"
    by (rule ok_guards [OF marks_ok [OF st2(2)]]) (simp add: ids_def idsr)
  moreover have "allocate_atomic I n st = Some (Some (?ids @ map snd evicted, map fst evicted), fold mark_absent (map fst evicted) st2)"
    using False assms(2) st1(1) st2(1) ix(1) lev len [OF D(5)] unfolding allocate_atomic_def Let_def r_def [symmetric] k_def [symmetric] by simp
  ultimately show ?thesis
    by (simp add: ids_def idsr)
qed

lemma allocate_atomic_refused:
  assumes "ok gs st" and "length (bs_free st) + length (entries (bs_inactive st)) < n"
  shows "allocate_atomic I n st = Some (None, st)"
  using assms store_okD(5) [OF assms(1)] by (simp add: allocate_atomic_def len)

lemma drain_inactive_ok:
  assumes "ok gs st"
  shows "\<exists>st'. drain_inactive_to_mutable I st = Some (map snd (entries (bs_inactive st)), st') \<and>
    ok (map GMutable (map snd (entries (bs_inactive st))) @ gs) st' \<and> entries (bs_inactive st') = [] \<and> bs_free st' = bs_free st"
proof -
  note D = store_okD [OF assms]
  let ?es = "entries (bs_inactive st)"
  obtain ix where ix: "ix_allocate_all I (bs_inactive st) = Some (?es, ix)" "iv ix" "entries ix = []"
    using all [OF D(5)] by blast
  have "distinct ?es"
    using keys [OF D(5)] by (simp add: distinct_map)
  moreover have "store_ok iv entries cap {} (set ?es) {#} gs (st\<lparr>bs_inactive := ix\<rparr>)"
    using D ix by (simp add: store_ok_def)
  ultimately obtain st1 where st1: "evict_slots ?es (st\<lparr>bs_inactive := ix\<rparr>) = Some (map fst ?es, st1)"
      "store_ok iv entries cap {} {} (mset (map fst ?es) + {#}) (rev (map (GMutable \<circ> snd) ?es) @ gs) st1" "bs_inactive st1 = ix" "bs_free st1 = bs_free st"
    using evict_slots_ok [of "{}" ?es "{#}" gs "st\<lparr>bs_inactive := ix\<rparr>"] ix(3) by auto
  have "ok (map GMutable (map snd ?es) @ gs) (fold mark_absent (map fst ?es) st1)"
    by (rule ok_guards [OF marks_ok [OF st1(2)]]) simp
  thus ?thesis
    using ix st1 by (simp add: drain_inactive_to_mutable_def fold_mark_absent_fields)
qed

section \<open>Guard transitions\<close>

lemma guard_slot:
  assumes "ok gs st"
  shows "GMutable b \<in> set gs \<Longrightarrow> slot_at st b = Some Mutable"
    and "GComplete b h \<in> set gs \<Longrightarrow> slot_at st b = Some (Staged h)"
  using slots_okD(5,6) [OF store_okD(6) [OF assms]] by blast+

lemma not_free:
  assumes "ok gs st" and "slot_at st b = Some s" and "s \<noteq> Reset"
  shows "b \<notin> set (bs_free st)"
  using slots_okD(1) [OF store_okD(6) [OF assms(1)], of b] assms(2,3) by simp

lemma release_mutable_ok:
  assumes "ok gs st" and "GMutable b \<in> set gs"
  shows "\<exists>st'. release_mutable b st = Some st' \<and> ok (remove1 (GMutable b) gs) st' \<and> bs_free st' = bs_free st @ [b] \<and> bs_inactive st' = bs_inactive st"
proof -
  note D = store_okD [OF assms(1)]
  note b = guard_slot(1) [OF assms]
  let ?st = "st\<lparr>bs_slots := (bs_slots st)[b := Reset], bs_free := bs_free st @ [b]\<rparr>"
  have "ok (remove1 (GMutable b) gs) ?st"
    using slots_close_mutable [OF D(6) assms(2)] arcs_plain [OF D(8) b] D(3-5) not_free [OF assms(1) b]
    by (intro store_ok_upd [OF assms(1) b, where s' = Reset]) (simp_all add: bears_def)
  thus ?thesis
    by (simp add: release_mutable_def slot_at_put [OF b])
qed

lemma release_staged_ok:
  assumes "ok gs st" and "GComplete b h \<in> set gs"
  shows "\<exists>st'. release_staged b st = Some st' \<and> ok (remove1 (GComplete b h) gs) st'"
proof -
  note D = store_okD [OF assms(1)]
  note b = guard_slot(2) [OF assms]
  let ?st = "st\<lparr>bs_slots := (bs_slots st)[b := Reset], bs_free := bs_free st @ [b]\<rparr>"
  have "ok (remove1 (GComplete b h) gs) ?st"
    using slots_close_staged [OF D(6) assms(2)] arcs_plain [OF D(8) b] D(3-5) not_free [OF assms(1) b]
    by (intro store_ok_upd [OF assms(1) b, where s' = Reset]) (simp_all add: bears_def)
  thus ?thesis
    by (simp add: release_staged_def slot_at_put [OF b])
qed

lemma transition_to_staged_ok:
  assumes "ok gs st" and "GMutable b \<in> set gs"
  shows "\<exists>st'. transition_to_staged b h st = Some st' \<and> ok (GComplete b h # remove1 (GMutable b) gs) st'"
proof -
  note D = store_okD [OF assms(1)]
  note b = guard_slot(1) [OF assms]
  have "GComplete b h \<notin> set gs"
    using slots_okD(6) [OF D(6), of b h] b by simp
  hence "ok (GComplete b h # remove1 (GMutable b) gs) (st\<lparr>bs_slots := (bs_slots st)[b := Staged h]\<rparr>)"
    using slots_stage [OF D(6) assms(2)] arcs_plain [OF D(8) b] D(3-5)
    by (intro store_ok_upd [OF assms(1) b, where s' = "Staged h"]) (simp_all add: bears_def)
  thus ?thesis
    by (simp add: transition_to_staged_def slot_at_put [OF b])
qed

lemma transition_back_ok:
  assumes "ok gs st" and "GComplete b h \<in> set gs"
  shows "\<exists>st'. transition_back_to_mutable b st = Some st' \<and> ok (GMutable b # remove1 (GComplete b h) gs) st'"
proof -
  note D = store_okD [OF assms(1)]
  note b = guard_slot(2) [OF assms]
  have "GMutable b \<notin> set gs"
    using slots_okD(5) [OF D(6), of b] b by simp
  hence "ok (GMutable b # remove1 (GComplete b h) gs)
      (st\<lparr>bs_slots := (bs_slots st)[b := Mutable], bs_ror := (bs_ror st)[b := bs_default st]\<rparr>)"
    using slots_unstage [OF D(6) assms(2)] arcs_plain [OF D(8) b] D(3-5)
    by (intro store_ok_upd [OF assms(1) b, where s' = Mutable]) (simp_all add: bears_def)
  thus ?thesis
    using open_slot_eq [OF b] D(1,2) by (simp add: transition_back_to_mutable_def)
qed

lemma release_mutables_ok:
  "ok (map GMutable bs @ gs) st \<Longrightarrow> \<exists>st'. release_mutables bs st = Some st' \<and> ok gs st' \<and>
    bs_free st' = bs_free st @ bs \<and> bs_inactive st' = bs_inactive st"
proof (induction bs arbitrary: st)
  case (Cons b bs)
  obtain st1 where "release_mutable b st = Some st1" "ok (map GMutable bs @ gs) st1" "bs_free st1 = bs_free st @ [b]" "bs_inactive st1 = bs_inactive st"
    using release_mutable_ok [OF Cons.prems, of b] by auto
  with Cons.IH [of st1] show ?case by auto
qed simp

section \<open>Lookup\<close>

lemma deactivate_ok:
  assumes "ok gs st" and b: "slot_at st b = Some (Primary h a)" and dead: "bs_arcs st a = Some i" "in_strong i = 0"
  shows "\<exists>ix. ix_insert I h b (bs_inactive st) = Some ix \<and> (h, b) \<in> set (entries ix) \<and>
    ok gs (st\<lparr>bs_slots := (bs_slots st)[b := Inactive h], bs_inactive := ix, bs_active := (bs_active st)(h := None)\<rparr>)"
proof -
  note D = store_okD [OF assms(1)]
  have act: "bs_active st h = Some b"
    using slots_primary_active [OF D(6) b] .
  hence "h \<notin> fst ` set (entries (bs_inactive st))"
    using slots_okD(4) [OF D(6), of h] by force
  then obtain ix where ix: "ix_insert I h b (bs_inactive st) = Some ix" "iv ix"
      "mset (entries ix) = add_mset (h, b) (mset (entries (bs_inactive st)))"
    using insert [OF D(5), of h b] room [OF assms(1) b] by auto
  have E: "set (entries ix) = insert (h, b) (set (entries (bs_inactive st)))"
    using ix(3) by (metis set_mset_add_mset_insert set_mset_mset)
  have "ok gs (st\<lparr>bs_slots := (bs_slots st)[b := Inactive h], bs_inactive := ix, bs_active := (bs_active st)(h := None)\<rparr>)"
    using slots_deactivate [OF D(6) b] arcs_leave [OF D(8) b dead] D(3,4) ix(2) E
    by (intro store_ok_upd [OF assms(1) b, where s' = "Inactive h"]) (simp_all add: bears_def)
  thus ?thesis
    using ix(1) E by blast
qed

lemma install_resurrected:
  assumes ok: "store_ok iv entries cap {} (insert (h, b) pe) {#} gs st"
    and only: "\<And>b'. (h, b') \<notin> set (entries (bs_inactive st)) \<union> pe"
  shows "\<exists>st'. install_primary b h st = Some (bs_next st, st') \<and> store_ok iv entries cap {} pe {#} gs st' \<and>
    bs_inactive st' = bs_inactive st \<and> slot_at st' = (slot_at st)(b \<mapsto> Primary h (bs_next st)) \<and>
    bs_arcs st' = (bs_arcs st)(bs_next st \<mapsto>
      \<lparr>in_block = b, in_hash = h, in_primary = True, in_keep = None, in_strong = 1\<rparr>)"
proof -
  note D = store_okD [OF ok]
  let ?n = "bs_next st"
  let ?i = "\<lparr>in_block = b, in_hash = h, in_primary = True, in_keep = None, in_strong = 1\<rparr>"
  let ?st = "st\<lparr>bs_slots := (bs_slots st)[b := Primary h ?n], bs_active := (bs_active st)(h \<mapsto> b), bs_next := ?n + 1,
      bs_arcs := (bs_arcs st)(?n \<mapsto> ?i)\<rparr>"
  have b: "slot_at st b = Some (Inactive h)"
    using slots_okD(2) [OF D(6), of h b] by simp
  have "set (entries (bs_inactive st)) \<union> insert (h, b) pe - {(h, b)} = set (entries (bs_inactive st)) \<union> pe"
    using only by auto
  hence "slots_ok ((slot_at st)(b \<mapsto> Primary h ?n)) (set (bs_free st) \<union> {}) (set (entries (bs_inactive st)) \<union> pe)
      ((bs_active st)(h \<mapsto> b)) (set gs)"
    using slots_resurrect [OF D(6), of h b ?n] only by auto
  moreover have "arcs_ok ((slot_at st)(b \<mapsto> Primary h ?n)) ((bs_arcs st)(?n \<mapsto> ?i)) (?n + 1)"
    by (rule arcs_new [OF D(8) b]) simp_all
  ultimately have "store_ok iv entries cap {} pe {#} gs ?st"
    using D(3-5) by (intro store_ok_upd [OF ok b, where s' = "Primary h ?n"]) (simp_all add: bears_def)
  moreover have "slot_at ?st = (slot_at st)(b \<mapsto> Primary h ?n)"
    by (rule slot_at_changed [OF b]) simp
  ultimately show ?thesis
    by (simp add: install_primary_def slot_at_put [OF b] Let_def)
qed

lemma resurrect_ok:
  assumes "ok gs st"
  shows "\<exists>r st'. resurrect I h st = Some (r, st') \<and> ok gs st' \<and>
    (case r of None \<Rightarrow> (\<forall>b. slot_at st b \<noteq> Some (Inactive h)) \<and> slot_at st' = slot_at st \<and> bs_active st' = bs_active st \<and> (\<forall>b. (h, b) \<notin> set (entries (bs_inactive st')))
     | Some a \<Rightarrow> \<exists>b. slot_at st b = Some (Inactive h) \<and> handed st' h b a)"
proof -
  note D = store_okD [OF assms]
  let ?es = "entries (bs_inactive st)"
  obtain r ix where f: "ix_find I h (bs_inactive st) = (r, ix)" by fastforce
  note ix = find [OF D(5) f]
  have in_iff: "(h, b) \<in> set ?es \<longleftrightarrow> slot_at st b = Some (Inactive h)" for b
    using slots_okD(2) [OF D(6)] by simp
  show ?thesis
  proof (cases "map_of ?es h")
    case None
    hence "h \<notin> fst ` set ?es"
      by (simp add: map_of_eq_None_iff)
    hence no: "entries ix = ?es" "\<forall>b. (h, b) \<notin> set ?es"
      using ix without_key_absent [of h ?es] by force+
    moreover have "ok gs (st\<lparr>bs_inactive := ix\<rparr>)"
      using D ix no(1) by (simp add: store_ok_def)
    ultimately show ?thesis
      using f ix None in_iff by (simp add: resurrect_def)
  next
    case (Some b)
    hence b: "(h, b) \<in> set ?es"
      by (rule map_of_SomeD)
    have S: "set (entries ix) = set ?es - {(h, b)}"
      using conjunct1 [OF conjunct2 [OF ix]] set_without [OF D(5) b] by (simp only:)
    have E: "set (entries ix) \<union> {(h, b)} = set ?es"
      unfolding S using b by blast
    have only: "(h, b') \<notin> set (entries ix) \<union> {}" for b'
      unfolding S using only_entry [OF D(5) b, of b'] by blast
    let ?st = "st\<lparr>bs_inactive := ix\<rparr>"
    have "store_ok iv entries cap {} (insert (h, b) {}) {#} gs ?st"
      using D ix E by (simp add: store_ok_def)
    from install_resurrected [OF this] only obtain st' where st': "install_primary b h ?st = Some (bs_next st, st')" "ok gs st'"
        "slot_at st' = (slot_at st)(b \<mapsto> Primary h (bs_next st))"
        "bs_arcs st' = (bs_arcs st)(bs_next st \<mapsto> \<lparr>in_block = b, in_hash = h, in_primary = True, in_keep = None, in_strong = 1\<rparr>)"
      by auto
    have "keepers (bs_arcs st') (bs_next st) = 0"
      using keepers_fresh [OF D(8)] keepers_new [OF arcs_fresh [OF D(8)] arcs_okD(8) [OF D(8)]] st'(4) by simp
    hence "handed st' h b (bs_next st)"
      using st'(3,4) by (simp add: handed_def)
    moreover have "take_inactive_handle b st = Some h"
      using b in_iff by (simp add: take_inactive_handle_def)
    ultimately show ?thesis
      using f ix Some st' b in_iff by (auto simp: resurrect_def)
  qed
qed

lemma arc_count_ok:
  assumes "ok gs st" and "bs_arcs st a = Some i" and "keepers (bs_arcs st) a \<le> k" and "0 < k \<Longrightarrow> 0 < in_strong i"
  shows "ok gs (st\<lparr>bs_arcs := (bs_arcs st)(a \<mapsto> i\<lparr>in_strong := k\<rparr>)\<rparr>)"
  using store_okD [OF assms(1)] arcs_count [OF store_okD(8) [OF assms(1)] assms(2-4)] by (simp add: store_ok_def)

lemma acquire_ok:
  assumes "ok gs st"
  shows "\<exists>r st'. acquire_for_hash I h st = Some (r, st') \<and> ok gs st' \<and>
    (case r of None \<Rightarrow> (\<forall>b. \<not> cached st h b) \<and> bs_active st' h = None \<and> (\<forall>b. (h, b) \<notin> set (entries (bs_inactive st')))
     | Some a \<Rightarrow> \<exists>b. cached st h b \<and> handed st' h b a)"
proof (cases "bs_active st h")
  case None
  note D = store_okD [OF assms]
  obtain r st' where r: "resurrect I h st = Some (r, st')" "ok gs st'"
      "case r of None \<Rightarrow> (\<forall>b. slot_at st b \<noteq> Some (Inactive h)) \<and> slot_at st' = slot_at st \<and> bs_active st' = bs_active st \<and> (\<forall>b. (h, b) \<notin> set (entries (bs_inactive st')))
       | Some a \<Rightarrow> \<exists>b. slot_at st b = Some (Inactive h) \<and> handed st' h b a"
    using resurrect_ok [OF assms] by blast
  have "slot_at st b \<noteq> Some (Primary h a)" for b a
    using slots_primary_active [OF D(6), of b h a] None by auto
  thus ?thesis
    using None r by (cases r) (auto simp: acquire_for_hash_def cached_def)
next
  case (Some b)
  note D = store_okD [OF assms]
  obtain a where b: "slot_at st b = Some (Primary h a)"
    using slots_okD(3) [OF D(6), of h b] Some by blast
  obtain i where i: "bs_arcs st a = Some i" "in_block i = b" "in_hash i = h" "in_primary i"
    using arcs_okD(2) [OF D(8) b] by blast
  note keep = arcs_okD(7) [OF D(8) i(1)]
  show ?thesis
  proof (cases "in_strong i = 0")
    case False
    let ?st = "st\<lparr>bs_arcs := (bs_arcs st)(a \<mapsto> i\<lparr>in_strong := in_strong i + 1\<rparr>)\<rparr>"
    have "keepers (bs_arcs ?st) a = keepers (bs_arcs st) a"
      using keepers_same [of "bs_arcs st" a i] i(1) by simp
    hence "handed ?st h b a"
      using b i keep by (simp add: handed_def)
    moreover have "ok gs ?st"
      using False keep by (intro arc_count_ok [OF assms i(1)]) auto
    ultimately show ?thesis
      using False Some b i(1) by (auto simp: acquire_for_hash_def arc_upgrade_def cached_def)
  next
    case True
    obtain ix where ix: "ix_insert I h b (bs_inactive st) = Some ix"
        "ok gs (st\<lparr>bs_slots := (bs_slots st)[b := Inactive h], bs_inactive := ix, bs_active := (bs_active st)(h := None)\<rparr>)"
        (is "ok gs ?st")
      using deactivate_ok [OF assms b i(1) True] by blast
    have eager: "eager_primary_to_inactive I h b st = Some ?st"
      using b ix(1) by (simp add: eager_primary_to_inactive_def slot_at_put [OF b])
    have sl: "slot_at ?st = (slot_at st)(b \<mapsto> Inactive h)"
      by (rule slot_at_changed [OF b]) simp
    obtain r st' where r: "resurrect I h ?st = Some (r, st')" "ok gs st'"
        "case r of None \<Rightarrow> (\<forall>b. slot_at ?st b \<noteq> Some (Inactive h)) \<and> slot_at st' = slot_at ?st \<and> bs_active st' = bs_active ?st \<and> (\<forall>b. (h, b) \<notin> set (entries (bs_inactive st')))
         | Some a \<Rightarrow> \<exists>b. slot_at ?st b = Some (Inactive h) \<and> handed st' h b a"
      using resurrect_ok [OF ix(2)] by blast
    moreover have "slot_at ?st b = Some (Inactive h)"
      unfolding sl by simp
    ultimately obtain a' c where a': "r = Some a'" "slot_at ?st c = Some (Inactive h)" "handed st' h c a'"
      by (cases r; simp only: option.case; blast)
    have "c = b"
      using a'(2) sl slots_inactive_active [OF D(6), of c h] Some by (auto split: if_splits)
    thus ?thesis
      using True Some b i(1) eager r(1,2) a' by (auto simp: acquire_for_hash_def arc_upgrade_def cached_def)
  qed
qed

lemma match_prefix_ok:
  "ok gs st \<Longrightarrow> \<exists>as st'. match_prefix_locked_batch I hs st = Some (as, st') \<and> ok gs st'"
proof (induction hs arbitrary: st)
  case (Cons h hs)
  obtain r st1 where r: "acquire_for_hash I h st = Some (r, st1)" "ok gs st1"
    using acquire_ok [OF Cons.prems] by blast
  show ?case
  proof (cases r)
    case (Some a)
    obtain as st2 where "match_prefix_locked_batch I hs st1 = Some (as, st2)" "ok gs st2"
      using Cons.IH [OF r(2)] by blast
    thus ?thesis using r(1) Some by simp
  qed (use r in simp)
qed simp

lemma promote_slots_ok:
  assumes "store_ok iv entries cap {} (set es) {#} gs st" and "distinct (map fst (es @ entries (bs_inactive st)))"
  shows "\<exists>as st'. promote_slots es st = Some (as, st') \<and> ok gs st'"
  using assms
proof (induction es arbitrary: st)
  case (Cons e es)
  obtain h b where e: "e = (h, b)" by fastforce
  note D = store_okD [OF Cons.prems(1)]
  have b: "slot_at st b = Some (Inactive h)"
    using slots_okD(2) [OF D(6), of h b] e by simp
  have "h \<notin> fst ` (set es \<union> set (entries (bs_inactive st)))"
    using Cons.prems(2) e by auto
  hence "(h, b') \<notin> set (entries (bs_inactive st)) \<union> set es" for b'
    by force
  moreover have "store_ok iv entries cap {} (insert (h, b) (set es)) {#} gs st"
    using Cons.prems(1) e by simp
  ultimately obtain st1 where st1: "install_primary b h st = Some (bs_next st, st1)"
      "store_ok iv entries cap {} (set es) {#} gs st1" "bs_inactive st1 = bs_inactive st"
    using install_resurrected [of h b "set es" gs st] by auto
  obtain as st2 where "promote_slots es st1 = Some (as, st2)" "ok gs st2"
    using Cons.IH [OF st1(2)] Cons.prems(2) st1(3) by auto
  thus ?case
    using e st1(1) b by (simp add: take_inactive_handle_def)
qed simp

lemma scan_inactive_ok:
  assumes "ok gs st"
  shows "\<exists>as st'. scan_inactive_primaries I hs st = Some (as, st') \<and> ok gs st'"
proof -
  note D = store_okD [OF assms]
  obtain ms ix where s: "ix_scan I hs (bs_inactive st) = (ms, ix)" by fastforce
  have m: "mset (ms @ entries ix) = mset (entries (bs_inactive st))" and ix: "iv ix"
    using scan [OF D(5) s] by simp_all
  have "distinct (map fst (ms @ entries ix))"
    using keys [OF D(5)] m by (metis mset_eq_imp_distinct_iff mset_map)
  moreover have "set (entries ix) \<union> set ms = set (entries (bs_inactive st))"
    using mset_eq_setD [OF m] by auto
  hence "store_ok iv entries cap {} (set ms) {#} gs (st\<lparr>bs_inactive := ix\<rparr>)"
    using D ix by (simp add: store_ok_def)
  ultimately show ?thesis
    using promote_slots_ok [of ms gs "st\<lparr>bs_inactive := ix\<rparr>"] s by (simp add: scan_inactive_primaries_def)
qed

section \<open>Registration\<close>

lemma register_fresh_ok:
  assumes "ok gs st" and g: "GComplete b h \<in> set gs" and none: "bs_active st h = None" "\<forall>b'. (h, b') \<notin> set (entries (bs_inactive st))"
  shows "\<exists>st'. install_primary b h st = Some (bs_next st, st') \<and> ok (remove1 (GComplete b h) gs) (mark_present h st') \<and>
    handed (mark_present h st') h b (bs_next st)"
proof -
  note D = store_okD [OF assms(1)]
  note b = guard_slot(2) [OF assms(1) g]
  let ?n = "bs_next st"
  let ?i = "\<lparr>in_block = b, in_hash = h, in_primary = True, in_keep = None, in_strong = 1\<rparr>"
  let ?st = "st\<lparr>bs_slots := (bs_slots st)[b := Primary h ?n], bs_active := (bs_active st)(h \<mapsto> b), bs_next := ?n + 1,
      bs_arcs := (bs_arcs st)(?n \<mapsto> ?i)\<rparr>"
  have "arcs_ok ((slot_at st)(b \<mapsto> Primary h ?n)) ((bs_arcs st)(?n \<mapsto> ?i)) (?n + 1)"
    by (rule arcs_new [OF D(8) b]) simp_all
  hence "ok (remove1 (GComplete b h) gs) (mark_present h ?st)"
    using slots_register [OF D(6) g none(1), of ?n] none(2) D(3-5)
    by (intro store_ok_upd [OF assms(1) b, where s' = "Primary h ?n"]) (simp_all add: bears_def mark_present_def)
  moreover have "slot_at (mark_present h ?st) = (slot_at st)(b \<mapsto> Primary h ?n)"
    by (rule slot_at_changed [OF b]) (simp add: mark_present_def)
  moreover have "keepers ((bs_arcs st)(?n \<mapsto> ?i)) ?n = 0"
    using keepers_fresh [OF D(8)] keepers_new [OF arcs_fresh [OF D(8)] arcs_okD(8) [OF D(8)]] by simp
  ultimately have "ok (remove1 (GComplete b h) gs) (mark_present h ?st)" "handed (mark_present h ?st) h b ?n"
    by (simp_all add: handed_def mark_present_def)
  moreover have "install_primary b h st = Some (?n, ?st)"
    by (simp add: install_primary_def slot_at_put [OF b] Let_def)
  ultimately show ?thesis
    by blast
qed

lemma register_duplicate_ok:
  assumes "ok gs st" and g: "GComplete b h \<in> set gs" and p: "handed st h c p"
  shows "\<exists>st'. install_duplicate b h p st = Some (bs_next st, st') \<and> ok (remove1 (GComplete b h) gs) (mark_present h st') \<and>
    slot_at (mark_present h st') b = Some (Duplicate h (bs_next st)) \<and> slot_at (mark_present h st') c = Some (Primary h p)"
proof -
  note D = store_okD [OF assms(1)]
  note b = guard_slot(2) [OF assms(1) g]
  let ?n = "bs_next st"
  let ?i = "\<lparr>in_block = b, in_hash = h, in_primary = False, in_keep = Some p, in_strong = 1\<rparr>"
  let ?st = "st\<lparr>bs_slots := (bs_slots st)[b := Duplicate h ?n], bs_next := ?n + 1, bs_arcs := (bs_arcs st)(?n \<mapsto> ?i)\<rparr>"
  have "arcs_ok ((slot_at st)(b \<mapsto> Duplicate h ?n)) ((bs_arcs st)(?n \<mapsto> ?i)) (?n + 1)"
    using p by (intro arcs_new [OF D(8) b]) (auto simp: handed_def)
  hence "ok (remove1 (GComplete b h) gs) (mark_present h ?st)"
    using slots_duplicate [OF D(6) g, of ?n] D(3-5)
    by (intro store_ok_upd [OF assms(1) b, where s' = "Duplicate h ?n"]) (simp_all add: bears_def mark_present_def)
  moreover have "slot_at (mark_present h ?st) = (slot_at st)(b \<mapsto> Duplicate h ?n)"
    by (rule slot_at_changed [OF b]) (simp add: mark_present_def)
  moreover have "install_duplicate b h p st = Some (?n, ?st)"
    by (simp add: install_duplicate_def slot_at_put [OF b] Let_def)
  moreover have "slot_at st c = Some (Primary h p)"
    using p by (simp add: handed_def)
  hence "((slot_at st)(b \<mapsto> Duplicate h ?n)) c = Some (Primary h p)"
    using b by auto
  ultimately show ?thesis
    by (metis fun_upd_same)
qed

lemma register_block_ok:
  assumes "ok gs st" and g: "GComplete b h \<in> set gs"
  shows "\<exists>a st'. register_completed_block I policy b h st = Some (a, st') \<and> ok (remove1 (GComplete b h) gs) st'"
proof -
  obtain r st1 where r: "acquire_for_hash I h st = Some (r, st1)" "ok gs st1"
      "case r of None \<Rightarrow> (\<forall>b. \<not> cached st h b) \<and> bs_active st1 h = None \<and> (\<forall>b. (h, b) \<notin> set (entries (bs_inactive st1)))
       | Some a \<Rightarrow> \<exists>b. cached st h b \<and> handed st1 h b a"
    using acquire_ok [OF assms(1)] by blast
  show ?thesis
  proof (cases r)
    case None
    thus ?thesis
      using r register_fresh_ok [OF r(2) g] by (auto simp: register_completed_block_def)
  next
    case (Some p)
    then obtain c where c: "handed st1 h c p"
      using r(3) by auto
    then obtain i where i: "bs_arcs st1 p = Some i" "in_block i = c" "slot_at st1 c = Some (Primary h p)"
      by (auto simp: handed_def)
    have "c \<noteq> b"
      using guard_slot(2) [OF r(2) g] i(3) by auto
    thus ?thesis
      using Some r(1) i register_duplicate_ok [OF r(2) g c] release_staged_ok [OF r(2) g]
      by (cases policy) (auto simp: register_completed_block_def)
  qed
qed

section \<open>The end of a reference\<close>

lemma reset_slot_eq: "slot_at st b = Some s \<Longrightarrow>
    reset_slot_locked b st = Some (st\<lparr>bs_slots := (bs_slots st)[b := Reset], bs_free := bs_free st @ [b]\<rparr>)"
  by (simp add: reset_slot_locked_def slot_at_put)

lemma release_primary_ok:
  assumes "ok gs st" and i: "bs_arcs st a = Some i" "in_primary i" "in_strong i = 0"
  shows "\<exists>st'. release_primary I (in_block i) a st = Some st' \<and> ok gs st' \<and> bs_arcs st' = bs_arcs st \<and>
    (\<forall>h. slot_at st' (in_block i) \<noteq> Some (Primary h a))"
proof -
  note D = store_okD [OF assms(1)]
  let ?b = "in_block i"
  obtain s where s: "slot_at st ?b = Some s"
    using arcs_okD(4) [OF D(8) i(1,2)] by auto
  show ?thesis
  proof (cases "\<exists>h. s = Primary h a")
    case True
    then obtain h where b: "slot_at st ?b = Some (Primary h a)"
      using s by blast
    show ?thesis
    proof (cases "bs_ror st ! ?b")
      case True
      let ?st = "st\<lparr>bs_slots := (bs_slots st)[?b := Reset], bs_free := bs_free st @ [?b], bs_active := (bs_active st)(h := None),
          bs_presence := (bs_presence st)(h := bs_presence st h - 1)\<rparr>"
      have pos: "0 < bs_presence st h"
        using D(7) b unfolding presence_ok_def
        by (auto simp: card_gt_0_iff bears_def intro!: exI [of _ ?b] elim!: finite_subset [rotated])
      have "ok gs ?st"
        using slots_reset_primary [OF D(6) b] arcs_leave [OF D(8) b i(1,3)] D(3-5) not_free [OF assms(1) b] pos
        by (intro store_ok_upd [OF assms(1) b, where s' = Reset]) (simp_all add: bears_def)
      moreover have "slot_at ?st = (slot_at st)(?b \<mapsto> Reset)"
        by (rule slot_at_changed [OF b]) simp
      ultimately show ?thesis
        using b True by (simp add: release_primary_def reset_slot_eq [OF b] mark_absent_def)
    next
      case False
      obtain ix where ix: "ix_insert I h ?b (bs_inactive st) = Some ix"
          "ok gs (st\<lparr>bs_slots := (bs_slots st)[?b := Inactive h], bs_inactive := ix, bs_active := (bs_active st)(h := None)\<rparr>)"
          (is "ok gs ?st")
        using deactivate_ok [OF assms(1) b i(1,3)] by blast
      moreover have "slot_at ?st = (slot_at st)(?b \<mapsto> Inactive h)"
        by (rule slot_at_changed [OF b]) simp
      ultimately show ?thesis
        using b False by (simp add: release_primary_def slot_at_put [OF b])
    qed
  next
    case False
    thus ?thesis
      using s assms(1) by (auto simp: release_primary_def split: slot.split)
  qed
qed

lemma inner_drop_ok:
  assumes "ok gs st" and i: "bs_arcs st a = Some i" "in_strong i = 0"
  shows "\<exists>st'. inner_drop I a st = Some st' \<and> ok gs st'"
proof (cases "in_primary i")
  case True
  obtain st1 where st1: "release_primary I (in_block i) a st = Some st1" "ok gs st1" "bs_arcs st1 = bs_arcs st"
      "\<And>h. slot_at st1 (in_block i) \<noteq> Some (Primary h a)"
    using release_primary_ok [OF assms(1) i(1) True i(2)] by blast
  have "arcs_ok (slot_at st1) ((bs_arcs st1)(a := None)) (bs_next st1)"
    using arcs_gone [OF store_okD(8) [OF st1(2)], of a i] st1(3,4) i True by simp
  hence "ok gs (st1\<lparr>bs_arcs := (bs_arcs st1)(a := None)\<rparr>)"
    using store_okD [OF st1(2)] by (simp add: store_ok_def)
  thus ?thesis
    using i True st1(1) by (simp add: inner_drop_def)
next
  case False
  note D = store_okD [OF assms(1)]
  let ?b = "in_block i" and ?h = "in_hash i"
  have b: "slot_at st ?b = Some (Duplicate ?h a)"
    using arcs_okD(6) [OF D(8) i(1) False] by blast
  let ?st = "st\<lparr>bs_slots := (bs_slots st)[?b := Reset], bs_free := bs_free st @ [?b],
      bs_presence := (bs_presence st)(?h := bs_presence st ?h - 1), bs_arcs := (bs_arcs st)(a := None)\<rparr>"
  have pos: "0 < bs_presence st ?h"
    using D(7) b unfolding presence_ok_def
    by (auto simp: card_gt_0_iff bears_def intro!: exI [of _ ?b] elim!: finite_subset [rotated])
  have "ok gs ?st"
    using slots_reset_duplicate [OF D(6) b] arcs_duplicate_gone [OF D(8) i(1) False, of Reset] D(3-5) not_free [OF assms(1) b] pos
    by (intro store_ok_upd [OF assms(1) b, where s' = Reset]) (simp_all add: bears_def)
  thus ?thesis
    using i(1) False b by (simp add: inner_drop_def release_duplicate_def reset_slot_eq [OF b] mark_absent_def)
qed

end

end
