(* ===== verification/Block_Lifecycle.thy ===== *)
theory Block_Lifecycle
  imports Block_Operations
begin

text \<open>
  The block store in use: threads that allocate, stage, register, look up, clone and drop blocks
  in any order, one mutex-protected call at a time, and what holds in every state they reach. The
  LRU backend is shown to be an index the store can use.
\<close>

section \<open>Steps\<close>

text \<open>
  The guards in existence go along with the store. \<open>keepers\<close> counts the references owned by
  duplicates, so a reference that a thread can clone or drop exists when the strong count is
  larger. A call of the manager that takes the mutex several times (\<open>evict_inactive\<close>, a rejected
  registration) is also possible as the sequence of its parts, with other steps in between.
\<close>

type_synonym 'i store_world = "'i block_store \<times> guard list"

inductive bs_step :: "'i index \<Rightarrow> duplication_policy \<Rightarrow> 'i store_world \<Rightarrow> 'i store_world \<Rightarrow> bool" for I policy where
  allocate: "allocate_atomic I n st = Some (Some (ids, evicted), st') \<Longrightarrow>
    bs_step I policy (st, gs) (st', map GMutable ids @ gs)"
| refused: "allocate_atomic I n st = Some (None, st') \<Longrightarrow> bs_step I policy (st, gs) (st', gs)"
| allocate_reset: "allocate_reset_blocks n st = Some (ids, st') \<Longrightarrow>
    bs_step I policy (st, gs) (st', map GMutable ids @ gs)"
| drain: "drain_inactive_to_mutable I st = Some (ids, st') \<Longrightarrow>
    bs_step I policy (st, gs) (st', map GMutable ids @ gs)"
| evict_all: "evict_inactive I st = Some st' \<Longrightarrow> bs_step I policy (st, gs) (st', gs)"
| reset_pool: "reset_inactive_pool I st = Some (r, st') \<Longrightarrow> bs_step I policy (st, gs) (st', gs)"
| drop_mutable: "GMutable b \<in> set gs \<Longrightarrow> release_mutable b st = Some st' \<Longrightarrow>
    bs_step I policy (st, gs) (st', remove1 (GMutable b) gs)"
| stage: "GMutable b \<in> set gs \<Longrightarrow> stage b h block_size st = Some (Inr st') \<Longrightarrow>
    bs_step I policy (st, gs) (st', GComplete b h # remove1 (GMutable b) gs)"
| unstage: "GComplete b h \<in> set gs \<Longrightarrow> transition_back_to_mutable b st = Some st' \<Longrightarrow>
    bs_step I policy (st, gs) (st', GMutable b # remove1 (GComplete b h) gs)"
| drop_complete: "GComplete b h \<in> set gs \<Longrightarrow> release_staged b st = Some st' \<Longrightarrow>
    bs_step I policy (st, gs) (st', remove1 (GComplete b h) gs)"
| register: "GComplete b h \<in> set gs \<Longrightarrow> register_completed_block I policy b h st = Some (a, st') \<Longrightarrow>
    bs_step I policy (st, gs) (st', remove1 (GComplete b h) gs)"
| match_blocks: "match_prefix_locked_batch I hs st = Some (as, st') \<Longrightarrow> bs_step I policy (st, gs) (st', gs)"
| scan: "scan_inactive_primaries I hs st = Some (ps, st') \<Longrightarrow> bs_step I policy (st, gs) (st', gs)"
| upgrade: "weak_upgrade I a h st = Some (r, st') \<Longrightarrow> bs_step I policy (st, gs) (st', gs)"
| clone: "bs_arcs st a = Some i \<Longrightarrow> keepers (bs_arcs st) a < in_strong i \<Longrightarrow> arc_clone a st = Some st' \<Longrightarrow>
    bs_step I policy (st, gs) (st', gs)"
| drop_ref: "bs_arcs st a = Some i \<Longrightarrow> keepers (bs_arcs st) a < in_strong i \<Longrightarrow> arc_drop a st = Some st' \<Longrightarrow>
    bs_step I policy (st, gs) (st', gs)"
| finish_drop: "bs_arcs st a = Some i \<Longrightarrow> in_strong i = 0 \<Longrightarrow> inner_drop I a st = Some st' \<Longrightarrow>
    bs_step I policy (st, gs) (st', gs)"
| override: "bs_arcs st a = Some i \<Longrightarrow> store_reset_on_release (in_block i) v st = Some st' \<Longrightarrow>
    bs_step I policy (st, gs) (st', gs)"
| override_primary: "set_primary_reset_on_release a v st = Some st' \<Longrightarrow> bs_step I policy (st, gs) (st', gs)"

inductive bs_reachable :: "'i index \<Rightarrow> duplication_policy \<Rightarrow> 'i block_store \<Rightarrow> 'i store_world \<Rightarrow> bool" for I policy init where
  start: "bs_reachable I policy init (init, [])"
| step: "bs_reachable I policy init w \<Longrightarrow> bs_step I policy w w' \<Longrightarrow> bs_reachable I policy init w'"

section \<open>The invariant is kept\<close>

context block_index
begin

lemma override_ok: "ok gs st \<Longrightarrow> store_reset_on_release b v st = Some st' \<Longrightarrow> ok gs st'"
  unfolding store_ok_def by (auto simp: store_reset_on_release_def split: if_splits)

lemma evict_inactive_ok:
  assumes "ok gs st"
  shows "\<exists>st'. evict_inactive I st = Some st' \<and> ok gs st' \<and> entries (bs_inactive st') = [] \<and>
    bs_free st' = bs_free st @ map snd (entries (bs_inactive st))"
proof -
  let ?bs = "map snd (entries (bs_inactive st))"
  obtain st1 where st1: "drain_inactive_to_mutable I st = Some (?bs, st1)" "ok (map GMutable ?bs @ gs) st1"
      "entries (bs_inactive st1) = []" "bs_free st1 = bs_free st"
    using drain_inactive_ok [OF assms] by blast
  obtain st2 where "release_mutables ?bs st1 = Some st2" "ok gs st2" "bs_free st2 = bs_free st1 @ ?bs"
      "bs_inactive st2 = bs_inactive st1"
    using release_mutables_ok [OF st1(2)] by blast
  thus ?thesis
    using st1 by (simp add: evict_inactive_def)
qed

lemma weak_upgrade_ok:
  assumes "ok gs st"
  shows "\<exists>r st'. weak_upgrade I a h st = Some (r, st') \<and> ok gs st'"
proof (cases "arc_upgrade a st")
  case None
  thus ?thesis using acquire_ok [OF assms, of h] by (auto simp: weak_upgrade_def)
next
  case (Some st1)
  then obtain i where i: "bs_arcs st a = Some i" "0 < in_strong i" "st1 = st\<lparr>bs_arcs := (bs_arcs st)(a \<mapsto> i\<lparr>in_strong := in_strong i + 1\<rparr>)\<rparr>"
    by (auto simp: arc_upgrade_def split: option.splits if_splits)
  have "ok gs st1"
    unfolding i(3) using arcs_okD(7) [OF store_okD(8) [OF assms] i(1)] i(2) by (intro arc_count_ok [OF assms i(1)]) auto
  thus ?thesis using Some by (simp add: weak_upgrade_def)
qed

lemma arc_moves_ok:
  assumes "ok gs st" and "bs_arcs st a = Some i" and "keepers (bs_arcs st) a < in_strong i"
  shows "\<exists>st'. arc_clone a st = Some st' \<and> ok gs st'" and "\<exists>st'. arc_drop a st = Some st' \<and> ok gs st'"
  using assms(2,3) arc_count_ok [OF assms(1,2), of "in_strong i + 1"] arc_count_ok [OF assms(1,2), of "in_strong i - 1"]
  by (auto simp: arc_clone_def arc_drop_def)

lemma arc_block_in_range:
  assumes "ok gs st" and "bs_arcs st a = Some i"
  shows "in_block i < length (bs_slots st)"
proof (cases "in_primary i")
  case True
  thus ?thesis
    using arcs_okD(4) [OF store_okD(8) [OF assms(1)] assms(2)] by (auto simp: slot_at_def split: if_splits)
next
  case False
  thus ?thesis
    using arcs_okD(6) [OF store_okD(8) [OF assms(1)] assms(2)] by (auto dest: slot_at_less)
qed

lemma override_total:
  assumes "ok gs st" and "bs_arcs st a = Some i"
  shows "store_reset_on_release (in_block i) v st \<noteq> None" and "set_primary_reset_on_release a v st \<noteq> None"
proof -
  note D = store_okD [OF assms(1)]
  obtain x j where j: "(case in_keep i of None \<Rightarrow> Some i | Some p \<Rightarrow> bs_arcs st p) = Some j" "bs_arcs st x = Some j"
    using arcs_okD(4,6) [OF D(8) assms(2)] assms(2) by (cases "in_primary i") fastforce+
  show "store_reset_on_release (in_block i) v st \<noteq> None"
    using arc_block_in_range [OF assms] D(1,2) by (simp add: store_reset_on_release_def)
  show "set_primary_reset_on_release a v st \<noteq> None"
    using assms(2) j(1) arc_block_in_range [OF assms(1) j(2)] D(1,2)
    by (simp add: set_primary_reset_on_release_def store_reset_on_release_def)
qed

lemma step_ok: "bs_step I policy w w' \<Longrightarrow> ok (snd w) (fst w) \<Longrightarrow> ok (snd w') (fst w')"
proof (induction rule: bs_step.induct)
  case (allocate n st ids evicted st' gs)
  then show ?case
    using allocate_atomic_ok [of gs st n] allocate_atomic_refused [of gs st n]
    by (cases "n \<le> length (bs_free st) + length (entries (bs_inactive st))") auto
next
  case (refused n st st' gs)
  then show ?case
    using allocate_atomic_ok [of gs st n] allocate_atomic_refused [of gs st n]
    by (cases "n \<le> length (bs_free st) + length (entries (bs_inactive st))") auto
next
  case (allocate_reset n st ids st' gs)
  then have "ok (rev (map GMutable ids) @ gs) st'"
    using allocate_reset_ok [of gs st n] by auto
  then show ?case
    by (auto intro: ok_guards)
next
  case (drain st ids st' gs)
  then show ?case
    using drain_inactive_ok [of gs st] by auto
next
  case (reset_pool st r st' gs)
  then show ?case
    using evict_inactive_ok [of gs st] by (auto simp: reset_inactive_pool_def Let_def)
next
  case (stage b gs h block_size st st')
  then show ?case
    using transition_to_staged_ok [of gs st b h] by (auto simp: stage_def split: if_splits)
next
  case (upgrade a h st r st' gs)
  then show ?case
    using weak_upgrade_ok [of gs st a h] by auto
next
  case (match_blocks hs st as st' gs)
  then show ?case
    using match_prefix_ok [of gs st hs] by auto
next
  case (scan hs st ps st' gs)
  then show ?case
    using scan_inactive_ok [of gs st hs] by auto
next
  case (register b h gs st a st')
  then show ?case
    using register_block_ok [of gs st b h policy] by auto
next
  case (override_primary a v st st' gs)
  then show ?case
    using override_ok by (auto simp: set_primary_reset_on_release_def bind_eq_Some_conv)
qed (auto dest: evict_inactive_ok release_mutable_ok transition_back_ok release_staged_ok arc_moves_ok inner_drop_ok override_ok)

lemma store_reachable_ok:
  assumes "bs_reachable I policy (new_store cap bsize ix d) w" and "iv ix" and "entries ix = []"
  shows "ok (snd w) (fst w)"
  using assms(1) by induction (use ok_new [OF assms(2,3)] step_ok in auto)

lemma cached_unique:
  assumes "ok gs st" and "cached st h b" and "cached st h c"
  shows "b = c"
proof -
  note D = store_okD [OF assms(1)]
  have ina: "bs_active st h = None \<and> (h, x) \<in> set (entries (bs_inactive st))" if "slot_at st x = Some (Inactive h)" for x
    using that slots_okD(2) [OF D(6), of h x] slots_inactive_active [OF D(6)] by simp
  have prim: "bs_active st h = Some x" if "slot_at st x = Some (Primary h a)" for x a
    using slots_primary_active [OF D(6) that] .
  show ?thesis
    using assms(2,3) ina [of b] ina [of c] prim [of b] prim [of c] only_entry [OF D(5), of h b c]
    unfolding cached_def by force
qed

end

section \<open>Guarantees\<close>

definition guard_block :: "guard \<Rightarrow> block_id" where
  "guard_block g = (case g of GMutable b \<Rightarrow> b | GComplete b _ \<Rightarrow> b)"

lemma guard_block_iff: "b \<in> guard_block ` G \<longleftrightarrow> GMutable b \<in> G \<or> (\<exists>h. GComplete b h \<in> G)"
proof
  assume "b \<in> guard_block ` G"
  then obtain g where "g \<in> G" "b = guard_block g" by blast
  thus "GMutable b \<in> G \<or> (\<exists>h. GComplete b h \<in> G)" by (cases g) (auto simp: guard_block_def)
next
  assume "GMutable b \<in> G \<or> (\<exists>h. GComplete b h \<in> G)"
  thus "b \<in> guard_block ` G"
    by (auto simp: guard_block_def intro: image_eqI [of _ _ "GMutable b"] image_eqI [of _ _ "GComplete b h" for h])
qed

definition registered :: "'i block_store \<Rightarrow> block_id \<Rightarrow> bool" where
  "registered st b \<longleftrightarrow> (\<exists>h a. slot_at st b = Some (Primary h a) \<or> slot_at st b = Some (Duplicate h a))"

lemma count_distinct: "distinct xs \<Longrightarrow> count (mset xs) x = of_bool (x \<in> set xs)"
  by (simp add: distinct_count_atmost_1)

definition in_one_place :: "('i \<Rightarrow> entry list) \<Rightarrow> guard list \<Rightarrow> 'i block_store \<Rightarrow> block_id \<Rightarrow> bool" where
  "in_one_place entries gs st b \<longleftrightarrow>
     count (mset (bs_free st)) b + count (mset (map guard_block gs)) b +
     count (mset (map snd (entries (bs_inactive st)))) b + of_bool (registered st b) = 1"

lemma store_ok_places:
  assumes "store_ok iv entries cap {} {} {#} gs st" and "distinct (entries (bs_inactive st))" and "b < cap"
  shows "in_one_place entries gs st b"
proof -
  let ?es = "entries (bs_inactive st)"
  note D = store_okD [OF assms(1)]
  note S = slots_okD [OF D(6)]
  have "inj_on guard_block (set gs)"
    using S(5,6) by (auto simp: inj_on_def guard_block_def split: guard.splits)
  hence "distinct (map guard_block gs)"
    using D(4) by (simp add: distinct_map)
  moreover have "inj_on snd (set ?es)"
    using S(2) by (force simp: inj_on_def)
  hence "distinct (map snd ?es)"
    using assms(2) by (simp add: distinct_map)
  moreover obtain s where s: "slot_at st b = Some s"
    using assms(3) D(1) by (simp add: slot_at_def)
  have "b \<in> guard_block ` set gs \<longleftrightarrow> s = Mutable \<or> (\<exists>h. s = Staged h)"
    unfolding guard_block_iff S(5) S(6) using s by simp
  moreover have "b \<in> snd ` set ?es \<longleftrightarrow> (\<exists>h. (h, b) \<in> set ?es \<union> {})"
    by force
  hence "b \<in> snd ` set ?es \<longleftrightarrow> (\<exists>h. s = Inactive h)"
    unfolding S(2) using s by simp
  moreover have "b \<in> set (bs_free st) \<longleftrightarrow> s = Reset"
    using S(1) [of b] s by simp
  ultimately show ?thesis
    using D(3) s unfolding in_one_place_def registered_def by (cases s) (simp_all add: count_distinct del: mset_map)
qed

lemma world_ok:
  assumes "block_index I iv entries cap" and "iv ix" and "entries ix = []"
    and "bs_reachable I policy (new_store cap bsize ix d) (st, gs)"
  shows "store_ok iv entries cap {} {} {#} gs st"
  using block_index.store_reachable_ok [OF assms(1,4,2,3)] by simp


text \<open>
  C40: no call on the store panics: not on a slot in an unexpected state, not on the index, not on
  the collision assertion of a registration, in any reachable state, when the caller holds the
  guard or the reference that the call consumes.
\<close>

theorem store_never_panics:
  assumes "block_index I iv entries cap" and "iv ix" and "entries ix = []"
    and "bs_reachable I policy (new_store cap bsize ix d) (st, gs)"
  shows "allocate_atomic I n st \<noteq> None \<and> allocate_reset_blocks n st \<noteq> None \<and>
    evict_inactive I st \<noteq> None \<and> reset_inactive_pool I st \<noteq> None \<and>
    match_prefix_locked_batch I hs st \<noteq> None \<and> scan_inactive_primaries I hs st \<noteq> None \<and>
    weak_upgrade I a h st \<noteq> None \<and>
    (GMutable b \<in> set gs \<longrightarrow> release_mutable b st \<noteq> None \<and> stage b h sz st \<noteq> None) \<and>
    (GComplete b h \<in> set gs \<longrightarrow> transition_back_to_mutable b st \<noteq> None \<and> release_staged b st \<noteq> None \<and>
       register_completed_block I policy b h st \<noteq> None) \<and>
    (bs_arcs st a = Some i \<longrightarrow> store_reset_on_release (in_block i) v st \<noteq> None \<and>
       set_primary_reset_on_release a v st \<noteq> None \<and> (in_strong i = 0 \<longrightarrow> inner_drop I a st \<noteq> None))"
proof (intro conjI impI)
  note L = assms(1) and ok = world_ok [OF assms]
  show "allocate_atomic I n st \<noteq> None"
    using block_index.allocate_atomic_ok [OF L ok, of n] block_index.allocate_atomic_refused [OF L ok, of n]
    by (cases "n \<le> length (bs_free st) + length (entries (bs_inactive st))") auto
  show "allocate_reset_blocks n st \<noteq> None" using block_index.allocate_reset_ok [OF L ok, of n] by auto
  show "evict_inactive I st \<noteq> None" "reset_inactive_pool I st \<noteq> None"
    using block_index.evict_inactive_ok [OF L ok] by (auto simp: reset_inactive_pool_def Let_def)
  show "match_prefix_locked_batch I hs st \<noteq> None" using block_index.match_prefix_ok [OF L ok] by fastforce
  show "scan_inactive_primaries I hs st \<noteq> None" using block_index.scan_inactive_ok [OF L ok] by fastforce
  show "weak_upgrade I a h st \<noteq> None" using block_index.weak_upgrade_ok [OF L ok] by fastforce
  show "release_mutable b st \<noteq> None" "stage b h sz st \<noteq> None" if "GMutable b \<in> set gs"
    using block_index.release_mutable_ok [OF L ok that] block_index.transition_to_staged_ok [OF L ok that, of h]
    by (auto simp: stage_def)
  show "transition_back_to_mutable b st \<noteq> None" "release_staged b st \<noteq> None"
      "register_completed_block I policy b h st \<noteq> None" if "GComplete b h \<in> set gs"
    using block_index.transition_back_ok [OF L ok that] block_index.release_staged_ok [OF L ok that]
      block_index.register_block_ok [OF L ok that, of policy] by auto
  show "store_reset_on_release (in_block i) v st \<noteq> None" "set_primary_reset_on_release a v st \<noteq> None"
    if "bs_arcs st a = Some i" using block_index.override_total [OF L ok that] by auto
  show "inner_drop I a st \<noteq> None" if "bs_arcs st a = Some i" "in_strong i = 0"
    using block_index.inner_drop_ok [OF L ok that] by auto
qed

text \<open>
  A hash is never lost between the pools. A lookup finds a hash exactly when a slot holds it
  as primary or inactive, even while the last holder of the primary is being dropped, and hands
  out a counted reference to a live primary on that very block.
\<close>

theorem lookup_finds_cached:
  assumes "block_index I iv entries cap" and "iv ix" and "entries ix = []"
    and "bs_reachable I policy (new_store cap bsize ix d) (st, gs)"
  shows "((\<exists>a st'. acquire_for_hash I h st = Some (Some a, st') \<and> handed st' h b a) \<longleftrightarrow> cached st h b) \<and>
    ((\<exists>st'. acquire_for_hash I h st = Some (None, st')) \<longleftrightarrow> (\<forall>b. \<not> cached st h b))"
proof -
  note L = assms(1) and ok = world_ok [OF assms]
  obtain r st' where r: "acquire_for_hash I h st = Some (r, st')"
      "case r of None \<Rightarrow> (\<forall>b. \<not> cached st h b) \<and> bs_active st' h = None \<and> (\<forall>b. (h, b) \<notin> set (entries (bs_inactive st')))
       | Some a \<Rightarrow> \<exists>b. cached st h b \<and> handed st' h b a"
    using block_index.acquire_ok [OF L ok, of h] by blast
  show ?thesis
  proof (cases r)
    case (Some a)
    then obtain c where c: "cached st h c" "handed st' h c a"
      using r(2) by auto
    have "handed st' h b a \<longleftrightarrow> b = c"
      using c(2) by (auto simp: handed_def)
    moreover have "cached st h b \<longleftrightarrow> b = c"
      using block_index.cached_unique [OF L ok c(1)] c(1) by blast
    ultimately show ?thesis
      using r(1) Some c(1) by auto
  qed (use r in auto)
qed

text \<open>
  An allocation is all or nothing. It is refused exactly when the free list and the inactive
  index together are too small, and then changes nothing; otherwise it gives the oldest free
  blocks first and then the next blocks in eviction order, reports exactly the evicted hashes,
  and hands each block out under a guard of its own.
\<close>

theorem allocation_all_or_nothing:
  assumes "block_index I iv entries cap" and "iv ix" and "entries ix = []"
    and "bs_reachable I policy (new_store cap bsize ix d) (st, gs)"
  shows "if n \<le> available_len I st then
      \<exists>st'. allocate_atomic I n st = Some (Some (take n (bs_free st) @
          map snd (take (n - length (bs_free st)) (entries (bs_inactive st))),
          map fst (take (n - length (bs_free st)) (entries (bs_inactive st)))), st') \<and>
        distinct (take n (bs_free st) @ map snd (take (n - length (bs_free st)) (entries (bs_inactive st))))
      else allocate_atomic I n st = Some (None, st)"
proof -
  note L = assms(1) and ok = world_ok [OF assms]
  let ?ids = "take n (bs_free st) @ map snd (take (n - length (bs_free st)) (entries (bs_inactive st)))"
  have avail: "available_len I st = length (bs_free st) + length (entries (bs_inactive st))"
    using block_index.len [OF L store_okD(5) [OF ok]] by (simp add: available_len_def)
  have "distinct ?ids" if "store_ok iv entries cap {} {} {#} (map GMutable ?ids @ gs) st'" for st'
  proof -
    have "distinct (map GMutable ?ids)"
      using store_okD(4) [OF that] unfolding distinct_append by blast
    thus ?thesis
      using distinct_map by blast
  qed
  thus ?thesis
    using avail block_index.allocate_atomic_ok [OF L ok, of n] block_index.allocate_atomic_refused [OF L ok, of n]
    by (cases "n \<le> available_len I st") force+
qed

text \<open>
  A duplicate pins its primary. As long as a slot is a duplicate of a hash, another slot is
  its primary with a positive reference count, so it is neither inactive nor evictable.
\<close>

theorem duplicate_pins_primary:
  assumes "block_index I iv entries cap" and "iv ix" and "entries ix = []"
    and "bs_reachable I policy (new_store cap bsize ix d) (st, gs)"
    and "slot_at st b = Some (Duplicate h a)"
  shows "\<exists>c p i. c \<noteq> b \<and> slot_at st c = Some (Primary h p) \<and> bs_arcs st p = Some i \<and> 0 < in_strong i"
proof -
  note A = store_okD(8) [OF world_ok [OF assms(1-4)]]
  obtain i where i: "bs_arcs st a = Some i" "in_block i = b" "in_hash i = h" "\<not> in_primary i"
    using arcs_okD(3) [OF A assms(5)] by blast
  obtain p j where p: "in_keep i = Some p" "bs_arcs st p = Some j" "in_primary j" "in_hash j = h"
    using arcs_okD(6) [OF A i(1,4)] i(3) by blast
  have "0 < in_strong j"
    using keepers_pos [OF i(1) p(1) arcs_okD(8) [OF A]] arcs_okD(7) [OF A p(2)] by simp
  moreover from this have "slot_at st (in_block j) = Some (Primary h p)"
    using arcs_okD(5) [OF A p(2,3)] p(4) by simp
  ultimately show ?thesis
    using p(2) assms(5) by (intro exI [of _ "in_block j"] exI [of _ p] exI [of _ j]) auto
qed

section \<open>The LRU backend in the store\<close>

text \<open>The builder gives the cache the capacity of the store, so an insert finds room.\<close>

definition lru_index :: "'c lru_cache \<Rightarrow> 'c index" where
  "lru_index C = \<lparr>ix_find = lru_find_match C, ix_scan = lru_scan_matches C, ix_allocate = lru_allocate C,
     ix_insert = lru_insert C, ix_len = lc_len C, ix_allocate_all = lru_allocate_all C\<rparr>"

lemma lru_sized_index:
  assumes "lru_cache_ok C valid order"
  shows "inactive_index (\<lambda>c. valid c \<and> lc_cap C c = n) order (lc_pop C) (lc_pop_lru C) (lru_insert C)
    (lru_can_insert C order) (lc_peek C) (lc_len C)"
proof
  fix c h b r c' x
  assume c: "valid c \<and> lc_cap C c = n"
  note ok = lru_cache_okD [OF assms conjunct1 [OF c]]
  show "distinct (map fst (order c))" "lc_peek C h c = map_of (order c) h" "lc_len C c = length (order c)"
    by (fact ok)+
  show "lc_pop C h c = (r, c') \<Longrightarrow>
      r = map_of (order c) h \<and> (valid c' \<and> lc_cap C c' = n) \<and> order c' = without_key h (order c)"
    using ok(4) c by simp
  show "lc_pop_lru C c = (x, c') \<Longrightarrow> (valid c' \<and> lc_cap C c' = n) \<and>
      (case order c of [] \<Rightarrow> x = None \<and> order c' = [] | e # es \<Rightarrow> x = Some e \<and> order c' = es)"
    using ok(5) c by simp
  show "lru_can_insert C order h b c \<Longrightarrow>
      \<exists>c'. lru_insert C h b c = Some c' \<and> (valid c' \<and> lc_cap C c' = n) \<and> mset (order c') = add_mset (h, b) (mset (order c))"
    using ok(2,6,7,8) c by (auto simp: lru_insert_def lru_can_insert_def lru_put_spec_def without_key_absent)
qed

lemma lru_block_index:
  assumes "lru_cache_ok C valid order"
  shows "block_index (lru_index C) (\<lambda>c. valid c \<and> lc_cap C c = n) order n"
proof
  note X = lru_sized_index [OF assms, of n]
  fix c h b r c' x hs ms k
  assume c: "valid c \<and> lc_cap C c = n"
  show "distinct (map fst (order c))"
    by (rule inactive_index.keys_distinct [OF X c])
  show "ix_find (lru_index C) h c = (r, c') \<Longrightarrow>
      (valid c' \<and> lc_cap C c' = n) \<and> order c' = without_key h (order c) \<and> r = map_option (Pair h) (map_of (order c) h)"
    using inactive_index.pop_entries [OF X c, of h]
    by (cases "lc_pop C h c") (auto simp: lru_index_def lru_find_match_def)
  show "ix_scan (lru_index C) hs c = (ms, c') \<Longrightarrow>
      (valid c' \<and> lc_cap C c' = n) \<and> mset (order c) = mset ms + mset (order c')"
    using inactive_index.pop_scan_ok [OF X c, of hs ms c'] by (simp add: lru_index_def lru_scan_matches_def)
  show "ix_allocate (lru_index C) k c = (ms, c') \<Longrightarrow>
      (valid c' \<and> lc_cap C c' = n) \<and> ms = take k (order c) \<and> order c' = drop k (order c)"
    using inactive_index.evict_many_ok [OF X c, of k ms c'] by (simp add: lru_index_def lru_allocate_def)
  show "ix_len (lru_index C) c = length (order c)"
    using inactive_index.len_entries [OF X c] by (simp add: lru_index_def)
  show "h \<notin> fst ` set (order c) \<Longrightarrow> b \<notin> snd ` set (order c) \<Longrightarrow> length (order c) < n \<Longrightarrow>
      \<exists>c'. ix_insert (lru_index C) h b c = Some c' \<and> (valid c' \<and> lc_cap C c' = n) \<and> mset (order c') = add_mset (h, b) (mset (order c))"
    using inactive_index.put_entries [OF X c, of h b] inactive_index.len_entries [OF X c] c
    by (simp add: lru_index_def lru_can_insert_def)
  show "\<exists>c'. ix_allocate_all (lru_index C) c = Some (order c, c') \<and> (valid c' \<and> lc_cap C c' = n) \<and> order c' = []"
    using inactive_index.drain_ok [OF X c] by (simp add: lru_index_def lru_allocate_all_def)
qed

interpretation lru_store: block_index "lru_index list_lru" "\<lambda>c. (case c of (m, es) \<Rightarrow> distinct (map fst es)) \<and> lc_cap list_lru c = n"
  snd n for n
  by (rule lru_block_index [OF list_lru_ok])

section \<open>An instance\<close>

text \<open>
  Two blocks: both are allocated and registered under one hash, so the second is a duplicate.
\<close>

definition demo_new :: "(usize \<times> entry list) block_store" where
  "demo_new = new_store 2 16 (2, []) False"

definition demo_allocated :: "(usize \<times> entry list) block_store" where
  "demo_allocated = \<lparr>bs_slots = [Mutable, Mutable], bs_free = [], bs_inactive = (2, []), bs_active = Map.empty,
     bs_ror = [False, False], bs_default = False, bs_block_size = 16, bs_arcs = Map.empty, bs_next = 0,
     bs_presence = (\<lambda>_. 0)\<rparr>"

definition demo_primary :: "(usize \<times> entry list) block_store" where
  "demo_primary = \<lparr>bs_slots = [Primary 7 0, Mutable], bs_free = [], bs_inactive = (2, []), bs_active = [7 \<mapsto> 0],
     bs_ror = [False, False], bs_default = False, bs_block_size = 16,
     bs_arcs = [0 \<mapsto> \<lparr>in_block = 0, in_hash = 7, in_primary = True, in_keep = None, in_strong = 1\<rparr>], bs_next = 1,
     bs_presence = (\<lambda>_. 0)(7 := 1)\<rparr>"

definition demo_duplicate :: "(usize \<times> entry list) block_store" where
  "demo_duplicate = \<lparr>bs_slots = [Primary 7 0, Duplicate 7 1], bs_free = [], bs_inactive = (2, []), bs_active = [7 \<mapsto> 0],
     bs_ror = [False, False], bs_default = False, bs_block_size = 16,
     bs_arcs = [0 \<mapsto> \<lparr>in_block = 0, in_hash = 7, in_primary = True, in_keep = None, in_strong = 2\<rparr>,
       1 \<mapsto> \<lparr>in_block = 1, in_hash = 7, in_primary = False, in_keep = Some 0, in_strong = 1\<rparr>], bs_next = 2,
     bs_presence = (\<lambda>_. 0)(7 := 2)\<rparr>"

lemmas demo_defs = demo_new_def demo_allocated_def demo_primary_def demo_duplicate_def new_store_def lru_index_def list_lru_def
  allocate_atomic_def open_slot_def put_slot_def store_reset_on_release_def stage_def transition_to_staged_def
  register_completed_block_def acquire_for_hash_def resurrect_def lru_find_match_def without_key_def install_primary_def
  install_duplicate_def mark_present_def slot_at_def arc_upgrade_def

abbreviation demo_index :: "(usize \<times> entry list) index" where
  "demo_index \<equiv> lru_index list_lru"

lemma demo_allocate: "allocate_atomic demo_index 2 demo_new = Some (Some ([0, 1], []), demo_allocated)"
  by (simp add: demo_defs upt_rec numeral_2_eq_2)

lemma demo_register:
  "register_completed_block demo_index Allow 0 7 (demo_allocated\<lparr>bs_slots := [Staged 7, Mutable]\<rparr>) = Some (0, demo_primary)"
  "register_completed_block demo_index Allow 1 7 (demo_primary\<lparr>bs_slots := [Primary 7 0, Staged 7]\<rparr>) = Some (1, demo_duplicate)"
  by (simp_all add: demo_defs fun_eq_iff)

lemma demo_stage:
  "stage 0 7 16 demo_allocated = Some (Inr (demo_allocated\<lparr>bs_slots := [Staged 7, Mutable]\<rparr>))"
  "stage 1 7 16 demo_primary = Some (Inr (demo_primary\<lparr>bs_slots := [Primary 7 0, Staged 7]\<rparr>))"
  by (simp_all add: demo_defs)

lemma demo_store_reachable:
  "bs_reachable demo_index Allow demo_new (demo_new, [])"
  "bs_reachable demo_index Allow demo_new (demo_allocated, [GMutable 0, GMutable 1])"
  "bs_reachable demo_index Allow demo_new (demo_duplicate, [])"
proof -
  let ?R = "bs_reachable demo_index Allow demo_new"
  show r0: "?R (demo_new, [])" by (rule bs_reachable.start)
  show r1: "?R (demo_allocated, [GMutable 0, GMutable 1])"
    using bs_reachable.step [OF r0 bs_step.allocate [OF demo_allocate]] by simp
  have "?R (demo_allocated\<lparr>bs_slots := [Staged 7, Mutable]\<rparr>, [GComplete 0 7, GMutable 1])"
    using bs_reachable.step [OF r1 bs_step.stage [OF _ demo_stage(1)]] by simp
  from bs_reachable.step [OF this bs_step.register [OF _ demo_register(1)]]
  have r2: "?R (demo_primary, [GMutable 1])" by simp
  have "?R (demo_primary\<lparr>bs_slots := [Primary 7 0, Staged 7]\<rparr>, [GComplete 1 7])"
    using bs_reachable.step [OF r2 bs_step.stage [OF _ demo_stage(2)]] by simp
  from bs_reachable.step [OF this bs_step.register [OF _ demo_register(2)]]
  show "?R (demo_duplicate, [])" by simp
qed

definition demo_iv :: "usize \<times> entry list \<Rightarrow> bool" where
  "demo_iv c \<longleftrightarrow> (case c of (m, es) \<Rightarrow> distinct (map fst es)) \<and> lc_cap list_lru c = 2"

lemma demo_hyps: "block_index demo_index demo_iv snd 2" "demo_iv (2, [])" "snd (2 :: usize, [] :: entry list) = []"
  using lru_store.block_index_axioms [of 2] by (simp_all add: demo_iv_def [abs_def] list_lru_def)

lemmas demo_worlds = demo_store_reachable [unfolded demo_new_def]


text \<open>Witness of C40.\<close>

theorem store_never_panics_witness:
  "GMutable 1 \<in> set [GMutable 0, GMutable 1] \<and> release_mutable 1 demo_allocated \<noteq> None \<and>
   evict_inactive demo_index demo_allocated \<noteq> None"
  using store_never_panics [OF demo_hyps demo_worlds(2), where b = 1] by simp

text \<open>A concrete lookup.\<close>

theorem lookup_finds_cached_witness:
  "cached demo_duplicate 7 0 \<and>
   (\<exists>a st'. acquire_for_hash demo_index 7 demo_duplicate = Some (Some a, st') \<and> handed st' 7 0 a)"
proof -
  have "cached demo_duplicate 7 0"
    by (simp add: cached_def slot_at_def demo_duplicate_def)
  thus ?thesis
    using lookup_finds_cached [OF demo_hyps demo_worlds(3), of 7 0] by blast
qed

text \<open>On a store of four blocks.\<close>

theorem allocation_all_or_nothing_witness:
  "1 \<le> available_len demo_index demo_new \<and> (\<exists>st'. allocate_atomic demo_index 1 demo_new = Some (Some ([0], []), st'))"
proof -
  have "available_len demo_index demo_new = 2" "bs_free demo_new = [0, 1]"
    by (simp_all add: available_len_def demo_defs upt_rec numeral_2_eq_2)
  thus ?thesis
    using allocation_all_or_nothing [OF demo_hyps demo_worlds(1), of 1]
    by (auto simp flip: demo_new_def)
qed

text \<open>An instance.\<close>

theorem duplicate_pins_primary_witness:
  "\<exists>c p i. c \<noteq> 1 \<and> slot_at demo_duplicate c = Some (Primary 7 p) \<and> bs_arcs demo_duplicate p = Some i \<and> 0 < in_strong i"
proof -
  have "slot_at demo_duplicate 1 = Some (Duplicate 7 1)"
    by (simp add: slot_at_def demo_duplicate_def)
  thus ?thesis
    by (rule duplicate_pins_primary [OF demo_hyps demo_worlds(3)])
qed

end
