(* ===== verification/Sequence_Blocks.thy ===== *)
theory Sequence_Blocks
  imports Block_Lifecycle
begin

text \<open>
  The blocks one token sequence holds: the three ordered collections of
  \<open>kvbm/kvbm-logical/src/sequence/store.rs\<close> and the guard-level operations of
  \<open>sequence/assignments/logical.rs\<close> over the block store, with the drops of the guards.

  An \<open>IndexMap\<close> is its list of entries in order. A \<open>MutableBlock\<close> is its block id, a
  \<open>CompleteBlock\<close> its block id and hash, an \<open>ImmutableBlock\<close> the address of the arc it holds a
  reference to. Token blocks come from the crate \<open>dynamo_tokens\<close>; of them the code reads the
  accessors in \<open>token_block\<close>. As before \<open>None\<close> is a panic.
\<close>

section \<open>The three collections\<close>

type_synonym 'v index_map = "(block_id \<times> 'v) list"

fun im_insert :: "block_id \<Rightarrow> 'v \<Rightarrow> 'v index_map \<Rightarrow> 'v index_map" where
  "im_insert b v [] = [(b, v)]"
| "im_insert b v ((c, w) # m) = (if b = c then (b, v) # m else (c, w) # im_insert b v m)"

definition im_contains :: "block_id \<Rightarrow> 'v index_map \<Rightarrow> bool" where
  "im_contains b m \<longleftrightarrow> b \<in> set (map fst m)"

record ('u, 's, 'a) seq_store =
  sq_assigned :: "'a index_map"
  sq_staged :: "'s index_map"
  sq_unassigned :: "'u index_map"

definition new_seq_store :: "('u, 's, 'a) seq_store" where
  "new_seq_store = \<lparr>sq_assigned = [], sq_staged = [], sq_unassigned = []\<rparr>"

definition sq_is_empty :: "('u, 's, 'a) seq_store \<Rightarrow> bool" where
  "sq_is_empty q \<longleftrightarrow> sq_assigned q = [] \<and> sq_staged q = [] \<and> sq_unassigned q = []"

definition sq_contains :: "block_id \<Rightarrow> ('u, 's, 'a) seq_store \<Rightarrow> bool" where
  "sq_contains b q \<longleftrightarrow> im_contains b (sq_assigned q) \<or> im_contains b (sq_staged q) \<or> im_contains b (sq_unassigned q)"

definition shift_unassigned :: "('u, 's, 'a) seq_store \<Rightarrow> (block_id \<times> 'u) option \<times> ('u, 's, 'a) seq_store" where
  "shift_unassigned q = (case sq_unassigned q of [] \<Rightarrow> (None, q) | e # es \<Rightarrow> (Some e, q\<lparr>sq_unassigned := es\<rparr>))"

definition shift_staged :: "('u, 's, 'a) seq_store \<Rightarrow> (block_id \<times> 's) option \<times> ('u, 's, 'a) seq_store" where
  "shift_staged q = (case sq_staged q of [] \<Rightarrow> (None, q) | e # es \<Rightarrow> (Some e, q\<lparr>sq_staged := es\<rparr>))"

definition pop_unassigned :: "('u, 's, 'a) seq_store \<Rightarrow> (block_id \<times> 'u) option \<times> ('u, 's, 'a) seq_store" where
  "pop_unassigned q =
     (if sq_unassigned q = [] then (None, q)
      else (Some (last (sq_unassigned q)), q\<lparr>sq_unassigned := butlast (sq_unassigned q)\<rparr>))"

definition insert_assigned :: "block_id \<Rightarrow> 'a \<Rightarrow> ('u, 's, 'a) seq_store \<Rightarrow> ('u, 's, 'a) seq_store" where
  "insert_assigned b v q = q\<lparr>sq_assigned := im_insert b v (sq_assigned q)\<rparr>"

definition insert_staged :: "block_id \<Rightarrow> 's \<Rightarrow> ('u, 's, 'a) seq_store \<Rightarrow> ('u, 's, 'a) seq_store" where
  "insert_staged b v q = q\<lparr>sq_staged := im_insert b v (sq_staged q)\<rparr>"

definition insert_unassigned :: "block_id \<Rightarrow> 'u \<Rightarrow> ('u, 's, 'a) seq_store \<Rightarrow> ('u, 's, 'a) seq_store" where
  "insert_unassigned b v q = q\<lparr>sq_unassigned := im_insert b v (sq_unassigned q)\<rparr>"

definition all_block_ids :: "('u, 's, 'a) seq_store \<Rightarrow> block_id list" where
  "all_block_ids q = map fst (sq_assigned q) @ map fst (sq_staged q) @ map fst (sq_unassigned q)"

text \<open>The answer is the first duplicate.\<close>

fun first_duplicate :: "('u, 's, 'a) seq_store \<Rightarrow> block_id list \<Rightarrow> block_id list \<Rightarrow> block_id option" where
  "first_duplicate q seen [] = None"
| "first_duplicate q seen (b # ids) =
     (if sq_contains b q \<or> b \<in> set seen then Some b else first_duplicate q (b # seen) ids)"

definition validate_no_duplicates :: "('u, 's, 'a) seq_store \<Rightarrow> block_id list \<Rightarrow> block_id option" where
  "validate_no_duplicates q ids = first_duplicate q [] ids"

section \<open>Dropping guards\<close>

type_synonym mutable_block = block_id
type_synonym complete_block = "block_id \<times> seq_hash"
type_synonym immutable_block = arc_addr

type_synonym assignments = "(mutable_block, complete_block, immutable_block) seq_store"

text \<open>
  One reference ends; at zero \<open>Inner::drop\<close> runs, and the reference a duplicate kept on its
  primary is the next to end.
\<close>

definition drop_ref :: "'i index \<Rightarrow> arc_addr \<Rightarrow> 'i block_store \<Rightarrow> (arc_addr option \<times> 'i block_store) option" where
  "drop_ref I a st = do {
     st1 \<leftarrow> arc_drop a st;
     i \<leftarrow> bs_arcs st1 a;
     if in_strong i = 0 then do { st2 \<leftarrow> inner_drop I a st1; Some (in_keep i, st2) }
     else Some (None, st1) }"

definition drop_immutable :: "'i index \<Rightarrow> immutable_block \<Rightarrow> 'i block_store \<Rightarrow> 'i block_store option" where
  "drop_immutable I a st = do {
     (kept, st1) \<leftarrow> drop_ref I a st;
     (case kept of None \<Rightarrow> Some st1 | Some p \<Rightarrow> do { (_, st2) \<leftarrow> drop_ref I p st1; Some st2 }) }"

fun drop_immutables :: "'i index \<Rightarrow> immutable_block list \<Rightarrow> 'i block_store \<Rightarrow> 'i block_store option" where
  "drop_immutables I [] st = Some st"
| "drop_immutables I (a # as) st = do { st1 \<leftarrow> drop_immutable I a st; drop_immutables I as st1 }"

fun drop_completes :: "complete_block list \<Rightarrow> 'i block_store \<Rightarrow> 'i block_store option" where
  "drop_completes [] st = Some st"
| "drop_completes ((b, h) # cs) st = do { st1 \<leftarrow> release_staged b st; drop_completes cs st1 }"

section \<open>Guard-level assignments\<close>

record token_block =
  tb_kvbm_sequence_hash :: seq_hash
  tb_block_size :: usize
  tb_sequence_hash :: u64
  tb_block_hash :: u64
  tb_parent_sequence_hash :: "u64 option"

datatype assignment_error =
    DuplicateBlockId block_id "mutable_block list"
  | DuplicateAssignedBlockId block_id "immutable_block list"
  | SequenceHashMismatch usize seq_hash seq_hash "immutable_block list"

definition extend_blocks :: "mutable_block list \<Rightarrow> assignments \<Rightarrow> assignment_error + usize \<times> assignments" where
  "extend_blocks blocks q =
     (case validate_no_duplicates q blocks of
        Some b \<Rightarrow> Inl (DuplicateBlockId b blocks)
      | None \<Rightarrow> Inr (length blocks, fold (\<lambda>b. insert_unassigned b b) blocks q))"

definition block_ids_of :: "'i block_store \<Rightarrow> immutable_block list \<Rightarrow> block_id list option" where
  "block_ids_of st blocks = those (map (\<lambda>a. map_option in_block (bs_arcs st a)) blocks)"

definition extend_assigned ::
  "'i block_store \<Rightarrow> immutable_block list \<Rightarrow> assignments \<Rightarrow> (assignment_error + usize \<times> assignments) option" where
  "extend_assigned st blocks q = do {
     ids \<leftarrow> block_ids_of st blocks;
     Some (case validate_no_duplicates q ids of
        Some b \<Rightarrow> Inl (DuplicateAssignedBlockId b blocks)
      | None \<Rightarrow> Inr (length blocks, fold (\<lambda>(b, a). insert_assigned b a) (zip ids blocks) q)) }"

definition complete_block :: "mutable_block \<Rightarrow> token_block \<Rightarrow> 'i block_store \<Rightarrow> (stage_error + 'i block_store) option" where
  "complete_block b tb st =
     (if tb_block_size tb \<noteq> bs_block_size st then Some (Inl (BlockSizeMismatch (bs_block_size st) (tb_block_size tb)))
      else stage b (tb_kvbm_sequence_hash tb) (tb_block_size tb) st)"

text \<open>The failed block leaves the collections with the error.\<close>

fun stage_loop ::
  "token_block list \<Rightarrow> assignments \<Rightarrow> 'i block_store \<Rightarrow> ((stage_error \<times> mutable_block) option \<times> assignments \<times> 'i block_store) option" where
  "stage_loop [] q st = Some (None, q, st)"
| "stage_loop (tb # tbs) q st =
     (case shift_unassigned q of
        (None, _) \<Rightarrow> None
      | (Some (b, m), q1) \<Rightarrow> do {
          r \<leftarrow> complete_block m tb st;
          (case r of
             Inl e \<Rightarrow> Some (Some (e, m), q1, st)
           | Inr st1 \<Rightarrow> stage_loop tbs (insert_staged b (m, tb_kvbm_sequence_hash tb) q1) st1) })"

definition stage_blocks ::
  "token_block list \<Rightarrow> assignments \<Rightarrow> 'i block_store \<Rightarrow> (((stage_error \<times> mutable_block) + usize) \<times> assignments \<times> 'i block_store) option" where
  "stage_blocks tbs q st = do {
     let to_stage = min (length tbs) (length (sq_unassigned q));
     (e, q1, st1) \<leftarrow> stage_loop (take to_stage tbs) q st;
     Some ((case e of None \<Rightarrow> Inr to_stage | Some f \<Rightarrow> Inl f), q1, st1) }"

function register_loop ::
  "'i index \<Rightarrow> duplication_policy \<Rightarrow> assignments \<Rightarrow> 'i block_store \<Rightarrow> (assignments \<times> 'i block_store) option" where
  "register_loop I policy q st =
     (case shift_staged q of
        (None, q1) \<Rightarrow> Some (q1, st)
      | (Some (b, (m, h)), q1) \<Rightarrow> do {
          (a, st1) \<leftarrow> register_completed_block I policy m h st;
          register_loop I policy (insert_assigned b a q1) st1 })"
  by pat_completeness auto
termination
  by (relation "measure (\<lambda>(I, policy, q, st). length (sq_staged q))")
    (auto simp: shift_staged_def insert_assigned_def split: list.splits)

declare register_loop.simps [simp del]

definition register_blocks ::
  "'i index \<Rightarrow> duplication_policy \<Rightarrow> assignments \<Rightarrow> 'i block_store \<Rightarrow> (usize \<times> assignments \<times> 'i block_store) option" where
  "register_blocks I policy q st = do {
     (q1, st1) \<leftarrow> register_loop I policy q st;
     Some (length (sq_staged q), q1, st1) }"

definition clear_assignments :: "'i index \<Rightarrow> assignments \<Rightarrow> 'i block_store \<Rightarrow> (assignments \<times> 'i block_store) option" where
  "clear_assignments I q st = do {
     st1 \<leftarrow> drop_immutables I (map snd (sq_assigned q)) st;
     st2 \<leftarrow> drop_completes (map snd (sq_staged q)) st1;
     st3 \<leftarrow> release_mutables (map snd (sq_unassigned q)) st2;
     Some (new_seq_store, st3) }"

end
