(* ===== verification/Block_References.thy ===== *)
theory Block_References
  imports Sequence_Blocks
begin

text \<open>
  References to registered blocks: what each operation of the store does to the strong counts,
  and the contract a client relies on that holds guards and references of its own.
\<close>

section \<open>Which operations touch the arcs\<close>

definition unmoved :: "'i block_store \<Rightarrow> 'i block_store \<Rightarrow> bool" where
  "unmoved st st' \<longleftrightarrow> bs_arcs st' = bs_arcs st \<and> bs_block_size st' = bs_block_size st"

lemma unmoved_refl [simp]: "unmoved st st"
  by (simp add: unmoved_def)

lemma unmoved_trans: "unmoved st st1 \<Longrightarrow> unmoved st1 st2 \<Longrightarrow> unmoved st st2"
  by (simp add: unmoved_def)

lemma put_slot_unmoved: "put_slot b s st = Some st' \<Longrightarrow> unmoved st st'"
  by (auto simp: put_slot_def unmoved_def split: if_splits)

lemma open_slot_unmoved: "open_slot b st = Some st' \<Longrightarrow> unmoved st st'"
  by (auto simp: open_slot_def put_slot_def store_reset_on_release_def unmoved_def bind_eq_Some_conv split: if_splits)

lemma open_slots_unmoved: "open_slots bs st = Some st' \<Longrightarrow> unmoved st st'"
  by (induction bs arbitrary: st) (auto simp: bind_eq_Some_conv dest: open_slot_unmoved intro: unmoved_trans)

lemma evict_slots_unmoved: "evict_slots es st = Some (ks, st') \<Longrightarrow> unmoved st st'"
  by (induction es st arbitrary: ks st' rule: evict_slots.induct)
    (auto simp: bind_eq_Some_conv dest: open_slot_unmoved intro: unmoved_trans)

lemma marks_unmoved [simp]:
  "bs_arcs (fold mark_absent hs st) = bs_arcs st" "bs_block_size (fold mark_absent hs st) = bs_block_size st"
  by (induction hs arbitrary: st) (simp_all add: mark_absent_def)

lemma allocate_unmoved: "allocate_atomic I n st = Some (r, st') \<Longrightarrow> unmoved st st'"
  unfolding allocate_atomic_def Let_def
  by (auto simp: bind_eq_Some_conv unmoved_def split: if_splits prod.splits dest!: open_slots_unmoved evict_slots_unmoved)

lemma release_unmoved:
  "release_mutable b st = Some st' \<Longrightarrow> unmoved st st'"
  "release_staged b st = Some st' \<Longrightarrow> unmoved st st'"
  "reset_slot_locked b st = Some st' \<Longrightarrow> unmoved st st'"
  by (auto simp: release_mutable_def release_staged_def reset_slot_locked_def bind_eq_Some_conv put_slot_def unmoved_def split: if_splits)

lemma release_mutables_unmoved: "release_mutables bs st = Some st' \<Longrightarrow> unmoved st st'"
  by (induction bs arbitrary: st) (auto simp: bind_eq_Some_conv dest: release_unmoved intro: unmoved_trans)

lemma transition_unmoved: "transition_to_staged b h st = Some st' \<Longrightarrow> unmoved st st'"
  by (simp add: transition_to_staged_def put_slot_unmoved)

lemma stage_unmoved: "stage b h n st = Some (Inr st') \<Longrightarrow> unmoved st st'"
  by (auto simp: stage_def transition_unmoved split: if_splits)

lemma inner_drop_arcs:
  assumes "inner_drop I a st = Some st'"
  shows "bs_arcs st' = (bs_arcs st)(a := None)" and "bs_block_size st' = bs_block_size st"
proof -
  obtain i st1 where i: "bs_arcs st a = Some i" and st1: "st' = st1\<lparr>bs_arcs := (bs_arcs st1)(a := None)\<rparr>"
      "(if in_primary i then release_primary I (in_block i) a st else release_duplicate (in_block i) a st) = Some st1"
    using assms by (auto simp: inner_drop_def bind_eq_Some_conv)
  have "unmoved st st1"
    using st1(2) by (auto simp: release_primary_def release_duplicate_def bind_eq_Some_conv mark_absent_def unmoved_def
        split: if_splits option.splits slot.splits dest!: put_slot_unmoved release_unmoved(3))
  thus "bs_arcs st' = (bs_arcs st)(a := None)" "bs_block_size st' = bs_block_size st"
    by (simp_all add: st1 unmoved_def)
qed

text \<open>A lookup that hits takes one more reference on a live arc or makes a fresh one.\<close>

definition taken :: "(arc_addr \<rightharpoonup> inner) \<Rightarrow> arc_addr \<Rightarrow> seq_hash \<Rightarrow> (arc_addr \<rightharpoonup> inner) \<Rightarrow> bool" where
  "taken arcs a h arcs' \<longleftrightarrow>
     (\<exists>i. arcs a = Some i \<and> arcs' = arcs(a \<mapsto> i\<lparr>in_strong := in_strong i + 1\<rparr>)) \<or>
     (\<exists>b. arcs a = None \<and> arcs' = arcs(a \<mapsto> \<lparr>in_block = b, in_hash = h, in_primary = True, in_keep = None, in_strong = 1\<rparr>))"

lemma install_primary_arcs: "install_primary b h st = Some (a, st') \<Longrightarrow> a = bs_next st \<and> bs_block_size st' = bs_block_size st \<and>
    bs_arcs st' = (bs_arcs st)(a \<mapsto> \<lparr>in_block = b, in_hash = h, in_primary = True, in_keep = None, in_strong = 1\<rparr>)"
  by (auto simp: install_primary_def Let_def bind_eq_Some_conv put_slot_def split: if_splits)

lemma resurrect_arcs:
  assumes "resurrect I h st = Some (r, st')" and "bs_arcs st (bs_next st) = None"
  shows "(case r of None \<Rightarrow> unmoved st st' | Some a \<Rightarrow> taken (bs_arcs st) a h (bs_arcs st') \<and> bs_block_size st' = bs_block_size st)"
  using assms by (auto simp: resurrect_def bind_eq_Some_conv unmoved_def taken_def split: prod.splits option.splits dest!: install_primary_arcs)

lemma acquire_arcs:
  assumes "acquire_for_hash I h st = Some (r, st')" and "bs_arcs st (bs_next st) = None"
  shows "(case r of None \<Rightarrow> unmoved st st' | Some a \<Rightarrow> taken (bs_arcs st) a h (bs_arcs st') \<and> bs_block_size st' = bs_block_size st)"
proof -
  consider (fresh) "resurrect I h st = Some (r, st')"
    | (live) a where "r = Some a" "arc_upgrade a st = Some st'"
    | (dead) b st1 where "eager_primary_to_inactive I h b st = Some st1" "resurrect I h st1 = Some (r, st')"
    using assms(1) by (auto simp: acquire_for_hash_def bind_eq_Some_conv split: option.splits slot.splits)
  thus ?thesis
  proof cases
    case fresh
    thus ?thesis using resurrect_arcs assms(2) by blast
  next
    case live
    thus ?thesis by (auto simp: arc_upgrade_def taken_def split: option.splits if_splits)
  next
    case dead
    have "bs_arcs st1 = bs_arcs st" "bs_next st1 = bs_next st" "bs_block_size st1 = bs_block_size st"
      using dead(1) by (auto simp: eager_primary_to_inactive_def bind_eq_Some_conv put_slot_def split: option.splits slot.splits if_splits)
    thus ?thesis
      using resurrect_arcs [OF dead(2)] assms(2) by (simp add: unmoved_def split: option.splits)
  qed
qed

section \<open>References held by a client\<close>

text \<open>\<open>R\<close> counts the references the clients hold, beside those that duplicates keep.\<close>

definition strong :: "(arc_addr \<rightharpoonup> inner) \<Rightarrow> arc_addr \<Rightarrow> nat" where
  "strong arcs a = (case arcs a of None \<Rightarrow> 0 | Some i \<Rightarrow> in_strong i)"

definition counts_ok :: "(arc_addr \<rightharpoonup> inner) \<Rightarrow> arc_addr multiset \<Rightarrow> bool" where
  "counts_ok arcs R \<longleftrightarrow> (\<forall>a. strong arcs a = count R a + keepers arcs a)"

text \<open>Between calls no arc without a reference is left.\<close>

definition refs_ok :: "(arc_addr \<rightharpoonup> inner) \<Rightarrow> arc_addr multiset \<Rightarrow> bool" where
  "refs_ok arcs R \<longleftrightarrow> counts_ok arcs R \<and> (\<forall>a i. arcs a = Some i \<longrightarrow> 0 < in_strong i)"

lemma counts_okD: "counts_ok arcs R \<Longrightarrow> strong arcs a = count R a + keepers arcs a"
  by (simp add: counts_ok_def)

lemma refs_okD:
  assumes "refs_ok arcs R"
  shows "strong arcs a = count R a + keepers arcs a" and "arcs a = Some i \<Longrightarrow> 0 < in_strong i"
  using assms by (simp_all add: refs_ok_def counts_ok_def)

lemma refs_okI: "(\<And>a. strong arcs a = count R a + keepers arcs a) \<Longrightarrow> (\<And>a i. arcs a = Some i \<Longrightarrow> 0 < in_strong i) \<Longrightarrow> refs_ok arcs R"
  by (simp add: refs_ok_def counts_ok_def)

lemma refs_live: "refs_ok arcs R \<Longrightarrow> a \<in># R \<Longrightarrow> \<exists>i. arcs a = Some i \<and> 0 < in_strong i"
  using refs_okD(1) [of arcs R a] count_greater_zero_iff [of R a]
  by (cases "arcs a") (auto simp: strong_def simp del: count_greater_zero_iff)

lemma refs_taken:
  assumes "refs_ok arcs R" and "finite (dom arcs)" and "taken arcs a h arcs'"
  shows "refs_ok arcs' (add_mset a R)"
  using assms(3) unfolding taken_def
proof (elim disjE exE conjE)
  fix i assume i: "arcs a = Some i" "arcs' = arcs(a \<mapsto> i\<lparr>in_strong := in_strong i + 1\<rparr>)"
  have "keepers arcs' p = keepers arcs p" for p
    unfolding i(2) by (rule keepers_same) (simp_all add: i)
  moreover have "strong arcs' p = strong arcs p + (if p = a then 1 else 0)" for p
    using i by (simp add: strong_def)
  ultimately show ?thesis
    using refs_okD [OF assms(1)] i by (intro refs_okI) (auto split: if_splits)
next
  fix b assume n: "arcs a = None" "arcs' = arcs(a \<mapsto> \<lparr>in_block = b, in_hash = h, in_primary = True, in_keep = None, in_strong = 1\<rparr>)"
  have "keepers arcs' p = keepers arcs p" for p
    unfolding n(2) by (subst keepers_new) (use n assms(2) in simp_all)
  moreover have "strong arcs' p = strong arcs p + (if p = a then 1 else 0)" for p
    using n by (simp add: strong_def)
  ultimately show ?thesis
    using refs_okD [OF assms(1)] n by (intro refs_okI) (auto split: if_splits)
qed

lemma refs_duplicate:
  assumes "refs_ok arcs (add_mset p R)" and "finite (dom arcs)" and "arcs n = None" and "in_keep i = Some p" and "in_strong i = 1"
  shows "refs_ok (arcs(n \<mapsto> i)) (add_mset n R)"
proof -
  have k: "keepers (arcs(n \<mapsto> i)) x = keepers arcs x + (if x = p then 1 else 0)" for x
    using keepers_new [OF assms(3,2), of i x] assms(4) by auto
  have s: "strong (arcs(n \<mapsto> i)) x = (if x = n then 1 else strong arcs x)" for x
    using assms(5) by (simp add: strong_def)
  have "strong arcs n = 0"
    using assms(3) by (simp add: strong_def)
  moreover have "p \<noteq> n"
    using refs_live [OF assms(1), of p] assms(3) by auto
  ultimately have "strong (arcs(n \<mapsto> i)) x = count (add_mset n R) x + keepers (arcs(n \<mapsto> i)) x" for x
    unfolding k s using refs_okD(1) [OF assms(1), of x] by (cases "x = n") auto
  thus ?thesis
    using refs_okD(2) [OF assms(1)] assms(5) by (intro refs_okI) (auto split: if_splits)
qed

lemma keepers_dropped:
  assumes "arcs a = Some i" and "finite (dom arcs)"
  shows "keepers arcs p = keepers (arcs(a := None)) p + (if in_keep i = Some p then 1 else 0)"
proof -
  have "arcs = (arcs(a := None))(a \<mapsto> i)"
    using assms(1) by auto
  thus ?thesis
    using keepers_new [of "arcs(a := None)" a i p] assms(2) by simp
qed

lemma refs_dropped:
  assumes "counts_ok arcs R" and "arcs a = Some i" and "in_strong i = 0" and "finite (dom arcs)"
    and "\<And>x j. arcs x = Some j \<Longrightarrow> x \<noteq> a \<Longrightarrow> 0 < in_strong j"
  shows "refs_ok (arcs(a := None)) (case in_keep i of None \<Rightarrow> R | Some p \<Rightarrow> add_mset p R)"
proof -
  let ?R = "case in_keep i of None \<Rightarrow> R | Some p \<Rightarrow> add_mset p R"
  have "strong (arcs(a := None)) x = strong arcs x" for x
    using assms(2,3) by (simp add: strong_def)
  hence "strong (arcs(a := None)) x = count ?R x + keepers (arcs(a := None)) x" for x
    using counts_okD [OF assms(1), of x] keepers_dropped [OF assms(2,4), of x] by (auto split: option.splits)
  thus ?thesis
    using assms(5) by (intro refs_okI) (auto split: if_splits)
qed

definition arc_id :: "'i block_store \<Rightarrow> arc_addr \<Rightarrow> (block_id \<times> seq_hash) option" where
  "arc_id st a = map_option (\<lambda>i. (in_block i, in_hash i)) (bs_arcs st a)"

text \<open>What a client sees of a step of the store: its references stay what they were.\<close>

definition steady :: "arc_addr multiset \<Rightarrow> 'i block_store \<Rightarrow> 'i block_store \<Rightarrow> bool" where
  "steady R st st' \<longleftrightarrow> bs_block_size st' = bs_block_size st \<and> (\<forall>a. a \<in># R \<longrightarrow> arc_id st' a = arc_id st a)"

lemma steady_refl [simp]: "steady R st st"
  by (simp add: steady_def)

lemma steady_trans: "steady R st st1 \<Longrightarrow> steady R st1 st2 \<Longrightarrow> steady R st st2"
  by (simp add: steady_def)

lemma steady_mono: "steady R st st' \<Longrightarrow> R' \<subseteq># R \<Longrightarrow> steady R' st st'"
  by (auto simp: steady_def dest: mset_subset_eqD)

lemma unmoved_steady: "unmoved st st' \<Longrightarrow> steady R st st'"
  by (simp add: unmoved_def steady_def arc_id_def)

lemma taken_steady:
  assumes "refs_ok (bs_arcs st) R" and "taken (bs_arcs st) a h (bs_arcs st')" and "bs_block_size st' = bs_block_size st"
  shows "steady R st st'"
proof -
  have "bs_arcs st x \<noteq> None" if "x \<in># R" for x
    using refs_live [OF assms(1) that] by auto
  thus ?thesis
    using assms(2,3) by (fastforce simp: steady_def arc_id_def taken_def)
qed

definition held_ok ::
  "('i \<Rightarrow> bool) \<Rightarrow> ('i \<Rightarrow> entry list) \<Rightarrow> nat \<Rightarrow> guard list \<Rightarrow> arc_addr multiset \<Rightarrow> 'i block_store \<Rightarrow> bool" where
  "held_ok iv entries cap gs R st \<longleftrightarrow> store_ok iv entries cap {} {} {#} gs st \<and> refs_ok (bs_arcs st) R"

lemma held_okD:
  assumes "held_ok iv entries cap gs R st"
  shows "store_ok iv entries cap {} {} {#} gs st" "refs_ok (bs_arcs st) R" "finite (dom (bs_arcs st))"
    "bs_arcs st (bs_next st) = None"
proof -
  show ok: "store_ok iv entries cap {} {} {#} gs st" and "refs_ok (bs_arcs st) R"
    using assms by (simp_all add: held_ok_def)
  show "finite (dom (bs_arcs st))" "bs_arcs st (bs_next st) = None"
    using arcs_okD(8) arcs_fresh store_okD(8) [OF ok] by blast+
qed

lemma held_unmoved: "held_ok iv entries cap gs R st \<Longrightarrow> unmoved st st' \<Longrightarrow> store_ok iv entries cap {} {} {#} gs' st' \<Longrightarrow>
    held_ok iv entries cap gs' R st'"
  by (simp add: held_ok_def unmoved_def)

lemma held_guards: "held_ok iv entries cap gs R st \<Longrightarrow> mset gs' = mset gs \<Longrightarrow> held_ok iv entries cap gs' R st"
  by (auto simp: held_ok_def store_ok_def dest: mset_eq_imp_distinct_iff mset_eq_setD)

text \<open>A reference in hand keeps its block registered.\<close>

lemma held_slot:
  assumes "held_ok iv entries cap gs R st" and "a \<in># R"
  obtains i where "bs_arcs st a = Some i" and "arc_id st a = Some (in_block i, in_hash i)"
    and "slot_at st (in_block i) = Some (if in_primary i then Primary (in_hash i) a else Duplicate (in_hash i) a)"
proof -
  note D = held_okD [OF assms(1)]
  obtain i where i: "bs_arcs st a = Some i" "0 < in_strong i"
    using refs_live [OF D(2) assms(2)] by blast
  show thesis
    using that [OF i(1)] i arcs_okD(5,6) [OF store_okD(8) [OF D(1)] i(1)] by (auto simp: arc_id_def)
qed

context block_index
begin

abbreviation held :: "guard list \<Rightarrow> arc_addr multiset \<Rightarrow> 'i block_store \<Rightarrow> bool" where
  "held \<equiv> held_ok iv entries cap"

lemma available_eq: "held gs R st \<Longrightarrow> available_len I st = length (bs_free st) + length (entries (bs_inactive st))"
  unfolding available_len_def by (metis held_okD(1) len store_okD(5))

lemma allocate_held:
  assumes "held gs R st"
  shows "(\<exists>ids ev st'. allocate_atomic I n st = Some (Some (ids, ev), st') \<and> length ids = n \<and>
      held (map GMutable ids @ gs) R st' \<and> unmoved st st' \<and> n \<le> available_len I st) \<or>
    allocate_atomic I n st = Some (None, st) \<and> available_len I st < n"
proof (cases "n \<le> available_len I st")
  case True
  hence n: "n \<le> length (bs_free st) + length (entries (bs_inactive st))"
    using available_eq [OF assms] by simp
  obtain st' where st': "allocate_atomic I n st = Some (Some (take n (bs_free st) @
        map snd (take (n - length (bs_free st)) (entries (bs_inactive st))),
      map fst (take (n - length (bs_free st)) (entries (bs_inactive st)))), st')"
      "ok (map GMutable (take n (bs_free st) @ map snd (take (n - length (bs_free st)) (entries (bs_inactive st)))) @ gs) st'"
    using allocate_atomic_ok [OF held_okD(1) [OF assms] n] by blast
  show ?thesis
    using st' held_unmoved [OF assms allocate_unmoved [OF st'(1)] st'(2)] allocate_unmoved [OF st'(1)] n True by auto
next
  case False
  thus ?thesis
    using allocate_atomic_refused [OF held_okD(1) [OF assms]] available_eq [OF assms] by auto
qed

lemma release_mutables_held:
  assumes "held (map GMutable bs @ gs) R st"
  shows "\<exists>st'. release_mutables bs st = Some st' \<and> held gs R st' \<and> unmoved st st' \<and>
    bs_free st' = bs_free st @ bs \<and> bs_inactive st' = bs_inactive st"
  using release_mutables_ok [OF held_okD(1) [OF assms]] held_unmoved [OF assms release_mutables_unmoved] release_mutables_unmoved
  by blast

lemma evict_inactive_held:
  assumes "held gs R st"
  shows "\<exists>st'. evict_inactive I st = Some st' \<and> held gs R st' \<and> unmoved st st' \<and> entries (bs_inactive st') = []"
proof -
  obtain st' where st': "evict_inactive I st = Some st'" "ok gs st'" "entries (bs_inactive st') = []"
    using evict_inactive_ok [OF held_okD(1) [OF assms]] by blast
  have "unmoved st st'"
    using st'(1) by (auto simp: evict_inactive_def drain_inactive_to_mutable_def bind_eq_Some_conv
        dest!: evict_slots_unmoved release_mutables_unmoved) (simp add: unmoved_def)
  thus ?thesis
    using st' held_unmoved [OF assms] by blast
qed

lemma drop_completes_held:
  "held (map (\<lambda>(b, h). GComplete b h) cs @ gs) R st \<Longrightarrow> \<exists>st'. drop_completes cs st = Some st' \<and> held gs R st' \<and> unmoved st st'"
proof (induction cs arbitrary: st)
  case (Cons c cs)
  obtain b h where c: "c = (b, h)" by fastforce
  obtain st1 where st1: "release_staged b st = Some st1" "ok (map (\<lambda>(b, h). GComplete b h) cs @ gs) st1"
    using release_staged_ok [OF held_okD(1) [OF Cons.prems], of b h] c by auto
  note u = release_unmoved(2) [OF st1(1)]
  show ?case
    using Cons.IH [OF held_unmoved [OF Cons.prems u st1(2)]] st1(1) u c by (auto intro: unmoved_trans)
qed simp

lemma stage_held:
  assumes "held (GMutable b # gs) R st" and "n = bs_block_size st"
  shows "\<exists>st'. stage b h n st = Some (Inr st') \<and> held (GComplete b h # gs) R st' \<and> unmoved st st'"
proof -
  obtain st' where st': "transition_to_staged b h st = Some st'" "ok (GComplete b h # gs) st'"
    using transition_to_staged_ok [OF held_okD(1) [OF assms(1)], of b h] by auto
  show ?thesis
    using st' held_unmoved [OF assms(1) transition_unmoved [OF st'(1)] st'(2)] transition_unmoved [OF st'(1)] assms(2)
    by (simp add: stage_def)
qed

lemma acquire_held:
  assumes "held gs R st"
  shows "\<exists>r st'. acquire_for_hash I h st = Some (r, st') \<and> steady R st st' \<and>
    (case r of None \<Rightarrow> held gs R st' \<and> unmoved st st' \<and> (\<forall>b. \<not> cached st h b) \<and> bs_active st' h = None \<and> (\<forall>b. (h, b) \<notin> set (entries (bs_inactive st')))
     | Some a \<Rightarrow> held gs (add_mset a R) st' \<and> (\<exists>b. cached st h b \<and> handed st' h b a))"
proof -
  note D = held_okD [OF assms]
  obtain r st' where r: "acquire_for_hash I h st = Some (r, st')" "ok gs st'"
      "case r of None \<Rightarrow> (\<forall>b. \<not> cached st h b) \<and> bs_active st' h = None \<and> (\<forall>b. (h, b) \<notin> set (entries (bs_inactive st')))
       | Some a \<Rightarrow> \<exists>b. cached st h b \<and> handed st' h b a"
    using acquire_ok [OF D(1), of h] by blast
  note arcs = acquire_arcs [OF r(1) D(4)]
  show ?thesis
  proof (cases r)
    case None
    thus ?thesis
      using r arcs held_unmoved [OF assms _ r(2)] unmoved_steady by (intro exI [of _ r] exI [of _ st']) simp
  next
    case (Some a)
    hence t: "taken (bs_arcs st) a h (bs_arcs st')" "bs_block_size st' = bs_block_size st"
      using arcs by simp_all
    show ?thesis
      using r Some refs_taken [OF D(2,3) t(1)] taken_steady [OF D(2) t] by (intro exI [of _ r] exI [of _ st']) (simp add: held_ok_def)
  qed
qed

lemma acquired_id: "handed st h b a \<Longrightarrow> arc_id st a = Some (b, h)"
  by (auto simp: handed_def arc_id_def)

lemma mark_present_same [simp]:
  "bs_arcs (mark_present h st) = bs_arcs st" "bs_block_size (mark_present h st) = bs_block_size st"
  by (simp_all add: mark_present_def)

lemma install_duplicate_refs:
  assumes h: "held gs (add_mset p R) st" and d: "install_duplicate b h p st = Some (a, st')"
  shows "refs_ok (bs_arcs st') (add_mset a R) \<and> steady R st st' \<and> arc_id st' a = Some (b, h)"
proof -
  have e: "a = bs_next st" "bs_block_size st' = bs_block_size st" "bs_arcs st' = (bs_arcs st)(a \<mapsto>
      \<lparr>in_block = b, in_hash = h, in_primary = False, in_keep = Some p, in_strong = 1\<rparr>)"
    using d by (auto simp: install_duplicate_def Let_def bind_eq_Some_conv put_slot_def split: if_splits)
  have "arc_id st' x = arc_id st x" if "x \<in># R" for x
    using refs_live [OF held_okD(2) [OF h], of x] that held_okD(4) [OF h] e by (auto simp: arc_id_def)
  thus ?thesis
    using refs_duplicate [OF held_okD(2,3,4) [OF h]] e by (simp add: steady_def arc_id_def)
qed

lemma register_refs:
  assumes h: "held (GComplete b h # gs) R st" and r: "register_completed_block I policy b h st = Some (a, st')"
  shows "refs_ok (bs_arcs st') (add_mset a R)" and "steady R st st'"
    and "\<exists>c. arc_id st' a = Some (c, h) \<and> (policy = Allow \<longrightarrow> c = b)"
proof -
  obtain e st1 where e: "acquire_for_hash I h st = Some (e, st1)" "steady R st st1"
      "case e of None \<Rightarrow> held (GComplete b h # gs) R st1 \<and> unmoved st st1 \<and> (\<forall>b. \<not> cached st h b) \<and> bs_active st1 h = None \<and> (\<forall>b. (h, b) \<notin> set (entries (bs_inactive st1)))
       | Some a \<Rightarrow> held (GComplete b h # gs) (add_mset a R) st1 \<and> (\<exists>b. cached st h b \<and> handed st1 h b a)"
    using acquire_held [OF h] by blast
  have "refs_ok (bs_arcs st') (add_mset a R) \<and> steady R st st' \<and> (\<exists>c. arc_id st' a = Some (c, h) \<and> (policy = Allow \<longrightarrow> c = b))"
  proof (cases e)
    case None
    hence h1: "held (GComplete b h # gs) R st1" using e(3) by simp
    obtain st2 where st2: "install_primary b h st1 = Some (a, st2)" "st' = mark_present h st2"
      using r e(1) None by (auto simp: register_completed_block_def bind_eq_Some_conv)
    note p = install_primary_arcs [OF st2(1)]
    have t: "taken (bs_arcs st1) a h (bs_arcs st')" "bs_block_size st' = bs_block_size st1"
      using p held_okD(4) [OF h1] by (auto simp: taken_def st2)
    show ?thesis
      using refs_taken [OF held_okD(2,3) [OF h1] t(1)] steady_trans [OF e(2) taken_steady [OF held_okD(2) [OF h1] t]] p st2(2)
      by (simp add: arc_id_def)
  next
    case (Some p)
    then obtain c where h1: "held (GComplete b h # gs) (add_mset p R) st1" and c: "handed st1 h c p"
      using e(3) by auto
    obtain i where i: "bs_arcs st1 p = Some i" using c by (auto simp: handed_def)
    show ?thesis
    proof (cases policy)
      case Allow
      then obtain st2 where st2: "install_duplicate b h p st1 = Some (a, st2)" "st' = mark_present h st2"
        using r e(1) Some i by (auto simp: register_completed_block_def bind_eq_Some_conv split: if_splits)
      show ?thesis
        using install_duplicate_refs [OF h1 st2(1)] steady_trans [OF e(2), of st2] by (auto simp: st2(2) steady_def arc_id_def)
    next
      case Reject
      then obtain st2 where st2: "release_staged b st1 = Some st'" "a = p"
        using r e(1) Some i by (auto simp: register_completed_block_def bind_eq_Some_conv split: if_splits)
      note u = release_unmoved(2) [OF st2(1)]
      show ?thesis
        using u held_okD(2) [OF h1] steady_trans [OF e(2) unmoved_steady [OF u]] acquired_id [OF c] st2(2) Reject
        by (auto simp: unmoved_def arc_id_def)
    qed
  qed
  thus "refs_ok (bs_arcs st') (add_mset a R)" "steady R st st'" "\<exists>c. arc_id st' a = Some (c, h) \<and> (policy = Allow \<longrightarrow> c = b)"
    by blast+
qed

lemma register_held:
  assumes "held (GComplete b h # gs) R st"
  shows "\<exists>a c st'. register_completed_block I policy b h st = Some (a, st') \<and> held gs (add_mset a R) st' \<and> steady R st st' \<and>
    arc_id st' a = Some (c, h) \<and> (policy = Allow \<longrightarrow> c = b)"
proof -
  obtain a st' where r: "register_completed_block I policy b h st = Some (a, st')" "ok gs st'"
    using register_block_ok [OF held_okD(1) [OF assms], of b h policy] by auto
  show ?thesis
    using r register_refs [OF assms r(1)] by (auto simp: held_ok_def)
qed

lemma match_held:
  "held gs R st \<Longrightarrow> \<exists>as st'. match_prefix_locked_batch I hs st = Some (as, st') \<and> held gs (mset as + R) st' \<and> steady R st st' \<and>
    length as \<le> length hs \<and> (\<forall>k < length as. \<exists>b. arc_id st' (as ! k) = Some (b, hs ! k))"
proof (induction hs arbitrary: st R)
  case (Cons h hs)
  obtain r st1 where r: "acquire_for_hash I h st = Some (r, st1)" "steady R st st1"
      "case r of None \<Rightarrow> held gs R st1 \<and> unmoved st st1 \<and> (\<forall>b. \<not> cached st h b) \<and> bs_active st1 h = None \<and> (\<forall>b. (h, b) \<notin> set (entries (bs_inactive st1)))
       | Some a \<Rightarrow> held gs (add_mset a R) st1 \<and> (\<exists>b. cached st h b \<and> handed st1 h b a)"
    using acquire_held [OF Cons.prems] by blast
  show ?case
  proof (cases r)
    case None
    thus ?thesis using r by auto
  next
    case (Some a)
    then obtain b where a: "held gs (add_mset a R) st1" "handed st1 h b a"
      using r(3) by auto
    obtain as st2 where as: "match_prefix_locked_batch I hs st1 = Some (as, st2)" "held gs (mset as + add_mset a R) st2"
        "steady (add_mset a R) st1 st2" "length as \<le> length hs" "\<And>k. k < length as \<Longrightarrow> \<exists>b. arc_id st2 (as ! k) = Some (b, hs ! k)"
      using Cons.IH [OF a(1)] by blast
    have "arc_id st2 a = Some (b, h)"
      using as(3) acquired_id [OF a(2)] by (simp add: steady_def)
    moreover have "steady R st st2"
      using steady_trans [OF r(2) steady_mono [OF as(3)]] by simp
    ultimately show ?thesis
      using r(1) Some as by (intro exI [of _ "a # as"] exI [of _ st2]) (auto simp: nth_Cons split: nat.split)
  qed
qed auto

lemma drop_ref_held:
  assumes "held gs (add_mset a R) st"
  shows "\<exists>k st'. drop_ref I a st = Some (k, st') \<and> steady R st st' \<and> held gs (case k of None \<Rightarrow> R | Some p \<Rightarrow> add_mset p R) st' \<and>
    (\<forall>p. k = Some p \<longrightarrow> (\<exists>j. bs_arcs st' p = Some j \<and> in_keep j = None))"
proof -
  note D = held_okD [OF assms]
  obtain i where i: "bs_arcs st a = Some i" "in_strong i = Suc (count R a + keepers (bs_arcs st) a)"
    using refs_live [OF D(2), of a] refs_okD(1) [OF D(2), of a] by (auto simp: strong_def)
  let ?i = "i\<lparr>in_strong := in_strong i - 1\<rparr>" let ?st = "st\<lparr>bs_arcs := (bs_arcs st)(a \<mapsto> i\<lparr>in_strong := in_strong i - 1\<rparr>)\<rparr>"
  have drop: "arc_drop a st = Some ?st"
    using i by (simp add: arc_drop_def)
  have ok: "ok gs ?st"
    using i by (intro arc_count_ok [OF D(1) i(1)]) auto
  have k: "keepers (bs_arcs ?st) p = keepers (bs_arcs st) p" for p
    using i(1) by (simp add: keepers_same)
  have "strong (bs_arcs ?st) x = count R x + keepers (bs_arcs ?st) x" for x
    using refs_okD(1) [OF D(2), of x] i unfolding k by (auto simp: strong_def split: if_splits)
  hence counts: "counts_ok (bs_arcs ?st) R"
    by (simp add: counts_ok_def)
  have steady: "steady R st ?st"
    using i(1) by (simp add: steady_def arc_id_def)
  show ?thesis
  proof (cases "in_strong i = 1")
    case False
    hence strict: "1 < in_strong i" using i(2) by simp
    hence "refs_ok (bs_arcs ?st) R"
      using counts refs_okD(2) [OF D(2)] i by (auto simp: refs_ok_def split: if_splits)
    thus ?thesis
      using False drop ok steady i(1) strict by (intro exI [of _ None] exI [of _ ?st]) (auto simp: drop_ref_def held_ok_def)
  next
    case True
    obtain st' where st': "inner_drop I a ?st = Some st'" "ok gs st'"
      using inner_drop_ok [OF ok, of a ?i] True by auto
    note e = inner_drop_arcs [OF st'(1)]
    have "a \<notin># R"
      using i(2) True by (simp add: not_in_iff)
    hence "steady R st st'"
      by (auto simp: steady_def arc_id_def e)
    moreover have "refs_ok (bs_arcs st') (case in_keep i of None \<Rightarrow> R | Some p \<Rightarrow> add_mset p R)"
      unfolding e(1) using refs_dropped [OF counts, of a ?i] True refs_okD(2) [OF D(2)] arcs_okD(8) [OF store_okD(8) [OF ok]]
      by (auto split: if_splits)
    moreover have "\<exists>j. bs_arcs st' p = Some j \<and> in_keep j = None" if "in_keep i = Some p" for p
      using that arcs_okD(4,6) [OF store_okD(8) [OF D(1)] i(1)] arcs_okD(4) [OF store_okD(8) [OF D(1)], of p] i(1)
      by (cases "in_primary i") (auto simp: e(1))
    ultimately show ?thesis
      using drop st' True i by (intro exI [of _ "in_keep i"] exI [of _ st']) (simp add: drop_ref_def held_ok_def)
  qed
qed

lemma drop_immutable_held:
  assumes "held gs (add_mset a R) st"
  shows "\<exists>st'. drop_immutable I a st = Some st' \<and> held gs R st' \<and> steady R st st'"
proof -
  obtain k st1 where 1: "drop_ref I a st = Some (k, st1)" "steady R st st1" "held gs (case k of None \<Rightarrow> R | Some p \<Rightarrow> add_mset p R) st1"
      "\<And>p. k = Some p \<Longrightarrow> \<exists>j. bs_arcs st1 p = Some j \<and> in_keep j = None"
    using drop_ref_held [OF assms] by blast
  show ?thesis
  proof (cases k)
    case None
    thus ?thesis using 1 by (simp add: drop_immutable_def)
  next
    case (Some p)
    then obtain j where j: "bs_arcs st1 p = Some j" "in_keep j = None"
      using 1(4) by blast
    obtain l st2 where 2: "drop_ref I p st1 = Some (l, st2)" "steady R st1 st2" "held gs (case l of None \<Rightarrow> R | Some p \<Rightarrow> add_mset p R) st2"
      using drop_ref_held [of gs p R st1] 1(3) Some by auto
    moreover have "l = None"
      using 2(1) j by (auto simp: drop_ref_def arc_drop_def bind_eq_Some_conv split: if_splits)
    ultimately show ?thesis
      using 1(1,2) Some steady_trans by (fastforce simp: drop_immutable_def)
  qed
qed

lemma drop_immutables_held:
  "held gs (mset as + R) st \<Longrightarrow> \<exists>st'. drop_immutables I as st = Some st' \<and> held gs R st' \<and> steady R st st'"
proof (induction as arbitrary: st)
  case (Cons a as)
  obtain st1 where 1: "drop_immutable I a st = Some st1" "held gs (mset as + R) st1" "steady (mset as + R) st st1"
    using drop_immutable_held [of gs a "mset as + R" st] Cons.prems by auto
  have "steady R st st1"
    by (rule steady_mono [OF 1(3)]) simp
  thus ?case
    using Cons.IH [OF 1(2)] 1(1) steady_trans by fastforce
qed simp

end

end
