(* ===== verification/Request_Sequence.thy ===== *)
theory Request_Sequence
  imports Block_References
begin

text \<open>
  A request's tokens and blocks, \<open>kvbm/kvbm-logical/src/integrations/request.rs\<close> over
  \<open>BlockSequence\<close> of \<open>sequence/mod.rs\<close>.

  \<open>TokenBlockSequence\<close> belongs to the crate \<open>dynamo_tokens\<close>: its operations are the record \<open>T\<close>,
  and \<open>token_laws\<close> says what the code relies on. A fallible operation answers with the sum of its
  errors and its result, beside the new sequence and store; the outer option is a panic.
\<close>

section \<open>Token sequences\<close>

record 'q token_sequence =
  tk_new :: "u32 list \<Rightarrow> usize \<Rightarrow> u64 option \<Rightarrow> 'q"
  tk_blocks :: "'q \<Rightarrow> token_block list"
  tk_block_size :: "'q \<Rightarrow> usize"
  tk_total_tokens :: "'q \<Rightarrow> usize"
  tk_append :: "u32 \<Rightarrow> 'q \<Rightarrow> (usize option \<times> 'q) option"

text \<open>
  Completed blocks are cut off in order as tokens arrive and never change, each block of a sequence
  that fits in memory has its own lineage hash (its position is part of it), and appending one token
  cannot fail.
\<close>

definition token_laws :: "'q token_sequence \<Rightarrow> ('q \<Rightarrow> bool) \<Rightarrow> bool" where
  "token_laws T valid \<longleftrightarrow>
     (\<forall>ts n salt. 0 < n \<longrightarrow> valid (tk_new T ts n salt) \<and> tk_total_tokens T (tk_new T ts n salt) = length ts \<and>
        tk_block_size T (tk_new T ts n salt) = n) \<and>
     (\<forall>q. valid q \<longrightarrow> 0 < tk_block_size T q \<and> length (tk_blocks T q) = tk_total_tokens T q div tk_block_size T q \<and>
        (\<forall>b \<in> set (tk_blocks T q). tb_block_size b = tk_block_size T q) \<and>
        (tk_total_tokens T q \<le> usize_max \<longrightarrow> distinct (map tb_kvbm_sequence_hash (tk_blocks T q)))) \<and>
     (\<forall>q t. valid q \<longrightarrow> (\<exists>q'. tk_append T t q =
          Some (if (tk_total_tokens T q + 1) mod tk_block_size T q = 0 then Some (length (tk_blocks T q)) else None, q') \<and>
        valid q' \<and> tk_total_tokens T q' = tk_total_tokens T q + 1 \<and> tk_block_size T q' = tk_block_size T q \<and>
        take (length (tk_blocks T q)) (tk_blocks T q') = tk_blocks T q))"

definition all_sequence_hashes :: "'q token_sequence \<Rightarrow> 'q \<Rightarrow> seq_hash list" where
  "all_sequence_hashes T q = map tb_kvbm_sequence_hash (tk_blocks T q)"

section \<open>State\<close>

record 'q request_sequence =
  rs_sequence :: 'q
  rs_assignments :: assignments
  rs_generated_tokens :: usize
  rs_max_output_tokens :: usize
  rs_num_input_tokens :: usize
  rs_prefix_matched_blocks :: usize

definition new_request_sequence ::
  "'q token_sequence \<Rightarrow> u32 list \<Rightarrow> usize \<Rightarrow> usize \<Rightarrow> u64 option \<Rightarrow> 'q request_sequence" where
  "new_request_sequence T tokens max_output_tokens block_size salt_hash =
     \<lparr>rs_sequence = tk_new T tokens block_size salt_hash, rs_assignments = new_seq_store, rs_generated_tokens = 0,
      rs_max_output_tokens = max_output_tokens, rs_num_input_tokens = length tokens, rs_prefix_matched_blocks = 0\<rparr>"

definition rs_is_complete :: "'q request_sequence \<Rightarrow> bool" where
  "rs_is_complete s \<longleftrightarrow> rs_max_output_tokens s \<le> rs_generated_tokens s"

definition rs_remaining_tokens :: "'q request_sequence \<Rightarrow> usize" where
  "rs_remaining_tokens s = saturating_sub (rs_max_output_tokens s) (rs_generated_tokens s)"

definition assigned_blocks :: "'q request_sequence \<Rightarrow> usize" where
  "assigned_blocks s = length (sq_assigned (rs_assignments s))"

definition staged_blocks :: "'q request_sequence \<Rightarrow> usize" where
  "staged_blocks s = length (sq_staged (rs_assignments s))"

definition unassigned_blocks :: "'q request_sequence \<Rightarrow> usize" where
  "unassigned_blocks s = length (sq_unassigned (rs_assignments s))"

definition new_tokens_for_prefill :: "'q token_sequence \<Rightarrow> 'q request_sequence \<Rightarrow> usize" where
  "new_tokens_for_prefill T s =
     saturating_sub (tk_total_tokens T (rs_sequence s)) (rs_prefix_matched_blocks s * tk_block_size T (rs_sequence s))"

section \<open>Prefix matching\<close>

text \<open>The first matched block whose hash is not the one at its position.\<close>

fun hash_mismatch :: "'i block_store \<Rightarrow> usize \<Rightarrow> immutable_block list \<Rightarrow> token_block list \<Rightarrow>
    (usize \<times> seq_hash \<times> seq_hash) option option" where
  "hash_mismatch st position (a # as) (tb # tbs) = do {
     i \<leftarrow> bs_arcs st a;
     if tb_kvbm_sequence_hash tb \<noteq> in_hash i then Some (Some (position, tb_kvbm_sequence_hash tb, in_hash i))
     else hash_mismatch st (position + 1) as tbs }"
| "hash_mismatch st position _ _ = Some None"

definition add_matched_blocks :: "'q token_sequence \<Rightarrow> immutable_block list \<Rightarrow> 'i block_store \<Rightarrow> 'q request_sequence \<Rightarrow>
    ((assignment_error + usize) \<times> 'q request_sequence) option" where
  "add_matched_blocks T blocks st s =
     (let start = assigned_blocks s; fin = start + length blocks; tbs = tk_blocks T (rs_sequence s)
      in if length tbs < fin then None
      else do {
        m \<leftarrow> hash_mismatch st start blocks (take (length blocks) (drop start tbs));
        (case m of
           Some (position, expected, actual) \<Rightarrow> Some (Inl (SequenceHashMismatch position expected actual blocks), s)
         | None \<Rightarrow> do {
             r \<leftarrow> extend_assigned st blocks (rs_assignments s);
             Some (case r of
               Inl e \<Rightarrow> (Inl e, s)
             | Inr (n, q) \<Rightarrow> (Inr (length blocks), s\<lparr>rs_assignments := q,
                 rs_prefix_matched_blocks := rs_prefix_matched_blocks s + length blocks\<rparr>)) }) })"

definition rs_match_and_add_prefix :: "'i index \<Rightarrow> 'q token_sequence \<Rightarrow> usize \<Rightarrow> 'q request_sequence \<Rightarrow> 'i block_store \<Rightarrow>
    ((assignment_error + usize) \<times> 'q request_sequence \<times> 'i block_store) option" where
  "rs_match_and_add_prefix I T max_blocks s st =
     (if \<not> sq_is_empty (rs_assignments s) then None
      else do {
        (matched, st1) \<leftarrow> match_prefix_locked_batch I (all_sequence_hashes T (rs_sequence s)) st;
        st2 \<leftarrow> drop_immutables I (drop max_blocks matched) st1;
        let kept = take max_blocks matched;
        if kept = [] then Some (Inr 0, s, st2)
        else do { (r, s1) \<leftarrow> add_matched_blocks T kept st2 s; Some (r, s1, st2) } })"

section \<open>Allocation, staging and registration\<close>

text \<open>Blocks the collections refuse are dropped with the error.\<close>

definition rs_allocate_blocks :: "'i index \<Rightarrow> usize \<Rightarrow> 'q request_sequence \<Rightarrow> 'i block_store \<Rightarrow>
    (bool \<times> 'q request_sequence \<times> 'i block_store) option" where
  "rs_allocate_blocks I n s st =
     (if n = 0 then Some (True, s, st)
      else do {
        (r, st1) \<leftarrow> allocate_atomic I n st;
        (case r of
           None \<Rightarrow> Some (False, s, st1)
         | Some (ids, _) \<Rightarrow>
             (case extend_blocks ids (rs_assignments s) of
                Inr (_, q) \<Rightarrow> Some (True, s\<lparr>rs_assignments := q\<rparr>, st1)
              | Inl _ \<Rightarrow> do { st2 \<leftarrow> release_mutables ids st1; Some (False, s, st2) })) })"

definition stage_pending :: "'q token_sequence \<Rightarrow> 'q request_sequence \<Rightarrow> 'i block_store \<Rightarrow>
    ('q request_sequence \<times> 'i block_store) option" where
  "stage_pending T s st =
     (let start = assigned_blocks s + staged_blocks s; tbs = tk_blocks T (rs_sequence s)
      in if start < length tbs then do {
           (r, q, st1) \<leftarrow> stage_blocks (drop start tbs) (rs_assignments s) st;
           (case r of Inl _ \<Rightarrow> None | Inr _ \<Rightarrow> Some (s\<lparr>rs_assignments := q\<rparr>, st1)) }
      else Some (s, st))"

definition register_staged :: "'i index \<Rightarrow> duplication_policy \<Rightarrow> 'q request_sequence \<Rightarrow> 'i block_store \<Rightarrow>
    (usize \<times> 'q request_sequence \<times> 'i block_store) option" where
  "register_staged I policy s st = do {
     (n, q, st1) \<leftarrow> register_blocks I policy (rs_assignments s) st;
     Some (n, s\<lparr>rs_assignments := q\<rparr>, st1) }"

definition complete_and_register_pending :: "'i index \<Rightarrow> duplication_policy \<Rightarrow> 'q token_sequence \<Rightarrow>
    'q request_sequence \<Rightarrow> 'i block_store \<Rightarrow> ('q request_sequence \<times> 'i block_store) option" where
  "complete_and_register_pending I policy T s st = do {
     (s1, st1) \<leftarrow> stage_pending T s st;
     (_, s2, st2) \<leftarrow> register_staged I policy s1 st1;
     Some (s2, st2) }"

section \<open>Tokens\<close>

definition rs_append_token :: "'q token_sequence \<Rightarrow> u32 \<Rightarrow> 'q request_sequence \<Rightarrow> (usize option \<times> 'q request_sequence) option" where
  "rs_append_token T t s =
     (if rs_max_output_tokens s \<le> rs_generated_tokens s then None
      else do {
        (completed, q) \<leftarrow> tk_append T t (rs_sequence s);
        Some (completed, s\<lparr>rs_sequence := q, rs_generated_tokens := rs_generated_tokens s + 1\<rparr>) })"

text \<open>The loop ends within one block; the bound is the block size.\<close>

fun pad_loop :: "'q token_sequence \<Rightarrow> u32 \<Rightarrow> nat \<Rightarrow> usize \<Rightarrow> 'q \<Rightarrow> (usize \<times> 'q) option" where
  "pad_loop T pad 0 appended q = (if tk_total_tokens T q mod tk_block_size T q = 0 then Some (appended, q) else None)"
| "pad_loop T pad (Suc n) appended q =
     (if tk_total_tokens T q mod tk_block_size T q = 0 then Some (appended, q)
      else do { (_, q1) \<leftarrow> tk_append T pad q; pad_loop T pad n (appended + 1) q1 })"

definition rs_pad_tail_block :: "'q token_sequence \<Rightarrow> u32 \<Rightarrow> 'q request_sequence \<Rightarrow> (usize \<times> 'q request_sequence) option" where
  "rs_pad_tail_block T pad s = do {
     (n, q) \<leftarrow> pad_loop T pad (tk_block_size T (rs_sequence s)) 0 (rs_sequence s);
     Some (n, s\<lparr>rs_sequence := q\<rparr>) }"

definition promote_last_input_to_generated :: "'q request_sequence \<Rightarrow> 'q request_sequence option" where
  "promote_last_input_to_generated s =
     (if rs_num_input_tokens s = 0 \<or> rs_max_output_tokens s \<le> rs_generated_tokens s then None
      else Some (s\<lparr>rs_num_input_tokens := rs_num_input_tokens s - 1, rs_generated_tokens := rs_generated_tokens s + 1\<rparr>))"

section \<open>Release and reacquire\<close>

definition rs_release :: "'i index \<Rightarrow> 'q request_sequence \<Rightarrow> 'i block_store \<Rightarrow> ('q request_sequence \<times> 'i block_store) option" where
  "rs_release I s st = do {
     (q, st1) \<leftarrow> clear_assignments I (rs_assignments s) st;
     Some (s\<lparr>rs_assignments := q\<rparr>, st1) }"

text \<open>Giving up: the collections are cleared, after the blocks of the failed call were dropped.\<close>

definition give_up :: "'i index \<Rightarrow> 'q request_sequence \<Rightarrow> 'i block_store \<Rightarrow> (bool \<times> 'q request_sequence \<times> 'i block_store) option" where
  "give_up I s st = do { (s1, st1) \<leftarrow> rs_release I s st; Some (False, s1, st1) }"

definition reacquire_rest :: "'i index \<Rightarrow> duplication_policy \<Rightarrow> 'q token_sequence \<Rightarrow> usize \<Rightarrow> 'q request_sequence \<Rightarrow> 'i block_store \<Rightarrow>
    (bool \<times> 'q request_sequence \<times> 'i block_store) option" where
  "reacquire_rest I policy T matched_count s st =
     (let completed = length (tk_blocks T (rs_sequence s)); remaining = completed - matched_count
      in if completed < matched_count then None
      else if remaining = 0 then Some (True, s\<lparr>rs_prefix_matched_blocks := matched_count\<rparr>, st)
      else do {
        (r, st1) \<leftarrow> allocate_atomic I remaining st;
        (case r of
           None \<Rightarrow> give_up I s st1
         | Some (ids, _) \<Rightarrow>
             (case extend_blocks ids (rs_assignments s) of
                Inl _ \<Rightarrow> do { st2 \<leftarrow> release_mutables ids st1; give_up I s st2 }
              | Inr (_, q) \<Rightarrow> do {
                  (e, q1, st2) \<leftarrow> stage_blocks (drop matched_count (tk_blocks T (rs_sequence s))) q st1;
                  (case e of
                     Inl (_, b) \<Rightarrow> do { st3 \<leftarrow> release_mutable b st2; give_up I (s\<lparr>rs_assignments := q1\<rparr>) st3 }
                   | Inr _ \<Rightarrow> do {
                       (_, q2, st3) \<leftarrow> register_blocks I policy q1 st2;
                       Some (True, s\<lparr>rs_assignments := q2, rs_prefix_matched_blocks := matched_count\<rparr>, st3) }) })) })"

definition rs_reacquire :: "'i index \<Rightarrow> duplication_policy \<Rightarrow> 'q token_sequence \<Rightarrow> 'q request_sequence \<Rightarrow> 'i block_store \<Rightarrow>
    (bool \<times> 'q request_sequence \<times> 'i block_store) option" where
  "rs_reacquire I policy T s st =
     (if \<not> sq_is_empty (rs_assignments s) then None
      else do {
        (matched, st1) \<leftarrow> match_prefix_locked_batch I (all_sequence_hashes T (rs_sequence s)) st;
        if matched = [] then reacquire_rest I policy T 0 s st1
        else do {
          r \<leftarrow> extend_assigned st1 matched (rs_assignments s);
          (case r of
             Inl _ \<Rightarrow> do { st2 \<leftarrow> drop_immutables I matched st1; give_up I s st2 }
           | Inr (_, q) \<Rightarrow> reacquire_rest I policy T (length matched) (s\<lparr>rs_assignments := q\<rparr>) st1) } })"

end
