(* ===== verification/Scheduled_Sequence.thy ===== *)
theory Scheduled_Sequence
  imports Request_Sequence
begin

text \<open>
  The two-phase schedule/apply protocol of a sequence,
  \<open>kvbm/kvbm-logical/src/integrations/scheduled.rs\<close>: every \<open>schedule\<close> checks its preconditions
  and allocates, every \<open>apply\<close> commits, and a schedule that is not applied can be reverted. The
  events sent to the delegate are kept in order in \<open>sc_events\<close>.
\<close>

section \<open>State\<close>

datatype sequence_state =
    Idle
  | PrefillScheduled usize usize
  | DecodeScheduled usize
  | SpeculativeScheduled usize usize

datatype decode_outcome = Continue | BlockCompleted | MaxLength | BlockCompletedAndMaxLength

datatype sequence_event =
    EvCreated usize usize usize
  | EvPrefixMatched usize
  | EvPrefillScheduled usize usize
  | EvPrefillApplied usize usize bool
  | EvDecodeScheduled usize
  | EvDecodeApplied u32 bool
  | EvSpeculativeScheduled usize usize
  | EvSpeculativeApplied usize usize usize
  | EvScheduleReverted usize
  | EvUnassignedDropped usize
  | EvReleased
  | EvReacquired usize bool

datatype schedule_error =
    NotIdle sequence_state
  | PrefillOverrun usize usize usize
  | PrefillComplete
  | PrefillNotComplete usize usize
  | AllocationFailed usize
  | GenerationComplete usize usize
  | WrongDanglingCount usize usize

datatype apply_error =
    WrongState string sequence_state
  | TokenOnNonFinalChunk
  | AcceptedExceedsScheduled usize usize
  | MissingTokenOnFinalChunk
  | AppendExceedsRemaining usize usize
  | InvalidExternalPrefillAnchor usize usize usize usize usize

record 'q schedulable =
  sc_inner :: "'q request_sequence"
  sc_state :: sequence_state
  sc_prefill_position :: usize
  sc_kv_position :: usize
  sc_events :: "sequence_event list"

definition on_event :: "sequence_event \<Rightarrow> 'q schedulable \<Rightarrow> 'q schedulable" where
  "on_event e s = s\<lparr>sc_events := sc_events s @ [e]\<rparr>"

definition new_schedulable :: "'q token_sequence \<Rightarrow> u32 list \<Rightarrow> usize \<Rightarrow> usize \<Rightarrow> u64 option \<Rightarrow> 'q schedulable" where
  "new_schedulable T tokens max_output_tokens block_size salt_hash =
     \<lparr>sc_inner = new_request_sequence T tokens max_output_tokens block_size salt_hash, sc_state = Idle,
      sc_prefill_position = 0, sc_kv_position = 0, sc_events = [EvCreated (length tokens) max_output_tokens block_size]\<rparr>"

definition sc_block_size :: "'q token_sequence \<Rightarrow> 'q schedulable \<Rightarrow> usize" where
  "sc_block_size T s = tk_block_size T (rs_sequence (sc_inner s))"

definition sc_total_tokens :: "'q token_sequence \<Rightarrow> 'q schedulable \<Rightarrow> usize" where
  "sc_total_tokens T s = tk_total_tokens T (rs_sequence (sc_inner s))"

definition is_prefill_complete :: "'q schedulable \<Rightarrow> bool" where
  "is_prefill_complete s \<longleftrightarrow> rs_num_input_tokens (sc_inner s) \<le> sc_prefill_position s"

definition tail_tokens :: "'q token_sequence \<Rightarrow> 'q schedulable \<Rightarrow> usize" where
  "tail_tokens T s = saturating_sub (sc_total_tokens T s) (sc_kv_position s)"

definition held_blocks :: "'q schedulable \<Rightarrow> usize" where
  "held_blocks s = assigned_blocks (sc_inner s) + staged_blocks (sc_inner s) + unassigned_blocks (sc_inner s)"

section \<open>Guards\<close>

definition require_idle :: "'q schedulable \<Rightarrow> schedule_error option" where
  "require_idle s = (if sc_state s \<noteq> Idle then Some (NotIdle (sc_state s)) else None)"

definition require_idle_for_apply :: "'q schedulable \<Rightarrow> apply_error option" where
  "require_idle_for_apply s = (if sc_state s \<noteq> Idle then Some (WrongState ''Idle'' (sc_state s)) else None)"

definition require_prefill_complete :: "'q schedulable \<Rightarrow> schedule_error option" where
  "require_prefill_complete s =
     (if \<not> is_prefill_complete s then Some (PrefillNotComplete (sc_prefill_position s) (rs_num_input_tokens (sc_inner s)))
      else None)"

definition require_not_complete :: "'q schedulable \<Rightarrow> schedule_error option" where
  "require_not_complete s =
     (if rs_is_complete (sc_inner s)
      then Some (GenerationComplete (rs_generated_tokens (sc_inner s)) (rs_max_output_tokens (sc_inner s))) else None)"

definition require_one_dangling :: "'q token_sequence \<Rightarrow> 'q schedulable \<Rightarrow> schedule_error option" where
  "require_one_dangling T s = (if tail_tokens T s \<noteq> 1 then Some (WrongDanglingCount 1 (tail_tokens T s)) else None)"

fun first_error :: "'e option list \<Rightarrow> 'e option" where
  "first_error [] = None"
| "first_error (None # es) = first_error es"
| "first_error (Some e # es) = Some e"

definition decode_guards :: "'q token_sequence \<Rightarrow> 'q schedulable \<Rightarrow> schedule_error option" where
  "decode_guards T s =
     first_error [require_idle s, require_prefill_complete s, require_not_complete s, require_one_dangling T s]"

section \<open>Giving blocks back\<close>

text \<open>Pops up to \<open>n\<close> unassigned blocks; each popped guard is dropped at once.\<close>

fun lifo_pop_unassigned :: "usize \<Rightarrow> usize \<Rightarrow> assignments \<Rightarrow> 'i block_store \<Rightarrow> (usize \<times> assignments \<times> 'i block_store) option" where
  "lifo_pop_unassigned 0 dropped q st = Some (dropped, q, st)"
| "lifo_pop_unassigned (Suc n) dropped q st =
     (case pop_unassigned q of
        (None, q1) \<Rightarrow> Some (dropped, q1, st)
      | (Some (_, b), q1) \<Rightarrow> do { st1 \<leftarrow> release_mutable b st; lifo_pop_unassigned n (dropped + 1) q1 st1 })"

definition sc_pop_unassigned :: "usize \<Rightarrow> 'q schedulable \<Rightarrow> 'i block_store \<Rightarrow> (usize \<times> 'q schedulable \<times> 'i block_store) option" where
  "sc_pop_unassigned n s st = do {
     (dropped, q, st1) \<leftarrow> lifo_pop_unassigned n 0 (rs_assignments (sc_inner s)) st;
     Some (dropped, s\<lparr>sc_inner := (sc_inner s)\<lparr>rs_assignments := q\<rparr>\<rparr>, st1) }"

definition lifo_drop_excess_unassigned :: "'q token_sequence \<Rightarrow> 'q schedulable \<Rightarrow> 'i block_store \<Rightarrow>
    (usize \<times> 'q schedulable \<times> 'i block_store) option" where
  "lifo_drop_excess_unassigned T s st =
     (let need_gen = (if rs_is_complete (sc_inner s) then 0 else if sc_total_tokens T s mod sc_block_size T s \<noteq> 0 then 1 else 1)
      in sc_pop_unassigned (saturating_sub (unassigned_blocks (sc_inner s)) need_gen) s st)"

section \<open>Prefix matching\<close>

definition seq_match_and_add_prefix :: "'i index \<Rightarrow> 'q token_sequence \<Rightarrow> 'q schedulable \<Rightarrow> 'i block_store \<Rightarrow>
    ((schedule_error + usize) \<times> 'q schedulable \<times> 'i block_store) option" where
  "seq_match_and_add_prefix I T s st =
     (case require_idle s of
        Some e \<Rightarrow> Some (Inl e, s, st)
      | None \<Rightarrow> do {
          let bs = sc_block_size T s;
          let max_blocks = saturating_sub (rs_num_input_tokens (sc_inner s)) 1 div bs;
          (r, inner, st1) \<leftarrow> rs_match_and_add_prefix I T max_blocks (sc_inner s) st;
          (case r of
             Inl _ \<Rightarrow> None
           | Inr n \<Rightarrow>
               let s1 = s\<lparr>sc_inner := inner\<rparr>;
                   position = sc_prefill_position s1 + n * sc_block_size T s1;
                   s2 = (if 0 < n then s1\<lparr>sc_prefill_position := position, sc_kv_position := position\<rparr> else s1)
               in Some (Inr n, on_event (EvPrefixMatched n) s2, st1)) })"

section \<open>Prefill\<close>

text \<open>The common end of the schedules: allocate, enter the scheduled state, tell the delegate.\<close>

definition reserve :: "'i index \<Rightarrow> usize \<Rightarrow> sequence_state \<Rightarrow> sequence_event \<Rightarrow> 'q schedulable \<Rightarrow> 'i block_store \<Rightarrow>
    ((schedule_error + unit) \<times> 'q schedulable \<times> 'i block_store) option" where
  "reserve I to_allocate state event s st = do {
     (got, inner, st1) \<leftarrow> (if 0 < to_allocate then rs_allocate_blocks I to_allocate (sc_inner s) st
                           else Some (True, sc_inner s, st));
     let s1 = s\<lparr>sc_inner := inner\<rparr>;
     if got then Some (Inr (), on_event event (s1\<lparr>sc_state := state\<rparr>), st1)
     else Some (Inl (AllocationFailed to_allocate), s1, st1) }"

definition seq_schedule_prefill :: "'i index \<Rightarrow> 'q token_sequence \<Rightarrow> usize \<Rightarrow> 'q schedulable \<Rightarrow> 'i block_store \<Rightarrow>
    ((schedule_error + unit) \<times> 'q schedulable \<times> 'i block_store) option" where
  "seq_schedule_prefill I T num_tokens s st =
     (case require_idle s of
        Some e \<Rightarrow> Some (Inl e, s, st)
      | None \<Rightarrow>
          if is_prefill_complete s then Some (Inl PrefillComplete, s, st)
          else
            let num_input = rs_num_input_tokens (sc_inner s);
                new_position = sc_prefill_position s + num_tokens
            in if num_input < new_position
               then Some (Inl (PrefillOverrun (sc_prefill_position s) num_tokens num_input), s, st)
               else
                 let to_allocate = saturating_sub (div_ceil new_position (sc_block_size T s)) (held_blocks s)
                 in reserve I to_allocate (PrefillScheduled num_tokens to_allocate)
                      (EvPrefillScheduled num_tokens to_allocate) s st)"

definition seq_apply_prefill :: "'i index \<Rightarrow> duplication_policy \<Rightarrow> 'q token_sequence \<Rightarrow> u32 option \<Rightarrow> 'q schedulable \<Rightarrow> 'i block_store \<Rightarrow>
    ((apply_error + unit) \<times> 'q schedulable \<times> 'i block_store) option" where
  "seq_apply_prefill I policy T tok s st =
     (case sc_state s of
        PrefillScheduled num_tokens _ \<Rightarrow>
          let new_position = sc_prefill_position s + num_tokens;
              is_final = rs_num_input_tokens (sc_inner s) \<le> new_position
          in if tok \<noteq> None \<and> \<not> is_final then Some (Inl TokenOnNonFinalChunk, s, st)
             else if is_final \<and> tok = None \<and> 0 < rs_max_output_tokens (sc_inner s)
             then Some (Inl MissingTokenOnFinalChunk, s, st)
             else do {
               let before = assigned_blocks (sc_inner s);
               (inner, st1) \<leftarrow> complete_and_register_pending I policy T (sc_inner s) st;
               inner1 \<leftarrow> (case tok of None \<Rightarrow> Some inner | Some t \<Rightarrow> map_option snd (rs_append_token T t inner));
               Some (Inr (), on_event
                 (EvPrefillApplied num_tokens (assigned_blocks inner1 - before + staged_blocks inner1) (tok \<noteq> None))
                 (s\<lparr>sc_inner := inner1, sc_prefill_position := new_position, sc_kv_position := new_position, sc_state := Idle\<rparr>), st1) }
      | other \<Rightarrow> Some (Inl (WrongState ''PrefillScheduled'' other), s, st))"

section \<open>Decode\<close>

definition seq_schedule_decode :: "'i index \<Rightarrow> 'q token_sequence \<Rightarrow> 'q schedulable \<Rightarrow> 'i block_store \<Rightarrow>
    ((schedule_error + unit) \<times> 'q schedulable \<times> 'i block_store) option" where
  "seq_schedule_decode I T s st =
     (case decode_guards T s of
        Some e \<Rightarrow> Some (Inl e, s, st)
      | None \<Rightarrow>
          let registered = assigned_blocks (sc_inner s) + staged_blocks (sc_inner s);
              pending = saturating_sub (length (tk_blocks T (rs_sequence (sc_inner s)))) registered;
              to_allocate = saturating_sub (pending + 1) (unassigned_blocks (sc_inner s))
          in reserve I to_allocate (DecodeScheduled to_allocate) (EvDecodeScheduled to_allocate) s st)"

definition outcome :: "bool \<Rightarrow> bool \<Rightarrow> decode_outcome" where
  "outcome block_completed is_complete =
     (case (block_completed, is_complete) of
        (False, False) \<Rightarrow> Continue
      | (True, False) \<Rightarrow> BlockCompleted
      | (False, True) \<Rightarrow> MaxLength
      | (True, True) \<Rightarrow> BlockCompletedAndMaxLength)"

definition seq_apply_decode :: "'i index \<Rightarrow> duplication_policy \<Rightarrow> 'q token_sequence \<Rightarrow> u32 \<Rightarrow> 'q schedulable \<Rightarrow> 'i block_store \<Rightarrow>
    ((apply_error + decode_outcome) \<times> 'q schedulable \<times> 'i block_store) option" where
  "seq_apply_decode I policy T t s st =
     (case sc_state s of
        DecodeScheduled _ \<Rightarrow> do {
          (crossed, inner) \<leftarrow> rs_append_token T t (sc_inner s);
          (inner1, st1) \<leftarrow> complete_and_register_pending I policy T inner st;
          Some (Inr (outcome (crossed \<noteq> None) (rs_is_complete inner1)),
            on_event (EvDecodeApplied t (crossed \<noteq> None))
              (s\<lparr>sc_inner := inner1, sc_kv_position := sc_kv_position s + 1, sc_state := Idle\<rparr>), st1) }
      | other \<Rightarrow> Some (Inl (WrongState ''DecodeScheduled'' other), s, st))"

section \<open>Speculative decode\<close>

definition seq_schedule_speculative :: "'i index \<Rightarrow> 'q token_sequence \<Rightarrow> usize \<Rightarrow> 'q schedulable \<Rightarrow> 'i block_store \<Rightarrow>
    ((schedule_error + unit) \<times> 'q schedulable \<times> 'i block_store) option" where
  "seq_schedule_speculative I T num_draft_tokens s st =
     (case decode_guards T s of
        Some e \<Rightarrow> Some (Inl e, s, st)
      | None \<Rightarrow>
          let n = min num_draft_tokens (rs_remaining_tokens (sc_inner s));
              future_blocks = div_ceil (sc_total_tokens T s + n) (sc_block_size T s);
              to_allocate = saturating_sub future_blocks (held_blocks s)
          in reserve I to_allocate (SpeculativeScheduled n to_allocate) (EvSpeculativeScheduled n to_allocate) s st)"

fun append_accepted :: "'q token_sequence \<Rightarrow> u32 list \<Rightarrow> bool \<Rightarrow> 'q request_sequence \<Rightarrow> (bool \<times> 'q request_sequence) option" where
  "append_accepted T [] block_completed s = Some (block_completed, s)"
| "append_accepted T (t # ts) block_completed s = do {
     (crossed, s1) \<leftarrow> rs_append_token T t s;
     append_accepted T ts (block_completed \<or> crossed \<noteq> None) s1 }"

definition seq_apply_speculative :: "'i index \<Rightarrow> duplication_policy \<Rightarrow> 'q token_sequence \<Rightarrow> u32 list \<Rightarrow> 'q schedulable \<Rightarrow> 'i block_store \<Rightarrow>
    ((apply_error + decode_outcome) \<times> 'q schedulable \<times> 'i block_store) option" where
  "seq_apply_speculative I policy T accepted s st =
     (case sc_state s of
        SpeculativeScheduled scheduled _ \<Rightarrow>
          if scheduled < length accepted then Some (Inl (AcceptedExceedsScheduled (length accepted) scheduled), s, st)
          else do {
            (block_completed, inner) \<leftarrow> append_accepted T accepted False (sc_inner s);
            (inner1, st1) \<leftarrow> complete_and_register_pending I policy T inner st;
            (excess, s1, st2) \<leftarrow> lifo_drop_excess_unassigned T
              (s\<lparr>sc_inner := inner1, sc_kv_position := sc_kv_position s + length accepted\<rparr>) st1;
            Some (Inr (outcome block_completed (rs_is_complete (sc_inner s1))),
              on_event (EvSpeculativeApplied (length accepted) scheduled excess) (s1\<lparr>sc_state := Idle\<rparr>), st2) }
      | other \<Rightarrow> Some (Inl (WrongState ''SpeculativeScheduled'' other), s, st))"

section \<open>Revert and drop\<close>

definition seq_revert_schedule :: "'q schedulable \<Rightarrow> 'i block_store \<Rightarrow> ((apply_error + unit) \<times> 'q schedulable \<times> 'i block_store) option" where
  "seq_revert_schedule s st =
     (let undo = (\<lambda>n. do {
            (_, s1, st1) \<leftarrow> sc_pop_unassigned n s st;
            Some (Inr (), on_event (EvScheduleReverted n) (s1\<lparr>sc_state := Idle\<rparr>), st1) })
      in case sc_state s of
        PrefillScheduled _ blocks_allocated \<Rightarrow> undo blocks_allocated
      | DecodeScheduled blocks_allocated \<Rightarrow> undo blocks_allocated
      | SpeculativeScheduled _ blocks_allocated \<Rightarrow> undo blocks_allocated
      | Idle \<Rightarrow> Some (Inl (WrongState ''any Scheduled state'' Idle), s, st))"

definition seq_drop_unassigned :: "usize \<Rightarrow> 'q schedulable \<Rightarrow> 'i block_store \<Rightarrow> (usize \<times> 'q schedulable \<times> 'i block_store) option" where
  "seq_drop_unassigned n s st =
     (if sc_state s \<noteq> Idle then None
      else do {
        (dropped, s1, st1) \<leftarrow> sc_pop_unassigned n s st;
        Some (dropped, (if 0 < dropped then on_event (EvUnassignedDropped dropped) s1 else s1), st1) })"

section \<open>Lifecycle and tokens without KV\<close>

definition seq_release :: "'i index \<Rightarrow> 'q schedulable \<Rightarrow> 'i block_store \<Rightarrow> ((apply_error + unit) \<times> 'q schedulable \<times> 'i block_store) option" where
  "seq_release I s st =
     (case require_idle_for_apply s of
        Some e \<Rightarrow> Some (Inl e, s, st)
      | None \<Rightarrow> do {
          (inner, st1) \<leftarrow> rs_release I (sc_inner s) st;
          Some (Inr (), on_event EvReleased (s\<lparr>sc_inner := inner\<rparr>), st1) })"

definition seq_reacquire :: "'i index \<Rightarrow> duplication_policy \<Rightarrow> 'q token_sequence \<Rightarrow> 'q schedulable \<Rightarrow> 'i block_store \<Rightarrow>
    ((apply_error + bool) \<times> 'q schedulable \<times> 'i block_store) option" where
  "seq_reacquire I policy T s st =
     (case require_idle_for_apply s of
        Some e \<Rightarrow> Some (Inl e, s, st)
      | None \<Rightarrow> do {
          (success, inner, st1) \<leftarrow> rs_reacquire I policy T (sc_inner s) st;
          Some (Inr success, on_event (EvReacquired (rs_prefix_matched_blocks inner) success) (s\<lparr>sc_inner := inner\<rparr>), st1) })"

definition seq_append_tokens :: "'q token_sequence \<Rightarrow> u32 list \<Rightarrow> 'q schedulable \<Rightarrow> ((apply_error + unit) \<times> 'q schedulable) option" where
  "seq_append_tokens T tokens s =
     (case require_idle_for_apply s of
        Some e \<Rightarrow> Some (Inl e, s)
      | None \<Rightarrow>
          let remaining = rs_remaining_tokens (sc_inner s)
          in if remaining < length tokens then Some (Inl (AppendExceedsRemaining (length tokens) remaining), s)
          else do {
            (_, inner) \<leftarrow> append_accepted T tokens False (sc_inner s);
            Some (Inr (), s\<lparr>sc_inner := inner\<rparr>) })"

definition seq_pad_tail_block :: "'i index \<Rightarrow> duplication_policy \<Rightarrow> 'q token_sequence \<Rightarrow> u32 \<Rightarrow> 'q schedulable \<Rightarrow> 'i block_store \<Rightarrow>
    ((apply_error + usize) \<times> 'q schedulable \<times> 'i block_store) option" where
  "seq_pad_tail_block I policy T pad s st =
     (case require_idle_for_apply s of
        Some e \<Rightarrow> Some (Inl e, s, st)
      | None \<Rightarrow>
          if sc_kv_position s mod sc_block_size T s = 0 then Some (Inr 0, s, st)
          else do {
            (n, inner) \<leftarrow> rs_pad_tail_block T pad (sc_inner s);
            (inner1, st1) \<leftarrow> complete_and_register_pending I policy T inner st;
            Some (Inr n, s\<lparr>sc_inner := inner1\<rparr>, st1) })"

definition seq_adopt_external_prefill_anchor :: "'q token_sequence \<Rightarrow> 'q schedulable \<Rightarrow> ((apply_error + unit) \<times> 'q schedulable) option" where
  "seq_adopt_external_prefill_anchor T s =
     (case require_idle_for_apply s of
        Some e \<Rightarrow> Some (Inl e, s)
      | None \<Rightarrow>
          if sc_prefill_position s = sc_kv_position s \<and> sc_prefill_position s + 1 = rs_num_input_tokens (sc_inner s) \<and>
             tail_tokens T s = 1 \<and> 0 < rs_remaining_tokens (sc_inner s)
          then do { inner \<leftarrow> promote_last_input_to_generated (sc_inner s); Some (Inr (), s\<lparr>sc_inner := inner\<rparr>) }
          else Some (Inl (InvalidExternalPrefillAnchor (sc_prefill_position s) (sc_kv_position s)
            (rs_num_input_tokens (sc_inner s)) (tail_tokens T s) (rs_remaining_tokens (sc_inner s))), s))"

end
