(* ===== verification/Sequence_Ownership.thy ===== *)
theory Sequence_Ownership
  imports Scheduled_Sequence
begin

text \<open>
  What a sequence holds of the store, and what the operations on its collections do to it: the
  library the schedule and apply steps rest on.
\<close>

section \<open>Collections in normal form\<close>

definition shape :: "(block_id \<times> arc_addr) list \<Rightarrow> (block_id \<times> seq_hash) list \<Rightarrow> block_id list \<Rightarrow> assignments" where
  "shape as cs us = \<lparr>sq_assigned = as, sq_staged = map (\<lambda>(b, h). (b, (b, h))) cs, sq_unassigned = map (\<lambda>b. (b, b)) us\<rparr>"

lemma shape_simps [simp]:
  "sq_assigned (shape as cs us) = as" "sq_staged (shape as cs us) = map (\<lambda>(b, h). (b, (b, h))) cs"
  "sq_unassigned (shape as cs us) = map (\<lambda>b. (b, b)) us"
  by (simp_all add: shape_def)

lemma shape_empty: "new_seq_store = shape [] [] []"
  by (simp add: shape_def new_seq_store_def)

lemma shape_is_empty [simp]: "sq_is_empty (shape as cs us) \<longleftrightarrow> as = [] \<and> cs = [] \<and> us = []"
  by (simp add: sq_is_empty_def)

lemma all_block_ids_shape: "all_block_ids (shape as cs us) = map fst as @ map fst cs @ us"
  by (simp add: all_block_ids_def case_prod_beta o_def)

lemma im_insert_new: "b \<notin> fst ` set m \<Longrightarrow> im_insert b v m = m @ [(b, v)]"
  by (induction m) auto

lemma shape_keys [simp]:
  "fst ` set (map (\<lambda>(b, h). (b, (b, h))) cs) = fst ` set cs" "fst ` set (map (\<lambda>b. (b, b)) us) = set us"
  by force+

lemma insert_assigned_shape: "b \<notin> fst ` set as \<Longrightarrow> insert_assigned b a (shape as cs us) = shape (as @ [(b, a)]) cs us"
  by (simp add: insert_assigned_def im_insert_new shape_def)

lemma insert_staged_shape: "b \<notin> fst ` set cs \<Longrightarrow> insert_staged b (b, h) (shape as cs us) = shape as (cs @ [(b, h)]) us"
  by (simp add: insert_staged_def im_insert_new shape_def del: set_map)

lemma insert_unassigned_shape: "b \<notin> set us \<Longrightarrow> insert_unassigned b b (shape as cs us) = shape as cs (us @ [b])"
  by (simp add: insert_unassigned_def im_insert_new shape_def del: set_map)

lemma shift_unassigned_shape: "shift_unassigned (shape as cs (u # us)) = (Some (u, u), shape as cs us)"
  by (simp add: shift_unassigned_def shape_def)

lemma shift_staged_shape:
  "shift_staged (shape as [] us) = (None, shape as [] us)"
  "shift_staged (shape as ((b, h) # cs) us) = (Some (b, (b, h)), shape as cs us)"
  by (simp_all add: shift_staged_def shape_def)

lemma pop_unassigned_shape:
  "pop_unassigned (shape as cs []) = (None, shape as cs [])"
  "pop_unassigned (shape as cs (us @ [u])) = (Some (u, u), shape as cs us)"
  by (simp_all add: pop_unassigned_def shape_def)

lemma first_duplicate_None:
  "first_duplicate q seen ids = None \<longleftrightarrow> distinct ids \<and> set ids \<inter> set seen = {} \<and> (\<forall>b \<in> set ids. \<not> sq_contains b q)"
  by (induction ids arbitrary: seen) auto

lemma contains_shape: "sq_contains b (shape as cs us) \<longleftrightarrow> b \<in> set (map fst as @ map fst cs @ us)"
  by (force simp: sq_contains_def im_contains_def)

lemma validate_shape:
  "distinct (map fst as @ map fst cs @ us @ ids) \<Longrightarrow> validate_no_duplicates (shape as cs us) ids = None"
  unfolding validate_no_duplicates_def first_duplicate_None contains_shape by auto

lemma extend_blocks_shape:
  assumes "distinct (map fst as @ map fst cs @ us @ ids)"
  shows "extend_blocks ids (shape as cs us) = Inr (length ids, shape as cs (us @ ids))"
proof -
  have "distinct (us @ ids) \<Longrightarrow> fold (\<lambda>b. insert_unassigned b b) ids (shape as cs us) = shape as cs (us @ ids)"
    by (induction ids arbitrary: us) (auto simp: insert_unassigned_shape)
  thus ?thesis
    using assms by (simp add: extend_blocks_def validate_shape)
qed

lemma extend_assigned_shape:
  assumes "map (\<lambda>a. map_option in_block (bs_arcs st a)) blocks = map Some ids" and "distinct ids"
  shows "extend_assigned st blocks (shape [] [] []) = Some (Inr (length blocks, shape (zip ids blocks) [] []))"
proof -
  have those_Some: "those (map Some xs) = Some xs" for xs :: "block_id list"
    by (induction xs) auto
  have "distinct (map fst as @ map fst es) \<Longrightarrow> fold (\<lambda>(b, a). insert_assigned b a) es (shape as [] []) = shape (as @ es) [] []"
    for es as
    by (induction es arbitrary: as) (auto simp: insert_assigned_shape)
  from this [of "[]" "zip ids blocks"] show ?thesis
    using assms map_eq_imp_length_eq [OF assms(1)]
    by (simp add: extend_assigned_def block_ids_of_def those_Some validate_shape)
qed

section \<open>Ownership\<close>

text \<open>
  A sequence with hashes \<open>hs\<close> owns its guards and references, beside the guards \<open>gs\<close> and the
  references \<open>R\<close> of everybody else: its assigned blocks are registered under the first hashes and
  the staged ones carry those that follow.
\<close>

definition owns :: "('i \<Rightarrow> bool) \<Rightarrow> ('i \<Rightarrow> entry list) \<Rightarrow> nat \<Rightarrow> guard list \<Rightarrow> arc_addr multiset \<Rightarrow> seq_hash list \<Rightarrow>
    (block_id \<times> arc_addr) list \<Rightarrow> (block_id \<times> seq_hash) list \<Rightarrow> block_id list \<Rightarrow> 'i block_store \<Rightarrow> bool" where
  "owns iv entries cap gs R hs as cs us st \<longleftrightarrow>
     held_ok iv entries cap (map GMutable us @ map (\<lambda>(b, h). GComplete b h) cs @ gs) (mset (map snd as) + R) st \<and>
     map (arc_id st \<circ> snd) as = map Some (zip (map fst as) hs) \<and>
     map snd cs = take (length cs) (drop (length as) hs) \<and>
     distinct (map fst as)"

lemma ownsD:
  assumes "owns iv entries cap gs R hs as cs us st"
  shows "held_ok iv entries cap (map GMutable us @ map (\<lambda>(b, h). GComplete b h) cs @ gs) (mset (map snd as) + R) st"
    and "map (arc_id st \<circ> snd) as = map Some (zip (map fst as) hs)"
    and "map snd cs = take (length cs) (drop (length as) hs)" and "distinct (map fst as)"
  using assms by (simp_all add: owns_def)

lemma owns_length:
  assumes "owns iv entries cap gs R hs as cs us st"
  shows "length as + length cs \<le> length hs"
proof -
  have "length as = min (length as) (length hs)"
    using map_eq_imp_length_eq [OF ownsD(2) [OF assms]] by simp
  moreover have "length cs = min (length cs) (length hs - length as)"
    using arg_cong [OF ownsD(3) [OF assms], of length] by simp
  ultimately show ?thesis by linarith
qed

lemma owns_assigned:
  assumes "owns iv entries cap gs R hs as cs us st" and "(b, a) \<in> set as"
  shows "\<exists>h. arc_id st a = Some (b, h) \<and> h \<in> set hs"
proof -
  obtain k where k: "k < length as" "as ! k = (b, a)"
    using assms(2) by (auto simp: in_set_conv_nth)
  have "k < length hs" and "map (arc_id st \<circ> snd) as ! k = map Some (zip (map fst as) hs) ! k"
    using owns_length [OF assms(1)] ownsD(2) [OF assms(1)] k(1) by auto
  thus ?thesis
    using k by (auto simp: nth_mem)
qed

text \<open>Nothing is owned twice.\<close>

lemma owns_distinct:
  assumes "owns iv entries cap gs R hs as cs us st"
  shows "distinct (map fst as @ map fst cs @ us)"
proof -
  note h = ownsD(1) [OF assms]
  note S = slots_okD(5,6) [OF store_okD(6) [OF held_okD(1) [OF h]]]
  have u: "slot_at st b = Some Mutable" if "b \<in> set us" for b
    using S(1) [of b] that by auto
  have c: "slot_at st b = Some (Staged k)" if "(b, k) \<in> set cs" for b k
    using S(2) [of b k] that by force
  have a: "\<exists>h. slot_at st b = Some (Primary h x) \<or> slot_at st b = Some (Duplicate h x)" if bx: "(b, x) \<in> set as" for b x
  proof -
    have "x \<in># mset (map snd as) + R" using bx by force
    then obtain i where "bs_arcs st x = Some i" "arc_id st x = Some (in_block i, in_hash i)"
        "slot_at st (in_block i) = Some (if in_primary i then Primary (in_hash i) x else Duplicate (in_hash i) x)"
      by (rule held_slot [OF h])
    thus ?thesis using owns_assigned [OF assms bx] by auto
  qed
  have "distinct (map GMutable us)" "distinct (map (\<lambda>(b, h). GComplete b h) cs)"
    using store_okD(4) [OF held_okD(1) [OF h]] by simp_all
  hence "distinct us" "distinct cs"
    by (auto simp: distinct_map)
  moreover have "inj_on fst (set cs)"
  proof (rule inj_onI)
    fix x y assume xy: "x \<in> set cs" "y \<in> set cs" "fst x = fst y"
    obtain b k l where x: "x = (b, k)" "y = (b, l)" using xy(3) by (cases x, cases y) auto
    show "x = y" using c [of b k] c [of b l] xy(1,2) unfolding x by simp
  qed
  ultimately have "distinct us" "distinct (map fst cs)"
    by (auto simp: distinct_map)
  thus ?thesis
    using ownsD(4) [OF assms] u c a by fastforce
qed

lemma owns_more_hashes:
  assumes "owns iv entries cap gs R hs as [] us st" and "take (length hs) hs' = hs"
  shows "owns iv entries cap gs R hs' as [] us st"
proof -
  have "zip (map fst as) hs' = zip (map fst as) hs"
  proof (rule nth_equalityI)
    have "length hs \<le> length hs'"
      using arg_cong [OF assms(2), of length] by simp
    thus "length (zip (map fst as) hs') = length (zip (map fst as) hs)"
      using owns_length [OF assms(1)] by simp
    show "k < length (zip (map fst as) hs') \<Longrightarrow> zip (map fst as) hs' ! k = zip (map fst as) hs ! k" for k
      using owns_length [OF assms(1)] arg_cong [OF assms(2), of "\<lambda>xs. xs ! k"] by simp
  qed
  thus ?thesis
    using assms(1) by (simp add: owns_def)
qed

lemma owns_unmoved:
  assumes "owns iv entries cap gs R hs as cs us st" and "steady (mset (map snd as) + R) st st'"
    and "held_ok iv entries cap (map GMutable us' @ map (\<lambda>(b, h). GComplete b h) cs' @ gs') (mset (map snd as) + R) st'"
    and "map snd cs' = take (length cs') (drop (length as) hs)"
  shows "owns iv entries cap gs' R hs as cs' us' st'"
proof -
  have "arc_id st' a = arc_id st a" if "(b, a) \<in> set as" for b a
    using assms(2) that by (force simp: steady_def)
  hence "map (arc_id st' \<circ> snd) as = map (arc_id st \<circ> snd) as"
    by auto
  thus ?thesis
    using assms(3,4) ownsD(2,4) [OF assms(1)] by (simp add: owns_def)
qed

section \<open>Operations on the collections\<close>

lemma drop_eq_Cons: "drop n xs = y # ys \<Longrightarrow> ys = drop (Suc n) xs"
  by (metis drop_Suc list.sel(3) tl_drop)

lemma take_snoc: "drop n xs = y # ys \<Longrightarrow> take (Suc n) xs = take n xs @ [y]"
  by (metis drop_eq_Nil linorder_not_le list.distinct(1) nth_via_drop take_Suc_conv_app_nth)

lemma zip_snoc: "length xs < length ys \<Longrightarrow> zip (xs @ [x]) ys = zip xs ys @ [(x, ys ! length xs)]"
proof (induction xs arbitrary: ys)
  case Nil
  thus ?case by (cases ys) auto
next
  case (Cons z xs)
  thus ?case by (cases ys) auto
qed

context block_index
begin

abbreviation own where
  "own \<equiv> owns iv entries cap"

lemma allocate_own:
  assumes "own gs R hs as cs us st"
  shows "(\<exists>ids ev st'. allocate_atomic I n st = Some (Some (ids, ev), st') \<and> length ids = n \<and> unmoved st st' \<and>
      own gs R hs as cs (us @ ids) st' \<and> extend_blocks ids (shape as cs us) = Inr (n, shape as cs (us @ ids)) \<and> n \<le> available_len I st) \<or>
    allocate_atomic I n st = Some (None, st) \<and> available_len I st < n"
  using allocate_held [OF ownsD(1) [OF assms], of n]
proof (elim disjE exE conjE)
  fix ids ev st'
  assume a: "allocate_atomic I n st = Some (Some (ids, ev), st')" "length ids = n" "unmoved st st'" "n \<le> available_len I st"
    and h: "held (map GMutable ids @ map GMutable us @ map (\<lambda>(b, h). GComplete b h) cs @ gs) (mset (map snd as) + R) st'"
  have o: "own gs R hs as cs (us @ ids) st'"
    using held_guards [OF h] ownsD(3) [OF assms] by (intro owns_unmoved [OF assms unmoved_steady [OF a(3)]]) simp_all
  show ?thesis
    using a o extend_blocks_shape [of as cs us ids] owns_distinct [OF o] by simp
qed simp

lemma stage_own:
  assumes "own gs R hs as cs us st" and "map tb_kvbm_sequence_hash tbs = take (length tbs) (drop (length as + length cs) hs)"
    and "length tbs \<le> length us" and "\<forall>tb \<in> set tbs. tb_block_size tb = bs_block_size st"
  shows "\<exists>st'. stage_loop tbs (shape as cs us) st =
      Some (None, shape as (cs @ zip (take (length tbs) us) (map tb_kvbm_sequence_hash tbs)) (drop (length tbs) us), st') \<and>
    own gs R hs as (cs @ zip (take (length tbs) us) (map tb_kvbm_sequence_hash tbs)) (drop (length tbs) us) st' \<and> unmoved st st'"
  using assms
proof (induction tbs arbitrary: cs us st)
  case (Cons tb tbs)
  let ?h = "tb_kvbm_sequence_hash tb"
  obtain u us' where us: "us = u # us'"
    using Cons.prems(3) by (cases us) auto
  have drop: "drop (length as + length cs) hs = ?h # drop (length as + length (cs @ [(u, ?h)])) hs"
    using Cons.prems(2) drop_eq_Cons by (cases "drop (length as + length cs) hs") fastforce+
  obtain st1 where st1: "stage u ?h (tb_block_size tb) st = Some (Inr st1)" "unmoved st st1"
      "held (GComplete u ?h # map GMutable us' @ map (\<lambda>(b, h). GComplete b h) cs @ gs) (mset (map snd as) + R) st1"
    using stage_held [of u "map GMutable us' @ map (\<lambda>(b, h). GComplete b h) cs @ gs" "mset (map snd as) + R" st "tb_block_size tb" ?h]
      ownsD(1) [OF Cons.prems(1)] Cons.prems(4) us by auto
  have hs: "map snd (cs @ [(u, ?h)]) = take (length (cs @ [(u, ?h)])) (drop (length as) hs)"
    using ownsD(3) [OF Cons.prems(1)] take_snoc [of "length cs" "drop (length as) hs"] drop by (simp add: add.commute)
  have o: "own gs R hs as (cs @ [(u, ?h)]) us' st1"
    using held_guards [OF st1(3)] hs by (intro owns_unmoved [OF Cons.prems(1) unmoved_steady [OF st1(2)]]) simp_all
  have "u \<notin> fst ` set cs"
    using owns_distinct [OF Cons.prems(1)] us by auto
  moreover have "map tb_kvbm_sequence_hash tbs = take (length tbs) (drop (length as + length (cs @ [(u, ?h)])) hs)"
    using Cons.prems(2) unfolding drop by simp
  ultimately show ?case
    using Cons.IH [OF o] Cons.prems(3,4) st1(1,2) us
    by (auto simp: shift_unassigned_shape complete_block_def insert_staged_shape unmoved_def)
qed simp

lemma register_own:
  assumes "own gs R hs as cs us st"
  shows "\<exists>as' st'. register_loop I Allow (shape as cs us) st = Some (shape as' [] us, st') \<and> own gs R hs as' [] us st' \<and>
    map fst as' = map fst as @ map fst cs \<and> steady R st st'"
  using assms
proof (induction cs arbitrary: as st)
  case Nil
  have "register_loop I Allow (shape as [] us) st = Some (shape as [] us, st)"
    by (subst register_loop.simps) (simp add: shift_staged_shape)
  thus ?case
    using Nil by auto
next
  case (Cons c cs)
  obtain b h where c: "c = (b, h)" by fastforce
  let ?gs = "map GMutable us @ map (\<lambda>(b, h). GComplete b h) cs @ gs"
  have "held (GComplete b h # ?gs) (mset (map snd as) + R) st"
    by (rule held_guards [OF ownsD(1) [OF Cons.prems]]) (simp add: c)
  then obtain a st1 where r: "register_completed_block I Allow b h st = Some (a, st1)"
      "held ?gs (add_mset a (mset (map snd as) + R)) st1" "steady (mset (map snd as) + R) st st1" "arc_id st1 a = Some (b, h)"
    using register_held by (metis (no_types, lifting))
  have hs: "take (Suc (length cs)) (drop (length as) hs) = h # map snd cs"
    using ownsD(3) [OF Cons.prems] c by simp
  hence k: "length as < length hs" "hs ! length as = h" "map snd cs = take (length cs) (drop (length (as @ [(b, a)])) hs)"
    using owns_length [OF Cons.prems] by (auto simp: Cons_nth_drop_Suc [symmetric])
  have "arc_id st1 x = arc_id st x" if "(y, x) \<in> set as" for x y
    using r(3) that by (force simp: steady_def)
  hence "map (arc_id st1 \<circ> snd) as = map (arc_id st \<circ> snd) as" by auto
  hence "map (arc_id st1 \<circ> snd) (as @ [(b, a)]) = map Some (zip (map fst (as @ [(b, a)])) hs)"
    using ownsD(2) [OF Cons.prems] r(4) k(1,2) zip_snoc [of "map fst as" hs b] by simp
  hence o: "own gs R hs (as @ [(b, a)]) cs us st1"
    using r(2) k(3) owns_distinct [OF Cons.prems] c by (simp add: owns_def)
  obtain as' st' where i: "register_loop I Allow (shape (as @ [(b, a)]) cs us) st1 = Some (shape as' [] us, st')"
      "own gs R hs as' [] us st'" "map fst as' = map fst (as @ [(b, a)]) @ map fst cs" "steady R st1 st'"
    using Cons.IH [OF o] by blast
  have "b \<notin> fst ` set as"
    using owns_distinct [OF Cons.prems] c by auto
  hence "register_loop I Allow (shape as (c # cs) us) st = Some (shape as' [] us, st')"
    using i(1) r(1) by (subst register_loop.simps) (simp add: c shift_staged_shape insert_assigned_shape)
  moreover have "steady R st st'"
    using steady_trans [OF steady_mono [OF r(3)] i(4)] by simp
  ultimately show ?case
    using i(2,3) c by auto
qed

lemma clear_own:
  assumes "own gs R hs as cs us st"
  shows "\<exists>st'. clear_assignments I (shape as cs us) st = Some (shape [] [] [], st') \<and> held gs R st' \<and> steady R st st'"
proof -
  obtain st1 where 1: "drop_immutables I (map snd as) st = Some st1" "held (map GMutable us @ map (\<lambda>(b, h). GComplete b h) cs @ gs) R st1" "steady R st st1"
    using drop_immutables_held [OF ownsD(1) [OF assms]] by blast
  have "held (map (\<lambda>(b, h). GComplete b h) cs @ map GMutable us @ gs) R st1"
    by (rule held_guards [OF 1(2)]) simp
  then obtain st2 where 2: "drop_completes cs st1 = Some st2" "held (map GMutable us @ gs) R st2" "unmoved st1 st2"
    using drop_completes_held by blast
  obtain st3 where 3: "release_mutables us st2 = Some st3" "held gs R st3" "unmoved st2 st3"
    using release_mutables_held [OF 2(2)] by blast
  have "steady R st st3"
    using steady_trans [OF 1(3) unmoved_steady [OF unmoved_trans [OF 2(3) 3(3)]]] .
  thus ?thesis
    using 1(1) 2(1) 3(1,2) by (simp add: clear_assignments_def case_prod_beta o_def shape_empty)
qed

lemma pop_own:
  assumes "own gs R hs as cs us st"
  shows "\<exists>st'. lifo_pop_unassigned n d (shape as cs us) st = Some (d + min n (length us), shape as cs (take (length us - n) us), st') \<and>
    own gs R hs as cs (take (length us - n) us) st' \<and> unmoved st st' \<and>
    bs_free st' = bs_free st @ rev (drop (length us - n) us) \<and> bs_inactive st' = bs_inactive st"
  using assms
proof (induction n arbitrary: us d st)
  case (Suc n)
  show ?case
  proof (cases us rule: rev_cases)
    case Nil
    thus ?thesis using Suc.prems by (simp add: pop_unassigned_shape)
  next
    case (snoc vs u)
    have "held (map GMutable [u] @ map GMutable vs @ map (\<lambda>(b, h). GComplete b h) cs @ gs) (mset (map snd as) + R) st"
      by (rule held_guards [OF ownsD(1) [OF Suc.prems]]) (simp add: snoc)
    then obtain st1 where 1: "release_mutables [u] st = Some st1" "unmoved st st1" "bs_free st1 = bs_free st @ [u]"
        "held (map GMutable vs @ map (\<lambda>(b, h). GComplete b h) cs @ gs) (mset (map snd as) + R) st1" "bs_inactive st1 = bs_inactive st"
      using release_mutables_held by blast
    have o: "own gs R hs as cs vs st1"
      using 1(4) ownsD(3) [OF Suc.prems] by (intro owns_unmoved [OF Suc.prems unmoved_steady [OF 1(2)]])
    have "release_mutable u st = Some st1"
      using 1(1) by (simp add: bind_eq_Some_conv)
    thus ?thesis
      using Suc.IH [OF o, of "d + 1"] 1(2,3,5) snoc by (auto simp: pop_unassigned_shape intro: unmoved_trans)
  qed
qed simp

end

end
