(* ===== verification/Sequence_Protocol.thy ===== *)
theory Sequence_Protocol
  imports Sequence_Ownership
begin

text \<open>
  The state machine of a sequence over the store: its invariant, and that every operation keeps
  it and does not panic.
\<close>

section \<open>Token sequences\<close>

lemma token_lawsD:
  assumes "token_laws T valid"
  shows "0 < n \<Longrightarrow> valid (tk_new T ts n salt)" "0 < n \<Longrightarrow> tk_total_tokens T (tk_new T ts n salt) = length ts"
    "0 < n \<Longrightarrow> tk_block_size T (tk_new T ts n salt) = n"
    "valid q \<Longrightarrow> 0 < tk_block_size T q" "valid q \<Longrightarrow> length (tk_blocks T q) = tk_total_tokens T q div tk_block_size T q"
    "valid q \<Longrightarrow> b \<in> set (tk_blocks T q) \<Longrightarrow> tb_block_size b = tk_block_size T q"
    "valid q \<Longrightarrow> tk_total_tokens T q \<le> usize_max \<Longrightarrow> distinct (all_sequence_hashes T q)"
  using assms unfolding token_laws_def all_sequence_hashes_def by blast+

lemma token_append:
  assumes "token_laws T valid" and "valid q"
  obtains q' where "tk_append T t q =
      Some (if (tk_total_tokens T q + 1) mod tk_block_size T q = 0 then Some (length (tk_blocks T q)) else None, q')"
    and "valid q'" and "tk_total_tokens T q' = tk_total_tokens T q + 1" and "tk_block_size T q' = tk_block_size T q"
    and "take (length (all_sequence_hashes T q)) (all_sequence_hashes T q') = all_sequence_hashes T q"
proof -
  obtain q' where q': "tk_append T t q =
      Some (if (tk_total_tokens T q + 1) mod tk_block_size T q = 0 then Some (length (tk_blocks T q)) else None, q')"
      "valid q'" "tk_total_tokens T q' = tk_total_tokens T q + 1" "tk_block_size T q' = tk_block_size T q"
      "take (length (tk_blocks T q)) (tk_blocks T q') = tk_blocks T q"
    using assms unfolding token_laws_def by blast
  show thesis
    using that [OF q'(1-4)] q'(5) by (metis all_sequence_hashes_def length_map take_map)
qed

section \<open>Operations of a request sequence\<close>

lemma append_token_eq:
  assumes T: "token_laws T valid" and v: "valid (rs_sequence s)" and room: "rs_generated_tokens s < rs_max_output_tokens s"
  obtains (goal) q' where "rs_append_token T t s =
      Some (if (tk_total_tokens T (rs_sequence s) + 1) mod tk_block_size T (rs_sequence s) = 0
            then Some (length (tk_blocks T (rs_sequence s))) else None,
        s\<lparr>rs_sequence := q', rs_generated_tokens := rs_generated_tokens s + 1\<rparr>)"
    and "valid q'" and "tk_total_tokens T q' = tk_total_tokens T (rs_sequence s) + 1"
    and "tk_block_size T q' = tk_block_size T (rs_sequence s)"
    and "take (length (all_sequence_hashes T (rs_sequence s))) (all_sequence_hashes T q') = all_sequence_hashes T (rs_sequence s)"
proof (rule token_append [OF T v, of t])
  fix q'
  assume q': "tk_append T t (rs_sequence s) =
      Some (if (tk_total_tokens T (rs_sequence s) + 1) mod tk_block_size T (rs_sequence s) = 0
            then Some (length (tk_blocks T (rs_sequence s))) else None, q')"
  show thesis if "valid q'" "tk_total_tokens T q' = tk_total_tokens T (rs_sequence s) + 1"
      "tk_block_size T q' = tk_block_size T (rs_sequence s)"
      "take (length (all_sequence_hashes T (rs_sequence s))) (all_sequence_hashes T q') = all_sequence_hashes T (rs_sequence s)"
    by (rule goal [OF _ that]) (use q' room in \<open>simp add: rs_append_token_def\<close>)
qed

lemma take_take_trans: "take (length xs) ys = xs \<Longrightarrow> take (length ys) zs = ys \<Longrightarrow> take (length xs) zs = xs"
  by (metis length_take min.cobounded1 min.absorb1 take_take)

lemma append_accepted_eq:
  assumes T: "token_laws T valid" and "valid (rs_sequence s)" and "rs_generated_tokens s + length ts \<le> rs_max_output_tokens s"
  obtains q' c' where "append_accepted T ts c s = Some (c', s\<lparr>rs_sequence := q', rs_generated_tokens := rs_generated_tokens s + length ts\<rparr>)"
    and "valid q'" and "tk_total_tokens T q' = tk_total_tokens T (rs_sequence s) + length ts"
    and "tk_block_size T q' = tk_block_size T (rs_sequence s)"
    and "take (length (all_sequence_hashes T (rs_sequence s))) (all_sequence_hashes T q') = all_sequence_hashes T (rs_sequence s)"
    and "c' \<longleftrightarrow> c \<or> tk_total_tokens T (rs_sequence s) div tk_block_size T (rs_sequence s) <
      tk_total_tokens T q' div tk_block_size T (rs_sequence s)"
  using assms(2,3)
proof (induction ts arbitrary: s c thesis)
  case Nil
  show ?case
    by (rule Nil(1) [of c "rs_sequence s"]) (use Nil(2) in simp_all)
next
  case (Cons t ts)
  obtain q1 where q1: "rs_append_token T t s =
      Some (if (tk_total_tokens T (rs_sequence s) + 1) mod tk_block_size T (rs_sequence s) = 0
            then Some (length (tk_blocks T (rs_sequence s))) else None,
        s\<lparr>rs_sequence := q1, rs_generated_tokens := rs_generated_tokens s + 1\<rparr>)"
      "valid q1" "tk_total_tokens T q1 = tk_total_tokens T (rs_sequence s) + 1" "tk_block_size T q1 = tk_block_size T (rs_sequence s)"
      "take (length (all_sequence_hashes T (rs_sequence s))) (all_sequence_hashes T q1) = all_sequence_hashes T (rs_sequence s)"
    by (rule append_token_eq [OF T Cons.prems(2), of t]) (use Cons.prems(3) in simp)
  let ?s = "s\<lparr>rs_sequence := q1, rs_generated_tokens := rs_generated_tokens s + 1\<rparr>"
  let ?bs = "tk_block_size T (rs_sequence s)" let ?n = "tk_total_tokens T (rs_sequence s)"
  let ?c = "c \<or> (?n + 1) mod ?bs = 0"
  obtain c' q' where i: "append_accepted T ts ?c ?s = Some (c', ?s\<lparr>rs_sequence := q', rs_generated_tokens := rs_generated_tokens ?s + length ts\<rparr>)"
      "valid q'" "tk_total_tokens T q' = tk_total_tokens T q1 + length ts" "tk_block_size T q' = tk_block_size T q1"
      "take (length (all_sequence_hashes T q1)) (all_sequence_hashes T q') = all_sequence_hashes T q1"
      "c' \<longleftrightarrow> ?c \<or> tk_total_tokens T q1 div tk_block_size T q1 < tk_total_tokens T q' div tk_block_size T q1"
    by (rule Cons.IH [where s = ?s and c = ?c]) (use q1(2) Cons.prems(3) in simp_all)
  have "(?n + 1) mod ?bs = 0 \<longleftrightarrow> ?n div ?bs < (?n + 1) div ?bs"
    using token_lawsD(4) [OF T Cons.prems(2)] by (metis Suc_eq_plus1 div_Suc lessI less_irrefl)
  moreover have "(?n + 1) div ?bs \<le> (?n + 1 + length ts) div ?bs" "?n div ?bs \<le> (?n + 1) div ?bs"
    by (simp_all add: div_le_mono)
  ultimately have c': "c' \<longleftrightarrow> c \<or> ?n div ?bs < tk_total_tokens T q' div ?bs"
    unfolding i(6) i(3) q1(3) q1(4) by linarith
  show ?case
    by (rule Cons.prems(1) [of c' q']) (use i q1 c' take_take_trans in \<open>auto simp: \<close>)
qed

context block_index
begin

lemma rs_allocate_own:
  assumes "own gs R hs as cs us st" and "rs_assignments s = shape as cs us"
  shows "(\<exists>ids st'. length ids = n \<and> rs_allocate_blocks I n s st = Some (True, s\<lparr>rs_assignments := shape as cs (us @ ids)\<rparr>, st') \<and>
      own gs R hs as cs (us @ ids) st' \<and> unmoved st st' \<and> n \<le> available_len I st) \<or>
    0 < n \<and> rs_allocate_blocks I n s st = Some (False, s, st) \<and> available_len I st < n"
proof (cases "n = 0")
  case True
  thus ?thesis
    using assms by (auto simp: rs_allocate_blocks_def)
next
  case False
  thus ?thesis
    using allocate_own [OF assms(1), of n] assms(2) by (auto simp: rs_allocate_blocks_def)
qed

text \<open>Staging and registering every complete block the sequence has a guard for.\<close>

lemma stage_register_own:
  assumes o: "own gs R (map tb_kvbm_sequence_hash tbs) as [] us st" and sizes: "\<forall>tb \<in> set tbs. tb_block_size tb = bs_block_size st"
  defines "n \<equiv> min (length tbs - length as) (length us)"
  obtains q st1 as' st' where "stage_blocks (drop (length as) tbs) (shape as [] us) st = Some (Inr n, q, st1)"
    and "register_blocks I Allow q st1 = Some (n, shape as' [] (drop n us), st')"
    and "own gs R (map tb_kvbm_sequence_hash tbs) as' [] (drop n us) st'" and "map fst as' = map fst as @ take n us" and "steady R st st'"
proof -
  let ?hs = "map tb_kvbm_sequence_hash tbs" and ?c = "take n (drop (length as) tbs)"
  let ?cs = "zip (take n us) (map tb_kvbm_sequence_hash ?c)"
  have n: "length ?c = n" "n \<le> length us" "min (length (drop (length as) tbs)) (length us) = n"
    by (simp_all add: n_def)
  have 1: "map tb_kvbm_sequence_hash ?c = take (length ?c) (drop (length as + length []) ?hs)"
    unfolding n(1) by (simp add: take_map drop_map)
  have 2: "\<forall>tb \<in> set ?c. tb_block_size tb = bs_block_size st"
    using sizes by (auto dest!: in_set_takeD in_set_dropD)
  obtain st1 where st1: "stage_loop ?c (shape as [] us) st = Some (None, shape as ?cs (drop n us), st1)"
      "own gs R ?hs as ?cs (drop n us) st1" "unmoved st st1"
    using stage_own [OF o 1 _ 2] n by auto
  obtain as' st' where r: "register_loop I Allow (shape as ?cs (drop n us)) st1 = Some (shape as' [] (drop n us), st')"
      "own gs R ?hs as' [] (drop n us) st'" "map fst as' = map fst as @ map fst ?cs" "steady R st1 st'"
    using register_own [OF st1(2)] by blast
  have fst: "map fst ?cs = take n us" "length ?cs = n"
    using n by (simp_all add: map_fst_zip)
  have "stage_blocks (drop (length as) tbs) (shape as [] us) st = Some (Inr n, shape as ?cs (drop n us), st1)"
    using st1(1) n(3) by (simp add: stage_blocks_def)
  moreover have "register_blocks I Allow (shape as ?cs (drop n us)) st1 = Some (n, shape as' [] (drop n us), st')"
    using r(1) fst(2) by (simp add: register_blocks_def)
  ultimately show thesis
    using that r(2,3) fst(1) steady_trans [OF unmoved_steady [OF st1(3)] r(4)] by metis
qed

lemma complete_pending_own:
  assumes T: "token_laws T valid" "valid (rs_sequence s)" and s: "rs_assignments s = shape as [] us"
    and o: "own gs R (all_sequence_hashes T (rs_sequence s)) as [] us st" and bs: "bs_block_size st = tk_block_size T (rs_sequence s)"
  defines "n \<equiv> min (length (tk_blocks T (rs_sequence s)) - length as) (length us)"
  shows "\<exists>as' st'. complete_and_register_pending I Allow T s st = Some (s\<lparr>rs_assignments := shape as' [] (drop n us)\<rparr>, st') \<and>
    own gs R (all_sequence_hashes T (rs_sequence s)) as' [] (drop n us) st' \<and> map fst as' = map fst as @ take n us \<and> steady R st st'"
proof -
  let ?tbs = "tk_blocks T (rs_sequence s)" and ?hs = "all_sequence_hashes T (rs_sequence s)"
  show ?thesis
  proof (cases "length as < length ?tbs")
    case True
    obtain q st1 as' st' where r: "stage_blocks (drop (length as) ?tbs) (shape as [] us) st = Some (Inr n, q, st1)"
        "register_blocks I Allow q st1 = Some (n, shape as' [] (drop n us), st')" "own gs R ?hs as' [] (drop n us) st'"
        "map fst as' = map fst as @ take n us" "steady R st st'"
      using stage_register_own [of gs R ?tbs as us st] o token_lawsD(6) [OF T] bs unfolding n_def all_sequence_hashes_def by metis
    have "complete_and_register_pending I Allow T s st = Some (s\<lparr>rs_assignments := shape as' [] (drop n us)\<rparr>, st')"
      using True r(1,2) s by (simp add: complete_and_register_pending_def stage_pending_def register_staged_def
          assigned_blocks_def staged_blocks_def)
    thus ?thesis using r by blast
  next
    case False
    hence n: "n = 0" by (simp add: n_def)
    have "complete_and_register_pending I Allow T s st = Some (s\<lparr>rs_assignments := shape as [] us\<rparr>, st)"
      using False s by (simp add: complete_and_register_pending_def stage_pending_def register_staged_def register_blocks_def
          assigned_blocks_def staged_blocks_def) (subst register_loop.simps, simp add: shift_staged_shape)
    thus ?thesis using n o by (intro exI [of _ as] exI [of _ st]) simp
  qed
qed

end

section \<open>The invariant of the state machine\<close>

text \<open>Where the positions stand, and what a scheduled step has reserved.\<close>

definition positions_ok :: "'q token_sequence \<Rightarrow> ('q \<Rightarrow> bool) \<Rightarrow> 'q schedulable \<Rightarrow> bool" where
  "positions_ok T valid s \<longleftrightarrow>
     (let r = sc_inner s; t = sc_total_tokens T s; room = held_blocks s * sc_block_size T s in
      valid (rs_sequence r) \<and> rs_num_input_tokens r + rs_generated_tokens r \<le> t \<and> rs_generated_tokens r \<le> rs_max_output_tokens r \<and>
      sc_prefill_position s \<le> rs_num_input_tokens r \<and> sc_kv_position s \<le> t \<and>
      (is_prefill_complete s \<or> sc_kv_position s = sc_prefill_position s) \<and>
      (case sc_state s of
         Idle \<Rightarrow> True
       | PrefillScheduled n m \<Rightarrow> \<not> is_prefill_complete s \<and> sc_prefill_position s + n \<le> rs_num_input_tokens r \<and>
           m \<le> unassigned_blocks r \<and> sc_kv_position s + n \<le> room
       | DecodeScheduled m \<Rightarrow> is_prefill_complete s \<and> rs_generated_tokens r < rs_max_output_tokens r \<and> t = sc_kv_position s + 1 \<and>
           m \<le> unassigned_blocks r \<and> sc_kv_position s + 1 < room
       | SpeculativeScheduled n m \<Rightarrow> is_prefill_complete s \<and> rs_generated_tokens r + n \<le> rs_max_output_tokens r \<and>
           rs_generated_tokens r < rs_max_output_tokens r \<and> t = sc_kv_position s + 1 \<and>
           m \<le> unassigned_blocks r \<and> sc_kv_position s + n \<le> room))"

text \<open>The sequence and the store together, beside the guards \<open>gs\<close> and references \<open>R\<close> of others.\<close>

definition sequence_ok ::
  "('i \<Rightarrow> bool) \<Rightarrow> ('i \<Rightarrow> entry list) \<Rightarrow> nat \<Rightarrow> 'q token_sequence \<Rightarrow> ('q \<Rightarrow> bool) \<Rightarrow> guard list \<Rightarrow> arc_addr multiset \<Rightarrow>
    'q schedulable \<Rightarrow> 'i block_store \<Rightarrow> bool" where
  "sequence_ok iv entries cap T valid gs R s st \<longleftrightarrow> positions_ok T valid s \<and> bs_block_size st = sc_block_size T s \<and>
     (\<exists>as us. rs_assignments (sc_inner s) = shape as [] us \<and>
        owns iv entries cap gs R (all_sequence_hashes T (rs_sequence (sc_inner s))) as [] us st)"

definition keeps ::
  "('i \<Rightarrow> bool) \<Rightarrow> ('i \<Rightarrow> entry list) \<Rightarrow> nat \<Rightarrow> 'q token_sequence \<Rightarrow> ('q \<Rightarrow> bool) \<Rightarrow> guard list \<Rightarrow> arc_addr multiset \<Rightarrow>
    'i block_store \<Rightarrow> ('x \<times> 'q schedulable \<times> 'i block_store) option \<Rightarrow> bool" where
  "keeps iv entries cap T valid gs R st r \<longleftrightarrow>
     (\<exists>x s' st'. r = Some (x, s', st') \<and> sequence_ok iv entries cap T valid gs R s' st' \<and> steady R st st')"

lemma keepsI: "r = Some (x, s', st') \<Longrightarrow> sequence_ok iv entries cap T valid gs R s' st' \<Longrightarrow> steady R st st' \<Longrightarrow>
    keeps iv entries cap T valid gs R st r"
  by (auto simp: keeps_def)

lemma keeps_same: "sequence_ok iv entries cap T valid gs R s st \<Longrightarrow> r = Some (x, s, st) \<Longrightarrow> keeps iv entries cap T valid gs R st r"
  by (simp add: keeps_def)

lemma on_event_simps [simp]:
  "sc_inner (on_event e s) = sc_inner s" "sc_state (on_event e s) = sc_state s"
  "sc_prefill_position (on_event e s) = sc_prefill_position s" "sc_kv_position (on_event e s) = sc_kv_position s"
  by (simp_all add: on_event_def)

lemmas sc_defs = sc_total_tokens_def sc_block_size_def is_prefill_complete_def held_blocks_def assigned_blocks_def
  staged_blocks_def unassigned_blocks_def tail_tokens_def saturating_sub_def rs_is_complete_def rs_remaining_tokens_def

lemma decode_guards_None: "decode_guards T s = None \<longleftrightarrow> sc_state s = Idle \<and> is_prefill_complete s \<and>
    rs_generated_tokens (sc_inner s) < rs_max_output_tokens (sc_inner s) \<and> sc_total_tokens T s = sc_kv_position s + 1"
  by (auto simp: decode_guards_def require_idle_def require_prefill_complete_def require_not_complete_def
      require_one_dangling_def sc_defs)

lemma positions_event [simp]: "positions_ok T valid (on_event e s) = positions_ok T valid s"
  by (cases "sc_state s") (simp_all add: positions_ok_def sc_defs Let_def)

text \<open>How much a schedule asks for, and that it is enough.\<close>

lemma decode_room:
  assumes "0 < bs" and "t div bs - a + 1 - u \<le> (n :: nat)"
  shows "t < (a + u + n) * bs"
proof -
  have "t div bs + 1 \<le> a + u + n"
    using assms(2) by linarith
  hence "(t div bs + 1) * bs \<le> (a + u + n) * bs"
    by (rule mult_le_mono1)
  moreover have "t < (t div bs + 1) * bs"
    using assms(1) dividend_less_times_div [of bs t] by (simp add: algebra_simps)
  ultimately show ?thesis by linarith
qed

lemma ceil_room: "0 < bs \<Longrightarrow> div_ceil t bs - h \<le> n \<Longrightarrow> t \<le> (h + n) * bs"
  by (metis add.commute div_ceil_le_iff le_diff_conv)

text \<open>The token of the last prefill chunk, if there is one.\<close>

lemma emit_token:
  assumes T: "token_laws T valid" and v: "valid (rs_sequence r)"
    and "tok = None \<or> 0 < rs_max_output_tokens r - rs_generated_tokens r" and "rs_generated_tokens r \<le> rs_max_output_tokens r"
  obtains q' g' where "(case tok of None \<Rightarrow> Some r | Some t \<Rightarrow> map_option snd (rs_append_token T t r)) =
      Some (r\<lparr>rs_sequence := q', rs_generated_tokens := g'\<rparr>)"
    and "valid q'" and "tk_block_size T q' = tk_block_size T (rs_sequence r)" and "g' \<le> rs_max_output_tokens r"
    and "tk_total_tokens T q' + rs_generated_tokens r = tk_total_tokens T (rs_sequence r) + g'" and "rs_generated_tokens r \<le> g'"
    and "take (length (all_sequence_hashes T (rs_sequence r))) (all_sequence_hashes T q') = all_sequence_hashes T (rs_sequence r)"
    and "g' = rs_generated_tokens r + (if tok = None then 0 else 1)"
proof (cases tok)
  case None
  thus thesis using that [where q' = "rs_sequence r" and g' = "rs_generated_tokens r"] v assms(4) by simp
next
  case (Some t)
  show thesis
    by (rule append_token_eq [OF T v, of t]) (use that [where g' = "rs_generated_tokens r + 1"] assms(3) Some in auto)
qed

context block_index
begin

lemma reserve_own:
  assumes "rs_assignments (sc_inner s) = shape as [] us" and "own gs R hs as [] us st"
  shows "(\<exists>ids st'. length ids = n \<and> reserve I n state ev s st =
        Some (Inr (), on_event ev (s\<lparr>sc_inner := (sc_inner s)\<lparr>rs_assignments := shape as [] (us @ ids)\<rparr>, sc_state := state\<rparr>), st') \<and>
      own gs R hs as [] (us @ ids) st' \<and> unmoved st st' \<and> n \<le> available_len I st) \<or>
    0 < n \<and> reserve I n state ev s st = Some (Inl (AllocationFailed n), s, st) \<and> available_len I st < n"
  using rs_allocate_own [OF assms(2,1), of n]
proof (elim disjE exE conjE)
  fix ids st'
  assume a: "length ids = n" "rs_allocate_blocks I n (sc_inner s) st = Some (True, (sc_inner s)\<lparr>rs_assignments := shape as [] (us @ ids)\<rparr>, st')"
    "own gs R hs as [] (us @ ids) st'" "unmoved st st'" "n \<le> available_len I st"
  hence "reserve I n state ev s st =
      Some (Inr (), on_event ev (s\<lparr>sc_inner := (sc_inner s)\<lparr>rs_assignments := shape as [] (us @ ids)\<rparr>, sc_state := state\<rparr>), st')"
    by (cases "n = 0") (auto simp: reserve_def rs_allocate_blocks_def)
  thus ?thesis using a by blast
next
  assume "0 < n" "rs_allocate_blocks I n (sc_inner s) st = Some (False, sc_inner s, st)" "available_len I st < n"
  thus ?thesis by (simp add: reserve_def)
qed

lemma reserve_keeps:
  assumes ok: "sequence_ok iv entries cap T valid gs R s st"
    and pos: "\<And>as us ids st'. rs_assignments (sc_inner s) = shape as [] us \<Longrightarrow> length ids = n \<Longrightarrow>
      positions_ok T valid (s\<lparr>sc_inner := (sc_inner s)\<lparr>rs_assignments := shape as [] (us @ ids)\<rparr>, sc_state := state\<rparr>)"
  shows "keeps iv entries cap T valid gs R st (reserve I n state ev s st)"
proof -
  obtain as us where s: "rs_assignments (sc_inner s) = shape as [] us"
      "own gs R (all_sequence_hashes T (rs_sequence (sc_inner s))) as [] us st"
    using ok by (auto simp: sequence_ok_def)
  from reserve_own [OF s, of n state ev] show ?thesis
  proof (elim disjE exE conjE)
    fix ids st'
    let ?s = "s\<lparr>sc_inner := (sc_inner s)\<lparr>rs_assignments := shape as [] (us @ ids)\<rparr>, sc_state := state\<rparr>"
    assume a: "length ids = n" "reserve I n state ev s st = Some (Inr (), on_event ev ?s, st')"
      "own gs R (all_sequence_hashes T (rs_sequence (sc_inner s))) as [] (us @ ids) st'" "unmoved st st'"
    have "positions_ok T valid (on_event ev ?s)"
      using pos [OF s(1) a(1)] by simp
    thus ?thesis
      using a ok by (intro keepsI [OF a(2) _ unmoved_steady]) (auto simp: sequence_ok_def sc_defs unmoved_def)
  qed (auto intro: keeps_same [OF ok])
qed

lemma schedule_prefill_keeps:
  assumes T: "token_laws T valid" and ok: "sequence_ok iv entries cap T valid gs R s st"
  shows "keeps iv entries cap T valid gs R st (seq_schedule_prefill I T n s st)"
proof (cases "sc_state s = Idle \<and> \<not> is_prefill_complete s \<and> sc_prefill_position s + n \<le> rs_num_input_tokens (sc_inner s)")
  case True
  note P = ok [unfolded sequence_ok_def positions_ok_def Let_def]
  have "0 < sc_block_size T s"
    using P token_lawsD(4) [OF T] by (simp add: sc_block_size_def)
  let ?n = "saturating_sub (div_ceil (sc_prefill_position s + n) (sc_block_size T s)) (held_blocks s)"
  have "keeps iv entries cap T valid gs R st (reserve I ?n (PrefillScheduled n ?n) (EvPrefillScheduled n ?n) s st)"
  proof (rule reserve_keeps [OF ok])
    fix as us and ids :: "block_id list"
    assume s: "rs_assignments (sc_inner s) = shape as [] us" "length ids = ?n"
    have "sc_prefill_position s + n \<le> (length as + length us + length ids) * sc_block_size T s"
      using ceil_room [OF \<open>0 < sc_block_size T s\<close>, of "sc_prefill_position s + n" "held_blocks s" "length ids"] s
      by (simp add: sc_defs)
    thus "positions_ok T valid (s\<lparr>sc_inner := (sc_inner s)\<lparr>rs_assignments := shape as [] (us @ ids)\<rparr>, sc_state := PrefillScheduled n ?n\<rparr>)"
      using P True s by (auto simp: positions_ok_def sc_defs Let_def add.assoc)
  qed
  thus ?thesis
    using True by (simp add: seq_schedule_prefill_def require_idle_def Let_def)
next
  case False
  hence "\<exists>e. seq_schedule_prefill I T n s st = Some (Inl e, s, st)"
    by (auto simp: seq_schedule_prefill_def require_idle_def Let_def)
  then obtain e where e: "seq_schedule_prefill I T n s st = Some (Inl e, s, st)" ..
  show ?thesis
    by (rule keeps_same [OF ok e])
qed

lemma schedule_decode_keeps:
  assumes T: "token_laws T valid" and ok: "sequence_ok iv entries cap T valid gs R s st"
  shows "keeps iv entries cap T valid gs R st (seq_schedule_decode I T s st)"
proof (cases "decode_guards T s")
  case None
  note G = None [unfolded decode_guards_None]
  note P = ok [unfolded sequence_ok_def positions_ok_def Let_def]
  have bs: "0 < sc_block_size T s"
    and len: "length (tk_blocks T (rs_sequence (sc_inner s))) = sc_total_tokens T s div sc_block_size T s"
    using P token_lawsD(4,5) [OF T] by (simp_all add: sc_block_size_def sc_total_tokens_def)
  let ?n = "saturating_sub (saturating_sub (length (tk_blocks T (rs_sequence (sc_inner s))))
      (assigned_blocks (sc_inner s) + staged_blocks (sc_inner s)) + 1) (unassigned_blocks (sc_inner s))"
  have "keeps iv entries cap T valid gs R st (reserve I ?n (DecodeScheduled ?n) (EvDecodeScheduled ?n) s st)"
  proof (rule reserve_keeps [OF ok])
    fix as us and ids :: "block_id list"
    assume s: "rs_assignments (sc_inner s) = shape as [] us" "length ids = ?n"
    have "sc_total_tokens T s < (length as + length us + length ids) * sc_block_size T s"
      by (rule decode_room [OF bs]) (simp add: s(2) len saturating_sub_def assigned_blocks_def staged_blocks_def unassigned_blocks_def s(1))
    thus "positions_ok T valid (s\<lparr>sc_inner := (sc_inner s)\<lparr>rs_assignments := shape as [] (us @ ids)\<rparr>, sc_state := DecodeScheduled ?n\<rparr>)"
      using P G s by (auto simp: positions_ok_def sc_defs Let_def add.assoc)
  qed
  thus ?thesis
    using None by (simp add: seq_schedule_decode_def Let_def)
next
  case (Some e)
  thus ?thesis
    by (intro keeps_same [OF ok]) (simp add: seq_schedule_decode_def)
qed

lemma schedule_speculative_keeps:
  assumes T: "token_laws T valid" and ok: "sequence_ok iv entries cap T valid gs R s st"
  shows "keeps iv entries cap T valid gs R st (seq_schedule_speculative I T k s st)"
proof (cases "decode_guards T s")
  case None
  note G = None [unfolded decode_guards_None]
  note P = ok [unfolded sequence_ok_def positions_ok_def Let_def]
  have bs: "0 < sc_block_size T s"
    using P token_lawsD(4) [OF T] by (simp add: sc_block_size_def)
  let ?k = "min k (rs_remaining_tokens (sc_inner s))"
  let ?n = "saturating_sub (div_ceil (sc_total_tokens T s + ?k) (sc_block_size T s)) (held_blocks s)"
  have "keeps iv entries cap T valid gs R st (reserve I ?n (SpeculativeScheduled ?k ?n) (EvSpeculativeScheduled ?k ?n) s st)"
  proof (rule reserve_keeps [OF ok])
    fix as us and ids :: "block_id list"
    assume s: "rs_assignments (sc_inner s) = shape as [] us" "length ids = ?n"
    have "sc_total_tokens T s + ?k \<le> (length as + length us + length ids) * sc_block_size T s"
      using ceil_room [OF bs, of "sc_total_tokens T s + ?k" "held_blocks s" "length ids"] s by (simp add: sc_defs)
    moreover have "rs_generated_tokens (sc_inner s) + ?k \<le> rs_max_output_tokens (sc_inner s)"
      using G by (simp add: sc_defs min_def) linarith
    ultimately show "positions_ok T valid (s\<lparr>sc_inner := (sc_inner s)\<lparr>rs_assignments := shape as [] (us @ ids)\<rparr>,
        sc_state := SpeculativeScheduled ?k ?n\<rparr>)"
      using P G s by (auto simp: positions_ok_def sc_defs Let_def add.assoc)
  qed
  thus ?thesis
    using None by (simp add: seq_schedule_speculative_def Let_def)
next
  case (Some e)
  thus ?thesis
    by (intro keeps_same [OF ok]) (simp add: seq_schedule_speculative_def)
qed

text \<open>Committing: the pending blocks of an inner sequence that may have grown by some tokens.\<close>

lemma commit_pending:
  assumes T: "token_laws T valid" and ok: "sequence_ok iv entries cap T valid gs R s st"
    and q: "valid q" "tk_block_size T q = sc_block_size T s"
      "take (length (all_sequence_hashes T (rs_sequence (sc_inner s)))) (all_sequence_hashes T q) = all_sequence_hashes T (rs_sequence (sc_inner s))"
  obtains as us as' us' st' where "rs_assignments (sc_inner s) = shape as [] us"
    and "complete_and_register_pending I Allow T ((sc_inner s)\<lparr>rs_sequence := q, rs_generated_tokens := g\<rparr>) st =
      Some ((sc_inner s)\<lparr>rs_sequence := q, rs_generated_tokens := g, rs_assignments := shape as' [] us'\<rparr>, st')"
    and "own gs R (all_sequence_hashes T q) as' [] us' st'" and "steady R st st'" and "map fst as' @ us' = map fst as @ us"
    and "length as' = length as + min (length (tk_blocks T q) - length as) (length us)" and "bs_block_size st' = bs_block_size st"
proof -
  obtain as us where s: "rs_assignments (sc_inner s) = shape as [] us"
      "own gs R (all_sequence_hashes T (rs_sequence (sc_inner s))) as [] us st" "bs_block_size st = sc_block_size T s"
    using ok by (auto simp: sequence_ok_def)
  let ?r = "(sc_inner s)\<lparr>rs_sequence := q, rs_generated_tokens := g\<rparr>"
  let ?n = "min (length (tk_blocks T q) - length as) (length us)"
  obtain as' st' where c: "complete_and_register_pending I Allow T ?r st = Some (?r\<lparr>rs_assignments := shape as' [] (drop ?n us)\<rparr>, st')"
      "own gs R (all_sequence_hashes T q) as' [] (drop ?n us) st'" "map fst as' = map fst as @ take ?n us" "steady R st st'"
    using complete_pending_own [OF T, of ?r as us gs R st] q s owns_more_hashes [OF s(2) q(3)] by auto
  have "length as' = length as + ?n"
    using arg_cong [OF c(3), of length] by simp
  thus thesis
    by (intro that [of as us as' "drop ?n us" st']) (use c s in \<open>auto simp: steady_def\<close>)
qed

lemma idle_ok:
  assumes "positions_ok T valid s \<and> sc_state s = Idle" and "bs_block_size st = sc_block_size T s"
    and "rs_assignments (sc_inner s) = shape as [] us" and "own gs R (all_sequence_hashes T (rs_sequence (sc_inner s))) as [] us st"
  shows "sequence_ok iv entries cap T valid gs R s st"
  using assms by (auto simp: sequence_ok_def)

lemma apply_prefill_keeps:
  assumes T: "token_laws T valid" and ok: "sequence_ok iv entries cap T valid gs R s st"
    and tok: "\<And>n m. sc_state s = PrefillScheduled n m \<Longrightarrow>
      tok = None \<or> 0 < rs_max_output_tokens (sc_inner s) - rs_generated_tokens (sc_inner s)"
  shows "keeps iv entries cap T valid gs R st (seq_apply_prefill I Allow T tok s st)"
proof (cases "\<exists>n m. sc_state s = PrefillScheduled n m \<and>
    \<not> (tok \<noteq> None \<and> sc_prefill_position s + n < rs_num_input_tokens (sc_inner s)) \<and>
    \<not> (rs_num_input_tokens (sc_inner s) \<le> sc_prefill_position s + n \<and> tok = None \<and> 0 < rs_max_output_tokens (sc_inner s))")
  case True
  then obtain n m where st: "sc_state s = PrefillScheduled n m"
      "\<not> (tok \<noteq> None \<and> sc_prefill_position s + n < rs_num_input_tokens (sc_inner s))"
      "\<not> (rs_num_input_tokens (sc_inner s) \<le> sc_prefill_position s + n \<and> tok = None \<and> 0 < rs_max_output_tokens (sc_inner s))"
    by blast
  note P = ok [unfolded sequence_ok_def positions_ok_def Let_def]
  let ?q = "rs_sequence (sc_inner s)" and ?g = "rs_generated_tokens (sc_inner s)"
  have v: "valid ?q" using P by blast
  obtain as us as' us' st' where c: "complete_and_register_pending I Allow T ((sc_inner s)\<lparr>rs_sequence := ?q, rs_generated_tokens := ?g\<rparr>) st =
      Some ((sc_inner s)\<lparr>rs_sequence := ?q, rs_generated_tokens := ?g, rs_assignments := shape as' [] us'\<rparr>, st')"
      "own gs R (all_sequence_hashes T ?q) as' [] us' st'" "steady R st st'" "bs_block_size st' = bs_block_size st"
    by (rule commit_pending [OF T ok v, where g = ?g]) (simp_all add: sc_block_size_def)
  let ?r = "(sc_inner s)\<lparr>rs_assignments := shape as' [] us'\<rparr>"
  obtain q' g' where r: "(case tok of None \<Rightarrow> Some ?r | Some t \<Rightarrow> map_option snd (rs_append_token T t ?r)) =
        Some (?r\<lparr>rs_sequence := q', rs_generated_tokens := g'\<rparr>)"
      "valid q'" "tk_block_size T q' = sc_block_size T s" "tk_total_tokens T q' + ?g = sc_total_tokens T s + g'" "?g \<le> g'"
      "g' \<le> rs_max_output_tokens (sc_inner s)"
      "take (length (all_sequence_hashes T ?q)) (all_sequence_hashes T q') = all_sequence_hashes T ?q"
    by (rule emit_token [OF T, of ?r tok]) (use P tok [OF st(1)] in \<open>simp_all add: sc_block_size_def sc_total_tokens_def\<close>)
  let ?s = "s\<lparr>sc_inner := ?r\<lparr>rs_sequence := q', rs_generated_tokens := g'\<rparr>, sc_prefill_position := sc_prefill_position s + n,
      sc_kv_position := sc_prefill_position s + n, sc_state := Idle\<rparr>"
  have eq: "\<exists>x e. seq_apply_prefill I Allow T tok s st = Some (x, on_event e ?s, st')"
    using st c(1) r(1) by (auto simp: seq_apply_prefill_def Let_def not_le not_less split: option.splits)
  then obtain x e where e: "seq_apply_prefill I Allow T tok s st = Some (x, on_event e ?s, st')" by blast
  have "sequence_ok iv entries cap T valid gs R (on_event e ?s) st'"
    by (rule idle_ok [of _ _ _ _ as' us']) (use P st r c owns_more_hashes [OF c(2) r(7)] in \<open>auto simp: positions_ok_def sc_defs Let_def\<close>)
  thus ?thesis
    by (rule keepsI [OF e _ c(3)])
next
  case False
  hence "\<exists>e. seq_apply_prefill I Allow T tok s st = Some (Inl e, s, st)"
    by (cases "sc_state s") (auto simp: seq_apply_prefill_def Let_def not_le not_less)
  then obtain e where e: "seq_apply_prefill I Allow T tok s st = Some (Inl e, s, st)" ..
  show ?thesis
    by (rule keeps_same [OF ok e])
qed

lemma apply_decode_keeps:
  assumes T: "token_laws T valid" and ok: "sequence_ok iv entries cap T valid gs R s st"
  shows "keeps iv entries cap T valid gs R st (seq_apply_decode I Allow T t s st)"
proof (cases "\<exists>m. sc_state s = DecodeScheduled m")
  case True
  then obtain m where m: "sc_state s = DecodeScheduled m" by blast
  note P = ok [unfolded sequence_ok_def positions_ok_def Let_def m, simplified]
  let ?r = "sc_inner s" and ?g = "rs_generated_tokens (sc_inner s) + 1"
  have v: "valid (rs_sequence ?r)" "rs_generated_tokens ?r < rs_max_output_tokens ?r"
    using P by simp_all
  obtain q' c where q': "rs_append_token T t ?r = Some (c, ?r\<lparr>rs_sequence := q', rs_generated_tokens := ?g\<rparr>)"
      "valid q'" "tk_total_tokens T q' = sc_total_tokens T s + 1" "tk_block_size T q' = sc_block_size T s"
      "take (length (all_sequence_hashes T (rs_sequence ?r))) (all_sequence_hashes T q') = all_sequence_hashes T (rs_sequence ?r)"
    by (rule append_token_eq [OF T v, of t]) (simp add: sc_block_size_def sc_total_tokens_def)
  obtain as' us' st' where c: "complete_and_register_pending I Allow T (?r\<lparr>rs_sequence := q', rs_generated_tokens := ?g\<rparr>) st =
      Some (?r\<lparr>rs_sequence := q', rs_generated_tokens := ?g, rs_assignments := shape as' [] us'\<rparr>, st')"
      "own gs R (all_sequence_hashes T q') as' [] us' st'" "steady R st st'" "bs_block_size st' = bs_block_size st"
    by (rule commit_pending [OF T ok q'(2,4,5), where g = ?g])
  let ?s = "s\<lparr>sc_inner := ?r\<lparr>rs_sequence := q', rs_generated_tokens := ?g, rs_assignments := shape as' [] us'\<rparr>,
      sc_kv_position := sc_kv_position s + 1, sc_state := Idle\<rparr>"
  have "\<exists>x e. seq_apply_decode I Allow T t s st = Some (x, on_event e ?s, st')"
    using m q'(1) c(1) by (auto simp: seq_apply_decode_def)
  then obtain x e where e: "seq_apply_decode I Allow T t s st = Some (x, on_event e ?s, st')" by blast
  have "sequence_ok iv entries cap T valid gs R (on_event e ?s) st'"
    by (rule idle_ok [of _ _ _ _ as' us']) (use P q' c in \<open>auto simp: positions_ok_def sc_defs Let_def\<close>)
  thus ?thesis
    by (rule keepsI [OF e _ c(3)])
next
  case False
  hence "\<exists>e. seq_apply_decode I Allow T t s st = Some (Inl e, s, st)"
    by (cases "sc_state s") (auto simp: seq_apply_decode_def)
  then obtain e where e: "seq_apply_decode I Allow T t s st = Some (Inl e, s, st)" ..
  show ?thesis
    by (rule keeps_same [OF ok e])
qed

lemma sc_pop_own:
  assumes "rs_assignments (sc_inner s) = shape as [] us" and "own gs R hs as [] us st"
  shows "\<exists>st'. sc_pop_unassigned n s st = Some (min n (length us),
      s\<lparr>sc_inner := (sc_inner s)\<lparr>rs_assignments := shape as [] (take (length us - n) us)\<rparr>\<rparr>, st') \<and>
    own gs R hs as [] (take (length us - n) us) st' \<and> unmoved st st' \<and>
    bs_free st' = bs_free st @ rev (drop (length us - n) us) \<and> bs_inactive st' = bs_inactive st"
  using pop_own [OF assms(2), of n 0] assms(1) by (auto simp: sc_pop_unassigned_def)

lemma apply_speculative_keeps:
  assumes T: "token_laws T valid" and ok: "sequence_ok iv entries cap T valid gs R s st"
  shows "keeps iv entries cap T valid gs R st (seq_apply_speculative I Allow T ts s st)"
proof (cases "\<exists>n m. sc_state s = SpeculativeScheduled n m \<and> length ts \<le> n")
  case True
  then obtain n m where m: "sc_state s = SpeculativeScheduled n m" "length ts \<le> n" by blast
  note P = ok [unfolded sequence_ok_def positions_ok_def Let_def m(1), simplified]
  let ?r = "sc_inner s" and ?g = "rs_generated_tokens (sc_inner s) + length ts"
  have v: "valid (rs_sequence ?r)" "?g \<le> rs_max_output_tokens ?r"
    using P m(2) by simp_all
  obtain q' c where q': "append_accepted T ts False ?r = Some (c, ?r\<lparr>rs_sequence := q', rs_generated_tokens := ?g\<rparr>)"
      "valid q'" "tk_total_tokens T q' = sc_total_tokens T s + length ts" "tk_block_size T q' = sc_block_size T s"
      "take (length (all_sequence_hashes T (rs_sequence ?r))) (all_sequence_hashes T q') = all_sequence_hashes T (rs_sequence ?r)"
    by (rule append_accepted_eq [OF T v, of False]) (simp add: sc_block_size_def sc_total_tokens_def)
  obtain as' us' st1 where c: "complete_and_register_pending I Allow T (?r\<lparr>rs_sequence := q', rs_generated_tokens := ?g\<rparr>) st =
      Some (?r\<lparr>rs_sequence := q', rs_generated_tokens := ?g, rs_assignments := shape as' [] us'\<rparr>, st1)"
      "own gs R (all_sequence_hashes T q') as' [] us' st1" "steady R st st1" "bs_block_size st1 = bs_block_size st"
    by (rule commit_pending [OF T ok q'(2,4,5), where g = ?g])
  let ?s1 = "s\<lparr>sc_inner := ?r\<lparr>rs_sequence := q', rs_generated_tokens := ?g, rs_assignments := shape as' [] us'\<rparr>,
      sc_kv_position := sc_kv_position s + length ts\<rparr>"
  obtain x us2 st2 where d: "lifo_drop_excess_unassigned T ?s1 st1 =
        Some (x, ?s1\<lparr>sc_inner := (sc_inner ?s1)\<lparr>rs_assignments := shape as' [] us2\<rparr>\<rparr>, st2)"
      "own gs R (all_sequence_hashes T q') as' [] us2 st2" "unmoved st1 st2"
    using sc_pop_own [of ?s1 as' us', OF _ c(2)] unfolding lifo_drop_excess_unassigned_def Let_def by fastforce
  let ?s = "?s1\<lparr>sc_inner := (sc_inner ?s1)\<lparr>rs_assignments := shape as' [] us2\<rparr>, sc_state := Idle\<rparr>"
  have "\<exists>x e. seq_apply_speculative I Allow T ts s st = Some (x, on_event e ?s, st2)"
    using m q'(1) c(1) d(1) by (auto simp: seq_apply_speculative_def)
  then obtain x e where e: "seq_apply_speculative I Allow T ts s st = Some (x, on_event e ?s, st2)" by blast
  have "sequence_ok iv entries cap T valid gs R (on_event e ?s) st2"
    by (rule idle_ok [of _ _ _ _ as' us2]) (use P q' v(2) c(4) d in \<open>auto simp: positions_ok_def sc_defs Let_def unmoved_def\<close>)
  thus ?thesis
    by (rule keepsI [OF e _ steady_trans [OF c(3) unmoved_steady [OF d(3)]]])
next
  case False
  hence "\<exists>e. seq_apply_speculative I Allow T ts s st = Some (Inl e, s, st)"
    by (cases "sc_state s") (auto simp: seq_apply_speculative_def)
  then obtain e where e: "seq_apply_speculative I Allow T ts s st = Some (Inl e, s, st)" ..
  show ?thesis
    by (rule keeps_same [OF ok e])
qed

lemma revert_keeps:
  assumes ok: "sequence_ok iv entries cap T valid gs R s st"
  shows "keeps iv entries cap T valid gs R st (seq_revert_schedule s st)"
proof (cases "sc_state s = Idle")
  case True
  thus ?thesis
    by (intro keeps_same [OF ok]) (simp add: seq_revert_schedule_def)
next
  case False
  then obtain m where m: "seq_revert_schedule s st = do {
      (_, s1, st1) \<leftarrow> sc_pop_unassigned m s st; Some (Inr (), on_event (EvScheduleReverted m) (s1\<lparr>sc_state := Idle\<rparr>), st1) }"
    by (cases "sc_state s") (auto simp: seq_revert_schedule_def)
  obtain as us where s: "rs_assignments (sc_inner s) = shape as [] us"
      "own gs R (all_sequence_hashes T (rs_sequence (sc_inner s))) as [] us st"
    using ok by (auto simp: sequence_ok_def)
  let ?s = "s\<lparr>sc_inner := (sc_inner s)\<lparr>rs_assignments := shape as [] (take (length us - m) us)\<rparr>, sc_state := Idle\<rparr>"
  obtain st' where st': "sc_pop_unassigned m s st = Some (min m (length us), s\<lparr>sc_inner := (sc_inner s)\<lparr>rs_assignments := shape as [] (take (length us - m) us)\<rparr>\<rparr>, st')"
      "own gs R (all_sequence_hashes T (rs_sequence (sc_inner s))) as [] (take (length us - m) us) st'" "unmoved st st'"
    using sc_pop_own [OF s, of m] by blast
  have e: "seq_revert_schedule s st = Some (Inr (), on_event (EvScheduleReverted m) ?s, st')"
    using m st'(1) by simp
  have "sequence_ok iv entries cap T valid gs R (on_event (EvScheduleReverted m) ?s) st'"
    by (rule idle_ok [of _ _ _ _ as "take (length us - m) us"])
      (use ok st' in \<open>auto simp: sequence_ok_def positions_ok_def sc_defs Let_def unmoved_def split: sequence_state.splits\<close>)
  thus ?thesis
    by (rule keepsI [OF e _ unmoved_steady [OF st'(3)]])
qed

lemma drop_unassigned_keeps:
  assumes ok: "sequence_ok iv entries cap T valid gs R s st" and idle: "sc_state s = Idle"
  shows "keeps iv entries cap T valid gs R st (seq_drop_unassigned n s st)"
proof -
  obtain as us where s: "rs_assignments (sc_inner s) = shape as [] us"
      "own gs R (all_sequence_hashes T (rs_sequence (sc_inner s))) as [] us st"
    using ok by (auto simp: sequence_ok_def)
  let ?s = "s\<lparr>sc_inner := (sc_inner s)\<lparr>rs_assignments := shape as [] (take (length us - n) us)\<rparr>\<rparr>"
  obtain st' where st': "sc_pop_unassigned n s st = Some (min n (length us), ?s, st')"
      "own gs R (all_sequence_hashes T (rs_sequence (sc_inner s))) as [] (take (length us - n) us) st'" "unmoved st st'"
    using sc_pop_own [OF s, of n] by blast
  let ?t = "if 0 < min n (length us) then on_event (EvUnassignedDropped (min n (length us))) ?s else ?s"
  have e: "seq_drop_unassigned n s st = Some (min n (length us), ?t, st')"
    using st'(1) idle by (simp add: seq_drop_unassigned_def)
  have "sequence_ok iv entries cap T valid gs R ?t st'"
    by (rule idle_ok [of _ _ _ _ as "take (length us - n) us"])
      (use ok st' idle in \<open>auto simp: sequence_ok_def positions_ok_def sc_defs Let_def unmoved_def\<close>)
  thus ?thesis
    by (rule keepsI [OF e _ unmoved_steady [OF st'(3)]])
qed

lemma owns_nothing: "held gs R st \<Longrightarrow> own gs R hs [] [] [] st"
  by (simp add: owns_def)

lemma rs_release_own:
  assumes "rs_assignments r = shape as [] us" and "own gs R hs as [] us st"
  shows "\<exists>st'. rs_release I r st = Some (r\<lparr>rs_assignments := shape [] [] []\<rparr>, st') \<and> own gs R hs [] [] [] st' \<and> steady R st st'"
  using clear_own [OF assms(2)] assms(1) owns_nothing by (auto simp: rs_release_def)

lemma release_keeps:
  assumes ok: "sequence_ok iv entries cap T valid gs R s st"
  shows "keeps iv entries cap T valid gs R st (seq_release I s st)"
proof (cases "sc_state s = Idle")
  case True
  obtain as us where s: "rs_assignments (sc_inner s) = shape as [] us"
      "own gs R (all_sequence_hashes T (rs_sequence (sc_inner s))) as [] us st"
    using ok by (auto simp: sequence_ok_def)
  let ?s = "s\<lparr>sc_inner := (sc_inner s)\<lparr>rs_assignments := shape [] [] []\<rparr>\<rparr>"
  obtain st' where st': "rs_release I (sc_inner s) st = Some ((sc_inner s)\<lparr>rs_assignments := shape [] [] []\<rparr>, st')"
      "own gs R (all_sequence_hashes T (rs_sequence (sc_inner s))) [] [] [] st'" "steady R st st'"
    using rs_release_own [OF s] by blast
  have e: "seq_release I s st = Some (Inr (), on_event EvReleased ?s, st')"
    using True st'(1) by (simp add: seq_release_def require_idle_for_apply_def)
  have "sequence_ok iv entries cap T valid gs R (on_event EvReleased ?s) st'"
    by (rule idle_ok [of _ _ _ _ "[]" "[]"]) (use ok st' True in \<open>auto simp: sequence_ok_def positions_ok_def sc_defs Let_def steady_def\<close>)
  thus ?thesis
    by (rule keepsI [OF e _ st'(3)])
next
  case False
  thus ?thesis
    by (intro keeps_same [OF ok]) (simp add: seq_release_def require_idle_for_apply_def)
qed

lemma matched_own:
  assumes h: "held gs (mset as + R) st" and d: "distinct hs" and len: "length as \<le> length hs"
    and labels: "\<And>k. k < length as \<Longrightarrow> \<exists>b. arc_id st (as ! k) = Some (b, hs ! k)"
  obtains ids where "length ids = length as" and "own gs R hs (zip ids as) [] [] st"
    and "map (\<lambda>a. map_option in_block (bs_arcs st a)) as = map Some ids" and "distinct ids"
proof -
  define ids where "ids = map (\<lambda>a. fst (the (arc_id st a))) as"
  have id: "arc_id st (as ! k) = Some (ids ! k, hs ! k)" if "k < length as" for k
    using labels [OF that] that by (auto simp: ids_def)
  have slot: "slot_at st (ids ! k) = Some (Primary (hs ! k) (as ! k)) \<or> slot_at st (ids ! k) = Some (Duplicate (hs ! k) (as ! k))"
    if k: "k < length as" for k
  proof -
    have "as ! k \<in># mset as + R" using k by simp
    then obtain i where "bs_arcs st (as ! k) = Some i" "arc_id st (as ! k) = Some (in_block i, in_hash i)"
        "slot_at st (in_block i) = Some (if in_primary i then Primary (in_hash i) (as ! k) else Duplicate (in_hash i) (as ! k))"
      by (rule held_slot [OF h])
    thus ?thesis using id [OF k] by auto
  qed
  have "distinct ids"
    unfolding distinct_conv_nth
  proof (intro allI impI)
    fix j k assume "j < length ids" "k < length ids" "j \<noteq> k"
    hence jk: "j < length as" "k < length as" "hs ! j \<noteq> hs ! k"
      using d len by (auto simp: ids_def nth_eq_iff_index_eq)
    show "ids ! j \<noteq> ids ! k"
      using slot [OF jk(1)] slot [OF jk(2)] jk(3) by auto
  qed
  moreover have "map (arc_id st \<circ> snd) (zip ids as) = map Some (zip (map fst (zip ids as)) hs)"
    by (rule nth_equalityI) (use id len in \<open>auto simp: ids_def\<close>)
  moreover have "map (\<lambda>a. map_option in_block (bs_arcs st a)) as = map Some ids"
    by (rule nth_equalityI) (use id in \<open>force simp: ids_def arc_id_def\<close>)+
  ultimately show thesis
    using that [of ids] h by (simp add: owns_def ids_def)
qed

lemma no_mismatch:
  assumes "length tbs = length as" and "\<And>k. k < length as \<Longrightarrow> \<exists>b. arc_id st (as ! k) = Some (b, tb_kvbm_sequence_hash (tbs ! k))"
  shows "hash_mismatch st p as tbs = Some None"
  using assms
proof (induction as arbitrary: tbs p)
  case (Cons a as)
  obtain tb tbs' where t: "tbs = tb # tbs'"
    using Cons.prems(1) by (cases tbs) auto
  have "\<exists>b. arc_id st a = Some (b, tb_kvbm_sequence_hash tb)"
    using Cons.prems(2) [of 0] t by simp
  moreover have "hash_mismatch st (p + 1) as tbs' = Some None"
    using Cons.prems(1) Cons.prems(2) [of "Suc k" for k] t by (intro Cons.IH) auto
  ultimately show ?case
    using t by (auto simp: arc_id_def)
qed simp

text \<open>Looking up the hashes of a sequence and keeping at most \<open>k\<close> hits.\<close>

lemma match_kept:
  assumes h: "held gs R st" and hs: "distinct hs"
  obtains as st1 st2 ids where "match_prefix_locked_batch I hs st = Some (as, st1)"
    and "drop_immutables I (drop k as) st1 = Some st2" and "length as \<le> length hs" and "length ids = length (take k as)"
    and "own gs R hs (zip ids (take k as)) [] [] st2" and "steady R st st2"
    and "extend_assigned st2 (take k as) (shape [] [] []) = Some (Inr (length (take k as), shape (zip ids (take k as)) [] []))"
    and "\<And>j. j < length (take k as) \<Longrightarrow> \<exists>b. arc_id st2 (take k as ! j) = Some (b, hs ! j)"
proof -
  obtain as st1 where m: "match_prefix_locked_batch I hs st = Some (as, st1)" "held gs (mset as + R) st1" "steady R st st1"
      "length as \<le> length hs" "\<And>j. j < length as \<Longrightarrow> \<exists>b. arc_id st1 (as ! j) = Some (b, hs ! j)"
    using match_held [OF h, of hs] by blast
  let ?as = "take k as"
  have split: "mset as = mset (drop k as) + mset ?as"
    by (metis add.commute append_take_drop_id mset_append)
  obtain st2 where d: "drop_immutables I (drop k as) st1 = Some st2" "held gs (mset ?as + R) st2" "steady (mset ?as + R) st1 st2"
    using drop_immutables_held [of gs "drop k as" "mset ?as + R" st1] m(2) split by (auto simp: add.assoc)
  have lab: "\<exists>b. arc_id st2 (?as ! j) = Some (b, hs ! j)" if "j < length ?as" for j
    using m(5) [of j] d(3) that by (auto simp: steady_def dest!: spec [of _ "as ! j"] simp: in_set_conv_nth)
  have len: "length ?as \<le> length hs" using m(4) by simp
  obtain ids where ids: "length ids = length ?as" "own gs R hs (zip ids ?as) [] [] st2"
      "map (\<lambda>a. map_option in_block (bs_arcs st2 a)) ?as = map Some ids" "distinct ids"
    using matched_own [OF d(2) hs len lab] by blast
  have "steady R st st2"
    using steady_trans [OF m(3) steady_mono [OF d(3)]] by simp
  thus thesis
    by (rule that [OF m(1) d(1) m(4) ids(1,2) _ extend_assigned_shape [OF ids(3,4)] lab])
qed

lemma rs_match_own:
  assumes T: "token_laws T valid" and v: "valid (rs_sequence r)" and u: "tk_total_tokens T (rs_sequence r) \<le> usize_max" and r: "rs_assignments r = shape [] [] []"
    and o: "own gs R (all_sequence_hashes T (rs_sequence r)) [] [] [] st"
  shows "\<exists>n as' st'. rs_match_and_add_prefix I T k r st = Some (Inr n,
        r\<lparr>rs_assignments := shape as' [] [], rs_prefix_matched_blocks := rs_prefix_matched_blocks r + n\<rparr>, st') \<and>
      n \<le> k \<and> length as' = n \<and> own gs R (all_sequence_hashes T (rs_sequence r)) as' [] [] st' \<and> steady R st st'"
proof -
  let ?hs = "all_sequence_hashes T (rs_sequence r)" and ?tbs = "tk_blocks T (rs_sequence r)"
  have h: "held gs R st" using ownsD(1) [OF o] by simp
  obtain as st1 st2 ids where m: "match_prefix_locked_batch I ?hs st = Some (as, st1)"
      "drop_immutables I (drop k as) st1 = Some st2" "length as \<le> length ?hs" "length ids = length (take k as)"
      "own gs R ?hs (zip ids (take k as)) [] [] st2" "steady R st st2"
      "extend_assigned st2 (take k as) (shape [] [] []) = Some (Inr (length (take k as), shape (zip ids (take k as)) [] []))"
      "\<And>j. j < length (take k as) \<Longrightarrow> \<exists>b. arc_id st2 (take k as ! j) = Some (b, ?hs ! j)"
    using match_kept [OF h token_lawsD(7) [OF T v u], of k] by blast
  let ?as = "take k as" let ?n = "length (take k as)"
  have nth: "?hs ! j = tb_kvbm_sequence_hash (take ?n ?tbs ! j)" "?n \<le> length ?tbs" if "j < ?n" for j
    using that m(3) by (auto simp: all_sequence_hashes_def)
  have le: "?n \<le> length ?tbs"
    using m(3) by (simp add: all_sequence_hashes_def)
  have "hash_mismatch st2 0 ?as (take ?n ?tbs) = Some None"
    using m(8) le unfolding nth(1) by (intro no_mismatch) (auto simp: nth)
  hence add: "add_matched_blocks T ?as st2 r = Some (Inr ?n,
      r\<lparr>rs_assignments := shape (zip ids ?as) [] [], rs_prefix_matched_blocks := rs_prefix_matched_blocks r + ?n\<rparr>)"
    using le m(7) r by (auto simp: add_matched_blocks_def assigned_blocks_def Let_def)
  have same: "r = r\<lparr>rs_assignments := shape [] [] [], rs_prefix_matched_blocks := rs_prefix_matched_blocks r + 0\<rparr>"
    using r by simp
  have "rs_match_and_add_prefix I T k r st = Some (Inr ?n,
      r\<lparr>rs_assignments := shape (zip ids ?as) [] [], rs_prefix_matched_blocks := rs_prefix_matched_blocks r + ?n\<rparr>, st2)"
    using m(1,2) r add same m(4) by (cases "?as = []") (auto simp: rs_match_and_add_prefix_def)
  thus ?thesis
    using m(4-6) by (intro exI [of _ ?n] exI [of _ "zip ids ?as"] exI [of _ st2]) simp
qed

lemma match_keeps:
  assumes T: "token_laws T valid" and ok: "sequence_ok iv entries cap T valid gs R s st"
    and fresh: "sq_is_empty (rs_assignments (sc_inner s))" "sc_prefill_position s = 0" "sc_total_tokens T s \<le> usize_max"
  shows "keeps iv entries cap T valid gs R st (seq_match_and_add_prefix I T s st)"
proof (cases "sc_state s = Idle")
  case True
  note P = ok [unfolded sequence_ok_def positions_ok_def Let_def]
  let ?r = "sc_inner s" and ?bs = "sc_block_size T s"
  have r: "rs_assignments ?r = shape [] [] []" and v: "valid (rs_sequence ?r)" and bs: "0 < ?bs"
    using P fresh(1) token_lawsD(4) [OF T] by (auto simp: sc_block_size_def)
  hence o: "own gs R (all_sequence_hashes T (rs_sequence ?r)) [] [] [] st"
    using ok by (auto simp: sequence_ok_def shape_def)
  let ?k = "saturating_sub (rs_num_input_tokens ?r) 1 div ?bs"
  obtain n as' st' where m: "rs_match_and_add_prefix I T ?k ?r st = Some (Inr n,
        ?r\<lparr>rs_assignments := shape as' [] [], rs_prefix_matched_blocks := rs_prefix_matched_blocks ?r + n\<rparr>, st')"
      "n \<le> ?k" "own gs R (all_sequence_hashes T (rs_sequence ?r)) as' [] [] st'" "steady R st st'"
    using rs_match_own [OF T v fresh(3) [unfolded sc_total_tokens_def] r o, of ?k] by blast
  let ?s1 = "s\<lparr>sc_inner := ?r\<lparr>rs_assignments := shape as' [] [], rs_prefix_matched_blocks := rs_prefix_matched_blocks ?r + n\<rparr>\<rparr>"
  let ?s = "if 0 < n then ?s1\<lparr>sc_prefill_position := n * ?bs, sc_kv_position := n * ?bs\<rparr> else ?s1"
  have e: "seq_match_and_add_prefix I T s st = Some (Inr n, on_event (EvPrefixMatched n) ?s, st')"
    using True m(1) fresh(2) by (simp add: seq_match_and_add_prefix_def require_idle_def Let_def sc_block_size_def)
  have "n * ?bs \<le> rs_num_input_tokens ?r - 1"
    using m(2) bs by (simp add: saturating_sub_def less_eq_div_iff_mult_less_eq)
  hence "positions_ok T valid ?s \<and> sc_state ?s = Idle"
    using P True fresh(2) by (auto simp: positions_ok_def sc_defs Let_def)
  hence "sequence_ok iv entries cap T valid gs R (on_event (EvPrefixMatched n) ?s) st'"
    using m(3,4) P by (intro idle_ok [of _ _ _ _ as' "[]"]) (auto simp: sc_defs steady_def)
  thus ?thesis
    by (rule keepsI [OF e _ m(4)])
next
  case False
  thus ?thesis
    by (intro keeps_same [OF ok]) (simp add: seq_match_and_add_prefix_def require_idle_def)
qed

lemma reacquire_rest_own:
  assumes T: "token_laws T valid" and v: "valid (rs_sequence r)" and r: "rs_assignments r = shape as [] []"
    and o: "own gs R (all_sequence_hashes T (rs_sequence r)) as [] [] st" and bs: "bs_block_size st = tk_block_size T (rs_sequence r)"
  shows "\<exists>b p as' st'. reacquire_rest I Allow T (length as) r st =
      Some (b, r\<lparr>rs_assignments := shape as' [] [], rs_prefix_matched_blocks := p\<rparr>, st') \<and>
    own gs R (all_sequence_hashes T (rs_sequence r)) as' [] [] st' \<and> steady R st st'"
proof -
  let ?hs = "all_sequence_hashes T (rs_sequence r)" and ?tbs = "tk_blocks T (rs_sequence r)"
  let ?n = "length ?tbs - length as"
  have le: "length as \<le> length ?tbs"
    using owns_length [OF o] by (simp add: all_sequence_hashes_def)
  consider "?n = 0" | "0 < ?n" "allocate_atomic I ?n st = Some (None, st)"
    | ids ev st1 where "0 < ?n" "allocate_atomic I ?n st = Some (Some (ids, ev), st1)" "length ids = ?n" "unmoved st st1"
      "own gs R ?hs as [] ids st1" "extend_blocks ids (shape as [] []) = Inr (?n, shape as [] ids)"
    using allocate_own [OF o, of ?n] by fastforce
  thus ?thesis
  proof cases
    case 1
    hence "reacquire_rest I Allow T (length as) r st =
        Some (True, r\<lparr>rs_assignments := shape as [] [], rs_prefix_matched_blocks := length as\<rparr>, st)"
      using le r by (simp add: reacquire_rest_def)
    thus ?thesis using o steady_refl by blast
  next
    case 2
    obtain st' where "rs_release I r st = Some (r\<lparr>rs_assignments := shape [] [] []\<rparr>, st')" "own gs R ?hs [] [] [] st'" "steady R st st'"
      using rs_release_own [OF r o] by blast
    moreover from this 2 have "reacquire_rest I Allow T (length as) r st =
        Some (False, r\<lparr>rs_assignments := shape [] [] [], rs_prefix_matched_blocks := rs_prefix_matched_blocks r\<rparr>, st')"
      using le r by (simp add: reacquire_rest_def Let_def give_up_def)
    ultimately show ?thesis by blast
  next
    case (3 ids ev st1)
    have sz: "\<forall>tb \<in> set ?tbs. tb_block_size tb = bs_block_size st1"
      using 3(4) bs token_lawsD(6) [OF T v] by (simp add: unmoved_def)
    have o1: "own gs R (map tb_kvbm_sequence_hash ?tbs) as [] ids st1"
      using 3(5) by (simp add: all_sequence_hashes_def)
    obtain q1 st2 as' st' where e: "stage_blocks (drop (length as) ?tbs) (shape as [] ids) st1 = Some (Inr ?n, q1, st2)"
        "register_blocks I Allow q1 st2 = Some (?n, shape as' [] [], st')" "own gs R ?hs as' [] [] st'" "steady R st1 st'"
      by (rule stage_register_own [OF o1 sz]) (use 3(3) in \<open>simp add: all_sequence_hashes_def\<close>)
    have "reacquire_rest I Allow T (length as) r st =
        Some (True, r\<lparr>rs_assignments := shape as' [] [], rs_prefix_matched_blocks := length as\<rparr>, st')"
      using 3 le r e by (simp add: reacquire_rest_def Let_def)
    thus ?thesis
      using e(3) steady_trans [OF unmoved_steady [OF 3(4)] e(4)] by blast
  qed
qed

lemma rs_reacquire_own:
  assumes T: "token_laws T valid" and v: "valid (rs_sequence r)" and u: "tk_total_tokens T (rs_sequence r) \<le> usize_max" and r: "rs_assignments r = shape [] [] []"
    and o: "own gs R (all_sequence_hashes T (rs_sequence r)) [] [] [] st" and bs: "bs_block_size st = tk_block_size T (rs_sequence r)"
  shows "\<exists>b p as' st'. rs_reacquire I Allow T r st =
      Some (b, r\<lparr>rs_assignments := shape as' [] [], rs_prefix_matched_blocks := p\<rparr>, st') \<and>
    own gs R (all_sequence_hashes T (rs_sequence r)) as' [] [] st' \<and> steady R st st'"
proof -
  let ?hs = "all_sequence_hashes T (rs_sequence r)"
  have h: "held gs R st" using ownsD(1) [OF o] by simp
  obtain as st1 st2 ids where m: "match_prefix_locked_batch I ?hs st = Some (as, st1)"
      "drop_immutables I (drop (length ?hs) as) st1 = Some st2" "length as \<le> length ?hs" "length ids = length (take (length ?hs) as)"
      "own gs R ?hs (zip ids (take (length ?hs) as)) [] [] st2" "steady R st st2"
      "extend_assigned st2 (take (length ?hs) as) (shape [] [] []) =
        Some (Inr (length (take (length ?hs) as), shape (zip ids (take (length ?hs) as)) [] []))"
    using match_kept [OF h token_lawsD(7) [OF T v u], of "length ?hs"] by metis
  have same: "st2 = st1" "take (length ?hs) as = as" "length (zip ids as) = length as"
    using m(2-4) by simp_all
  have same_r: "r\<lparr>rs_assignments := shape [] [] []\<rparr> = r"
    using r by simp
  let ?r = "r\<lparr>rs_assignments := shape (zip ids as) [] []\<rparr>"
  have o1: "own gs R (all_sequence_hashes T (rs_sequence ?r)) (zip ids as) [] [] st1" and "bs_block_size st1 = tk_block_size T (rs_sequence ?r)"
    using m(5,6) same bs by (simp_all add: steady_def)
  then obtain b p as' st' where e: "reacquire_rest I Allow T (length as) ?r st1 =
        Some (b, ?r\<lparr>rs_assignments := shape as' [] [], rs_prefix_matched_blocks := p\<rparr>, st')"
      "own gs R ?hs as' [] [] st'" "steady R st1 st'"
    using reacquire_rest_own [OF T, of ?r "zip ids as" gs R st1] v same(3) by auto
  have "rs_reacquire I Allow T r st = Some (b, r\<lparr>rs_assignments := shape as' [] [], rs_prefix_matched_blocks := p\<rparr>, st')"
    using m(1,7) same e(1) r same_r by (cases "as = []") (simp_all add: rs_reacquire_def)
  thus ?thesis
    using e(2) steady_trans [OF _ e(3)] m(6) same(1) by blast
qed

lemma reacquire_keeps:
  assumes T: "token_laws T valid" and ok: "sequence_ok iv entries cap T valid gs R s st"
    and e: "sq_is_empty (rs_assignments (sc_inner s))" and u: "sc_total_tokens T s \<le> usize_max"
  shows "keeps iv entries cap T valid gs R st (seq_reacquire I Allow T s st)"
proof (cases "sc_state s = Idle")
  case True
  note P = ok [unfolded sequence_ok_def positions_ok_def Let_def]
  let ?r = "sc_inner s"
  have r: "rs_assignments ?r = shape [] [] []" and v: "valid (rs_sequence ?r)" and bs: "bs_block_size st = tk_block_size T (rs_sequence ?r)"
    using P e by (auto simp: sc_block_size_def)
  hence o: "own gs R (all_sequence_hashes T (rs_sequence ?r)) [] [] [] st"
    using ok by (auto simp: sequence_ok_def shape_def)
  obtain b p as' st' where m: "rs_reacquire I Allow T ?r st = Some (b, ?r\<lparr>rs_assignments := shape as' [] [], rs_prefix_matched_blocks := p\<rparr>, st')"
      "own gs R (all_sequence_hashes T (rs_sequence ?r)) as' [] [] st'" "steady R st st'"
    using rs_reacquire_own [OF T v u [unfolded sc_total_tokens_def] r o bs] by blast
  let ?s = "on_event (EvReacquired p b) (s\<lparr>sc_inner := ?r\<lparr>rs_assignments := shape as' [] [], rs_prefix_matched_blocks := p\<rparr>\<rparr>)"
  have e: "seq_reacquire I Allow T s st = Some (Inr b, ?s, st')"
    using True m(1) by (simp add: seq_reacquire_def require_idle_for_apply_def)
  have "sequence_ok iv entries cap T valid gs R ?s st'"
    by (rule idle_ok [of _ _ _ _ as' "[]"]) (use P True m in \<open>auto simp: positions_ok_def sc_defs Let_def steady_def\<close>)
  thus ?thesis
    by (rule keepsI [OF e _ m(3)])
next
  case False
  thus ?thesis
    by (intro keeps_same [OF ok]) (simp add: seq_reacquire_def require_idle_for_apply_def)
qed

text \<open>Tokens without KV.\<close>

lemma append_tokens_ok:
  assumes T: "token_laws T valid" and ok: "sequence_ok iv entries cap T valid gs R s st"
  shows "\<exists>x s'. seq_append_tokens T ts s = Some (x, s') \<and> sequence_ok iv entries cap T valid gs R s' st"
proof (cases "sc_state s = Idle \<and> length ts \<le> rs_remaining_tokens (sc_inner s)")
  case True
  note P = ok [unfolded sequence_ok_def positions_ok_def Let_def]
  let ?r = "sc_inner s"
  have v: "valid (rs_sequence ?r)" "rs_generated_tokens ?r + length ts \<le> rs_max_output_tokens ?r"
    using P True by (auto simp: rs_remaining_tokens_def saturating_sub_def)
  obtain q' c where q': "append_accepted T ts False ?r = Some (c, ?r\<lparr>rs_sequence := q', rs_generated_tokens := rs_generated_tokens ?r + length ts\<rparr>)"
      "valid q'" "tk_total_tokens T q' = sc_total_tokens T s + length ts" "tk_block_size T q' = sc_block_size T s"
      "take (length (all_sequence_hashes T (rs_sequence ?r))) (all_sequence_hashes T q') = all_sequence_hashes T (rs_sequence ?r)"
    by (rule append_accepted_eq [OF T v, of False]) (simp add: sc_block_size_def sc_total_tokens_def)
  let ?s = "s\<lparr>sc_inner := ?r\<lparr>rs_sequence := q', rs_generated_tokens := rs_generated_tokens ?r + length ts\<rparr>\<rparr>"
  obtain as us where s: "rs_assignments ?r = shape as [] us" "own gs R (all_sequence_hashes T (rs_sequence ?r)) as [] us st"
    using P by blast
  have "sequence_ok iv entries cap T valid gs R ?s st"
    by (rule idle_ok [of _ _ _ _ as us]) (use P True v q' s owns_more_hashes [OF s(2) q'(5)] in \<open>auto simp: positions_ok_def sc_defs Let_def\<close>)
  moreover have "seq_append_tokens T ts s = Some (Inr (), ?s)"
    using True q'(1) by (simp add: seq_append_tokens_def require_idle_for_apply_def Let_def)
  ultimately show ?thesis by blast
next
  case False
  hence "\<exists>e. seq_append_tokens T ts s = Some (Inl e, s)"
    by (auto simp: seq_append_tokens_def require_idle_for_apply_def Let_def)
  thus ?thesis using ok by blast
qed

lemma adopt_ok:
  assumes ok: "sequence_ok iv entries cap T valid gs R s st"
  shows "\<exists>x s'. seq_adopt_external_prefill_anchor T s = Some (x, s') \<and> sequence_ok iv entries cap T valid gs R s' st"
proof (cases "\<exists>s'. seq_adopt_external_prefill_anchor T s = Some (Inr (), s')")
  case True
  then obtain s' where s': "seq_adopt_external_prefill_anchor T s = Some (Inr (), s')" by blast
  hence "sc_state s = Idle" "sc_prefill_position s = sc_kv_position s" "sc_prefill_position s + 1 = rs_num_input_tokens (sc_inner s)"
      "s' = s\<lparr>sc_inner := (sc_inner s)\<lparr>rs_num_input_tokens := rs_num_input_tokens (sc_inner s) - 1,
        rs_generated_tokens := rs_generated_tokens (sc_inner s) + 1\<rparr>\<rparr>" "rs_generated_tokens (sc_inner s) < rs_max_output_tokens (sc_inner s)"
    by (auto simp: seq_adopt_external_prefill_anchor_def require_idle_for_apply_def promote_last_input_to_generated_def
        bind_eq_Some_conv split: if_splits)
  hence "sequence_ok iv entries cap T valid gs R s' st"
    using ok by (auto simp: sequence_ok_def positions_ok_def sc_defs Let_def)
  thus ?thesis using s' by blast
next
  case False
  hence "\<exists>e. seq_adopt_external_prefill_anchor T s = Some (Inl e, s)"
    by (auto simp: seq_adopt_external_prefill_anchor_def require_idle_for_apply_def promote_last_input_to_generated_def
        rs_remaining_tokens_def saturating_sub_def split: if_splits)
  thus ?thesis using ok by blast
qed

lemma pad_loop_ends:
  assumes T: "token_laws T valid" and "valid q" and "(tk_block_size T q - tk_total_tokens T q mod tk_block_size T q) mod tk_block_size T q \<le> n"
  shows "\<exists>m q'. pad_loop T pad n d q = Some (m, q') \<and> valid q' \<and> tk_block_size T q' = tk_block_size T q \<and>
    tk_total_tokens T q \<le> tk_total_tokens T q' \<and> take (length (all_sequence_hashes T q)) (all_sequence_hashes T q') = all_sequence_hashes T q"
  using assms(2,3)
proof (induction n arbitrary: q d)
  case 0
  have b: "0 < tk_block_size T q" using token_lawsD(4) [OF T 0(1)] .
  hence "tk_total_tokens T q mod tk_block_size T q < tk_block_size T q" by simp
  hence "tk_total_tokens T q mod tk_block_size T q = 0"
    using 0(2) by (cases "tk_total_tokens T q mod tk_block_size T q = 0") auto
  thus ?case using 0(1) by simp
next
  case (Suc n)
  have b: "0 < tk_block_size T q" using token_lawsD(4) [OF T Suc.prems(1)] .
  let ?b = "tk_block_size T q" and ?m = "tk_total_tokens T q mod tk_block_size T q"
  show ?case
  proof (cases "?m = 0")
    case True
    thus ?thesis using Suc.prems(1) by simp
  next
    case False
    obtain q1 c where q1: "tk_append T pad q = Some (c, q1)" "valid q1" "tk_total_tokens T q1 = tk_total_tokens T q + 1"
        "tk_block_size T q1 = ?b" "take (length (all_sequence_hashes T q)) (all_sequence_hashes T q1) = all_sequence_hashes T q"
      using token_append [OF T Suc.prems(1), of pad] by metis
    have "(?b - (tk_total_tokens T q + 1) mod ?b) mod ?b \<le> n"
      using Suc.prems(2) False b mod_less_divisor [OF b, of "tk_total_tokens T q"] by (auto simp: mod_Suc)
    hence "\<exists>m q'. pad_loop T pad n (d + 1) q1 = Some (m, q') \<and> valid q' \<and> tk_block_size T q' = tk_block_size T q1 \<and>
        tk_total_tokens T q1 \<le> tk_total_tokens T q' \<and> take (length (all_sequence_hashes T q1)) (all_sequence_hashes T q') = all_sequence_hashes T q1"
      by (intro Suc.IH [OF q1(2)]) (simp add: q1)
    thus ?thesis
      using False q1 take_take_trans [OF q1(5)] by fastforce
  qed
qed

lemma pad_keeps:
  assumes T: "token_laws T valid" and ok: "sequence_ok iv entries cap T valid gs R s st"
  shows "keeps iv entries cap T valid gs R st (seq_pad_tail_block I Allow T pad s st)"
proof (cases "sc_state s = Idle \<and> sc_kv_position s mod sc_block_size T s \<noteq> 0")
  case True
  note P = ok [unfolded sequence_ok_def positions_ok_def Let_def]
  let ?r = "sc_inner s"
  have v: "valid (rs_sequence ?r)" using P by blast
  have "(tk_block_size T (rs_sequence ?r) - tk_total_tokens T (rs_sequence ?r) mod tk_block_size T (rs_sequence ?r)) mod
      tk_block_size T (rs_sequence ?r) \<le> tk_block_size T (rs_sequence ?r)"
    using token_lawsD(4) [OF T v] by (simp add: less_imp_le)
  then obtain m q' where q': "pad_loop T pad (tk_block_size T (rs_sequence ?r)) 0 (rs_sequence ?r) = Some (m, q')" "valid q'"
      "tk_block_size T q' = sc_block_size T s" "sc_total_tokens T s \<le> tk_total_tokens T q'"
      "take (length (all_sequence_hashes T (rs_sequence ?r))) (all_sequence_hashes T q') = all_sequence_hashes T (rs_sequence ?r)"
    using pad_loop_ends [OF T v] unfolding sc_block_size_def sc_total_tokens_def by blast
  obtain as' us' st' where c: "complete_and_register_pending I Allow T (?r\<lparr>rs_sequence := q', rs_generated_tokens := rs_generated_tokens ?r\<rparr>) st =
      Some (?r\<lparr>rs_sequence := q', rs_generated_tokens := rs_generated_tokens ?r, rs_assignments := shape as' [] us'\<rparr>, st')"
      "own gs R (all_sequence_hashes T q') as' [] us' st'" "steady R st st'" "bs_block_size st' = bs_block_size st"
    by (rule commit_pending [OF T ok q'(2,3,5), where g = "rs_generated_tokens ?r"])
  let ?s = "s\<lparr>sc_inner := ?r\<lparr>rs_sequence := q', rs_assignments := shape as' [] us'\<rparr>\<rparr>"
  have e: "seq_pad_tail_block I Allow T pad s st = Some (Inr m, ?s, st')"
    using True q'(1) c(1) by (simp add: seq_pad_tail_block_def require_idle_for_apply_def rs_pad_tail_block_def)
  have "sequence_ok iv entries cap T valid gs R ?s st'"
    by (rule idle_ok [of _ _ _ _ as' us']) (use P True q' c in \<open>auto simp: positions_ok_def sc_defs Let_def\<close>)
  thus ?thesis
    by (rule keepsI [OF e _ c(3)])
next
  case False
  hence "\<exists>x. seq_pad_tail_block I Allow T pad s st = Some (x, s, st)"
    by (auto simp: seq_pad_tail_block_def require_idle_for_apply_def)
  then obtain x where x: "seq_pad_tail_block I Allow T pad s st = Some (x, s, st)" ..
  show ?thesis
    by (rule keeps_same [OF ok x])
qed

lemmas schedule_keeps = schedule_prefill_keeps schedule_decode_keeps schedule_speculative_keeps
lemmas apply_keeps = apply_prefill_keeps apply_decode_keeps apply_speculative_keeps

end

end
