(* ===== verification/Kv_Requests.thy ===== *)
theory Kv_Requests
  imports Sequence_Protocol
begin

text \<open>
  The logical KV cache of an engine, \<open>pegainfer-kv-cache/src/pool.rs\<close> and \<open>view.rs\<close>: the block
  pool with its padding block, the per-request KV state, the views a forward pass reads, and the
  probe and reservation that load a prefix from the host tier. The pool's manager is the block
  store, threaded through; \<open>compute_salt_hash\<close> (crate \<open>dynamo_kv_hashing\<close>) and the default
  sequence hash are parameters. The opt-in event feed is left out.
\<close>

section \<open>Views\<close>

type_synonym i32 = "32 word"

record kv_view =
  kvw_page_indices :: "i32 list"
  kvw_seq_len :: usize
  kvw_page_size :: usize

definition new_kv_view :: "i32 list \<Rightarrow> usize \<Rightarrow> usize \<Rightarrow> kv_view option" where
  "new_kv_view page_indices seq_len page_size =
     (if length page_indices \<noteq> div_ceil seq_len page_size then None
      else Some \<lparr>kvw_page_indices = page_indices, kvw_seq_len = seq_len, kvw_page_size = page_size\<rparr>)"

definition view_last_page_len :: "kv_view \<Rightarrow> usize" where
  "view_last_page_len v =
     (if kvw_seq_len v = 0 then 0
      else let rem = kvw_seq_len v mod kvw_page_size v in if rem = 0 then kvw_page_size v else rem)"

section \<open>The pool\<close>

record block_pool =
  bp_block_size :: usize
  bp_padding_block_id :: block_id

datatype pool_error = TooFewBlocks | NoPaddingBlock | PaddingStageFailed

definition is_power_of_two :: "usize \<Rightarrow> bool" where
  "is_power_of_two n \<longleftrightarrow> n \<in> set (map (\<lambda>k. 2 ^ k) [0..<64])"

text \<open>The reference to the padding block, third in the answer, is leaked.\<close>

definition build_pool :: "'i index \<Rightarrow> 'i \<Rightarrow> seq_hash \<Rightarrow> usize \<Rightarrow> usize \<Rightarrow>
    (pool_error + block_pool \<times> 'i block_store \<times> immutable_block) option" where
  "build_pool I ix default_hash block_size num_blocks =
     (if num_blocks < 2 then Some (Inl TooFewBlocks)
      else if \<not> (1 \<le> block_size \<and> block_size \<le> 1024 \<and> is_power_of_two block_size) then None
      else do {
        (r, st) \<leftarrow> allocate_atomic I 1 (new_store num_blocks block_size ix False);
        (case r of
           None \<Rightarrow> Some (Inl NoPaddingBlock)
         | Some ([], _) \<Rightarrow> None
         | Some (b # _, _) \<Rightarrow> do {
             e \<leftarrow> stage b default_hash block_size st;
             (case e of
                Inl _ \<Rightarrow> Some (Inl PaddingStageFailed)
              | Inr st1 \<Rightarrow> do {
                  (a, st2) \<leftarrow> register_completed_block I Allow b default_hash st1;
                  Some (Inr (\<lparr>bp_block_size = block_size, bp_padding_block_id = b\<rparr>, st2, a)) }) }) })"

definition max_request_blocks :: "'i block_store \<Rightarrow> usize" where
  "max_request_blocks st = saturating_sub (length (bs_slots st)) 1"

section \<open>Requests\<close>

record 'q request_kv =
  rk_seq :: "'q schedulable"
  rk_emitted_blocks :: usize

definition new_request_with_cache_salt :: "'q token_sequence \<Rightarrow> (string option \<Rightarrow> string option \<Rightarrow> u64) \<Rightarrow> block_pool \<Rightarrow>
    u32 list \<Rightarrow> usize \<Rightarrow> string option \<Rightarrow> string option \<Rightarrow> 'q request_kv" where
  "new_request_with_cache_salt T salt pool prompt_tokens max_output_tokens cache_salt lora_name =
     \<lparr>rk_seq = new_schedulable T prompt_tokens max_output_tokens (bp_block_size pool mod 2 ^ 32) (Some (salt cache_salt lora_name)),
      rk_emitted_blocks = 0\<rparr>"

definition new_request :: "'q token_sequence \<Rightarrow> (string option \<Rightarrow> string option \<Rightarrow> u64) \<Rightarrow> block_pool \<Rightarrow>
    u32 list \<Rightarrow> usize \<Rightarrow> string option \<Rightarrow> 'q request_kv" where
  "new_request T salt pool prompt_tokens max_output_tokens lora_name =
     new_request_with_cache_salt T salt pool prompt_tokens max_output_tokens None lora_name"

definition page_indices :: "'q request_kv \<Rightarrow> i32 list" where
  "page_indices r = map of_nat (all_block_ids (rs_assignments (sc_inner (rk_seq r))))"

definition current_page_indices :: "'q token_sequence \<Rightarrow> 'q request_kv \<Rightarrow> i32 list" where
  "current_page_indices T r = take (div_ceil (sc_kv_position (rk_seq r)) (sc_block_size T (rk_seq r))) (page_indices r)"

definition step_page_indices :: "'q token_sequence \<Rightarrow> usize \<Rightarrow> 'q request_kv \<Rightarrow> i32 list option" where
  "step_page_indices T new_tokens r =
     (if new_tokens = 0 then None
      else Some (take (div_ceil (sc_kv_position (rk_seq r) + new_tokens) (sc_block_size T (rk_seq r))) (page_indices r)))"

text \<open>\<open>prefill_view\<close> and \<open>speculative_view\<close>; \<open>decode_view\<close> is the case of one token.\<close>

definition step_view :: "'q token_sequence \<Rightarrow> usize \<Rightarrow> 'q request_kv \<Rightarrow> kv_view option" where
  "step_view T n r = do {
     pages \<leftarrow> step_page_indices T n r;
     new_kv_view pages (sc_kv_position (rk_seq r) + n) (sc_block_size T (rk_seq r)) }"

definition decode_view :: "'q token_sequence \<Rightarrow> 'q request_kv \<Rightarrow> kv_view option" where
  "decode_view T r = step_view T 1 r"

text \<open>The operations that forward to the sequence.\<close>

definition on_seq :: "('x \<times> 'q schedulable \<times> 'i block_store) option \<Rightarrow> 'q request_kv \<Rightarrow> ('x \<times> 'q request_kv \<times> 'i block_store) option" where
  "on_seq result r = do { (x, s, st) \<leftarrow> result; Some (x, r\<lparr>rk_seq := s\<rparr>, st) }"

definition kv_match_and_add_prefix :: "'i index \<Rightarrow> 'q token_sequence \<Rightarrow> 'q request_kv \<Rightarrow> 'i block_store \<Rightarrow>
    ((schedule_error + usize) \<times> 'q request_kv \<times> 'i block_store) option" where
  "kv_match_and_add_prefix I T r st = do {
     (x, s, st1) \<leftarrow> seq_match_and_add_prefix I T (rk_seq r) st;
     (case x of
        Inl e \<Rightarrow> Some (Inl e, r\<lparr>rk_seq := s\<rparr>, st1)
      | Inr blocks \<Rightarrow> Some (Inr (blocks * sc_block_size T s),
          r\<lparr>rk_seq := s, rk_emitted_blocks := assigned_blocks (sc_inner s)\<rparr>, st1)) }"

datatype kv_op =
    SchedulePrefill usize
  | ScheduleDecode
  | ScheduleSpeculative usize
  | ApplyPrefill u32
  | ApplyPrefillChunk
  | ApplyDecode u32
  | ApplySpeculative "u32 list"
  | RevertSchedule
  | ReleaseBlocks

text \<open>Whether the call answered \<open>Ok\<close>.\<close>

definition answered :: "(('e + 'a) \<times> 'q schedulable \<times> 'i block_store) option \<Rightarrow> (bool \<times> 'q schedulable \<times> 'i block_store) option" where
  "answered result = map_option (\<lambda>(x, s, st). (case x of Inl _ \<Rightarrow> False | Inr _ \<Rightarrow> True, s, st)) result"

definition run_kv_op :: "'i index \<Rightarrow> 'q token_sequence \<Rightarrow> kv_op \<Rightarrow> 'q request_kv \<Rightarrow> 'i block_store \<Rightarrow>
    (bool \<times> 'q request_kv \<times> 'i block_store) option" where
  "run_kv_op I T op r st = on_seq
     (case op of
        SchedulePrefill n \<Rightarrow> answered (seq_schedule_prefill I T n (rk_seq r) st)
      | ScheduleDecode \<Rightarrow> answered (seq_schedule_decode I T (rk_seq r) st)
      | ScheduleSpeculative n \<Rightarrow> answered (seq_schedule_speculative I T n (rk_seq r) st)
      | ApplyPrefill t \<Rightarrow> answered (seq_apply_prefill I Allow T (Some t) (rk_seq r) st)
      | ApplyPrefillChunk \<Rightarrow> answered (seq_apply_prefill I Allow T None (rk_seq r) st)
      | ApplyDecode t \<Rightarrow> answered (seq_apply_decode I Allow T t (rk_seq r) st)
      | ApplySpeculative ts \<Rightarrow> answered (seq_apply_speculative I Allow T ts (rk_seq r) st)
      | RevertSchedule \<Rightarrow> answered (seq_revert_schedule (rk_seq r) st)
      | ReleaseBlocks \<Rightarrow> answered (seq_release I (rk_seq r) st)) r"

fun mark_reset :: "immutable_block list \<Rightarrow> 'i block_store \<Rightarrow> 'i block_store option" where
  "mark_reset [] st = Some st"
| "mark_reset (a # as) st = do { st1 \<leftarrow> set_primary_reset_on_release a True st; mark_reset as st1 }"

definition mark_blocks_reset_on_release :: "'q request_kv \<Rightarrow> 'i block_store \<Rightarrow> 'i block_store option" where
  "mark_blocks_reset_on_release r st = mark_reset (map snd (sq_assigned (rs_assignments (sc_inner (rk_seq r))))) st"

definition resident_blocks :: "'q request_kv \<Rightarrow> usize" where
  "resident_blocks r = held_blocks (rk_seq r)"

section \<open>Offload and the router feed\<close>

definition to_be_bytes :: "seq_hash \<Rightarrow> u8 list" where
  "to_be_bytes h = map (\<lambda>i. ucast (drop_bit (8 * (15 - i)) h)) [0..<16]"

definition assigned_block_hashes :: "'i block_store \<Rightarrow> 'q request_kv \<Rightarrow> (i32 \<times> u8 list) list option" where
  "assigned_block_hashes st r =
     those (map (\<lambda>(b, a). map_option (\<lambda>i. (of_nat b, to_be_bytes (in_hash i))) (bs_arcs st a))
       (sq_assigned (rs_assignments (sc_inner (rk_seq r)))))"

fun clone_all :: "immutable_block list \<Rightarrow> 'i block_store \<Rightarrow> 'i block_store option" where
  "clone_all [] st = Some st"
| "clone_all (a # as) st = do { st1 \<leftarrow> arc_clone a st; clone_all as st1 }"

text \<open>The pins are references of their own.\<close>

definition assigned_block_guards :: "'q request_kv \<Rightarrow> 'i block_store \<Rightarrow> (immutable_block list \<times> 'i block_store) option" where
  "assigned_block_guards r st =
     (let as = map snd (sq_assigned (rs_assignments (sc_inner (rk_seq r))))
      in do { st1 \<leftarrow> clone_all as st; Some (as, st1) })"

record registered_block =
  rb_plh :: seq_hash
  rb_sequence_hash :: u64
  rb_tokens_hash :: u64
  rb_parent_sequence_hash :: "u64 option"

text \<open>Slicing past the sealed token blocks panics.\<close>

definition take_newly_registered_blocks :: "'q token_sequence \<Rightarrow> 'q request_kv \<Rightarrow> (registered_block list \<times> 'q request_kv) option" where
  "take_newly_registered_blocks T r =
     (let n = assigned_blocks (sc_inner (rk_seq r)); blocks = tk_blocks T (rs_sequence (sc_inner (rk_seq r)))
      in if n \<le> rk_emitted_blocks r then Some ([], r)
      else if length blocks < n then None
      else Some (map (\<lambda>b. \<lparr>rb_plh = tb_kvbm_sequence_hash b, rb_sequence_hash = tb_sequence_hash b,
               rb_tokens_hash = tb_block_hash b, rb_parent_sequence_hash = tb_parent_sequence_hash b\<rparr>)
             (drop (rk_emitted_blocks r) (take n blocks)), r\<lparr>rk_emitted_blocks := n\<rparr>))"

record prefix_probe =
  pb_seq_hashes :: "seq_hash list"
  pb_gpu_hit :: usize
  pb_cacheable :: usize
  pb_held :: "immutable_block list"

definition probe_prefix_with_cache_salt :: "'i index \<Rightarrow> 'q token_sequence \<Rightarrow> (string option \<Rightarrow> string option \<Rightarrow> u64) \<Rightarrow> block_pool \<Rightarrow>
    u32 list \<Rightarrow> string option \<Rightarrow> string option \<Rightarrow> 'i block_store \<Rightarrow> (prefix_probe \<times> 'i block_store) option" where
  "probe_prefix_with_cache_salt I T salt pool prompt_tokens cache_salt lora_name st =
     (let rkv = new_request_with_cache_salt T salt pool prompt_tokens 0 cache_salt lora_name;
          seq_hashes = all_sequence_hashes T (rs_sequence (sc_inner (rk_seq rkv)));
          cacheable = saturating_sub (length prompt_tokens) 1 div bp_block_size pool
      in do {
        (as, st1) \<leftarrow> match_prefix_locked_batch I seq_hashes st;
        Some (\<lparr>pb_seq_hashes = seq_hashes, pb_gpu_hit = length as, pb_cacheable = cacheable, pb_held = as\<rparr>, st1) })"

definition cpu_query_hashes :: "prefix_probe \<Rightarrow> u8 list list option" where
  "cpu_query_hashes p =
     (if pb_cacheable p \<le> pb_gpu_hit p then Some []
      else if length (pb_seq_hashes p) < pb_cacheable p then None
      else Some (map to_be_bytes (drop (pb_gpu_hit p) (take (pb_cacheable p) (pb_seq_hashes p)))))"

definition cpu_query_window :: "prefix_probe \<Rightarrow> usize" where
  "cpu_query_window p = saturating_sub (pb_cacheable p) (pb_gpu_hit p)"

definition reserve_loaded_blocks :: "'i index \<Rightarrow> usize \<Rightarrow> 'i block_store \<Rightarrow> (mutable_block list option \<times> 'i block_store) option" where
  "reserve_loaded_blocks I n st = do { (r, st1) \<leftarrow> allocate_atomic I n st; Some (map_option fst r, st1) }"

fun commit_loop :: "'i index \<Rightarrow> usize \<Rightarrow> usize \<Rightarrow> mutable_block list \<Rightarrow> prefix_probe \<Rightarrow> 'i block_store \<Rightarrow> (prefix_probe \<times> 'i block_store) option" where
  "commit_loop I block_size k [] p st = Some (p, st)"
| "commit_loop I block_size k (b # bs) p st =
     (if length (pb_seq_hashes p) \<le> k then None
      else do {
        e \<leftarrow> stage b (pb_seq_hashes p ! k) block_size st;
        (case e of
           Inl _ \<Rightarrow> None
         | Inr st1 \<Rightarrow> do {
             (a, st2) \<leftarrow> register_completed_block I Allow b (pb_seq_hashes p ! k) st1;
             commit_loop I block_size (k + 1) bs (p\<lparr>pb_held := pb_held p @ [a]\<rparr>) st2 }) })"

definition commit_loaded_blocks :: "'i index \<Rightarrow> block_pool \<Rightarrow> prefix_probe \<Rightarrow> mutable_block list \<Rightarrow> 'i block_store \<Rightarrow>
    (prefix_probe \<times> 'i block_store) option" where
  "commit_loaded_blocks I pool p reservation st = commit_loop I (bp_block_size pool) (pb_gpu_hit p) reservation p st"

end
