(* ===== verification/Kv_World.thy ===== *)
theory Kv_World
  imports Kv_Requests
begin

text \<open>
  The KV cache in use: any number of requests, prefix probes, load reservations and offload pins
  share one pool, and the scheduler thread runs one call at a time. What holds in every state it
  can reach.
\<close>

section \<open>One sequence among others\<close>

abbreviation request_blocks :: "'q request_kv \<Rightarrow> assignments" where
  "request_blocks r \<equiv> rs_assignments (sc_inner (rk_seq r))"

definition seq_guards :: "assignments \<Rightarrow> guard list" where
  "seq_guards q = map (GMutable \<circ> snd) (sq_unassigned q)"

definition seq_refs :: "assignments \<Rightarrow> arc_addr multiset" where
  "seq_refs q = mset (map snd (sq_assigned q))"

lemma seq_shape [simp]: "seq_guards (shape as cs us) = map GMutable us" "seq_refs (shape as cs us) = mset (map snd as)"
  by (simp_all add: seq_guards_def seq_refs_def)

text \<open>What of the invariant does not mention the guards and references of the store.\<close>

definition local_ok :: "'q token_sequence \<Rightarrow> ('q \<Rightarrow> bool) \<Rightarrow> 'q schedulable \<Rightarrow> 'i block_store \<Rightarrow> bool" where
  "local_ok T valid s st \<longleftrightarrow> positions_ok T valid s \<and> bs_block_size st = sc_block_size T s \<and>
     (\<exists>as us. rs_assignments (sc_inner s) = shape as [] us \<and> distinct (map fst as) \<and>
        map (arc_id st \<circ> snd) as = map Some (zip (map fst as) (all_sequence_hashes T (rs_sequence (sc_inner s)))))"

lemma sequence_ok_split:
  "sequence_ok iv entries cap T valid gs R s st \<longleftrightarrow> local_ok T valid s st \<and>
     held_ok iv entries cap (seq_guards (rs_assignments (sc_inner s)) @ gs) (seq_refs (rs_assignments (sc_inner s)) + R) st"
  (is "?l \<longleftrightarrow> ?r")
proof
  assume ?l
  thus ?r by (auto simp: sequence_ok_def local_ok_def owns_def)
next
  assume r: ?r
  then obtain as us where s: "rs_assignments (sc_inner s) = shape as [] us" "distinct (map fst as)"
      "map (arc_id st \<circ> snd) as = map Some (zip (map fst as) (all_sequence_hashes T (rs_sequence (sc_inner s))))"
    by (auto simp: local_ok_def)
  hence "owns iv entries cap gs R (all_sequence_hashes T (rs_sequence (sc_inner s))) as [] us st"
    using r by (simp add: owns_def)
  thus ?l
    using r s(1) unfolding sequence_ok_def local_ok_def by blast
qed

lemma local_steady:
  assumes "local_ok T valid s st" and "steady R st st'" and "seq_refs (rs_assignments (sc_inner s)) \<subseteq># R"
  shows "local_ok T valid s st'"
proof -
  obtain as us where s: "positions_ok T valid s" "bs_block_size st = sc_block_size T s"
      "rs_assignments (sc_inner s) = shape as [] us" "distinct (map fst as)"
      "map (arc_id st \<circ> snd) as = map Some (zip (map fst as) (all_sequence_hashes T (rs_sequence (sc_inner s))))"
    using assms(1) by (auto simp: local_ok_def)
  have "arc_id st' a = arc_id st a" if "(b, a) \<in> set as" for a b
    using assms(2,3) that s(3) by (force simp: steady_def dest: mset_subset_eqD)
  hence "map (arc_id st' \<circ> snd) as = map (arc_id st \<circ> snd) as" by auto
  thus ?thesis
    using s assms(2) by (auto simp: local_ok_def steady_def)
qed

section \<open>The calls\<close>

text \<open>
  The pool with everything that holds blocks of it: requests, probes, reservations, the pins of
  the offload engine, and the leaked reference to the padding block.
\<close>

record ('q, 'i) kv_world =
  kw_store :: "'i block_store"
  kw_requests :: "'q request_kv list"
  kw_probes :: "prefix_probe list"
  kw_loads :: "mutable_block list list"
  kw_pins :: "immutable_block list"
  kw_padding :: immutable_block

datatype kv_call =
    NewRequest "u32 list" usize "string option" "string option"
  | MatchPrefix usize
  | RunOp usize kv_op
  | TakeRegistered usize
  | MarkReset usize
  | PinBlocks usize
  | Unpin usize
  | DropRequest usize
  | ProbePrefix "u32 list" "string option" "string option"
  | DropProbe usize
  | ReserveLoaded usize
  | DropReservation usize
  | CommitLoaded usize usize
  | EvictInactive

definition without_nth :: "nat \<Rightarrow> 'a list \<Rightarrow> 'a list" where
  "without_nth k xs = take k xs @ drop (Suc k) xs"

definition in_request :: "nat \<Rightarrow> ('q request_kv \<Rightarrow> 'i block_store \<Rightarrow> ('x \<times> 'q request_kv \<times> 'i block_store) option) \<Rightarrow>
    ('q, 'i) kv_world \<Rightarrow> ('q, 'i) kv_world option" where
  "in_request k f w =
     (if length (kw_requests w) \<le> k then None
      else do { (_, r, st) \<leftarrow> f (kw_requests w ! k) (kw_store w); Some (w\<lparr>kw_requests := (kw_requests w)[k := r], kw_store := st\<rparr>) })"

text \<open>\<open>None\<close>: the call panics, or there is no such request, probe, reservation or pin.\<close>

fun exec_call :: "'i index \<Rightarrow> 'q token_sequence \<Rightarrow> (string option \<Rightarrow> string option \<Rightarrow> u64) \<Rightarrow> block_pool \<Rightarrow> kv_call \<Rightarrow>
    ('q, 'i) kv_world \<Rightarrow> ('q, 'i) kv_world option" where
  "exec_call I T salt pool (NewRequest prompt max_out cache_salt lora) w =
     Some (w\<lparr>kw_requests := kw_requests w @ [new_request_with_cache_salt T salt pool prompt max_out cache_salt lora]\<rparr>)"
| "exec_call I T salt pool (MatchPrefix k) w = in_request k (kv_match_and_add_prefix I T) w"
| "exec_call I T salt pool (RunOp k op) w = in_request k (run_kv_op I T op) w"
| "exec_call I T salt pool (TakeRegistered k) w =
     in_request k (\<lambda>r st. do { (bs, r1) \<leftarrow> take_newly_registered_blocks T r; Some (bs, r1, st) }) w"
| "exec_call I T salt pool (MarkReset k) w =
     in_request k (\<lambda>r st. do { st1 \<leftarrow> mark_blocks_reset_on_release r st; Some ((), r, st1) }) w"
| "exec_call I T salt pool (PinBlocks k) w =
     (if length (kw_requests w) \<le> k then None
      else do {
        (as, st) \<leftarrow> assigned_block_guards (kw_requests w ! k) (kw_store w);
        Some (w\<lparr>kw_store := st, kw_pins := kw_pins w @ as\<rparr>) })"
| "exec_call I T salt pool (Unpin k) w =
     (if length (kw_pins w) \<le> k then None
      else do {
        st \<leftarrow> drop_immutable I (kw_pins w ! k) (kw_store w);
        Some (w\<lparr>kw_store := st, kw_pins := without_nth k (kw_pins w)\<rparr>) })"
| "exec_call I T salt pool (DropRequest k) w =
     (if length (kw_requests w) \<le> k then None
      else do {
        (_, st) \<leftarrow> clear_assignments I (request_blocks (kw_requests w ! k)) (kw_store w);
        Some (w\<lparr>kw_store := st, kw_requests := without_nth k (kw_requests w)\<rparr>) })"
| "exec_call I T salt pool (ProbePrefix prompt cache_salt lora) w = do {
     (p, st) \<leftarrow> probe_prefix_with_cache_salt I T salt pool prompt cache_salt lora (kw_store w);
     Some (w\<lparr>kw_store := st, kw_probes := kw_probes w @ [p]\<rparr>) }"
| "exec_call I T salt pool (DropProbe k) w =
     (if length (kw_probes w) \<le> k then None
      else do {
        st \<leftarrow> drop_immutables I (pb_held (kw_probes w ! k)) (kw_store w);
        Some (w\<lparr>kw_store := st, kw_probes := without_nth k (kw_probes w)\<rparr>) })"
| "exec_call I T salt pool (ReserveLoaded n) w = do {
     (r, st) \<leftarrow> reserve_loaded_blocks I n (kw_store w);
     Some (w\<lparr>kw_store := st, kw_loads := kw_loads w @ (case r of None \<Rightarrow> [] | Some bs \<Rightarrow> [bs])\<rparr>) }"
| "exec_call I T salt pool (DropReservation k) w =
     (if length (kw_loads w) \<le> k then None
      else do {
        st \<leftarrow> release_mutables (kw_loads w ! k) (kw_store w);
        Some (w\<lparr>kw_store := st, kw_loads := without_nth k (kw_loads w)\<rparr>) })"
| "exec_call I T salt pool (CommitLoaded j k) w =
     (if length (kw_probes w) \<le> j \<or> length (kw_loads w) \<le> k then None
      else do {
        (p, st) \<leftarrow> commit_loaded_blocks I pool (kw_probes w ! j) (kw_loads w ! k) (kw_store w);
        Some (w\<lparr>kw_store := st, kw_probes := (kw_probes w)[j := p], kw_loads := without_nth k (kw_loads w)\<rparr>) })"
| "exec_call I T salt pool EvictInactive w = do { st \<leftarrow> evict_inactive I (kw_store w); Some (w\<lparr>kw_store := st\<rparr>) }"

text \<open>
  How the engines call: a prefix is matched once, on a request that has just been created (its
  tokens are in memory, so their number fits in a \<open>usize\<close>); a
  prefill emits a token only for a request that may produce one; a reservation is committed into
  the probe whose query window it was sized for.
\<close>

fun legal_call :: "'q token_sequence \<Rightarrow> kv_call \<Rightarrow> ('q, 'i) kv_world \<Rightarrow> bool" where
  "legal_call T (MatchPrefix k) w \<longleftrightarrow> k < length (kw_requests w) \<and> sq_is_empty (request_blocks (kw_requests w ! k)) \<and>
     sc_prefill_position (rk_seq (kw_requests w ! k)) = 0 \<and> sc_total_tokens T (rk_seq (kw_requests w ! k)) \<le> usize_max"
| "legal_call T (RunOp k op) w \<longleftrightarrow> k < length (kw_requests w) \<and>
     (case op of ApplyPrefill _ \<Rightarrow> 0 < rs_remaining_tokens (sc_inner (rk_seq (kw_requests w ! k))) | _ \<Rightarrow> True)"
| "legal_call T (TakeRegistered k) w \<longleftrightarrow> k < length (kw_requests w)"
| "legal_call T (MarkReset k) w \<longleftrightarrow> k < length (kw_requests w)"
| "legal_call T (PinBlocks k) w \<longleftrightarrow> k < length (kw_requests w)"
| "legal_call T (Unpin k) w \<longleftrightarrow> k < length (kw_pins w)"
| "legal_call T (DropRequest k) w \<longleftrightarrow> k < length (kw_requests w)"
| "legal_call T (DropProbe k) w \<longleftrightarrow> k < length (kw_probes w)"
| "legal_call T (DropReservation k) w \<longleftrightarrow> k < length (kw_loads w)"
| "legal_call T (CommitLoaded j k) w \<longleftrightarrow> j < length (kw_probes w) \<and> k < length (kw_loads w) \<and>
     pb_gpu_hit (kw_probes w ! j) + length (kw_loads w ! k) \<le> length (pb_seq_hashes (kw_probes w ! j))"
| "legal_call T _ w \<longleftrightarrow> True"

text \<open>The pool starts with the padding block registered and its one reference leaked.\<close>

definition world_of :: "block_pool \<times> 'i block_store \<times> immutable_block \<Rightarrow> ('q, 'i) kv_world" where
  "world_of p = (case p of (pool, st, a) \<Rightarrow> \<lparr>kw_store = st, kw_requests = [], kw_probes = [], kw_loads = [], kw_pins = [], kw_padding = a\<rparr>)"

inductive kv_reachable :: "'i index \<Rightarrow> 'q token_sequence \<Rightarrow> (string option \<Rightarrow> string option \<Rightarrow> u64) \<Rightarrow> block_pool \<Rightarrow>
    ('q, 'i) kv_world \<Rightarrow> ('q, 'i) kv_world \<Rightarrow> bool"
  for I :: "'i index" and T :: "'q token_sequence" and salt pool w0 where
  start: "kv_reachable I T salt pool w0 w0"
| call: "kv_reachable I T salt pool w0 w \<Longrightarrow> legal_call T c w \<Longrightarrow> exec_call I T salt pool c w = Some w' \<Longrightarrow>
    kv_reachable I T salt pool w0 w'"


section \<open>The invariant\<close>

definition kw_guards :: "'q request_kv list \<Rightarrow> ('q, 'i) kv_world \<Rightarrow> guard list" where
  "kw_guards rs w = concat (map (seq_guards \<circ> request_blocks) rs) @ map GMutable (concat (kw_loads w))"

definition kw_refs :: "'q request_kv list \<Rightarrow> ('q, 'i) kv_world \<Rightarrow> immutable_block list" where
  "kw_refs rs w = concat (map (map snd \<circ> (sq_assigned \<circ> request_blocks)) rs) @ concat (map pb_held (kw_probes w)) @
     kw_padding w # kw_pins w"

definition cache_ok :: "('i \<Rightarrow> bool) \<Rightarrow> ('i \<Rightarrow> entry list) \<Rightarrow> nat \<Rightarrow> 'q token_sequence \<Rightarrow> ('q \<Rightarrow> bool) \<Rightarrow> block_pool \<Rightarrow>
    ('q, 'i) kv_world \<Rightarrow> bool" where
  "cache_ok iv entries cap T valid pool w \<longleftrightarrow>
     held_ok iv entries cap (kw_guards (kw_requests w) w) (mset (kw_refs (kw_requests w) w)) (kw_store w) \<and>
     (\<forall>r \<in> set (kw_requests w). local_ok T valid (rk_seq r) (kw_store w)) \<and>
     bs_block_size (kw_store w) = bp_block_size pool \<and> 0 < bp_block_size pool \<and> bp_block_size pool < 2 ^ 32"

lemma cache_okD:
  assumes "cache_ok iv entries cap T valid pool w"
  shows "held_ok iv entries cap (kw_guards (kw_requests w) w) (mset (kw_refs (kw_requests w) w)) (kw_store w)"
    and "r \<in> set (kw_requests w) \<Longrightarrow> local_ok T valid (rk_seq r) (kw_store w)"
    and "bs_block_size (kw_store w) = bp_block_size pool" and "0 < bp_block_size pool" and "bp_block_size pool < 2 ^ 32"
  using assms by (simp_all add: cache_ok_def)

lemma mset_concat_update:
  "k < length xs \<Longrightarrow> mset (concat (map f (xs[k := x]))) = mset (f x) + mset (concat (map f (without_nth k xs)))"
  by (simp add: upd_conv_take_nth_drop without_nth_def)

lemma mset_concat_without:
  "k < length xs \<Longrightarrow> mset (concat (map f xs)) = mset (f (xs ! k)) + mset (concat (map f (without_nth k xs)))"
  using mset_concat_update [of k xs f "xs ! k"] by simp

lemma set_without_nth: "set (without_nth k xs) \<subseteq> set xs"
  by (auto simp: without_nth_def dest: in_set_takeD in_set_dropD)

lemma set_update_without: "set (xs[k := x]) \<subseteq> insert x (set (without_nth k xs))"
proof (cases "k < length xs")
  case True
  thus ?thesis by (auto simp: upd_conv_take_nth_drop without_nth_def)
qed (simp add: without_nth_def set_update_subset_insert)

lemma mset_without: "k < length xs \<Longrightarrow> mset xs = add_mset (xs ! k) (mset (without_nth k xs))"
  using mset_concat_without [of k xs "\<lambda>x. [x]"] by simp

lemma refs_of_request: "r \<in> set rs \<Longrightarrow> seq_refs (request_blocks r) \<subseteq># mset (kw_refs rs w)"
  by (auto simp: kw_refs_def seq_refs_def dest!: split_list simp del: mset_map)

lemma held_regroup: "held_ok iv entries cap gs R st \<Longrightarrow> mset gs' = mset gs \<Longrightarrow> R' = R \<Longrightarrow> held_ok iv entries cap gs' R' st"
  using held_guards by blast

text \<open>One request in the foreground, everything else behind it.\<close>

lemma focus_request:
  assumes "cache_ok iv entries cap T valid pool w" and k: "k < length (kw_requests w)"
  defines "rs \<equiv> without_nth k (kw_requests w)"
  shows "sequence_ok iv entries cap T valid (kw_guards rs w) (mset (kw_refs rs w)) (rk_seq (kw_requests w ! k)) (kw_store w)"
proof -
  have "mset (kw_refs (kw_requests w) w) = seq_refs (request_blocks (kw_requests w ! k)) + mset (kw_refs rs w)"
    by (simp add: kw_refs_def seq_refs_def rs_def mset_concat_without [OF k] del: mset_map)
  moreover have "mset (seq_guards (request_blocks (kw_requests w ! k)) @ kw_guards rs w) = mset (kw_guards (kw_requests w) w)"
    by (simp add: kw_guards_def rs_def mset_concat_without [OF k] del: mset_map)
  ultimately show ?thesis
    using held_regroup [OF cache_okD(1) [OF assms(1)]] cache_okD(2) [OF assms(1) nth_mem [OF k]] by (simp add: sequence_ok_split)
qed

lemma unfocus_request:
  assumes ok: "cache_ok iv entries cap T valid pool w" and k: "k < length (kw_requests w)"
  defines "rs \<equiv> without_nth k (kw_requests w)"
  assumes s: "sequence_ok iv entries cap T valid (kw_guards rs w) (mset (kw_refs rs w)) (rk_seq r) st"
    and steady: "steady (mset (kw_refs rs w)) (kw_store w) st"
  shows "cache_ok iv entries cap T valid pool (w\<lparr>kw_requests := (kw_requests w)[k := r], kw_store := st\<rparr>)"
proof -
  let ?rs = "(kw_requests w)[k := r]" let ?w = "w\<lparr>kw_requests := ?rs, kw_store := st\<rparr>"
  have "mset (kw_refs ?rs ?w) = seq_refs (request_blocks r) + mset (kw_refs rs w)"
    by (simp add: kw_refs_def seq_refs_def rs_def mset_concat_update [OF k] del: mset_map)
  moreover have "mset (kw_guards ?rs ?w) = mset (seq_guards (request_blocks r) @ kw_guards rs w)"
    by (simp add: kw_guards_def rs_def mset_concat_update [OF k] del: mset_map)
  ultimately have "held_ok iv entries cap (kw_guards ?rs ?w) (mset (kw_refs ?rs ?w)) st"
    using held_regroup conjunct2 [OF s [unfolded sequence_ok_split]] by blast
  moreover have "local_ok T valid (rk_seq x) st" if "x \<in> set ?rs" for x
  proof (cases "x \<in> set rs")
    case True
    hence "x \<in> set (kw_requests w)"
      unfolding rs_def by (rule subsetD [OF set_without_nth])
    thus ?thesis
      by (rule local_steady [OF cache_okD(2) [OF ok] steady refs_of_request [OF True]])
  next
    case False
    hence "x = r" using that set_update_without [of "kw_requests w" k r] unfolding rs_def by blast
    thus ?thesis using s by (simp add: sequence_ok_split)
  qed
  ultimately show ?thesis
    using cache_okD(3-5) [OF ok] steady by (simp add: cache_ok_def steady_def)
qed

text \<open>A call that only takes or returns guards and references of its own.\<close>

lemma cache_steady:
  assumes ok: "cache_ok iv entries cap T valid pool w" and h: "held_ok iv entries cap (kw_guards (kw_requests w') w')
      (mset (kw_refs (kw_requests w') w')) (kw_store w')"
    and rs: "set (kw_requests w') \<subseteq> set (kw_requests w)"
    and steady: "steady (mset (kw_refs (kw_requests w') (v :: ('q, 'i) kv_world))) (kw_store w) (kw_store w')"
  shows "cache_ok iv entries cap T valid pool (w' :: ('q, 'i) kv_world)"
proof -
  have "local_ok T valid (rk_seq x) (kw_store w')" if "x \<in> set (kw_requests w')" for x
    using local_steady [OF cache_okD(2) [OF ok] steady refs_of_request [OF that]] that rs by blast
  thus ?thesis
    using cache_okD(3-5) [OF ok] steady h by (simp add: cache_ok_def steady_def)
qed

section \<open>Every call keeps it and does not panic\<close>

text \<open>A fresh sequence.\<close>

lemma new_request_ok:
  assumes T: "token_laws T valid" and "0 < bp_block_size pool" "bp_block_size pool < 2 ^ 32" and "bs_block_size st = bp_block_size pool"
  shows "local_ok T valid (rk_seq (new_request_with_cache_salt T salt pool prompt max_out cs lora)) st"
  using token_lawsD(1-3) [OF T assms(2), of prompt "Some (salt cs lora)"] assms(3,4)
  by (auto simp: local_ok_def positions_ok_def new_request_with_cache_salt_def new_schedulable_def new_request_sequence_def sc_defs
      Let_def shape_empty)

lemma in_request_ok:
  assumes ok: "cache_ok iv entries cap T valid pool w" and k: "k < length (kw_requests w)"
    and f: "\<And>gs R. sequence_ok iv entries cap T valid gs R (rk_seq (kw_requests w ! k)) (kw_store w) \<Longrightarrow>
      \<exists>x r st. f (kw_requests w ! k) (kw_store w) = Some (x, r, st) \<and> sequence_ok iv entries cap T valid gs R (rk_seq r) st \<and>
        steady R (kw_store w) st"
  shows "\<exists>w'. in_request k f w = Some w' \<and> cache_ok iv entries cap T valid pool w'"
  using f [OF focus_request [OF ok k]] unfocus_request [OF ok k] k by (fastforce simp: in_request_def)

lemma keeps_on_seq:
  assumes "keeps iv entries cap T valid gs R st (res :: (('e + 'a) \<times> 'q schedulable \<times> 'i block_store) option)"
  shows "\<exists>x r' st'. on_seq (answered res) r = Some (x, r', st') \<and> sequence_ok iv entries cap T valid gs R (rk_seq r') st' \<and> steady R st st'"
  using assms by (auto simp: keeps_def on_seq_def answered_def)

context block_index
begin

lemma run_kv_op_ok:
  assumes T: "token_laws T valid" and ok: "sequence_ok iv entries cap T valid gs R (rk_seq r) st"
    and "case op of ApplyPrefill _ \<Rightarrow> 0 < rs_remaining_tokens (sc_inner (rk_seq r)) | _ \<Rightarrow> True"
  shows "\<exists>x r' st'. run_kv_op I T op r st = Some (x, r', st') \<and> sequence_ok iv entries cap T valid gs R (rk_seq r') st' \<and> steady R st st'"
  using assms(3) unfolding run_kv_op_def
  by (cases op) (simp_all only: kv_op.case, (rule keeps_on_seq schedule_keeps [OF T ok] apply_keeps [OF T ok] revert_keeps [OF ok]
      release_keeps [OF ok] | simp add: rs_remaining_tokens_def saturating_sub_def)+)

lemma kv_match_ok:
  assumes T: "token_laws T valid" and ok: "sequence_ok iv entries cap T valid gs R (rk_seq r) st"
    and "sq_is_empty (request_blocks r)" "sc_prefill_position (rk_seq r) = 0" "sc_total_tokens T (rk_seq r) \<le> usize_max"
  shows "\<exists>x r' st'. kv_match_and_add_prefix I T r st = Some (x, r', st') \<and> sequence_ok iv entries cap T valid gs R (rk_seq r') st' \<and> steady R st st'"
  using match_keeps [OF T ok assms(3-5)] by (fastforce simp: keeps_def kv_match_and_add_prefix_def split: sum.splits)

lemma take_newly_registered_ok:
  assumes T: "token_laws T valid" and ok: "sequence_ok iv entries cap T valid gs R (rk_seq r) st"
  shows "\<exists>bs r'. take_newly_registered_blocks T r = Some (bs, r') \<and> rk_seq r' = rk_seq r"
proof -
  obtain as us where s: "request_blocks r = shape as [] us" "own gs R (all_sequence_hashes T (rs_sequence (sc_inner (rk_seq r)))) as [] us st"
    using ok by (auto simp: sequence_ok_def)
  show ?thesis
    using owns_length [OF s(2)] s(1) by (auto simp: take_newly_registered_blocks_def Let_def all_sequence_hashes_def assigned_blocks_def)
qed

lemma set_primary_held:
  assumes "held gs R st" and "a \<in># R"
  shows "\<exists>st'. set_primary_reset_on_release a v st = Some st' \<and> held gs R st' \<and> unmoved st st'"
proof -
  obtain i where i: "bs_arcs st a = Some i" by (rule held_slot [OF assms])
  obtain st' where st': "set_primary_reset_on_release a v st = Some st'"
    using override_total(2) [OF held_okD(1) [OF assms(1)] i, of v] by blast
  have "unmoved st st'"
    using st' by (auto simp: set_primary_reset_on_release_def store_reset_on_release_def bind_eq_Some_conv unmoved_def split: if_splits)
  moreover have "store_ok iv entries cap {} {} {#} gs st'"
    using step_ok [OF bs_step.override_primary [OF st', of I undefined gs]] held_okD(1) [OF assms(1)] by simp
  ultimately show ?thesis
    using held_unmoved [OF assms(1)] st' by blast
qed

lemma mark_reset_held:
  "held gs R st \<Longrightarrow> set as \<subseteq> set_mset R \<Longrightarrow> \<exists>st'. mark_reset as st = Some st' \<and> held gs R st' \<and> unmoved st st'"
proof (induction as arbitrary: st)
  case (Cons a as)
  obtain st1 where st1: "set_primary_reset_on_release a True st = Some st1" "held gs R st1" "unmoved st st1"
    using set_primary_held [OF Cons.prems(1), of a True] Cons.prems(2) by auto
  show ?case
    using Cons.IH [OF st1(2)] Cons.prems(2) st1 unmoved_trans by fastforce
qed simp

lemma mark_blocks_ok:
  assumes ok: "sequence_ok iv entries cap T valid gs R (rk_seq r) st"
  shows "\<exists>st'. mark_blocks_reset_on_release r st = Some st' \<and> sequence_ok iv entries cap T valid gs R (rk_seq r) st' \<and> steady R st st'"
proof -
  note S = ok [unfolded sequence_ok_split]
  obtain st' where st': "mark_blocks_reset_on_release r st = Some st'"
      "held (seq_guards (request_blocks r) @ gs) (seq_refs (request_blocks r) + R) st'" "unmoved st st'"
    using mark_reset_held [OF conjunct2 [OF S], of "map snd (sq_assigned (request_blocks r))"]
    by (auto simp: mark_blocks_reset_on_release_def seq_refs_def)
  show ?thesis
    using st' local_steady [OF conjunct1 [OF S] unmoved_steady [OF st'(3)] subset_mset.order_refl] unmoved_steady [OF st'(3)]
    by (auto simp: sequence_ok_split)
qed

lemma clone_held:
  assumes "held gs R st" and "a \<in># R"
  shows "\<exists>st'. arc_clone a st = Some st' \<and> held gs (add_mset a R) st' \<and> steady R st st'"
proof -
  obtain i where i: "bs_arcs st a = Some i" by (rule held_slot [OF assms])
  note D = held_okD [OF assms(1)]
  have "in_strong i = count R a + keepers (bs_arcs st) a" "0 < count R a"
    using refs_okD(1) [OF D(2), of a] i assms(2) by (simp_all add: strong_def)
  hence "keepers (bs_arcs st) a < in_strong i" by linarith
  then obtain st' where st': "arc_clone a st = Some st'" "store_ok iv entries cap {} {} {#} gs st'"
    using arc_moves_ok(1) [OF D(1) i] by blast
  have t: "taken (bs_arcs st) a (in_hash i) (bs_arcs st')" "bs_block_size st' = bs_block_size st"
    using st'(1) i by (auto simp: arc_clone_def taken_def)
  show ?thesis
    using st' refs_taken [OF D(2,3) t(1)] taken_steady [OF D(2) t] by (auto simp: held_ok_def)
qed

lemma clone_all_held:
  "held gs R st \<Longrightarrow> set as \<subseteq> set_mset R \<Longrightarrow> \<exists>st'. clone_all as st = Some st' \<and> held gs (mset as + R) st' \<and> steady R st st'"
proof (induction as arbitrary: st R)
  case (Cons a as)
  obtain st1 where st1: "arc_clone a st = Some st1" "held gs (add_mset a R) st1" "steady R st st1"
    using clone_held [OF Cons.prems(1)] Cons.prems(2) by auto
  obtain st' where st': "clone_all as st1 = Some st'" "held gs (mset as + add_mset a R) st'" "steady (add_mset a R) st1 st'"
    using Cons.IH [OF st1(2)] Cons.prems(2) by auto
  show ?case
    using st1 st' steady_trans [OF st1(3) steady_mono [OF st'(3)]] by auto
qed simp

lemma commit_loop_held:
  "held (map GMutable bs @ gs) (mset (pb_held p) + R) st \<Longrightarrow> bs_block_size st = n \<Longrightarrow> k + length bs \<le> length (pb_seq_hashes p) \<Longrightarrow>
   \<exists>p' st'. commit_loop I n k bs p st = Some (p', st') \<and> held gs (mset (pb_held p') + R) st' \<and> steady R st st'"
proof (induction bs arbitrary: k p st)
  case (Cons b bs)
  let ?h = "pb_seq_hashes p ! k"
  obtain st1 where st1: "stage b ?h n st = Some (Inr st1)" "held (GComplete b ?h # map GMutable bs @ gs) (mset (pb_held p) + R) st1" "unmoved st st1"
    using stage_held [of b "map GMutable bs @ gs"] Cons.prems(1,2) by fastforce
  obtain a st2 where st2: "register_completed_block I Allow b ?h st1 = Some (a, st2)" "steady (mset (pb_held p) + R) st1 st2"
      "held (map GMutable bs @ gs) (add_mset a (mset (pb_held p) + R)) st2"
    using register_held [OF st1(2), of Allow] by blast
  have s: "steady R st st2"
    by (rule steady_trans [OF unmoved_steady [OF st1(3)] steady_mono [OF st2(2)]]) simp
  have "\<exists>p' st'. commit_loop I n (k + 1) bs (p\<lparr>pb_held := pb_held p @ [a]\<rparr>) st2 = Some (p', st') \<and>
      held gs (mset (pb_held p') + R) st' \<and> steady R st2 st'"
    by (rule Cons.IH) (use st2(3) s Cons.prems in \<open>simp_all add: steady_def\<close>)
  thus ?case
    using Cons.prems(3) st1(1) st2(1) steady_trans [OF s] by fastforce
qed auto

text \<open>The calls on the pool itself.\<close>

lemma pin_ok:
  assumes ok: "cache_ok iv entries cap T valid pool w" and k: "k < length (kw_requests w)"
  shows "\<exists>w'. exec_call I T salt pool (PinBlocks k) w = Some w' \<and> cache_ok iv entries cap T valid pool w'"
proof -
  let ?as = "map snd (sq_assigned (request_blocks (kw_requests w ! k)))" and ?R = "mset (kw_refs (kw_requests w) w)"
  have "set ?as \<subseteq> set_mset ?R"
    using set_mset_mono [OF refs_of_request [OF nth_mem [OF k], of w]] by (simp add: seq_refs_def)
  then obtain st where st: "clone_all ?as (kw_store w) = Some st" "held (kw_guards (kw_requests w) w) (mset ?as + ?R) st" "steady ?R (kw_store w) st"
    using clone_all_held [OF cache_okD(1) [OF ok]] by blast
  let ?w = "w\<lparr>kw_store := st, kw_pins := kw_pins w @ ?as\<rparr>"
  have "cache_ok iv entries cap T valid pool ?w"
    by (rule cache_steady [OF ok, where v = w]) (use st in \<open>simp_all add: kw_guards_def kw_refs_def ac_simps\<close>)
  thus ?thesis
    using k st(1) by (simp add: assigned_block_guards_def Let_def)
qed

lemma unpin_ok:
  assumes ok: "cache_ok iv entries cap T valid pool w" and k: "k < length (kw_pins w)"
  shows "\<exists>w'. exec_call I T salt pool (Unpin k) w = Some w' \<and> cache_ok iv entries cap T valid pool w'"
proof -
  let ?w = "\<lambda>st. w\<lparr>kw_store := st, kw_pins := without_nth k (kw_pins w)\<rparr>"
  let ?R = "mset (kw_refs (kw_requests w) (?w (kw_store w)))"
  have "held (kw_guards (kw_requests w) w) (add_mset (kw_pins w ! k) ?R) (kw_store w)"
    by (rule held_regroup [OF cache_okD(1) [OF ok]]) (simp_all add: kw_refs_def mset_without [OF k])
  then obtain st where st: "drop_immutable I (kw_pins w ! k) (kw_store w) = Some st"
      "held (kw_guards (kw_requests w) w) ?R st" "steady ?R (kw_store w) st"
    using drop_immutable_held by blast
  have "cache_ok iv entries cap T valid pool (?w st)"
    by (rule cache_steady [OF ok, where v = "?w (kw_store w)"]) (use st in \<open>simp_all add: kw_guards_def kw_refs_def\<close>)
  thus ?thesis
    using k st(1) by simp
qed

lemma drop_probe_ok:
  assumes ok: "cache_ok iv entries cap T valid pool w" and k: "k < length (kw_probes w)"
  shows "\<exists>w'. exec_call I T salt pool (DropProbe k) w = Some w' \<and> cache_ok iv entries cap T valid pool w'"
proof -
  let ?w = "\<lambda>st. w\<lparr>kw_store := st, kw_probes := without_nth k (kw_probes w)\<rparr>"
  let ?R = "mset (kw_refs (kw_requests w) (?w (kw_store w)))"
  have "held (kw_guards (kw_requests w) w) (mset (pb_held (kw_probes w ! k)) + ?R) (kw_store w)"
    by (rule held_regroup [OF cache_okD(1) [OF ok]]) (simp_all add: kw_refs_def mset_concat_without [OF k])
  then obtain st where st: "drop_immutables I (pb_held (kw_probes w ! k)) (kw_store w) = Some st"
      "held (kw_guards (kw_requests w) w) ?R st" "steady ?R (kw_store w) st"
    using drop_immutables_held by blast
  have "cache_ok iv entries cap T valid pool (?w st)"
    by (rule cache_steady [OF ok, where v = "?w (kw_store w)"]) (use st in \<open>simp_all add: kw_guards_def kw_refs_def\<close>)
  thus ?thesis
    using k st(1) by simp
qed

lemma drop_request_ok:
  assumes ok: "cache_ok iv entries cap T valid pool w" and k: "k < length (kw_requests w)"
  shows "\<exists>w'. exec_call I T salt pool (DropRequest k) w = Some w' \<and> cache_ok iv entries cap T valid pool w'"
proof -
  let ?rs = "without_nth k (kw_requests w)" let ?R = "mset (kw_refs ?rs w)"
  obtain as us where s: "request_blocks (kw_requests w ! k) = shape as [] us"
      "own (kw_guards ?rs w) ?R (all_sequence_hashes T (rs_sequence (sc_inner (rk_seq (kw_requests w ! k))))) as [] us (kw_store w)"
    using focus_request [OF ok k] by (auto simp: sequence_ok_def)
  obtain st where st: "clear_assignments I (shape as [] us) (kw_store w) = Some (shape [] [] [], st)" "held (kw_guards ?rs w) ?R st"
      "steady ?R (kw_store w) st"
    using clear_own [OF s(2)] by blast
  have "cache_ok iv entries cap T valid pool (w\<lparr>kw_store := st, kw_requests := ?rs\<rparr>)"
    by (rule cache_steady [OF ok, where v = w]) (use st set_without_nth [of k "kw_requests w"] in \<open>simp_all add: kw_guards_def kw_refs_def\<close>)
  thus ?thesis
    using k st(1) s(1) by simp
qed

lemma probe_prefix_ok:
  assumes ok: "cache_ok iv entries cap T valid pool w"
  shows "\<exists>w'. exec_call I T salt pool (ProbePrefix prompt cs lora) w = Some w' \<and> cache_ok iv entries cap T valid pool w'"
proof -
  let ?R = "mset (kw_refs (kw_requests w) w)"
  let ?hs = "all_sequence_hashes T (rs_sequence (sc_inner (rk_seq (new_request_with_cache_salt T salt pool prompt 0 cs lora))))"
  obtain as st where st: "match_prefix_locked_batch I ?hs (kw_store w) = Some (as, st)"
      "held (kw_guards (kw_requests w) w) (mset as + ?R) st" "steady ?R (kw_store w) st"
    using match_held [OF cache_okD(1) [OF ok]] by blast
  have "cache_ok iv entries cap T valid pool (w\<lparr>kw_store := st, kw_probes := kw_probes w @
      [\<lparr>pb_seq_hashes = ?hs, pb_gpu_hit = length as, pb_cacheable = saturating_sub (length prompt) 1 div bp_block_size pool, pb_held = as\<rparr>]\<rparr>)"
    by (rule cache_steady [OF ok, where v = w]) (use st in \<open>simp_all add: kw_guards_def kw_refs_def ac_simps\<close>)
  thus ?thesis
    using st(1) by (simp add: probe_prefix_with_cache_salt_def Let_def)
qed

lemma reserve_loaded_ok:
  assumes ok: "cache_ok iv entries cap T valid pool w"
  shows "\<exists>w'. exec_call I T salt pool (ReserveLoaded n) w = Some w' \<and> cache_ok iv entries cap T valid pool w'"
  using allocate_held [OF cache_okD(1) [OF ok], of n]
proof (elim disjE exE conjE)
  fix ids ev st
  assume st: "allocate_atomic I n (kw_store w) = Some (Some (ids, ev), st)"
    "held (map GMutable ids @ kw_guards (kw_requests w) w) (mset (kw_refs (kw_requests w) w)) st" "unmoved (kw_store w) st"
  let ?w = "w\<lparr>kw_store := st, kw_loads := kw_loads w @ [ids]\<rparr>"
  have "held (kw_guards (kw_requests w) ?w) (mset (kw_refs (kw_requests w) ?w)) st"
    by (rule held_regroup [OF st(2)]) (simp_all add: kw_guards_def kw_refs_def)
  hence "cache_ok iv entries cap T valid pool ?w"
    by (intro cache_steady [OF ok, where v = w]) (use unmoved_steady [OF st(3)] in simp_all)
  thus ?thesis
    using st(1) by (simp add: reserve_loaded_blocks_def)
qed (use ok in \<open>simp add: reserve_loaded_blocks_def\<close>)

lemma drop_reservation_ok:
  assumes ok: "cache_ok iv entries cap T valid pool w" and k: "k < length (kw_loads w)"
  shows "\<exists>w'. exec_call I T salt pool (DropReservation k) w = Some w' \<and> cache_ok iv entries cap T valid pool w'"
proof -
  let ?w = "\<lambda>st. w\<lparr>kw_store := st, kw_loads := without_nth k (kw_loads w)\<rparr>"
  let ?R = "mset (kw_refs (kw_requests w) w)"
  have "held (map GMutable (kw_loads w ! k) @ kw_guards (kw_requests w) (?w (kw_store w))) ?R (kw_store w)"
    by (rule held_regroup [OF cache_okD(1) [OF ok]]) (use mset_concat_without [OF k, of "\<lambda>x. x"] in \<open>simp_all add: kw_guards_def\<close>)
  then obtain st where st: "release_mutables (kw_loads w ! k) (kw_store w) = Some st"
      "held (kw_guards (kw_requests w) (?w (kw_store w))) ?R st" "unmoved (kw_store w) st"
    using release_mutables_held by blast
  have "cache_ok iv entries cap T valid pool (?w st)"
    by (rule cache_steady [OF ok, where v = w]) (use st unmoved_steady [OF st(3)] in \<open>simp_all add: kw_guards_def kw_refs_def\<close>)
  thus ?thesis
    using k st(1) by simp
qed

lemma commit_ok:
  assumes ok: "cache_ok iv entries cap T valid pool w" and legal: "legal_call T (CommitLoaded j k) w"
  shows "\<exists>w'. exec_call I T salt pool (CommitLoaded j k) w = Some w' \<and> cache_ok iv entries cap T valid pool w'"
proof -
  let ?w = "\<lambda>p st. w\<lparr>kw_store := st, kw_probes := (kw_probes w)[j := p], kw_loads := without_nth k (kw_loads w)\<rparr>"
  let ?p = "kw_probes w ! j" let ?v = "w\<lparr>kw_probes := without_nth j (kw_probes w), kw_loads := without_nth k (kw_loads w)\<rparr>"
  let ?R = "mset (kw_refs (kw_requests w) ?v)"
  have j: "j < length (kw_probes w)" and k: "k < length (kw_loads w)"
    and room: "pb_gpu_hit ?p + length (kw_loads w ! k) \<le> length (pb_seq_hashes ?p)"
    using legal by simp_all
  have "held (map GMutable (kw_loads w ! k) @ kw_guards (kw_requests w) ?v) (mset (pb_held ?p) + ?R) (kw_store w)"
    by (rule held_regroup [OF cache_okD(1) [OF ok]])
      (use mset_concat_without [OF k, of "\<lambda>x. x"] in \<open>simp_all add: kw_guards_def kw_refs_def mset_concat_without [OF j]\<close>)
  then obtain p st where st: "commit_loop I (bp_block_size pool) (pb_gpu_hit ?p) (kw_loads w ! k) ?p (kw_store w) = Some (p, st)"
      "held (kw_guards (kw_requests w) ?v) (mset (pb_held p) + ?R) st" "steady ?R (kw_store w) st"
    using commit_loop_held [OF _ cache_okD(3) [OF ok] room] by blast
  have "held (kw_guards (kw_requests w) (?w p st)) (mset (kw_refs (kw_requests w) (?w p st))) st"
    by (rule held_regroup [OF st(2)]) (simp_all add: kw_guards_def kw_refs_def mset_concat_update [OF j])
  hence "cache_ok iv entries cap T valid pool (?w p st)"
    by (intro cache_steady [OF ok, where v = ?v]) (use st(3) in simp_all)
  thus ?thesis
    using j k st(1) by (simp add: commit_loaded_blocks_def)
qed

lemma evict_ok:
  assumes ok: "cache_ok iv entries cap T valid pool w"
  shows "\<exists>w'. exec_call I T salt pool EvictInactive w = Some w' \<and> cache_ok iv entries cap T valid pool w'"
proof -
  obtain st where st: "evict_inactive I (kw_store w) = Some st"
      "held (kw_guards (kw_requests w) w) (mset (kw_refs (kw_requests w) w)) st" "unmoved (kw_store w) st"
    using evict_inactive_held [OF cache_okD(1) [OF ok]] by blast
  have "cache_ok iv entries cap T valid pool (w\<lparr>kw_store := st\<rparr>)"
    by (rule cache_steady [OF ok, where v = w]) (use st unmoved_steady [OF st(3)] in \<open>simp_all add: kw_guards_def kw_refs_def\<close>)
  thus ?thesis
    using st(1) by simp
qed

text \<open>Every legal call returns, and the pool is as it was, but for what the call took or gave back.\<close>

lemma call_ok:
  assumes T: "token_laws T valid" and ok: "cache_ok iv entries cap T valid pool w" and legal: "legal_call T c w"
  shows "\<exists>w'. exec_call I T salt pool c w = Some w' \<and> cache_ok iv entries cap T valid pool w'"
proof (cases c)
  case (NewRequest prompt max_out cs lora)
  let ?r = "new_request_with_cache_salt T salt pool prompt max_out cs lora"
  have "local_ok T valid (rk_seq ?r) (kw_store w)"
    by (rule new_request_ok [OF T cache_okD(4,5,3) [OF ok]])
  moreover have "request_blocks ?r = shape [] [] []"
    by (simp add: new_request_with_cache_salt_def new_schedulable_def new_request_sequence_def shape_empty)
  ultimately show ?thesis
    using NewRequest ok by (auto simp: cache_ok_def kw_guards_def kw_refs_def)
next
  case (MatchPrefix k)
  show ?thesis
    unfolding MatchPrefix exec_call.simps
    by (rule in_request_ok [OF ok]) (use legal MatchPrefix kv_match_ok [OF T] in simp_all)
next
  case (RunOp k op)
  show ?thesis
    unfolding RunOp exec_call.simps
    by (rule in_request_ok [OF ok]) (use legal RunOp run_kv_op_ok [OF T] in simp_all)
next
  case (TakeRegistered k)
  show ?thesis
    unfolding TakeRegistered exec_call.simps
    by (rule in_request_ok [OF ok]) (use legal TakeRegistered take_newly_registered_ok [OF T] in fastforce)+
next
  case (MarkReset k)
  show ?thesis
    unfolding MarkReset exec_call.simps
    by (rule in_request_ok [OF ok]) (use legal MarkReset mark_blocks_ok in fastforce)+
qed (use legal in \<open>auto intro: pin_ok [OF ok] unpin_ok [OF ok] drop_request_ok [OF ok] probe_prefix_ok [OF ok] drop_probe_ok [OF ok]
    reserve_loaded_ok [OF ok] drop_reservation_ok [OF ok] commit_ok [OF ok] evict_ok [OF ok] simp del: exec_call.simps\<close>)

end

end
