(* ===== verification/Kv_Properties.thy ===== *)
theory Kv_Properties
  imports Kv_World
begin

text \<open>
  What the KV cache promises to the engines that use it, in every state they can bring it to.
\<close>

section \<open>The cache from its construction\<close>

lemma build_pool_makes:
  assumes B: "block_index I iv entries n" and ix: "iv ix" "entries ix = []"
    and n: "2 \<le> n" and bs: "1 \<le> bs" "bs \<le> 1024" "is_power_of_two bs"
  shows "\<exists>p. build_pool I ix dh bs n = Some (Inr p) \<and> cache_ok iv entries n T valid (fst p) (world_of p)"
proof -
  let ?st = "new_store n bs ix False"
  have h: "held_ok iv entries n [] {#} ?st"
    using block_index.ok_new [OF B ix] by (simp add: held_ok_def refs_ok_def counts_ok_def new_store_def strong_def keepers_def)
  have "available_len I ?st = n"
    using block_index.available_eq [OF B h] ix by (simp add: new_store_def)
  then obtain ids ev st where st: "allocate_atomic I 1 ?st = Some (Some (ids, ev), st)" "length ids = 1"
      "held_ok iv entries n (map GMutable ids) {#} st" "unmoved ?st st"
    using block_index.allocate_held [OF B h, of 1] n by auto
  then obtain a where ids: "ids = [a]" by (auto simp: length_Suc_conv)
  have sz: "bs_block_size st = bs"
    using st(4) by (simp add: unmoved_def new_store_def)
  obtain st1 where st1: "stage a dh bs st = Some (Inr st1)" "held_ok iv entries n [GComplete a dh] {#} st1" "unmoved st st1"
    using block_index.stage_held [OF B, of a "[]" "{#}" st bs dh] st(3) ids sz by auto
  obtain x st2 where st2: "register_completed_block I Allow a dh st1 = Some (x, st2)" "held_ok iv entries n [] {#x#} st2" "steady {#} st1 st2"
    using block_index.register_held [OF B, of a dh "[]" "{#}" st1 Allow] st1(2) by auto
  let ?p = "(\<lparr>bp_block_size = bs, bp_padding_block_id = a\<rparr>, st2, x)"
  have "build_pool I ix dh bs n = Some (Inr ?p)"
    using n bs st(1) ids st1(1) st2(1) by (simp add: build_pool_def)
  moreover have "cache_ok iv entries n T valid (fst ?p) (world_of ?p)"
    using st2 st1(3) sz bs by (simp add: cache_ok_def world_of_def kw_guards_def kw_refs_def steady_def unmoved_def)
  ultimately show ?thesis by blast
qed

lemma build_pool_ok:
  assumes B: "block_index I iv entries n" and ix: "iv ix" "entries ix = []" and b: "build_pool I ix dh bs n = Some (Inr p)"
  shows "cache_ok iv entries n T valid (fst p) (world_of p)"
proof -
  have "2 \<le> n \<and> 1 \<le> bs \<and> bs \<le> 1024 \<and> is_power_of_two bs"
    using b by (auto simp: build_pool_def split: if_splits)
  thus ?thesis
    using build_pool_makes [OF B ix, of bs dh T valid] b by auto
qed

lemma kv_ok:
  assumes B: "block_index I iv entries n" and T: "token_laws T valid" and ix: "iv ix" "entries ix = []"
    and b: "build_pool I ix dh bs n = Some (Inr p)" and r: "kv_reachable I T salt (fst p) (world_of p) w"
  shows "cache_ok iv entries n T valid (fst p) w"
  using r
proof induction
  case start
  show ?case by (rule build_pool_ok [OF B ix b])
next
  case (call w c w')
  thus ?case
    using block_index.call_ok [OF B T call.IH call.hyps(2), of salt] by auto
qed

section \<open>Blocks in use\<close>

definition private_blocks :: "('q, 'i) kv_world \<Rightarrow> block_id list" where
  "private_blocks w = concat (map (map snd \<circ> (sq_unassigned \<circ> request_blocks)) (kw_requests w)) @ concat (kw_loads w)"

definition referenced_blocks :: "'i block_store \<Rightarrow> immutable_block \<Rightarrow> block_id list" where
  "referenced_blocks st a =
     (case bs_arcs st a of
        None \<Rightarrow> []
      | Some i \<Rightarrow> in_block i # (case in_keep i of
            None \<Rightarrow> []
          | Some p \<Rightarrow> (case bs_arcs st p of None \<Rightarrow> [] | Some j \<Rightarrow> [in_block j])))"

definition blocks_in_use :: "('q, 'i) kv_world \<Rightarrow> block_id list" where
  "blocks_in_use w = private_blocks w @ concat (map (referenced_blocks (kw_store w)) (kw_refs (kw_requests w) w))"

lemma guards_private: "kw_guards (kw_requests w) w = map GMutable (private_blocks w)"
  by (simp add: kw_guards_def private_blocks_def seq_guards_def map_concat o_def)

text \<open>Nobody keeps a duplicate alive but the clients that hold it.\<close>

lemma keepers_some: "keepers arcs a \<noteq> 0 \<Longrightarrow> \<exists>d j. arcs d = Some j \<and> in_keep j = Some a"
proof (rule ccontr)
  assume k: "keepers arcs a \<noteq> 0" "\<nexists>d j. arcs d = Some j \<and> in_keep j = Some a"
  hence "{d. \<exists>i. arcs d = Some i \<and> in_keep i = Some a} = {}" by blast
  thus False using k(1) unfolding keepers_def by (metis card.empty)
qed

lemma duplicate_referenced:
  assumes h: "held_ok iv entries cap gs R st" and i: "bs_arcs st a = Some i" "\<not> in_primary i"
  shows "a \<in># R"
proof -
  note A = store_okD(8) [OF held_okD(1) [OF h]]
  have "keepers (bs_arcs st) a = 0"
  proof (rule ccontr)
    assume "keepers (bs_arcs st) a \<noteq> 0"
    then obtain d j where "bs_arcs st d = Some j" "in_keep j = Some a"
      using keepers_some by blast
    thus False
      using arcs_okD(4,6) [OF A, of d j] i by (cases "in_primary j") auto
  qed
  thus ?thesis
    using refs_okD [OF held_okD(2) [OF h], of a] i(1) by (simp add: strong_def flip: count_greater_zero_iff)
qed

lemma primary_referenced:
  assumes h: "held_ok iv entries cap gs R st" and i: "bs_arcs st a = Some i"
  shows "\<exists>d \<in># R. in_block i \<in> set (referenced_blocks st d)"
proof (cases "a \<in># R")
  case True
  thus ?thesis using i by (intro bexI [of _ a]) (simp_all add: referenced_blocks_def)
next
  case False
  hence "keepers (bs_arcs st) a \<noteq> 0"
    using refs_okD [OF held_okD(2) [OF h], of a] i by (simp add: strong_def not_in_iff)
  then obtain d j where d: "bs_arcs st d = Some j" "in_keep j = Some a"
    using keepers_some by blast
  hence "\<not> in_primary j"
    using arcs_okD(4) [OF store_okD(8) [OF held_okD(1) [OF h]], of d j] by auto
  thus ?thesis
    using duplicate_referenced [OF h d(1)] d i by (intro bexI [of _ d]) (simp_all add: referenced_blocks_def)
qed

lemma referenced_registered:
  assumes h: "held_ok iv entries cap gs R st" and "d \<in># R" and b: "b \<in> set (referenced_blocks st d)"
  shows "\<exists>k a. slot_at st b = Some (Primary k a) \<or> slot_at st b = Some (Duplicate k a)"
proof -
  note A = store_okD(8) [OF held_okD(1) [OF h]]
  obtain i where i: "bs_arcs st d = Some i"
      "slot_at st (in_block i) = Some (if in_primary i then Primary (in_hash i) d else Duplicate (in_hash i) d)"
    by (rule held_slot [OF h assms(2)])
  show ?thesis
  proof (cases "b = in_block i")
    case True
    thus ?thesis using i(2) by auto
  next
    case False
    then obtain p j where p: "in_keep i = Some p" "bs_arcs st p = Some j" "b = in_block j"
      using b i(1) by (cases "in_keep i"; cases "bs_arcs st (the (in_keep i))") (auto simp: referenced_blocks_def)
    moreover have "in_primary j"
      using arcs_okD(4,6) [OF A i(1)] p by (cases "in_primary i") auto
    ultimately show ?thesis
      using arcs_okD(5) [OF A p(2)] refs_okD(2) [OF held_okD(2) [OF h] p(2)] by auto
  qed
qed

lemma in_use_iff:
  assumes h: "held_ok iv entries cap (kw_guards (kw_requests w) w) (mset (kw_refs (kw_requests w) w)) (kw_store w)"
  shows "b \<in> set (blocks_in_use w) \<longleftrightarrow> slot_at (kw_store w) b \<noteq> None \<and>
    slot_at (kw_store w) b \<noteq> Some Reset \<and> (\<forall>k. slot_at (kw_store w) b \<noteq> Some (Inactive k))"
proof -
  note D = store_okD [OF held_okD(1) [OF h]]
  note S = slots_okD(5,6) [OF D(6)]
  have m: "b \<in> set (private_blocks w) \<longleftrightarrow> slot_at (kw_store w) b = Some Mutable"
    using S(1) [of b] by (auto simp: guards_private)
  have c: "slot_at (kw_store w) b \<noteq> Some (Staged k)" for k
    using S(2) [of b k] by (auto simp: guards_private)
  have r: "(\<exists>d \<in> set (kw_refs (kw_requests w) w). b \<in> set (referenced_blocks (kw_store w) d)) \<longleftrightarrow>
      (\<exists>k a. slot_at (kw_store w) b = Some (Primary k a) \<or> slot_at (kw_store w) b = Some (Duplicate k a))"
    using referenced_registered [OF h] primary_referenced [OF h] arcs_okD(2,3) [OF D(8), of b] by fastforce
  show ?thesis
    unfolding blocks_in_use_def using m c r by (cases "slot_at (kw_store w) b") (auto, metis slot.exhaust)
qed

lemma available_count:
  assumes B: "block_index I iv entries cap" and h: "held_ok iv entries cap gs R st"
  shows "available_len I st = card {b. slot_at st b = Some Reset \<or> (\<exists>k. slot_at st b = Some (Inactive k))}"
proof -
  let ?es = "entries (bs_inactive st)"
  note D = store_okD [OF held_okD(1) [OF h]]
  note S = slots_okD(1,2) [OF D(6), simplified]
  have "inj_on snd (set ?es)"
    by (rule inj_onI) (use S(2) in auto)
  moreover have "distinct ?es"
    using block_index.keys [OF B D(5)] by (simp add: distinct_map)
  ultimately have "card (snd ` set ?es) = length ?es"
    by (simp add: card_image distinct_card)
  moreover have "card (set (bs_free st)) = length (bs_free st)"
    using D(3) by (simp add: distinct_card)
  moreover have "set (bs_free st) \<inter> snd ` set ?es = {}"
    using S by force
  ultimately have "available_len I st = card (set (bs_free st) \<union> snd ` set ?es)"
    using block_index.available_eq [OF B h] by (simp add: card_Un_disjoint)
  also have "set (bs_free st) \<union> snd ` set ?es = {b. slot_at st b = Some Reset \<or> (\<exists>k. slot_at st b = Some (Inactive k))}"
    using S by force
  finally show ?thesis .
qed

text \<open>
  C15: the cache never panics and stays well formed. From the construction of the pool on, with the
  requests, probes, reservations and pins that the calls so far have left, every call the engines
  make returns: no allocation, stage, registration, lookup or drop of a block hits an assertion of
  the block store or of the sequence, whatever was evicted or shared in between. The state it leaves
  is well formed again: the slots agree with the free list, the index and the guards in hand, every
  strong count is the number of references in hand, and the positions of every request fit the
  blocks it holds.
\<close>

theorem kv_calls_never_panic:
  assumes "block_index I iv entries n" and "token_laws T valid" and "iv ix" and "entries ix = []"
    and "build_pool I ix dh bs n = Some (Inr p)" and "kv_reachable I T salt (fst p) (world_of p) w" and "legal_call T c w"
  shows "\<exists>w'. exec_call I T salt (fst p) c w = Some w' \<and> cache_ok iv entries n T valid (fst p) w'"
  by (rule block_index.call_ok [OF assms(1,2) kv_ok [OF assms(1-6)] assms(7)])

lemma blocks_balance:
  assumes "block_index I iv entries n" and ok: "cache_ok iv entries n T valid pool w"
  shows "set (blocks_in_use w) \<subseteq> {..<n} \<and> available_len I (kw_store w) + card (set (blocks_in_use w)) = n"
proof -
  note h = cache_okD(1) [OF ok]
  let ?A = "{b. slot_at (kw_store w) b = Some Reset \<or> (\<exists>k. slot_at (kw_store w) b = Some (Inactive k))}"
  have n: "length (bs_slots (kw_store w)) = n"
    by (rule store_okD(1) [OF held_okD(1) [OF h]])
  have u: "set (blocks_in_use w) = {..<n} - ?A" "?A \<subseteq> {..<n}"
    using in_use_iff [OF h] by (auto simp: slot_at_def n split: if_splits)
  have "card (set (blocks_in_use w)) = n - card ?A"
    unfolding u(1) using card_Diff_subset [OF finite_subset [OF u(2)] u(2)] by simp
  moreover have "card ?A \<le> n"
    using card_mono [OF _ u(2)] by simp
  ultimately show ?thesis
    using available_count [OF assms(1) h] u(1) by auto
qed

text \<open>
  C16: no block is leaked and none is lost. Every block of the pool is either available (free or
  inactive) or in use by somebody: private to one request or one load reservation, or registered
  and referenced by a request, a probe, a pin or the padding reference, directly or through a
  duplicate that keeps it.
\<close>

theorem kv_blocks_not_leaked:
  assumes "block_index I iv entries n" and "token_laws T valid" and "iv ix" and "entries ix = []"
    and "build_pool I ix dh bs n = Some (Inr p)" and "kv_reachable I T salt (fst p) (world_of p) w"
  shows "set (blocks_in_use w) \<subseteq> {..<n} \<and> available_len I (kw_store w) + card (set (blocks_in_use w)) = n"
  by (rule blocks_balance [OF assms(1) kv_ok [OF assms]])

lemma private_mutable:
  assumes "held_ok iv entries cap (kw_guards (kw_requests w) w) R (kw_store w)"
  shows "b \<in> set (private_blocks w) \<longleftrightarrow> slot_at (kw_store w) b = Some Mutable"
  using slots_okD(5) [OF store_okD(6) [OF held_okD(1) [OF assms]], of b] by (auto simp: guards_private)

lemma referenced_not_private:
  assumes h: "held_ok iv entries cap (kw_guards (kw_requests w) w) R (kw_store w)" and "a \<in># R"
    and "arc_id (kw_store w) a = Some (b, k)"
  shows "b \<notin> set (private_blocks w)" and "slot_at (kw_store w) b = Some (Primary k a) \<or> slot_at (kw_store w) b = Some (Duplicate k a)"
proof -
  obtain i where "bs_arcs (kw_store w) a = Some i" "arc_id (kw_store w) a = Some (in_block i, in_hash i)"
      "slot_at (kw_store w) (in_block i) = Some (if in_primary i then Primary (in_hash i) a else Duplicate (in_hash i) a)"
    by (rule held_slot [OF h assms(2)])
  thus r: "slot_at (kw_store w) b = Some (Primary k a) \<or> slot_at (kw_store w) b = Some (Duplicate k a)"
    using assms(3) by auto
  thus "b \<notin> set (private_blocks w)"
    using private_mutable [OF h] by auto
qed

lemma assigned_hashes:
  assumes "local_ok T valid s st" and "k < length (sq_assigned (rs_assignments (sc_inner s)))"
    and "sq_assigned (rs_assignments (sc_inner s)) ! k = (b, a)"
  shows "arc_id st a = Some (b, all_sequence_hashes T (rs_sequence (sc_inner s)) ! k)"
    and "k < length (all_sequence_hashes T (rs_sequence (sc_inner s)))"
proof -
  obtain as us where s: "rs_assignments (sc_inner s) = shape as [] us"
      "map (arc_id st \<circ> snd) as = map Some (zip (map fst as) (all_sequence_hashes T (rs_sequence (sc_inner s))))"
    using assms(1) by (auto simp: local_ok_def)
  show l: "k < length (all_sequence_hashes T (rs_sequence (sc_inner s)))"
    using map_eq_imp_length_eq [OF s(2)] assms(2) s(1) by simp
  have "map (arc_id st \<circ> snd) as ! k = map Some (zip (map fst as) (all_sequence_hashes T (rs_sequence (sc_inner s)))) ! k"
    by (simp only: s(2))
  thus "arc_id st a = Some (b, all_sequence_hashes T (rs_sequence (sc_inner s)) ! k)"
    using l assms(2,3) s(1) by simp
qed


section \<open>What a forward pass sees\<close>

text \<open>How many tokens the scheduled step will write; nothing is scheduled in the idle state.\<close>

fun scheduled_tokens :: "sequence_state \<Rightarrow> usize" where
  "scheduled_tokens Idle = 0"
| "scheduled_tokens (PrefillScheduled n m) = n"
| "scheduled_tokens (DecodeScheduled m) = 1"
| "scheduled_tokens (SpeculativeScheduled n m) = n"

lemma scheduled_room:
  assumes "positions_ok T valid s" and "0 < scheduled_tokens (sc_state s)"
  shows "sc_kv_position s + scheduled_tokens (sc_state s) \<le> held_blocks s * sc_block_size T s"
  using assms by (cases "sc_state s") (auto simp: positions_ok_def Let_def)

lemma own_ids:
  assumes "sequence_ok iv entries cap T valid gs R s st"
  shows "distinct (all_block_ids (rs_assignments (sc_inner s)))" and "length (all_block_ids (rs_assignments (sc_inner s))) = held_blocks s"
    and "b \<in> set (all_block_ids (rs_assignments (sc_inner s))) \<Longrightarrow> b < cap"
proof -
  obtain as us where s: "rs_assignments (sc_inner s) = shape as [] us"
      "owns iv entries cap gs R (all_sequence_hashes T (rs_sequence (sc_inner s))) as [] us st"
    using assms by (auto simp: sequence_ok_def)
  note h = ownsD(1) [OF s(2)]
  note D = store_okD [OF held_okD(1) [OF h]]
  show "distinct (all_block_ids (rs_assignments (sc_inner s)))"
    using owns_distinct [OF s(2)] s(1) by (simp add: all_block_ids_shape)
  show "length (all_block_ids (rs_assignments (sc_inner s))) = held_blocks s"
    by (simp add: s(1) all_block_ids_shape sc_defs)
  assume "b \<in> set (all_block_ids (rs_assignments (sc_inner s)))"
  then consider a where "(b, a) \<in> set as" | "b \<in> set us"
    by (auto simp: s(1) all_block_ids_shape)
  hence "slot_at st b \<noteq> None"
  proof cases
    case 1
    have m: "a \<in># mset (map snd as) + R" using 1 by force
    obtain i where "bs_arcs st a = Some i" "arc_id st a = Some (in_block i, in_hash i)"
      "slot_at st (in_block i) = Some (if in_primary i then Primary (in_hash i) a else Duplicate (in_hash i) a)"
      by (rule held_slot [OF h m])
    thus ?thesis using owns_assigned [OF s(2) 1] by auto
  next
    case 2
    thus ?thesis using slots_okD(5) [OF D(6), of b] by auto
  qed
  thus "b < cap"
    using D(1) by (auto dest: slot_at_less)
qed

lemma page_id: "b < 2 ^ 31 \<Longrightarrow> sint (of_nat b :: i32) = int b"
  by transfer (simp add: signed_take_bit_int_eq_self)

lemma page_ids_distinct:
  assumes "distinct ids" and "\<And>b. b \<in> set ids \<Longrightarrow> b < 2 ^ 31"
  shows "distinct (map (of_nat :: nat \<Rightarrow> i32) ids)"
proof -
  have "inj_on (of_nat :: nat \<Rightarrow> i32) (set ids)"
    by (rule inj_onI) (metis assms(2) of_nat_eq_iff page_id)
  thus ?thesis using assms(1) by (simp add: distinct_map)
qed

lemma last_page_split:
  assumes "0 < b" and "0 < (m :: nat)"
  shows "(div_ceil m b - 1) * b + (if m mod b = 0 then b else m mod b) = m"
proof -
  have "m = m div b * b + m mod b" by simp
  moreover have "m mod b = 0 \<Longrightarrow> 0 < m div b" using assms by (metis add.right_neutral calculation gr0I mult_0)
  ultimately show ?thesis
    by (cases "m div b") (auto simp: div_ceil_def)
qed

text \<open>
  C18: the view of a scheduled step is exact. The page indices of a step are those of the pages its
  tokens reach, no more and no fewer, pairwise distinct, so the check in the view's constructor
  passes; all pages but the last are full and the last holds \<open>last_page_len\<close> tokens.
\<close>

theorem scheduled_view_exact:
  assumes "block_index I iv entries n" and "token_laws T valid" and "iv ix" and "entries ix = []"
    and "build_pool I ix dh bs n = Some (Inr p)" and "kv_reachable I T salt (fst p) (world_of p) w"
    and "r \<in> set (kw_requests w)" and "scheduled_tokens (sc_state (rk_seq r)) = m" and "0 < m" and "n \<le> 2 ^ 31"
  shows "\<exists>v. step_view T m r = Some v \<and> kvw_seq_len v = sc_kv_position (rk_seq r) + m \<and>
    distinct (kvw_page_indices v) \<and> (\<forall>i \<in> set (kvw_page_indices v). 0 \<le> sint i \<and> sint i < int n) \<and>
    (length (kvw_page_indices v) - 1) * kvw_page_size v + view_last_page_len v = kvw_seq_len v"
proof -
  note ok = kv_ok [OF assms(1-6)]
  let ?s = "rk_seq r" let ?bs = "sc_block_size T ?s" let ?ids = "all_block_ids (request_blocks r)" let ?len = "sc_kv_position ?s + m"
  obtain k where k: "k < length (kw_requests w)" "r = kw_requests w ! k"
    using assms(7) by (auto simp: in_set_conv_nth)
  note S = focus_request [OF ok k(1), folded k(2)]
  note I = own_ids [OF S]
  have P: "positions_ok T valid ?s" and bs: "0 < ?bs"
    using S token_lawsD(4) [OF assms(2)] by (auto simp: sequence_ok_def positions_ok_def Let_def sc_block_size_def)
  have "?len \<le> length ?ids * ?bs"
    using scheduled_room [OF P] assms(8,9) I(2) by simp
  hence c: "div_ceil ?len ?bs \<le> length ?ids"
    using div_ceil_le_iff [OF bs] by simp
  let ?v = "\<lparr>kvw_page_indices = map of_nat (take (div_ceil ?len ?bs) ?ids), kvw_seq_len = ?len, kvw_page_size = ?bs\<rparr>"
  have v: "step_view T m r = Some ?v"
    using c assms(9) by (simp add: step_view_def step_page_indices_def page_indices_def new_kv_view_def take_map)
  have small: "b < n" "b < 2 ^ 31" if "b \<in> set (take (div_ceil ?len ?bs) ?ids)" for b
    using I(3) [OF in_set_takeD [OF that]] assms(10) by auto
  have "distinct (kvw_page_indices ?v)"
    using page_ids_distinct [OF distinct_take [OF I(1)] small(2)] by simp
  moreover have "\<forall>i \<in> set (kvw_page_indices ?v). 0 \<le> sint i \<and> sint i < int n"
    using small page_id by auto
  moreover have "(length (kvw_page_indices ?v) - 1) * kvw_page_size ?v + view_last_page_len ?v = kvw_seq_len ?v"
    using last_page_split [OF bs, of ?len] assms(9) c by (simp add: view_last_page_len_def Let_def min_absorb2 split: if_splits)
  ultimately show ?thesis
    using v by auto
qed

end
