(* ===== verification/Kv_Schedule.thy ===== *)
theory Kv_Schedule
  imports Kv_Properties
begin

text \<open>
  Scheduling against the pool: when a step is granted, what a refusal and a revert leave behind,
  and that an unfinished request can always go on.
\<close>

section \<open>The balance of the pool\<close>

text \<open>Between calls the registered slots and the live arcs correspond one to one.\<close>

lemma arcs_registered:
  assumes h: "held_ok iv entries cap gs R st"
  shows "card {b. \<exists>k a. slot_at st b = Some (Primary k a) \<or> slot_at st b = Some (Duplicate k a)} = card (dom (bs_arcs st))"
proof -
  note A = store_okD(8) [OF held_okD(1) [OF h]]
  let ?f = "\<lambda>a. in_block (the (bs_arcs st a))"
  have slot: "slot_at st (in_block i) = Some (if in_primary i then Primary (in_hash i) a else Duplicate (in_hash i) a)"
    if "bs_arcs st a = Some i" for a i
    using arcs_okD(5,6) [OF A that] refs_okD(2) [OF held_okD(2) [OF h] that] by auto
  have "inj_on ?f (dom (bs_arcs st))"
  proof (rule inj_onI)
    fix x y assume xy: "x \<in> dom (bs_arcs st)" "y \<in> dom (bs_arcs st)" "?f x = ?f y"
    obtain i j where "bs_arcs st x = Some i" "bs_arcs st y = Some j" using xy by blast
    thus "x = y" using slot [of x i] slot [of y j] xy(3) by (simp split: if_splits)
  qed
  moreover have "?f ` dom (bs_arcs st) = {b. \<exists>k a. slot_at st b = Some (Primary k a) \<or> slot_at st b = Some (Duplicate k a)}"
  proof (intro set_eqI iffI)
    fix b assume "b \<in> ?f ` dom (bs_arcs st)"
    then obtain a i where "bs_arcs st a = Some i" "b = in_block i" by auto
    thus "b \<in> {b. \<exists>k a. slot_at st b = Some (Primary k a) \<or> slot_at st b = Some (Duplicate k a)}"
      using slot [of a i] by auto
  next
    fix b assume "b \<in> {b. \<exists>k a. slot_at st b = Some (Primary k a) \<or> slot_at st b = Some (Duplicate k a)}"
    then obtain a i where "bs_arcs st a = Some i" "b = in_block i"
      using arcs_okD(2,3) [OF A, of b] by blast
    thus "b \<in> ?f ` dom (bs_arcs st)" by (intro image_eqI [of _ _ a]) auto
  qed
  ultimately show ?thesis
    using card_image [of ?f "dom (bs_arcs st)"] by simp
qed

lemma guards_open:
  assumes h: "held_ok iv entries cap gs R st"
  shows "card {b. slot_at st b = Some Mutable \<or> (\<exists>k. slot_at st b = Some (Staged k))} = length gs"
proof -
  note D = store_okD [OF held_okD(1) [OF h]]
  note S = slots_okD(5,6) [OF D(6)]
  have "inj_on guard_block (set gs)"
    using S by (auto simp: inj_on_def guard_block_def split: guard.splits)
  moreover have "guard_block ` set gs = {b. slot_at st b = Some Mutable \<or> (\<exists>k. slot_at st b = Some (Staged k))}"
  proof (intro set_eqI iffI)
    fix b assume "b \<in> guard_block ` set gs"
    then obtain g where g: "g \<in> set gs" "b = guard_block g" by blast
    show "b \<in> {b. slot_at st b = Some Mutable \<or> (\<exists>k. slot_at st b = Some (Staged k))}"
      using S g by (cases g) (auto simp: guard_block_def)
  next
    fix b assume "b \<in> {b. slot_at st b = Some Mutable \<or> (\<exists>k. slot_at st b = Some (Staged k))}"
    then consider "GMutable b \<in> set gs" | k where "GComplete b k \<in> set gs"
      using S by blast
    thus "b \<in> guard_block ` set gs"
      by cases (rule image_eqI, (auto simp: guard_block_def)[2])+
  qed
  ultimately have "card {b. slot_at st b = Some Mutable \<or> (\<exists>k. slot_at st b = Some (Staged k))} = card (set gs)"
    using card_image [of guard_block "set gs"] by simp
  thus ?thesis using D(4) by (simp add: distinct_card)
qed

lemma card_three:
  assumes u: "A \<union> G \<union> R = {..<n :: nat}" and d: "A \<inter> G = {}" "(A \<union> G) \<inter> R = {}"
  shows "card A + card G + card R = n"
proof -
  have f: "finite A" "finite G" "finite R"
    using u by (metis finite_Un finite_lessThan)+
  thus ?thesis
    using card_Un_disjoint [OF f(1,2) d(1)] card_Un_disjoint [OF finite_UnI [OF f(1,2)] f(3) d(2)] u by simp
qed

lemma available_balance:
  assumes B: "block_index I iv entries cap" and h: "held_ok iv entries cap gs R st"
  shows "available_len I st + length gs + card (dom (bs_arcs st)) = cap"
proof -
  let ?A = "{b. slot_at st b = Some Reset \<or> (\<exists>k. slot_at st b = Some (Inactive k))}"
  let ?G = "{b. slot_at st b = Some Mutable \<or> (\<exists>k. slot_at st b = Some (Staged k))}"
  let ?R = "{b. \<exists>k a. slot_at st b = Some (Primary k a) \<or> slot_at st b = Some (Duplicate k a)}"
  have n: "length (bs_slots st) = cap"
    by (rule store_okD(1) [OF held_okD(1) [OF h]])
  have s: "slot_at st b \<noteq> None \<longleftrightarrow> b < cap" for b
    by (auto simp: slot_at_def n)
  have u: "?A \<union> ?G \<union> ?R = {..<cap}"
  proof (intro set_eqI iffI)
    fix b assume "b \<in> {..<cap}"
    then obtain x where "slot_at st b = Some x" using s [of b] by auto
    thus "b \<in> ?A \<union> ?G \<union> ?R" by (cases x) auto
  next
    fix b assume "b \<in> ?A \<union> ?G \<union> ?R"
    hence "slot_at st b \<noteq> None" by auto
    thus "b \<in> {..<cap}" using s [of b] by simp
  qed
  have "?A \<inter> ?G = {}" "(?A \<union> ?G) \<inter> ?R = {}"
    by auto
  from card_three [OF u this] show ?thesis
    using available_count [OF B h] guards_open [OF h] arcs_registered [OF h] by simp
qed

section \<open>When a step is granted\<close>

text \<open>The preconditions of the schedules, and how many blocks the sequence is short of.\<close>

definition decodable :: "'q token_sequence \<Rightarrow> 'q schedulable \<Rightarrow> bool" where
  "decodable T s \<longleftrightarrow> sc_state s = Idle \<and> rs_num_input_tokens (sc_inner s) \<le> sc_prefill_position s \<and>
     rs_generated_tokens (sc_inner s) < rs_max_output_tokens (sc_inner s) \<and> sc_total_tokens T s = sc_kv_position s + 1"

fun grantable :: "'q token_sequence \<Rightarrow> kv_op \<Rightarrow> 'q schedulable \<Rightarrow> bool" where
  "grantable T (SchedulePrefill n) s \<longleftrightarrow> sc_state s = Idle \<and> sc_prefill_position s < rs_num_input_tokens (sc_inner s) \<and>
     sc_prefill_position s + n \<le> rs_num_input_tokens (sc_inner s)"
| "grantable T ScheduleDecode s \<longleftrightarrow> decodable T s"
| "grantable T (ScheduleSpeculative n) s \<longleftrightarrow> decodable T s"
| "grantable T _ s \<longleftrightarrow> False"

fun missing_blocks :: "'q token_sequence \<Rightarrow> kv_op \<Rightarrow> 'q schedulable \<Rightarrow> nat" where
  "missing_blocks T (SchedulePrefill n) s = div_ceil (sc_prefill_position s + n) (sc_block_size T s) - held_blocks s"
| "missing_blocks T ScheduleDecode s = (sc_total_tokens T s div sc_block_size T s + 1) - held_blocks s"
| "missing_blocks T (ScheduleSpeculative n) s =
     div_ceil (sc_total_tokens T s + min n (rs_max_output_tokens (sc_inner s) - rs_generated_tokens (sc_inner s))) (sc_block_size T s) - held_blocks s"
| "missing_blocks T _ s = 0"

fun is_schedule :: "kv_op \<Rightarrow> bool" where
  "is_schedule (SchedulePrefill n) \<longleftrightarrow> True"
| "is_schedule ScheduleDecode \<longleftrightarrow> True"
| "is_schedule (ScheduleSpeculative n) \<longleftrightarrow> True"
| "is_schedule _ \<longleftrightarrow> False"

fun to_revert :: "sequence_state \<Rightarrow> usize option" where
  "to_revert Idle = None"
| "to_revert (PrefillScheduled n m) = Some m"
| "to_revert (DecodeScheduled m) = Some m"
| "to_revert (SpeculativeScheduled n m) = Some m"

lemma decode_grantable: "decode_guards T s = None \<longleftrightarrow> decodable T s"
  unfolding decode_guards_None by (auto simp: is_prefill_complete_def decodable_def)

context block_index
begin

lemma run_schedule:
  assumes T: "token_laws T valid" and ok: "sequence_ok iv entries cap T valid gs R (rk_seq r) st" and op: "is_schedule op"
  shows "if grantable T op (rk_seq r)
    then \<exists>state ev. run_kv_op I T op r st = on_seq (answered (reserve I (missing_blocks T op (rk_seq r)) state ev (rk_seq r) st)) r \<and>
      to_revert state = Some (missing_blocks T op (rk_seq r))
    else run_kv_op I T op r st = Some (False, r, st)"
proof -
  let ?s = "rk_seq r"
  note P = ok [unfolded sequence_ok_def positions_ok_def Let_def]
  obtain as us where s: "rs_assignments (sc_inner ?s) = shape as [] us"
      "own gs R (all_sequence_hashes T (rs_sequence (sc_inner ?s))) as [] us st"
    using ok by (auto simp: sequence_ok_def)
  have len: "length (tk_blocks T (rs_sequence (sc_inner ?s))) = sc_total_tokens T ?s div sc_block_size T ?s"
    using P token_lawsD(5) [OF T] by (simp add: sc_block_size_def sc_total_tokens_def)
  have "length as \<le> sc_total_tokens T ?s div sc_block_size T ?s"
    using owns_length [OF s(2)] len by (simp add: all_sequence_hashes_def)
  hence d: "saturating_sub (saturating_sub (length (tk_blocks T (rs_sequence (sc_inner ?s))))
      (assigned_blocks (sc_inner ?s) + staged_blocks (sc_inner ?s)) + 1) (unassigned_blocks (sc_inner ?s)) = missing_blocks T ScheduleDecode ?s"
    using s(1) by (simp add: len sc_defs)
  show ?thesis
  proof (cases op)
    case (SchedulePrefill n)
    thus ?thesis
      by (auto simp: run_kv_op_def seq_schedule_prefill_def require_idle_def is_prefill_complete_def Let_def saturating_sub_def on_seq_def answered_def)
  next
    case ScheduleDecode
    let ?m = "missing_blocks T ScheduleDecode ?s"
    have "decode_guards T ?s = None \<Longrightarrow> run_kv_op I T ScheduleDecode r st =
        on_seq (answered (reserve I ?m (DecodeScheduled ?m) (EvDecodeScheduled ?m) ?s st)) r"
      by (simp only: run_kv_op_def kv_op.case seq_schedule_decode_def option.case Let_def d)
    moreover have "decode_guards T ?s \<noteq> None \<Longrightarrow> run_kv_op I T ScheduleDecode r st = Some (False, r, st)"
      by (auto simp: run_kv_op_def seq_schedule_decode_def on_seq_def answered_def)
    ultimately show ?thesis
      using ScheduleDecode decode_grantable [of T ?s] by (auto simp del: missing_blocks.simps(2) intro!: exI [of _ "DecodeScheduled ?m"])
  next
    case (ScheduleSpeculative n)
    thus ?thesis
      using decode_grantable [of T ?s]
      by (cases "decode_guards T ?s") (auto simp: run_kv_op_def seq_schedule_speculative_def Let_def rs_remaining_tokens_def saturating_sub_def
          on_seq_def answered_def)
  qed (use op in simp_all)
qed

lemma schedule_granted:
  assumes T: "token_laws T valid" and ok: "sequence_ok iv entries cap T valid gs R (rk_seq r) st" and op: "is_schedule op"
  defines "m \<equiv> missing_blocks T op (rk_seq r)"
  obtains (granted) as us ids state ev st' where "grantable T op (rk_seq r)" and "m \<le> available_len I st"
      and "rs_assignments (sc_inner (rk_seq r)) = shape as [] us" and "length ids = m" and "to_revert state = Some m"
      and "run_kv_op I T op r st = Some (True, r\<lparr>rk_seq := on_event ev ((rk_seq r)\<lparr>sc_inner := (sc_inner (rk_seq r))\<lparr>rs_assignments :=
        shape as [] (us @ ids)\<rparr>, sc_state := state\<rparr>)\<rparr>, st')"
      and "own gs R (all_sequence_hashes T (rs_sequence (sc_inner (rk_seq r)))) as [] (us @ ids) st'" and "unmoved st st'"
      and "own gs R (all_sequence_hashes T (rs_sequence (sc_inner (rk_seq r)))) as [] us st"
  | (refused) "\<not> (grantable T op (rk_seq r) \<and> m \<le> available_len I st)" and "run_kv_op I T op r st = Some (False, r, st)"
proof (cases "grantable T op (rk_seq r)")
  case False
  thus thesis
    using refused run_schedule [OF T ok op] by simp
next
  case True
  let ?s = "rk_seq r"
  obtain state ev where e: "run_kv_op I T op r st = on_seq (answered (reserve I m state ev ?s st)) r" "to_revert state = Some m"
    using run_schedule [OF T ok op] True by (auto simp: m_def)
  obtain as us where s: "rs_assignments (sc_inner ?s) = shape as [] us"
      "own gs R (all_sequence_hashes T (rs_sequence (sc_inner ?s))) as [] us st"
    using ok by (auto simp: sequence_ok_def)
  from reserve_own [OF s, of m state ev] show thesis
  proof (elim disjE exE conjE)
    fix ids st'
    assume a: "length ids = m" "reserve I m state ev ?s st = Some (Inr (), on_event ev (?s\<lparr>sc_inner := (sc_inner ?s)\<lparr>rs_assignments :=
        shape as [] (us @ ids)\<rparr>, sc_state := state\<rparr>), st')"
      "own gs R (all_sequence_hashes T (rs_sequence (sc_inner ?s))) as [] (us @ ids) st'" "unmoved st st'" "m \<le> available_len I st"
    show thesis
      by (rule granted [OF True a(5) s(1) a(1) e(2) _ a(3,4) s(2)]) (simp add: e(1) a(2) on_seq_def answered_def)
  next
    assume "reserve I m state ev ?s st = Some (Inl (AllocationFailed m), ?s, st)" "available_len I st < m"
    thus thesis
      by (intro refused) (simp_all add: e(1) on_seq_def answered_def)
  qed
qed

end

section \<open>Grants, refusals and reverts\<close>

lemma request_ok:
  assumes "cache_ok iv entries n T valid pool w" and "r \<in> set (kw_requests w)"
  obtains gs R where "sequence_ok iv entries n T valid gs R (rk_seq r) (kw_store w)"
  using focus_request [OF assms(1)] assms(2) by (metis in_set_conv_nth)

text \<open>
  C19: scheduling is all or nothing. A schedule call on a request of the cache is granted exactly
  when its preconditions hold and the blocks the sequence is short of are available; a granted one
  reserves exactly those, and a refused one changes neither the request nor the pool.
\<close>

theorem schedule_all_or_nothing:
  assumes "block_index I iv entries n" and "token_laws T valid" and "iv ix" and "entries ix = []"
    and "build_pool I ix dh bs n = Some (Inr p)" and "kv_reachable I T salt (fst p) (world_of p) w"
    and "r \<in> set (kw_requests w)" and "is_schedule op"
  shows "\<exists>granted r' st'. run_kv_op I T op r (kw_store w) = Some (granted, r', st') \<and>
    (granted \<longleftrightarrow> grantable T op (rk_seq r) \<and> missing_blocks T op (rk_seq r) \<le> available_len I (kw_store w)) \<and>
    (if granted then resident_blocks r' = resident_blocks r + missing_blocks T op (rk_seq r) \<and>
        available_len I st' + missing_blocks T op (rk_seq r) = available_len I (kw_store w)
     else r' = r \<and> st' = kw_store w)"
proof -
  obtain gs R where ok: "sequence_ok iv entries n T valid gs R (rk_seq r) (kw_store w)"
    by (rule request_ok [OF kv_ok [OF assms(1-6)] assms(7)])
  show ?thesis
  proof (rule block_index.schedule_granted [OF assms(1,2) ok assms(8)])
    fix as us ids state ev st'
    assume g: "grantable T op (rk_seq r)" "missing_blocks T op (rk_seq r) \<le> available_len I (kw_store w)"
      "rs_assignments (sc_inner (rk_seq r)) = shape as [] us" "length ids = missing_blocks T op (rk_seq r)"
      "run_kv_op I T op r (kw_store w) = Some (True, r\<lparr>rk_seq := on_event ev ((rk_seq r)\<lparr>sc_inner := (sc_inner (rk_seq r))\<lparr>rs_assignments :=
        shape as [] (us @ ids)\<rparr>, sc_state := state\<rparr>)\<rparr>, st')"
      and o: "owns iv entries n gs R (all_sequence_hashes T (rs_sequence (sc_inner (rk_seq r)))) as [] (us @ ids) st'"
        "unmoved (kw_store w) st'" "owns iv entries n gs R (all_sequence_hashes T (rs_sequence (sc_inner (rk_seq r)))) as [] us (kw_store w)"
    have "available_len I st' + length ids = available_len I (kw_store w)"
      using available_balance [OF assms(1) ownsD(1) [OF o(1)]] available_balance [OF assms(1) ownsD(1) [OF o(3)]] o(2)
      by (simp add: unmoved_def)
    thus ?thesis
      using g by (auto simp: resident_blocks_def sc_defs)
  next
    assume "\<not> (grantable T op (rk_seq r) \<and> missing_blocks T op (rk_seq r) \<le> available_len I (kw_store w))"
      "run_kv_op I T op r (kw_store w) = Some (False, r, kw_store w)"
    thus ?thesis by auto
  qed
qed

text \<open>
  C20: a schedule can be taken back. Reverting a granted schedule that was not applied gives the
  sequence back as it was before, blocks, tokens and positions alike, and the pool has as many
  blocks available as before.
\<close>

theorem schedule_then_revert:
  assumes "block_index I iv entries n" and "token_laws T valid" and "iv ix" and "entries ix = []"
    and "build_pool I ix dh bs n = Some (Inr p)" and "kv_reachable I T salt (fst p) (world_of p) w"
    and "r \<in> set (kw_requests w)" and "is_schedule op" and "run_kv_op I T op r (kw_store w) = Some (True, r1, st1)"
  shows "\<exists>r2 st2. run_kv_op I T RevertSchedule r1 st1 = Some (True, r2, st2) \<and>
    r2\<lparr>rk_seq := (rk_seq r2)\<lparr>sc_events := sc_events (rk_seq r)\<rparr>\<rparr> = r \<and> available_len I st2 = available_len I (kw_store w)"
proof -
  obtain gs R where ok: "sequence_ok iv entries n T valid gs R (rk_seq r) (kw_store w)"
    by (rule request_ok [OF kv_ok [OF assms(1-6)] assms(7)])
  show ?thesis
  proof (rule block_index.schedule_granted [OF assms(1,2) ok assms(8)])
    fix as us ids state ev st'
    let ?s = "rk_seq r" let ?hs = "all_sequence_hashes T (rs_sequence (sc_inner (rk_seq r)))"
    let ?s1 = "on_event ev (?s\<lparr>sc_inner := (sc_inner ?s)\<lparr>rs_assignments := shape as [] (us @ ids)\<rparr>, sc_state := state\<rparr>)"
    assume g: "grantable T op ?s" "rs_assignments (sc_inner ?s) = shape as [] us" "length ids = missing_blocks T op ?s"
        "to_revert state = Some (missing_blocks T op ?s)" "run_kv_op I T op r (kw_store w) = Some (True, r\<lparr>rk_seq := ?s1\<rparr>, st')"
      and o: "owns iv entries n gs R ?hs as [] (us @ ids) st'" "unmoved (kw_store w) st'" "owns iv entries n gs R ?hs as [] us (kw_store w)"
    have r1: "r1 = r\<lparr>rk_seq := ?s1\<rparr>" "st1 = st'" using g(5) assms(9) by simp_all
    obtain st2 where st2: "sc_pop_unassigned (length ids) ?s1 st' = Some (min (length ids) (length (us @ ids)),
          ?s1\<lparr>sc_inner := (sc_inner ?s1)\<lparr>rs_assignments := shape as [] us\<rparr>\<rparr>, st2)"
        "owns iv entries n gs R ?hs as [] us st2" "unmoved st' st2"
      using block_index.sc_pop_own [OF assms(1) _ o(1), of ?s1 "length ids"] by auto
    have "seq_revert_schedule ?s1 st' = Some (Inr (), on_event (EvScheduleReverted (length ids))
        (?s1\<lparr>sc_inner := (sc_inner ?s1)\<lparr>rs_assignments := shape as [] us\<rparr>, sc_state := Idle\<rparr>), st2)"
      using g(3,4) st2(1) by (cases state) (simp_all add: seq_revert_schedule_def)
    moreover have "sc_state ?s = Idle"
      using g(1) by (cases op) (simp_all add: decodable_def)
    moreover have "available_len I st2 = available_len I (kw_store w)"
      using available_balance [OF assms(1) ownsD(1) [OF st2(2)]] available_balance [OF assms(1) ownsD(1) [OF o(3)]] o(2) st2(3)
      by (simp add: unmoved_def)
    ultimately show ?thesis
      using g(2) by (simp add: run_kv_op_def r1 on_seq_def answered_def on_event_def)
  qed (use assms(9) in simp)
qed

end
