(* ===== verification/Kv_Progress.thy ===== *)
theory Kv_Progress
  imports Kv_Schedule
begin

text \<open>
  The tokens of a request over its life: what every call does to the counters, and that a request
  that is not finished can always go on.
\<close>

section \<open>Counters\<close>

text \<open>What the blocks do not determine.\<close>

definition core :: "'q request_sequence \<Rightarrow> 'q \<times> usize \<times> usize \<times> usize" where
  "core r = (rs_sequence r, rs_generated_tokens r, rs_max_output_tokens r, rs_num_input_tokens r)"

lemma core_assignments [simp]:
  "core (r\<lparr>rs_assignments := q\<rparr>) = core r" "core (r\<lparr>rs_prefix_matched_blocks := k\<rparr>) = core r"
  by (simp_all add: core_def)

lemma core_eqD:
  assumes "core r' = core r"
  shows "rs_sequence r' = rs_sequence r" "rs_generated_tokens r' = rs_generated_tokens r"
    "rs_max_output_tokens r' = rs_max_output_tokens r" "rs_num_input_tokens r' = rs_num_input_tokens r"
  using assms by (simp_all add: core_def)

lemma core_pending: "complete_and_register_pending I policy T r st = Some (r', st') \<Longrightarrow> core r' = core r"
  by (auto simp: complete_and_register_pending_def stage_pending_def register_staged_def Let_def
      split: Option.bind_split_asm prod.split_asm if_split_asm sum.split_asm)

lemma core_allocate: "rs_allocate_blocks I n r st = Some (b, r', st') \<Longrightarrow> core r' = core r"
  by (auto simp: rs_allocate_blocks_def split: Option.bind_split_asm prod.split_asm if_split_asm option.split_asm sum.split_asm)

lemma core_match: "rs_match_and_add_prefix I T n r st = Some (x, r', st') \<Longrightarrow> core r' = core r"
  by (auto simp: rs_match_and_add_prefix_def add_matched_blocks_def Let_def
      split: Option.bind_split_asm if_split_asm option.split_asm sum.split_asm prod.split_asm)

text \<open>
  A request has its prompt and its generated tokens; nothing is generated before the prefill is
  complete, and afterwards exactly one token awaits its KV.
\<close>

definition served :: "'q token_sequence \<Rightarrow> 'q schedulable \<Rightarrow> bool" where
  "served T s \<longleftrightarrow> sc_total_tokens T s = rs_num_input_tokens (sc_inner s) + rs_generated_tokens (sc_inner s) \<and>
     (\<not> is_prefill_complete s \<longrightarrow> rs_generated_tokens (sc_inner s) = 0) \<and>
     (is_prefill_complete s \<and> 0 < rs_num_input_tokens (sc_inner s) \<and> 0 < rs_max_output_tokens (sc_inner s) \<longrightarrow>
        sc_total_tokens T s = sc_kv_position s + 1)"

lemma served_same:
  assumes "served T s" and "core (sc_inner s') = core (sc_inner s)"
    and "sc_prefill_position s' = sc_prefill_position s" and "sc_kv_position s' = sc_kv_position s"
  shows "served T s'"
  using assms(1,3,4) core_eqD [OF assms(2)] by (auto simp: served_def sc_total_tokens_def is_prefill_complete_def)

lemma served_reserve:
  assumes "served T s" and "reserve I n state ev s st = Some (x, s', st')"
  shows "served T s'"
  by (rule served_same [OF assms(1)])
    (use assms(2) in \<open>auto simp: reserve_def bind_eq_Some_conv Let_def split: if_splits dest: core_allocate\<close>)

lemma served_schedule:
  assumes "served T s"
  shows "seq_schedule_prefill I T n s st = Some (x, s', st') \<Longrightarrow> served T s'"
    and "seq_schedule_decode I T s st = Some (x, s', st') \<Longrightarrow> served T s'"
    and "seq_schedule_speculative I T n s st = Some (x, s', st') \<Longrightarrow> served T s'"
  using assms served_reserve [OF assms]
  by (auto simp: seq_schedule_prefill_def seq_schedule_decode_def seq_schedule_speculative_def Let_def split: option.splits if_splits)

lemma pop_fields: "sc_pop_unassigned n s st = Some (d, s', st') \<Longrightarrow> \<exists>q. s' = s\<lparr>sc_inner := (sc_inner s)\<lparr>rs_assignments := q\<rparr>\<rparr>"
  by (auto simp: sc_pop_unassigned_def bind_eq_Some_conv)

lemma excess_fields:
  "lifo_drop_excess_unassigned T s st = Some (d, s', st') \<Longrightarrow> \<exists>q. s' = s\<lparr>sc_inner := (sc_inner s)\<lparr>rs_assignments := q\<rparr>\<rparr>"
  unfolding lifo_drop_excess_unassigned_def Let_def by (rule pop_fields)

lemma served_revert: "served T s \<Longrightarrow> seq_revert_schedule s st = Some (x, s', st') \<Longrightarrow> served T s'"
  by (auto simp: seq_revert_schedule_def bind_eq_Some_conv Let_def split: sequence_state.splits dest!: pop_fields elim!: served_same)

lemma served_release: "served T s \<Longrightarrow> seq_release I s st = Some (x, s', st') \<Longrightarrow> served T s'"
  by (auto simp: seq_release_def rs_release_def bind_eq_Some_conv split: option.splits elim!: served_same)

section \<open>Committed tokens\<close>

lemma served_apply_decode:
  assumes T: "token_laws T valid" and p: "positions_ok T valid s" and s: "served T s" "seq_apply_decode I policy T t s st = Some (x, s', st')"
  shows "served T s'"
proof (cases "\<exists>m. sc_state s = DecodeScheduled m")
  case True
  then obtain m where m: "sc_state s = DecodeScheduled m" by blast
  note P = p [unfolded positions_ok_def Let_def m, simplified]
  obtain q' where q': "rs_append_token T t (sc_inner s) =
      Some (if (tk_total_tokens T (rs_sequence (sc_inner s)) + 1) mod tk_block_size T (rs_sequence (sc_inner s)) = 0
            then Some (length (tk_blocks T (rs_sequence (sc_inner s)))) else None,
        (sc_inner s)\<lparr>rs_sequence := q', rs_generated_tokens := rs_generated_tokens (sc_inner s) + 1\<rparr>)"
      "tk_total_tokens T q' = sc_total_tokens T s + 1"
    by (rule append_token_eq [OF T, of "sc_inner s" t]) (use P in \<open>auto simp: sc_total_tokens_def\<close>)
  obtain r e st1 where r: "core r = core ((sc_inner s)\<lparr>rs_sequence := q', rs_generated_tokens := rs_generated_tokens (sc_inner s) + 1\<rparr>)"
      "s' = on_event e (s\<lparr>sc_inner := r, sc_kv_position := sc_kv_position s + 1, sc_state := Idle\<rparr>)"
    using s(2) q'(1) m by (auto simp: seq_apply_decode_def bind_eq_Some_conv dest!: core_pending)
  show ?thesis
    using s(1) P q'(2) core_eqD [OF r(1)] by (auto simp: r(2) served_def sc_total_tokens_def is_prefill_complete_def)
next
  case False
  hence "s' = s" using s(2) by (cases "sc_state s") (auto simp: seq_apply_decode_def)
  thus ?thesis using s(1) by simp
qed

lemma served_apply_speculative:
  assumes T: "token_laws T valid" and p: "positions_ok T valid s"
    and s: "served T s" "seq_apply_speculative I policy T ts s st = Some (x, s', st')"
  shows "served T s'"
proof (cases "\<exists>n m. sc_state s = SpeculativeScheduled n m \<and> length ts \<le> n")
  case True
  then obtain n m where m: "sc_state s = SpeculativeScheduled n m" "length ts \<le> n" by blast
  note P = p [unfolded positions_ok_def Let_def m, simplified]
  let ?r = "sc_inner s" let ?g = "rs_generated_tokens (sc_inner s) + length ts"
  obtain q' c where q': "append_accepted T ts False ?r = Some (c, ?r\<lparr>rs_sequence := q', rs_generated_tokens := ?g\<rparr>)"
      "tk_total_tokens T q' = sc_total_tokens T s + length ts"
    by (rule append_accepted_eq [OF T, of ?r ts False]) (use P m(2) in \<open>auto simp: sc_total_tokens_def\<close>)
  obtain r1 q e where r: "core r1 = core (?r\<lparr>rs_sequence := q', rs_generated_tokens := ?g\<rparr>)"
      "s' = on_event e (s\<lparr>sc_kv_position := sc_kv_position s + length ts, sc_inner := r1\<lparr>rs_assignments := q\<rparr>, sc_state := Idle\<rparr>)"
    using s(2) q'(1) m by (auto simp: seq_apply_speculative_def bind_eq_Some_conv dest!: core_pending excess_fields)
  show ?thesis
    using s(1) P q'(2) core_eqD [OF r(1)] by (auto simp: r(2) served_def sc_total_tokens_def is_prefill_complete_def)
next
  case False
  hence "s' = s" using s(2) by (cases "sc_state s") (auto simp: seq_apply_speculative_def)
  thus ?thesis using s(1) by simp
qed

lemma served_apply_prefill:
  assumes T: "token_laws T valid" and p: "positions_ok T valid s"
    and s: "served T s" "seq_apply_prefill I policy T tok s st = Some (x, s', st')"
    and room: "tok \<noteq> None \<Longrightarrow> rs_generated_tokens (sc_inner s) < rs_max_output_tokens (sc_inner s)"
  shows "served T s'"
proof (cases "s' = s")
  case False
  then obtain n m where m: "sc_state s = PrefillScheduled n m"
    using s(2) by (cases "sc_state s") (auto simp: seq_apply_prefill_def)
  note P = p [unfolded positions_ok_def Let_def m, simplified]
  let ?pos = "sc_prefill_position s + n" let ?in = "rs_num_input_tokens (sc_inner s)"
  have g: "tok \<noteq> None \<Longrightarrow> ?in \<le> ?pos" "?in \<le> ?pos \<Longrightarrow> tok = None \<Longrightarrow> rs_max_output_tokens (sc_inner s) = 0"
    using s(2) False m by (auto simp: seq_apply_prefill_def Let_def split: if_splits)
  obtain r st1 r1 e where r: "core r = core (sc_inner s)"
      "(case tok of None \<Rightarrow> Some r | Some t \<Rightarrow> map_option snd (rs_append_token T t r)) = Some r1"
      "s' = on_event e (s\<lparr>sc_inner := r1, sc_prefill_position := ?pos, sc_kv_position := ?pos, sc_state := Idle\<rparr>)"
    using s(2) False m by (auto simp: seq_apply_prefill_def Let_def bind_eq_Some_conv split: if_split_asm dest!: core_pending)
  note R = core_eqD [OF r(1)]
  obtain q' g' where q': "(case tok of None \<Rightarrow> Some r | Some t \<Rightarrow> map_option snd (rs_append_token T t r)) =
      Some (r\<lparr>rs_sequence := q', rs_generated_tokens := g'\<rparr>)"
      "tk_total_tokens T q' + rs_generated_tokens r = tk_total_tokens T (rs_sequence r) + g'"
      "g' = rs_generated_tokens r + (if tok = None then 0 else 1)"
    by (rule emit_token [OF T, of r tok]) (use P R room in \<open>cases tok; simp add: sc_total_tokens_def\<close>)+
  have "r1 = r\<lparr>rs_sequence := q', rs_generated_tokens := g'\<rparr>"
    using r(2) q'(1) by simp
  thus ?thesis
    using s(1) P q'(2,3) R g by (cases tok) (auto simp: r(3) served_def sc_total_tokens_def is_prefill_complete_def)
qed (use s(1) in simp)

lemma served_match:
  assumes s: "served T s" "seq_match_and_add_prefix I T s st = Some (x, s', st')" and "sc_prefill_position s = 0" and bs: "0 < sc_block_size T s"
    and n: "\<And>n r st1. rs_match_and_add_prefix I T (saturating_sub (rs_num_input_tokens (sc_inner s)) 1 div sc_block_size T s) (sc_inner s) st =
      Some (Inr n, r, st1) \<Longrightarrow> n \<le> saturating_sub (rs_num_input_tokens (sc_inner s)) 1 div sc_block_size T s"
  shows "served T s'"
proof (cases "s' = s")
  case False
  let ?k = "saturating_sub (rs_num_input_tokens (sc_inner s)) 1 div sc_block_size T s"
  obtain m r where r: "rs_match_and_add_prefix I T ?k (sc_inner s) st = Some (Inr m, r, st')"
      "s' = on_event (EvPrefixMatched m) (if 0 < m then s\<lparr>sc_inner := r, sc_prefill_position := m * sc_block_size T (s\<lparr>sc_inner := r\<rparr>),
        sc_kv_position := m * sc_block_size T (s\<lparr>sc_inner := r\<rparr>)\<rparr> else s\<lparr>sc_inner := r\<rparr>)"
    using s(2) False assms(3)
    by (auto simp: seq_match_and_add_prefix_def Let_def split: Option.bind_split_asm prod.split_asm option.split_asm sum.split_asm)
  note R = core_eqD [OF core_match [OF r(1)]]
  have "m * sc_block_size T s \<le> rs_num_input_tokens (sc_inner s) - 1"
    using n [OF r(1)] bs by (simp add: saturating_sub_def less_eq_div_iff_mult_less_eq)
  thus ?thesis
    using s(1) assms(3) R bs by (cases "rs_num_input_tokens (sc_inner s)")
      (auto simp: r(2) served_def sc_total_tokens_def is_prefill_complete_def sc_block_size_def)
qed (use s(1) in simp)

section \<open>Every call keeps the counters\<close>

lemma on_seq_answered: "on_seq (answered res) r = Some (b, r', st') \<Longrightarrow> \<exists>x. res = Some (x, rk_seq r', st')"
  by (auto simp: on_seq_def answered_def bind_eq_Some_conv)

lemma run_served:
  assumes T: "token_laws T valid" and p: "positions_ok T valid (rk_seq r)" and s: "served T (rk_seq r)"
    and run: "run_kv_op I T op r st = Some (b, r', st')"
    and legal: "case op of ApplyPrefill _ \<Rightarrow> 0 < rs_remaining_tokens (sc_inner (rk_seq r)) | _ \<Rightarrow> True"
  shows "served T (rk_seq r')"
proof (cases op)
  case (ApplyPrefill t)
  obtain x where "seq_apply_prefill I Allow T (Some t) (rk_seq r) st = Some (x, rk_seq r', st')"
    using on_seq_answered run unfolding run_kv_op_def ApplyPrefill kv_op.case by blast
  thus ?thesis
    by (rule served_apply_prefill [OF T p s]) (use legal ApplyPrefill in \<open>simp add: rs_remaining_tokens_def saturating_sub_def\<close>)
next
  case ApplyPrefillChunk
  obtain x where "seq_apply_prefill I Allow T None (rk_seq r) st = Some (x, rk_seq r', st')"
    using on_seq_answered run unfolding run_kv_op_def ApplyPrefillChunk kv_op.case by blast
  thus ?thesis
    by (rule served_apply_prefill [OF T p s]) simp
qed (use run in \<open>simp_all only: run_kv_op_def kv_op.case, auto dest!: on_seq_answered
    intro: served_schedule [OF s] served_revert [OF s] served_release [OF s] served_apply_decode [OF T p s] served_apply_speculative [OF T p s]\<close>)

definition all_served :: "'q token_sequence \<Rightarrow> ('q, 'i) kv_world \<Rightarrow> bool" where
  "all_served T w \<longleftrightarrow> (\<forall>r \<in> set (kw_requests w). served T (rk_seq r))"

lemma in_request_served:
  assumes "all_served T w" and "in_request k f w = Some w'"
    and "\<And>x r st. k < length (kw_requests w) \<Longrightarrow> f (kw_requests w ! k) (kw_store w) = Some (x, r, st) \<Longrightarrow> served T (rk_seq r)"
  shows "all_served T w'"
  using assms by (auto simp: in_request_def all_served_def bind_eq_Some_conv split: if_split_asm dest!: subsetD [OF set_update_subset_insert])

lemma without_served: "all_served T w \<Longrightarrow> all_served T (w\<lparr>kw_store := st, kw_requests := without_nth k (kw_requests w)\<rparr>)"
  using set_without_nth by (fastforce simp: all_served_def)

lemma call_served:
  assumes B: "block_index I iv entries n" and T: "token_laws T valid" and ok: "cache_ok iv entries n T valid pool w"
    and legal: "legal_call T c w" and all: "all_served T w" and e: "exec_call I T salt pool c w = Some w'"
  shows "all_served T w'"
proof (cases c)
  case (NewRequest prompt max_out cs lora)
  have "served T (rk_seq (new_request_with_cache_salt T salt pool prompt max_out cs lora))"
    using token_lawsD(2) [OF T cache_okD(4) [OF ok], of prompt "Some (salt cs lora)"] cache_okD(5) [OF ok]
    by (auto simp: served_def new_request_with_cache_salt_def new_schedulable_def new_request_sequence_def sc_defs)
  thus ?thesis
    using e all NewRequest by (auto simp: all_served_def)
next
  case (MatchPrefix k)
  have "in_request k (kv_match_and_add_prefix I T) w = Some w'"
    using e by (simp add: MatchPrefix)
  thus ?thesis
  proof (rule in_request_served [OF all])
    fix x r st
    assume k: "k < length (kw_requests w)" and f: "kv_match_and_add_prefix I T (kw_requests w ! k) (kw_store w) = Some (x, r, st)"
    let ?r = "kw_requests w ! k" let ?s = "rk_seq ?r"
    note S = focus_request [OF ok k]
    have fresh: "sq_is_empty (request_blocks ?r)" "sc_prefill_position ?s = 0" "tk_total_tokens T (rs_sequence (sc_inner ?s)) \<le> usize_max"
      using legal MatchPrefix by (simp_all add: sc_total_tokens_def)
    have P: "valid (rs_sequence (sc_inner ?s))" "0 < sc_block_size T ?s"
      using S token_lawsD(4) [OF T] by (auto simp: sequence_ok_def positions_ok_def Let_def sc_block_size_def)
    obtain y where y: "seq_match_and_add_prefix I T ?s (kw_store w) = Some (y, rk_seq r, st)"
      using f by (auto simp: kv_match_and_add_prefix_def split: Option.bind_split_asm prod.split_asm sum.split_asm)
    obtain gs R where o: "rs_assignments (sc_inner ?s) = shape [] [] []"
        "owns iv entries n gs R (all_sequence_hashes T (rs_sequence (sc_inner ?s))) [] [] [] (kw_store w)"
      using S fresh(1) by (auto simp: sequence_ok_def)
    have bound: "m \<le> j" if "rs_match_and_add_prefix I T j (sc_inner ?s) (kw_store w) = Some (Inr m, r1, st1)" for j m r1 st1
      using block_index.rs_match_own [OF B T P(1) fresh(3) o, of j] that by auto
    have "served T ?s" using all k by (simp add: all_served_def)
    thus "served T (rk_seq r)"
      by (rule served_match [OF _ y fresh(2) P(2) bound])
  qed
next
  case (RunOp k op)
  have "in_request k (run_kv_op I T op) w = Some w'"
    using e by (simp add: RunOp)
  thus ?thesis
  proof (rule in_request_served [OF all])
    fix x r st
    assume k: "k < length (kw_requests w)" and f: "run_kv_op I T op (kw_requests w ! k) (kw_store w) = Some (x, r, st)"
    have "positions_ok T valid (rk_seq (kw_requests w ! k))"
      using focus_request [OF ok k] by (simp add: sequence_ok_def)
    thus "served T (rk_seq r)"
      by (rule run_served [OF T _ _ f]) (use all k legal RunOp in \<open>simp_all add: all_served_def\<close>)
  qed
next
  case (TakeRegistered k)
  show ?thesis
    using e all unfolding TakeRegistered exec_call.simps
    by (elim in_request_served [OF all]) (auto simp: all_served_def take_newly_registered_blocks_def Let_def split: if_split_asm)
next
  case (MarkReset k)
  show ?thesis
    using e all unfolding MarkReset exec_call.simps
    by (elim in_request_served [OF all]) (auto simp: all_served_def bind_eq_Some_conv)
next
  case (DropRequest k)
  thus ?thesis
    using e without_served [OF all] by (auto simp: bind_eq_Some_conv split: if_split_asm)
qed (use e all in \<open>auto simp: all_served_def bind_eq_Some_conv split: if_split_asm\<close>)

lemma kv_served:
  assumes B: "block_index I iv entries n" and T: "token_laws T valid" and ix: "iv ix" "entries ix = []"
    and b: "build_pool I ix dh bs n = Some (Inr p)" and r: "kv_reachable I T salt (fst p) (world_of p) w"
  shows "all_served T w"
  using r
proof induction
  case start
  show ?case by (simp add: all_served_def world_of_def split: prod.split)
next
  case (call w c w')
  thus ?case
    using call_served [OF B T kv_ok [OF B T ix b call.hyps(1)]] by blast
qed

section \<open>What the calls promise\<close>

text \<open>
  C21: an unfinished request can always go on. An idle request with a prompt and tokens left to
  generate has a legal next step: any chunk of what is left of its prompt, or, once the prompt is
  done, a decode. It is granted as soon as the blocks it is short of are available; the request is
  never stuck in a state in which every schedule is refused for another reason.
\<close>

theorem request_can_continue:
  assumes "block_index I iv entries n" and "token_laws T valid" and "iv ix" and "entries ix = []"
    and "build_pool I ix dh bs n = Some (Inr p)" and "kv_reachable I T salt (fst p) (world_of p) w"
    and "r \<in> set (kw_requests w)" and "sc_state (rk_seq r) = Idle" and "0 < rs_num_input_tokens (sc_inner (rk_seq r))"
    and "0 < rs_remaining_tokens (sc_inner (rk_seq r))"
    and "op = (if sc_prefill_position (rk_seq r) < rs_num_input_tokens (sc_inner (rk_seq r)) then SchedulePrefill m else ScheduleDecode)"
    and "sc_prefill_position (rk_seq r) + m \<le> rs_num_input_tokens (sc_inner (rk_seq r))"
    and "missing_blocks T op (rk_seq r) \<le> available_len I (kw_store w)"
  shows "\<exists>r' st'. run_kv_op I T op r (kw_store w) = Some (True, r', st')"
proof -
  obtain gs R where ok: "sequence_ok iv entries n T valid gs R (rk_seq r) (kw_store w)"
    by (rule request_ok [OF kv_ok [OF assms(1-6)] assms(7)])
  have "served T (rk_seq r)"
    using kv_served [OF assms(1-6)] assms(7) by (simp add: all_served_def)
  hence "grantable T op (rk_seq r)"
    using assms(8-12) by (auto simp: decodable_def served_def sc_defs)
  moreover have "is_schedule op"
    using assms(11) by simp
  ultimately show ?thesis
    using assms(13) by (auto intro: block_index.schedule_granted [OF assms(1,2) ok])
qed

text \<open>
  C22: a prefix hit never covers the whole prompt. Matching on a fresh request takes whole cached
  blocks only, leaves at least one prompt token to compute, and advances both positions by exactly
  the tokens of the blocks it added.
\<close>

theorem prefix_match_leaves_work:
  assumes "block_index I iv entries n" and "token_laws T valid" and "iv ix" and "entries ix = []"
    and "build_pool I ix dh bs n = Some (Inr p)" and "kv_reachable I T salt (fst p) (world_of p) w"
    and "r \<in> set (kw_requests w)" and "sc_state (rk_seq r) = Idle" and "0 < rs_num_input_tokens (sc_inner (rk_seq r))"
    and "sq_is_empty (request_blocks r)" and "sc_prefill_position (rk_seq r) = 0" and "sc_total_tokens T (rk_seq r) \<le> usize_max"
  shows "\<exists>hit r' st'. kv_match_and_add_prefix I T r (kw_store w) = Some (Inr hit, r', st') \<and>
    hit < rs_num_input_tokens (sc_inner (rk_seq r)) \<and> hit = resident_blocks r' * sc_block_size T (rk_seq r) \<and>
    sc_prefill_position (rk_seq r') = hit \<and> sc_kv_position (rk_seq r') = hit \<and> rk_emitted_blocks r' = resident_blocks r'"
proof -
  let ?s = "rk_seq r" let ?r = "sc_inner ?s" let ?k = "saturating_sub (rs_num_input_tokens ?r) 1 div sc_block_size T ?s"
  obtain gs R where ok: "sequence_ok iv entries n T valid gs R ?s (kw_store w)"
    by (rule request_ok [OF kv_ok [OF assms(1-6)] assms(7)])
  have P: "valid (rs_sequence ?r)" "0 < sc_block_size T ?s" "sc_kv_position ?s = 0"
    using ok token_lawsD(4) [OF assms(2)] assms(9,11)
    by (auto simp: sequence_ok_def positions_ok_def Let_def sc_block_size_def is_prefill_complete_def)
  have o: "rs_assignments ?r = shape [] [] []" "owns iv entries n gs R (all_sequence_hashes T (rs_sequence ?r)) [] [] [] (kw_store w)"
    using ok assms(10) by (auto simp: sequence_ok_def)
  obtain m as' st' where m: "rs_match_and_add_prefix I T ?k ?r (kw_store w) = Some (Inr m,
        ?r\<lparr>rs_assignments := shape as' [] [], rs_prefix_matched_blocks := rs_prefix_matched_blocks ?r + m\<rparr>, st')" "m \<le> ?k" "length as' = m"
    using block_index.rs_match_own [OF assms(1,2) P(1) assms(12) [unfolded sc_total_tokens_def] o, of ?k] by blast
  have "m * sc_block_size T ?s \<le> rs_num_input_tokens ?r - 1"
    using m(2) P(2) by (simp add: saturating_sub_def less_eq_div_iff_mult_less_eq)
  hence "m * sc_block_size T ?s < rs_num_input_tokens ?r"
    using assms(9) by linarith
  thus ?thesis
    using m(1,3) assms(8,11) P(3)
    by (auto simp: kv_match_and_add_prefix_def seq_match_and_add_prefix_def require_idle_def Let_def resident_blocks_def sc_defs)
qed

text \<open>
  C23: decoding keeps the prefix cache complete. After an applied decode every full block of the
  sequence's tokens is registered under its hash. One token more is registered than has its KV
  computed: when the token just emitted fills a block, that block can be matched by another request
  before the row of its last token exists.
\<close>

theorem decode_registers_full_blocks:
  assumes "block_index I iv entries n" and "token_laws T valid" and "iv ix" and "entries ix = []"
    and "build_pool I ix dh bs n = Some (Inr p)" and "kv_reachable I T salt (fst p) (world_of p) w"
    and "r \<in> set (kw_requests w)" and "sc_state (rk_seq r) = DecodeScheduled m"
  shows "\<exists>r' st'. run_kv_op I T (ApplyDecode t) r (kw_store w) = Some (True, r', st') \<and> sc_state (rk_seq r') = Idle \<and>
    sc_kv_position (rk_seq r') = sc_kv_position (rk_seq r) + 1 \<and> sc_total_tokens T (rk_seq r') = sc_kv_position (rk_seq r') + 1 \<and>
    assigned_blocks (sc_inner (rk_seq r')) = (sc_kv_position (rk_seq r') + 1) div sc_block_size T (rk_seq r)"
proof -
  let ?s = "rk_seq r" let ?r = "sc_inner ?s" let ?g = "rs_generated_tokens ?r + 1" let ?bs = "sc_block_size T ?s"
  obtain gs R where ok: "sequence_ok iv entries n T valid gs R ?s (kw_store w)"
    by (rule request_ok [OF kv_ok [OF assms(1-6)] assms(7)])
  note P = ok [unfolded sequence_ok_def positions_ok_def Let_def assms(8), simplified]
  have v: "valid (rs_sequence ?r)" "rs_generated_tokens ?r < rs_max_output_tokens ?r" "0 < ?bs"
    using P token_lawsD(4) [OF assms(2)] by (simp_all add: sc_block_size_def)
  obtain q' c where q': "rs_append_token T t ?r = Some (c, ?r\<lparr>rs_sequence := q', rs_generated_tokens := ?g\<rparr>)"
      "valid q'" "tk_total_tokens T q' = sc_total_tokens T ?s + 1" "tk_block_size T q' = ?bs"
      "take (length (all_sequence_hashes T (rs_sequence ?r))) (all_sequence_hashes T q') = all_sequence_hashes T (rs_sequence ?r)"
    by (rule append_token_eq [OF assms(2) v(1,2), of t]) (simp add: sc_block_size_def sc_total_tokens_def)
  obtain as us as' us' st' where c: "rs_assignments ?r = shape as [] us"
      "complete_and_register_pending I Allow T (?r\<lparr>rs_sequence := q', rs_generated_tokens := ?g\<rparr>) (kw_store w) =
        Some (?r\<lparr>rs_sequence := q', rs_generated_tokens := ?g, rs_assignments := shape as' [] us'\<rparr>, st')"
      "length as' = length as + min (length (tk_blocks T q') - length as) (length us)"
      "owns iv entries n gs R (all_sequence_hashes T q') as' [] us' st'"
    by (rule block_index.commit_pending [OF assms(1,2) ok q'(2,4,5), where g = ?g])
  have len: "length (tk_blocks T q') = (sc_kv_position ?s + 2) div ?bs"
    using token_lawsD(5) [OF assms(2) q'(2)] q'(3,4) P by simp
  have "sc_kv_position ?s + 2 \<le> (length as + length us) * ?bs"
    using P c(1) by (simp add: sc_defs)
  hence "(sc_kv_position ?s + 2) div ?bs \<le> length as + length us"
    using v(3) by (metis div_le_mono div_mult_self_is_m)
  moreover have "length as' \<le> length (tk_blocks T q')"
    using owns_length [OF c(4)] by (simp add: all_sequence_hashes_def)
  ultimately have "length as' = (sc_kv_position ?s + 2) div ?bs"
    using c(3) len by linarith
  thus ?thesis
    using assms(8) q'(1,3) c(2) P
    by (auto simp: run_kv_op_def seq_apply_decode_def on_seq_def answered_def assigned_blocks_def sc_total_tokens_def)
qed

end
