(* ===== verification/Kv_Holdings.thy ===== *)
theory Kv_Holdings
  imports Kv_Progress
begin

text \<open>
  The KV cache as a contract for a client that owns requests, probes, reservations and pins: what
  the client holds, as multisets, and what each call of the cache does with it. The client's lemmas
  are proved against this contract; every state it speaks of is one that legal calls lead to.
\<close>

section \<open>Holdings\<close>

definition kv_holds :: "'i index \<Rightarrow> 'q token_sequence \<Rightarrow> (string option \<Rightarrow> string option \<Rightarrow> u64) \<Rightarrow>
    block_pool \<times> 'i block_store \<times> immutable_block \<Rightarrow> 'i block_store \<Rightarrow> 'q request_kv multiset \<Rightarrow> prefix_probe multiset \<Rightarrow>
    mutable_block list multiset \<Rightarrow> immutable_block multiset \<Rightarrow> bool" where
  "kv_holds I T salt p st RS PS LS NS \<longleftrightarrow>
     (\<exists>w. kv_reachable I T salt (fst p) (world_of p) w \<and> kw_store w = st \<and> mset (kw_requests w) = RS \<and> mset (kw_probes w) = PS \<and>
        mset (kw_loads w) = LS \<and> mset (kw_pins w) = NS)"

lemma mset_add_nth: "mset xs = add_mset a M \<Longrightarrow> \<exists>k < length xs. xs ! k = a \<and> mset (without_nth k xs) = M \<and> (\<forall>b. mset (xs[k := b]) = add_mset b M)"
proof -
  assume m: "mset xs = add_mset a M"
  hence "a \<in> set xs" by (metis set_mset_mset union_single_eq_member)
  then obtain k where k: "k < length xs" "xs ! k = a" by (auto simp: in_set_conv_nth)
  hence w: "mset (without_nth k xs) = M" using mset_without [OF k(1)] m by simp
  moreover have "mset (xs[k := b]) = add_mset b M" for b
    using w mset_concat_update [OF k(1), of "\<lambda>x. [x]" b] by simp
  ultimately show ?thesis using k by blast
qed

lemma kv_holdsE:
  assumes "kv_holds I T salt p st RS PS LS NS"
  obtains w where "kv_reachable I T salt (fst p) (world_of p) w" and "kw_store w = st" and "mset (kw_requests w) = RS"
    and "mset (kw_probes w) = PS" and "mset (kw_loads w) = LS" and "mset (kw_pins w) = NS"
  using assms by (auto simp: kv_holds_def)

lemma kv_holds_start: "kv_holds I T salt (pool, st, a) st {#} {#} {#} {#}"
  unfolding kv_holds_def by (intro exI [of _ "world_of (pool, st, a)"] conjI) (auto intro: kv_reachable.start simp: world_of_def)

section \<open>The contract\<close>

locale kv_cache = block_index I iv entries n
  for I :: "'i index" and iv entries n +
  fixes T :: "'q token_sequence" and valid :: "'q \<Rightarrow> bool" and salt :: "string option \<Rightarrow> string option \<Rightarrow> u64" and ix :: 'i
    and dh :: seq_hash and bs :: usize and p :: "block_pool \<times> 'i block_store \<times> immutable_block"
  assumes tokens: "token_laws T valid" and ix: "iv ix" "entries ix = []" and built: "build_pool I ix dh bs n = Some (Inr p)"
begin

abbreviation reach :: "('q, 'i) kv_world \<Rightarrow> bool" where
  "reach w \<equiv> kv_reachable I T salt (fst p) (world_of p) w"

abbreviation own_all :: "'i block_store \<Rightarrow> 'q request_kv multiset \<Rightarrow> prefix_probe multiset \<Rightarrow> mutable_block list multiset \<Rightarrow>
    immutable_block multiset \<Rightarrow> bool" where
  "own_all st RS PS LS NS \<equiv> kv_holds I T salt p st RS PS LS NS"

lemma reach_ok: "reach w \<Longrightarrow> cache_ok iv entries n T valid (fst p) w"
  by (rule kv_ok [OF block_index_axioms tokens ix built])

lemma reach_call: "reach w \<Longrightarrow> legal_call T c w \<Longrightarrow> \<exists>w'. exec_call I T salt (fst p) c w = Some w' \<and> reach w'"
  using call_ok [OF tokens reach_ok] kv_reachable.call by metis

lemma hold_new:
  assumes "own_all st RS PS LS NS"
  shows "own_all st (add_mset (new_request T salt (fst p) prompt max_out lora) RS) PS LS NS"
proof -
  obtain w where w: "reach w" "kw_store w = st" "mset (kw_requests w) = RS" "mset (kw_probes w) = PS" "mset (kw_loads w) = LS" "mset (kw_pins w) = NS"
    by (rule kv_holdsE [OF assms])
  show ?thesis
    using reach_call [OF w(1), of "NewRequest prompt max_out None lora"] w unfolding kv_holds_def new_request_def by force
qed

lemma hold_request:
  assumes "own_all st (add_mset r RS) PS LS NS"
    and "\<And>k w. exec_call I T salt (fst p) (c k) w = in_request k f w"
    and "\<And>k w. k < length (kw_requests w) \<Longrightarrow> kw_requests w ! k = r \<Longrightarrow> legal_call T (c k) (w :: ('q, 'i) kv_world)"
  shows "\<exists>x r' st'. f r st = Some (x, r', st') \<and> own_all st' (add_mset r' RS) PS LS NS"
proof -
  obtain w where w: "reach w" "kw_store w = st" "mset (kw_requests w) = add_mset r RS" "mset (kw_probes w) = PS" "mset (kw_loads w) = LS" "mset (kw_pins w) = NS"
    by (rule kv_holdsE [OF assms(1)])
  obtain k where k: "k < length (kw_requests w)" "kw_requests w ! k = r" "\<And>b. mset ((kw_requests w)[k := b]) = add_mset b RS"
    using mset_add_nth [OF w(3)] by blast
  obtain w' where w': "in_request k f w = Some w'" "reach w'"
    using reach_call [OF w(1) assms(3) [OF k(1,2)]] assms(2) by auto
  then obtain x r' st' where f: "f r st = Some (x, r', st')" "w' = w\<lparr>kw_requests := (kw_requests w)[k := r'], kw_store := st'\<rparr>"
    using k w(2) by (auto simp: in_request_def bind_eq_Some_conv)
  have "own_all st' (add_mset r' RS) PS LS NS"
    unfolding kv_holds_def using w' f(2) w k(3) by (intro exI [of _ w']) simp
  thus ?thesis using f(1) by blast
qed

lemma hold_op:
  assumes "own_all st (add_mset r RS) PS LS NS"
    and "case op of ApplyPrefill _ \<Rightarrow> 0 < rs_remaining_tokens (sc_inner (rk_seq r)) | _ \<Rightarrow> True"
  shows "\<exists>b r' st'. run_kv_op I T op r st = Some (b, r', st') \<and> own_all st' (add_mset r' RS) PS LS NS"
  by (rule hold_request [OF assms(1), of "\<lambda>k. RunOp k op"]) (use assms(2) in \<open>auto split: kv_op.split kv_op.split_asm\<close>)

lemma hold_match:
  assumes "own_all st (add_mset r RS) PS LS NS" and "sq_is_empty (request_blocks r)" and "sc_prefill_position (rk_seq r) = 0"
    and "sc_total_tokens T (rk_seq r) \<le> usize_max"
  shows "\<exists>x r' st'. kv_match_and_add_prefix I T r st = Some (x, r', st') \<and> own_all st' (add_mset r' RS) PS LS NS"
  by (rule hold_request [OF assms(1), of MatchPrefix]) (use assms(2-4) in simp_all)

lemma hold_mark:
  assumes "own_all st (add_mset r RS) PS LS NS"
  shows "\<exists>st'. mark_blocks_reset_on_release r st = Some st' \<and> own_all st' (add_mset r RS) PS LS NS"
  using hold_request [OF assms, of MarkReset "\<lambda>r st. do { st1 \<leftarrow> mark_blocks_reset_on_release r st; Some ((), r, st1) }"]
  by (auto simp: bind_eq_Some_conv)

lemma hold_drop_request:
  assumes "own_all st (add_mset r RS) PS LS NS"
  shows "\<exists>q st'. clear_assignments I (request_blocks r) st = Some (q, st') \<and> own_all st' RS PS LS NS"
proof -
  obtain w where w: "reach w" "kw_store w = st" "mset (kw_requests w) = add_mset r RS" "mset (kw_probes w) = PS" "mset (kw_loads w) = LS" "mset (kw_pins w) = NS"
    by (rule kv_holdsE [OF assms])
  obtain k where k: "k < length (kw_requests w)" "kw_requests w ! k = r" "mset (without_nth k (kw_requests w)) = RS"
    using mset_add_nth [OF w(3)] by blast
  show ?thesis
    using reach_call [OF w(1), of "DropRequest k"] k w unfolding kv_holds_def by (fastforce simp: bind_eq_Some_conv)
qed

lemma hold_drop_probe:
  assumes "own_all st RS (add_mset b PS) LS NS"
  shows "\<exists>st'. drop_immutables I (pb_held b) st = Some st' \<and> own_all st' RS PS LS NS"
proof -
  obtain w where w: "reach w" "kw_store w = st" "mset (kw_requests w) = RS" "mset (kw_probes w) = add_mset b PS" "mset (kw_loads w) = LS" "mset (kw_pins w) = NS"
    by (rule kv_holdsE [OF assms])
  obtain k where k: "k < length (kw_probes w)" "kw_probes w ! k = b" "mset (without_nth k (kw_probes w)) = PS"
    using mset_add_nth [OF w(4)] by blast
  show ?thesis
    using reach_call [OF w(1), of "DropProbe k"] k w unfolding kv_holds_def by (fastforce simp: bind_eq_Some_conv)
qed

lemma hold_drop_load:
  assumes "own_all st RS PS (add_mset b LS) NS"
  shows "\<exists>st'. release_mutables b st = Some st' \<and> own_all st' RS PS LS NS"
proof -
  obtain w where w: "reach w" "kw_store w = st" "mset (kw_requests w) = RS" "mset (kw_probes w) = PS" "mset (kw_loads w) = add_mset b LS" "mset (kw_pins w) = NS"
    by (rule kv_holdsE [OF assms])
  obtain k where k: "k < length (kw_loads w)" "kw_loads w ! k = b" "mset (without_nth k (kw_loads w)) = LS"
    using mset_add_nth [OF w(5)] by blast
  show ?thesis
    using reach_call [OF w(1), of "DropReservation k"] k w unfolding kv_holds_def by (fastforce simp: bind_eq_Some_conv)
qed

lemma hold_unpin:
  assumes "own_all st RS PS LS (add_mset a NS)"
  shows "\<exists>st'. drop_immutable I a st = Some st' \<and> own_all st' RS PS LS NS"
proof -
  obtain w where w: "reach w" "kw_store w = st" "mset (kw_requests w) = RS" "mset (kw_probes w) = PS" "mset (kw_loads w) = LS" "mset (kw_pins w) = add_mset a NS"
    by (rule kv_holdsE [OF assms])
  obtain k where k: "k < length (kw_pins w)" "kw_pins w ! k = a" "mset (without_nth k (kw_pins w)) = NS"
    using mset_add_nth [OF w(6)] by blast
  show ?thesis
    using reach_call [OF w(1), of "Unpin k"] k w unfolding kv_holds_def by (fastforce simp: bind_eq_Some_conv)
qed

lemma hold_unpins:
  "own_all st RS PS LS (mset as + NS) \<Longrightarrow> \<exists>st'. drop_immutables I as st = Some st' \<and> own_all st' RS PS LS NS"
proof (induction as arbitrary: st)
  case (Cons a as)
  thus ?case using hold_unpin [of st RS PS LS a "mset as + NS"] by fastforce
qed auto

lemma hold_pin:
  assumes "own_all st (add_mset r RS) PS LS NS"
  shows "\<exists>as st'. assigned_block_guards r st = Some (as, st') \<and> length as = length (sq_assigned (request_blocks r)) \<and>
    own_all st' (add_mset r RS) PS LS (mset as + NS)"
proof -
  obtain w where w: "reach w" "kw_store w = st" "mset (kw_requests w) = add_mset r RS" "mset (kw_probes w) = PS" "mset (kw_loads w) = LS" "mset (kw_pins w) = NS"
    by (rule kv_holdsE [OF assms])
  obtain k where k: "k < length (kw_requests w)" "kw_requests w ! k = r"
    using mset_add_nth [OF w(3)] by blast
  obtain w' where w': "exec_call I T salt (fst p) (PinBlocks k) w = Some w'" "reach w'"
    using reach_call [OF w(1), of "PinBlocks k"] k by auto
  then obtain as st' where as: "assigned_block_guards r st = Some (as, st')" "w' = w\<lparr>kw_store := st', kw_pins := kw_pins w @ as\<rparr>"
    using k w(2) by (auto simp: bind_eq_Some_conv)
  have "own_all st' (add_mset r RS) PS LS (mset as + NS)"
    unfolding kv_holds_def using w' as(2) w by (intro exI [of _ w']) (simp add: add.commute)
  thus ?thesis
    using as(1) by (auto simp: assigned_block_guards_def Let_def bind_eq_Some_conv)
qed

lemma hold_evict:
  assumes "own_all st RS PS LS NS"
  shows "\<exists>st'. evict_inactive I st = Some st' \<and> own_all st' RS PS LS NS"
proof -
  obtain w where w: "reach w" "kw_store w = st" "mset (kw_requests w) = RS" "mset (kw_probes w) = PS" "mset (kw_loads w) = LS" "mset (kw_pins w) = NS"
    by (rule kv_holdsE [OF assms])
  show ?thesis
    using reach_call [OF w(1), of EvictInactive] w unfolding kv_holds_def by (fastforce simp: bind_eq_Some_conv)
qed

lemma hold_reserve:
  assumes "own_all st RS PS LS NS"
  shows "\<exists>b st'. reserve_loaded_blocks I m st = Some (b, st') \<and> own_all st' RS PS ((case b of None \<Rightarrow> {#} | Some ids \<Rightarrow> {#ids#}) + LS) NS \<and>
    (\<forall>ids. b = Some ids \<longrightarrow> length ids = m)"
proof -
  obtain w where w: "reach w" "kw_store w = st" "mset (kw_requests w) = RS" "mset (kw_probes w) = PS" "mset (kw_loads w) = LS" "mset (kw_pins w) = NS"
    by (rule kv_holdsE [OF assms])
  obtain w' where w': "exec_call I T salt (fst p) (ReserveLoaded m) w = Some w'" "reach w'"
    using reach_call [OF w(1), of "ReserveLoaded m"] by auto
  then obtain b st' where b: "reserve_loaded_blocks I m st = Some (b, st')"
      "w' = w\<lparr>kw_store := st', kw_loads := kw_loads w @ (case b of None \<Rightarrow> [] | Some bs \<Rightarrow> [bs])\<rparr>"
    using w(2) by (auto simp: bind_eq_Some_conv)
  have "own_all st' RS PS ((case b of None \<Rightarrow> {#} | Some ids \<Rightarrow> {#ids#}) + LS) NS"
    unfolding kv_holds_def using w' b(2) w by (intro exI [of _ w']) (simp split: option.split)
  moreover have "length ids = m" if "b = Some ids" for ids
    using allocate_held [OF cache_okD(1) [OF reach_ok [OF w(1)]], of m] b(1) that w(2) by (auto simp: reserve_loaded_blocks_def)
  ultimately show ?thesis using b(1) by blast
qed

lemma hold_probe:
  assumes "own_all st RS PS LS NS"
  shows "\<exists>b st'. probe_prefix_with_cache_salt I T salt (fst p) prompt cs lora st = Some (b, st') \<and> own_all st' RS (add_mset b PS) LS NS \<and>
    pb_gpu_hit b \<le> length (pb_seq_hashes b) \<and> length (pb_seq_hashes b) = length prompt div bp_block_size (fst p) \<and>
    pb_cacheable b = saturating_sub (length prompt) 1 div bp_block_size (fst p)"
proof -
  obtain w where w: "reach w" "kw_store w = st" "mset (kw_requests w) = RS" "mset (kw_probes w) = PS" "mset (kw_loads w) = LS" "mset (kw_pins w) = NS"
    by (rule kv_holdsE [OF assms])
  obtain w' where w': "exec_call I T salt (fst p) (ProbePrefix prompt cs lora) w = Some w'" "reach w'"
    using reach_call [OF w(1), of "ProbePrefix prompt cs lora"] by auto
  then obtain b st' where b: "probe_prefix_with_cache_salt I T salt (fst p) prompt cs lora st = Some (b, st')"
      "w' = w\<lparr>kw_store := st', kw_probes := kw_probes w @ [b]\<rparr>"
    using w(2) by (auto simp: bind_eq_Some_conv)
  have "own_all st' RS (add_mset b PS) LS NS"
    unfolding kv_holds_def using w' b(2) w by (intro exI [of _ w']) simp
  moreover have "\<exists>as. match_prefix_locked_batch I (pb_seq_hashes b) (kw_store w) = Some (as, st') \<and> pb_gpu_hit b = length as"
    using b(1) w(2) by (auto simp: probe_prefix_with_cache_salt_def Let_def bind_eq_Some_conv)
  hence "pb_gpu_hit b \<le> length (pb_seq_hashes b)"
    using match_held [OF cache_okD(1) [OF reach_ok [OF w(1)]], of "pb_seq_hashes b"] by auto
  moreover have "length (pb_seq_hashes b) = length prompt div bp_block_size (fst p)"
      "pb_cacheable b = saturating_sub (length prompt) 1 div bp_block_size (fst p)"
    using b(1) cache_okD(4,5) [OF reach_ok [OF w(1)]] token_lawsD [OF tokens]
    by (auto simp: probe_prefix_with_cache_salt_def Let_def bind_eq_Some_conv new_request_with_cache_salt_def new_schedulable_def
        new_request_sequence_def all_sequence_hashes_def)
  ultimately show ?thesis using b(1) by blast
qed

lemma hold_commit:
  assumes "own_all st RS (add_mset b PS) (add_mset l LS) NS" and "pb_gpu_hit b + length l \<le> length (pb_seq_hashes b)"
  shows "\<exists>b' st'. commit_loaded_blocks I (fst p) b l st = Some (b', st') \<and> own_all st' RS (add_mset b' PS) LS NS"
proof -
  obtain w where w: "reach w" "kw_store w = st" "mset (kw_requests w) = RS" "mset (kw_probes w) = add_mset b PS" "mset (kw_loads w) = add_mset l LS" "mset (kw_pins w) = NS"
    by (rule kv_holdsE [OF assms(1)])
  obtain j where j: "j < length (kw_probes w)" "kw_probes w ! j = b" "\<And>c. mset ((kw_probes w)[j := c]) = add_mset c PS"
    using mset_add_nth [OF w(4)] by blast
  obtain k where k: "k < length (kw_loads w)" "kw_loads w ! k = l" "mset (without_nth k (kw_loads w)) = LS"
    using mset_add_nth [OF w(5)] by blast
  show ?thesis
    using reach_call [OF w(1), of "CommitLoaded j k"] assms(2) j k w unfolding kv_holds_def by (fastforce simp: bind_eq_Some_conv)
qed

text \<open>What is known of a request in hand.\<close>

lemma hold_sequence:
  assumes "own_all st (add_mset r RS) PS LS NS"
  obtains gs R where "sequence_ok iv entries n T valid gs R (rk_seq r) st" and "served T (rk_seq r)"
proof -
  obtain w where w: "reach w" "kw_store w = st" "mset (kw_requests w) = add_mset r RS"
    by (rule kv_holdsE [OF assms])
  have r: "r \<in> set (kw_requests w)" using w(3) by (metis set_mset_mset union_single_eq_member)
  have "served T (rk_seq r)"
    using kv_served [OF block_index_axioms tokens ix built w(1)] r by (simp add: all_served_def)
  thus ?thesis
    using request_ok [OF reach_ok [OF w(1)] r] that w(2) by blast
qed

end

end
