(* ===== verification/Step_Run.thy ===== *)
theory Step_Run
  imports Prelude
begin

text \<open>
  Calls of a component with a state of its own: a call answers \<open>Ok\<close> or an error text and leaves a
  new state, or it panics (\<open>None\<close>). The combinators are \<open>?\<close>, \<open>ensure!\<close>, \<open>for\<close> with \<open>?\<close> in its
  body, and the two ways a call reaches a part of the state.
\<close>

type_synonym ('x, 'a) run = "'x \<Rightarrow> ((string + 'a) \<times> 'x) option"

named_theorems run_simps \<open>rewrite rules for calls that answer\<close>

named_theorems wp_simps \<open>weakest preconditions of the combinators\<close>

definition run_ok :: "'a \<Rightarrow> ('x, 'a) run" where
  "run_ok a x = Some (Inr a, x)"

definition run_err :: "string \<Rightarrow> ('x, 'a) run" where
  "run_err e x = Some (Inl e, x)"

definition run_panic :: "('x, 'a) run" where
  "run_panic x = None"

definition run_bind :: "('x, 'a) run \<Rightarrow> ('a \<Rightarrow> ('x, 'b) run) \<Rightarrow> ('x, 'b) run" where
  "run_bind m f x =
     (case m x of
        None \<Rightarrow> None
      | Some (Inl e, y) \<Rightarrow> Some (Inl e, y)
      | Some (Inr a, y) \<Rightarrow> f a y)"

definition run_ensure :: "bool \<Rightarrow> string \<Rightarrow> ('x, unit) run" where
  "run_ensure b e = (if b then run_ok () else run_err e)"

definition run_get :: "('x \<Rightarrow> 'a) \<Rightarrow> ('x, 'a) run" where
  "run_get f x = Some (Inr (f x), x)"

definition run_upd :: "('x \<Rightarrow> 'x) \<Rightarrow> ('x, unit) run" where
  "run_upd f x = Some (Inr (), f x)"

text \<open>An error that is a value, and an index or an \<open>expect\<close> that may panic.\<close>

definition run_res :: "string + 'a \<Rightarrow> ('x, 'a) run" where
  "run_res r x = Some (r, x)"

definition run_opt :: "'a option \<Rightarrow> ('x, 'a) run" where
  "run_opt m x = (case m of None \<Rightarrow> None | Some a \<Rightarrow> Some (Inr a, x))"

fun run_each :: "('a \<Rightarrow> ('x, unit) run) \<Rightarrow> 'a list \<Rightarrow> ('x, unit) run" where
  "run_each f [] = run_ok ()"
| "run_each f (a # as) = run_bind (f a) (\<lambda>_. run_each f as)"

fun run_map :: "('a \<Rightarrow> ('x, 'b) run) \<Rightarrow> 'a list \<Rightarrow> ('x, 'b list) run" where
  "run_map f [] = run_ok []"
| "run_map f (a # as) = run_bind (f a) (\<lambda>b. run_bind (run_map f as) (\<lambda>bs. run_ok (b # bs)))"

text \<open>A call on a part of the state.\<close>

definition run_on :: "('x \<Rightarrow> 'g) \<Rightarrow> ('g \<Rightarrow> 'x \<Rightarrow> 'x) \<Rightarrow> ('g \<Rightarrow> (string + 'a) \<times> 'g) \<Rightarrow> ('x, 'a) run" where
  "run_on get put f x = (let (r, g) = f (get x) in Some (r, put g x))"

section \<open>Calls that answer\<close>

lemma run_bind_Inr [run_simps]:
  "run_bind m f x = Some (Inr b, z) \<longleftrightarrow> (\<exists>a y. m x = Some (Inr a, y) \<and> f a y = Some (Inr b, z))"
  by (auto simp: run_bind_def split: option.splits sum.splits)

lemma run_bind_Some:
  "run_bind m f x = Some (r, z) \<longleftrightarrow>
    (\<exists>e. m x = Some (Inl e, z) \<and> r = Inl e) \<or> (\<exists>a y. m x = Some (Inr a, y) \<and> f a y = Some (r, z))"
  by (auto simp: run_bind_def split: option.splits sum.splits)

lemma run_Inr [run_simps]:
  "run_ok a x = Some (Inr b, y) \<longleftrightarrow> b = a \<and> y = x" "run_err e x = Some (Inr b', y) \<longleftrightarrow> False"
  "run_panic x = Some r \<longleftrightarrow> False" "run_ensure c e x = Some (Inr u, y) \<longleftrightarrow> c \<and> y = x"
  "run_get f x = Some (Inr d, y) \<longleftrightarrow> d = f x \<and> y = x" "run_upd g x = Some (Inr u, y) \<longleftrightarrow> y = g x"
  "run_res v x = Some (Inr w, y) \<longleftrightarrow> v = Inr w \<and> y = x" "run_opt m x = Some (Inr w', y) \<longleftrightarrow> m = Some w' \<and> y = x"
  by (auto simp: run_ok_def run_err_def run_panic_def run_ensure_def run_get_def run_upd_def run_res_def run_opt_def split: option.splits)

lemma run_each_append:
  "run_each f (as @ bs) x = run_bind (run_each f as) (\<lambda>_. run_each f bs) x"
  by (induction as arbitrary: x) (auto simp: run_bind_def run_ok_def split: option.splits sum.splits)

lemma run_map_Inr:
  "run_map f as x = Some (Inr bs, y) \<Longrightarrow> (\<And>a x b y. f a x = Some (Inr b, y) \<Longrightarrow> P a b) \<Longrightarrow> list_all2 P as bs"
  by (induction as arbitrary: x bs) (auto simp: run_simps)

text \<open>What a call leaves alone, whatever it answers.\<close>

definition run_keeps :: "('x \<Rightarrow> 'p) \<Rightarrow> ('x, 'a) run \<Rightarrow> bool" where
  "run_keeps p m \<longleftrightarrow> (\<forall>x r y. m x = Some (r, y) \<longrightarrow> p y = p x)"

lemma run_keepsD: "run_keeps p m \<Longrightarrow> m x = Some (r, y) \<Longrightarrow> p y = p x"
  by (auto simp: run_keeps_def)

lemma run_keeps_basic [intro, simp]:
  "run_keeps p (run_ok a)" "run_keeps p (run_err e)" "run_keeps p run_panic" "run_keeps p (run_ensure c e)" "run_keeps p (run_get f)"
  "run_keeps p (run_res v)" "run_keeps p (run_opt m)"
  by (auto simp: run_keeps_def run_ok_def run_err_def run_panic_def run_ensure_def run_get_def run_res_def run_opt_def split: option.splits)

lemma run_keeps_upd: "(\<And>x. p (g x) = p x) \<Longrightarrow> run_keeps p (run_upd g)"
  by (auto simp: run_keeps_def run_upd_def)

lemma run_keeps_bind [intro]: "run_keeps p m \<Longrightarrow> (\<And>a. run_keeps p (f a)) \<Longrightarrow> run_keeps p (run_bind m f)"
  unfolding run_keeps_def run_bind_Some by metis

lemma run_keeps_each [intro]: "(\<And>a. run_keeps p (f a)) \<Longrightarrow> run_keeps p (run_each f as)"
  by (induction as) auto

lemma run_keeps_map [intro]: "(\<And>a. run_keeps p (f a)) \<Longrightarrow> run_keeps p (run_map f as)"
  by (induction as) (auto intro!: run_keeps_bind)

lemma run_keeps_on: "(\<And>g x. p (put g x) = p x) \<Longrightarrow> run_keeps p (run_on get put f)"
  by (auto simp: run_keeps_def run_on_def split: prod.splits)

section \<open>Calls that do not panic\<close>

text \<open>
  Total correctness of a call: it returns, and its answer, error or not, and the state it leaves
  satisfy \<open>Q\<close>. The rules are weakest preconditions.
\<close>

definition returns :: "('x, 'a) run \<Rightarrow> 'x \<Rightarrow> (string + 'a \<Rightarrow> 'x \<Rightarrow> bool) \<Rightarrow> bool" where
  "returns m x Q \<longleftrightarrow> (\<exists>r y. m x = Some (r, y) \<and> Q r y)"

lemma returnsI: "m x = Some (r, y) \<Longrightarrow> Q r y \<Longrightarrow> returns m x Q"
  by (auto simp: returns_def)

lemma returns_mono: "returns m x Q \<Longrightarrow> (\<And>r y. m x = Some (r, y) \<Longrightarrow> Q r y \<Longrightarrow> Q' r y) \<Longrightarrow> returns m x Q'"
  by (auto simp: returns_def)

lemma returns_bind [wp_simps]:
  "returns (run_bind m f) x Q \<longleftrightarrow> returns m x (\<lambda>r y. case r of Inl e \<Rightarrow> Q (Inl e) y | Inr a \<Rightarrow> returns (f a) y Q)"
  by (auto simp: returns_def run_bind_def split: option.splits sum.splits)

lemma returns_basic [wp_simps]:
  "returns (run_ok a) x Q \<longleftrightarrow> Q (Inr a) x" "returns (run_err e) x Q \<longleftrightarrow> Q (Inl e) x"
  "returns (run_ensure c e) x Q' \<longleftrightarrow> Q' (if c then Inr () else Inl e) x" "returns (run_get f) x Q \<longleftrightarrow> Q (Inr (f x)) x"
  "returns (run_upd g) x Q' \<longleftrightarrow> Q' (Inr ()) (g x)" "returns (run_opt (Some a)) x Q \<longleftrightarrow> Q (Inr a) x" "returns (run_res v) x Q \<longleftrightarrow> Q v x"
  by (auto simp: returns_def run_ok_def run_err_def run_ensure_def run_get_def run_upd_def run_opt_def run_res_def)

lemma returns_if [wp_simps]: "returns (if c then m else k) x Q \<longleftrightarrow> (if c then returns m x Q else returns k x Q)"
  by simp

lemma case_sum_same [wp_simps]: "(case r of Inl e \<Rightarrow> c | Inr a \<Rightarrow> c) = c"
  by (cases r) simp_all

lemma returns_step:
  assumes "returns m x R" and "\<And>e y. R (Inl e) y \<Longrightarrow> Q (Inl e) y" and "\<And>a y. R (Inr a) y \<Longrightarrow> returns (f a) y Q"
  shows "returns (run_bind m f) x Q"
  unfolding returns_bind by (rule returns_mono [OF assms(1)]) (auto simp: assms(2,3) split: sum.split)

lemma returns_then:
  assumes "returns m x (\<lambda>_. J)" and "\<And>a y. J y \<Longrightarrow> returns (f a) y (\<lambda>_. J)"
  shows "returns (run_bind m f) x (\<lambda>_. J)"
  by (rule returns_step [OF assms(1)]) (use assms(2) in auto)

lemma returns_keeps: "run_keeps p m \<Longrightarrow> returns m x Q \<Longrightarrow> returns m x (\<lambda>r y. Q r y \<and> p y = p x)"
  by (auto simp: returns_def run_keeps_def)

text \<open>A loop that keeps an invariant, error or not.\<close>

lemma returns_each:
  assumes "\<And>a y. a \<in> set as \<Longrightarrow> J y \<Longrightarrow> returns (f a) y (\<lambda>_. J)" and "J x"
  shows "returns (run_each f as) x (\<lambda>_. J)"
  using assms
proof (induction as arbitrary: x)
  case (Cons a as)
  have "returns (f a) x (\<lambda>_. J)" by (rule Cons.prems) (use Cons.prems in simp_all)
  thus ?case
    unfolding run_each.simps returns_bind by (rule returns_mono) (use Cons in \<open>auto split: sum.split\<close>)
qed (simp add: wp_simps)

lemma returns_each_ok:
  assumes "\<And>a y. a \<in> set as \<Longrightarrow> J y \<Longrightarrow> returns (f a) y (\<lambda>v y. v = Inr () \<and> J y)" and "J x"
  shows "returns (run_each f as) x (\<lambda>v y. v = Inr () \<and> J y)"
  using assms
proof (induction as arbitrary: x)
  case (Cons a as)
  have "returns (f a) x (\<lambda>v y. v = Inr () \<and> J y)" by (rule Cons.prems) (use Cons.prems in simp_all)
  thus ?case
    unfolding run_each.simps by (rule returns_step) (use Cons in auto)
qed (simp add: wp_simps)

lemma returns_map:
  assumes "\<And>a y. a \<in> set as \<Longrightarrow> J y \<Longrightarrow> returns (f a) y (\<lambda>_. J)" and "J x"
  shows "returns (run_map f as) x (\<lambda>_. J)"
  using assms
proof (induction as arbitrary: x)
  case (Cons a as)
  have "returns (f a) x (\<lambda>_. J)" by (rule Cons.prems) (use Cons.prems in simp_all)
  thus ?case
    unfolding run_map.simps returns_bind
    by (rule returns_mono) (use Cons in \<open>auto simp: wp_simps split: sum.split intro!: returns_mono [OF Cons.IH]\<close>)
qed (simp add: wp_simps)

end
