(* ===== verification/Dflash_Lane.thy ===== *)
theory Dflash_Lane
  imports Step_Run Speculative Qwen3_Scheduler Kv_Requests
begin

text \<open>
  The drafting half of a worker lane, \<open>pegainfer-qwen3/src/executor/dflash_lane.rs\<close> and
  \<open>dflash_prefill.rs\<close>, with the hedged verify pass of \<open>executor.rs\<close>: which prefills capture the
  target's hidden states, how a draft round splits its samples into spans, which requests are hedged
  with extra chains, and which chain a verify pass commits.

  What runs on the GPU (forward passes, samplers, page copies, the draft model) and the chain-count
  controller, which works on measured times, are functions of a record that is an argument here.
\<close>

section \<open>The device\<close>

record logprob_request =
  lr_row :: usize
  lr_picked :: token
  lr_top_k :: usize

datatype event_status = EventPending | EventDone | EventBroken

text \<open>\<open>'g\<close>: the state of the device; \<open>'h\<close>: a tensor of hidden states or logits; \<open>'d\<close>: the draft state of a request.\<close>

record ('g, 'h, 'd) device =
  dv_batch_prefill :: "token list list \<Rightarrow> kv_view list \<Rightarrow> string option list \<Rightarrow> bool \<Rightarrow> bool \<Rightarrow> 'g \<Rightarrow>
    (string + 'h \<times> 'h option \<times> 'h option) \<times> 'g"
  dv_batch_decode :: "token list \<Rightarrow> kv_view list \<Rightarrow> string option list \<Rightarrow> 'g \<Rightarrow> (string + unit) \<times> 'g"
  dv_unified_step :: "token list list \<Rightarrow> kv_view list \<Rightarrow> string option list \<Rightarrow> token list \<Rightarrow> kv_view list \<Rightarrow>
    string option list \<Rightarrow> 'g \<Rightarrow> (string + 'h) \<times> 'g"
  dv_verify_forward :: "token list list \<Rightarrow> kv_view list \<Rightarrow> 'g \<Rightarrow> (string + 'h \<times> 'h) \<times> 'g"
  dv_new_verify_bufs :: "usize \<Rightarrow> usize \<Rightarrow> usize \<Rightarrow> 'g \<Rightarrow> (string + unit) \<times> 'g"
  dv_decode_logits :: "'g \<Rightarrow> 'h"
  dv_max_rows :: "'g \<Rightarrow> usize"
  dv_grow_scratch :: "usize \<Rightarrow> 'g \<Rightarrow> (string + unit) \<times> 'g"
  dv_select_batch :: "'h \<Rightarrow> sampling_params list \<Rightarrow> u64 \<Rightarrow> 'g \<Rightarrow> (string + token list) \<times> 'g"
  dv_token_logprobs :: "'h \<Rightarrow> logprob_request list \<Rightarrow> 'g \<Rightarrow> (string + token_logprob list) \<times> 'g"
  dv_rows :: "'h \<Rightarrow> usize"
  dv_copy_page :: "usize \<Rightarrow> usize \<Rightarrow> 'g \<Rightarrow> (string + unit) \<times> 'g"
  dv_copy_rows :: "usize \<Rightarrow> usize \<Rightarrow> usize \<Rightarrow> 'h \<Rightarrow> 'g \<Rightarrow> (string + 'h) \<times> 'g"
  dv_set_rows :: "usize \<Rightarrow> 'h \<Rightarrow> 'h"
  dv_record_event :: "'g \<Rightarrow> (string + unit) \<times> 'g"
  dv_query_event :: "'g \<Rightarrow> event_status \<times> 'g"
  dv_sync_event :: "'g \<Rightarrow> bool \<times> 'g"
  dv_install_lora :: "string \<Rightarrow> string \<Rightarrow> bool \<Rightarrow> 'g \<Rightarrow> (string + unit) \<times> 'g"
  dv_uninstall_lora :: "string \<Rightarrow> 'g \<Rightarrow> (string + unit) \<times> 'g"
  dv_discard_lora :: "string \<Rightarrow> 'g \<Rightarrow> (string + unit) \<times> 'g"
  dv_new_draft_state :: "usize \<Rightarrow> 'g \<Rightarrow> (string + 'd) \<times> 'g"
  dv_pending_len :: "'d \<Rightarrow> usize option"
  dv_append_context :: "'h \<Rightarrow> usize \<Rightarrow> usize \<Rightarrow> 'd \<Rightarrow> 'g \<Rightarrow> (string + 'd) \<times> 'g"
  dv_draft_logits :: "token list \<Rightarrow> 'd list \<Rightarrow> 'g \<Rightarrow> (string + 'h \<times> 'd list) \<times> 'g"
  dv_markov_tokens :: "token list \<Rightarrow> 'g \<Rightarrow> (string + token list) \<times> 'g"
  dv_markov_runners :: "token list \<Rightarrow> usize list \<Rightarrow> 'g \<Rightarrow> (string + token list) \<times> 'g"
  dv_markov_ladder :: "token list \<Rightarrow> u32 list \<Rightarrow> usize list \<Rightarrow> 'g \<Rightarrow> (string + token list) \<times> 'g"
  dv_markov_max_batch :: "'g \<Rightarrow> usize"
  dv_auto_chains :: "'g \<Rightarrow> usize option"
  dv_auto_tick :: "usize \<Rightarrow> usize \<Rightarrow> 'g \<Rightarrow> 'g"

definition batch_buckets :: "usize list" where
  "batch_buckets =
     [1, 2, 4, 8, 16, 20, 24, 32, 40, 48, 56, 64, 72, 80, 88, 96, 104, 112, 120, 128, 136, 144, 152,
      160, 168, 176, 184, 192, 200, 208, 216, 224, 232, 240, 248, 256]"

section \<open>The lane\<close>

record 'd dflash =
  df_block_size :: usize
  df_anchor_first :: bool
  df_markov_head :: bool
  df_max_positions :: usize
  df_requests :: "request_id \<rightharpoonup> 'd"
  df_verified_draft_tokens :: usize
  df_accepted_draft_tokens :: usize
  df_hedge_blocks :: "request_id \<rightharpoonup> token list list"
  df_round_chains :: usize
  df_hedge_cap :: usize
  df_hedge_branch_positions :: "usize list"

record ('g, 'h, 'd) lane =
  ln_gpu :: 'g
  ln_page_size :: usize
  ln_buffer_blocks :: usize
  ln_total_blocks :: usize
  ln_inflight_prefill :: "(prefill_item list \<times> 'h \<times> u64) option"
  ln_dflash :: "'d dflash option"
  ln_verify_bufs :: bool
  ln_tp_graph_enabled :: bool
  ln_precapture_complete :: bool

definition gpu :: "('g \<Rightarrow> (string + 'a) \<times> 'g) \<Rightarrow> (('g, 'h, 'd) lane, 'a) run" where
  "gpu f = run_on ln_gpu (\<lambda>g l. l\<lparr>ln_gpu := g\<rparr>) f"

definition put_dflash :: "'d dflash \<Rightarrow> (('g, 'h, 'd) lane, unit) run" where
  "put_dflash df = run_upd (\<lambda>l. l\<lparr>ln_dflash := Some df\<rparr>)"

definition get_dflash :: "string \<Rightarrow> (('g, 'h, 'd) lane, 'd dflash) run" where
  "get_dflash e = run_bind (run_get ln_dflash) (\<lambda>d. case d of None \<Rightarrow> run_err e | Some df \<Rightarrow> run_ok df)"

definition select_step_tokens :: "('g, 'h, 'd) device \<Rightarrow> 'h \<Rightarrow> sampling_params list \<Rightarrow> u64 \<Rightarrow> (('g, 'h, 'd) lane, token list) run" where
  "select_step_tokens D logits params sample_seed =
     run_bind (run_get (\<lambda>l. dv_max_rows D (ln_gpu l))) (\<lambda>rows.
     run_bind (if rows < length params then gpu (dv_grow_scratch D (length params)) else run_ok ()) (\<lambda>_.
     gpu (dv_select_batch D logits params sample_seed)))"

section \<open>Capture during prefill\<close>

definition dflash_prefill_supported :: "prefill_item \<Rightarrow> bool" where
  "dflash_prefill_supported r \<longleftrightarrow> pi_lora_adapter r = None \<and> pi_cached_tokens r = 0 \<and> pi_logprobs r = 0 \<and> \<not> pi_echo r"

definition dflash_prefill_can_capture :: "prefill_item \<Rightarrow> bool \<Rightarrow> bool" where
  "dflash_prefill_can_capture r pending_state_exists \<longleftrightarrow>
     dflash_prefill_supported r \<and> (pi_chunk_start r = 0 \<or> pending_state_exists)"

definition should_capture_dflash_prefill_context :: "prefill_item list \<Rightarrow> (request_id \<Rightarrow> bool) \<Rightarrow> bool" where
  "should_capture_dflash_prefill_context requests pending_state_exists \<longleftrightarrow>
     requests \<noteq> [] \<and> list_ex (\<lambda>r. dflash_prefill_can_capture r (pending_state_exists (pi_id r))) requests"

definition lane_should_capture :: "('g, 'h, 'd) lane \<Rightarrow> prefill_item list \<Rightarrow> bool" where
  "lane_should_capture l requests =
     (case ln_dflash l of
        None \<Rightarrow> False
      | Some df \<Rightarrow> should_capture_dflash_prefill_context requests (\<lambda>i. df_requests df i \<noteq> None))"

datatype dflash_prefill_action = MarkReady | KeepPending | DropState

definition dflash_prefill_action_of :: "bool \<Rightarrow> bool \<Rightarrow> dflash_prefill_action" where
  "dflash_prefill_action_of captured_context completed =
     (case (captured_context, completed) of
        (True, True) \<Rightarrow> MarkReady
      | (True, False) \<Rightarrow> KeepPending
      | (False, _) \<Rightarrow> DropState)"

text \<open>One request's rows: its state leaves the map and comes back with the context appended.\<close>

definition capture_request :: "('g, 'h, 'd) device \<Rightarrow> 'h \<Rightarrow> usize \<Rightarrow> prefill_item \<Rightarrow> (('g, 'h, 'd) lane, bool) run" where
  "capture_request D hidden token_offset r =
     run_bind (get_dflash ''DFlash prefill context record requested without DFlash'') (\<lambda>df.
     let i = pi_id r; out = df\<lparr>df_requests := (df_requests df)(i := None)\<rparr> in
     if dflash_prefill_can_capture r (df_requests df i \<noteq> None) then
       run_bind (put_dflash out) (\<lambda>_.
       run_bind (case df_requests df i of
           Some s \<Rightarrow> run_ok s
         | None \<Rightarrow> gpu (dv_new_draft_state D
             (min (length (pi_prompt_tokens r) + pi_max_output_tokens r + df_block_size df) (df_max_positions df)))) (\<lambda>s.
       run_bind (run_ensure ((case dv_pending_len D s of None \<Rightarrow> 0 | Some n \<Rightarrow> n) = pi_chunk_start r)
         ''DFlash prefill context is discontinuous'') (\<lambda>_.
       run_bind (gpu (dv_append_context D hidden token_offset (pi_chunk_tokens r) s)) (\<lambda>s'.
       run_bind (put_dflash (out\<lparr>df_requests := (df_requests out)(i \<mapsto> s')\<rparr>)) (\<lambda>_. run_ok True)))))
     else run_bind (put_dflash out) (\<lambda>_. run_ok False))"

fun capture_loop :: "('g, 'h, 'd) device \<Rightarrow> 'h \<Rightarrow> usize \<Rightarrow> prefill_item list \<Rightarrow> (('g, 'h, 'd) lane, request_id list) run" where
  "capture_loop D hidden token_offset [] = run_ok []"
| "capture_loop D hidden token_offset (r # rs) =
     run_bind (capture_request D hidden token_offset r) (\<lambda>captured.
     run_bind (capture_loop D hidden (token_offset + pi_chunk_tokens r) rs) (\<lambda>is.
     run_ok (if captured then pi_id r # is else is)))"

definition record_prefill_dflash_context ::
  "('g, 'h, 'd) device \<Rightarrow> prefill_item list \<Rightarrow> bool \<Rightarrow> 'h option \<Rightarrow> (('g, 'h, 'd) lane, request_id list) run" where
  "record_prefill_dflash_context D requests capture_requested captured_hidden =
     (case captured_hidden of
        None \<Rightarrow> run_bind (run_ensure (\<not> capture_requested) ''capture was requested but no hidden states were returned'') (\<lambda>_. run_ok [])
      | Some hidden \<Rightarrow>
          run_bind (run_ensure capture_requested ''hidden states were returned without a capture request'') (\<lambda>_.
          run_bind (get_dflash ''DFlash prefill context record requested without DFlash'') (\<lambda>_.
          run_bind (run_ensure (dv_rows D hidden = sum_list (map pi_chunk_tokens requests)) ''captured hidden rows do not match'') (\<lambda>_.
          capture_loop D hidden 0 requests))))"

section \<open>Capture during verify\<close>

definition record_verified :: "('g, 'h, 'd) device \<Rightarrow> 'h \<Rightarrow> usize \<Rightarrow> verify_item \<Rightarrow> verify_result \<Rightarrow> (('g, 'h, 'd) lane, unit) run" where
  "record_verified D hidden token_offset r v =
     run_bind (run_ensure (vi_id r = vr_id v) ''DFlash verify result does not match request'') (\<lambda>_.
     run_bind (get_dflash ''DFlash verify context record requested without DFlash'') (\<lambda>df.
     case df_requests df (vi_id r) of
       None \<Rightarrow> run_err ''missing DFlash state after verify''
     | Some s \<Rightarrow>
         let out = df\<lparr>df_requests := (df_requests df)(vi_id r := None)\<rparr> in
         run_bind (put_dflash out) (\<lambda>_.
         run_bind (gpu (dv_append_context D hidden token_offset (length (vr_accepted_tokens v)) s)) (\<lambda>s'.
         put_dflash (out\<lparr>df_requests := (df_requests out)(vi_id r \<mapsto> s'),
           df_verified_draft_tokens := df_verified_draft_tokens df + saturating_sub (length (vi_token_ids r)) 1,
           df_accepted_draft_tokens := df_accepted_draft_tokens df + vr_matched_draft_tokens v\<rparr>)))))"

fun record_verified_loop :: "('g, 'h, 'd) device \<Rightarrow> 'h \<Rightarrow> usize \<Rightarrow> (verify_item \<times> verify_result) list \<Rightarrow> (('g, 'h, 'd) lane, unit) run" where
  "record_verified_loop D hidden token_offset [] = run_ok ()"
| "record_verified_loop D hidden token_offset ((r, v) # rvs) =
     run_bind (record_verified D hidden token_offset r v) (\<lambda>_.
     record_verified_loop D hidden (token_offset + length (vi_token_ids r)) rvs)"

definition record_verify_dflash_context ::
  "('g, 'h, 'd) device \<Rightarrow> verify_item list \<Rightarrow> verify_result list \<Rightarrow> 'h \<Rightarrow> (('g, 'h, 'd) lane, unit) run" where
  "record_verify_dflash_context D requests results hidden =
     run_bind (get_dflash ''DFlash verify context record requested without DFlash'') (\<lambda>_.
     run_bind (run_ensure (length requests = length results) ''DFlash verify result count does not match'') (\<lambda>_.
     run_bind (run_ensure (dv_rows D hidden = span_total requests) ''DFlash verify captured hidden rows do not match'') (\<lambda>_.
     run_bind (record_verified_loop D hidden 0 (zip requests results)) (\<lambda>_.
     run_bind (get_dflash ''DFlash verify context record requested without DFlash'') (\<lambda>df.
     run_upd (\<lambda>l. case dv_auto_chains D (ln_gpu l) of
         None \<Rightarrow> l
       | Some _ \<Rightarrow> l\<lparr>ln_gpu := dv_auto_tick D (df_round_chains df)
           (sum_list (map (\<lambda>v. length (vr_accepted_tokens v)) results)) (ln_gpu l)\<rparr>))))))"

section \<open>Draft rounds\<close>

text \<open>Slices that panic past the end.\<close>

definition slice_from :: "usize \<Rightarrow> 'a list \<Rightarrow> 'a list option" where
  "slice_from k xs = (if k \<le> length xs then Some (drop k xs) else None)"

definition slice :: "usize \<Rightarrow> usize \<Rightarrow> 'a list \<Rightarrow> 'a list option" where
  "slice a b xs = (if a \<le> b \<and> b \<le> length xs then Some (take (b - a) (drop a xs)) else None)"

fun chains_loop :: "usize \<Rightarrow> usize \<Rightarrow> usize \<Rightarrow> usize list \<Rightarrow> usize list \<Rightarrow> usize \<Rightarrow> usize" where
  "chains_loop batch span knee_rows buckets [] best = best"
| "chains_loop batch span knee_rows buckets (c # cs) best =
     (let spans = batch * (1 + c) in
      if spans * span > knee_rows then best
      else chains_loop batch span knee_rows buckets cs (if spans \<in> set buckets then c else best))"

definition batch_adaptive_chains :: "usize \<Rightarrow> usize \<Rightarrow> usize \<Rightarrow> usize \<Rightarrow> usize list \<Rightarrow> usize" where
  "batch_adaptive_chains batch block_size knee_rows max_chains buckets =
     (if batch = 0 \<or> knee_rows = 0 \<or> max_chains = 0 then 0
      else chains_loop batch (block_size + 1) knee_rows buckets [1..<Suc max_chains] 0)"

definition select_hedged_requests :: "draft_item list \<Rightarrow> usize \<Rightarrow> usize \<Rightarrow> usize \<Rightarrow> usize \<Rightarrow> usize list" where
  "select_hedged_requests requests cap slots first_position block_size =
     take (min cap slots) (map fst (filter (\<lambda>(_, r). 2 \<le> dft_hedge_budget r \<and> first_position < min block_size (dft_hedge_budget r - 1))
       (zip [0..<length requests] requests)))"

definition hedge_pages_per_chain :: "usize \<Rightarrow> usize \<Rightarrow> usize" where
  "hedge_pages_per_chain block_size page_size = saturating_add (div_ceil block_size (max page_size 1)) 1"

text \<open>How many chains a round builds, and for how many requests at most.\<close>

definition ladder_plan :: "usize \<Rightarrow> usize option \<Rightarrow> usize \<Rightarrow> 'd dflash \<Rightarrow> usize list \<Rightarrow> usize \<times> usize" where
  "ladder_plan knee auto batch df positions =
     (if 0 < knee then (batch_adaptive_chains batch (df_block_size df) knee (length positions) batch_buckets, batch)
      else (case auto of Some c \<Rightarrow> min c (length positions) | None \<Rightarrow> length positions, df_hedge_cap df))"

definition ladder_slots :: "usize \<Rightarrow> usize \<Rightarrow> usize \<Rightarrow> usize" where
  "ladder_slots markov_max_batch batch n_chains =
     (if n_chains = 0 then 0 else min (markov_max_batch div n_chains) (saturating_sub (last batch_buckets) batch div n_chains))"

fun take_states :: "draft_item list \<Rightarrow> (request_id \<rightharpoonup> 'd) \<Rightarrow> (string + (request_id \<times> 'd) list) \<times> (request_id \<rightharpoonup> 'd)" where
  "take_states [] m = (Inr [], m)"
| "take_states (r # rs) m =
     (case m (dft_id r) of
        None \<Rightarrow> (Inl ''missing DFlash state'', m)
      | Some s \<Rightarrow>
          (case take_states rs (m(dft_id r := None)) of
             (Inl e, m1) \<Rightarrow> (Inl e, m1)
           | (Inr ss, m1) \<Rightarrow> (Inr ((dft_id r, s) # ss), m1)))"

text \<open>The ladder's rows, per hedged request one chain per branch position.\<close>

definition ladder_chains_of :: "usize \<Rightarrow> usize \<Rightarrow> token list \<Rightarrow> usize \<Rightarrow> token list list option" where
  "ladder_chains_of n_chains block_size ladder slot =
     those (map (\<lambda>j. let row = slot * n_chains + j in slice (row * block_size) ((row + 1) * block_size) ladder) [0..<n_chains])"

fun insert_hedge_blocks :: "draft_item list \<Rightarrow> usize \<Rightarrow> usize \<Rightarrow> token list \<Rightarrow> (usize \<times> usize) list \<Rightarrow>
    (request_id \<rightharpoonup> token list list) \<Rightarrow> (request_id \<rightharpoonup> token list list) option" where
  "insert_hedge_blocks requests n_chains block_size ladder [] m = Some m"
| "insert_hedge_blocks requests n_chains block_size ladder ((slot, i) # hs) m =
     (if i < length requests then
        (case ladder_chains_of n_chains block_size ladder slot of
           None \<Rightarrow> None
         | Some cs \<Rightarrow> insert_hedge_blocks requests n_chains block_size ladder hs (m(dft_id (requests ! i) \<mapsto> cs)))
      else None)"

text \<open>Request \<open>i\<close> owns block \<open>i\<close> of the samples; its span is the current token and the drafts.\<close>

definition draft_span :: "'d dflash \<Rightarrow> token list \<Rightarrow> usize \<Rightarrow> draft_item \<Rightarrow> (('g, 'h, 'd) lane, draft_result) run" where
  "draft_span df sampled i r =
     run_bind (run_opt (slice (i * df_block_size df) ((i + 1) * df_block_size df) sampled)) (\<lambda>block.
     run_bind (run_opt (slice_from (if df_anchor_first df then 0 else 1) block)) (\<lambda>drafts.
     run_bind (run_ensure (drafts \<noteq> []) ''draft block produced no draft tokens'') (\<lambda>_.
     run_ok \<lparr>dfr_id = dft_id r, dfr_token_ids = dft_current_token r # drafts\<rparr>)))"

definition propose_tokens :: "('g, 'h, 'd) device \<Rightarrow> usize \<Rightarrow> draft_item list \<Rightarrow> 'd dflash \<Rightarrow> 'h \<Rightarrow> (('g, 'h, 'd) lane, token list \<times> 'd dflash) run" where
  "propose_tokens D knee requests df logits =
     run_bind (run_get ln_gpu) (\<lambda>g.
     let current = map dft_current_token requests; bs = df_block_size df;
         positions = (if 0 < df_hedge_cap df then df_hedge_branch_positions df else []);
         (n_chains, round_cap) = ladder_plan knee (dv_auto_chains D g) (length requests) df positions;
         hedged = select_hedged_requests requests round_cap (ladder_slots (dv_markov_max_batch D g) (length requests) n_chains)
           (case positions of [] \<Rightarrow> usize_max | p # _ \<Rightarrow> p) bs;
         hedging = (0 < n_chains \<and> hedged \<noteq> []);
         df1 = df\<lparr>df_hedge_blocks := Map.empty, df_round_chains := (if hedging then n_chains else 0)\<rparr> in
     run_bind (put_dflash df1) (\<lambda>_.
     if df_markov_head df then
       (if hedging then
          run_bind (gpu (dv_markov_runners D current positions)) (\<lambda>chain_a.
          run_bind (gpu (dv_markov_ladder D chain_a (map of_nat hedged) (take n_chains positions))) (\<lambda>ladder.
          run_bind (run_opt (insert_hedge_blocks requests n_chains bs ladder (zip [0..<length hedged] hedged) Map.empty)) (\<lambda>blocks.
          let df2 = df1\<lparr>df_hedge_blocks := blocks\<rparr> in
          run_bind (put_dflash df2) (\<lambda>_. run_ok (chain_a, df2)))))
        else run_bind (gpu (dv_markov_tokens D current)) (\<lambda>ts. run_ok (ts, df1)))
     else
       run_bind (select_step_tokens D logits (replicate (dv_rows D logits) default_sampling_params) 0) (\<lambda>ts. run_ok (ts, df1))))"

definition execute_dflash_draft :: "('g, 'h, 'd) device \<Rightarrow> usize \<Rightarrow> draft_item list \<Rightarrow> (('g, 'h, 'd) lane, draft_result list) run" where
  "execute_dflash_draft D knee requests =
     run_bind (run_ensure (requests \<noteq> []) ''DFlash draft requested without active requests'') (\<lambda>_.
     run_bind (get_dflash ''DFlash draft requested but DFlash is not loaded'') (\<lambda>df.
     let (taken, rest) = take_states requests (df_requests df); df0 = df\<lparr>df_requests := rest\<rparr> in
     run_bind (put_dflash df0) (\<lambda>_.
     run_bind (run_res taken) (\<lambda>ss.
     run_bind (gpu (dv_draft_logits D (map dft_current_token requests) (map snd ss))) (\<lambda>(logits, states).
     run_bind (run_ensure (dv_rows D logits = length requests * df_block_size df) ''DFlash batched draft rows do not match'') (\<lambda>_.
     run_bind (propose_tokens D knee requests df0 logits) (\<lambda>(sampled, df1).
     run_bind (put_dflash (df1\<lparr>df_requests := map_upds (df_requests df1) (map fst ss) states\<rparr>)) (\<lambda>_.
     run_bind (run_ensure (length sampled = length requests * df_block_size df) ''DFlash batched draft sampled tokens do not match'') (\<lambda>_.
     run_map (\<lambda>(i, r). draft_span df sampled i r) (zip [0..<length requests] requests))))))))))"

definition drop_dflash_request :: "request_id \<Rightarrow> ('g, 'h, 'd) lane \<Rightarrow> ('g, 'h, 'd) lane" where
  "drop_dflash_request i l =
     (case ln_dflash l of
        None \<Rightarrow> l
      | Some df \<Rightarrow> l\<lparr>ln_dflash := Some (df\<lparr>df_requests := (df_requests df)(i := None)\<rparr>)\<rparr>)"

end
