(* ===== verification/Verify_Lane.thy ===== *)
theory Verify_Lane
  imports Dflash_Lane
begin

text \<open>
  The verify pass of a worker lane, \<open>executor.rs\<close>: the plain pass, and the hedged pass, which
  verifies a request's greedy chain together with alternative chains whose KV is written to scratch
  pages of the lane, and commits the chain the target accepts furthest.
\<close>

section \<open>Expanding the batch\<close>

text \<open>The batch with its hedge spans: per span the request it belongs to and its (page, scratch page) pairs.\<close>

record expansion =
  xp_items :: "verify_item list"
  xp_views :: "kv_view list"
  xp_spans :: "(usize \<times> (usize \<times> usize) list) list"
  xp_next_scratch :: usize

definition page_usize :: "i32 \<Rightarrow> usize" where
  "page_usize p = unat (scast p :: u64)"

definition max_verify_batch :: usize where
  "max_verify_batch = last batch_buckets"

text \<open>The tokens of a chain cut to the request's span; none when the chain adds nothing.\<close>

definition chain_ids :: "verify_item \<Rightarrow> token list list \<Rightarrow> token list \<Rightarrow> token list option" where
  "chain_ids r added drafts =
     (let ids = hd (vi_token_ids r) # take (length (vi_token_ids r) - 1) drafts in
      if length ids \<noteq> length (vi_token_ids r) \<or> tl ids = tl (vi_token_ids r) \<or> list_ex (\<lambda>prev. tl prev = tl ids) added
      then None else Some ids)"

fun hedge_chains :: "('g, 'h, 'd) device \<Rightarrow> usize \<Rightarrow> usize \<Rightarrow> usize \<Rightarrow> usize \<Rightarrow> verify_item \<Rightarrow> kv_view \<Rightarrow> usize \<Rightarrow>
    token list list \<Rightarrow> token list list \<Rightarrow> expansion \<Rightarrow> (('g, 'h, 'd) lane, expansion \<times> token list list) run" where
  "hedge_chains D page_size scratch_end drafts_start idx r v committed [] added xp = run_ok (xp, added)"
| "hedge_chains D page_size scratch_end drafts_start idx r v committed (block # blocks) added xp =
     (let first = committed div page_size; originals = drop first (kvw_page_indices v); next = xp_next_scratch xp in
      if length (xp_items xp) = max_verify_batch \<or> next + length originals > scratch_end then run_ok (xp, added)
      else run_bind (run_opt (slice_from drafts_start block)) (\<lambda>drafts.
        case chain_ids r added drafts of
          None \<Rightarrow> hedge_chains D page_size scratch_end drafts_start idx r v committed blocks added xp
        | Some ids \<Rightarrow>
            run_bind (if originals \<noteq> [] \<and> committed mod page_size \<noteq> 0 then gpu (dv_copy_page D (page_usize (hd originals)) next) else run_ok ()) (\<lambda>_.
            run_bind (run_opt (new_kv_view (take first (kvw_page_indices v) @ map of_nat [next..<next + length originals]) (kvw_seq_len v) page_size)) (\<lambda>view.
            hedge_chains D page_size scratch_end drafts_start idx r v committed blocks (added @ [ids])
              \<lparr>xp_items = xp_items xp @ [\<lparr>vi_id = vi_id r, vi_token_ids = ids, vi_params = vi_params r\<rparr>],
               xp_views = xp_views xp @ [view],
               xp_spans = xp_spans xp @ [(idx, zip (map page_usize originals) [next..<next + length originals])],
               xp_next_scratch = next + length originals\<rparr>))))"

text \<open>The committed length and the span's pages; a view shorter than its span panics.\<close>

definition committed_len :: "verify_item \<Rightarrow> kv_view \<Rightarrow> usize \<Rightarrow> usize option" where
  "committed_len r v page_size =
     (if length (vi_token_ids r) \<le> kvw_seq_len v \<and> (kvw_seq_len v - length (vi_token_ids r)) div page_size \<le> length (kvw_page_indices v)
      then Some (kvw_seq_len v - length (vi_token_ids r)) else None)"

fun hedge_requests :: "('g, 'h, 'd) device \<Rightarrow> 'd dflash \<Rightarrow> usize \<Rightarrow> usize \<Rightarrow> kv_view list \<Rightarrow> (usize \<times> verify_item) list \<Rightarrow> usize \<Rightarrow>
    expansion \<Rightarrow> (('g, 'h, 'd) lane, expansion) run" where
  "hedge_requests D df page_size scratch_end views [] hedged xp = run_ok xp"
| "hedge_requests D df page_size scratch_end views ((idx, r) # rest) hedged xp =
     (if hedged = df_hedge_cap df then run_ok xp
      else if \<not> is_greedy (vi_params r) \<or> length (vi_token_ids r) < 2
      then hedge_requests D df page_size scratch_end views rest hedged xp
      else (case df_hedge_blocks df (vi_id r) of
        None \<Rightarrow> hedge_requests D df page_size scratch_end views rest hedged xp
      | Some blocks \<Rightarrow>
          run_bind (run_opt (if idx < length views then Some (views ! idx) else None)) (\<lambda>v.
          run_bind (run_opt (committed_len r v page_size)) (\<lambda>committed.
          if length (kvw_page_indices v) - committed div page_size > hedge_pages_per_chain (df_block_size df) page_size
          then hedge_requests D df page_size scratch_end views rest hedged xp
          else run_bind (hedge_chains D page_size scratch_end (if df_anchor_first df then 0 else 1) idx r v committed blocks [] xp) (\<lambda>(xp1, added).
            hedge_requests D df page_size scratch_end views rest (if added \<noteq> [] then hedged + 1 else hedged) xp1)))))"

section \<open>Choosing the chains\<close>

text \<open>The verify error of an index out of range is a panic.\<close>

definition run_verified :: "verify_error + 'a \<Rightarrow> ('x, 'a) run" where
  "run_verified v = (case v of Inl IndexPanic \<Rightarrow> run_panic | Inl _ \<Rightarrow> run_err ''verify result does not match'' | Inr a \<Rightarrow> run_ok a)"

record 'h winners =
  wn_items :: "verify_item list"
  wn_results :: "verify_result list"
  wn_hidden :: 'h

fun pick_winners :: "('g, 'h, 'd) device \<Rightarrow> verify_item list \<Rightarrow> ((usize \<times> (usize \<times> usize) list) \<times> verify_item \<times> verify_result) list \<Rightarrow>
    usize \<Rightarrow> 'h winners \<Rightarrow> (('g, 'h, 'd) lane, 'h winners) run" where
  "pick_winners D requests [] b_row_offset w = run_ok w"
| "pick_winners D requests (((idx, replaced), item, res_b) # rest) b_row_offset w =
     (let span_len = length (vi_token_ids (requests ! idx)) in
      if length (vr_accepted_tokens (wn_results w ! idx)) < length (vr_accepted_tokens res_b) then
        run_bind (run_each (\<lambda>(orig, scratch_page). gpu (dv_copy_page D scratch_page orig)) replaced) (\<lambda>_.
        run_bind (gpu (dv_copy_rows D b_row_offset (span_total (take idx requests)) span_len (wn_hidden w))) (\<lambda>hidden.
        pick_winners D requests rest (b_row_offset + span_len)
          \<lparr>wn_items = (wn_items w)[idx := item], wn_results = (wn_results w)[idx := res_b], wn_hidden = hidden\<rparr>))
      else pick_winners D requests rest (b_row_offset + span_len) w)"

section \<open>The verify pass\<close>

text \<open>One committed token per row, each row under the parameters of its request.\<close>

definition verify_rows :: "verify_item list \<Rightarrow> sampling_params list" where
  "verify_rows items = concat (map (\<lambda>r. replicate (length (vi_token_ids r)) (vi_params r)) items)"

definition verify_forward :: "('g, 'h, 'd) device \<Rightarrow> verify_item list \<Rightarrow> kv_view list \<Rightarrow> u64 \<Rightarrow> (('g, 'h, 'd) lane, verify_result list \<times> 'h) run" where
  "verify_forward D items views sample_seed =
     run_bind (gpu (dv_verify_forward D (map vi_token_ids items) views)) (\<lambda>(logits, hidden).
     run_bind (select_step_tokens D logits (verify_rows items) sample_seed) (\<lambda>target.
     run_bind (run_verified (build_verify_results items target)) (\<lambda>results. run_ok (results, hidden))))"

definition try_execute_hedged_verify ::
  "('g, 'h, 'd) device \<Rightarrow> verify_item list \<Rightarrow> kv_view list \<Rightarrow> u64 \<Rightarrow> (('g, 'h, 'd) lane, verify_result list option) run" where
  "try_execute_hedged_verify D requests views sample_seed =
     run_bind (run_get (\<lambda>l. l)) (\<lambda>l.
     case ln_dflash l of
       None \<Rightarrow> run_ok None
     | Some df \<Rightarrow>
         if df_hedge_cap df = 0 \<or> ln_buffer_blocks l = ln_total_blocks l \<or> \<not> df_markov_head df then run_ok None
         else
           run_bind (hedge_requests D df (ln_page_size l) (ln_buffer_blocks l) views (zip [0..<length requests] requests) 0
             \<lparr>xp_items = requests, xp_views = views, xp_spans = [], xp_next_scratch = ln_total_blocks l\<rparr>) (\<lambda>xp.
           if xp_spans xp = [] then run_ok None
           else
             run_bind (verify_forward D (xp_items xp) (xp_views xp) sample_seed) (\<lambda>(results, hidden).
             let n = length requests in
             run_bind (pick_winners D requests (zip (xp_spans xp) (zip (drop n (xp_items xp)) (drop n results))) (span_total requests)
               \<lparr>wn_items = requests, wn_results = take n results, wn_hidden = hidden\<rparr>) (\<lambda>w.
             run_bind (record_verify_dflash_context D (wn_items w) (wn_results w) (dv_set_rows D (span_total requests) (wn_hidden w))) (\<lambda>_.
             run_ok (Some (wn_results w)))))))"

definition verify_page_capacity :: "('g, 'h, 'd) lane \<Rightarrow> 'd dflash \<Rightarrow> usize" where
  "verify_page_capacity l df =
     saturating_mul (ln_total_blocks l)
       (saturating_add (if df_hedge_cap df = 0 then 0 else min (length (df_hedge_branch_positions df)) (max_verify_batch - 1)) 1)"

definition plain_verify :: "('g, 'h, 'd) device \<Rightarrow> verify_item list \<Rightarrow> kv_view list \<Rightarrow> u64 \<Rightarrow> (('g, 'h, 'd) lane, verify_result list) run" where
  "plain_verify D requests views sample_seed =
     run_bind (verify_forward D requests views sample_seed) (\<lambda>(results, hidden).
     run_bind (record_verify_dflash_context D requests results hidden) (\<lambda>_. run_ok results))"

definition execute_dflash_verify :: "('g, 'h, 'd) device \<Rightarrow> verify_item list \<Rightarrow> kv_view list \<Rightarrow> u64 \<Rightarrow> (('g, 'h, 'd) lane, verify_result list) run" where
  "execute_dflash_verify D requests views sample_seed =
     run_bind (get_dflash ''DFlash verify requested but no draft model is loaded'') (\<lambda>df.
     run_bind (run_get (\<lambda>l. l)) (\<lambda>l.
     run_bind (if ln_verify_bufs l then run_ok ()
       else run_bind (gpu (dv_new_verify_bufs D max_verify_batch (df_block_size df + (if df_anchor_first df then 1 else 0)) (verify_page_capacity l df)))
         (\<lambda>_. run_upd (\<lambda>l. l\<lparr>ln_verify_bufs := True\<rparr>))) (\<lambda>_.
     if 0 < df_hedge_cap df then
       run_bind (try_execute_hedged_verify D requests views sample_seed) (\<lambda>hedged.
       case hedged of
         Some results \<Rightarrow> run_ok results
       | None \<Rightarrow>
           run_bind (run_upd (\<lambda>l. l\<lparr>ln_dflash := map_option (\<lambda>df. df\<lparr>df_round_chains := 0\<rparr>) (ln_dflash l)\<rparr>)) (\<lambda>_.
           plain_verify D requests views sample_seed))
     else plain_verify D requests views sample_seed)))"

section \<open>What the expansion holds\<close>

text \<open>
  The greedy spans first, then one hedge span per entry, each for a request of the batch and as long
  as its span; the scratch pages are handed out one after the other.
\<close>

definition span_fits :: "verify_item list \<Rightarrow> usize \<times> (usize \<times> usize) list \<Rightarrow> verify_item \<Rightarrow> bool" where
  "span_fits requests span it \<longleftrightarrow> fst span < length requests \<and> vi_id it = vi_id (requests ! fst span) \<and>
     vi_params it = vi_params (requests ! fst span) \<and> length (vi_token_ids it) = length (vi_token_ids (requests ! fst span))"

definition expansion_ok :: "verify_item list \<Rightarrow> usize \<Rightarrow> usize \<Rightarrow> expansion \<Rightarrow> bool" where
  "expansion_ok requests base scratch_end xp \<longleftrightarrow>
     (\<exists>extra. xp_items xp = requests @ extra \<and> list_all2 (span_fits requests) (xp_spans xp) extra) \<and>
     concat (map (map snd \<circ> snd) (xp_spans xp)) = [base..<xp_next_scratch xp] \<and> base \<le> xp_next_scratch xp \<and>
     (xp_spans xp \<noteq> [] \<longrightarrow> xp_next_scratch xp \<le> scratch_end)"

lemma chain_idsD:
  "chain_ids r added drafts = Some ids \<Longrightarrow> length ids = length (vi_token_ids r)"
  by (auto simp: chain_ids_def Let_def split: if_splits)

lemma hedge_chains_ok:
  "hedge_chains D ps fin ds idx r v committed blocks added xp l = Some (Inr (xp', added'), l') \<Longrightarrow>
    expansion_ok requests base fin xp \<Longrightarrow> idx < length requests \<Longrightarrow> r = requests ! idx \<Longrightarrow> expansion_ok requests base fin xp'"
proof (induction D ps fin ds idx r v committed blocks added xp arbitrary: l rule: hedge_chains.induct)
  case (2 D ps fin ds idx r v committed block blocks added xp)
  let ?first = "committed div ps" let ?orig = "drop ?first (kvw_page_indices v)" let ?next = "xp_next_scratch xp"
  show ?case
  proof (cases "length (xp_items xp) = max_verify_batch \<or> ?next + length ?orig > fin")
    case True
    thus ?thesis using "2.prems" by (auto simp: Let_def run_simps)
  next
    case F: False
    then obtain drafts where d: "slice_from ds block = Some drafts"
      using "2.prems"(1) by (auto simp: Let_def run_simps)
    show ?thesis
    proof (cases "chain_ids r added drafts")
      case None
      thus ?thesis
        using "2.prems" F d by (auto simp: Let_def run_simps intro: "2.IH"(1) [OF refl refl refl])
    next
      case (Some ids)
      let ?xp = "\<lambda>view. \<lparr>xp_items = xp_items xp @ [\<lparr>vi_id = vi_id r, vi_token_ids = ids, vi_params = vi_params r\<rparr>],
               xp_views = xp_views xp @ [view],
               xp_spans = xp_spans xp @ [(idx, zip (map page_usize ?orig) [?next..<?next + length ?orig])],
               xp_next_scratch = ?next + length ?orig\<rparr>"
      have ok: "expansion_ok requests base fin (?xp view)" for view
      proof -
        obtain extra where e: "xp_items xp = requests @ extra" "list_all2 (span_fits requests) (xp_spans xp) extra"
          using "2.prems"(2) by (auto simp: expansion_ok_def)
        have "list_all2 (span_fits requests) (xp_spans (?xp view))
            (extra @ [\<lparr>vi_id = vi_id r, vi_token_ids = ids, vi_params = vi_params r\<rparr>])"
          using e(2) "2.prems"(3,4) chain_idsD [OF Some] by (auto simp: span_fits_def intro!: list_all2_appendI)
        moreover have "[base..<?next] @ [?next..<?next + length ?orig] = [base..<?next + length ?orig]"
          using "2.prems"(2) by (simp add: expansion_ok_def upt_add_eq_append [symmetric])
        ultimately show ?thesis
          using "2.prems"(2) e(1) F by (auto simp: expansion_ok_def)
      qed
      show ?thesis
        using "2.prems" F d Some
        by (auto simp: Let_def run_simps intro: "2.IH"(2) [OF refl refl refl _ _ _ ok])
    qed
  qed
qed (auto simp: run_simps)

lemma hedge_requests_ok:
  assumes "hedge_requests D df ps fin views irs hedged xp l = Some (Inr xp', l')" and "expansion_ok requests base fin xp"
    and "\<forall>(i, r) \<in> set irs. i < length requests \<and> r = requests ! i"
  shows "expansion_ok requests base fin xp'"
  using assms
proof (induction irs arbitrary: hedged xp l)
  case (Cons ir irs)
  obtain i r where ir: "ir = (i, r)" "i < length requests" "r = requests ! i"
    using Cons.prems(3) by (cases ir) auto
  have step: "expansion_ok requests base fin xp'"
    if "hedge_requests D df ps fin views irs n yp k = Some (Inr xp', l')" "expansion_ok requests base fin yp" for n yp k
    by (rule Cons.IH [OF that]) (use Cons.prems(3) in simp)
  show ?case
    using Cons.prems(1,2) ir
    by (auto simp: run_simps split: if_split_asm option.split_asm prod.split_asm intro: step step [OF _ hedge_chains_ok])
qed (auto simp: run_simps)

section \<open>What a verify pass answers\<close>

lemma run_verified_Inr [run_simps]: "run_verified v l = Some (Inr a, l') \<longleftrightarrow> v = Inr a \<and> l' = l"
  by (auto simp: run_verified_def run_panic_def run_err_def run_ok_def split: sum.splits verify_error.splits)

lemma verify_forward_fits:
  assumes "verify_forward D items views sample_seed l = Some (Inr (results, hidden), l')"
  shows "list_all2 verify_fits items results"
  using assms build_verify_results_exact by (fastforce simp: verify_forward_def run_simps split: prod.split_asm)

text \<open>The winners: an answer to every request, at least as long as the greedy chain's.\<close>

lemma pick_winners_fits:
  assumes "pick_winners D requests spans off w l = Some (Inr w', l')"
    and "list_all2 verify_fits requests (wn_results w)" and "length (wn_items w) = length requests"
    and "\<forall>(span, it, v) \<in> set spans. span_fits requests span it \<and> verify_fits it v"
  shows "list_all2 verify_fits requests (wn_results w') \<and>
    list_all2 (\<lambda>a b. length (vr_accepted_tokens a) \<le> length (vr_accepted_tokens b)) (wn_results w) (wn_results w')"
  using assms
proof (induction spans arbitrary: off w l)
  case Nil
  thus ?case by (auto simp: run_simps intro: list_all2_refl)
next
  case (Cons s spans)
  obtain idx replaced it v where s: "s = ((idx, replaced), it, v)" by (cases s) auto
  have f: "idx < length requests" "span_fits requests (idx, replaced) it" "verify_fits it v"
    using Cons.prems(4) s by (auto simp: span_fits_def)
  show ?case
  proof (cases "length (vr_accepted_tokens (wn_results w ! idx)) < length (vr_accepted_tokens v)")
    case False
    thus ?thesis
      using Cons.IH [of "off + length (vi_token_ids (requests ! idx))" w l] Cons.prems s by (auto simp: Let_def)
  next
    case True
    let ?rs = "(wn_results w)[idx := v]"
    have n: "length (wn_results w) = length requests"
      using Cons.prems(2) by (simp add: list_all2_lengthD)
    have "verify_fits (requests ! idx) v"
      using f(2,3) by (simp add: verify_fits_def span_fits_def)
    hence fits: "list_all2 verify_fits requests ?rs"
      using Cons.prems(2) list_all2_update_cong [of verify_fits requests "wn_results w" "requests ! idx" v idx] by simp
    have up: "list_all2 (\<lambda>a b. length (vr_accepted_tokens a) \<le> length (vr_accepted_tokens b)) (wn_results w) ?rs"
      unfolding list_all2_conv_all_nth
    proof (intro conjI allI impI)
      fix i assume "i < length (wn_results w)"
      thus "length (vr_accepted_tokens (wn_results w ! i)) \<le> length (vr_accepted_tokens (?rs ! i))"
        using True by (cases "i = idx") simp_all
    qed simp
    obtain hidden k where k: "pick_winners D requests spans (off + length (vi_token_ids (requests ! idx)))
        \<lparr>wn_items = (wn_items w)[idx := it], wn_results = ?rs, wn_hidden = hidden\<rparr> k = Some (Inr w', l')"
      using Cons.prems(1) s True by (auto simp: Let_def run_simps)
    have "list_all2 verify_fits requests (wn_results w') \<and>
        list_all2 (\<lambda>a b. length (vr_accepted_tokens a) \<le> length (vr_accepted_tokens b)) ?rs (wn_results w')"
      using Cons.IH [OF k] fits Cons.prems(3,4) by simp
    thus ?thesis
      using list_all2_trans [OF _ up, of "\<lambda>a b. length (vr_accepted_tokens a) \<le> length (vr_accepted_tokens b)"
          "\<lambda>a b. length (vr_accepted_tokens a) \<le> length (vr_accepted_tokens b)" "wn_results w'"] by force
  qed
qed

lemma hedged_fits:
  assumes "try_execute_hedged_verify D requests views sample_seed l = Some (Inr (Some results), l')"
  shows "list_all2 verify_fits requests results"
proof -
  obtain df xp l1 all hidden l2 w l3 where
      xp: "hedge_requests D df (ln_page_size l) (ln_buffer_blocks l) views (zip [0..<length requests] requests) 0
        \<lparr>xp_items = requests, xp_views = views, xp_spans = [], xp_next_scratch = ln_total_blocks l\<rparr> l = Some (Inr xp, l1)"
    and f: "verify_forward D (xp_items xp) (xp_views xp) sample_seed l1 = Some (Inr (all, hidden), l2)"
    and w: "pick_winners D requests (zip (xp_spans xp) (zip (drop (length requests) (xp_items xp)) (drop (length requests) all)))
        (span_total requests) \<lparr>wn_items = requests, wn_results = take (length requests) all, wn_hidden = hidden\<rparr> l2 = Some (Inr w, l3)"
    and r: "results = wn_results w"
    using assms by (auto simp: try_execute_hedged_verify_def run_simps Let_def split: option.split_asm if_split_asm prod.split_asm)
  have "expansion_ok requests (ln_total_blocks l) (ln_buffer_blocks l) xp"
    by (rule hedge_requests_ok [OF xp]) (auto simp: expansion_ok_def set_zip)
  then obtain extra where e: "xp_items xp = requests @ extra" "list_all2 (span_fits requests) (xp_spans xp) extra"
    by (auto simp: expansion_ok_def)
  obtain as bs where ab: "all = as @ bs" "list_all2 verify_fits requests as" "list_all2 verify_fits extra bs"
    using verify_forward_fits [OF f] by (auto simp: e(1) list_all2_append1)
  have n: "length as = length requests" "length bs = length extra"
    using ab(2,3) by (simp_all add: list_all2_lengthD)
  have "\<forall>(span, it, v) \<in> set (zip (xp_spans xp) (zip extra bs)). span_fits requests span it \<and> verify_fits it v"
    using e(2) ab(3) by (auto simp: set_zip list_all2_conv_all_nth)
  thus ?thesis
    using pick_winners_fits [OF w] ab(2) n by (auto simp: e(1) ab(1) r)
qed

lemma dflash_verify_fits:
  assumes "execute_dflash_verify D requests views sample_seed l = Some (Inr results, l')"
  shows "list_all2 verify_fits requests results"
proof -
  have "list_all2 verify_fits requests results" if "plain_verify D requests views sample_seed k = Some (Inr results, l')" for k
    using that verify_forward_fits by (fastforce simp: plain_verify_def run_simps split: prod.split_asm)
  thus ?thesis
    using assms hedged_fits
    by (fastforce simp: execute_dflash_verify_def run_simps split: option.split_asm if_split_asm)
qed

text \<open>
  C11: A verify pass, hedged or not, answers every request of the step in order, with at least one
  and at most as many tokens as the request's span has. Whatever chains the hedge added and
  whichever of them won, no request gets the answer of another.
\<close>

theorem dflash_verify_answers:
  assumes "execute_dflash_verify D requests views sample_seed l = Some (Inr results, l')"
  shows "list_all2 verify_fits requests results"
  by (rule dflash_verify_fits [OF assms])

text \<open>
  C12: The hedge writes only to its own scratch pages. The scratch pages of all hedge spans of a
  verify pass are pairwise distinct pages of the KV buffer behind the pool, so no span writes a page
  of the pool or of another span before a winner is copied back.
\<close>

theorem hedge_scratch_disjoint:
  assumes "hedge_requests D df page_size (ln_buffer_blocks l) views (zip [0..<length requests] requests) 0
      \<lparr>xp_items = requests, xp_views = views, xp_spans = [], xp_next_scratch = ln_total_blocks l\<rparr> l = Some (Inr xp, l')"
  shows "distinct (concat (map (map snd \<circ> snd) (xp_spans xp))) \<and>
    set (concat (map (map snd \<circ> snd) (xp_spans xp))) \<subseteq> {ln_total_blocks l..<ln_buffer_blocks l}"
proof -
  have "expansion_ok requests (ln_total_blocks l) (ln_buffer_blocks l) xp"
    by (rule hedge_requests_ok [OF assms]) (auto simp: expansion_ok_def set_zip)
  thus ?thesis
    by (cases "xp_spans xp = []") (auto simp: expansion_ok_def simp del: set_concat set_map)
qed

end
