(* ===== verification/Qwen3_Lane.thy ===== *)
theory Qwen3_Lane
  imports Verify_Lane
begin

text \<open>
  A worker lane, \<open>pegainfer-qwen3/src/executor.rs\<close>: the commands the executor sends to its rank
  workers, what a lane answers to each, and the step that runs a command on every rank.
\<close>

section \<open>Items\<close>

definition item_slice :: "prefill_item \<Rightarrow> token list option" where
  "item_slice r = slice (pi_chunk_start r) (pi_chunk_start r + pi_chunk_tokens r) (pi_prompt_tokens r)"

definition is_final_chunk :: "prefill_item \<Rightarrow> bool" where
  "is_final_chunk r \<longleftrightarrow> pi_chunk_start r + pi_chunk_tokens r = length (pi_prompt_tokens r)"

definition nth_opt :: "'a list \<Rightarrow> usize \<Rightarrow> 'a option" where
  "nth_opt xs i = (if i < length xs then Some (xs ! i) else None)"

section \<open>Results\<close>

text \<open>\<open>vec![None; n]\<close> with the given entries set.\<close>

definition scatter :: "usize \<Rightarrow> (usize \<times> 'a) list \<Rightarrow> 'a option list" where
  "scatter n entries = foldl (\<lambda>xs (i, a). xs[i := Some a]) (replicate n None) entries"

definition positions_of :: "('a \<Rightarrow> bool) \<Rightarrow> 'a list \<Rightarrow> usize list" where
  "positions_of p xs = filter (\<lambda>i. p (xs ! i)) [0..<length xs]"

definition picked_request :: "token list \<Rightarrow> usize \<Rightarrow> usize \<Rightarrow> logprob_request option" where
  "picked_request tokens row k = map_option (\<lambda>t. \<lparr>lr_row = row, lr_picked = t, lr_top_k = k\<rparr>) (nth_opt tokens row)"

definition gather_decode_logprobs :: "('g, 'h, 'd) device \<Rightarrow> decode_item list \<Rightarrow> 'h \<Rightarrow> usize \<Rightarrow> token list \<Rightarrow>
    (('g, 'h, 'd) lane, token_logprob option list) run" where
  "gather_decode_logprobs D requests logits row_offset tokens =
     (let wanted = positions_of (\<lambda>r. 0 < di_logprobs r) requests in
      run_bind (run_opt (those (map (\<lambda>i. picked_request tokens (row_offset + i) (di_logprobs (requests ! i))) wanted))) (\<lambda>lps.
      run_bind (gpu (dv_token_logprobs D logits lps)) (\<lambda>results.
      run_ok (scatter (length requests) (zip wanted results)))))"

text \<open>The prompt positions whose logprobs an echo request asks for.\<close>

fun prompt_requests :: "usize \<Rightarrow> prefill_item list \<Rightarrow> logprob_request list" where
  "prompt_requests token_offset [] = []"
| "prompt_requests token_offset (r # rs) =
     (if pi_echo r then map (\<lambda>j. \<lparr>lr_row = token_offset + j - 1, lr_picked = pi_prompt_tokens r ! j, lr_top_k = pi_logprobs r\<rparr>)
        [1..<length (pi_prompt_tokens r)] else []) @
     prompt_requests (token_offset + pi_chunk_tokens r) rs"

text \<open>\<open>next()\<close>, \<open>n\<close> times.\<close>

definition take_next :: "usize \<Rightarrow> 'a list \<Rightarrow> 'a option list" where
  "take_next n xs = map (nth_opt xs) [0..<n]"

text \<open>The prompt logprobs of one request and what is left of the batch's results.\<close>

definition echo_logprobs :: "bool \<Rightarrow> prefill_item \<Rightarrow> token_logprob list option \<Rightarrow>
    token_logprob option list option \<times> token_logprob list option" where
  "echo_logprobs compute r results =
     (let n = length (pi_prompt_tokens r) in
      if \<not> pi_echo r then (None, results)
      else if \<not> compute then (Some (replicate n None), results)
      else (case results of
          Some lps \<Rightarrow> (Some (None # take_next (n - 1) lps), Some (drop (n - 1) lps))
        | None \<Rightarrow> (Some (replicate n None), None)))"

fun prefill_outputs :: "bool \<Rightarrow> (usize \<times> prefill_item) list \<Rightarrow> token list \<Rightarrow> token_logprob option list \<Rightarrow> token_logprob list option \<Rightarrow>
    prefill_request_result list option" where
  "prefill_outputs compute [] tokens first_logprobs results = Some []"
| "prefill_outputs compute ((i, r) # rs) tokens first_logprobs results =
     (case (nth_opt tokens i, echo_logprobs compute r results) of
        (None, _) \<Rightarrow> None
      | (Some t, prompt_logprobs, rest) \<Rightarrow>
          map_option (Cons \<lparr>pq_id = pi_id r, pq_first_token = t, pq_first_token_logprob = first_logprobs ! i,
            pq_prompt_logprobs = prompt_logprobs, pq_cached_tokens = pi_cached_tokens r, pq_completed = is_final_chunk r,
            pq_prefill_pos = pi_chunk_start r + pi_chunk_tokens r\<rparr>)
          (prefill_outputs compute rs tokens first_logprobs rest))"

definition build_prefill_request_results :: "('g, 'h, 'd) device \<Rightarrow> prefill_item list \<Rightarrow> 'h \<Rightarrow> token list \<Rightarrow> 'h option \<Rightarrow> bool \<Rightarrow>
    (('g, 'h, 'd) lane, prefill_request_result list) run" where
  "build_prefill_request_results D requests logits tokens all_position_logits compute_prompt_logprobs =
     (let wanted = positions_of (\<lambda>r. is_final_chunk r \<and> 0 < pi_logprobs r) requests;
          prompts = (if compute_prompt_logprobs \<and> all_position_logits \<noteq> None then prompt_requests 0 requests else []) in
      run_bind (run_opt (those (map (\<lambda>i. picked_request tokens i (pi_logprobs (requests ! i))) wanted))) (\<lambda>lps.
      run_bind (gpu (dv_token_logprobs D logits lps)) (\<lambda>firsts.
      run_bind (case all_position_logits of
          Some all_logits \<Rightarrow> if prompts \<noteq> [] then run_bind (gpu (dv_token_logprobs D all_logits prompts)) (\<lambda>lps. run_ok (Some lps)) else run_ok None
        | None \<Rightarrow> run_ok None) (\<lambda>prompt_results.
      run_opt (prefill_outputs compute_prompt_logprobs (zip [0..<length requests] requests) tokens
        (scatter (length requests) (zip wanted firsts)) prompt_results)))))"

definition decode_outputs :: "decode_item list \<Rightarrow> usize \<Rightarrow> token list \<Rightarrow> token_logprob option list \<Rightarrow> decode_request_result list option" where
  "decode_outputs requests row_offset tokens logprobs =
     those (map (\<lambda>i. map_option (\<lambda>t. \<lparr>dr_id = di_id (requests ! i), dr_token = t, dr_logprob = logprobs ! i\<rparr>)
       (nth_opt tokens (row_offset + i))) [0..<length requests])"

definition build_decode_request_results :: "('g, 'h, 'd) device \<Rightarrow> decode_item list \<Rightarrow> 'h \<Rightarrow> usize \<Rightarrow> token list \<Rightarrow>
    (('g, 'h, 'd) lane, decode_request_result list) run" where
  "build_decode_request_results D requests logits row_offset tokens =
     run_bind (gather_decode_logprobs D requests logits row_offset tokens) (\<lambda>logprobs.
     run_opt (decode_outputs requests row_offset tokens logprobs))"

definition build_batch_decode_request_results :: "('g, 'h, 'd) device \<Rightarrow> decode_item list \<Rightarrow> u64 \<Rightarrow>
    (('g, 'h, 'd) lane, decode_request_result list) run" where
  "build_batch_decode_request_results D requests sample_seed =
     run_bind (run_get (\<lambda>l. dv_decode_logits D (ln_gpu l))) (\<lambda>logits.
     run_bind (gpu (dv_select_batch D logits (map di_params requests) sample_seed)) (\<lambda>tokens.
     build_decode_request_results D requests logits 0 tokens))"

section \<open>Commands\<close>

datatype step_command =
    StepPrefill "prefill_item list" "kv_view list" bool u64
  | StepDecode "decode_item list" "kv_view list" u64
  | StepUnified "prefill_item list" "kv_view list" "decode_item list" "kv_view list" u64
  | StepSplitConcurrent "prefill_item list" "kv_view list" "decode_item list" "kv_view list" u64
  | StepVerify "verify_item list" "kv_view list" u64
  | StepDraft "draft_item list"

datatype step_outcome =
    Ack
  | OutPrefill prefill_result
  | OutDecode "decode_request_result list"
  | OutUnified unified_result
  | OutSplitDecodeReady "decode_request_result list"
  | OutVerify "verify_result list"
  | OutDraft "draft_result list"

definition item_slices :: "prefill_item list \<Rightarrow> (('g, 'h, 'd) lane, token list list) run" where
  "item_slices requests = run_opt (those (map item_slice requests))"

definition lane_prefill :: "('g, 'h, 'd) device \<Rightarrow> prefill_item list \<Rightarrow> kv_view list \<Rightarrow> bool \<Rightarrow> u64 \<Rightarrow> bool \<Rightarrow> (('g, 'h, 'd) lane, step_outcome) run" where
  "lane_prefill D requests views echo sample_seed collect_result =
     run_bind (item_slices requests) (\<lambda>prompts.
     run_bind (run_get (\<lambda>l. lane_should_capture l requests)) (\<lambda>capture.
     run_bind (gpu (dv_batch_prefill D prompts views (map pi_lora_adapter requests) echo capture)) (\<lambda>(logits, all_logits, hidden).
     run_bind (record_prefill_dflash_context D requests capture hidden) (\<lambda>captured.
     if collect_result then
       run_bind (select_step_tokens D logits (map pi_params requests) sample_seed) (\<lambda>tokens.
       run_bind (build_prefill_request_results D requests logits tokens all_logits echo) (\<lambda>results.
       run_ok (OutPrefill \<lparr>prr_requests = results, prr_captured = captured\<rparr>)))
     else run_ok Ack))))"

definition lane_decode :: "('g, 'h, 'd) device \<Rightarrow> decode_item list \<Rightarrow> kv_view list \<Rightarrow> u64 \<Rightarrow> bool \<Rightarrow> (('g, 'h, 'd) lane, step_outcome) run" where
  "lane_decode D requests views sample_seed collect_result =
     run_bind (run_get (\<lambda>l. \<not> ln_tp_graph_enabled l \<or> ln_precapture_complete l)) (\<lambda>ready.
     run_bind (run_ensure ready ''TP decode with CUDA Graph requires the startup pre-capture sweep'') (\<lambda>_.
     run_bind (gpu (dv_batch_decode D (map di_token requests) views (map di_lora_adapter requests))) (\<lambda>_.
     if collect_result then
       run_bind (build_batch_decode_request_results D requests sample_seed) (\<lambda>results. run_ok (OutDecode results))
     else run_ok Ack)))"

definition lane_unified :: "('g, 'h, 'd) device \<Rightarrow> prefill_item list \<Rightarrow> kv_view list \<Rightarrow> decode_item list \<Rightarrow> kv_view list \<Rightarrow> u64 \<Rightarrow> bool \<Rightarrow>
    (('g, 'h, 'd) lane, step_outcome) run" where
  "lane_unified D prefills prefill_views decodes decode_views sample_seed collect_result =
     run_bind (item_slices prefills) (\<lambda>prompts.
     run_bind (gpu (dv_unified_step D prompts prefill_views (map pi_lora_adapter prefills) (map di_token decodes) decode_views
       (map di_lora_adapter decodes))) (\<lambda>logits.
     if collect_result then
       run_bind (select_step_tokens D logits (map pi_params prefills @ map di_params decodes) sample_seed) (\<lambda>tokens.
       run_bind (build_prefill_request_results D prefills logits tokens None False) (\<lambda>ps.
       run_bind (build_decode_request_results D decodes logits (length prefills) tokens) (\<lambda>ds.
       run_ok (OutUnified \<lparr>ur_prefill_requests = ps, ur_decode_requests = ds\<rparr>))))
     else run_ok Ack))"

definition lane_split_concurrent :: "('g, 'h, 'd) device \<Rightarrow> prefill_item list \<Rightarrow> kv_view list \<Rightarrow> decode_item list \<Rightarrow> kv_view list \<Rightarrow> u64 \<Rightarrow>
    (('g, 'h, 'd) lane, step_outcome) run" where
  "lane_split_concurrent D prefills prefill_views decodes decode_views sample_seed =
     run_bind (run_get ln_inflight_prefill) (\<lambda>inflight.
     run_bind (run_ensure (inflight = None) ''SplitConcurrent dispatched with an unresolved in-flight prefill'') (\<lambda>_.
     run_bind (item_slices prefills) (\<lambda>prompts.
     run_bind (gpu (dv_batch_prefill D prompts prefill_views (map pi_lora_adapter prefills) False False)) (\<lambda>(logits, _).
     run_bind (gpu (dv_batch_decode D (map di_token decodes) decode_views (map di_lora_adapter decodes))) (\<lambda>_.
     run_bind (build_batch_decode_request_results D decodes sample_seed) (\<lambda>results.
     run_bind (gpu (dv_record_event D)) (\<lambda>_.
     run_bind (run_upd (\<lambda>l. l\<lparr>ln_inflight_prefill := Some (prefills, logits, sample_seed)\<rparr>)) (\<lambda>_.
     run_ok (OutSplitDecodeReady results)))))))))"

fun execute_step_on_lane :: "('g, 'h, 'd) device \<Rightarrow> usize \<Rightarrow> step_command \<Rightarrow> bool \<Rightarrow> (('g, 'h, 'd) lane, step_outcome) run" where
  "execute_step_on_lane D knee (StepPrefill requests views echo sample_seed) collect = lane_prefill D requests views echo sample_seed collect"
| "execute_step_on_lane D knee (StepDecode requests views sample_seed) collect = lane_decode D requests views sample_seed collect"
| "execute_step_on_lane D knee (StepUnified ps pvs ds dvs sample_seed) collect = lane_unified D ps pvs ds dvs sample_seed collect"
| "execute_step_on_lane D knee (StepSplitConcurrent ps pvs ds dvs sample_seed) collect = lane_split_concurrent D ps pvs ds dvs sample_seed"
| "execute_step_on_lane D knee (StepVerify requests views sample_seed) collect =
     run_bind (execute_dflash_verify D requests views sample_seed) (\<lambda>results. run_ok (OutVerify results))"
| "execute_step_on_lane D knee (StepDraft requests) collect =
     run_bind (execute_dflash_draft D knee requests) (\<lambda>results. run_ok (OutDraft results))"

definition resolve_inflight_prefill :: "('g, 'h, 'd) device \<Rightarrow> (('g, 'h, 'd) lane, prefill_result) run" where
  "resolve_inflight_prefill D =
     run_bind (run_get ln_inflight_prefill) (\<lambda>inflight.
     case inflight of
       None \<Rightarrow> run_err ''no inflight prefill to resolve''
     | Some (requests, logits, sample_seed) \<Rightarrow>
         run_bind (run_upd (\<lambda>l. l\<lparr>ln_inflight_prefill := None\<rparr>)) (\<lambda>_.
         run_bind (select_step_tokens D logits (map pi_params requests) sample_seed) (\<lambda>tokens.
         run_bind (build_prefill_request_results D requests logits tokens None False) (\<lambda>results.
         run_ok \<lparr>prr_requests = results, prr_captured = []\<rparr>))))"

section \<open>Rank workers\<close>

text \<open>A worker thread owns its lane; after a panic in a command it answers nothing and takes no more.\<close>

record ('g, 'h, 'd) rank_worker =
  rw_lane :: "('g, 'h, 'd) lane"
  rw_alive :: bool

definition worker_call :: "(('g, 'h, 'd) lane, 'a) run \<Rightarrow> ('g, 'h, 'd) rank_worker \<Rightarrow> (string + 'a) \<times> ('g, 'h, 'd) rank_worker" where
  "worker_call f w =
     (if \<not> rw_alive w then (Inl ''worker channel closed'', w)
      else (case f (rw_lane w) of
          None \<Rightarrow> (Inl ''worker dropped the response'', w\<lparr>rw_alive := False\<rparr>)
        | Some (r, l) \<Rightarrow> (r, w\<lparr>rw_lane := l\<rparr>)))"

text \<open>The command is sent to every rank before any answer is awaited; sending stops at a closed channel.\<close>

fun dispatch :: "('g, 'h, 'd) device \<Rightarrow> usize \<Rightarrow> step_command \<Rightarrow> ('g, 'h, 'd) rank_worker list \<Rightarrow>
    (string + (string + step_outcome) list) \<times> ('g, 'h, 'd) rank_worker list" where
  "dispatch D knee step [] = (Inr [], [])"
| "dispatch D knee step (w # ws) =
     (if \<not> rw_alive w then (Inl ''worker channel closed'', w # ws)
      else let (r, w1) = worker_call (execute_step_on_lane D knee step False) w;
               (rs, ws1) = dispatch D knee step ws
           in (map_sum (\<lambda>e. e) (Cons r) rs, w1 # ws1))"

fun wait_for_step_ack :: "(string + step_outcome) list \<Rightarrow> string + unit" where
  "wait_for_step_ack [] = Inr ()"
| "wait_for_step_ack (Inl e # rs) = Inl e"
| "wait_for_step_ack (Inr Ack # rs) = wait_for_step_ack rs"
| "wait_for_step_ack (Inr out # rs) = Inl ''tensor-parallel worker returned unexpected payload''"

definition run_step :: "('g, 'h, 'd) device \<Rightarrow> usize \<Rightarrow> step_command \<Rightarrow> ('g, 'h, 'd) rank_worker \<Rightarrow> ('g, 'h, 'd) rank_worker list \<Rightarrow>
    (string + step_outcome) \<times> ('g, 'h, 'd) rank_worker \<times> ('g, 'h, 'd) rank_worker list" where
  "run_step D knee step primary workers =
     (if \<not> rw_alive primary then (Inl ''worker channel closed'', primary, workers)
      else let (out, primary1) = worker_call (execute_step_on_lane D knee step True) primary;
               (sent, workers1) = dispatch D knee step workers
           in (bind_res sent (\<lambda>acks. bind_res out (\<lambda>result. bind_res (wait_for_step_ack acks) (\<lambda>_. Inr result))), primary1, workers1))"

section \<open>What a lane answers\<close>

text \<open>The answer to a prefill item: its own id, where its prefill stands and whether it is done.\<close>

definition prefill_answers :: "prefill_item \<Rightarrow> prefill_request_result \<Rightarrow> bool" where
  "prefill_answers r v \<longleftrightarrow> pq_id v = pi_id r \<and> pq_completed v = is_final_chunk r \<and>
     pq_prefill_pos v = pi_chunk_start r + pi_chunk_tokens r \<and> pq_cached_tokens v = pi_cached_tokens r \<and>
     (pq_prompt_logprobs v \<noteq> None \<longleftrightarrow> pi_echo r)"

definition decode_answers :: "decode_item \<Rightarrow> decode_request_result \<Rightarrow> bool" where
  "decode_answers r v \<longleftrightarrow> dr_id v = di_id r"

definition draft_answers :: "draft_item \<Rightarrow> draft_result \<Rightarrow> bool" where
  "draft_answers r v \<longleftrightarrow> dfr_id v = dft_id r \<and> (\<exists>drafts. drafts \<noteq> [] \<and> dfr_token_ids v = dft_current_token r # drafts)"

lemma prefill_outputs_answer:
  "prefill_outputs compute irs tokens firsts results = Some vs \<Longrightarrow> list_all2 prefill_answers (map snd irs) vs"
proof (induction irs arbitrary: results vs)
  case (Cons ir irs)
  obtain i r where ir: "ir = (i, r)" by (cases ir)
  have "(fst (echo_logprobs compute r results) \<noteq> None) = pi_echo r"
    by (auto simp: echo_logprobs_def Let_def split: option.splits)
  thus ?case
    using Cons.prems Cons.IH ir
    by (auto simp: prefill_answers_def split: option.splits prod.splits)
qed simp

lemma build_prefill_answers:
  "build_prefill_request_results D requests logits tokens all compute l = Some (Inr vs, l') \<Longrightarrow> list_all2 prefill_answers requests vs"
  by (auto simp: build_prefill_request_results_def run_simps Let_def dest!: prefill_outputs_answer)

lemma those_Some: "those xs = Some ys \<longleftrightarrow> xs = map Some ys"
  by (induction xs arbitrary: ys) (auto split: option.splits)

lemma decode_outputs_answer:
  assumes "decode_outputs requests off tokens lps = Some vs"
  shows "list_all2 decode_answers requests vs"
proof -
  let ?f = "\<lambda>i. map_option (\<lambda>t. \<lparr>dr_id = di_id (requests ! i), dr_token = t, dr_logprob = lps ! i\<rparr>) (nth_opt tokens (off + i))"
  have e: "map ?f [0..<length requests] = map Some vs"
    using assms by (simp add: decode_outputs_def those_Some)
  have n: "length vs = length requests"
    using arg_cong [OF e, of length] by simp
  have "dr_id (vs ! i) = di_id (requests ! i)" if i: "i < length requests" for i
  proof -
    have "?f i = Some (vs ! i)"
      using arg_cong [OF e, of "\<lambda>xs. xs ! i"] i n by simp
    thus ?thesis by (cases "nth_opt tokens (off + i)") (auto dest!: sym [of _ "vs ! i"])
  qed
  thus ?thesis
    using n by (simp add: list_all2_conv_all_nth decode_answers_def)
qed

lemma build_decode_answers:
  "build_decode_request_results D requests logits off tokens l = Some (Inr vs, l') \<Longrightarrow> list_all2 decode_answers requests vs"
  "build_batch_decode_request_results D requests sample_seed l = Some (Inr vs, l') \<Longrightarrow> list_all2 decode_answers requests vs"
  by (auto simp: build_batch_decode_request_results_def build_decode_request_results_def run_simps dest!: decode_outputs_answer)

lemma draft_span_answers: "draft_span df sampled i r l = Some (Inr v, l') \<Longrightarrow> draft_answers r v"
  by (auto simp: draft_span_def run_simps draft_answers_def)

lemma draft_answers_all:
  assumes "execute_dflash_draft D knee requests l = Some (Inr vs, l')"
  shows "list_all2 draft_answers requests vs"
proof -
  obtain df sampled k where "run_map (\<lambda>(i, r). draft_span df sampled i r) (zip [0..<length requests] requests) k = Some (Inr vs, l')"
    using assms by (auto simp: execute_dflash_draft_def run_simps Let_def case_prod_unfold)
  hence "list_all2 (\<lambda>ir v. draft_answers (snd ir) v) (zip [0..<length requests] requests) vs"
    by (rule run_map_Inr) (auto dest: draft_span_answers split: prod.split_asm)
  thus ?thesis
    by (simp add: list_all2_conv_all_nth)
qed

text \<open>What a step on the primary lane answers.\<close>

fun step_answers :: "step_command \<Rightarrow> step_outcome \<Rightarrow> bool" where
  "step_answers (StepPrefill rs _ _ _) out \<longleftrightarrow> (\<exists>p. out = OutPrefill p \<and> list_all2 prefill_answers rs (prr_requests p))"
| "step_answers (StepDecode rs _ _) out \<longleftrightarrow> (\<exists>vs. out = OutDecode vs \<and> list_all2 decode_answers rs vs)"
| "step_answers (StepUnified ps _ ds _ _) out \<longleftrightarrow> (\<exists>u. out = OutUnified u \<and> list_all2 prefill_answers ps (ur_prefill_requests u) \<and>
     list_all2 decode_answers ds (ur_decode_requests u))"
| "step_answers (StepSplitConcurrent ps _ ds _ _) out \<longleftrightarrow> (\<exists>vs. out = OutSplitDecodeReady vs \<and> list_all2 decode_answers ds vs)"
| "step_answers (StepVerify rs _ _) out \<longleftrightarrow> (\<exists>vs. out = OutVerify vs \<and> list_all2 verify_fits rs vs)"
| "step_answers (StepDraft rs) out \<longleftrightarrow> (\<exists>vs. out = OutDraft vs \<and> list_all2 draft_answers rs vs)"

lemma lane_step_answers:
  assumes "execute_step_on_lane D knee step True l = Some (Inr out, l')"
  shows "step_answers step out"
  using assms
proof (cases step)
  case (StepVerify rs views sd)
  thus ?thesis
    using assms dflash_verify_fits by (fastforce simp: run_simps)
qed (auto simp: lane_prefill_def lane_decode_def lane_unified_def lane_split_concurrent_def run_simps split: prod.split_asm
    dest: build_prefill_answers build_decode_answers draft_answers_all)

section \<open>The in-flight prefill\<close>

lemma gpu_keeps [intro, simp]: "run_keeps ln_inflight_prefill (gpu f)"
  by (simp add: gpu_def run_keeps_on)

lemma put_keeps [intro, simp]: "run_keeps ln_inflight_prefill (put_dflash df)" "run_keeps ln_inflight_prefill (get_dflash e)"
  by (auto simp: put_dflash_def get_dflash_def intro!: run_keeps_upd run_keeps_bind split: option.splits)

lemma capture_keeps [intro, simp]: "run_keeps ln_inflight_prefill (capture_request D hidden off r)"
  unfolding capture_request_def Let_def by (auto intro!: run_keeps_bind split: option.splits)

lemma capture_loop_keeps [intro, simp]: "run_keeps ln_inflight_prefill (capture_loop D hidden off rs)"
  by (induction D hidden off rs rule: capture_loop.induct) (auto intro!: run_keeps_bind)

lemma record_prefill_keeps [intro, simp]: "run_keeps ln_inflight_prefill (record_prefill_dflash_context D rs c h)"
  unfolding record_prefill_dflash_context_def by (auto intro!: run_keeps_bind split: option.splits)

lemma select_keeps [intro, simp]: "run_keeps ln_inflight_prefill (select_step_tokens D logits params sd)"
  unfolding select_step_tokens_def by (auto intro!: run_keeps_bind)

lemma build_keeps [intro, simp]:
  "run_keeps ln_inflight_prefill (build_prefill_request_results D rs logits tokens all compute)"
  "run_keeps ln_inflight_prefill (build_decode_request_results D ds logits off tokens)"
  "run_keeps ln_inflight_prefill (build_batch_decode_request_results D ds sd)"
  unfolding build_prefill_request_results_def build_decode_request_results_def build_batch_decode_request_results_def
    gather_decode_logprobs_def Let_def
  by (auto intro!: run_keeps_bind split: option.splits)

lemma item_slices_keeps [intro, simp]: "run_keeps ln_inflight_prefill (item_slices rs)"
  by (simp add: item_slices_def)

lemma record_verified_keeps [intro, simp]: "run_keeps ln_inflight_prefill (record_verified D hidden off r v)"
  unfolding record_verified_def Let_def by (auto intro!: run_keeps_bind split: option.splits)

lemma record_verified_loop_keeps [intro, simp]: "run_keeps ln_inflight_prefill (record_verified_loop D hidden off rvs)"
  by (induction D hidden off rvs rule: record_verified_loop.induct) (auto intro!: run_keeps_bind)

lemma record_verify_keeps [intro, simp]: "run_keeps ln_inflight_prefill (record_verify_dflash_context D rs vs hidden)"
  unfolding record_verify_dflash_context_def by (auto intro!: run_keeps_bind run_keeps_upd split: option.splits)

lemma hedge_chains_keeps [intro, simp]:
  "run_keeps ln_inflight_prefill (hedge_chains D ps fin ds idx r v committed blocks added xp)"
  by (induction blocks arbitrary: added xp) (auto simp: Let_def intro!: run_keeps_bind split: option.splits)

lemma hedge_requests_keeps [intro, simp]: "run_keeps ln_inflight_prefill (hedge_requests D df ps fin views irs hedged xp)"
  by (induction irs arbitrary: hedged xp) (auto intro!: run_keeps_bind split: option.splits prod.splits)

lemma pick_winners_keeps [intro, simp]: "run_keeps ln_inflight_prefill (pick_winners D rs spans off w)"
  by (induction spans arbitrary: off w) (auto simp: Let_def intro!: run_keeps_bind run_keeps_each split: prod.splits)

lemma verify_forward_keeps [intro, simp]: "run_keeps ln_inflight_prefill (verify_forward D items views sd)"
  unfolding verify_forward_def run_verified_def
  by (auto intro!: run_keeps_bind split: prod.splits sum.splits verify_error.splits)

lemma hedged_keeps [intro, simp]: "run_keeps ln_inflight_prefill (try_execute_hedged_verify D rs views sd)"
  unfolding try_execute_hedged_verify_def Let_def by (auto intro!: run_keeps_bind split: option.splits prod.splits)

lemma verify_keeps [intro, simp]: "run_keeps ln_inflight_prefill (execute_dflash_verify D rs views sd)"
  unfolding execute_dflash_verify_def plain_verify_def
  by (auto intro!: run_keeps_bind run_keeps_upd split: option.splits prod.splits)

lemma draft_keeps [intro, simp]: "run_keeps ln_inflight_prefill (execute_dflash_draft D knee rs)"
  unfolding execute_dflash_draft_def propose_tokens_def draft_span_def Let_def
  by (auto intro!: run_keeps_bind run_keeps_map split: option.splits prod.splits)

text \<open>Only a split step changes the in-flight prefill, and only when it answers.\<close>

lemma lane_step_inflight:
  assumes "execute_step_on_lane D knee step c l = Some (r, l')"
  shows "ln_inflight_prefill l' = ln_inflight_prefill l \<or>
    (\<exists>ps pvs ds dvs sd logits out. step = StepSplitConcurrent ps pvs ds dvs sd \<and> ln_inflight_prefill l = None \<and>
       r = Inr out \<and> ln_inflight_prefill l' = Some (ps, logits, sd))"
proof (cases step)
  case (StepSplitConcurrent ps pvs ds dvs sd)
  show ?thesis
    using assms unfolding StepSplitConcurrent execute_step_on_lane.simps lane_split_concurrent_def
    by (auto simp: run_bind_Some run_simps run_get_def run_ensure_def run_upd_def run_ok_def run_err_def case_prod_unfold
        dest!: run_keepsD [OF gpu_keeps] run_keepsD [OF build_keeps(3)] run_keepsD [OF item_slices_keeps] split: if_split_asm)
next
  case (StepPrefill rs views echo sd)
  have "run_keeps ln_inflight_prefill (lane_prefill D rs views echo sd c)"
    unfolding lane_prefill_def by (auto intro!: run_keeps_bind split: prod.splits)
  thus ?thesis using assms StepPrefill run_keepsD by fastforce
next
  case (StepDecode rs views sd)
  have "run_keeps ln_inflight_prefill (lane_decode D rs views sd c)"
    unfolding lane_decode_def by (auto intro!: run_keeps_bind split: prod.splits)
  thus ?thesis using assms StepDecode run_keepsD by fastforce
next
  case (StepUnified ps pvs ds dvs sd)
  have "run_keeps ln_inflight_prefill (lane_unified D ps pvs ds dvs sd c)"
    unfolding lane_unified_def by (auto intro!: run_keeps_bind split: prod.splits)
  thus ?thesis using assms StepUnified run_keepsD by fastforce
next
  case (StepVerify rs views sd)
  have "run_keeps ln_inflight_prefill (run_bind (execute_dflash_verify D rs views sd) (\<lambda>results. run_ok (OutVerify results)))"
    by (auto intro!: run_keeps_bind)
  thus ?thesis using assms StepVerify run_keepsD by fastforce
next
  case (StepDraft rs)
  have "run_keeps ln_inflight_prefill (run_bind (execute_dflash_draft D knee rs) (\<lambda>results. run_ok (OutDraft results)))"
    by (auto intro!: run_keeps_bind)
  thus ?thesis using assms StepDraft run_keepsD by fastforce
qed

lemma split_starts_prefill:
  assumes "lane_split_concurrent D ps pvs ds dvs sd l = Some (Inr out, l')"
  shows "\<exists>logits. ln_inflight_prefill l' = Some (ps, logits, sd)"
  using assms by (auto simp: lane_split_concurrent_def run_simps case_prod_unfold)

lemma resolve_answers:
  assumes "resolve_inflight_prefill D l = Some (Inr p, l')" and "ln_inflight_prefill l = Some (rs, logits, sd)"
  shows "list_all2 prefill_answers rs (prr_requests p)"
  using assms by (auto simp: resolve_inflight_prefill_def run_simps dest: build_prefill_answers)

end
