(* ===== verification/Qwen3_Executor.thy ===== *)
theory Qwen3_Executor
  imports Qwen3_Lane Kv_World "HOL-Library.AList"
begin

text \<open>
  The executor of the Qwen3 model line on the scheduler thread, \<open>pegainfer-qwen3/src/executor.rs\<close>,
  \<open>executor/spec.rs\<close> and \<open>executor/remote_fetch.rs\<close>: which KV blocks each step schedules, which
  command goes to the lanes, what is committed when they answer, and the prefetch of prefixes from
  the host tier.

  A \<open>HashMap\<close> is an association list, whose order is the order of an iteration. What a dropped
  request, probe or reservation gives back to the pool is written out where the source drops it.
  The offload engine and the clock are functions of a record; the blocks the engine keeps alive for a
  save in flight are in \<open>qx_pins\<close>.
\<close>

section \<open>State\<close>

type_synonym lease = nat
type_synonym load_handle = nat

datatype query_view = QueryLoading | QueryReady "lease option" usize

record 'o offload_engine =
  oe_query :: "request_id \<Rightarrow> u8 list list \<Rightarrow> 'o \<Rightarrow> (string + query_view) \<times> 'o"
  oe_load :: "lease \<Rightarrow> i32 list \<Rightarrow> 'o \<Rightarrow> (string + load_handle) \<times> 'o"
  oe_release_lease :: "lease \<Rightarrow> 'o \<Rightarrow> 'o"
  oe_save :: "i32 list \<Rightarrow> u8 list list \<Rightarrow> 'o \<Rightarrow> 'o"
  oe_poll :: "load_handle \<Rightarrow> 'o \<Rightarrow> (string + unit) option \<times> 'o"
  oe_wait :: "load_handle \<Rightarrow> 'o \<Rightarrow> (string + unit) \<times> 'o"
  oe_now :: "'o \<Rightarrow> instant \<times> 'o"

text \<open>Everything the executor calls that is not its own.\<close>

record ('q, 'i, 'g, 'h, 'd, 'o) executor_env =
  en_index :: "'i index"
  en_tokens :: "'q token_sequence"
  en_salt :: "string option \<Rightarrow> string option \<Rightarrow> u64"
  en_device :: "('g, 'h, 'd) device"
  en_knee :: usize
  en_engine :: "'o offload_engine"
  en_lora_file :: "string \<Rightarrow> string + unit"

datatype prefetch_phase =
    RemoteFetch "u8 list list" instant instant instant instant
  | Loading "mutable_block list" load_handle
  | Committed

record prefetch_state =
  ps_probe :: prefix_probe
  ps_phase :: prefetch_phase

record vllm_compat =
  vc_key_chain :: "token list \<Rightarrow> u8 list list"
  vc_miss_wait :: instant
  vc_consecutive_miss_windows :: u32

record dflash_meta =
  dm_block_size :: usize
  dm_num_spec_tokens :: usize
  dm_max_position_embeddings :: usize

record spec_decode_counters =
  sd_num_spec_tokens :: u64
  sd_num_drafts :: u64
  sd_num_draft_tokens :: u64
  sd_num_accepted_tokens :: u64
  sd_per_pos :: "u64 list"

record ('q, 'i, 'g, 'h, 'd, 'o) qwen3_executor =
  qx_block_size :: usize
  qx_stop_token_ids :: "token list"
  qx_max_position_embeddings :: usize
  qx_decode_group_compiled :: bool
  qx_pool :: block_pool
  qx_store :: "'i block_store"
  qx_padding :: immutable_block
  qx_request_kvs :: "(request_id \<times> 'q request_kv) list"
  qx_primary :: "('g, 'h, 'd) rank_worker"
  qx_workers :: "('g, 'h, 'd) rank_worker list"
  qx_loaded_lora_adapters :: "string list"
  qx_max_loras :: usize
  qx_prefix_cache_requested :: bool
  qx_offload :: "'o option"
  qx_pins :: "immutable_block list"
  qx_saved_cursor :: "request_id \<rightharpoonup> usize"
  qx_prefetch :: "(request_id \<times> prefetch_state) list"
  qx_l1_retention_disabled :: bool
  qx_flush_offload_on_finish :: bool
  qx_vllm_compat :: "vllm_compat option"
  qx_overlap :: bool
  qx_async_prefill :: bool
  qx_speculative :: "dflash_meta option"
  qx_spec_decode_counters :: "spec_decode_counters option"
  qx_dflash_ready :: "request_id list"

type_synonym ('q, 'i, 'g, 'h, 'd, 'o, 'a) exec = "(('q, 'i, 'g, 'h, 'd, 'o) qwen3_executor, 'a) run"

definition remote_fetch_deadline :: instant where
  "remote_fetch_deadline = 15000000000"

definition remote_requery_interval :: instant where
  "remote_requery_interval = 5000000"

definition miss_breaker_threshold :: u32 where
  "miss_breaker_threshold = 3"

section \<open>Access\<close>

text \<open>A call on the block store.\<close>

definition on_store :: "('i block_store \<Rightarrow> ('a \<times> 'i block_store) option) \<Rightarrow> ('q, 'i, 'g, 'h, 'd, 'o, 'a) exec" where
  "on_store f x = (case f (qx_store x) of None \<Rightarrow> None | Some (a, st) \<Rightarrow> Some (Inr a, x\<lparr>qx_store := st\<rparr>))"

definition in_store :: "('i block_store \<Rightarrow> 'i block_store option) \<Rightarrow> ('q, 'i, 'g, 'h, 'd, 'o, unit) exec" where
  "in_store f = on_store (\<lambda>st. map_option (\<lambda>st1. ((), st1)) (f st))"

text \<open>A call on the offload engine; without one the \<open>expect\<close> panics.\<close>

definition on_engine :: "('o \<Rightarrow> 'a \<times> 'o) \<Rightarrow> ('q, 'i, 'g, 'h, 'd, 'o, 'a) exec" where
  "on_engine f x =
     (case qx_offload x of None \<Rightarrow> None | Some ofl \<Rightarrow> let (a, ofl1) = f ofl in Some (Inr a, x\<lparr>qx_offload := Some ofl1\<rparr>))"

text \<open>A call on the KV of a request that must be there.\<close>

definition with_rkv :: "request_id \<Rightarrow> ('q request_kv \<Rightarrow> 'i block_store \<Rightarrow> ('a \<times> 'q request_kv \<times> 'i block_store) option) \<Rightarrow>
    ('q, 'i, 'g, 'h, 'd, 'o, 'a) exec" where
  "with_rkv i f x =
     (case map_of (qx_request_kvs x) i of
        None \<Rightarrow> None
      | Some r \<Rightarrow>
          (case f r (qx_store x) of
             None \<Rightarrow> None
           | Some (a, r1, st) \<Rightarrow> Some (Inr a, x\<lparr>qx_request_kvs := AList.update i r1 (qx_request_kvs x), qx_store := st\<rparr>)))"

definition rkv_op :: "('q, 'i, 'g, 'h, 'd, 'o) executor_env \<Rightarrow> request_id \<Rightarrow> kv_op \<Rightarrow> string \<Rightarrow> ('q, 'i, 'g, 'h, 'd, 'o, unit) exec" where
  "rkv_op V i op e = run_bind (with_rkv i (run_kv_op (en_index V) (en_tokens V) op)) (\<lambda>answered. run_ensure answered e)"

text \<open>The KV of a request that may be missing, an error then.\<close>

definition require_rkv :: "request_id \<Rightarrow> ('q, 'i, 'g, 'h, 'd, 'o, unit) exec" where
  "require_rkv i = run_bind (run_get (\<lambda>x. map_of (qx_request_kvs x) i)) (\<lambda>r. run_ensure (r \<noteq> None) ''missing RequestKv'')"

definition rkv_view :: "('q, 'i, 'g, 'h, 'd, 'o) executor_env \<Rightarrow> request_id \<times> usize \<Rightarrow> ('q, 'i, 'g, 'h, 'd, 'o, kv_view) exec" where
  "rkv_view V ni =
     run_bind (run_get (\<lambda>x. map_of (qx_request_kvs x) (fst ni))) (\<lambda>r.
     run_opt (Option.bind r (step_view (en_tokens V) (snd ni))))"

definition on_primary :: "(('g, 'h, 'd) lane, 'a) run \<Rightarrow> ('q, 'i, 'g, 'h, 'd, 'o, 'a) exec" where
  "on_primary f x = (let (r, w) = worker_call f (qx_primary x) in Some (r, x\<lparr>qx_primary := w\<rparr>))"

definition exec_run_step :: "('q, 'i, 'g, 'h, 'd, 'o) executor_env \<Rightarrow> step_command \<Rightarrow> ('q, 'i, 'g, 'h, 'd, 'o, step_outcome) exec" where
  "exec_run_step V step x =
     (let (r, p, ws) = run_step (en_device V) (en_knee V) step (qx_primary x) (qx_workers x)
      in Some (r, x\<lparr>qx_primary := p, qx_workers := ws\<rparr>))"

definition lane_drop_dflash :: "request_id \<Rightarrow> ('q, 'i, 'g, 'h, 'd, 'o, unit) exec" where
  "lane_drop_dflash i = on_primary (run_upd (drop_dflash_request i))"

section \<open>Dropping what holds blocks\<close>

text \<open>Dropping a probe gives back its references, dropping a reservation its blocks.\<close>

definition drop_probe :: "('q, 'i, 'g, 'h, 'd, 'o) executor_env \<Rightarrow> prefix_probe \<Rightarrow> ('q, 'i, 'g, 'h, 'd, 'o, unit) exec" where
  "drop_probe V p = in_store (drop_immutables (en_index V) (pb_held p))"

definition drop_reservation :: "mutable_block list \<Rightarrow> ('q, 'i, 'g, 'h, 'd, 'o, unit) exec" where
  "drop_reservation bs = in_store (release_mutables bs)"

definition drop_prefetch_state :: "('q, 'i, 'g, 'h, 'd, 'o) executor_env \<Rightarrow> prefetch_state \<Rightarrow> ('q, 'i, 'g, 'h, 'd, 'o, unit) exec" where
  "drop_prefetch_state V ps =
     run_bind (drop_probe V (ps_probe ps)) (\<lambda>_.
     case ps_phase ps of Loading bs _ \<Rightarrow> drop_reservation bs | _ \<Rightarrow> run_ok ())"

text \<open>\<open>HashMap::remove\<close>: the entry, taken out of the map.\<close>

definition take_prefetch :: "request_id \<Rightarrow> ('q, 'i, 'g, 'h, 'd, 'o, prefetch_state option) exec" where
  "take_prefetch i x = Some (Inr (map_of (qx_prefetch x) i), x\<lparr>qx_prefetch := AList.delete i (qx_prefetch x)\<rparr>)"

definition remove_prefetch :: "('q, 'i, 'g, 'h, 'd, 'o) executor_env \<Rightarrow> request_id \<Rightarrow> ('q, 'i, 'g, 'h, 'd, 'o, unit) exec" where
  "remove_prefetch V i =
     run_bind (take_prefetch i) (\<lambda>ps. case ps of None \<Rightarrow> run_ok () | Some s \<Rightarrow> drop_prefetch_state V s)"

text \<open>\<open>HashMap::insert\<close> drops the entry it replaces.\<close>

definition insert_prefetch :: "('q, 'i, 'g, 'h, 'd, 'o) executor_env \<Rightarrow> request_id \<Rightarrow> prefetch_state \<Rightarrow> ('q, 'i, 'g, 'h, 'd, 'o, unit) exec" where
  "insert_prefetch V i ps =
     run_bind (remove_prefetch V i) (\<lambda>_. run_upd (\<lambda>x. x\<lparr>qx_prefetch := qx_prefetch x @ [(i, ps)]\<rparr>))"

definition drop_rkv :: "('q, 'i, 'g, 'h, 'd, 'o) executor_env \<Rightarrow> 'q request_kv \<Rightarrow> ('q, 'i, 'g, 'h, 'd, 'o, unit) exec" where
  "drop_rkv V r = in_store (\<lambda>st. map_option snd (clear_assignments (en_index V) (request_blocks r) st))"

section \<open>Cache policy\<close>

definition prefix_cache_enabled :: "('q, 'i, 'g, 'h, 'd, 'o) qwen3_executor \<Rightarrow> bool" where
  "prefix_cache_enabled x \<longleftrightarrow> qx_prefix_cache_requested x \<and> qx_speculative x = None"

definition retains_completed_kv_blocks :: "('q, 'i, 'g, 'h, 'd, 'o) qwen3_executor \<Rightarrow> bool" where
  "retains_completed_kv_blocks x \<longleftrightarrow> prefix_cache_enabled x \<and> \<not> qx_l1_retention_disabled x"

definition evict_cached_blocks :: "('q, 'i, 'g, 'h, 'd, 'o) executor_env \<Rightarrow> ('q, 'i, 'g, 'h, 'd, 'o, unit) exec" where
  "evict_cached_blocks V = in_store (evict_inactive (en_index V))"

definition finish_retention_transition :: "('q, 'i, 'g, 'h, 'd, 'o) executor_env \<Rightarrow> bool \<Rightarrow> ('q, 'i, 'g, 'h, 'd, 'o, unit) exec" where
  "finish_retention_transition V retained_before =
     run_bind (run_get retains_completed_kv_blocks) (\<lambda>retained.
     if retained_before \<and> \<not> retained then evict_cached_blocks V else run_ok ())"

definition set_prefix_cache_enabled :: "('q, 'i, 'g, 'h, 'd, 'o) executor_env \<Rightarrow> bool \<Rightarrow> ('q, 'i, 'g, 'h, 'd, 'o, unit) exec" where
  "set_prefix_cache_enabled V enabled =
     run_bind (run_get retains_completed_kv_blocks) (\<lambda>before.
     run_bind (run_upd (\<lambda>x. x\<lparr>qx_prefix_cache_requested := enabled\<rparr>)) (\<lambda>_.
     finish_retention_transition V before))"

definition set_no_prefix_cache :: "('q, 'i, 'g, 'h, 'd, 'o) executor_env \<Rightarrow> bool \<Rightarrow> ('q, 'i, 'g, 'h, 'd, 'o, unit) exec" where
  "set_no_prefix_cache V flag =
     run_bind (run_get qx_offload) (\<lambda>offload.
     if offload \<noteq> None then
       run_bind (run_get retains_completed_kv_blocks) (\<lambda>before.
       run_bind (run_upd (\<lambda>x. x\<lparr>qx_l1_retention_disabled := flag\<rparr>)) (\<lambda>_.
       finish_retention_transition V before))
     else set_prefix_cache_enabled V (\<not> flag))"

section \<open>Saving sealed blocks\<close>

text \<open>Of the guards of all assigned blocks, those before the cursor are dropped by \<open>skip\<close>.\<close>

definition save_fresh :: "('q, 'i, 'g, 'h, 'd, 'o) executor_env \<Rightarrow> request_id \<Rightarrow> 'q request_kv \<Rightarrow> (i32 \<times> u8 list) list \<Rightarrow> usize \<Rightarrow>
    ('q, 'i, 'g, 'h, 'd, 'o, unit) exec" where
  "save_fresh V i r assigned cursor =
     run_bind (on_store (assigned_block_guards r)) (\<lambda>guards.
     run_bind (in_store (drop_immutables (en_index V) (take cursor guards))) (\<lambda>_.
     run_bind (run_upd (\<lambda>x. x\<lparr>qx_saved_cursor := (qx_saved_cursor x)(i \<mapsto> length assigned),
       qx_pins := qx_pins x @ drop cursor guards\<rparr>)) (\<lambda>_.
     on_engine (\<lambda>ofl. ((), oe_save (en_engine V) (map fst (drop cursor assigned)) (map snd (drop cursor assigned)) ofl)))))"

definition save_sealed_blocks :: "('q, 'i, 'g, 'h, 'd, 'o) executor_env \<Rightarrow> request_id \<Rightarrow> ('q, 'i, 'g, 'h, 'd, 'o, unit) exec" where
  "save_sealed_blocks V i =
     run_bind (run_get (\<lambda>x. x)) (\<lambda>x.
     if qx_offload x = None \<or> qx_vllm_compat x \<noteq> None then run_ok ()
     else (case map_of (qx_request_kvs x) i of
         None \<Rightarrow> run_ok ()
       | Some r \<Rightarrow>
           run_bind (run_opt (assigned_block_hashes (qx_store x) r)) (\<lambda>assigned.
           let cursor = (case qx_saved_cursor x i of Some c \<Rightarrow> c | None \<Rightarrow> rs_prefix_matched_blocks (sc_inner (rk_seq r))) in
           run_bind (run_upd (\<lambda>x. x\<lparr>qx_saved_cursor := (qx_saved_cursor x)(i \<mapsto> cursor)\<rparr>)) (\<lambda>_.
           if length assigned \<le> cursor then run_ok () else save_fresh V i r assigned cursor))))"

section \<open>Prefill chunks\<close>

text \<open>The KV of a new request, with what the prefix cache has of its prompt.\<close>

definition create_rkv :: "('q, 'i, 'g, 'h, 'd, 'o) executor_env \<Rightarrow> prefill_item \<Rightarrow> ('q, 'i, 'g, 'h, 'd, 'o, prefill_item) exec" where
  "create_rkv V req =
     run_bind (run_get (\<lambda>x. x)) (\<lambda>x.
     let rkv = new_request (en_tokens V) (en_salt V) (qx_pool x) (pi_prompt_tokens req) (pi_max_output_tokens req) (pi_lora_adapter req) in
     run_bind (if prefix_cache_enabled x \<and> \<not> pi_echo req then
         run_bind (on_store (\<lambda>st. map_option (\<lambda>(res, r, st1). ((res, r), st1)) (kv_match_and_add_prefix (en_index V) (en_tokens V) rkv st))) (\<lambda>(res, r).
         case res of
           Inl _ \<Rightarrow> run_bind (drop_rkv V r) (\<lambda>_. run_err ''match_and_add_prefix failed'')
         | Inr n \<Rightarrow> run_ok (req\<lparr>pi_cached_tokens := n\<rparr>, r))
       else run_ok (req, rkv)) (\<lambda>(req1, r).
     run_bind (run_upd (\<lambda>x. x\<lparr>qx_request_kvs := AList.update (pi_id req) r (qx_request_kvs x)\<rparr>)) (\<lambda>_.
     run_bind (remove_prefetch V (pi_id req)) (\<lambda>_. run_ok req1))))"

text \<open>The chunk of an item: what remains of its prompt, cut to the budget; the subtraction underflows past the prompt.\<close>

definition sized_item :: "prefill_item \<Rightarrow> usize \<Rightarrow> prefill_item option" where
  "sized_item req position =
     (if length (pi_prompt_tokens req) < position then None
      else let remaining = length (pi_prompt_tokens req) - position;
               chunk = (if pi_echo req then remaining else min remaining (pi_chunk_budget req))
           in if 0 < chunk then Some (req\<lparr>pi_chunk_start := position, pi_chunk_tokens := chunk\<rparr>) else None)"

definition schedule_prefill_chunk :: "('q, 'i, 'g, 'h, 'd, 'o) executor_env \<Rightarrow> prefill_item \<Rightarrow> ('q, 'i, 'g, 'h, 'd, 'o, prefill_item) exec" where
  "schedule_prefill_chunk V req =
     run_bind (run_get (\<lambda>x. map_of (qx_request_kvs x) (pi_id req))) (\<lambda>known.
     run_bind (if known = None then create_rkv V req else run_ok req) (\<lambda>req1.
     run_bind (run_get (\<lambda>x. map_of (qx_request_kvs x) (pi_id req))) (\<lambda>r.
     run_bind (run_opt (Option.bind r (\<lambda>r. sized_item req1 (sc_kv_position (rk_seq r))))) (\<lambda>req2.
     run_bind (rkv_op V (pi_id req) (SchedulePrefill (pi_chunk_tokens req2)) ''schedule_prefill failed'') (\<lambda>_.
     run_ok req2)))))"

definition apply_prefill_result :: "('q, 'i, 'g, 'h, 'd, 'o) executor_env \<Rightarrow> prefill_request_result \<Rightarrow> ('q, 'i, 'g, 'h, 'd, 'o, unit) exec" where
  "apply_prefill_result V v =
     rkv_op V (pq_id v) (if pq_completed v then ApplyPrefill (pq_first_token v) else ApplyPrefillChunk) ''apply_prefill failed''"

section \<open>Prefetch from the host tier\<close>

datatype remote_fetch_action = FetchWait | FetchScratch | FetchRelease lease | FetchLoad lease usize

text \<open>The decision on one tick, given what the query answered; past the deadline nothing is asked.\<close>

definition fetch_answer :: "bool \<Rightarrow> bool \<Rightarrow> string + query_view \<Rightarrow> usize \<Rightarrow> usize \<Rightarrow> remote_fetch_action" where
  "fetch_answer wait_on_miss park_on_loading answer available_blocks reserve_floor =
     (case answer of
        Inl _ \<Rightarrow> FetchScratch
      | Inr QueryLoading \<Rightarrow> if park_on_loading then FetchWait else FetchScratch
      | Inr (QueryReady None n) \<Rightarrow> if wait_on_miss then FetchWait else FetchScratch
      | Inr (QueryReady (Some l) n) \<Rightarrow>
          if saturating_sub available_blocks reserve_floor < n then FetchRelease l else FetchLoad l n)"

text \<open>The action, whether the query failed, and the engine.\<close>

definition remote_fetch_action_of :: "bool \<Rightarrow> bool \<Rightarrow> bool \<Rightarrow> ('o \<Rightarrow> (string + query_view) \<times> 'o) \<Rightarrow> usize \<Rightarrow> usize \<Rightarrow> 'o \<Rightarrow>
    (remote_fetch_action \<times> bool) \<times> 'o" where
  "remote_fetch_action_of timed_out wait_on_miss park_on_loading query available_blocks reserve_floor ofl =
     (if timed_out then ((FetchScratch, False), ofl)
      else let (answer, ofl1) = query ofl in
        ((fetch_answer wait_on_miss park_on_loading answer available_blocks reserve_floor, isl answer), ofl1))"

definition note_miss_window_exhausted :: "('q, 'i, 'g, 'h, 'd, 'o, unit) exec" where
  "note_miss_window_exhausted =
     run_upd (\<lambda>x. x\<lparr>qx_vllm_compat := map_option (\<lambda>c. c\<lparr>vc_consecutive_miss_windows :=
       (if vc_consecutive_miss_windows c = - 1 then - 1 else vc_consecutive_miss_windows c + 1)\<rparr>) (qx_vllm_compat x)\<rparr>)"

definition note_remote_hit :: "('q, 'i, 'g, 'h, 'd, 'o, unit) exec" where
  "note_remote_hit = run_upd (\<lambda>x. x\<lparr>qx_vllm_compat := map_option (\<lambda>c. c\<lparr>vc_consecutive_miss_windows := 0\<rparr>) (qx_vllm_compat x)\<rparr>)"

definition breaker_closed :: "vllm_compat \<Rightarrow> bool" where
  "breaker_closed c \<longleftrightarrow> vc_consecutive_miss_windows c < miss_breaker_threshold"

definition release_query_lease :: "('q, 'i, 'g, 'h, 'd, 'o) executor_env \<Rightarrow> lease \<Rightarrow> ('q, 'i, 'g, 'h, 'd, 'o, unit) exec" where
  "release_query_lease V l = on_engine (\<lambda>ofl. ((), oe_release_lease (en_engine V) l ofl))"

text \<open>Whether the load is under way; when it is not, the lease is released and the probe dropped.\<close>

definition start_prefetch_load :: "('q, 'i, 'g, 'h, 'd, 'o) executor_env \<Rightarrow> request_id \<Rightarrow> prefix_probe \<Rightarrow> lease \<Rightarrow> usize \<Rightarrow>
    ('q, 'i, 'g, 'h, 'd, 'o, bool) exec" where
  "start_prefetch_load V i probe l n =
     run_bind (on_store (reserve_loaded_blocks (en_index V) n)) (\<lambda>reservation.
     case reservation of
       None \<Rightarrow> run_bind (release_query_lease V l) (\<lambda>_. run_bind (drop_probe V probe) (\<lambda>_. run_ok False))
     | Some bs \<Rightarrow>
         run_bind (on_engine (oe_load (en_engine V) l (map of_nat bs))) (\<lambda>loaded.
         case loaded of
           Inr h \<Rightarrow> run_bind (insert_prefetch V i \<lparr>ps_probe = probe, ps_phase = Loading bs h\<rparr>) (\<lambda>_. run_ok True)
         | Inl _ \<Rightarrow>
             run_bind (release_query_lease V l) (\<lambda>_.
             run_bind (drop_reservation bs) (\<lambda>_.
             run_bind (drop_probe V probe) (\<lambda>_. run_ok False)))))"

definition settle_prefetch :: "('q, 'i, 'g, 'h, 'd, 'o) executor_env \<Rightarrow> request_id \<Rightarrow> mutable_block list \<Rightarrow> string + unit \<Rightarrow>
    ('q, 'i, 'g, 'h, 'd, 'o, unit) exec" where
  "settle_prefetch V i bs result =
     (case result of
        Inr _ \<Rightarrow>
          run_bind (run_get (\<lambda>x. x)) (\<lambda>x.
          run_bind (run_opt (map_of (qx_prefetch x) i)) (\<lambda>ps.
          run_bind (on_store (commit_loaded_blocks (en_index V) (qx_pool x) (ps_probe ps) bs)) (\<lambda>probe.
          run_upd (\<lambda>x. x\<lparr>qx_prefetch := AList.update i \<lparr>ps_probe = probe, ps_phase = Committed\<rparr> (qx_prefetch x)\<rparr>))))
      | Inl _ \<Rightarrow> run_bind (remove_prefetch V i) (\<lambda>_. drop_reservation bs))"

text \<open>What a tick does with the action; the answer says whether the request may prefill.\<close>

definition act_on_fetch :: "('q, 'i, 'g, 'h, 'd, 'o) executor_env \<Rightarrow> request_id \<Rightarrow> bool \<Rightarrow> remote_fetch_action \<Rightarrow> ('q, 'i, 'g, 'h, 'd, 'o, bool) exec" where
  "act_on_fetch V i window_exhausted action =
     (case action of
        FetchWait \<Rightarrow> run_ok False
      | FetchScratch \<Rightarrow>
          run_bind (if window_exhausted then note_miss_window_exhausted else run_ok ()) (\<lambda>_.
          run_bind (remove_prefetch V i) (\<lambda>_. run_ok True))
      | FetchRelease l \<Rightarrow>
          run_bind note_remote_hit (\<lambda>_.
          run_bind (release_query_lease V l) (\<lambda>_.
          run_bind (remove_prefetch V i) (\<lambda>_. run_ok True)))
      | FetchLoad l n \<Rightarrow>
          run_bind note_remote_hit (\<lambda>_.
          run_bind (take_prefetch i) (\<lambda>taken.
          run_bind (run_opt taken) (\<lambda>ps.
          run_bind (start_prefetch_load V i (ps_probe ps) l n) (\<lambda>started. run_ok (\<not> started))))))"

definition poll_remote_fetch :: "('q, 'i, 'g, 'h, 'd, 'o) executor_env \<Rightarrow> request_id \<Rightarrow> usize \<Rightarrow> ('q, 'i, 'g, 'h, 'd, 'o, bool) exec" where
  "poll_remote_fetch V i reserve_floor =
     run_bind (run_get (\<lambda>x. map_of (qx_prefetch x) i)) (\<lambda>entry.
     case entry of
       None \<Rightarrow> run_ok True
     | Some ps \<Rightarrow>
         (case ps_phase ps of
            RemoteFetch query_hashes deadline miss_deadline parked_at last_query \<Rightarrow>
              run_bind (on_engine (oe_now (en_engine V))) (\<lambda>now.
              let timed_out = (deadline < now) in
              if \<not> timed_out \<and> saturating_sub now last_query < remote_requery_interval then run_ok False
              else
                run_bind (run_get (\<lambda>x. x)) (\<lambda>x.
                let closed = (case qx_vllm_compat x of None \<Rightarrow> True | Some c \<Rightarrow> breaker_closed c);
                    wait_on_miss = (qx_vllm_compat x \<noteq> None \<and> closed \<and> now \<le> miss_deadline) in
                run_bind (run_upd (\<lambda>x. x\<lparr>qx_prefetch := AList.update i
                  (ps\<lparr>ps_phase := RemoteFetch query_hashes deadline miss_deadline parked_at now\<rparr>) (qx_prefetch x)\<rparr>)) (\<lambda>_.
                run_bind (on_engine (remote_fetch_action_of timed_out wait_on_miss closed (oe_query (en_engine V) i query_hashes)
                  (available_len (en_index V) (qx_store x)) reserve_floor)) (\<lambda>(action, query_errored).
                act_on_fetch V i (qx_vllm_compat x \<noteq> None \<and> (timed_out \<or> \<not> query_errored \<and> miss_deadline < now)) action))))
          | _ \<Rightarrow> run_ok False))"

text \<open>The keys the host tier is asked for: the cacheable blocks that the GPU does not have.\<close>

definition probe_query_hashes :: "vllm_compat option \<Rightarrow> prefix_probe \<Rightarrow> token list \<Rightarrow> u8 list list option" where
  "probe_query_hashes vllm probe prompt =
     (case vllm of
        None \<Rightarrow> cpu_query_hashes probe
      | Some c \<Rightarrow> slice (pb_gpu_hit probe) (pb_gpu_hit probe + cpu_query_window probe) (vc_key_chain c prompt))"

definition begin_fetch :: "('q, 'i, 'g, 'h, 'd, 'o) executor_env \<Rightarrow> request_id \<Rightarrow> prefix_probe \<Rightarrow> u8 list list \<Rightarrow> usize \<Rightarrow>
    ('q, 'i, 'g, 'h, 'd, 'o, bool) exec" where
  "begin_fetch V i probe query_hashes reserve_floor =
     run_bind (run_get (\<lambda>x. x)) (\<lambda>x.
     let expect_remote = (case qx_vllm_compat x of None \<Rightarrow> False | Some c \<Rightarrow> breaker_closed c);
         park_on_loading = (qx_vllm_compat x = None \<or> expect_remote) in
     run_bind (on_engine (remote_fetch_action_of False expect_remote park_on_loading (oe_query (en_engine V) i query_hashes)
       (available_len (en_index V) (qx_store x)) reserve_floor)) (\<lambda>(action, _).
     case action of
       FetchWait \<Rightarrow>
         run_bind (on_engine (oe_now (en_engine V))) (\<lambda>now.
         let miss_wait = (case qx_vllm_compat x of None \<Rightarrow> 0 | Some c \<Rightarrow> vc_miss_wait c) in
         run_bind (insert_prefetch V i \<lparr>ps_probe = probe,
           ps_phase = RemoteFetch query_hashes (now + remote_fetch_deadline) (now + miss_wait) now now\<rparr>) (\<lambda>_. run_ok True))
     | FetchScratch \<Rightarrow> run_bind (drop_probe V probe) (\<lambda>_. run_ok False)
     | FetchRelease l \<Rightarrow>
         run_bind note_remote_hit (\<lambda>_.
         run_bind (release_query_lease V l) (\<lambda>_.
         run_bind (drop_probe V probe) (\<lambda>_. run_ok False)))
     | FetchLoad l n \<Rightarrow> run_bind note_remote_hit (\<lambda>_. start_prefetch_load V i probe l n)))"

definition begin_kv_prefetch :: "('q, 'i, 'g, 'h, 'd, 'o) executor_env \<Rightarrow> request_id \<Rightarrow> token list \<Rightarrow> string option \<Rightarrow> usize \<Rightarrow>
    ('q, 'i, 'g, 'h, 'd, 'o, bool) exec" where
  "begin_kv_prefetch V i prompt lora reserve_floor =
     run_bind (run_get (\<lambda>x. x)) (\<lambda>x.
     if qx_offload x = None \<or> \<not> prefix_cache_enabled x then run_ok False
     else
       run_bind (if qx_l1_retention_disabled x then evict_cached_blocks V else run_ok ()) (\<lambda>_.
       if qx_vllm_compat x \<noteq> None \<and> lora \<noteq> None then run_ok False
       else
         run_bind (on_store (probe_prefix_with_cache_salt (en_index V) (en_tokens V) (en_salt V) (qx_pool x) prompt None lora)) (\<lambda>probe.
         run_bind (run_opt (probe_query_hashes (qx_vllm_compat x) probe prompt)) (\<lambda>query_hashes.
         if query_hashes = [] then run_bind (drop_probe V probe) (\<lambda>_. run_ok False)
         else begin_fetch V i probe query_hashes reserve_floor))))"

text \<open>One entry of the sweep; the answer says whether the request is done waiting.\<close>

definition drain_one :: "('q, 'i, 'g, 'h, 'd, 'o) executor_env \<Rightarrow> usize \<Rightarrow> request_id \<Rightarrow> ('q, 'i, 'g, 'h, 'd, 'o, bool) exec" where
  "drain_one V reserve_floor i =
     run_bind (run_get (\<lambda>x. map_of (qx_prefetch x) i)) (\<lambda>entry.
     case entry of
       None \<Rightarrow> run_ok False
     | Some ps \<Rightarrow>
         (case ps_phase ps of
            Loading bs h \<Rightarrow>
              run_bind (on_engine (oe_poll (en_engine V) h)) (\<lambda>polled.
              case polled of
                None \<Rightarrow> run_ok False
              | Some result \<Rightarrow>
                  run_bind (run_upd (\<lambda>x. x\<lparr>qx_prefetch := AList.update i (ps\<lparr>ps_phase := Committed\<rparr>) (qx_prefetch x)\<rparr>)) (\<lambda>_.
                  run_bind (settle_prefetch V i bs result) (\<lambda>_. run_ok True)))
          | RemoteFetch _ _ _ _ _ \<Rightarrow> poll_remote_fetch V i reserve_floor
          | Committed \<Rightarrow> run_ok False))"

definition drain_ready_prefetch :: "('q, 'i, 'g, 'h, 'd, 'o) executor_env \<Rightarrow> usize \<Rightarrow> ('q, 'i, 'g, 'h, 'd, 'o, request_id list) exec" where
  "drain_ready_prefetch V reserve_floor =
     run_bind (run_get (\<lambda>x. map fst (qx_prefetch x))) (\<lambda>ids.
     run_bind (run_map (drain_one V reserve_floor) ids) (\<lambda>flags.
     run_ok (map fst (filter snd (zip ids flags)))))"

definition first_loading :: "(request_id \<times> prefetch_state) list \<Rightarrow> (request_id \<times> prefetch_state \<times> mutable_block list \<times> load_handle) option" where
  "first_loading entries =
     (case filter (\<lambda>(_, ps). case ps_phase ps of Loading _ _ \<Rightarrow> True | _ \<Rightarrow> False) entries of
        (i, ps) # _ \<Rightarrow> (case ps_phase ps of Loading bs h \<Rightarrow> Some (i, ps, bs, h) | _ \<Rightarrow> None)
      | [] \<Rightarrow> None)"

text \<open>When only remote fetches are parked the thread sleeps, which leaves the state alone.\<close>

definition wait_ready_prefetch :: "('q, 'i, 'g, 'h, 'd, 'o) executor_env \<Rightarrow> usize \<Rightarrow> ('q, 'i, 'g, 'h, 'd, 'o, request_id list) exec" where
  "wait_ready_prefetch V reserve_floor =
     run_bind (run_get (\<lambda>x. first_loading (qx_prefetch x))) (\<lambda>found.
     run_bind (case found of
         None \<Rightarrow> run_ok []
       | Some (i, ps, bs, h) \<Rightarrow>
           run_bind (run_upd (\<lambda>x. x\<lparr>qx_prefetch := AList.update i (ps\<lparr>ps_phase := Committed\<rparr>) (qx_prefetch x)\<rparr>)) (\<lambda>_.
           run_bind (on_engine (oe_wait (en_engine V) h)) (\<lambda>result.
           run_bind (settle_prefetch V i bs result) (\<lambda>_. run_ok [i])))) (\<lambda>ready.
     run_bind (drain_ready_prefetch V reserve_floor) (\<lambda>swept.
     run_ok (ready @ filter (\<lambda>i. i \<notin> set ready) swept))))"

section \<open>Dropping a request\<close>

text \<open>A load in flight is waited for before its destination blocks go back to the pool.\<close>

definition drop_parked :: "('q, 'i, 'g, 'h, 'd, 'o) executor_env \<Rightarrow> request_id \<Rightarrow> ('q, 'i, 'g, 'h, 'd, 'o, unit) exec" where
  "drop_parked V i =
     run_bind (take_prefetch i) (\<lambda>taken.
     case taken of
       None \<Rightarrow> run_ok ()
     | Some ps \<Rightarrow>
         run_bind (case ps_phase ps of Loading _ h \<Rightarrow> run_bind (on_engine (oe_wait (en_engine V) h)) (\<lambda>_. run_ok ()) | _ \<Rightarrow> run_ok ()) (\<lambda>_.
         drop_prefetch_state V ps))"

definition executor_drop_request :: "('q, 'i, 'g, 'h, 'd, 'o) executor_env \<Rightarrow> request_id \<Rightarrow> ('q, 'i, 'g, 'h, 'd, 'o, unit) exec" where
  "executor_drop_request V i =
     run_bind (run_get (\<lambda>x. x)) (\<lambda>x.
     run_bind (run_upd (\<lambda>x. x\<lparr>qx_request_kvs := AList.delete i (qx_request_kvs x)\<rparr>)) (\<lambda>_.
     run_bind (case map_of (qx_request_kvs x) i of
         None \<Rightarrow> run_ok ()
       | Some r \<Rightarrow>
           run_bind (if retains_completed_kv_blocks x then run_ok () else in_store (mark_blocks_reset_on_release r)) (\<lambda>_. drop_rkv V r)) (\<lambda>_.
     run_bind (drop_parked V i) (\<lambda>_.
     run_bind (run_upd (\<lambda>x. x\<lparr>qx_saved_cursor := (qx_saved_cursor x)(i := None)\<rparr>)) (\<lambda>_.
     if qx_speculative x \<noteq> None then
       run_bind (run_upd (\<lambda>x. x\<lparr>qx_dflash_ready := removeAll i (qx_dflash_ready x)\<rparr>)) (\<lambda>_. lane_drop_dflash i)
     else run_ok ())))))"

section \<open>Steps\<close>

definition schedule_decodes :: "('q, 'i, 'g, 'h, 'd, 'o) executor_env \<Rightarrow> decode_item list \<Rightarrow> ('q, 'i, 'g, 'h, 'd, 'o, unit) exec" where
  "schedule_decodes V requests =
     run_each (\<lambda>r. run_bind (require_rkv (di_id r)) (\<lambda>_. rkv_op V (di_id r) ScheduleDecode ''schedule_decode failed'')) requests"

definition apply_decodes :: "('q, 'i, 'g, 'h, 'd, 'o) executor_env \<Rightarrow> decode_request_result list \<Rightarrow> ('q, 'i, 'g, 'h, 'd, 'o, unit) exec" where
  "apply_decodes V results = run_each (\<lambda>v. rkv_op V (dr_id v) (ApplyDecode (dr_token v)) ''apply_decode failed'') results"

text \<open>A plain decode leaves a captured draft context stale.\<close>

definition drop_stale_contexts :: "decode_request_result list \<Rightarrow> ('q, 'i, 'g, 'h, 'd, 'o, unit) exec" where
  "drop_stale_contexts results =
     run_bind (run_get qx_speculative) (\<lambda>spec.
     if spec = None then run_ok ()
     else run_each (\<lambda>v. run_bind (run_get (\<lambda>x. dr_id v \<in> set (qx_dflash_ready x))) (\<lambda>ready.
       if ready then
         run_bind (run_upd (\<lambda>x. x\<lparr>qx_dflash_ready := removeAll (dr_id v) (qx_dflash_ready x)\<rparr>)) (\<lambda>_. lane_drop_dflash (dr_id v))
       else run_ok ())) results)"

definition prefill_views :: "('q, 'i, 'g, 'h, 'd, 'o) executor_env \<Rightarrow> prefill_item list \<Rightarrow> ('q, 'i, 'g, 'h, 'd, 'o, kv_view list) exec" where
  "prefill_views V requests = run_map (rkv_view V) (map (\<lambda>r. (pi_id r, pi_chunk_tokens r)) requests)"

definition decode_views :: "('q, 'i, 'g, 'h, 'd, 'o) executor_env \<Rightarrow> decode_item list \<Rightarrow> ('q, 'i, 'g, 'h, 'd, 'o, kv_view list) exec" where
  "decode_views V requests = run_map (rkv_view V) (map (\<lambda>r. (di_id r, 1)) requests)"

text \<open>A request becomes draft-ready once its prompt is prefilled with captured context.\<close>

definition mark_captured :: "prefill_result \<Rightarrow> ('q, 'i, 'g, 'h, 'd, 'o, unit) exec" where
  "mark_captured result =
     run_bind (run_get qx_speculative) (\<lambda>spec.
     if spec = None then run_ok ()
     else run_each (\<lambda>v. let i = pq_id v in
       case dflash_prefill_action_of (i \<in> set (prr_captured result)) (pq_completed v) of
         MarkReady \<Rightarrow> run_upd (\<lambda>x. x\<lparr>qx_dflash_ready := List.insert i (qx_dflash_ready x)\<rparr>)
       | KeepPending \<Rightarrow> run_upd (\<lambda>x. x\<lparr>qx_dflash_ready := removeAll i (qx_dflash_ready x)\<rparr>)
       | DropState \<Rightarrow>
           run_bind (run_upd (\<lambda>x. x\<lparr>qx_dflash_ready := removeAll i (qx_dflash_ready x)\<rparr>)) (\<lambda>_. lane_drop_dflash i))
       (prr_requests result))"

definition execute_prefill :: "('q, 'i, 'g, 'h, 'd, 'o) executor_env \<Rightarrow> prefill_plan \<Rightarrow> ('q, 'i, 'g, 'h, 'd, 'o, prefill_result) exec" where
  "execute_prefill V plan =
     run_bind (run_map (schedule_prefill_chunk V) (pp_requests plan)) (\<lambda>requests.
     run_bind (prefill_views V requests) (\<lambda>views.
     run_bind (exec_run_step V (StepPrefill requests views (pp_echo plan) (pp_sample_seed plan))) (\<lambda>outcome.
     case outcome of
       OutPrefill result \<Rightarrow>
         run_bind (run_each (apply_prefill_result V) (prr_requests result)) (\<lambda>_.
         run_bind (mark_captured result) (\<lambda>_.
         run_bind (run_each (\<lambda>v. save_sealed_blocks V (pq_id v)) (prr_requests result)) (\<lambda>_.
         run_ok result)))
     | _ \<Rightarrow> run_err ''prefill returned unexpected'')))"

text \<open>The decode answers of a split step; on an error the prefill in flight is waited for, and a failed wait aborts.\<close>

definition finish_split :: "('q, 'i, 'g, 'h, 'd, 'o) executor_env \<Rightarrow> decode_request_result list \<Rightarrow> ('q, 'i, 'g, 'h, 'd, 'o, unified_result) exec" where
  "finish_split V results x =
     (case apply_decodes V results x of
        None \<Rightarrow> None
      | Some (Inl e, y) \<Rightarrow>
          (let (synced, g) = dv_sync_event (en_device V) (ln_gpu (rw_lane (qx_primary y)));
               z = y\<lparr>qx_primary := (qx_primary y)\<lparr>rw_lane := (rw_lane (qx_primary y))\<lparr>ln_gpu := g\<rparr>\<rparr>\<rparr> in
           if \<not> synced then None
           else run_bind (on_primary (resolve_inflight_prefill (en_device V))) (\<lambda>_. run_err e) z)
      | Some (Inr _, y) \<Rightarrow>
          run_bind (run_each (\<lambda>v. save_sealed_blocks V (dr_id v)) results) (\<lambda>_.
          run_bind (run_upd (\<lambda>x. x\<lparr>qx_async_prefill := True\<rparr>)) (\<lambda>_.
          run_ok \<lparr>ur_prefill_requests = [], ur_decode_requests = results\<rparr>)) y)"

definition finish_unified :: "('q, 'i, 'g, 'h, 'd, 'o) executor_env \<Rightarrow> unified_result \<Rightarrow> ('q, 'i, 'g, 'h, 'd, 'o, unified_result) exec" where
  "finish_unified V result =
     run_bind (run_each (apply_prefill_result V) (ur_prefill_requests result)) (\<lambda>_.
     run_bind (apply_decodes V (ur_decode_requests result)) (\<lambda>_.
     run_bind (drop_stale_contexts (ur_decode_requests result)) (\<lambda>_.
     run_bind (run_each (\<lambda>v. save_sealed_blocks V (pq_id v)) (ur_prefill_requests result)) (\<lambda>_.
     run_bind (run_each (\<lambda>v. save_sealed_blocks V (dr_id v)) (ur_decode_requests result)) (\<lambda>_.
     run_ok result)))))"

definition execute_unified :: "('q, 'i, 'g, 'h, 'd, 'o) executor_env \<Rightarrow> unified_plan \<Rightarrow> ('q, 'i, 'g, 'h, 'd, 'o, unified_result) exec" where
  "execute_unified V plan =
     run_bind (run_get (\<lambda>x. x)) (\<lambda>x.
     run_bind (run_ensure (\<not> qx_async_prefill x) ''a previous prefill is still pending at a new unified step'') (\<lambda>_.
     run_bind (run_ensure (\<not> qx_overlap x \<or> list_all (\<lambda>r. pi_lora_adapter r = None) (up_prefill_requests plan))
       ''LoRA prefill does not support decode-overlap'') (\<lambda>_.
     run_bind (run_map (schedule_prefill_chunk V) (up_prefill_requests plan)) (\<lambda>prefills.
     run_bind (schedule_decodes V (up_decode_requests plan)) (\<lambda>_.
     run_bind (prefill_views V prefills) (\<lambda>pvs.
     run_bind (decode_views V (up_decode_requests plan)) (\<lambda>dvs.
     run_bind (exec_run_step V (if qx_overlap x
         then StepSplitConcurrent prefills pvs (up_decode_requests plan) dvs (up_sample_seed plan)
         else StepUnified prefills pvs (up_decode_requests plan) dvs (up_sample_seed plan))) (\<lambda>outcome.
     case outcome of
       OutUnified result \<Rightarrow> finish_unified V result
     | OutSplitDecodeReady results \<Rightarrow> finish_split V results
     | _ \<Rightarrow> run_err ''unified returned unexpected''))))))))"

definition execute_decode :: "('q, 'i, 'g, 'h, 'd, 'o) executor_env \<Rightarrow> decode_plan \<Rightarrow> ('q, 'i, 'g, 'h, 'd, 'o, decode_request_result list) exec" where
  "execute_decode V plan =
     run_bind (run_get qx_decode_group_compiled) (\<lambda>compiled.
     if \<not> compiled then
       run_bind (execute_unified V \<lparr>up_prefill_requests = [], up_decode_requests = dp_requests plan, up_sample_seed = dp_sample_seed plan\<rparr>)
         (\<lambda>result. run_ok (ur_decode_requests result))
     else
       run_bind (schedule_decodes V (dp_requests plan)) (\<lambda>_.
       run_bind (decode_views V (dp_requests plan)) (\<lambda>views.
       run_bind (exec_run_step V (StepDecode (dp_requests plan) views (dp_sample_seed plan))) (\<lambda>outcome.
       case outcome of
         OutDecode results \<Rightarrow>
           run_bind (apply_decodes V results) (\<lambda>_.
           run_bind (drop_stale_contexts results) (\<lambda>_.
           run_bind (run_each (\<lambda>v. save_sealed_blocks V (dr_id v)) results) (\<lambda>_.
           run_ok results)))
       | _ \<Rightarrow> run_err ''decode returned unexpected''))))"

text \<open>The in-flight prefill, once its event has fired. A broken event or an error here aborts the process.\<close>

definition poll_async_prefill :: "('q, 'i, 'g, 'h, 'd, 'o) executor_env \<Rightarrow>
    ('q, 'i, 'g, 'h, 'd, 'o) qwen3_executor \<Rightarrow> (prefill_result option \<times> ('q, 'i, 'g, 'h, 'd, 'o) qwen3_executor) option" where
  "poll_async_prefill V x =
     (if \<not> qx_async_prefill x then Some (None, x)
      else let (status, g) = dv_query_event (en_device V) (ln_gpu (rw_lane (qx_primary x)));
               y = x\<lparr>qx_primary := (qx_primary x)\<lparr>rw_lane := (rw_lane (qx_primary x))\<lparr>ln_gpu := g\<rparr>\<rparr>\<rparr>
           in (case status of
             EventPending \<Rightarrow> Some (None, y)
           | EventBroken \<Rightarrow> None
           | EventDone \<Rightarrow>
               (case run_bind (on_primary (resolve_inflight_prefill (en_device V))) (\<lambda>result.
                  run_bind (run_each (apply_prefill_result V) (prr_requests result)) (\<lambda>_.
                  run_bind (run_each (\<lambda>v. save_sealed_blocks V (pq_id v)) (prr_requests result)) (\<lambda>_.
                  run_ok result))) (y\<lparr>qx_async_prefill := False\<rparr>) of
                  Some (Inr result, z) \<Rightarrow> Some (Some result, z)
                | _ \<Rightarrow> None)))"

end
