(* ===== verification/Executor_Frame.thy ===== *)
theory Executor_Frame
  imports Qwen3_Executor
begin

text \<open>
  What the calls of the executor that only deal in blocks, prefetches and saves leave alone: anything
  that does not depend on the store, the prefetch map, the offload engine and their bookkeeping.
\<close>

locale bystander =
  fixes p :: "('q, 'i, 'g, 'h, 'd, 'o) qwen3_executor \<Rightarrow> 'p"
  assumes store: "p (x\<lparr>qx_store := st\<rparr>) = p x"
    and prefetch: "p (x\<lparr>qx_prefetch := ps\<rparr>) = p x"
    and offload: "p (x\<lparr>qx_offload := ofl\<rparr>) = p x"
    and compat: "p (x\<lparr>qx_vllm_compat := c\<rparr>) = p x"
    and cursor: "p (x\<lparr>qx_saved_cursor := k\<rparr>) = p x"
    and pins: "p (x\<lparr>qx_pins := as\<rparr>) = p x"
begin

lemma keeps_calls [intro, simp]:
  "run_keeps p (on_store f)" "run_keeps p (in_store g)" "run_keeps p (on_engine h)" "run_keeps p (take_prefetch i)"
  by (auto simp: run_keeps_def on_store_def in_store_def on_engine_def take_prefetch_def store offload prefetch
      split: option.split_asm prod.split_asm)

lemma keeps_upds [intro, simp]:
  "run_keeps p (run_upd (\<lambda>x. x\<lparr>qx_prefetch := f x\<rparr>))" "run_keeps p (run_upd (\<lambda>x. x\<lparr>qx_saved_cursor := c' x\<rparr>))"
  "run_keeps p (run_upd (\<lambda>x. x\<lparr>qx_vllm_compat := v x\<rparr>))" "run_keeps p (run_upd (\<lambda>x. x\<lparr>qx_saved_cursor := c' x, qx_pins := q x\<rparr>))"
  by (auto intro!: run_keeps_upd simp: prefetch cursor compat pins)

lemma keeps_rkv [intro, simp]: "run_keeps p (require_rkv i)" "run_keeps p (rkv_view V ni)"
  unfolding require_rkv_def rkv_view_def by (auto intro!: run_keeps_bind)

lemma keeps_drops [intro, simp]:
  "run_keeps p (drop_probe V b)" "run_keeps p (drop_reservation l)" "run_keeps p (drop_prefetch_state V s)"
  "run_keeps p (remove_prefetch V i)" "run_keeps p (insert_prefetch V i s)" "run_keeps p (drop_rkv V r)" "run_keeps p (evict_cached_blocks V)"
  unfolding drop_probe_def drop_reservation_def drop_prefetch_state_def remove_prefetch_def insert_prefetch_def drop_rkv_def evict_cached_blocks_def
  by (auto intro!: run_keeps_bind split: option.split prefetch_phase.split)

lemma keeps_parked [intro, simp]: "run_keeps p (drop_parked V i)"
  unfolding drop_parked_def by (auto intro!: run_keeps_bind split: option.split prefetch_phase.split)

lemma keeps_save [intro, simp]: "run_keeps p (save_sealed_blocks V i)"
  unfolding save_sealed_blocks_def save_fresh_def Let_def by (auto intro!: run_keeps_bind split: option.split)

lemma keeps_saves [intro, simp]: "run_keeps p (run_each (\<lambda>v. save_sealed_blocks V (g v)) vs)"
  by (auto intro!: run_keeps_each)

lemma keeps_fetch [intro, simp]:
  "run_keeps p (start_prefetch_load V i b l m)" "run_keeps p (settle_prefetch V i bs res)"
  "run_keeps p note_miss_window_exhausted" "run_keeps p note_remote_hit" "run_keeps p (release_query_lease V l)"
  unfolding start_prefetch_load_def settle_prefetch_def note_miss_window_exhausted_def note_remote_hit_def release_query_lease_def
  by (auto intro!: run_keeps_bind split: option.split sum.split)

lemma keeps_poll_fetch [intro, simp]: "run_keeps p (poll_remote_fetch V i floor)" "run_keeps p (begin_fetch V i b hs floor)"
  unfolding poll_remote_fetch_def begin_fetch_def act_on_fetch_def Let_def
  by (auto intro!: run_keeps_bind split: option.split prefetch_phase.split remote_fetch_action.split prod.split)

lemma keeps_drain [intro, simp]: "run_keeps p (drain_ready_prefetch V floor)"
proof -
  have "run_keeps p (drain_one V floor j)" for j
    unfolding drain_one_def by (auto intro!: run_keeps_bind split: option.split prefetch_phase.split)
  thus ?thesis
    unfolding drain_ready_prefetch_def by (auto intro!: run_keeps_bind run_keeps_map)
qed

lemma keeps_prefetch [intro, simp]: "run_keeps p (begin_kv_prefetch V i prompt lora floor)" "run_keeps p (wait_ready_prefetch V floor)"
  unfolding begin_kv_prefetch_def wait_ready_prefetch_def by (auto intro!: run_keeps_bind split: option.split prod.split)

end

interpretation kvs: bystander qx_request_kvs
  by unfold_locales simp_all

end
