(* ===== verification/Qwen3_Model_Executor.thy ===== *)
theory Qwen3_Model_Executor
  imports Executor_Frame Qwen3_Books "HOL-Library.List_Lexorder" "HOL-Library.Char_ord"
begin

text \<open>
  The rest of the executor: the speculative transaction of \<open>executor/spec.rs\<close>, LoRA adapters on all
  ranks, the draft model; and the executor as an instance of the \<open>ModelExecutor\<close> interface that the
  scheduler is generic in. The last section shows what the scheduler relies on of an executor for
  this one.
\<close>

section \<open>The speculative transaction\<close>

definition run_catch :: "('x, 'a) run \<Rightarrow> (string \<Rightarrow> ('x, 'a) run) \<Rightarrow> ('x, 'a) run" where
  "run_catch m h x = (case m x of Some (Inl e, y) \<Rightarrow> h e y | r \<Rightarrow> r)"

text \<open>A request whose KV is missing or whose revert is refused is skipped with a warning.\<close>

definition revert_one :: "('q, 'i, 'g, 'h, 'd, 'o) executor_env \<Rightarrow> request_id \<Rightarrow> ('q, 'i, 'g, 'h, 'd, 'o, unit) exec" where
  "revert_one V i =
     run_bind (run_get (\<lambda>x. map_of (qx_request_kvs x) i)) (\<lambda>r.
     if r = None then run_ok ()
     else run_bind (with_rkv i (run_kv_op (en_index V) (en_tokens V) RevertSchedule)) (\<lambda>_. run_ok ()))"

definition revert_speculative_schedules :: "('q, 'i, 'g, 'h, 'd, 'o) executor_env \<Rightarrow> request_id list \<Rightarrow> ('q, 'i, 'g, 'h, 'd, 'o, unit) exec" where
  "revert_speculative_schedules V ids = run_each (revert_one V) (rev ids)"

definition revert_and_fail :: "('q, 'i, 'g, 'h, 'd, 'o) executor_env \<Rightarrow> request_id list \<Rightarrow> string \<Rightarrow> ('q, 'i, 'g, 'h, 'd, 'o, 'a) exec" where
  "revert_and_fail V ids e = run_bind (revert_speculative_schedules V ids) (\<lambda>_. run_err e)"

definition check_verify_item :: "verify_item \<Rightarrow> ('q, 'i, 'g, 'h, 'd, 'o, unit) exec" where
  "check_verify_item r =
     run_bind (run_ensure (vi_token_ids r \<noteq> []) ''speculative verify request has an empty verify span'') (\<lambda>_.
     run_bind (run_get (\<lambda>x. vi_id r \<in> set (qx_dflash_ready x))) (\<lambda>ready.
     run_bind (run_ensure ready ''speculative verification requested before DFlash state is ready'') (\<lambda>_.
     require_rkv (vi_id r))))"

fun schedule_spans :: "('q, 'i, 'g, 'h, 'd, 'o) executor_env \<Rightarrow> verify_item list \<Rightarrow> request_id list \<Rightarrow> ('q, 'i, 'g, 'h, 'd, 'o, request_id list) exec" where
  "schedule_spans V [] scheduled = run_ok scheduled"
| "schedule_spans V (r # rs) scheduled =
     run_bind (with_rkv (vi_id r) (run_kv_op (en_index V) (en_tokens V) (ScheduleSpeculative (length (vi_token_ids r))))) (\<lambda>granted.
     if granted then schedule_spans V rs (scheduled @ [vi_id r])
     else revert_and_fail V scheduled ''schedule_speculative failed'')"

fun apply_spans :: "('q, 'i, 'g, 'h, 'd, 'o) executor_env \<Rightarrow> request_id list \<Rightarrow> verify_result list \<Rightarrow> request_id list \<Rightarrow> ('q, 'i, 'g, 'h, 'd, 'o, unit) exec" where
  "apply_spans V scheduled [] applied = run_ok ()"
| "apply_spans V scheduled (v # vs) applied =
     run_bind (with_rkv (vr_id v) (run_kv_op (en_index V) (en_tokens V) (ApplySpeculative (vr_accepted_tokens v)))) (\<lambda>committed.
     if committed then apply_spans V scheduled vs (applied @ [vr_id v])
     else revert_and_fail V (filter (\<lambda>i. i \<notin> set applied) scheduled) ''apply_speculative failed'')"

definition observe_draft :: "usize \<Rightarrow> usize \<Rightarrow> spec_decode_counters \<Rightarrow> spec_decode_counters" where
  "observe_draft num_draft_tokens accepted c =
     (let tallied = min accepted (unat (sd_num_spec_tokens c)) in
      c\<lparr>sd_num_drafts := sd_num_drafts c + 1, sd_num_draft_tokens := sd_num_draft_tokens c + of_nat num_draft_tokens,
        sd_num_accepted_tokens := sd_num_accepted_tokens c + of_nat accepted,
        sd_per_pos := map (\<lambda>n. n + 1) (take tallied (sd_per_pos c)) @ drop tallied (sd_per_pos c)\<rparr>)"

definition observe_verify :: "verify_item list \<Rightarrow> verify_result list \<Rightarrow> spec_decode_counters \<Rightarrow> spec_decode_counters" where
  "observe_verify requests results c =
     foldl (\<lambda>c (r, v). observe_draft (saturating_sub (length (vi_token_ids r)) 1) (vr_matched_draft_tokens v) c) c (zip requests results)"

definition commit_verify :: "('q, 'i, 'g, 'h, 'd, 'o) executor_env \<Rightarrow> verify_item list \<Rightarrow> request_id list \<Rightarrow> verify_result list \<Rightarrow>
    ('q, 'i, 'g, 'h, 'd, 'o, verify_result list) exec" where
  "commit_verify V requests scheduled results =
     (if length results \<noteq> length requests then revert_and_fail V scheduled ''speculative verify returned a wrong number of results''
      else if list_ex (\<lambda>(r, v). vi_id r \<noteq> vr_id v) (zip requests results)
      then revert_and_fail V scheduled ''speculative verify returned another request''
      else
        run_bind (apply_spans V scheduled results []) (\<lambda>_.
        run_bind (run_each (\<lambda>v. save_sealed_blocks V (vr_id v)) results) (\<lambda>_.
        run_bind (run_upd (\<lambda>x. x\<lparr>qx_spec_decode_counters := map_option (observe_verify requests results) (qx_spec_decode_counters x)\<rparr>)) (\<lambda>_.
        run_ok results))))"

definition execute_speculative_verify :: "('q, 'i, 'g, 'h, 'd, 'o) executor_env \<Rightarrow> verify_item list \<Rightarrow> u64 \<Rightarrow>
    ('q, 'i, 'g, 'h, 'd, 'o, verify_result list) exec" where
  "execute_speculative_verify V requests sample_seed =
     run_bind (run_get qx_speculative) (\<lambda>spec.
     run_bind (run_ensure (spec \<noteq> None) ''speculative verification requested but no draft model is loaded'') (\<lambda>_.
     run_bind (run_each check_verify_item requests) (\<lambda>_.
     run_bind (schedule_spans V requests []) (\<lambda>scheduled.
     run_bind (run_map (rkv_view V) (map (\<lambda>r. (vi_id r, length (vi_token_ids r))) requests)) (\<lambda>views.
     run_bind (run_catch (exec_run_step V (StepVerify requests views sample_seed)) (revert_and_fail V scheduled)) (\<lambda>outcome.
     case outcome of
       OutVerify results \<Rightarrow> commit_verify V requests scheduled results
     | _ \<Rightarrow> revert_and_fail V scheduled ''speculative verify returned unexpected''))))))"

definition execute_speculative_draft :: "('q, 'i, 'g, 'h, 'd, 'o) executor_env \<Rightarrow> draft_item list \<Rightarrow> ('q, 'i, 'g, 'h, 'd, 'o, draft_result list) exec" where
  "execute_speculative_draft V requests =
     run_bind (run_get qx_speculative) (\<lambda>spec.
     run_bind (run_ensure (spec \<noteq> None) ''speculative draft requested but no draft model is loaded'') (\<lambda>_.
     run_bind (run_each (\<lambda>r. run_bind (run_get (\<lambda>x. dft_id r \<in> set (qx_dflash_ready x))) (\<lambda>ready.
       run_ensure ready ''speculative draft requested before DFlash state is ready'')) requests) (\<lambda>_.
     run_bind (exec_run_step V (StepDraft requests)) (\<lambda>outcome.
     case outcome of OutDraft results \<Rightarrow> run_ok results | _ \<Rightarrow> run_err ''speculative draft returned unexpected''))))"

section \<open>LoRA adapters\<close>

definition ensure_lora_capacity :: "string list \<Rightarrow> string \<Rightarrow> usize \<Rightarrow> bool \<Rightarrow> string + unit" where
  "ensure_lora_capacity loaded name max_loras load_inplace =
     (if name \<in> set loaded then ensure load_inplace ''LoRA adapter is already loaded''
      else ensure (length loaded < max_loras) ''LoRA adapter capacity exceeded'')"

text \<open>A command on every rank, the primary first; how many of them failed.\<close>

definition on_all_ranks :: "(('g, 'h, 'd) lane, unit) run \<Rightarrow> ('q, 'i, 'g, 'h, 'd, 'o, usize) exec" where
  "on_all_ranks f x =
     (let (r, p) = worker_call f (qx_primary x); rws = map (worker_call f) (qx_workers x)
      in Some (Inr (length (filter isl (r # map fst rws))), x\<lparr>qx_primary := p, qx_workers := map snd rws\<rparr>))"

definition load_lora_adapter :: "('q, 'i, 'g, 'h, 'd, 'o) executor_env \<Rightarrow> string \<Rightarrow> string \<Rightarrow> bool \<Rightarrow> ('q, 'i, 'g, 'h, 'd, 'o, unit) exec" where
  "load_lora_adapter V name path load_inplace =
     run_bind (run_get (\<lambda>x. x)) (\<lambda>x.
     run_bind (run_res (ensure_lora_capacity (qx_loaded_lora_adapters x) name (qx_max_loras x) load_inplace)) (\<lambda>_.
     run_bind (run_res (en_lora_file V path)) (\<lambda>_.
     run_bind (run_ensure (rw_alive (qx_primary x)) ''worker channel closed'') (\<lambda>_.
     run_bind (on_all_ranks (gpu (dv_install_lora (en_device V) name path load_inplace))) (\<lambda>errors.
     if 0 < errors then
       run_bind (on_all_ranks (gpu (dv_discard_lora (en_device V) name))) (\<lambda>cleanup_errors.
       run_bind (if cleanup_errors = 0 then run_upd (\<lambda>x. x\<lparr>qx_loaded_lora_adapters := removeAll name (qx_loaded_lora_adapters x)\<rparr>) else run_ok ()) (\<lambda>_.
       run_err ''failed to load LoRA adapter''))
     else run_upd (\<lambda>x. x\<lparr>qx_loaded_lora_adapters := List.insert name (qx_loaded_lora_adapters x)\<rparr>))))))"

text \<open>Sending stops at the first rank whose channel is closed; the ranks before it have the command.\<close>

definition unload_lora_adapter :: "('q, 'i, 'g, 'h, 'd, 'o) executor_env \<Rightarrow> string \<Rightarrow> ('q, 'i, 'g, 'h, 'd, 'o, unit) exec" where
  "unload_lora_adapter V name x =
     (let f = gpu (dv_uninstall_lora (en_device V) name); sent = takeWhile rw_alive (qx_workers x) in
      if \<not> rw_alive (qx_primary x) then Some (Inl ''worker channel closed'', x)
      else if length sent < length (qx_workers x) then
        Some (Inl ''worker channel closed'', x\<lparr>qx_primary := snd (worker_call f (qx_primary x)),
          qx_workers := map (snd \<circ> worker_call f) sent @ drop (length sent) (qx_workers x)\<rparr>)
      else run_bind (on_all_ranks f) (\<lambda>errors.
        if 0 < errors then run_err ''failed to unload LoRA adapter''
        else run_upd (\<lambda>x. x\<lparr>qx_loaded_lora_adapters := removeAll name (qx_loaded_lora_adapters x)\<rparr>)) x)"

definition list_lora_adapters :: "('q, 'i, 'g, 'h, 'd, 'o) qwen3_executor \<Rightarrow> string list" where
  "list_lora_adapters x = sort (remdups (qx_loaded_lora_adapters x))"

section \<open>The interface\<close>

definition max_context_tokens :: "('q, 'i, 'g, 'h, 'd, 'o) qwen3_executor \<Rightarrow> usize" where
  "max_context_tokens x =
     (case qx_speculative x of
        Some m \<Rightarrow> min (qx_max_position_embeddings x) (saturating_sub (dm_max_position_embeddings m) (dm_block_size m))
      | None \<Rightarrow> qx_max_position_embeddings x)"

definition prefetched_blocks :: "('q, 'i, 'g, 'h, 'd, 'o) qwen3_executor \<Rightarrow> request_id \<Rightarrow> usize" where
  "prefetched_blocks x i = (case map_of (qx_prefetch x) i of None \<Rightarrow> 0 | Some ps \<Rightarrow> length (pb_held (ps_probe ps)))"

text \<open>The scheduler's view of a call: a panic leaves no answer, here an error.\<close>

definition called :: "('x, 'a) run \<Rightarrow> 'x \<Rightarrow> (string + 'a) \<times> 'x" where
  "called m x = (case m x of None \<Rightarrow> (Inl ''panic'', x) | Some r \<Rightarrow> r)"

definition called_or :: "'a \<Rightarrow> ('x, 'a) run \<Rightarrow> 'x \<Rightarrow> 'a \<times> 'x" where
  "called_or d m x = (case called m x of (Inl _, y) \<Rightarrow> (d, y) | (Inr a, y) \<Rightarrow> (a, y))"

fun run_lora_command :: "('q, 'i, 'g, 'h, 'd, 'o) executor_env \<Rightarrow> lora_control \<Rightarrow> ('q, 'i, 'g, 'h, 'd, 'o, unit) exec" where
  "run_lora_command V (LoraLoad name path load_inplace) = load_lora_adapter V name path load_inplace"
| "run_lora_command V (LoraUnload name _) = unload_lora_adapter V name"
| "run_lora_command V LoraList = run_ok ()"

definition qwen3_model_executor :: "('q, 'i, 'g, 'h, 'd, 'o) executor_env \<Rightarrow> ('q, 'i, 'g, 'h, 'd, 'o) qwen3_executor executor" where
  "qwen3_model_executor V =
     \<lparr>ex_block_size = qx_block_size, ex_max_request_blocks = (\<lambda>x. max_request_blocks (qx_store x)),
      ex_max_context_tokens = max_context_tokens, ex_max_decode_batch_size = (\<lambda>x. last batch_buckets),
      ex_available_blocks = (\<lambda>x. available_len (en_index V) (qx_store x)),
      ex_is_stop_token = (\<lambda>x t. t \<in> set (qx_stop_token_ids x)),
      ex_drop_request = (\<lambda>i. called (executor_drop_request V i)),
      ex_execute_prefill = (\<lambda>p. called (execute_prefill V p)),
      ex_execute_decode = (\<lambda>p. called (execute_decode V p)),
      ex_execute_unified = (\<lambda>p. called (execute_unified V p)),
      ex_execute_draft = (\<lambda>ds. called (execute_speculative_draft V ds)),
      ex_execute_verify = (\<lambda>vs sd. called (execute_speculative_verify V vs sd)),
      ex_speculative_enabled = (\<lambda>x. qx_speculative x \<noteq> None),
      ex_request_ready = (\<lambda>x i. i \<in> set (qx_dflash_ready x)),
      ex_list_lora_adapters = list_lora_adapters,
      ex_lora_command = (\<lambda>c x. snd (called (run_lora_command V c) x)),
      ex_begin_kv_prefetch = (\<lambda>i ts l n. called_or False (begin_kv_prefetch V i ts l n)),
      ex_drain_ready_prefetch = (\<lambda>n. called_or [] (drain_ready_prefetch V n)),
      ex_wait_ready_prefetch = (\<lambda>n. called_or [] (wait_ready_prefetch V n)),
      ex_prefetched_blocks = prefetched_blocks,
      ex_withholds_finishes = qx_flush_offload_on_finish,
      ex_has_decode_overlap = qx_overlap,
      ex_poll_async_prefill = (\<lambda>x. case poll_async_prefill V x of None \<Rightarrow> (None, x) | Some r \<Rightarrow> r)\<rparr>"

section \<open>What a step answers\<close>

lemma case_run [run_simps]:
  "(case v of Inl e \<Rightarrow> f e | Inr a \<Rightarrow> g a) x = Some (Inr b, y) \<longleftrightarrow>
    (\<exists>e. v = Inl e \<and> f e x = Some (Inr b, y)) \<or> (\<exists>a. v = Inr a \<and> g a x = Some (Inr b, y))"
  by (cases v) auto

lemma outcome_run [run_simps]:
  "(case out of Ack \<Rightarrow> f1 | OutPrefill p \<Rightarrow> f2 p | OutDecode ds \<Rightarrow> f3 ds | OutUnified u \<Rightarrow> f4 u | OutSplitDecodeReady ss \<Rightarrow> f5 ss |
      OutVerify vs \<Rightarrow> f6 vs | OutDraft fs \<Rightarrow> f7 fs) x = Some (Inr b, y) \<longleftrightarrow>
    out = Ack \<and> f1 x = Some (Inr b, y) \<or> (\<exists>p. out = OutPrefill p \<and> f2 p x = Some (Inr b, y)) \<or>
    (\<exists>ds. out = OutDecode ds \<and> f3 ds x = Some (Inr b, y)) \<or> (\<exists>u. out = OutUnified u \<and> f4 u x = Some (Inr b, y)) \<or>
    (\<exists>ss. out = OutSplitDecodeReady ss \<and> f5 ss x = Some (Inr b, y)) \<or> (\<exists>vs. out = OutVerify vs \<and> f6 vs x = Some (Inr b, y)) \<or>
    (\<exists>fs. out = OutDraft fs \<and> f7 fs x = Some (Inr b, y))"
  by (cases out) auto

lemma worker_call_Inr:
  "fst (worker_call f w) = Inr a \<Longrightarrow> \<exists>l. f (rw_lane w) = Some (Inr a, l) \<and> snd (worker_call f w) = w\<lparr>rw_lane := l\<rparr>"
  by (auto simp: worker_call_def split: if_split_asm option.split_asm)

lemma run_step_Inr:
  assumes "fst (run_step D knee step p ws) = Inr out"
  shows "\<exists>l. execute_step_on_lane D knee step True (rw_lane p) = Some (Inr out, l) \<and> fst (snd (run_step D knee step p ws)) = p\<lparr>rw_lane := l\<rparr>"
  using assms
  by (auto simp: run_step_def bind_res_Inr_iff case_prod_unfold Let_def split: if_split_asm dest!: worker_call_Inr)

lemma exec_step_answers: "exec_run_step V step x = Some (Inr out, y) \<Longrightarrow> step_answers step out"
  by (auto simp: exec_run_step_def case_prod_unfold Let_def dest!: run_step_Inr lane_step_answers)

lemma answers_ids:
  "list_all2 prefill_answers rs vs \<Longrightarrow> map pq_id vs = map pi_id rs"
  "list_all2 decode_answers ds ws \<Longrightarrow> map dr_id ws = map di_id ds"
  "list_all2 draft_answers fs us \<Longrightarrow> map dfr_id us = map dft_id fs"
  by (auto simp: list_all2_conv_all_nth prefill_answers_def decode_answers_def draft_answers_def intro!: nth_equalityI)

lemma sized_item_id: "sized_item req n = Some req' \<Longrightarrow> pi_id req' = pi_id req"
  by (auto simp: sized_item_def Let_def split: if_split_asm)

lemma create_rkv_id: "create_rkv V req x = Some (Inr req', y) \<Longrightarrow> pi_id req' = pi_id req"
  by (auto simp: create_rkv_def run_simps Let_def split: if_split_asm prod.split_asm sum.split_asm)

lemma schedule_chunk_id: "schedule_prefill_chunk V req x = Some (Inr req', y) \<Longrightarrow> pi_id req' = pi_id req"
  by (auto simp: schedule_prefill_chunk_def run_simps bind_eq_Some_conv split: if_split_asm dest!: sized_item_id create_rkv_id)

lemma schedule_chunks_ids:
  assumes "run_map (schedule_prefill_chunk V) rs x = Some (Inr rs', y)"
  shows "map pi_id rs' = map pi_id rs"
proof -
  have "list_all2 (\<lambda>r r'. pi_id r' = pi_id r) rs rs'"
    by (rule run_map_Inr [OF assms]) (rule schedule_chunk_id)
  thus ?thesis by (auto simp: list_all2_conv_all_nth intro!: nth_equalityI)
qed

lemma prefill_ids:
  assumes "execute_prefill V p x = Some (Inr r, y)"
  shows "map pq_id (prr_requests r) = map pi_id (pp_requests p)"
  using assms
  by (auto simp: execute_prefill_def run_simps dest!: exec_step_answers schedule_chunks_ids answers_ids)

lemma unified_ids:
  assumes "execute_unified V p x = Some (Inr r, y)"
  shows "map dr_id (ur_decode_requests r) = map di_id (up_decode_requests p)"
    and "qx_overlap x \<Longrightarrow> ur_prefill_requests r = []"
    and "\<not> qx_overlap x \<Longrightarrow> map pq_id (ur_prefill_requests r) = map pi_id (up_prefill_requests p)"
proof -
  obtain prefills pvs dvs x1 out x2 where
      ids: "map pi_id prefills = map pi_id (up_prefill_requests p)"
    and out: "exec_run_step V (if qx_overlap x
         then StepSplitConcurrent prefills pvs (up_decode_requests p) dvs (up_sample_seed p)
         else StepUnified prefills pvs (up_decode_requests p) dvs (up_sample_seed p)) x1 = Some (Inr out, x2)"
    and fin: "(case out of OutUnified result \<Rightarrow> finish_unified V result
      | OutSplitDecodeReady results \<Rightarrow> finish_split V results | _ \<Rightarrow> run_err ''unified returned unexpected'') x2 = Some (Inr r, y)"
    using assms unfolding execute_unified_def run_simps by (blast dest: schedule_chunks_ids)
  have u: "r = u" if "finish_unified V u x2 = Some (Inr r, y)" for u
    using that by (auto simp: finish_unified_def run_simps)
  have d: "r = \<lparr>ur_prefill_requests = [], ur_decode_requests = vs\<rparr>" if "finish_split V vs x2 = Some (Inr r, y)" for vs
    using that by (auto simp: finish_split_def run_simps case_prod_unfold Let_def split: option.split_asm prod.split_asm sum.split_asm if_split_asm)
  show "map dr_id (ur_decode_requests r) = map di_id (up_decode_requests p)"
    "qx_overlap x \<Longrightarrow> ur_prefill_requests r = []"
    "\<not> qx_overlap x \<Longrightarrow> map pq_id (ur_prefill_requests r) = map pi_id (up_prefill_requests p)"
    using exec_step_answers [OF out] fin ids by (auto split: if_split_asm dest!: u d answers_ids)
qed

lemma decode_ids:
  assumes "execute_decode V p x = Some (Inr r, y)"
  shows "map dr_id r = map di_id (dp_requests p)"
  using assms
  by (auto simp: execute_decode_def run_simps split: if_split_asm dest!: exec_step_answers answers_ids unified_ids(1))

lemma draft_ids:
  assumes "execute_speculative_draft V ds x = Some (Inr r, y)"
  shows "map dfr_id r = map dft_id ds"
  using assms by (auto simp: execute_speculative_draft_def run_simps dest!: exec_step_answers answers_ids)

lemma commit_verify_Inr:
  assumes "commit_verify V requests scheduled results x = Some (Inr r, y)"
  shows "r = results \<and> map vr_id results = map vi_id requests"
proof (cases "length results = length requests \<and> \<not> list_ex (\<lambda>(q, v). vi_id q \<noteq> vr_id v) (zip requests results)")
  case True
  have "vr_id (results ! i) = vi_id (requests ! i)" if "i < length requests" for i
    using True that nth_mem [of i "zip requests results"] by (force simp: list_ex_iff)
  hence "map vr_id results = map vi_id requests"
    using True by (auto intro!: nth_equalityI)
  thus ?thesis
    using assms True by (auto simp: commit_verify_def run_simps)
next
  case False
  thus ?thesis
    using assms by (auto simp: commit_verify_def revert_and_fail_def run_simps split: if_split_asm)
qed

lemma verify_ids:
  assumes "execute_speculative_verify V vs sd x = Some (Inr r, y)"
  shows "map vr_id r = map vi_id vs"
  using assms
  by (auto simp: execute_speculative_verify_def run_simps revert_and_fail_def dest!: commit_verify_Inr)

section \<open>The prefill in flight\<close>

definition flight :: "('q, 'i, 'g, 'h, 'd, 'o) qwen3_executor \<Rightarrow> bool \<times> (prefill_item list \<times> 'h \<times> u64) option" where
  "flight x = (qx_async_prefill x, ln_inflight_prefill (rw_lane (qx_primary x)))"

definition inflight_prefill_ids :: "('q, 'i, 'g, 'h, 'd, 'o) qwen3_executor \<Rightarrow> request_id list" where
  "inflight_prefill_ids x = (case flight x of (True, Some (items, _)) \<Rightarrow> map pi_id items | _ \<Rightarrow> [])"

interpretation flight: bystander flight
  by unfold_locales (simp_all add: flight_def)

lemma flight_with_rkv [intro, simp]: "run_keeps flight (with_rkv i k)"
  by (auto simp: run_keeps_def with_rkv_def flight_def split: option.split_asm prod.split_asm)

lemma flight_upd [intro, simp]:
  "run_keeps flight (run_upd (\<lambda>x. x\<lparr>qx_request_kvs := k x\<rparr>))" "run_keeps flight (run_upd (\<lambda>x. x\<lparr>qx_dflash_ready := d x\<rparr>))"
  "run_keeps flight (run_upd (\<lambda>x. x\<lparr>qx_loaded_lora_adapters := l x\<rparr>))" "run_keeps flight (run_upd (\<lambda>x. x\<lparr>qx_spec_decode_counters := s x\<rparr>))"
  by (auto intro!: run_keeps_upd simp: flight_def)

lemma flight_rkv_op [intro, simp]: "run_keeps flight (rkv_op V i op e)"
  unfolding rkv_op_def by (auto intro!: run_keeps_bind)

lemma worker_call_keeps: "run_keeps ln_inflight_prefill f \<Longrightarrow> ln_inflight_prefill (rw_lane (snd (worker_call f w))) = ln_inflight_prefill (rw_lane w)"
  by (auto simp: worker_call_def split: option.split prod.split dest: run_keepsD)

lemma flight_primary: "run_keeps ln_inflight_prefill f \<Longrightarrow> run_keeps flight (on_primary f)"
  by (auto simp: run_keeps_def [of flight] on_primary_def flight_def worker_call_keeps case_prod_unfold Let_def)

lemma flight_drop_dflash [intro, simp]: "run_keeps flight (lane_drop_dflash i)"
  unfolding lane_drop_dflash_def by (intro flight_primary run_keeps_upd) (simp add: drop_dflash_request_def split: option.split)

lemma flight_step:
  assumes "\<And>ps pvs ds dvs sd. step \<noteq> StepSplitConcurrent ps pvs ds dvs sd"
  shows "run_keeps flight (exec_run_step V step)"
proof -
  have "run_keeps ln_inflight_prefill (execute_step_on_lane (en_device V) (en_knee V) step True)"
    unfolding run_keeps_def using lane_step_inflight assms by metis
  thus ?thesis
    by (auto simp: run_keeps_def [of flight] exec_run_step_def flight_def run_step_def worker_call_keeps case_prod_unfold Let_def
        split: if_split_asm)
qed

lemma flight_schedule [intro, simp]: "run_keeps flight (schedule_prefill_chunk V req)"
  unfolding schedule_prefill_chunk_def create_rkv_def Let_def by (auto intro!: run_keeps_bind split: option.split prod.split sum.split)

lemma flight_decodes [intro, simp]:
  "run_keeps flight (schedule_decodes V ds)" "run_keeps flight (apply_decodes V vs)" "run_keeps flight (drop_stale_contexts vs)"
  "run_keeps flight (decode_views V ds)" "run_keeps flight (prefill_views V ps)" "run_keeps flight (apply_prefill_result V r)"
  unfolding schedule_decodes_def apply_decodes_def drop_stale_contexts_def decode_views_def prefill_views_def apply_prefill_result_def
  by (auto intro!: run_keeps_bind run_keeps_each run_keeps_map split: option.split)

lemma flight_drop_request: "run_keeps flight (executor_drop_request V i)"
  unfolding executor_drop_request_def by (auto intro!: run_keeps_bind split: option.split prefetch_phase.split)

lemma flight_draft: "run_keeps flight (execute_speculative_draft V ds)"
  unfolding execute_speculative_draft_def
  by (auto intro!: run_keeps_bind run_keeps_each flight_step split: step_outcome.split)

lemma flight_revert [intro, simp]: "run_keeps flight (revert_and_fail V ids e)"
  unfolding revert_and_fail_def revert_speculative_schedules_def revert_one_def by (auto intro!: run_keeps_bind run_keeps_each)

lemma flight_schedule_spans [intro, simp]: "run_keeps flight (schedule_spans V rs scheduled)"
  by (induction rs arbitrary: scheduled) (auto intro!: run_keeps_bind)

lemma flight_apply_spans [intro, simp]: "run_keeps flight (apply_spans V scheduled vs applied)"
  by (induction vs arbitrary: applied) (auto intro!: run_keeps_bind)

lemma run_keeps_catch: "run_keeps p m \<Longrightarrow> (\<And>e. run_keeps p (h e)) \<Longrightarrow> run_keeps p (run_catch m h)"
  unfolding run_keeps_def run_catch_def by (auto split: option.split_asm prod.split_asm sum.split_asm)

lemma flight_verify: "run_keeps flight (execute_speculative_verify V vs sd)"
  unfolding execute_speculative_verify_def check_verify_item_def commit_verify_def
  by (auto intro!: run_keeps_bind run_keeps_each run_keeps_map run_keeps_catch flight_step split: step_outcome.split)

text \<open>LoRA commands reach the lanes through the device alone.\<close>

lemma flight_all_ranks: "run_keeps ln_inflight_prefill f \<Longrightarrow> run_keeps flight (on_all_ranks f)"
  by (auto simp: run_keeps_def [of flight] on_all_ranks_def flight_def worker_call_keeps case_prod_unfold Let_def)

lemma flight_load_lora: "run_keeps flight (load_lora_adapter V name path load_inplace)"
  unfolding load_lora_adapter_def by (auto intro!: run_keeps_bind flight_all_ranks)

lemma flight_unload_lora: "run_keeps flight (unload_lora_adapter V name)"
proof -
  let ?f = "gpu (dv_uninstall_lora (en_device V) name)"
  have "run_keeps flight (run_bind (on_all_ranks ?f) (\<lambda>errors.
      if 0 < errors then run_err ''failed to unload LoRA adapter''
      else run_upd (\<lambda>x. x\<lparr>qx_loaded_lora_adapters := removeAll name (qx_loaded_lora_adapters x)\<rparr>)))"
    by (auto intro!: run_keeps_bind flight_all_ranks)
  from run_keepsD [OF this] show ?thesis
    by (auto simp: run_keeps_def [of flight] unload_lora_adapter_def Let_def flight_def worker_call_keeps split: if_split_asm)
qed

lemma flight_lora_command: "run_keeps flight (run_lora_command V c)"
  by (cases c) (auto intro: flight_load_lora flight_unload_lora)

section \<open>The step that puts a prefill in flight\<close>

text \<open>What a call that answers an error leaves alone.\<close>

definition err_keeps :: "('x \<Rightarrow> 'p) \<Rightarrow> ('x, 'a) run \<Rightarrow> bool" where
  "err_keeps p m \<longleftrightarrow> (\<forall>x e y. m x = Some (Inl e, y) \<longrightarrow> p y = p x)"

lemma err_keeps_weaken: "run_keeps p m \<Longrightarrow> err_keeps p m"
  by (auto simp: err_keeps_def run_keeps_def)

lemma err_keeps_bind: "run_keeps p m \<Longrightarrow> (\<And>a. err_keeps p (f a)) \<Longrightarrow> err_keeps p (run_bind m f)"
  unfolding err_keeps_def run_keeps_def run_bind_Some by (metis sum.inject(1))

lemma async_of_flight: "run_keeps flight m \<Longrightarrow> run_keeps qx_async_prefill m"
  by (auto simp: run_keeps_def flight_def)

lemma async_primary: "run_keeps qx_async_prefill (on_primary f)" "run_keeps qx_async_prefill (exec_run_step V step)"
  by (auto simp: run_keeps_def on_primary_def exec_run_step_def case_prod_unfold Let_def)

lemma flight_finish_unified: "run_keeps flight (finish_unified V u)"
  unfolding finish_unified_def by (auto intro!: run_keeps_bind run_keeps_each)

lemma finish_split_error: "err_keeps qx_async_prefill (finish_split V vs)"
proof -
  have d: "run_keeps qx_async_prefill (apply_decodes V vs)"
    and s: "run_keeps qx_async_prefill (run_each (\<lambda>v. save_sealed_blocks V (dr_id v)) vs)"
    by (auto intro!: async_of_flight run_keeps_each)
  have r: "\<And>e. run_keeps qx_async_prefill (run_bind (on_primary (resolve_inflight_prefill (en_device V))) (\<lambda>_. run_err e))"
    by (auto intro!: run_keeps_bind async_primary(1))
  show ?thesis
    unfolding err_keeps_def finish_split_def
    by (auto simp: case_prod_unfold Let_def run_bind_Some [of "run_each _ _"] run_bind_Some [of "run_upd _"] run_upd_def run_ok_def
        split: option.split_asm prod.split_asm sum.split_asm if_split_asm dest!: run_keepsD [OF d] run_keepsD [OF s] run_keepsD [OF r])
qed

lemma flight_chunks [intro, simp]: "run_keeps flight (run_map (schedule_prefill_chunk V) rs)"
  by (auto intro!: run_keeps_map)

lemma finish_split_starts:
  assumes "finish_split V vs x = Some (Inr u, y)"
  shows "flight y = (True, snd (flight x))"
proof -
  obtain x1 x2 where a: "apply_decodes V vs x = Some (Inr (), x1)"
      and s: "run_each (\<lambda>v. save_sealed_blocks V (dr_id v)) vs x1 = Some (Inr (), x2)" and y: "flight y = (True, snd (flight x2))"
    using assms by (auto simp: finish_split_def flight_def run_simps case_prod_unfold Let_def split: option.split_asm prod.split_asm sum.split_asm if_split_asm)
  have "flight x1 = flight x" by (rule run_keepsD [OF flight_decodes(2) a])
  moreover have "flight x2 = flight x1" by (rule run_keepsD [OF flight.keeps_saves s])
  ultimately show ?thesis by (simp add: y)
qed

lemma step_starts_prefill:
  assumes "exec_run_step V (StepSplitConcurrent ps pvs ds dvs sd) x = Some (Inr out, y)"
  shows "\<exists>logits. snd (flight y) = Some (ps, logits, sd)"
  using assms by (auto simp: exec_run_step_def flight_def case_prod_unfold Let_def dest!: run_step_Inr split_starts_prefill)

lemma unified_starts:
  assumes "execute_unified V p x = Some (Inr r, y)"
  shows "qx_overlap x \<Longrightarrow> inflight_prefill_ids y = map pi_id (up_prefill_requests p)"
proof -
  assume overlap: "qx_overlap x"
  obtain prefills pvs dvs x1 out x2 where
      ids: "map pi_id prefills = map pi_id (up_prefill_requests p)"
    and out: "exec_run_step V (StepSplitConcurrent prefills pvs (up_decode_requests p) dvs (up_sample_seed p)) x1 = Some (Inr out, x2)"
    and fin: "(case out of OutUnified result \<Rightarrow> finish_unified V result
      | OutSplitDecodeReady results \<Rightarrow> finish_split V results | _ \<Rightarrow> run_err ''unified returned unexpected'') x2 = Some (Inr r, y)"
    using assms overlap unfolding execute_unified_def run_simps by (force dest: schedule_chunks_ids)
  obtain logits where "snd (flight x2) = Some (prefills, logits, up_sample_seed p)"
    using step_starts_prefill [OF out] by blast
  moreover obtain vs where "finish_split V vs x2 = Some (Inr r, y)"
    using exec_step_answers [OF out] fin by auto
  ultimately show ?thesis
    using ids by (simp add: inflight_prefill_ids_def finish_split_starts)
qed

lemma unified_async: "err_keeps qx_async_prefill (execute_unified V p)"
  unfolding execute_unified_def
  by (auto intro!: err_keeps_bind async_primary finish_split_error err_keeps_weaken [OF run_keeps_basic(2)]
      err_keeps_weaken [OF async_of_flight [OF flight_finish_unified]] split: step_outcome.split intro: async_of_flight)

lemma unified_error:
  assumes "execute_unified V p x = Some (Inl e, y)"
  shows "inflight_prefill_ids y = inflight_prefill_ids x"
proof (cases "qx_async_prefill x")
  case True
  thus ?thesis using assms by (simp add: execute_unified_def run_bind_Some run_simps run_get_def run_ensure_def run_err_def)
next
  case False
  thus ?thesis using assms unified_async [of V p] by (auto simp: err_keeps_def inflight_prefill_ids_def flight_def)
qed

lemma unified_plain:
  assumes "execute_unified V p x = Some (Inr r, y)" and "\<not> qx_overlap x"
  shows "flight y = flight x"
proof -
  let ?step = "\<lambda>prefills pvs dvs. exec_run_step V (StepUnified prefills pvs (up_decode_requests p) dvs (up_sample_seed p))"
  obtain prefills pvs dvs x1 x2 x3 x4 x5 u where
      s: "run_map (schedule_prefill_chunk V) (up_prefill_requests p) x = Some (Inr prefills, x1)"
      "schedule_decodes V (up_decode_requests p) x1 = Some (Inr (), x2)" "prefill_views V prefills x2 = Some (Inr pvs, x3)"
      "decode_views V (up_decode_requests p) x3 = Some (Inr dvs, x4)" "?step prefills pvs dvs x4 = Some (Inr (OutUnified u), x5)"
      "finish_unified V u x5 = Some (Inr r, y)"
    using assms unfolding execute_unified_def run_simps by (force dest: exec_step_answers)
  have "flight x1 = flight x" by (rule run_keepsD [OF flight_chunks s(1)])
  moreover have "flight x2 = flight x1" "flight x3 = flight x2" "flight x4 = flight x3"
    using s run_keepsD [OF flight_decodes(1)] run_keepsD [OF flight_decodes(5)] run_keepsD [OF flight_decodes(4)] by blast+
  moreover have "flight x5 = flight x4" by (rule run_keepsD [OF flight_step s(5)]) simp
  moreover have "flight y = flight x5" by (rule run_keepsD [OF flight_finish_unified s(6)])
  ultimately show ?thesis by simp
qed

lemma ids_of_flight: "run_keeps flight m \<Longrightarrow> run_keeps inflight_prefill_ids m"
  by (auto simp: run_keeps_def inflight_prefill_ids_def)

lemma flight_contexts [intro, simp]: "run_keeps flight (mark_captured result)"
  unfolding mark_captured_def Let_def by (auto intro!: run_keeps_bind run_keeps_each split: dflash_prefill_action.split)

lemma flight_prefill: "run_keeps flight (execute_prefill V p)"
  unfolding execute_prefill_def by (auto intro!: run_keeps_bind run_keeps_each flight_step split: step_outcome.split)

lemma flight_compiled:
  assumes "execute_decode V p x = Some (v, y)" and "qx_decode_group_compiled x"
  shows "flight y = flight x"
proof -
  have c: "run_keeps flight (run_bind (schedule_decodes V (dp_requests p)) (\<lambda>_.
       run_bind (decode_views V (dp_requests p)) (\<lambda>views.
       run_bind (exec_run_step V (StepDecode (dp_requests p) views (dp_sample_seed p))) (\<lambda>outcome.
       case outcome of
         OutDecode results \<Rightarrow>
           run_bind (apply_decodes V results) (\<lambda>_.
           run_bind (drop_stale_contexts results) (\<lambda>_.
           run_bind (run_each (\<lambda>v. save_sealed_blocks V (dr_id v)) results) (\<lambda>_.
           run_ok results)))
       | _ \<Rightarrow> run_err ''decode returned unexpected''))))"
    by (auto intro!: run_keeps_bind run_keeps_each flight_step split: step_outcome.split)
  show ?thesis
    using assms run_keepsD [OF c] by (simp add: execute_decode_def run_bind_def run_get_def)
qed

lemma ids_decode: "run_keeps inflight_prefill_ids (execute_decode V p)"
proof -
  let ?p = "\<lparr>up_prefill_requests = [], up_decode_requests = dp_requests p, up_sample_seed = dp_sample_seed p\<rparr>"
  have u: "inflight_prefill_ids y = inflight_prefill_ids x" if r: "execute_unified V ?p x = Some (r, y)" for x r y
  proof (cases r)
    case (Inr a)
    show ?thesis
    proof (cases "qx_overlap x")
      case True
      moreover have "\<not> qx_async_prefill x"
        using r Inr by (auto simp: execute_unified_def run_simps)
      ultimately show ?thesis
        using unified_starts [of V ?p x a y] r Inr by (simp add: inflight_prefill_ids_def [of x] flight_def)
    qed (use unified_plain [of V ?p x a y] r Inr in \<open>simp add: inflight_prefill_ids_def\<close>)
  qed (use unified_error r in blast)
  show ?thesis
    unfolding run_keeps_def
  proof (intro allI impI)
    fix x v y assume d: "execute_decode V p x = Some (v, y)"
    show "inflight_prefill_ids y = inflight_prefill_ids x"
    proof (cases "qx_decode_group_compiled x")
      case True
      thus ?thesis using flight_compiled [OF d] by (simp add: inflight_prefill_ids_def)
    next
      case False
      thus ?thesis using d u by (auto simp: execute_decode_def run_bind_Some run_get_def run_ok_def)
    qed
  qed
qed

lemma poll_ids:
  assumes "poll_async_prefill V x = Some (r, y)"
  shows "case r of None \<Rightarrow> inflight_prefill_ids y = inflight_prefill_ids x
    | Some p \<Rightarrow> map pq_id (prr_requests p) = inflight_prefill_ids x"
proof (cases r)
  case None
  thus ?thesis using assms
    by (auto simp: poll_async_prefill_def inflight_prefill_ids_def flight_def case_prod_unfold Let_def
        split: if_split_asm event_status.split_asm option.split_asm prod.split_asm sum.split_asm)
next
  case (Some p)
  then obtain g x1 where async: "qx_async_prefill x" and
      p: "on_primary (resolve_inflight_prefill (en_device V))
        (x\<lparr>qx_primary := (qx_primary x)\<lparr>rw_lane := (rw_lane (qx_primary x))\<lparr>ln_gpu := g\<rparr>\<rparr>, qx_async_prefill := False\<rparr>) = Some (Inr p, x1)"
    using assms
    by (auto simp: poll_async_prefill_def case_prod_unfold Let_def run_simps
        split: if_split_asm event_status.split_asm option.split_asm prod.split_asm sum.split_asm)
  let ?l = "(rw_lane (qx_primary x))\<lparr>ln_gpu := g\<rparr>"
  obtain l where l: "resolve_inflight_prefill (en_device V) ?l = Some (Inr p, l)"
    using p by (auto simp: on_primary_def case_prod_unfold Let_def dest!: worker_call_Inr)
  obtain rs logits sd where f: "ln_inflight_prefill ?l = Some (rs, logits, sd)"
    using l by (cases "ln_inflight_prefill ?l") (auto simp: resolve_inflight_prefill_def run_simps)
  show ?thesis
    using answers_ids(1) [OF resolve_answers [OF l f]] f async Some by (simp add: inflight_prefill_ids_def flight_def)
qed

section \<open>The executor keeps what the scheduler relies on\<close>

lemma called_Inr: "called m x = (Inr a, y) \<Longrightarrow> m x = Some (Inr a, y)"
  by (auto simp: called_def split: option.split_asm)

lemma called_keeps: "run_keeps p m \<Longrightarrow> p (snd (called m x)) = p x" "run_keeps p m \<Longrightarrow> p (snd (called_or d m x)) = p x"
  by (auto simp: called_def called_or_def split: option.split prod.split sum.split dest: run_keepsD)

text \<open>
  C7: The executor meets the scheduler's contract, on any device, offload engine and cache: every step
  answers exactly the requests of its plan; with decode overlap a unified step answers the decodes and
  puts its prefills in flight; a poll returns the prefill in flight in plan order or leaves it there;
  and no drop, decode, draft, verification, LoRA command or prefetch changes what is in flight.
\<close>
theorem qwen3_executor_ok: "executor_ok (qwen3_model_executor V) inflight_prefill_ids"
  unfolding executor_ok_def qwen3_model_executor_def executor.simps
proof (intro conjI allI impI, goal_cases)
  case (1 p x r x')
  show ?case by (simp only: prefill_ids [OF called_Inr [OF 1]])
next
  case (2 p x rs x')
  show ?case by (simp only: decode_ids [OF called_Inr [OF 2]])
next
  case (3 ds x rs x')
  show ?case by (simp only: draft_ids [OF called_Inr [OF 3]])
next
  case (4 vs sd x rs x')
  show ?case by (simp only: verify_ids [OF called_Inr [OF 4]])
next
  case (5 p x r x')
  show ?case by (simp only: unified_ids(1) [OF called_Inr [OF 5]])
next
  case (6 p x r x')
  show ?case by (rule unified_ids(2) [OF called_Inr [OF 6(1)] 6(2)])
next
  case (7 p x r x')
  show ?case by (rule unified_starts [OF called_Inr [OF 7(1)] 7(2)])
next
  case (8 p x r x')
  show ?case by (simp only: unified_ids(3) [OF called_Inr [OF 8(1)] 8(2)])
next
  case (9 x r x')
  thus ?case using poll_ids [of V x "Some r" x'] by (auto split: option.split_asm)
next
  case (10 x x')
  thus ?case using poll_ids [of V x None x'] by (auto split: option.split_asm)
qed (intro called_keeps ids_decode ids_of_flight flight_drop_request flight_draft flight_verify flight_lora_command flight.keeps_prefetch flight.keeps_drain)+

end
