(* ===== verification/Executor_Cache.thy ===== *)
theory Executor_Cache
  imports Kv_Holdings Qwen3_Model_Executor
begin

text \<open>
  The executor as a client of the KV cache: what it holds of the pool, and that every operation
  reaches the cache through legal calls only. So no operation of the executor panics in the cache,
  and everything that is proved of the cache holds of the executor's state.
\<close>

section \<open>What the executor holds\<close>

definition loads_of :: "prefetch_state \<Rightarrow> mutable_block list multiset" where
  "loads_of ps = (case ps_phase ps of Loading bs _ \<Rightarrow> {#bs#} | _ \<Rightarrow> {#})"

text \<open>Besides the maps: requests, probes and reservations that an operation has in hand.\<close>

definition executor_holds :: "('q, 'i, 'g, 'h, 'd, 'o) executor_env \<Rightarrow> block_pool \<times> 'i block_store \<times> immutable_block \<Rightarrow>
    'q request_kv multiset \<Rightarrow> prefix_probe multiset \<Rightarrow> mutable_block list multiset \<Rightarrow> ('q, 'i, 'g, 'h, 'd, 'o) qwen3_executor \<Rightarrow> bool" where
  "executor_holds V p RS PS LS x \<longleftrightarrow>
     kv_holds (en_index V) (en_tokens V) (en_salt V) p (qx_store x) (RS + mset (map snd (qx_request_kvs x)))
       (PS + mset (map (ps_probe \<circ> snd) (qx_prefetch x))) (LS + sum_list (map (loads_of \<circ> snd) (qx_prefetch x))) (mset (qx_pins x))"

text \<open>A parked prefetch asks for and loads no more than the prompt has hashes for.\<close>

definition prefetch_fits :: "prefetch_state \<Rightarrow> bool" where
  "prefetch_fits ps \<longleftrightarrow>
     (case ps_phase ps of
        Loading bs _ \<Rightarrow> pb_gpu_hit (ps_probe ps) + length bs \<le> length (pb_seq_hashes (ps_probe ps))
      | RemoteFetch hs _ _ _ _ \<Rightarrow> pb_gpu_hit (ps_probe ps) + length hs \<le> length (pb_seq_hashes (ps_probe ps))
      | Committed \<Rightarrow> True)"

definition executor_wf :: "block_pool \<times> 'i block_store \<times> immutable_block \<Rightarrow> ('q, 'i, 'g, 'h, 'd, 'o) qwen3_executor \<Rightarrow> bool" where
  "executor_wf p x \<longleftrightarrow> qx_pool x = fst p \<and> distinct (map fst (qx_request_kvs x)) \<and> distinct (map fst (qx_prefetch x)) \<and>
     (\<forall>e \<in> set (qx_prefetch x). prefetch_fits (snd e)) \<and> (qx_prefetch x \<noteq> [] \<longrightarrow> qx_offload x \<noteq> None) \<and>
     (\<forall>c ts. qx_vllm_compat x = Some c \<longrightarrow> length (vc_key_chain c ts) = length ts div bp_block_size (fst p))"

text \<open>A hit of the host tier is a prefix of the hashes it was asked for.\<close>

definition engine_hits :: "'o offload_engine \<Rightarrow> bool" where
  "engine_hits e \<longleftrightarrow> (\<forall>i hs ofl l k. fst (oe_query e i hs ofl) = Inr (QueryReady (Some l) k) \<longrightarrow> k \<le> length hs)"

lemma mset_alist_delete:
  "distinct (map fst xs) \<Longrightarrow> map_of xs i = Some a \<Longrightarrow> mset xs = add_mset (i, a) (mset (AList.delete i xs))"
  by (induction xs) (auto simp: delete_id split: if_split_asm)

lemma mset_alist_update:
  "distinct (map fst xs) \<Longrightarrow> mset (AList.update i a xs) = add_mset (i, a) (mset (AList.delete i xs))"
  by (induction xs) (auto simp: delete_id)

lemma set_alist_update: "distinct (map fst xs) \<Longrightarrow> set (AList.update i a xs) = insert (i, a) (set (AList.delete i xs))"
  using arg_cong [OF mset_alist_update, of xs set_mset i a] by simp

lemma set_alist_delete: "set (AList.delete i xs) \<subseteq> set xs"
  by (auto simp: AList.delete_eq)

lemma delete_idem: "map_of xs i = None \<Longrightarrow> AList.delete i xs = xs"
  by (simp add: delete_id map_of_eq_None_iff)

lemma sum_loads: "sum_list (map f xs) = sum_mset (image_mset f (mset xs))"
  by (induction xs) simp_all

text \<open>Updates of the store are moved inwards.\<close>

lemma store_first [simp]:
  "x\<lparr>qx_prefetch := ps, qx_store := st\<rparr> = x\<lparr>qx_store := st, qx_prefetch := ps\<rparr>"
  "x\<lparr>qx_request_kvs := rs, qx_store := st\<rparr> = x\<lparr>qx_store := st, qx_request_kvs := rs\<rparr>"
  "x\<lparr>qx_offload := ofl, qx_store := st\<rparr> = x\<lparr>qx_store := st, qx_offload := ofl\<rparr>"
  by simp_all

lemma take_prefetch_wp [wp_simps]:
  "returns (take_prefetch i) x Q \<longleftrightarrow> Q (Inr (map_of (qx_prefetch x) i)) (x\<lparr>qx_prefetch := AList.delete i (qx_prefetch x)\<rparr>)"
  by (simp add: returns_def take_prefetch_def)

lemma on_store_wp: "f (qx_store x) = Some (a, st) \<Longrightarrow> returns (on_store f) x Q \<longleftrightarrow> Q (Inr a) (x\<lparr>qx_store := st\<rparr>)"
  by (simp add: returns_def on_store_def)

section \<open>The executor against the cache's contract\<close>

locale executor_cache = kv_cache "en_index V" iv entries n "en_tokens V" valid "en_salt V" ix dh bs p
  for V :: "('q, 'i, 'g, 'h, 'd, 'o) executor_env" and iv entries n valid ix dh bs and p :: "block_pool \<times> 'i block_store \<times> immutable_block" +
  assumes hits: "engine_hits (en_engine V)"
begin

definition kept :: "'q request_kv multiset \<Rightarrow> prefix_probe multiset \<Rightarrow> mutable_block list multiset \<Rightarrow>
    ('q, 'i, 'g, 'h, 'd, 'o) qwen3_executor \<Rightarrow> bool" where
  "kept RS PS LS x \<longleftrightarrow> executor_holds V p RS PS LS x \<and> executor_wf p x"

lemma keptI: "executor_holds V p RS PS LS x \<Longrightarrow> executor_wf p x \<Longrightarrow> kept RS PS LS x"
  by (simp add: kept_def)

lemma kept_wf: "kept RS PS LS x \<Longrightarrow> executor_wf p x"
  by (simp add: kept_def)

text \<open>A call on the store, with the holdings it takes and gives.\<close>

lemma store_returns:
  assumes "kept RS PS LS x"
    and "\<And>RS' PS' LS' NS. own_all (qx_store x) (RS + RS') (PS + PS') (LS + LS') NS \<Longrightarrow>
      \<exists>a st. f (qx_store x) = Some (a, st) \<and> own_all st (RSa a + RS') (PSa a + PS') (LSa a + LS') NS \<and> G a"
    and "\<And>a st. kept (RSa a) (PSa a) (LSa a) (x\<lparr>qx_store := st\<rparr>) \<Longrightarrow> G a \<Longrightarrow> Q (Inr a) (x\<lparr>qx_store := st\<rparr>)"
  shows "returns (on_store f) x Q"
proof -
  obtain a st where a: "f (qx_store x) = Some (a, st)" "G a"
      "own_all st (RSa a + mset (map snd (qx_request_kvs x))) (PSa a + mset (map (ps_probe \<circ> snd) (qx_prefetch x)))
        (LSa a + sum_list (map (loads_of \<circ> snd) (qx_prefetch x))) (mset (qx_pins x))"
    using assms(1) assms(2) by (fastforce simp: kept_def executor_holds_def)
  have "kept (RSa a) (PSa a) (LSa a) (x\<lparr>qx_store := st\<rparr>)"
    using a(3) assms(1) by (simp add: kept_def executor_holds_def executor_wf_def)
  thus ?thesis
    using a(1,2) assms(3) by (auto simp: on_store_def returns_def)
qed

lemma in_store_returns:
  assumes "kept RS PS LS x"
    and "\<And>RS' PS' LS' NS. own_all (qx_store x) (RS + RS') (PS + PS') (LS + LS') NS \<Longrightarrow>
      \<exists>st. f (qx_store x) = Some st \<and> own_all st (RSa + RS') (PSa + PS') (LSa + LS') NS"
    and "\<And>st. kept RSa PSa LSa (x\<lparr>qx_store := st\<rparr>) \<Longrightarrow> Q (Inr ()) (x\<lparr>qx_store := st\<rparr>)"
  shows "returns (in_store f) x Q"
  unfolding in_store_def
  by (rule store_returns [OF assms(1), where RSa = "\<lambda>_. RSa" and PSa = "\<lambda>_. PSa" and LSa = "\<lambda>_. LSa" and G = "\<lambda>_. True"])
    (use assms(2,3) in \<open>fastforce+\<close>)

lemma drop_probe_returns:
  assumes "kept RS (add_mset b PS) LS x" and "\<And>st. kept RS PS LS (x\<lparr>qx_store := st\<rparr>) \<Longrightarrow> Q (Inr ()) (x\<lparr>qx_store := st\<rparr>)"
  shows "returns (drop_probe V b) x Q"
  unfolding drop_probe_def by (rule in_store_returns [OF assms(1), where RSa = RS and PSa = PS and LSa = LS]) (simp_all add: hold_drop_probe assms(2))

lemma drop_reservation_returns:
  assumes "kept RS PS (add_mset l LS) x" and "\<And>st. kept RS PS LS (x\<lparr>qx_store := st\<rparr>) \<Longrightarrow> Q (Inr ()) (x\<lparr>qx_store := st\<rparr>)"
  shows "returns (drop_reservation l) x Q"
  unfolding drop_reservation_def by (rule in_store_returns [OF assms(1), where RSa = RS and PSa = PS and LSa = LS]) (simp_all add: hold_drop_load assms(2))

lemma drop_rkv_returns:
  assumes "kept (add_mset r RS) PS LS x" and "\<And>st. kept RS PS LS (x\<lparr>qx_store := st\<rparr>) \<Longrightarrow> Q (Inr ()) (x\<lparr>qx_store := st\<rparr>)"
  shows "returns (drop_rkv V r) x Q"
  unfolding drop_rkv_def
  by (rule in_store_returns [OF assms(1), where RSa = RS and PSa = PS and LSa = LS]) (use hold_drop_request assms(2) in \<open>fastforce+\<close>)

lemma mark_returns:
  assumes "kept (add_mset r RS) PS LS x" and "\<And>st. kept (add_mset r RS) PS LS (x\<lparr>qx_store := st\<rparr>) \<Longrightarrow> Q (Inr ()) (x\<lparr>qx_store := st\<rparr>)"
  shows "returns (in_store (mark_blocks_reset_on_release r)) x Q"
  by (rule in_store_returns [OF assms(1), where RSa = "add_mset r RS" and PSa = PS and LSa = LS]) (simp_all add: hold_mark assms(2))

lemma evict_returns:
  assumes "kept RS PS LS x" and "\<And>st. kept RS PS LS (x\<lparr>qx_store := st\<rparr>) \<Longrightarrow> Q (Inr ()) (x\<lparr>qx_store := st\<rparr>)"
  shows "returns (evict_cached_blocks V) x Q"
  unfolding evict_cached_blocks_def by (rule in_store_returns [OF assms(1), where RSa = RS and PSa = PS and LSa = LS]) (simp_all add: hold_evict assms(2))

text \<open>Taking an entry out of the maps and putting one in.\<close>

lemma wfD:
  assumes "executor_wf p x"
  shows "qx_pool x = fst p" and "distinct (map fst (qx_request_kvs x))" and "distinct (map fst (qx_prefetch x))"
    and "map_of (qx_prefetch x) i = Some s \<Longrightarrow> prefetch_fits s" and "map_of (qx_prefetch x) i = Some s \<Longrightarrow> qx_offload x \<noteq> None"
  using assms by (auto simp: executor_wf_def dest: map_of_SomeD)

lemma take_request:
  assumes "kept RS PS LS x" and "map_of (qx_request_kvs x) i = Some r"
  shows "kept (add_mset r RS) PS LS (x\<lparr>qx_request_kvs := AList.delete i (qx_request_kvs x)\<rparr>)"
  using assms mset_alist_delete [OF wfD(2) [OF kept_wf [OF assms(1)]] assms(2)]
  by (simp add: kept_def executor_holds_def executor_wf_def distinct_delete)

lemma put_request:
  assumes "kept (add_mset r RS) PS LS (x\<lparr>qx_request_kvs := AList.delete i (qx_request_kvs x)\<rparr>)" and "distinct (map fst (qx_request_kvs x))"
  shows "kept RS PS LS (x\<lparr>qx_request_kvs := AList.update i r (qx_request_kvs x)\<rparr>)"
  using assms(1) mset_alist_update [OF assms(2), of i r] distinct_update [OF assms(2)]
  by (simp add: kept_def executor_holds_def executor_wf_def)

lemma take_entry:
  assumes "kept RS PS LS x" and "map_of (qx_prefetch x) i = Some s"
  shows "kept RS (add_mset (ps_probe s) PS) (loads_of s + LS) (x\<lparr>qx_prefetch := AList.delete i (qx_prefetch x)\<rparr>)"
  using assms mset_alist_delete [OF wfD(3) [OF kept_wf [OF assms(1)]] assms(2)] set_alist_delete [of i "qx_prefetch x"]
  by (auto simp: kept_def executor_holds_def executor_wf_def distinct_delete sum_loads add.assoc ac_simps)

lemma put_entry:
  assumes "kept RS (add_mset (ps_probe s) PS) (loads_of s + LS) (x\<lparr>qx_prefetch := AList.delete i (qx_prefetch x)\<rparr>)"
    and "distinct (map fst (qx_prefetch x))" and "prefetch_fits s" and "qx_offload x \<noteq> None"
  shows "kept RS PS LS (x\<lparr>qx_prefetch := AList.update i s (qx_prefetch x)\<rparr>)"
  using assms mset_alist_update [OF assms(2), of i s] distinct_update [OF assms(2)]
  by (auto simp: kept_def executor_holds_def executor_wf_def sum_loads ac_simps set_alist_update [OF assms(2)])

section \<open>Prefetches\<close>

lemma drop_state_returns:
  assumes "kept RS (add_mset (ps_probe s) PS) (loads_of s + LS) x"
    and "\<And>st. kept RS PS LS (x\<lparr>qx_store := st\<rparr>) \<Longrightarrow> Q (Inr ()) (x\<lparr>qx_store := st\<rparr>)"
  shows "returns (drop_prefetch_state V s) x Q"
  unfolding drop_prefetch_state_def wp_simps
proof (rule drop_probe_returns [OF assms(1)])
  fix st assume k: "kept RS PS (loads_of s + LS) (x\<lparr>qx_store := st\<rparr>)"
  show "case Inr () of Inl e \<Rightarrow> Q (Inl e) (x\<lparr>qx_store := st\<rparr>)
      | Inr u \<Rightarrow> returns (case ps_phase s of Loading bs _ \<Rightarrow> drop_reservation bs | _ \<Rightarrow> run_ok ()) (x\<lparr>qx_store := st\<rparr>) Q"
    using k assms(2) by (cases "ps_phase s") (auto simp: wp_simps loads_of_def intro: drop_reservation_returns)
qed

lemma remove_prefetch_returns:
  assumes "kept RS PS LS x"
    and "\<And>st. kept RS PS LS (x\<lparr>qx_prefetch := AList.delete i (qx_prefetch x), qx_store := st\<rparr>) \<Longrightarrow>
      Q (Inr ()) (x\<lparr>qx_prefetch := AList.delete i (qx_prefetch x), qx_store := st\<rparr>)"
  shows "returns (remove_prefetch V i) x Q"
proof (cases "map_of (qx_prefetch x) i")
  case None
  have "x\<lparr>qx_prefetch := AList.delete i (qx_prefetch x), qx_store := qx_store x\<rparr> = x"
    using None by (simp add: delete_idem)
  thus ?thesis
    using assms(1) assms(2) [of "qx_store x"] None by (simp add: remove_prefetch_def wp_simps)
next
  case (Some s)
  have "returns (drop_prefetch_state V s) (x\<lparr>qx_prefetch := AList.delete i (qx_prefetch x)\<rparr>) Q"
    by (rule drop_state_returns [OF take_entry [OF assms(1) Some]]) (use assms(2) in simp)
  thus ?thesis
    using Some by (simp add: remove_prefetch_def wp_simps)
qed

lemma insert_prefetch_returns:
  assumes "kept RS (add_mset (ps_probe s) PS) (loads_of s + LS) x" and "prefetch_fits s" and "qx_offload x \<noteq> None"
    and "\<And>y. kept RS PS LS y \<Longrightarrow> Q (Inr ()) y"
  shows "returns (insert_prefetch V i s) x Q"
  unfolding insert_prefetch_def wp_simps
proof (rule remove_prefetch_returns [OF assms(1)])
  fix st let ?y = "x\<lparr>qx_prefetch := AList.delete i (qx_prefetch x), qx_store := st\<rparr>"
  assume k: "kept RS (add_mset (ps_probe s) PS) (loads_of s + LS) ?y"
  have "i \<notin> fst ` set (AList.delete i (qx_prefetch x))" by (auto simp: AList.delete_eq)
  hence "kept RS PS LS (?y\<lparr>qx_prefetch := qx_prefetch ?y @ [(i, s)]\<rparr>)"
    using k assms(2,3) by (auto simp: kept_def executor_holds_def executor_wf_def ac_simps)
  thus "case Inr () of Inl e \<Rightarrow> Q (Inl e) ?y | Inr u \<Rightarrow> Q (Inr ()) (?y\<lparr>qx_prefetch := qx_prefetch ?y @ [(i, s)]\<rparr>)"
    using assms(4) by simp
qed

lemma engine_returns:
  assumes "qx_offload x \<noteq> None" and "\<And>o1 o2 a. f o1 = (a, o2) \<Longrightarrow> Q (Inr a) (x\<lparr>qx_offload := Some o2\<rparr>)"
  shows "returns (on_engine f) x Q"
  using assms by (auto simp: on_engine_def returns_def split: prod.split)

lemma kept_engine: "kept RS PS LS x \<Longrightarrow> kept RS PS LS (x\<lparr>qx_offload := Some ofl\<rparr>)"
  by (simp add: kept_def executor_holds_def executor_wf_def)

lemma kept_upds [simp]:
  "kept RS PS LS (x\<lparr>qx_saved_cursor := c\<rparr>) = kept RS PS LS x" "kept RS PS LS (x\<lparr>qx_dflash_ready := d\<rparr>) = kept RS PS LS x"
  "kept RS PS LS (x\<lparr>qx_primary := w\<rparr>) = kept RS PS LS x" "kept RS PS LS (x\<lparr>qx_workers := ws\<rparr>) = kept RS PS LS x"
  "kept RS PS LS (x\<lparr>qx_spec_decode_counters := k\<rparr>) = kept RS PS LS x" "kept RS PS LS (x\<lparr>qx_loaded_lora_adapters := l\<rparr>) = kept RS PS LS x"
  "kept RS PS LS (x\<lparr>qx_async_prefill := b\<rparr>) = kept RS PS LS x" "kept RS PS LS (x\<lparr>qx_prefix_cache_requested := b\<rparr>) = kept RS PS LS x"
  "kept RS PS LS (x\<lparr>qx_l1_retention_disabled := b\<rparr>) = kept RS PS LS x"
  by (simp_all add: kept_def executor_holds_def executor_wf_def)

lemma kept_windows:
  "kept RS PS LS x \<Longrightarrow> kept RS PS LS (x\<lparr>qx_vllm_compat := map_option (vc_consecutive_miss_windows_update g) (qx_vllm_compat x)\<rparr>)"
  by (auto simp: kept_def executor_holds_def executor_wf_def)

lemma lease_returns:
  assumes "kept RS PS LS x" and "qx_offload x \<noteq> None"
    and "\<And>ofl. kept RS PS LS (x\<lparr>qx_offload := Some ofl\<rparr>) \<Longrightarrow> Q (Inr ()) (x\<lparr>qx_offload := Some ofl\<rparr>)"
  shows "returns (release_query_lease V l) x Q"
  unfolding release_query_lease_def by (rule engine_returns [OF assms(2)]) (use assms(3) kept_engine [OF assms(1)] in simp)

text \<open>The load of a hit: the probe is in hand, and the blocks asked for fit behind its GPU hit.\<close>

lemma start_load_returns:
  assumes k: "kept RS (add_mset b PS) LS x" and o: "qx_offload x \<noteq> None" and fit: "pb_gpu_hit b + m \<le> length (pb_seq_hashes b)"
    and Q: "\<And>v y. kept RS PS LS y \<Longrightarrow> Q (Inr v) y"
  shows "returns (start_prefetch_load V i b l m) x Q"
  unfolding start_prefetch_load_def wp_simps
proof (rule store_returns [OF k, where RSa = "\<lambda>_. RS" and PSa = "\<lambda>_. add_mset b PS" and
      LSa = "\<lambda>r. (case r of None \<Rightarrow> {#} | Some ids \<Rightarrow> {#ids#}) + LS" and G = "\<lambda>r. \<forall>ids. r = Some ids \<longrightarrow> length ids = m"], goal_cases)
  case (1 RS' PS' LS' NS)
  thus ?case using hold_reserve [OF 1, of m] by (auto simp: ac_simps)
next
  case (2 r st)
  show ?case
  proof (cases r)
    case None
    thus ?thesis
      using 2 o by (auto simp: wp_simps intro!: lease_returns drop_probe_returns Q)
  next
    case (Some ids)
    have k2: "kept RS (add_mset b PS) (add_mset ids LS) (x\<lparr>qx_store := st\<rparr>)" using 2(1) Some by simp
    show ?thesis
      unfolding Some sum.case option.case wp_simps
    proof (rule engine_returns, goal_cases)
      case (2 o1 o2 a)
      note k3 = kept_engine [OF k2, of o2]
      show ?case
        using k3 \<open>\<forall>ids. r = Some ids \<longrightarrow> length ids = m\<close> Some fit
        by (cases a) (auto simp: wp_simps loads_of_def prefetch_fits_def
            intro!: lease_returns drop_reservation_returns drop_probe_returns insert_prefetch_returns Q)
    qed (use o in simp)
  qed
qed

lemma settle_returns:
  assumes k: "kept RS PS (add_mset l LS) x" and s: "map_of (qx_prefetch x) i = Some s" "ps_phase s = Committed"
    and fit: "pb_gpu_hit (ps_probe s) + length l \<le> length (pb_seq_hashes (ps_probe s))"
    and Q: "\<And>v y. kept RS PS LS y \<Longrightarrow> Q (Inr v) y"
  shows "returns (settle_prefetch V i l res) x Q"
proof (cases res)
  case (Inl e)
  show ?thesis
    unfolding settle_prefetch_def Inl sum.case wp_simps
    by (rule remove_prefetch_returns [OF k]) (auto intro!: drop_reservation_returns Q)
next
  case (Inr u)
  note wf = kept_wf [OF k]
  let ?x = "x\<lparr>qx_prefetch := AList.delete i (qx_prefetch x)\<rparr>"
  have k1: "kept RS (add_mset (ps_probe s) PS) (add_mset l LS) ?x"
    using take_entry [OF k s(1)] s(2) by (simp add: loads_of_def)
  have "returns (on_store (commit_loaded_blocks (en_index V) (fst p) (ps_probe s) l)) ?x
      (\<lambda>r y. \<exists>b st. r = Inr b \<and> y = ?x\<lparr>qx_store := st\<rparr> \<and> kept RS (add_mset b PS) LS y)"
    by (rule store_returns [OF k1, where RSa = "\<lambda>_. RS" and PSa = "\<lambda>b. add_mset b PS" and LSa = "\<lambda>_. LS" and G = "\<lambda>_. True"])
      (use hold_commit fit in auto)
  then obtain b st where b: "commit_loaded_blocks (en_index V) (fst p) (ps_probe s) l (qx_store x) = Some (b, st)"
      "kept RS (add_mset b PS) LS (?x\<lparr>qx_store := st\<rparr>)"
    by (auto simp: returns_def on_store_def split: option.split_asm)
  have "kept RS PS LS (x\<lparr>qx_store := st, qx_prefetch := AList.update i \<lparr>ps_probe = b, ps_phase = Committed\<rparr> (qx_prefetch x)\<rparr>)"
    using put_entry [where s = "\<lparr>ps_probe = b, ps_phase = Committed\<rparr>" and x = "x\<lparr>qx_store := st\<rparr>" and i = i] b(2) wfD(3,5) [OF wf] s(1)
    by (simp add: loads_of_def prefetch_fits_def)
  thus ?thesis
    using b(1) s(1) wfD(1) [OF wf] Q by (simp add: settle_prefetch_def Inr wp_simps on_store_wp)
qed

text \<open>A tick of the remote fetch. An answer to a query never promises more blocks than were asked for.\<close>

lemma fetch_load_fits:
  assumes "remote_fetch_action_of timed wait park (oe_query (en_engine V) i hs) avail floor o1 = ((FetchLoad l m, err), o2)"
  shows "m \<le> length hs"
  using assms hits unfolding engine_hits_def
  by (auto simp: remote_fetch_action_of_def fetch_answer_def Let_def split: if_split_asm prod.split_asm sum.split_asm query_view.split_asm option.split_asm)
    (metis fst_conv)+

lemma note_returns:
  assumes "kept RS PS LS x" and "\<And>y. kept RS PS LS y \<Longrightarrow> qx_prefetch y = qx_prefetch x \<Longrightarrow> qx_offload y = qx_offload x \<Longrightarrow> Q (Inr ()) y"
  shows "returns note_miss_window_exhausted x Q" and "returns note_remote_hit x Q"
  unfolding note_miss_window_exhausted_def note_remote_hit_def wp_simps
  using assms(1) by (auto intro!: assms(2) simp: kept_def executor_holds_def executor_wf_def)

lemma act_returns:
  assumes k: "kept {#} {#} {#} x" and s: "map_of (qx_prefetch x) i = Some s" "ps_phase s = RemoteFetch hs d md pa lq"
    and fit: "\<And>l m. action = FetchLoad l m \<Longrightarrow> m \<le> length hs"
    and Q: "\<And>v y. kept {#} {#} {#} y \<Longrightarrow> Q (Inr v) y"
  shows "returns (act_on_fetch V i window action) x Q"
proof -
  note wf = kept_wf [OF k]
  have o: "qx_offload x \<noteq> None" by (rule wfD(5) [OF wf s(1)])
  show ?thesis
  proof (cases action)
    case (FetchLoad l m)
    have room: "pb_gpu_hit (ps_probe s) + m \<le> length (pb_seq_hashes (ps_probe s))"
      using wfD(4) [OF wf s(1)] s(2) fit [OF FetchLoad] by (simp add: prefetch_fits_def)
    show ?thesis
      unfolding act_on_fetch_def FetchLoad remote_fetch_action.case wp_simps
    proof (rule note_returns [OF k], goal_cases)
      case (1 y)
      have "kept {#} {#ps_probe s#} {#} (y\<lparr>qx_prefetch := AList.delete i (qx_prefetch y)\<rparr>)"
        using take_entry [OF 1(1), of i s] s 1(2) by (simp add: loads_of_def)
      thus ?case
        using s(1) 1(2,3) o room by (auto simp: wp_simps intro!: start_load_returns Q)
    qed
  qed (use k o in \<open>auto simp: act_on_fetch_def wp_simps intro!: note_returns lease_returns remove_prefetch_returns Q\<close>)
qed

lemma query_act_returns:
  assumes k: "kept {#} {#} {#} x" and s: "map_of (qx_prefetch x) i = Some s" "ps_phase s = RemoteFetch hs d md pa lq"
    and Q: "\<And>v y. kept {#} {#} {#} y \<Longrightarrow> Q (Inr v) y"
  shows "returns (run_bind (on_engine (remote_fetch_action_of timed wait park (oe_query (en_engine V) i hs) avail floor))
    (\<lambda>(action, err). act_on_fetch V i (window err) action)) x Q"
  unfolding wp_simps
proof (rule engine_returns [OF wfD(5) [OF kept_wf [OF k] s(1)]], goal_cases)
  case (1 o1 o2 a)
  obtain action err where a: "a = (action, err)" by (cases a)
  show ?case
    unfolding a sum.case prod.case
    by (rule act_returns [OF kept_engine [OF k], where s = s]) (use 1 a s Q fetch_load_fits in auto)
qed

lemma poll_fetch_returns:
  assumes k: "kept {#} {#} {#} x" and Q: "\<And>v y. kept {#} {#} {#} y \<Longrightarrow> Q (Inr v) y"
  shows "returns (poll_remote_fetch V i floor) x Q"
proof (cases "map_of (qx_prefetch x) i")
  case None
  thus ?thesis using Q [OF k] by (simp add: poll_remote_fetch_def wp_simps)
next
  case (Some s)
  note wf = kept_wf [OF k]
  have o: "qx_offload x \<noteq> None" by (rule wfD(5) [OF wf Some])
  show ?thesis
  proof (cases "ps_phase s")
    case (RemoteFetch hs d md pa lq)
    let ?t = "\<lambda>now. s\<lparr>ps_phase := RemoteFetch hs d md pa now\<rparr>"
    have ask: "returns (run_bind (on_engine (remote_fetch_action_of timed wait park (oe_query (en_engine V) i hs) avail floor))
        (\<lambda>(action, err). act_on_fetch V i (window err) action)) (y\<lparr>qx_prefetch := AList.update i (?t now) (qx_prefetch x)\<rparr>) Q"
      if y: "kept {#} {#} {#} y" "qx_prefetch y = qx_prefetch x" for y now timed wait park avail window
    proof -
      have e: "map_of (qx_prefetch y) i = Some s" using Some y(2) by simp
      note wfy = kept_wf [OF y(1)]
      have "kept {#} {#} {#} (y\<lparr>qx_prefetch := AList.update i (?t now) (qx_prefetch y)\<rparr>)"
        by (rule put_entry) (use take_entry [OF y(1) e] wfD(3) [OF wfy] wfD(4,5) [OF wfy e] RemoteFetch in
            \<open>simp_all add: loads_of_def prefetch_fits_def\<close>)
      thus ?thesis
        by (intro query_act_returns [where s = "?t now"] Q) (simp_all add: y(2) update_conv')
    qed
    have "returns (on_engine (oe_now (en_engine V))) x (\<lambda>r y. \<exists>now. r = Inr now \<and> kept {#} {#} {#} y \<and> qx_prefetch y = qx_prefetch x)"
      by (rule engine_returns [OF o]) (simp add: kept_engine [OF k])
    thus ?thesis
      unfolding poll_remote_fetch_def wp_simps
      by (simp add: Some RemoteFetch wp_simps) (erule returns_mono, auto simp: wp_simps Let_def Q intro!: ask [unfolded returns_bind])
  qed (use Some Q [OF k] in \<open>simp_all add: poll_remote_fetch_def wp_simps\<close>)
qed

lemma begin_fetch_returns:
  assumes k: "kept {#} {#b#} {#} x" and o: "qx_offload x \<noteq> None" and fit: "pb_gpu_hit b + length hs \<le> length (pb_seq_hashes b)"
    and Q: "\<And>v y. kept {#} {#} {#} y \<Longrightarrow> Q (Inr v) y"
  shows "returns (begin_fetch V i b hs floor) x Q"
  unfolding begin_fetch_def wp_simps Let_def sum.case
proof (rule engine_returns [OF o], goal_cases)
  case (1 o1 o2 a)
  let ?y = "x\<lparr>qx_offload := Some o2\<rparr>"
  note ky = kept_engine [OF k, of o2]
  obtain action err where a: "a = (action, err)" by (cases a)
  show ?case
  proof (cases action)
    case FetchWait
    have "returns (on_engine (oe_now (en_engine V))) ?y (\<lambda>r z. \<exists>now. r = Inr now \<and> kept {#} {#b#} {#} z \<and> qx_offload z \<noteq> None)"
      by (rule engine_returns) (use kept_engine [OF ky] in simp_all)
    thus ?thesis
      unfolding a FetchWait sum.case prod.case remote_fetch_action.case wp_simps
      by (rule returns_mono) (use fit in \<open>auto simp: wp_simps Let_def loads_of_def prefetch_fits_def intro!: insert_prefetch_returns Q\<close>)
  next
    case (FetchLoad l m)
    have "m \<le> length hs" using fetch_load_fits 1 a FetchLoad by blast
    hence "pb_gpu_hit b + m \<le> length (pb_seq_hashes b)" using fit by simp
    thus ?thesis
      unfolding a FetchLoad sum.case prod.case remote_fetch_action.case wp_simps
      by (intro note_returns [OF ky]) (auto intro!: start_load_returns Q)
  qed (use ky in \<open>auto simp: a wp_simps intro!: drop_probe_returns note_returns lease_returns Q\<close>)
qed

lemma query_fits:
  assumes "pb_gpu_hit b \<le> length (pb_seq_hashes b)" and "pb_cacheable b \<le> length (pb_seq_hashes b)"
    and "\<And>v. c = Some v \<Longrightarrow> length (vc_key_chain v prompt) = length (pb_seq_hashes b)"
  shows "\<exists>hs. probe_query_hashes c b prompt = Some hs \<and> pb_gpu_hit b + length hs \<le> length (pb_seq_hashes b)"
  using assms by (cases c) (auto simp: probe_query_hashes_def cpu_query_hashes_def slice_def cpu_query_window_def saturating_sub_def)

lemma probe_fetch_returns:
  assumes y: "kept {#} {#} {#} y" "qx_offload y \<noteq> None" and Q: "\<And>v y. kept {#} {#} {#} y \<Longrightarrow> Q (Inr v) y"
    and compat: "\<And>v. c = Some v \<Longrightarrow> length (vc_key_chain v prompt) = length prompt div bp_block_size (fst p)"
  shows "returns (run_bind (on_store (probe_prefix_with_cache_salt (en_index V) (en_tokens V) (en_salt V) (fst p) prompt None lora)) (\<lambda>probe.
         run_bind (run_opt (probe_query_hashes c probe prompt)) (\<lambda>query_hashes.
         if query_hashes = [] then run_bind (drop_probe V probe) (\<lambda>_. run_ok False) else begin_fetch V i probe query_hashes floor))) y Q"
  unfolding returns_bind
proof (rule store_returns [OF y(1), where RSa = "\<lambda>_. {#}" and PSa = "\<lambda>b. {#b#}" and LSa = "\<lambda>_. {#}" and
      G = "\<lambda>b. pb_gpu_hit b \<le> length (pb_seq_hashes b) \<and> length (pb_seq_hashes b) = length prompt div bp_block_size (fst p) \<and>
        pb_cacheable b = saturating_sub (length prompt) 1 div bp_block_size (fst p)"], goal_cases)
  case (1 RS' PS' LS' NS)
  thus ?case using hold_probe [of "qx_store y" RS' PS' LS' NS prompt None lora] by simp
next
  case (2 b st)
  have fit: "pb_cacheable b \<le> length (pb_seq_hashes b)"
    using 2(2) by (simp add: saturating_sub_def div_le_mono)
  obtain hs where hs: "probe_query_hashes c b prompt = Some hs" "pb_gpu_hit b + length hs \<le> length (pb_seq_hashes b)"
    using query_fits [OF conjunct1 [OF 2(2)] fit, of c prompt] compat 2(2) by auto
  show ?case
    using 2(1) hs y(2) by (auto simp: wp_simps intro!: drop_probe_returns begin_fetch_returns Q)
qed

lemma begin_prefetch_returns:
  assumes k: "kept {#} {#} {#} x" and Q: "\<And>v y. kept {#} {#} {#} y \<Longrightarrow> Q (Inr v) y"
  shows "returns (begin_kv_prefetch V i prompt lora floor) x Q"
proof (cases "qx_offload x = None \<or> \<not> prefix_cache_enabled x")
  case False
  note wf = kept_wf [OF k]
  let ?rest = "if qx_vllm_compat x \<noteq> None \<and> lora \<noteq> None then run_ok False
    else run_bind (on_store (probe_prefix_with_cache_salt (en_index V) (en_tokens V) (en_salt V) (fst p) prompt None lora)) (\<lambda>probe.
         run_bind (run_opt (probe_query_hashes (qx_vllm_compat x) probe prompt)) (\<lambda>query_hashes.
         if query_hashes = [] then run_bind (drop_probe V probe) (\<lambda>_. run_ok False) else begin_fetch V i probe query_hashes floor))"
  have rest: "returns ?rest y Q" if "kept {#} {#} {#} y" "qx_offload y \<noteq> None" for y
    using that Q wf by (auto simp: executor_wf_def returns_basic intro!: probe_fetch_returns)
  have "returns (run_bind (if qx_l1_retention_disabled x then evict_cached_blocks V else run_ok ()) (\<lambda>_. ?rest)) x Q"
    unfolding returns_bind by (cases "qx_l1_retention_disabled x") (use k rest False in \<open>auto simp: returns_basic intro!: evict_returns\<close>)
  thus ?thesis
    unfolding begin_kv_prefetch_def returns_bind [of "run_get _"] by (simp only: returns_basic sum.case if_not_P [OF False] wfD(1) [OF wf])
qed (use k Q in \<open>auto simp: begin_kv_prefetch_def wp_simps\<close>)

text \<open>A load is settled once its entry says \<open>Committed\<close>: the blocks are in hand then.\<close>

lemma commit_entry:
  assumes k: "kept {#} {#} {#} x" and s: "map_of (qx_prefetch x) i = Some s" "ps_phase s = Loading l h"
  shows "kept {#} {#} {#l#} (x\<lparr>qx_prefetch := AList.update i (s\<lparr>ps_phase := Committed\<rparr>) (qx_prefetch x)\<rparr>)"
  by (rule put_entry) (use take_entry [OF k s(1)] wfD(3,5) [OF kept_wf [OF k]] s in \<open>simp_all add: loads_of_def prefetch_fits_def\<close>)

lemma settle_entry_returns:
  assumes k: "kept {#} {#} {#l#} x" and s: "map_of (qx_prefetch x) i = Some (s\<lparr>ps_phase := Committed\<rparr>)"
    and fit: "prefetch_fits s" "ps_phase s = Loading l h" and Q: "\<And>v y. kept {#} {#} {#} y \<Longrightarrow> Q (Inr v) y"
  shows "returns (settle_prefetch V i l res) x Q"
  by (rule settle_returns [OF k s]) (use fit Q in \<open>simp_all add: prefetch_fits_def\<close>)

lemma drain_one_returns:
  assumes k: "kept {#} {#} {#} x" and Q: "\<And>v y. kept {#} {#} {#} y \<Longrightarrow> Q (Inr v) y"
  shows "returns (drain_one V floor i) x Q"
proof (cases "map_of (qx_prefetch x) i")
  case (Some s)
  note wf = kept_wf [OF k]
  show ?thesis
  proof (cases "ps_phase s")
    case (Loading l h)
    let ?u = "\<lambda>y. y\<lparr>qx_prefetch := AList.update i (s\<lparr>ps_phase := Committed\<rparr>) (qx_prefetch y)\<rparr>"
    have polled: "returns (on_engine (oe_poll (en_engine V) h)) x (\<lambda>r y. \<exists>v. r = Inr v \<and> kept {#} {#} {#} y \<and> qx_prefetch y = qx_prefetch x)"
      by (rule engine_returns [OF wfD(5) [OF wf Some]]) (simp add: kept_engine [OF k])
    have "returns (settle_prefetch V i l res) (?u y) (\<lambda>r z. case r of Inl e \<Rightarrow> Q (Inl e) z | Inr u \<Rightarrow> Q (Inr True) z)"
      if y: "kept {#} {#} {#} y" "qx_prefetch y = qx_prefetch x" for y res
      by (rule settle_entry_returns [OF commit_entry [OF y(1)]])
        (use y(2) Some Loading Q wfD(4) [OF wf Some] in \<open>simp_all add: update_conv'\<close>)
    hence "returns (case v of None \<Rightarrow> run_ok False | Some result \<Rightarrow>
        run_bind (run_upd (\<lambda>x. ?u x)) (\<lambda>_. run_bind (settle_prefetch V i l result) (\<lambda>_. run_ok True))) y Q"
      if "kept {#} {#} {#} y" "qx_prefetch y = qx_prefetch x" for y v
      using that Q by (cases v) (simp_all add: wp_simps cong: sum.case_cong)
    thus ?thesis
      using polled by (simp add: drain_one_def wp_simps Some Loading) (erule returns_mono, auto)
  qed (use Some Q [OF k] k in \<open>auto simp: drain_one_def wp_simps intro!: poll_fetch_returns Q\<close>)
qed (use Q [OF k] in \<open>simp add: drain_one_def wp_simps\<close>)

end

end
