(* ===== verification/Executor_Steps.thy ===== *)
theory Executor_Steps
  imports Executor_Cache
begin

text \<open>
  The steps of the executor against the cache's contract: what a plan must satisfy so that every
  schedule, view, commit and save of the step is a legal call, and that the step then returns.
\<close>

section \<open>What the lanes do not touch\<close>

lemma kvs_lane [intro, simp]:
  "run_keeps qx_request_kvs (on_primary f)" "run_keeps qx_request_kvs (exec_run_step V step)" "run_keeps qx_request_kvs (lane_drop_dflash i)"
  "run_keeps qx_request_kvs (run_upd (\<lambda>x. x\<lparr>qx_dflash_ready := d x\<rparr>))"
  by (auto simp: run_keeps_def on_primary_def exec_run_step_def lane_drop_dflash_def run_upd_def case_prod_unfold Let_def)

lemma kvs_contexts [intro, simp]: "run_keeps qx_request_kvs (mark_captured result)" "run_keeps qx_request_kvs (drop_stale_contexts vs)"
  unfolding mark_captured_def drop_stale_contexts_def Let_def
  by (auto intro!: run_keeps_bind run_keeps_each split: dflash_prefill_action.split)

section \<open>Plans\<close>

text \<open>
  How the scheduler plans: a chunk is asked for a request that is new, with a prompt and an output
  budget, or whose prompt is not done; a verify span does not exceed the remaining output.
\<close>

definition legal_chunk :: "'q request_kv option \<Rightarrow> prefill_item \<Rightarrow> bool" where
  "legal_chunk r req \<longleftrightarrow> (pi_echo req \<or> 0 < pi_chunk_budget req) \<and>
     (case r of
        None \<Rightarrow> pi_prompt_tokens req \<noteq> [] \<and> length (pi_prompt_tokens req) \<le> usize_max \<and> 0 < pi_max_output_tokens req
      | Some r \<Rightarrow> rs_num_input_tokens (sc_inner (rk_seq r)) = length (pi_prompt_tokens req) \<and>
          sc_kv_position (rk_seq r) < length (pi_prompt_tokens req) \<and> 0 < rs_remaining_tokens (sc_inner (rk_seq r)))"

text \<open>What a granted schedule leaves of the request.\<close>

definition chunk_granted :: "'q request_kv option \<Rightarrow> prefill_item \<Rightarrow> bool" where
  "chunk_granted r it \<longleftrightarrow>
     (case r of
        None \<Rightarrow> False
      | Some r \<Rightarrow> (case sc_state (rk_seq r) of PrefillScheduled k _ \<Rightarrow> k = pi_chunk_tokens it | _ \<Rightarrow> False) \<and> 0 < pi_chunk_tokens it \<and>
          sc_prefill_position (rk_seq r) = pi_chunk_start it \<and>
          rs_num_input_tokens (sc_inner (rk_seq r)) = length (pi_prompt_tokens it) \<and> 0 < rs_remaining_tokens (sc_inner (rk_seq r)))"

definition decode_granted :: "'q request_kv option \<Rightarrow> bool" where
  "decode_granted r \<longleftrightarrow> (case r of None \<Rightarrow> False | Some r \<Rightarrow> (case sc_state (rk_seq r) of DecodeScheduled _ \<Rightarrow> True | _ \<Rightarrow> False))"

definition span_granted :: "'q request_kv option \<Rightarrow> usize \<Rightarrow> bool" where
  "span_granted r k \<longleftrightarrow> (case r of None \<Rightarrow> False | Some r \<Rightarrow> 0 < k \<and> scheduled_tokens (sc_state (rk_seq r)) = k)"

lemma granted_span:
  "chunk_granted r it \<Longrightarrow> span_granted r (pi_chunk_tokens it)" "decode_granted r \<Longrightarrow> span_granted r 1"
  by (auto simp: chunk_granted_def decode_granted_def span_granted_def split: option.split_asm sequence_state.split_asm)

lemma schedule_outcome:
  assumes "run_kv_op I T op r st = Some (True, r', st')"
  shows "op = SchedulePrefill k \<Longrightarrow> \<exists>m. sc_state (rk_seq r') = PrefillScheduled k m"
    and "op = ScheduleDecode \<Longrightarrow> \<exists>m. sc_state (rk_seq r') = DecodeScheduled m"
    and "op = ScheduleSpeculative k \<Longrightarrow> \<exists>m. sc_state (rk_seq r') = SpeculativeScheduled (min k (rs_remaining_tokens (sc_inner (rk_seq r)))) m"
    and "op = SchedulePrefill k \<Longrightarrow> core (sc_inner (rk_seq r')) = core (sc_inner (rk_seq r)) \<and> sc_prefill_position (rk_seq r') = sc_prefill_position (rk_seq r) \<and>
      sc_kv_position (rk_seq r') = sc_kv_position (rk_seq r)"
  using assms
  by (auto simp: run_kv_op_def on_seq_def answered_def bind_eq_Some_conv seq_schedule_prefill_def seq_schedule_decode_def seq_schedule_speculative_def
      reserve_def Let_def split: option.split_asm if_split_asm sum.split_asm dest: core_allocate)

lemma remaining_core: "core r' = core r \<Longrightarrow> rs_remaining_tokens r' = rs_remaining_tokens r"
  by (simp add: core_def rs_remaining_tokens_def)

lemma match_outcome:
  assumes "kv_match_and_add_prefix I T r st = Some (v, r', st')"
  shows "core (sc_inner (rk_seq r')) = core (sc_inner (rk_seq r))"
  using assms
  by (auto simp: kv_match_and_add_prefix_def seq_match_and_add_prefix_def Let_def
      split: Option.bind_split_asm prod.split_asm option.split_asm sum.split_asm if_split_asm dest: core_match)

text \<open>A granted chunk is committed by its answer, whichever it is; so is a granted decode.\<close>

lemma apply_chunk_granted:
  assumes "chunk_granted (Some r) it" and "prefill_answers it v" and "positions_ok T valid (rk_seq r)"
    and "run_kv_op I T (if pq_completed v then ApplyPrefill (pq_first_token v) else ApplyPrefillChunk) r st = Some (b, r', st')"
  shows b
proof -
  obtain k m where s: "sc_state (rk_seq r) = PrefillScheduled k m" "k = pi_chunk_tokens it" "sc_prefill_position (rk_seq r) = pi_chunk_start it"
      "rs_num_input_tokens (sc_inner (rk_seq r)) = length (pi_prompt_tokens it)"
    using assms(1) by (auto simp: chunk_granted_def split: sequence_state.split_asm)
  hence "pq_completed v \<longleftrightarrow> rs_num_input_tokens (sc_inner (rk_seq r)) \<le> sc_prefill_position (rk_seq r) + k"
    using assms(2,3) by (auto simp: prefill_answers_def is_final_chunk_def positions_ok_def Let_def)
  thus b
    using assms(4) s(1)
    by (auto simp: run_kv_op_def on_seq_def answered_def seq_apply_prefill_def Let_def
        split: Option.bind_split_asm prod.split_asm sum.split_asm option.split_asm if_split_asm)
qed

lemma apply_decode_granted:
  assumes "decode_granted (Some r)" and "run_kv_op I T (ApplyDecode t) r st = Some (b, r', st')"
  shows b
  using assms by (auto simp: decode_granted_def run_kv_op_def on_seq_def answered_def seq_apply_decode_def
      split: Option.bind_split_asm prod.split_asm sum.split_asm sequence_state.split_asm)

lemma answered_decodes:
  assumes a: "list_all2 decode_answers ds vs" and ids: "distinct (map di_id ds)" and g: "\<forall>d \<in> set ds. decode_granted (f (di_id d))"
  shows "distinct (map dr_id vs)" and "dr_id ` set vs = di_id ` set ds" and "\<forall>v \<in> set vs. decode_granted (f (dr_id v))"
proof -
  have m: "map dr_id vs = map di_id ds" by (rule answers_ids(2) [OF a])
  show "distinct (map dr_id vs)" using m ids by simp
  show e: "dr_id ` set vs = di_id ` set ds" using arg_cong [OF m, of set] by simp
  show "\<forall>v \<in> set vs. decode_granted (f (dr_id v))"
  proof
    fix v assume "v \<in> set vs"
    then obtain q where "q \<in> set ds" "dr_id v = di_id q" using e by (metis imageE imageI)
    thus "decode_granted (f (dr_id v))" using g by simp
  qed
qed

context executor_cache
begin

section \<open>Sweeps and drops\<close>

abbreviation settled :: "('q, 'i, 'g, 'h, 'd, 'o) qwen3_executor \<Rightarrow> bool" where
  "settled \<equiv> kept {#} {#} {#}"

lemma drain_ready_returns:
  assumes "settled x"
  shows "returns (drain_ready_prefetch V floor) x (\<lambda>_. settled)"
proof -
  have "returns (run_map (drain_one V floor) ids) x (\<lambda>_. settled)" for ids
    by (rule returns_map) (use assms in \<open>auto intro: drain_one_returns\<close>)
  thus ?thesis
    by (simp add: drain_ready_prefetch_def wp_simps cong: sum.case_cong)
qed

lemma first_loading_entry:
  assumes "executor_wf p x" and "first_loading (qx_prefetch x) = Some (i, s, l, h)"
  shows "map_of (qx_prefetch x) i = Some s \<and> ps_phase s = Loading l h"
proof -
  have "(i, s) \<in> set (qx_prefetch x) \<and> ps_phase s = Loading l h"
    using assms(2) by (auto simp: first_loading_def split: list.split_asm prefetch_phase.split_asm dest!: filter_eq_ConsD)
  thus ?thesis using wfD(3) [OF assms(1)] by auto
qed

lemma wait_ready_returns:
  assumes k: "settled x"
  shows "returns (wait_ready_prefetch V floor) x (\<lambda>_. settled)"
proof (cases "first_loading (qx_prefetch x)")
  case None
  thus ?thesis
    using drain_ready_returns [OF k] by (simp add: wait_ready_prefetch_def wp_simps cong: sum.case_cong)
next
  case (Some e)
  obtain i s l h where e: "e = (i, s, l, h)" by (cases e) auto
  note wf = kept_wf [OF k]
  note s = first_loading_entry [OF wf Some [unfolded e], THEN conjunct1] first_loading_entry [OF wf Some [unfolded e], THEN conjunct2]
  let ?u = "x\<lparr>qx_prefetch := AList.update i (s\<lparr>ps_phase := Committed\<rparr>) (qx_prefetch x)\<rparr>"
  have "returns (on_engine (oe_wait (en_engine V) h)) ?u
      (\<lambda>r y. \<exists>v. r = Inr v \<and> kept {#} {#} {#l#} y \<and> qx_prefetch y = qx_prefetch ?u)"
    by (rule engine_returns) (use wfD(5) [OF wf s(1)] kept_engine [OF commit_entry [OF k s]] in simp_all)
  moreover have "returns (settle_prefetch V i l res) y (\<lambda>r y. (\<exists>v. r = Inr v) \<and> settled y)"
    if "kept {#} {#} {#l#} y" "qx_prefetch y = qx_prefetch ?u" for y res
    by (rule settle_entry_returns [OF that(1)]) (use that(2) s wfD(4) [OF wf s(1)] in \<open>simp_all add: update_conv'\<close>)
  ultimately show ?thesis
    unfolding wait_ready_prefetch_def
    by (simp add: wp_simps Some e) (fastforce simp: wp_simps split: sum.split elim!: returns_mono intro: returns_mono [OF drain_ready_returns])
qed

lemma drop_parked_returns:
  assumes k: "settled x" and Q: "\<And>y. settled y \<Longrightarrow> Q (Inr ()) y"
  shows "returns (drop_parked V i) x Q"
proof (cases "map_of (qx_prefetch x) i")
  case None
  thus ?thesis using k Q by (simp add: drop_parked_def wp_simps delete_idem)
next
  case (Some s)
  let ?x = "x\<lparr>qx_prefetch := AList.delete i (qx_prefetch x)\<rparr>"
  have t: "kept {#} {#ps_probe s#} (loads_of s) ?x" using take_entry [OF k Some] by simp
  have d: "returns (drop_prefetch_state V s) y Q" if "kept {#} {#ps_probe s#} (loads_of s) y" for y
    by (rule drop_state_returns [where RS = "{#}" and PS = "{#}" and LS = "{#}"]) (use that Q in simp_all)
  have o: "qx_offload ?x \<noteq> None" using wfD(5) [OF kept_wf [OF k] Some] by simp
  show ?thesis
    using d [OF t] d kept_engine [OF t] o
    by (cases "ps_phase s") (auto simp: drop_parked_def wp_simps Some intro!: engine_returns)
qed

lemma on_primary_wp [wp_simps]:
  "returns (on_primary f) x Q \<longleftrightarrow> Q (fst (worker_call f (qx_primary x))) (x\<lparr>qx_primary := snd (worker_call f (qx_primary x))\<rparr>)"
  by (simp add: returns_def on_primary_def case_prod_unfold Let_def)

lemma forget_returns:
  assumes "settled x"
  shows "returns (run_bind (drop_parked V i) (\<lambda>_.
     run_bind (run_upd (\<lambda>x. x\<lparr>qx_saved_cursor := (qx_saved_cursor x)(i := None)\<rparr>)) (\<lambda>_.
     if spec then
       run_bind (run_upd (\<lambda>x. x\<lparr>qx_dflash_ready := removeAll i (qx_dflash_ready x)\<rparr>)) (\<lambda>_. lane_drop_dflash i)
     else run_ok ()))) x (\<lambda>_. settled)"
  using assms by (auto simp: wp_simps lane_drop_dflash_def split: sum.split intro!: drop_parked_returns)

lemma drop_request_returns:
  assumes k: "settled x"
  shows "returns (executor_drop_request V i) x (\<lambda>_. settled)"
proof -
  have "returns (case map_of (qx_request_kvs x) i of
         None \<Rightarrow> run_ok ()
       | Some r \<Rightarrow> run_bind (if retains_completed_kv_blocks x then run_ok () else in_store (mark_blocks_reset_on_release r)) (\<lambda>_. drop_rkv V r))
     (x\<lparr>qx_request_kvs := AList.delete i (qx_request_kvs x)\<rparr>) (\<lambda>_. settled)"
  proof (cases "map_of (qx_request_kvs x) i")
    case None
    thus ?thesis using k by (simp add: wp_simps delete_idem)
  next
    case (Some r)
    show ?thesis
      using take_request [OF k Some] by (auto simp: Some wp_simps intro!: drop_rkv_returns [where RS = "{#}" and PS = "{#}" and LS = "{#}"]
          mark_returns [where r = r and RS = "{#}" and PS = "{#}" and LS = "{#}"])
  qed
  thus ?thesis
    unfolding executor_drop_request_def returns_bind [of "run_get _"] returns_bind [of "run_upd _"] returns_basic sum.case
    by (rule returns_then) (rule forget_returns)
qed

section \<open>Saves\<close>

lemma those_known: "\<forall>y \<in> set xs. f y \<noteq> None \<Longrightarrow> \<exists>zs. those (map f xs) = Some zs \<and> length zs = length xs"
  by (induction xs) auto

lemma hashes_known:
  assumes "own_all st (add_mset r RS) PS LS NS"
  shows "\<exists>as. assigned_block_hashes st r = Some as \<and> length as = length (sq_assigned (request_blocks r))"
proof -
  obtain gs R where "sequence_ok iv entries n (en_tokens V) valid gs R (rk_seq r) st" by (rule hold_sequence [OF assms])
  then obtain us as where as: "request_blocks r = shape as [] us"
      "owns iv entries n gs R (all_sequence_hashes (en_tokens V) (rs_sequence (sc_inner (rk_seq r)))) as [] us st"
    by (auto simp: sequence_ok_def)
  have "bs_arcs st a \<noteq> None" if "(b, a) \<in> set as" for b a
  proof -
    have "arc_id st a \<in> set (map (arc_id st \<circ> snd) as)" using that by force
    hence "arc_id st a \<noteq> None" unfolding ownsD(2) [OF as(2)] by auto
    thus ?thesis by (auto simp: arc_id_def)
  qed
  thus ?thesis
    using as(1) by (auto simp: assigned_block_hashes_def shape_def intro!: those_known)
qed

lemma rkv_held:
  assumes "settled x" and "map_of (qx_request_kvs x) i = Some r"
  shows "own_all (qx_store x) (add_mset r (mset (map snd (AList.delete i (qx_request_kvs x))))) (mset (map (ps_probe \<circ> snd) (qx_prefetch x)))
    (sum_list (map (loads_of \<circ> snd) (qx_prefetch x))) (mset (qx_pins x))"
    and "mset (map snd (qx_request_kvs x)) = add_mset r (mset (map snd (AList.delete i (qx_request_kvs x))))"
  using assms(1) mset_alist_delete [OF wfD(2) [OF kept_wf [OF assms(1)]] assms(2)] by (simp_all add: kept_def executor_holds_def)

lemma pins_returned:
  assumes k: "settled x" and r: "map_of (qx_request_kvs x) i = Some r"
  obtains as st st' where "assigned_block_guards r (qx_store x) = Some (as, st)" and "drop_immutables (en_index V) (take c as) st = Some st'"
    and "settled (x\<lparr>qx_store := st', qx_pins := qx_pins x @ drop c as\<rparr>)"
proof -
  let ?PS = "mset (map (ps_probe \<circ> snd) (qx_prefetch x))" let ?LS = "sum_list (map (loads_of \<circ> snd) (qx_prefetch x))"
  let ?RS = "mset (map snd (AList.delete i (qx_request_kvs x)))"
  note RS = rkv_held [OF k r]
  obtain as st where as: "assigned_block_guards r (qx_store x) = Some (as, st)" "own_all st (add_mset r ?RS) ?PS ?LS (mset as + mset (qx_pins x))"
    using hold_pin [OF RS(1)] by blast
  have "mset as = mset (take c as) + mset (drop c as)"
    by (metis append_take_drop_id mset_append)
  then obtain st' where st': "drop_immutables (en_index V) (take c as) st = Some st'"
      "own_all st' (add_mset r ?RS) ?PS ?LS (mset (drop c as) + mset (qx_pins x))"
    using hold_unpins [of st "add_mset r ?RS" ?PS ?LS "take c as" "mset (drop c as) + mset (qx_pins x)"] as(2) by (auto simp: add.assoc)
  have "settled (x\<lparr>qx_store := st', qx_pins := qx_pins x @ drop c as\<rparr>)"
    using k st'(2) RS(2) by (simp add: kept_def executor_holds_def executor_wf_def add.commute)
  thus thesis using that as(1) st'(1) by blast
qed

lemma save_fresh_returns:
  assumes k: "settled x" and r: "map_of (qx_request_kvs x) i = Some r" and o: "qx_offload x \<noteq> None"
  shows "returns (save_fresh V i r assigned c) x (\<lambda>v y. v = Inr () \<and> settled y)"
proof -
  obtain as st st' where p: "assigned_block_guards r (qx_store x) = Some (as, st)" "drop_immutables (en_index V) (take c as) st = Some st'"
      "settled (x\<lparr>qx_store := st', qx_pins := qx_pins x @ drop c as\<rparr>)"
    by (rule pins_returned [OF k r])
  let ?x = "x\<lparr>qx_store := st', qx_saved_cursor := (qx_saved_cursor x)(i \<mapsto> length assigned), qx_pins := qx_pins x @ drop c as\<rparr>"
  have "settled ?x" using p(3) by (simp add: kept_def executor_holds_def executor_wf_def)
  thus ?thesis
    using o by (auto simp: save_fresh_def wp_simps in_store_def on_store_wp p(1,2) intro!: engine_returns kept_engine)
qed

lemma save_returns:
  assumes k: "settled x"
  shows "returns (save_sealed_blocks V i) x (\<lambda>v y. v = Inr () \<and> settled y)"
proof (cases "map_of (qx_request_kvs x) i")
  case (Some r)
  obtain as where "assigned_block_hashes (qx_store x) r = Some as"
    using hashes_known [OF rkv_held(1) [OF k Some]] by blast
  thus ?thesis
    using k Some by (auto simp: save_sealed_blocks_def wp_simps Let_def intro!: save_fresh_returns)
qed (use k in \<open>simp add: save_sealed_blocks_def wp_simps\<close>)

lemma saves_return: "settled x \<Longrightarrow> returns (run_each (\<lambda>v. save_sealed_blocks V (g v)) vs) x (\<lambda>v y. v = Inr () \<and> settled y)"
  by (rule returns_each_ok) (auto intro: save_returns)

section \<open>Calls on a request\<close>

abbreviation rkv :: "('q, 'i, 'g, 'h, 'd, 'o) qwen3_executor \<Rightarrow> request_id \<rightharpoonup> 'q request_kv" where
  "rkv x \<equiv> map_of (qx_request_kvs x)"

lemma op_returns:
  assumes k: "settled x" and r: "rkv x i = Some r"
    and legal: "case op of ApplyPrefill _ \<Rightarrow> 0 < rs_remaining_tokens (sc_inner (rk_seq r)) | _ \<Rightarrow> True"
    and Q: "\<And>b r' st y. run_kv_op (en_index V) (en_tokens V) op r (qx_store x) = Some (b, r', st) \<Longrightarrow> settled y \<Longrightarrow>
      rkv y = (rkv x)(i \<mapsto> r') \<Longrightarrow> Q (Inr b) y"
  shows "returns (with_rkv i (run_kv_op (en_index V) (en_tokens V) op)) x Q"
proof -
  obtain b r' st where b: "run_kv_op (en_index V) (en_tokens V) op r (qx_store x) = Some (b, r', st)"
      "own_all st (add_mset r' (mset (map snd (AList.delete i (qx_request_kvs x))))) (mset (map (ps_probe \<circ> snd) (qx_prefetch x)))
        (sum_list (map (loads_of \<circ> snd) (qx_prefetch x))) (mset (qx_pins x))"
    using hold_op [OF rkv_held(1) [OF k r] legal] by blast
  note wf = kept_wf [OF k]
  have "settled (x\<lparr>qx_request_kvs := AList.update i r' (qx_request_kvs x), qx_store := st\<rparr>)"
    using b(2) wf mset_alist_update [OF wfD(2) [OF wf], of i r'] distinct_update [OF wfD(2) [OF wf]]
    by (simp add: kept_def executor_holds_def executor_wf_def)
  thus ?thesis
    using b(1) r Q by (auto simp: with_rkv_def returns_def update_conv')
qed

lemma rkv_sequence:
  assumes "settled x" and "rkv x i = Some r"
  obtains gs R where "sequence_ok iv entries n (en_tokens V) valid gs R (rk_seq r) (qx_store x)" and "served (en_tokens V) (rk_seq r)"
  by (rule hold_sequence [OF rkv_held(1) [OF assms]])

lemma view_returns:
  assumes k: "settled x" and r: "span_granted (rkv x i) m" and Q: "\<And>v. Q (Inr v) x"
  shows "returns (rkv_view V (i, m)) x Q"
proof -
  obtain r where r: "rkv x i = Some r" "scheduled_tokens (sc_state (rk_seq r)) = m" "0 < m"
    using assms(2) by (auto simp: span_granted_def split: option.split_asm)
  obtain gs R where S: "sequence_ok iv entries n (en_tokens V) valid gs R (rk_seq r) (qx_store x)" by (rule rkv_sequence [OF k r(1)])
  let ?bs = "sc_block_size (en_tokens V) (rk_seq r)"
  have P: "positions_ok (en_tokens V) valid (rk_seq r)" and bs: "0 < ?bs"
    using S token_lawsD(4) [OF tokens] by (auto simp: sequence_ok_def positions_ok_def Let_def sc_block_size_def)
  have "div_ceil (sc_kv_position (rk_seq r) + m) ?bs \<le> length (all_block_ids (request_blocks r))"
    using scheduled_room [OF P] r(2,3) own_ids(2) [OF S] div_ceil_le_iff [OF bs] by simp
  hence "\<exists>v. step_view (en_tokens V) m r = Some v"
    using r(3) by (simp add: step_view_def step_page_indices_def page_indices_def new_kv_view_def take_map)
  thus ?thesis
    using r(1) Q by (auto simp: rkv_view_def wp_simps)
qed

lemma views_return:
  assumes k: "settled x" and "\<And>i m. (i, m) \<in> set ims \<Longrightarrow> span_granted (rkv x i) m"
  shows "returns (run_map (rkv_view V) ims) x (\<lambda>v y. (\<exists>vs. v = Inr vs) \<and> y = x)"
  using assms(2)
proof (induction ims)
  case (Cons im ims)
  obtain i m where im: "im = (i, m)" by (cases im)
  show ?case
    unfolding run_map.simps returns_bind im
    by (rule view_returns [OF k]) (use Cons im in \<open>auto simp: wp_simps split: sum.split intro!: returns_mono [OF Cons.IH]\<close>)
qed (simp add: wp_simps)

section \<open>Prefill chunks\<close>

lemma new_request_fields:
  "rs_num_input_tokens (sc_inner (rk_seq (new_request T salt pool prompt max_out lora))) = length prompt"
  "rs_generated_tokens (sc_inner (rk_seq (new_request T salt pool prompt max_out lora))) = 0"
  "rs_max_output_tokens (sc_inner (rk_seq (new_request T salt pool prompt max_out lora))) = max_out"
  "sq_is_empty (request_blocks (new_request T salt pool prompt max_out lora))"
  "sc_prefill_position (rk_seq (new_request T salt pool prompt max_out lora)) = 0"
  by (simp_all add: new_request_def new_request_with_cache_salt_def new_schedulable_def new_request_sequence_def sq_is_empty_def new_seq_store_def)

lemma fresh_legal:
  assumes "served T (rk_seq r)" and "positions_ok T valid (rk_seq r)" and "rs_generated_tokens (sc_inner (rk_seq r)) = 0"
    and "0 < rs_num_input_tokens (sc_inner (rk_seq r))" and "0 < rs_max_output_tokens (sc_inner (rk_seq r))"
  shows "sc_kv_position (rk_seq r) < rs_num_input_tokens (sc_inner (rk_seq r)) \<and> 0 < rs_remaining_tokens (sc_inner (rk_seq r))"
  using assms by (auto simp: served_def positions_ok_def Let_def is_prefill_complete_def rs_remaining_tokens_def saturating_sub_def)

text \<open>A request that is new to the executor: created, matched against the cache, and put into the map.\<close>

lemma match_returns:
  assumes k: "kept {#r#} {#} {#} x" and fresh: "sq_is_empty (request_blocks r)" "sc_prefill_position (rk_seq r) = 0"
      "rs_num_input_tokens (sc_inner (rk_seq r)) \<le> usize_max" "rs_generated_tokens (sc_inner (rk_seq r)) = 0"
    and Q: "\<And>res r' st. kept {#r'#} {#} {#} (x\<lparr>qx_store := st\<rparr>) \<Longrightarrow> core (sc_inner (rk_seq r')) = core (sc_inner (rk_seq r)) \<Longrightarrow>
      Q (Inr (res, r')) (x\<lparr>qx_store := st\<rparr>)"
  shows "returns (on_store (\<lambda>st. map_option (\<lambda>(res, r, st1). ((res, r), st1)) (kv_match_and_add_prefix (en_index V) (en_tokens V) r st))) x Q"
proof (rule store_returns [OF k, where RSa = "\<lambda>(_, r'). {#r'#}" and PSa = "\<lambda>_. {#}" and LSa = "\<lambda>_. {#}" and
      G = "\<lambda>(_, r'). core (sc_inner (rk_seq r')) = core (sc_inner (rk_seq r))"], goal_cases)
  case (1 RS' PS' LS' NS)
  hence own: "own_all (qx_store x) (add_mset r RS') PS' LS' NS" by simp
  have "served (en_tokens V) (rk_seq r)" by (rule hold_sequence [OF own])
  hence "sc_total_tokens (en_tokens V) (rk_seq r) \<le> usize_max" using fresh(3,4) by (simp add: served_def)
  then obtain res r' st' where m: "kv_match_and_add_prefix (en_index V) (en_tokens V) r (qx_store x) = Some (res, r', st')"
      "own_all st' (add_mset r' RS') PS' LS' NS"
    using hold_match [OF own fresh(1,2)] by blast
  thus ?case using match_outcome [OF m(1)] by (intro exI [of _ "(res, r')"]) simp
qed (use Q in auto)

text \<open>The fields of an item that a schedule does not touch.\<close>

definition same_item :: "prefill_item \<Rightarrow> prefill_item \<Rightarrow> bool" where
  "same_item r q \<longleftrightarrow> pi_id q = pi_id r \<and> pi_prompt_tokens q = pi_prompt_tokens r \<and> pi_echo q = pi_echo r \<and> pi_chunk_budget q = pi_chunk_budget r"

lemma put_new_returns:
  assumes k: "kept {#r#} {#} {#} x" and new: "rkv x (pi_id req) = None" and req: "legal_chunk None req"
    and r: "core (sc_inner (rk_seq r)) = core (sc_inner (rk_seq (new_request T' salt' pool (pi_prompt_tokens req) (pi_max_output_tokens req) lora)))"
    and same: "same_item req req1"
    and Q: "\<And>y. settled y \<Longrightarrow> \<forall>j. j \<noteq> pi_id req \<longrightarrow> rkv y j = rkv x j \<Longrightarrow> rkv y (pi_id req) \<noteq> None \<Longrightarrow> legal_chunk (rkv y (pi_id req)) req1 \<Longrightarrow> Q (Inr req1) y"
  shows "returns (run_bind (run_upd (\<lambda>x. x\<lparr>qx_request_kvs := AList.update (pi_id req) r (qx_request_kvs x)\<rparr>)) (\<lambda>_.
     run_bind (remove_prefetch V (pi_id req)) (\<lambda>_. run_ok req1))) x Q"
proof -
  let ?x = "x\<lparr>qx_request_kvs := AList.update (pi_id req) r (qx_request_kvs x)\<rparr>"
  have put: "settled ?x"
    by (rule put_request) (use k new wfD(2) [OF kept_wf [OF k]] in \<open>simp_all add: delete_idem\<close>)
  have at: "rkv ?x (pi_id req) = Some r" by (simp add: update_conv')
  obtain gs R where S: "sequence_ok iv entries n (en_tokens V) valid gs R (rk_seq r) (qx_store ?x)" "served (en_tokens V) (rk_seq r)"
    by (rule rkv_sequence [OF put at])
  note c = core_eqD [OF r, unfolded new_request_fields]
  have "legal_chunk (Some r) req1"
    using req same fresh_legal [OF S(2)] S(1) c by (auto simp: legal_chunk_def same_item_def sequence_ok_def)
  note legal = this
  show ?thesis
    unfolding wp_simps sum.case
    by (rule remove_prefetch_returns [OF put], unfold sum.case, rule Q) (simp_all add: update_conv' legal)
qed

lemma create_returns:
  assumes k: "settled x" and new: "rkv x (pi_id req) = None" and req: "legal_chunk None req"
  shows "returns (create_rkv V req) x (\<lambda>v y. settled y \<and> (\<forall>j. j \<noteq> pi_id req \<longrightarrow> rkv y j = rkv x j) \<and>
    (\<forall>req1. v = Inr req1 \<longrightarrow> same_item req req1 \<and> rkv y (pi_id req) \<noteq> None \<and> legal_chunk (rkv y (pi_id req)) req1))"
proof -
  let ?new = "new_request (en_tokens V) (en_salt V) (qx_pool x) (pi_prompt_tokens req) (pi_max_output_tokens req) (pi_lora_adapter req)"
  let ?Q = "\<lambda>v y. settled y \<and> (\<forall>j. j \<noteq> pi_id req \<longrightarrow> rkv y j = rkv x j) \<and>
    (\<forall>req1. v = Inr req1 \<longrightarrow> same_item req req1 \<and> rkv y (pi_id req) \<noteq> None \<and> legal_chunk (rkv y (pi_id req)) req1)"
  have hand: "kept {#?new#} {#} {#} x"
    using k hold_new by (simp add: kept_def executor_holds_def wfD(1) [OF kept_wf [OF k]])
  have small: "length (pi_prompt_tokens req) \<le> usize_max" using req by (simp add: legal_chunk_def)
  have put: "returns (run_bind (run_upd (\<lambda>x. x\<lparr>qx_request_kvs := AList.update (pi_id req) r (qx_request_kvs x)\<rparr>)) (\<lambda>_.
     run_bind (remove_prefetch V (pi_id req)) (\<lambda>_. run_ok req1))) y ?Q"
    if "kept {#r#} {#} {#} y" "rkv y = rkv x" "core (sc_inner (rk_seq r)) = core (sc_inner (rk_seq ?new))" "same_item req req1" for r y req1
    by (rule put_new_returns [OF that(1) _ req that(3,4)]) (use that new in auto)
  have m: "returns (case v of Inl _ \<Rightarrow> run_bind (drop_rkv V r) (\<lambda>_. run_err ''match_and_add_prefix failed'') | Inr n \<Rightarrow> run_ok (req\<lparr>pi_cached_tokens := n\<rparr>, r)) y
      (\<lambda>v z. case v of Inl e \<Rightarrow> ?Q (Inl e) z
        | Inr a \<Rightarrow> returns (case a of (req1, r) \<Rightarrow> run_bind (run_upd (\<lambda>x. x\<lparr>qx_request_kvs := AList.update (pi_id req) r (qx_request_kvs x)\<rparr>)) (\<lambda>_.
            run_bind (remove_prefetch V (pi_id req)) (\<lambda>_. run_ok req1))) z ?Q)"
    if y: "kept {#r#} {#} {#} y" "rkv y = rkv x" "core (sc_inner (rk_seq r)) = core (sc_inner (rk_seq ?new))" for v r y
  proof (cases v)
    case (Inl e)
    show ?thesis
      unfolding Inl sum.case returns_bind
      by (rule drop_rkv_returns [where RS = "{#}" and PS = "{#}" and LS = "{#}"]) (use y in \<open>simp_all add: wp_simps\<close>)
  next
    case (Inr n)
    show ?thesis
      unfolding Inr sum.case returns_basic prod.case by (rule put [OF y]) (simp add: same_item_def)
  qed
  show ?thesis
  proof (cases "prefix_cache_enabled x \<and> \<not> pi_echo req")
    case True
    show ?thesis
      unfolding create_rkv_def returns_bind [of "run_get _"] returns_basic sum.case Let_def if_P [OF True] returns_bind [of "run_bind _ _"]
        returns_bind [of "on_store _"]
      by (rule match_returns [OF hand], simp_all only: new_request_fields small sum.case prod.case, rule m) simp_all
  next
    case False
    show ?thesis
      unfolding create_rkv_def returns_bind [of "run_get _"] returns_basic sum.case Let_def if_not_P [OF False] returns_bind [of "run_ok _"] prod.case
      by (rule put [OF hand]) (simp_all add: same_item_def)
  qed
qed

text \<open>A granted chunk: positive, within the budget, and scheduled at the position the request has.\<close>

lemma sized_item_legal:
  assumes "legal_chunk (Some r) req"
  shows "\<exists>it. sized_item req (sc_kv_position (rk_seq r)) = Some it \<and> 0 < pi_chunk_tokens it \<and> pi_chunk_start it = sc_kv_position (rk_seq r) \<and> same_item req it"
  using assms by (auto simp: legal_chunk_def sized_item_def Let_def same_item_def)

lemma chunk_schedule_returns:
  assumes k: "settled x" and r: "rkv x i = Some r" and req: "legal_chunk (Some r) req" "pi_id req = i"
  shows "returns (run_bind (run_get (\<lambda>x. rkv x i)) (\<lambda>r.
     run_bind (run_opt (Option.bind r (\<lambda>r. sized_item req (sc_kv_position (rk_seq r))))) (\<lambda>it.
     run_bind (rkv_op V i (SchedulePrefill (pi_chunk_tokens it)) e) (\<lambda>_. run_ok it)))) x
     (\<lambda>v y. settled y \<and> (\<forall>j. j \<noteq> i \<longrightarrow> rkv y j = rkv x j) \<and> (\<forall>it. v = Inr it \<longrightarrow> same_item req it \<and> chunk_granted (rkv y i) it))"
proof -
  obtain it where it: "sized_item req (sc_kv_position (rk_seq r)) = Some it" "0 < pi_chunk_tokens it"
      "pi_chunk_start it = sc_kv_position (rk_seq r)" "same_item req it"
    using sized_item_legal [OF req(1)] by blast
  obtain gs R where "sequence_ok iv entries n (en_tokens V) valid gs R (rk_seq r) (qx_store x)" by (rule rkv_sequence [OF k r])
  hence P: "is_prefill_complete (rk_seq r) \<or> sc_kv_position (rk_seq r) = sc_prefill_position (rk_seq r)"
    by (simp add: sequence_ok_def positions_ok_def Let_def)
  let ?op = "run_kv_op (en_index V) (en_tokens V) (SchedulePrefill (pi_chunk_tokens it)) r (qx_store x)"
  have granted: "chunk_granted (Some r') it" if g: "?op = Some (True, r', st)" for r' st
  proof -
    have "\<not> is_prefill_complete (rk_seq r)"
      using g by (auto simp: run_kv_op_def on_seq_def answered_def bind_eq_Some_conv seq_schedule_prefill_def split: option.split_asm if_split_asm)
    moreover obtain m where "sc_state (rk_seq r') = PrefillScheduled (pi_chunk_tokens it) m"
      using schedule_outcome(1) [OF g refl] by blast
    moreover have c: "core (sc_inner (rk_seq r')) = core (sc_inner (rk_seq r))" "sc_prefill_position (rk_seq r') = sc_prefill_position (rk_seq r)"
      using schedule_outcome(4) [OF g refl] by simp_all
    ultimately show ?thesis
      using P it(2-4) req(1) by (simp add: chunk_granted_def legal_chunk_def same_item_def remaining_core [OF c(1)] core_eqD(4) [OF c(1)])
  qed
  let ?Q = "\<lambda>v y. settled y \<and> (\<forall>j. j \<noteq> i \<longrightarrow> rkv y j = rkv x j) \<and> (\<forall>it. v = Inr it \<longrightarrow> same_item req it \<and> chunk_granted (rkv y i) it)"
  have "returns (rkv_op V i (SchedulePrefill (pi_chunk_tokens it)) e) x (\<lambda>v y. case v of Inl e \<Rightarrow> ?Q (Inl e) y | Inr u \<Rightarrow> ?Q (Inr it) y)"
    unfolding rkv_op_def returns_bind
  proof (rule op_returns [OF k r], goal_cases)
    case (2 b r' st y)
    thus ?case using granted it(4) by (cases b) (simp_all add: returns_basic)
  qed simp
  thus ?thesis
    unfolding returns_bind [of "run_get _"] returns_basic sum.case r Option.bind_lunit it(1) returns_bind [of "run_opt _"]
      returns_bind [of "rkv_op _ _ _ _"] .
qed

lemma schedule_chunk_returns:
  assumes k: "settled x" and req: "legal_chunk (rkv x (pi_id req)) req"
  shows "returns (schedule_prefill_chunk V req) x (\<lambda>v y. settled y \<and> (\<forall>j. j \<noteq> pi_id req \<longrightarrow> rkv y j = rkv x j) \<and>
    (\<forall>it. v = Inr it \<longrightarrow> same_item req it \<and> chunk_granted (rkv y (pi_id req)) it))"
proof (cases "rkv x (pi_id req)")
  case None
  have c: "returns (create_rkv V req) x (\<lambda>v y. settled y \<and> (\<forall>j. j \<noteq> pi_id req \<longrightarrow> rkv y j = rkv x j) \<and>
      (\<forall>req1. v = Inr req1 \<longrightarrow> same_item req req1 \<and> rkv y (pi_id req) \<noteq> None \<and> legal_chunk (rkv y (pi_id req)) req1))"
    by (rule create_returns) (use k None req in simp_all)
  show ?thesis
    unfolding schedule_prefill_chunk_def returns_bind [of "run_get _"] returns_basic sum.case if_P [OF None] returns_bind [of "create_rkv _ _"]
  proof (rule returns_mono [OF c], goal_cases)
    case (1 v y)
    show ?case
    proof (cases v)
      case (Inr req1)
      then obtain r where r: "rkv y (pi_id req) = Some r" "legal_chunk (Some r) req1" "same_item req req1" using 1 by auto
      have id: "pi_id req1 = pi_id req" using r(3) by (simp add: same_item_def)
      have other: "settled y" "\<forall>j. j \<noteq> pi_id req \<longrightarrow> rkv y j = rkv x j" using 1(2) by blast+
      have trans: "same_item req it" if "same_item req1 it" for it using that r(3) by (simp add: same_item_def)
      note post = chunk_schedule_returns [OF other(1) r(1,2) id, of "''schedule_prefill failed''"]
      show ?thesis
        using returns_mono [OF post, of "\<lambda>v y. settled y \<and> (\<forall>j. j \<noteq> pi_id req \<longrightarrow> rkv y j = rkv x j) \<and>
          (\<forall>it. v = Inr it \<longrightarrow> same_item req it \<and> chunk_granted (rkv y (pi_id req)) it)"] other(2) trans
        unfolding Inr sum.case returns_bind [of "run_get _"] returns_basic by fastforce
    qed (use 1 in simp)
  qed
next
  case (Some r)
  hence known: "rkv x (pi_id req) \<noteq> None" by simp
  show ?thesis
    using chunk_schedule_returns [OF k Some req [unfolded Some] refl, of "''schedule_prefill failed''"]
    unfolding schedule_prefill_chunk_def returns_bind [of "run_get _"] returns_basic sum.case if_not_P [OF known] returns_bind [of "run_ok _"] .
qed

section \<open>Loops over the requests of a plan\<close>

text \<open>
  A loop whose rounds each touch the request of their own key, with \<open>P\<close> of the request before its
  round and \<open>R\<close> after it; \<open>fails\<close> says whether a round may answer an error.
\<close>

lemma each_returns:
  assumes "\<And>a y. a \<in> set as \<Longrightarrow> settled y \<Longrightarrow> P a (rkv y (key a)) \<Longrightarrow>
      returns (f a) y (\<lambda>v z. settled z \<and> (\<forall>j. j \<noteq> key a \<longrightarrow> rkv z j = rkv y j) \<and> (if v = Inr () then R a (rkv z (key a)) else fails))"
    and "distinct (map key as)" and "settled x" and "\<forall>a \<in> set as. P a (rkv x (key a))"
  shows "returns (run_each f as) x (\<lambda>v y. settled y \<and> (\<forall>j. j \<notin> key ` set as \<longrightarrow> rkv y j = rkv x j) \<and>
    (if v = Inr () then \<forall>a \<in> set as. R a (rkv y (key a)) else fails))"
  using assms
proof (induction as arbitrary: x)
  case (Cons a as)
  have f: "returns (f a) x (\<lambda>v z. settled z \<and> (\<forall>j. j \<noteq> key a \<longrightarrow> rkv z j = rkv x j) \<and> (if v = Inr () then R a (rkv z (key a)) else fails))"
    by (rule Cons.prems(1)) (use Cons.prems in simp_all)
  show ?case
    unfolding run_each.simps returns_bind
  proof (rule returns_mono [OF f], goal_cases)
    case (1 v y)
    show ?case
    proof (cases v)
      case (Inl e)
      thus ?thesis using 1 by auto
    next
      case (Inr u)
      have fresh: "key b \<noteq> key a" if "b \<in> set as" for b using Cons.prems(2) that by (auto simp: image_iff)
      have "returns (run_each f as) y (\<lambda>v z. settled z \<and> (\<forall>j. j \<notin> key ` set as \<longrightarrow> rkv z j = rkv y j) \<and>
          (if v = Inr () then \<forall>a \<in> set as. R a (rkv z (key a)) else fails))"
        by (rule Cons.IH) (use Cons.prems 1 fresh in auto)
      thus ?thesis
        unfolding Inr sum.case
      proof (rule returns_mono, goal_cases)
        case (1 w z)
        have "rkv z (key a) = rkv y (key a)" using 1 Cons.prems(2) by auto
        thus ?case using 1 \<open>settled y \<and> _\<close> Inr by (auto split: if_split_asm)
      qed
    qed
  qed
qed (simp add: wp_simps)

lemma chunks_return:
  assumes "distinct (map pi_id reqs)" and "settled x" and "\<forall>req \<in> set reqs. legal_chunk (rkv x (pi_id req)) req"
  shows "returns (run_map (schedule_prefill_chunk V) reqs) x (\<lambda>v y. settled y \<and> (\<forall>j. j \<notin> pi_id ` set reqs \<longrightarrow> rkv y j = rkv x j) \<and>
    (\<forall>its. v = Inr its \<longrightarrow> map pi_id its = map pi_id reqs \<and> (\<forall>it \<in> set its. chunk_granted (rkv y (pi_id it)) it)))"
  using assms
proof (induction reqs arbitrary: x)
  case (Cons req reqs)
  have f: "returns (schedule_prefill_chunk V req) x (\<lambda>v y. settled y \<and> (\<forall>j. j \<noteq> pi_id req \<longrightarrow> rkv y j = rkv x j) \<and>
      (\<forall>it. v = Inr it \<longrightarrow> same_item req it \<and> chunk_granted (rkv y (pi_id req)) it))"
    by (rule schedule_chunk_returns) (use Cons.prems in simp_all)
  have fresh: "pi_id q \<noteq> pi_id req" if "q \<in> set reqs" for q using Cons.prems(1) that by (auto simp: image_iff)
  show ?case
    unfolding run_map.simps returns_bind
  proof (rule returns_mono [OF f], goal_cases)
    case (1 v y)
    note y = this
    show ?case
    proof (cases v)
      case (Inr it)
      have it: "pi_id it = pi_id req" "chunk_granted (rkv y (pi_id req)) it" using y Inr by (auto simp: same_item_def)
      have "returns (run_map (schedule_prefill_chunk V) reqs) y (\<lambda>v z. settled z \<and> (\<forall>j. j \<notin> pi_id ` set reqs \<longrightarrow> rkv z j = rkv y j) \<and>
          (\<forall>its. v = Inr its \<longrightarrow> map pi_id its = map pi_id reqs \<and> (\<forall>it \<in> set its. chunk_granted (rkv z (pi_id it)) it)))"
        by (rule Cons.IH) (use Cons.prems y fresh in auto)
      thus ?thesis
        unfolding Inr sum.case
      proof (rule returns_mono, goal_cases)
        case (1 w z)
        have "rkv z (pi_id req) = rkv y (pi_id req)" using 1 Cons.prems(1) by auto
        thus ?case using 1 y it by (cases w) (auto simp: returns_basic)
      qed
    qed (use y in simp)
  qed
qed (simp add: wp_simps)

section \<open>Commits\<close>

lemma apply_chunk_returns:
  assumes k: "settled x" and g: "chunk_granted (rkv x (pi_id it)) it" and a: "prefill_answers it v"
  shows "returns (apply_prefill_result V v) x (\<lambda>w y. settled y \<and> (\<forall>j. j \<noteq> pi_id it \<longrightarrow> rkv y j = rkv x j) \<and> (if w = Inr () then True else False))"
proof -
  obtain r where r: "rkv x (pi_id it) = Some r" using g by (auto simp: chunk_granted_def split: option.split_asm)
  have id: "pq_id v = pi_id it" using a by (simp add: prefill_answers_def)
  obtain gs R where "sequence_ok iv entries n (en_tokens V) valid gs R (rk_seq r) (qx_store x)" by (rule rkv_sequence [OF k r])
  hence P: "positions_ok (en_tokens V) valid (rk_seq r)" by (simp add: sequence_ok_def)
  show ?thesis
    unfolding apply_prefill_result_def rkv_op_def returns_bind id
  proof (rule op_returns [OF k r], goal_cases)
    case 1
    thus ?case using g r by (simp add: chunk_granted_def)
  next
    case (2 b r' st y)
    have b using apply_chunk_granted [OF g [unfolded r] a P 2(1)] .
    thus ?case using 2 by (simp add: returns_basic)
  qed
qed

lemma applies_return:
  assumes "settled x" and "list_all2 prefill_answers its vs" and "distinct (map pi_id its)" and "\<forall>it \<in> set its. chunk_granted (rkv x (pi_id it)) it"
  shows "returns (run_each (apply_prefill_result V) vs) x (\<lambda>w y. settled y \<and> (\<forall>j. j \<notin> pi_id ` set its \<longrightarrow> rkv y j = rkv x j) \<and> w = Inr ())"
proof -
  have len: "length its = length vs" by (rule list_all2_lengthD [OF assms(2)])
  have e: "run_each (apply_prefill_result V) vs = run_each (\<lambda>(it, v). apply_prefill_result V v) (zip its vs)"
    using len by (induction its vs rule: list_induct2) simp_all
  have answers: "prefill_answers it v" if "(it, v) \<in> set (zip its vs)" for it v
    using that assms(2) by (auto simp: in_set_zip list_all2_conv_all_nth)
  have key: "map (pi_id \<circ> fst) (zip its vs) = map pi_id its" using len by (metis map_fst_zip map_map)
  have "returns (run_each (\<lambda>(it, v). apply_prefill_result V v) (zip its vs)) x
      (\<lambda>w y. settled y \<and> (\<forall>j. j \<notin> (pi_id \<circ> fst) ` set (zip its vs) \<longrightarrow> rkv y j = rkv x j) \<and>
        (if w = Inr () then \<forall>a \<in> set (zip its vs). True else False))"
    by (rule each_returns [where P = "\<lambda>a r. chunk_granted r (fst a)"])
      (use assms answers in \<open>auto simp: key [unfolded comp_def] split: prod.split dest: set_zip_leftD intro!: apply_chunk_returns\<close>)
  moreover have "(pi_id \<circ> fst) ` set (zip its vs) = pi_id ` set its" using arg_cong [OF key, of set] by simp
  ultimately show ?thesis
    unfolding e by (auto elim!: returns_mono split: if_split_asm)
qed

lemma schedule_decodes_return:
  assumes "settled x" and "distinct (map di_id ds)"
  shows "returns (schedule_decodes V ds) x (\<lambda>v y. settled y \<and> (\<forall>j. j \<notin> di_id ` set ds \<longrightarrow> rkv y j = rkv x j) \<and>
    (if v = Inr () then \<forall>d \<in> set ds. decode_granted (rkv y (di_id d)) else True))"
  unfolding schedule_decodes_def
proof (rule each_returns [where P = "\<lambda>_ _. True"], goal_cases)
  case (1 d y)
  show ?case
  proof (cases "rkv y (di_id d)")
    case (Some r)
    have "returns (rkv_op V (di_id d) ScheduleDecode ''schedule_decode failed'') y
        (\<lambda>v z. settled z \<and> (\<forall>j. j \<noteq> di_id d \<longrightarrow> rkv z j = rkv y j) \<and> (if v = Inr () then decode_granted (rkv z (di_id d)) else True))"
      unfolding rkv_op_def returns_bind
    proof (rule op_returns [OF 1(2) Some], goal_cases)
      case (2 b r' st z)
      thus ?case
        using schedule_outcome(2) [OF _ refl, of "en_index V" "en_tokens V" r "qx_store y" r' st] by (cases b) (auto simp: returns_basic decode_granted_def)
    qed simp
    thus ?thesis
      by (simp add: require_rkv_def returns_bind [of "run_bind _ _"] returns_bind [of "run_get _"] returns_bind [of "run_ensure _ _"] returns_basic Some)
  qed (use 1 in \<open>simp add: require_rkv_def wp_simps\<close>)
qed (use assms in simp_all)

lemma apply_decode_returns:
  assumes k: "settled x" and g: "decode_granted (rkv x (dr_id v))"
  shows "returns (rkv_op V (dr_id v) (ApplyDecode (dr_token v)) e) x
    (\<lambda>w y. settled y \<and> (\<forall>j. j \<noteq> dr_id v \<longrightarrow> rkv y j = rkv x j) \<and> (if w = Inr () then True else False))"
proof -
  obtain r where r: "rkv x (dr_id v) = Some r" using g by (auto simp: decode_granted_def split: option.split_asm)
  show ?thesis
    unfolding rkv_op_def returns_bind
  proof (rule op_returns [OF k r], goal_cases)
    case (2 b r' st y)
    have b using apply_decode_granted [OF g [unfolded r] 2(1)] .
    thus ?case using 2 by (simp add: returns_basic)
  qed simp
qed

lemma apply_decodes_return:
  assumes "settled x" and "distinct (map dr_id vs)" and "\<forall>v \<in> set vs. decode_granted (rkv x (dr_id v))"
  shows "returns (apply_decodes V vs) x (\<lambda>w y. settled y \<and> (\<forall>j. j \<notin> dr_id ` set vs \<longrightarrow> rkv y j = rkv x j) \<and> w = Inr ())"
proof -
  have "returns (apply_decodes V vs) x (\<lambda>w y. settled y \<and> (\<forall>j. j \<notin> dr_id ` set vs \<longrightarrow> rkv y j = rkv x j) \<and>
      (if w = Inr () then \<forall>a \<in> set vs. True else False))"
    unfolding apply_decodes_def
    by (rule each_returns [where P = "\<lambda>_. decode_granted"]) (use assms in \<open>auto intro!: apply_decode_returns\<close>)
  thus ?thesis by (auto elim!: returns_mono split: if_split_asm)
qed

section \<open>Steps\<close>

lemma step_returns:
  assumes "settled x"
  shows "returns (exec_run_step V step) x (\<lambda>v y. settled y \<and> rkv y = rkv x \<and> (\<forall>out. v = Inr out \<longrightarrow> step_answers step out \<and>
    (\<forall>ps pvs ds dvs sd. step = StepSplitConcurrent ps pvs ds dvs sd \<longrightarrow> (\<exists>logits. snd (flight y) = Some (ps, logits, sd)))))"
proof -
  obtain v y where y: "exec_run_step V step x = Some (v, y)" "settled y" "rkv y = rkv x"
    using assms by (simp add: exec_run_step_def case_prod_unfold Let_def)
  show ?thesis
    unfolding returns_def by (rule exI [of _ v], rule exI [of _ y]) (use y exec_step_answers step_starts_prefill in blast)
qed

lemma keeps_kvs: "run_keeps qx_request_kvs m \<Longrightarrow> returns m x (\<lambda>_. settled) \<Longrightarrow> returns m x (\<lambda>_ y. settled y \<and> rkv y = rkv x)"
  by (drule (1) returns_keeps) (auto elim: returns_mono)

lemma contexts_return:
  assumes "settled x"
  shows "returns (mark_captured result) x (\<lambda>_ y. settled y \<and> rkv y = rkv x)" "returns (drop_stale_contexts vs) x (\<lambda>_ y. settled y \<and> rkv y = rkv x)"
proof -
  have "returns (mark_captured result) x (\<lambda>_. settled)"
    unfolding mark_captured_def Let_def
    by (auto simp: wp_simps assms intro!: returns_each split: dflash_prefill_action.split) (auto simp: wp_simps lane_drop_dflash_def)
  thus "returns (mark_captured result) x (\<lambda>_ y. settled y \<and> rkv y = rkv x)"
    by (rule keeps_kvs [OF kvs_contexts(1)])
  have "returns (drop_stale_contexts vs) x (\<lambda>_. settled)"
    unfolding drop_stale_contexts_def
    by (auto simp: wp_simps assms intro!: returns_each) (auto simp: wp_simps lane_drop_dflash_def)
  thus "returns (drop_stale_contexts vs) x (\<lambda>_ y. settled y \<and> rkv y = rkv x)"
    by (rule keeps_kvs [OF kvs_contexts(2)])
qed

lemma saves_keep: "settled x \<Longrightarrow> returns (run_each (\<lambda>v. save_sealed_blocks V (g v)) vs) x (\<lambda>_ y. settled y \<and> rkv y = rkv x)"
  by (rule keeps_kvs [OF kvs.keeps_saves returns_mono [OF saves_return]]) simp_all

lemma prefill_views_return:
  assumes "settled x" and "\<forall>it \<in> set its. chunk_granted (rkv x (pi_id it)) it"
  shows "returns (prefill_views V its) x (\<lambda>v y. (\<exists>vs. v = Inr vs) \<and> y = x)"
  unfolding prefill_views_def by (rule views_return [OF assms(1)]) (use assms(2) in \<open>auto intro: granted_span(1)\<close>)

lemma decode_views_return:
  assumes "settled x" and "\<forall>d \<in> set ds. decode_granted (rkv x (di_id d))"
  shows "returns (decode_views V ds) x (\<lambda>v y. (\<exists>vs. v = Inr vs) \<and> y = x)"
  unfolding decode_views_def by (rule views_return [OF assms(1)]) (use assms(2) granted_span(2) in auto)

text \<open>A state that differs from \<open>x\<close> in the requests \<open>is\<close> only.\<close>

abbreviation within :: "('q, 'i, 'g, 'h, 'd, 'o) qwen3_executor \<Rightarrow> request_id set \<Rightarrow> ('q, 'i, 'g, 'h, 'd, 'o) qwen3_executor \<Rightarrow> bool" where
  "within x is y \<equiv> settled y \<and> (\<forall>j. j \<notin> is \<longrightarrow> rkv y j = rkv x j)"

lemma execute_prefill_returns:
  assumes k: "settled x" and ids: "distinct (map pi_id (pp_requests plan))"
    and legal: "\<forall>req \<in> set (pp_requests plan). legal_chunk (rkv x (pi_id req)) req"
  shows "returns (execute_prefill V plan) x (\<lambda>_. within x (pi_id ` set (pp_requests plan)))"
  unfolding execute_prefill_def
proof (rule returns_step [OF chunks_return [OF ids k legal]], goal_cases)
  case (2 its y)
  note y = this
  have its: "pi_id ` set its = pi_id ` set (pp_requests plan)" "distinct (map pi_id its)"
    using y ids by (metis list.set_map) (use y ids in simp)
  have y': "settled y" "\<forall>it \<in> set its. chunk_granted (rkv y (pi_id it)) it" using y by simp_all
  show ?case
  proof (rule returns_step [OF prefill_views_return [OF y']], goal_cases)
    case (2 vs y2)
    hence [simp]: "y2 = y" by simp
    show ?case
    proof (rule returns_step [OF step_returns], goal_cases)
      case (3 out z)
      then obtain p where p: "out = OutPrefill p" "list_all2 prefill_answers its (prr_requests p)" by auto
      have g: "\<forall>it \<in> set its. chunk_granted (rkv z (pi_id it)) it" using 3 y' by simp
      show ?case
        unfolding p(1) step_outcome.case
      proof (rule returns_step [OF applies_return [OF _ p(2) its(2) g]], goal_cases)
        case (3 u w)
        hence w: "within x (pi_id ` set (pp_requests plan)) w" using \<open>settled z \<and> _\<close> y its by auto
        show ?case
          by (rule returns_step [OF contexts_return(1)], use w in simp, use w in simp, rule returns_step [OF saves_keep])
            (use w in \<open>simp_all add: returns_basic\<close>)
      qed (use 3 in simp_all)
    qed (use y in auto)
  qed simp
qed simp

lemma finish_split_returns:
  assumes "settled x" and "distinct (map dr_id vs)" and "\<forall>v \<in> set vs. decode_granted (rkv x (dr_id v))"
  shows "returns (finish_split V vs) x (\<lambda>v y. within x (dr_id ` set vs) y \<and> (\<forall>u. v = Inr u \<longrightarrow> flight y = (True, snd (flight x))))"
proof -
  obtain y where y: "apply_decodes V vs x = Some (Inr (), y)" "within x (dr_id ` set vs) y"
    using apply_decodes_return [OF assms] by (auto simp: returns_def)
  have "returns (run_bind (run_each (\<lambda>v. save_sealed_blocks V (dr_id v)) vs) (\<lambda>_.
      run_bind (run_upd (\<lambda>x. x\<lparr>qx_async_prefill := True\<rparr>)) (\<lambda>_. run_ok \<lparr>ur_prefill_requests = [], ur_decode_requests = vs\<rparr>))) y
      (\<lambda>_. within x (dr_id ` set vs))"
    by (rule returns_step [OF saves_keep]) (use y(2) in \<open>simp_all add: wp_simps\<close>)
  hence "returns (finish_split V vs) x (\<lambda>_. within x (dr_id ` set vs))"
    by (simp add: returns_def finish_split_def y(1))
  thus ?thesis
    by (rule returns_mono) (auto dest: finish_split_starts)
qed

lemma finish_unified_returns:
  assumes k: "settled x" and p: "list_all2 prefill_answers its (ur_prefill_requests u)" "distinct (map pi_id its)"
      "\<forall>it \<in> set its. chunk_granted (rkv x (pi_id it)) it"
    and d: "distinct (map dr_id (ur_decode_requests u))" "\<forall>v \<in> set (ur_decode_requests u). decode_granted (rkv x (dr_id v)) \<and> dr_id v \<notin> pi_id ` set its"
  shows "returns (finish_unified V u) x (\<lambda>_. within x (pi_id ` set its \<union> dr_id ` set (ur_decode_requests u)))"
  unfolding finish_unified_def
proof (rule returns_step [OF applies_return [OF k p]], goal_cases)
  case (2 a y)
  have g: "settled y" "\<forall>v \<in> set (ur_decode_requests u). decode_granted (rkv y (dr_id v))" using 2 d by auto
  show ?case
  proof (rule returns_step [OF apply_decodes_return [OF g(1) d(1) g(2)]], goal_cases)
    case (2 b z)
    hence z: "within x (pi_id ` set its \<union> dr_id ` set (ur_decode_requests u)) z" using \<open>settled y \<and> _\<close> by auto
    show ?case
      by (rule returns_step [OF contexts_return(2)], use z in simp, use z in simp, rule returns_step [OF saves_keep], use z in simp, use z in simp,
          rule returns_step [OF saves_keep]) (use z in \<open>simp_all add: returns_basic\<close>)
  qed auto
qed auto

text \<open>The schedules of a unified step, and the views that follow.\<close>

lemma planned_returns:
  assumes k: "settled x" and ids: "distinct (map pi_id ps @ map di_id ds)" and legal: "\<forall>req \<in> set ps. legal_chunk (rkv x (pi_id req)) req"
    and Q: "\<And>e y. within x (pi_id ` set ps \<union> di_id ` set ds) y \<Longrightarrow> Q (Inl e) y"
    and f: "\<And>its pvs dvs y. within x (pi_id ` set ps \<union> di_id ` set ds) y \<Longrightarrow> map pi_id its = map pi_id ps \<Longrightarrow>
      \<forall>it \<in> set its. chunk_granted (rkv y (pi_id it)) it \<Longrightarrow> \<forall>d \<in> set ds. decode_granted (rkv y (di_id d)) \<Longrightarrow> returns (f its pvs dvs) y Q"
  shows "returns (run_bind (run_map (schedule_prefill_chunk V) ps) (\<lambda>its.
     run_bind (schedule_decodes V ds) (\<lambda>_. run_bind (prefill_views V its) (\<lambda>pvs. run_bind (decode_views V ds) (f its pvs))))) x Q"
proof (rule returns_step [OF chunks_return [OF _ k legal]], goal_cases)
  case (3 its y)
  show ?case
  proof (rule returns_step [OF schedule_decodes_return [of y ds]], goal_cases)
    case (4 u z)
    have "pi_id it \<notin> di_id ` set ds" if "it \<in> set its" for it
    proof -
      have "pi_id it \<in> pi_id ` set ps" using 3 that by (metis image_eqI list.set_map)
      thus ?thesis using ids by auto
    qed
    hence z: "settled z" "\<forall>it \<in> set its. chunk_granted (rkv z (pi_id it)) it" "\<forall>d \<in> set ds. decode_granted (rkv z (di_id d))"
      using 3 4 by auto
    have w: "within x (pi_id ` set ps \<union> di_id ` set ds) z" using 3 4 by auto
    show ?case
      by (rule returns_step [OF prefill_views_return [OF z(1,2)]], simp, rule returns_step [OF decode_views_return])
        (use z w 3 in \<open>auto intro!: f\<close>)
  qed (use 3 ids Q in auto)
qed (use ids Q in auto)

text \<open>The prefill that is in flight in a state is still scheduled there.\<close>

abbreviation afloat :: "('q, 'i, 'g, 'h, 'd, 'o) qwen3_executor \<Rightarrow> bool" where
  "afloat y \<equiv> (\<exists>its rest. flight y = (True, Some (its, rest)) \<and> distinct (map pi_id its) \<and> (\<forall>it \<in> set its. chunk_granted (rkv y (pi_id it)) it))"

lemma split_finish_returns:
  assumes k: "settled z" and its: "distinct (map pi_id its)" "\<forall>it \<in> set its. chunk_granted (rkv z (pi_id it)) it"
    and vs: "distinct (map dr_id vs)" "\<forall>v \<in> set vs. decode_granted (rkv z (dr_id v))" "pi_id ` set its \<inter> dr_id ` set vs = {}"
    and f: "snd (flight z) = Some (its, rest)"
  shows "returns (finish_split V vs) z (\<lambda>v y. within z (dr_id ` set vs) y \<and> (\<forall>u. v = Inr u \<longrightarrow> afloat y))"
proof (rule returns_mono [OF finish_split_returns [OF k vs(1,2)]], goal_cases)
  case (1 v w)
  have "pi_id it \<notin> dr_id ` set vs" if "it \<in> set its" for it using vs(3) that by auto
  hence "\<forall>it \<in> set its. chunk_granted (rkv w (pi_id it)) it" using 1 its(2) by simp
  thus ?case using 1 f its(1) by auto
qed

lemma unified_outcome_returns:
  assumes y: "settled y" "distinct (map pi_id its @ map di_id ds)" "\<forall>it \<in> set its. chunk_granted (rkv y (pi_id it)) it"
      "\<forall>d \<in> set ds. decode_granted (rkv y (di_id d))"
  shows "returns (run_bind (exec_run_step V (if overlap then StepSplitConcurrent its pvs ds dvs sd else StepUnified its pvs ds dvs sd)) (\<lambda>outcome.
     case outcome of OutUnified result \<Rightarrow> finish_unified V result
     | OutSplitDecodeReady results \<Rightarrow> finish_split V results | _ \<Rightarrow> run_err ''unified returned unexpected'')) y
     (\<lambda>v z. within y (pi_id ` set its \<union> di_id ` set ds) z \<and> (\<forall>u. v = Inr u \<and> overlap \<longrightarrow> afloat z))"
proof (rule returns_step [OF step_returns [OF y(1)]], goal_cases)
  case (2 out z)
  have g: "settled z" "\<forall>it \<in> set its. chunk_granted (rkv z (pi_id it)) it" "\<forall>d \<in> set ds. decode_granted (rkv z (di_id d))" "distinct (map di_id ds)"
      "distinct (map pi_id its)" "pi_id ` set its \<inter> di_id ` set ds = {}"
    using 2 y by auto
  show ?case
  proof (cases overlap)
    case True
    then obtain vs logits where out: "out = OutSplitDecodeReady vs" "list_all2 decode_answers ds vs" "snd (flight z) = Some (its, logits, sd)"
      using 2 by auto
    note d = answered_decodes [OF out(2) g(4,3)]
    show ?thesis
      unfolding out(1) step_outcome.case
      by (rule returns_mono [OF split_finish_returns [OF g(1,5,2) d(1,3) _ out(3)]]) (use g(6) d(2) 2 in auto)
  next
    case False
    then obtain u where out: "out = OutUnified u" "list_all2 prefill_answers its (ur_prefill_requests u)" "list_all2 decode_answers ds (ur_decode_requests u)"
      using 2 by auto
    note d = answered_decodes [OF out(3) g(4,3)]
    have "\<forall>v \<in> set (ur_decode_requests u). decode_granted (rkv z (dr_id v)) \<and> dr_id v \<notin> pi_id ` set its"
      using d(2,3) g(6) by (metis disjoint_iff imageI)
    note fin = finish_unified_returns [OF g(1) out(2) g(5,2) d(1) this]
    show ?thesis
      unfolding out(1) step_outcome.case by (rule returns_mono [OF fin]) (use d(2) 2 False in auto)
  qed
qed simp

text \<open>A unified step: with decode overlap its prefills are in flight afterwards, and stay scheduled.\<close>

lemma execute_unified_returns:
  assumes k: "settled x" and ids: "distinct (map pi_id (up_prefill_requests plan) @ map di_id (up_decode_requests plan))"
    and legal: "\<forall>req \<in> set (up_prefill_requests plan). legal_chunk (rkv x (pi_id req)) req"
  shows "returns (execute_unified V plan) x (\<lambda>v y. within x (pi_id ` set (up_prefill_requests plan) \<union> di_id ` set (up_decode_requests plan)) y \<and>
    (\<forall>u. v = Inr u \<and> qx_overlap x \<longrightarrow> afloat y))"
proof -
  let ?ps = "up_prefill_requests plan" and ?ds = "up_decode_requests plan"
  let ?Q = "\<lambda>v y. within x (pi_id ` set ?ps \<union> di_id ` set ?ds) y \<and> (\<forall>u. v = Inr u \<and> qx_overlap x \<longrightarrow> afloat y)"
  have "returns (run_bind (run_map (schedule_prefill_chunk V) ?ps) (\<lambda>its. run_bind (schedule_decodes V ?ds) (\<lambda>_.
       run_bind (prefill_views V its) (\<lambda>pvs. run_bind (decode_views V ?ds) (\<lambda>dvs.
       run_bind (exec_run_step V (if qx_overlap x then StepSplitConcurrent its pvs ?ds dvs (up_sample_seed plan)
         else StepUnified its pvs ?ds dvs (up_sample_seed plan))) (\<lambda>outcome.
       case outcome of OutUnified result \<Rightarrow> finish_unified V result
       | OutSplitDecodeReady results \<Rightarrow> finish_split V results | _ \<Rightarrow> run_err ''unified returned unexpected'')))))) x ?Q"
  proof (rule planned_returns [OF k ids legal], goal_cases)
    case (2 its pvs dvs y)
    have its: "pi_id ` set its = pi_id ` set ?ps" "distinct (map pi_id its @ map di_id ?ds)"
      using arg_cong [OF 2(2), of set] by simp (use 2(2) ids in \<open>simp del: distinct_append\<close>)
    show ?case
      by (rule returns_mono [OF unified_outcome_returns [OF conjunct1 [OF 2(1)] its(2) 2(3,4)]]) (use 2(1) its(1) in auto)
  qed simp
  thus ?thesis
    using k unfolding execute_unified_def returns_bind [of "run_get _"] returns_bind [of "run_ensure _ _"] returns_basic sum.case
    by (simp split: sum.split)
qed

end

end
