(* ===== verification/Executor_Calls.thy ===== *)
theory Executor_Calls
  imports Executor_Steps
begin

text \<open>
  The executor as a whole: one call after the other, in any order the scheduler may make them, and
  what holds in every state they lead to.
\<close>

section \<open>Calls\<close>

text \<open>\<open>SaveDone k\<close> is the offload engine's: it has written a block of a save and drops its reference.\<close>

datatype executor_call =
    CallPrefill prefill_plan
  | CallDecode decode_plan
  | CallUnified unified_plan
  | CallDraft "draft_item list"
  | CallVerify "verify_item list" u64
  | CallPoll
  | CallDrop request_id
  | CallPrefetch request_id "token list" "string option" usize
  | CallDrain usize
  | CallWait usize
  | CallLora lora_control
  | CallNoPrefixCache bool
  | SaveDone usize

definition save_done :: "('q, 'i, 'g, 'h, 'd, 'o) executor_env \<Rightarrow> usize \<Rightarrow> ('q, 'i, 'g, 'h, 'd, 'o, unit) exec" where
  "save_done V k =
     run_bind (run_get (\<lambda>x. qx_pins x ! k)) (\<lambda>a.
     run_bind (run_upd (\<lambda>x. x\<lparr>qx_pins := without_nth k (qx_pins x)\<rparr>)) (\<lambda>_.
     in_store (drop_immutable (en_index V) a)))"

fun run_call :: "('q, 'i, 'g, 'h, 'd, 'o) executor_env \<Rightarrow> executor_call \<Rightarrow>
    ('q, 'i, 'g, 'h, 'd, 'o) qwen3_executor \<Rightarrow> ('q, 'i, 'g, 'h, 'd, 'o) qwen3_executor option" where
  "run_call V (CallPrefill p) x = map_option snd (execute_prefill V p x)"
| "run_call V (CallDecode p) x = map_option snd (execute_decode V p x)"
| "run_call V (CallUnified p) x = map_option snd (execute_unified V p x)"
| "run_call V (CallDraft ds) x = map_option snd (execute_speculative_draft V ds x)"
| "run_call V (CallVerify vs sd) x = map_option snd (execute_speculative_verify V vs sd x)"
| "run_call V CallPoll x = map_option snd (poll_async_prefill V x)"
| "run_call V (CallDrop i) x = map_option snd (executor_drop_request V i x)"
| "run_call V (CallPrefetch i prompt lora floor) x = map_option snd (begin_kv_prefetch V i prompt lora floor x)"
| "run_call V (CallDrain floor) x = map_option snd (drain_ready_prefetch V floor x)"
| "run_call V (CallWait floor) x = map_option snd (wait_ready_prefetch V floor x)"
| "run_call V (CallLora c) x = map_option snd (run_lora_command V c x)"
| "run_call V (CallNoPrefixCache flag) x = map_option snd (set_no_prefix_cache V flag x)"
| "run_call V (SaveDone k) x = map_option snd (save_done V k x)"

definition call_ids :: "executor_call \<Rightarrow> request_id list" where
  "call_ids c =
     (case c of
        CallPrefill p \<Rightarrow> map pi_id (pp_requests p)
      | CallDecode p \<Rightarrow> map di_id (dp_requests p)
      | CallUnified p \<Rightarrow> map pi_id (up_prefill_requests p) @ map di_id (up_decode_requests p)
      | CallVerify vs _ \<Rightarrow> map vi_id vs
      | CallDrop i \<Rightarrow> [i]
      | _ \<Rightarrow> [])"

text \<open>
  How the scheduler calls: a plan names no request twice and none whose prefill is in flight, its
  chunks are legal, and a verify span fits the remaining output. A broken device event aborts the
  process, so a poll is asked only of one that works.
\<close>

definition legal_executor_call :: "('q, 'i, 'g, 'h, 'd, 'o) executor_env \<Rightarrow> executor_call \<Rightarrow> ('q, 'i, 'g, 'h, 'd, 'o) qwen3_executor \<Rightarrow> bool" where
  "legal_executor_call V c x \<longleftrightarrow> distinct (call_ids c) \<and> set (call_ids c) \<inter> set (inflight_prefill_ids x) = {} \<and>
     (case c of
        CallPrefill p \<Rightarrow> list_all (\<lambda>r. legal_chunk (map_of (qx_request_kvs x) (pi_id r)) r) (pp_requests p)
      | CallUnified p \<Rightarrow> list_all (\<lambda>r. legal_chunk (map_of (qx_request_kvs x) (pi_id r)) r) (up_prefill_requests p)
      | CallVerify vs _ \<Rightarrow> list_all (\<lambda>v. case map_of (qx_request_kvs x) (vi_id v) of
            None \<Rightarrow> True | Some r \<Rightarrow> length (vi_token_ids v) \<le> rs_remaining_tokens (sc_inner (rk_seq r))) vs
      | SaveDone k \<Rightarrow> k < length (qx_pins x)
      | _ \<Rightarrow> True)"

text \<open>A poll aborts the process when the event of the prefill is broken or its results cannot be read.\<close>

definition device_fails :: "('q, 'i, 'g, 'h, 'd, 'o) executor_env \<Rightarrow> ('q, 'i, 'g, 'h, 'd, 'o) qwen3_executor \<Rightarrow> bool" where
  "device_fails V x \<longleftrightarrow>
     (let (status, g) = dv_query_event (en_device V) (ln_gpu (rw_lane (qx_primary x)));
          w = (qx_primary x)\<lparr>rw_lane := (rw_lane (qx_primary x))\<lparr>ln_gpu := g\<rparr>\<rparr>
      in case status of
           EventBroken \<Rightarrow> True
         | EventPending \<Rightarrow> False
         | EventDone \<Rightarrow> isl (fst (worker_call (resolve_inflight_prefill (en_device V)) w)))"

definition inflight_ok :: "('q, 'i, 'g, 'h, 'd, 'o) qwen3_executor \<Rightarrow> bool" where
  "inflight_ok x \<longleftrightarrow>
     (case flight x of
        (True, Some (its, _)) \<Rightarrow> distinct (map pi_id its) \<and> list_all (\<lambda>it. chunk_granted (map_of (qx_request_kvs x) (pi_id it)) it) its
      | (True, None) \<Rightarrow> False
      | (False, _) \<Rightarrow> True)"

lemma inflight_frame:
  assumes "inflight_ok x" and "flight y = flight x"
    and "\<And>j. j \<in> set (inflight_prefill_ids x) \<Longrightarrow> map_of (qx_request_kvs y) j = map_of (qx_request_kvs x) j"
  shows "inflight_ok y"
proof (cases "flight x")
  case (Pair a f)
  show ?thesis
    using assms Pair by (cases a; cases f) (auto simp: inflight_ok_def inflight_prefill_ids_def list_all_iff)
qed

lemma idle_inflight: "\<not> qx_async_prefill x \<Longrightarrow> inflight_ok x"
  by (simp add: inflight_ok_def flight_def)

lemma flight_policy: "run_keeps flight (set_no_prefix_cache V flag)"
  unfolding set_no_prefix_cache_def set_prefix_cache_enabled_def finish_retention_transition_def
  by (auto intro!: run_keeps_bind run_keeps_upd simp: flight_def)

lemma flight_save_done: "run_keeps flight (save_done V k)"
  unfolding save_done_def by (auto intro!: run_keeps_bind run_keeps_upd simp: flight_def)

context executor_cache
begin

lemma decode_plan_returns:
  assumes k: "settled x" and ids: "distinct (map di_id (dp_requests plan))"
  shows "returns (execute_decode V plan) x (\<lambda>_. within x (di_id ` set (dp_requests plan)))"
proof (cases "qx_decode_group_compiled x")
  case False
  let ?p = "\<lparr>up_prefill_requests = [], up_decode_requests = dp_requests plan, up_sample_seed = dp_sample_seed plan\<rparr>"
  have u: "returns (execute_unified V ?p) x (\<lambda>_. within x (di_id ` set (dp_requests plan)))"
    by (rule returns_mono [OF execute_unified_returns [OF k]]) (use ids in simp_all)
  show ?thesis
    unfolding execute_decode_def returns_bind [of "run_get _"] returns_basic sum.case
    using False returns_then [OF u, of "\<lambda>result. run_ok (ur_decode_requests result)"] by (simp add: returns_basic)
next
  case True
  let ?J = "within x (di_id ` set (dp_requests plan))"
  have "returns (run_bind (schedule_decodes V (dp_requests plan)) (\<lambda>_.
       run_bind (decode_views V (dp_requests plan)) (\<lambda>views.
       run_bind (exec_run_step V (StepDecode (dp_requests plan) views (dp_sample_seed plan))) (\<lambda>outcome.
       case outcome of
         OutDecode results \<Rightarrow>
           run_bind (apply_decodes V results) (\<lambda>_.
           run_bind (drop_stale_contexts results) (\<lambda>_.
           run_bind (run_each (\<lambda>v. save_sealed_blocks V (dr_id v)) results) (\<lambda>_.
           run_ok results)))
       | _ \<Rightarrow> run_err ''decode returned unexpected'')))) x (\<lambda>_. ?J)"
  proof (rule returns_step [OF schedule_decodes_return [OF k ids]], goal_cases)
    case (2 u y)
    have g: "settled y" "\<forall>d \<in> set (dp_requests plan). decode_granted (rkv y (di_id d))" using 2 by simp_all
    show ?case
    proof (rule returns_step [OF decode_views_return [OF g]], goal_cases)
      case (2 vs y2)
      hence [simp]: "y2 = y" by simp
      show ?case
      proof (rule returns_step [OF step_returns], goal_cases)
        case (3 out z)
        then obtain vs where vs: "out = OutDecode vs" "list_all2 decode_answers (dp_requests plan) vs" by auto
        have g': "\<forall>q \<in> set (dp_requests plan). decode_granted (rkv z (di_id q))" using g(2) 3 by simp
        note d = answered_decodes [OF vs(2) ids g']
        show ?case
          unfolding vs(1) step_outcome.case
        proof (rule returns_step [OF apply_decodes_return [OF _ d(1,3)]], goal_cases)
          case (3 a w)
          hence w: "?J w" using \<open>settled y \<and> _\<close> \<open>settled z \<and> _\<close> d(2) by simp
          show ?case
            by (rule returns_step [OF contexts_return(2)], use w in simp, use w in simp, rule returns_step [OF saves_keep])
              (use w in \<open>simp_all add: returns_basic\<close>)
        qed (use 3 in simp_all)
      qed (use 2 \<open>settled y \<and> _\<close> in auto)
    qed simp
  qed simp
  thus ?thesis
    unfolding execute_decode_def returns_bind [of "run_get _"] returns_basic sum.case using True by simp
qed

section \<open>The speculative transaction\<close>

lemma revert_one_returns:
  assumes "within x is y" and "i \<in> is"
  shows "returns (revert_one V i) y (\<lambda>_. within x is)"
proof (cases "rkv y i")
  case (Some r)
  have "returns (with_rkv i (run_kv_op (en_index V) (en_tokens V) RevertSchedule)) y (\<lambda>_. within x is)"
    by (rule op_returns [OF _ Some]) (use assms in auto)
  thus ?thesis
    unfolding revert_one_def returns_bind [of "run_get _"] returns_basic sum.case
    using Some returns_then [of _ y "within x is" "\<lambda>_. run_ok ()"] by (simp add: returns_basic)
qed (use assms in \<open>simp add: revert_one_def wp_simps\<close>)

lemma reverts_return:
  assumes "within x is y" and "set ids \<subseteq> is"
  shows "returns (revert_and_fail V ids e) y (\<lambda>v z. within x is z \<and> isl v)"
proof -
  have "returns (revert_speculative_schedules V ids) y (\<lambda>_. within x is)"
    unfolding revert_speculative_schedules_def by (rule returns_each) (use assms revert_one_returns in auto)
  thus ?thesis
    unfolding revert_and_fail_def by (rule returns_step) (simp_all add: returns_basic)
qed

lemma spans_return:
  assumes "settled x" and "distinct (map vi_id rs)"
    and "\<forall>r \<in> set rs. \<exists>q. rkv x (vi_id r) = Some q \<and> vi_token_ids r \<noteq> [] \<and> length (vi_token_ids r) \<le> rs_remaining_tokens (sc_inner (rk_seq q))"
  shows "returns (schedule_spans V rs scheduled) x (\<lambda>v y. within x (vi_id ` set rs \<union> set scheduled) y \<and>
    (\<forall>s. v = Inr s \<longrightarrow> s = scheduled @ map vi_id rs \<and> (\<forall>r \<in> set rs. span_granted (rkv y (vi_id r)) (length (vi_token_ids r))) \<and>
      (\<forall>j. j \<notin> vi_id ` set rs \<longrightarrow> rkv y j = rkv x j)))"
  using assms
proof (induction rs arbitrary: x scheduled)
  case (Cons r rs)
  obtain q where q: "rkv x (vi_id r) = Some q" "vi_token_ids r \<noteq> []" "length (vi_token_ids r) \<le> rs_remaining_tokens (sc_inner (rk_seq q))"
    using Cons.prems(3) by auto
  have fresh: "vi_id a \<noteq> vi_id r" if "a \<in> set rs" for a using Cons.prems(2) that by (auto simp: image_iff)
  show ?case
    unfolding schedule_spans.simps returns_bind
  proof (rule op_returns [OF Cons.prems(1) q(1)], goal_cases)
    case (2 b q' st y)
    show ?case
    proof (cases b)
      case True
      have "run_kv_op (en_index V) (en_tokens V) (ScheduleSpeculative (length (vi_token_ids r))) q (qx_store x) = Some (True, q', st)"
        using 2(1) True by simp
      from schedule_outcome(3) [OF this refl] have here: "span_granted (rkv y (vi_id r)) (length (vi_token_ids r))"
        using q(2,3) 2(3) by (auto simp: span_granted_def)
      have "returns (schedule_spans V rs (scheduled @ [vi_id r])) y (\<lambda>v z. within y (vi_id ` set rs \<union> set (scheduled @ [vi_id r])) z \<and>
          (\<forall>s. v = Inr s \<longrightarrow> s = (scheduled @ [vi_id r]) @ map vi_id rs \<and> (\<forall>r \<in> set rs. span_granted (rkv z (vi_id r)) (length (vi_token_ids r))) \<and>
            (\<forall>j. j \<notin> vi_id ` set rs \<longrightarrow> rkv z j = rkv y j)))"
        by (rule Cons.IH) (use Cons.prems 2 fresh in auto)
      thus ?thesis
        unfolding sum.case if_P [OF True]
      proof (rule returns_mono, goal_cases)
        case (1 v z)
        have "vi_id r \<notin> vi_id ` set rs" using Cons.prems(2) by simp
        thus ?case using 1 2(3) here by auto
      qed
    next
      case False
      have "returns (revert_and_fail V scheduled ''schedule_speculative failed'') y (\<lambda>v z. within x (vi_id ` set (r # rs) \<union> set scheduled) z \<and> isl v)"
        by (rule reverts_return) (use 2 in auto)
      thus ?thesis
        unfolding sum.case if_not_P [OF False] by (rule returns_mono) auto
    qed
  qed simp
qed (simp add: wp_simps)

lemma apply_spans_return:
  assumes "within x is y" and "\<forall>v \<in> set vs. vr_id v \<in> is \<and> rkv y (vr_id v) \<noteq> None" and "set scheduled \<subseteq> is"
  shows "returns (apply_spans V scheduled vs applied) y (\<lambda>_. within x is)"
  using assms
proof (induction vs arbitrary: y applied)
  case (Cons v vs)
  obtain q where q: "rkv y (vr_id v) = Some q" using Cons.prems(2) by auto
  show ?case
    unfolding apply_spans.simps returns_bind
  proof (rule op_returns [OF _ q], goal_cases)
    case (3 b q' st z)
    have z: "within x is z" using Cons.prems 3 by auto
    show ?case
    proof (cases b)
      case True
      show ?thesis
        unfolding sum.case if_P [OF True] by (rule Cons.IH) (use Cons.prems z 3 in auto)
    next
      case False
      show ?thesis
        unfolding sum.case if_not_P [OF False] by (rule returns_mono [OF reverts_return [OF z]]) (use Cons.prems(3) in auto)
    qed
  qed (use Cons.prems in simp_all)
qed (simp add: returns_basic)

lemma commit_verify_returns:
  assumes y: "within x is y" and r: "\<forall>r \<in> set rs. vi_id r \<in> is \<and> rkv y (vi_id r) \<noteq> None" and s: "set scheduled \<subseteq> is"
  shows "returns (commit_verify V rs scheduled vs) y (\<lambda>_. within x is)"
proof -
  have rev: "returns (revert_and_fail V scheduled e) y (\<lambda>_. within x is)" for e :: string
    by (rule returns_mono [OF reverts_return [OF y s]]) simp
  show ?thesis
  proof (cases "length vs = length rs \<and> \<not> list_ex (\<lambda>(r, v). vi_id r \<noteq> vr_id v) (zip rs vs)")
    case True
    have "\<forall>v \<in> set vs. vr_id v \<in> is \<and> rkv y (vr_id v) \<noteq> None"
    proof
      fix v assume "v \<in> set vs"
      then obtain i where i: "i < length vs" "vs ! i = v" by (auto simp: in_set_conv_nth)
      hence "(rs ! i, v) \<in> set (zip rs vs)" using True by (auto simp: in_set_zip)
      hence "vr_id v = vi_id (rs ! i)" "rs ! i \<in> set rs" using True i by (auto simp: list_ex_iff)
      thus "vr_id v \<in> is \<and> rkv y (vr_id v) \<noteq> None" using r by simp
    qed
    note a = apply_spans_return [OF y this s]
    have "returns (run_bind (apply_spans V scheduled vs []) (\<lambda>_.
        run_bind (run_each (\<lambda>v. save_sealed_blocks V (vr_id v)) vs) (\<lambda>_.
        run_bind (run_upd (\<lambda>x. x\<lparr>qx_spec_decode_counters := map_option (observe_verify rs vs) (qx_spec_decode_counters x)\<rparr>)) (\<lambda>_.
        run_ok vs)))) y (\<lambda>_. within x is)"
    proof (rule returns_then [OF a], goal_cases)
      case (1 u z)
      show ?case by (rule returns_step [OF saves_keep]) (use 1 in \<open>simp_all add: wp_simps\<close>)
    qed
    thus ?thesis using True by (simp add: commit_verify_def)
  qed (use rev in \<open>auto simp: commit_verify_def\<close>)
qed

lemma run_catch_returns:
  assumes "returns m x R" and "\<And>e y. R (Inl e) y \<Longrightarrow> returns (h e) y Q" and "\<And>a y. R (Inr a) y \<Longrightarrow> Q (Inr a) y"
  shows "returns (run_catch m h) x Q"
proof -
  obtain v y where v: "m x = Some (v, y)" "R v y" using assms(1) by (auto simp: returns_def)
  thus ?thesis
    using assms(2,3) by (cases v) (auto simp: returns_def run_catch_def)
qed

lemma checks_return:
  "returns (run_each check_verify_item rs) x (\<lambda>v y. y = x \<and> (v = Inr () \<longrightarrow> (\<forall>r \<in> set rs. vi_token_ids r \<noteq> [] \<and> rkv x (vi_id r) \<noteq> None)))"
proof (induction rs)
  case (Cons r rs)
  have "returns (check_verify_item r) x (\<lambda>v y. y = x \<and> (v = Inr () \<longrightarrow> vi_token_ids r \<noteq> [] \<and> rkv x (vi_id r) \<noteq> None))"
    by (auto simp: check_verify_item_def require_rkv_def wp_simps)
  thus ?case
    unfolding run_each.simps by (rule returns_step) (use Cons in \<open>auto elim!: returns_mono\<close>)
qed (simp add: wp_simps)

lemma execute_verify_returns:
  assumes k: "settled x" and ids: "distinct (map vi_id rs)"
    and legal: "\<forall>r \<in> set rs. \<forall>q. rkv x (vi_id r) = Some q \<longrightarrow> length (vi_token_ids r) \<le> rs_remaining_tokens (sc_inner (rk_seq q))"
  shows "returns (execute_speculative_verify V rs sd) x (\<lambda>_. within x (vi_id ` set rs))"
proof -
  let ?J = "within x (vi_id ` set rs)"
  have "returns (run_bind (run_each check_verify_item rs) (\<lambda>_.
     run_bind (schedule_spans V rs []) (\<lambda>scheduled.
     run_bind (run_map (rkv_view V) (map (\<lambda>r. (vi_id r, length (vi_token_ids r))) rs)) (\<lambda>views.
     run_bind (run_catch (exec_run_step V (StepVerify rs views sd)) (revert_and_fail V scheduled)) (\<lambda>outcome.
     case outcome of
       OutVerify results \<Rightarrow> commit_verify V rs scheduled results
     | _ \<Rightarrow> revert_and_fail V scheduled ''speculative verify returned unexpected''))))) x (\<lambda>_. ?J)"
  proof (rule returns_step [OF checks_return], goal_cases)
    case (2 u x2)
    hence [simp]: "x2 = x" and known: "\<forall>r \<in> set rs. vi_token_ids r \<noteq> [] \<and> rkv x (vi_id r) \<noteq> None" by auto
    show ?case
    proof (rule returns_step [OF spans_return], goal_cases)
      case (5 scheduled y)
      hence y: "?J y" "scheduled = map vi_id rs" "\<forall>r \<in> set rs. span_granted (rkv y (vi_id r)) (length (vi_token_ids r))" by auto
      have sub: "set scheduled \<subseteq> vi_id ` set rs" using y(2) by simp
      have views: "returns (run_map (rkv_view V) (map (\<lambda>r. (vi_id r, length (vi_token_ids r))) rs)) y (\<lambda>v z. (\<exists>vs. v = Inr vs) \<and> z = y)"
        by (rule views_return) (use y in auto)
      show ?case
      proof (rule returns_step [OF views], goal_cases)
        case (2 vs y2)
        hence [simp]: "y2 = y" by simp
        have c: "returns (run_catch (exec_run_step V (StepVerify rs vs sd)) (revert_and_fail V scheduled)) y2
            (\<lambda>v z. ?J z \<and> (\<forall>out. v = Inr out \<longrightarrow> rkv z = rkv y))"
        proof (rule run_catch_returns [OF step_returns], goal_cases)
          case (2 e z)
          show ?case by (rule returns_mono [OF reverts_return [OF _ sub]]) (use 2 y in auto)
        qed (use y in auto)
        show ?case
        proof (rule returns_step [OF c], goal_cases)
          case (2 out z)
          have "\<forall>r \<in> set rs. vi_id r \<in> vi_id ` set rs \<and> rkv z (vi_id r) \<noteq> None"
            using 2 y(3) by (auto simp: span_granted_def split: option.split_asm)
          note commit = commit_verify_returns [OF _ this sub]
          have fail: "returns (revert_and_fail V scheduled e) z (\<lambda>_. ?J)" for e
            by (rule returns_mono [OF reverts_return [OF _ sub]]) (use 2 in auto)
          show ?case using 2 commit fail by (cases out) auto
        qed simp
      qed simp
    qed (use k ids known legal in auto)
  qed (use k in simp)
  thus ?thesis
    using k unfolding execute_speculative_verify_def returns_bind [of "run_get _"] returns_bind [of "run_ensure _ _"] returns_basic sum.case
    by (simp split: sum.split)
qed

section \<open>The other calls\<close>

lemma draft_returns:
  assumes "settled x"
  shows "returns (execute_speculative_draft V ds) x (\<lambda>_ y. settled y \<and> rkv y = rkv x)"
proof -
  have "returns (run_each (\<lambda>r. run_bind (run_get (\<lambda>x. dft_id r \<in> set (qx_dflash_ready x))) (\<lambda>ready.
      run_ensure ready ''speculative draft requested before DFlash state is ready'')) ds) x (\<lambda>_ y. y = x)"
    by (rule returns_each) (simp_all add: wp_simps)
  hence "returns (run_bind (run_each (\<lambda>r. run_bind (run_get (\<lambda>x. dft_id r \<in> set (qx_dflash_ready x))) (\<lambda>ready.
      run_ensure ready ''speculative draft requested before DFlash state is ready'')) ds) (\<lambda>_.
     run_bind (exec_run_step V (StepDraft ds)) (\<lambda>outcome.
     case outcome of OutDraft results \<Rightarrow> run_ok results | _ \<Rightarrow> run_err ''speculative draft returned unexpected''))) x (\<lambda>_ y. settled y \<and> rkv y = rkv x)"
  proof (rule returns_step, goal_cases)
    case (2 a y)
    show ?case by (rule returns_step [OF step_returns]) (use 2 assms in \<open>auto simp: returns_basic\<close>)
  qed (use assms in simp)
  thus ?thesis
    using assms unfolding execute_speculative_draft_def returns_bind [of "run_get _"] returns_bind [of "run_ensure _ _"] returns_basic sum.case
    by (simp split: sum.split)
qed

lemma policy_returns:
  assumes "settled x"
  shows "returns (set_no_prefix_cache V flag) x (\<lambda>_ y. settled y \<and> rkv y = rkv x)"
  unfolding set_no_prefix_cache_def set_prefix_cache_enabled_def finish_retention_transition_def
  using assms by (auto simp: wp_simps intro!: evict_returns)

lemma on_all_ranks_wp [wp_simps]:
  "returns (on_all_ranks f) x Q \<longleftrightarrow> Q (Inr (length (filter isl (fst (worker_call f (qx_primary x)) # map (fst \<circ> worker_call f) (qx_workers x)))))
    (x\<lparr>qx_primary := snd (worker_call f (qx_primary x)), qx_workers := map (snd \<circ> worker_call f) (qx_workers x)\<rparr>)"
  by (simp add: returns_def on_all_ranks_def case_prod_unfold Let_def)

lemma lora_returns:
  assumes "settled x"
  shows "returns (run_lora_command V c) x (\<lambda>_ y. settled y \<and> rkv y = rkv x)"
proof (cases c)
  case (LoraLoad name path load_inplace)
  show ?thesis
    unfolding LoraLoad run_lora_command.simps load_lora_adapter_def using assms by (auto simp: wp_simps split: sum.split)
next
  case (LoraUnload name b)
  let ?f = "gpu (dv_uninstall_lora (en_device V) name)"
  have "returns (run_bind (on_all_ranks ?f) (\<lambda>errors.
        if 0 < errors then run_err ''failed to unload LoRA adapter''
        else run_upd (\<lambda>x. x\<lparr>qx_loaded_lora_adapters := removeAll name (qx_loaded_lora_adapters x)\<rparr>))) x (\<lambda>_ y. settled y \<and> rkv y = rkv x)"
    using assms by (auto simp: wp_simps)
  thus ?thesis
    using assms by (auto simp: LoraUnload unload_lora_adapter_def returns_def Let_def)
qed (use assms in \<open>simp add: wp_simps\<close>)

lemma save_done_returns:
  assumes k: "settled x" and "j < length (qx_pins x)"
  shows "returns (save_done V j) x (\<lambda>_ y. settled y \<and> rkv y = rkv x)"
proof -
  let ?x = "x\<lparr>qx_pins := without_nth j (qx_pins x)\<rparr>"
  obtain st where st: "drop_immutable (en_index V) (qx_pins x ! j) (qx_store x) = Some st"
      "own_all st (mset (map snd (qx_request_kvs x))) (mset (map (ps_probe \<circ> snd) (qx_prefetch x)))
        (sum_list (map (loads_of \<circ> snd) (qx_prefetch x))) (mset (without_nth j (qx_pins x)))"
    using hold_unpin k mset_without [OF assms(2)] by (fastforce simp: kept_def executor_holds_def)
  have "settled (?x\<lparr>qx_store := st\<rparr>)"
    using st(2) k by (simp add: kept_def executor_holds_def executor_wf_def)
  thus ?thesis
    using st(1) by (simp add: save_done_def wp_simps in_store_def on_store_wp)
qed

text \<open>The prefill in flight is committed by a poll that finds it done.\<close>

lemma poll_returns:
  assumes k: "settled x" and f: "inflight_ok x" and d: "\<not> (qx_async_prefill x \<and> device_fails V x)"
  shows "\<exists>v y. poll_async_prefill V x = Some (v, y) \<and> settled y \<and> inflight_ok y"
proof (cases "qx_async_prefill x")
  case False
  thus ?thesis using k f by (simp add: poll_async_prefill_def)
next
  case True
  obtain status g where q: "dv_query_event (en_device V) (ln_gpu (rw_lane (qx_primary x))) = (status, g)" by fastforce
  let ?w = "(qx_primary x)\<lparr>rw_lane := (rw_lane (qx_primary x))\<lparr>ln_gpu := g\<rparr>\<rparr>"
  show ?thesis
  proof (cases status)
    case EventPending
    have "inflight_ok (x\<lparr>qx_primary := ?w\<rparr>)" by (rule inflight_frame [OF f]) (simp_all add: flight_def)
    thus ?thesis using True q k EventPending by (simp add: poll_async_prefill_def)
  next
    case EventDone
    then obtain pr where pr: "fst (worker_call (resolve_inflight_prefill (en_device V)) ?w) = Inr pr"
      using d True q by (cases "fst (worker_call (resolve_inflight_prefill (en_device V)) ?w)") (auto simp: device_fails_def)
    obtain its logits sd where its: "ln_inflight_prefill (rw_lane (qx_primary x)) = Some (its, logits, sd)" "distinct (map pi_id its)"
        "\<forall>it \<in> set its. chunk_granted (rkv x (pi_id it)) it"
      using f True by (auto simp: inflight_ok_def flight_def list_all_iff split: option.split_asm)
    have a: "list_all2 prefill_answers its (prr_requests pr)"
      using worker_call_Inr [OF pr] its(1) resolve_answers by fastforce
    let ?y = "x\<lparr>qx_primary := snd (worker_call (resolve_inflight_prefill (en_device V)) ?w), qx_async_prefill := False\<rparr>"
    let ?m = "run_bind (run_each (apply_prefill_result V) (prr_requests pr)) (\<lambda>_.
        run_bind (run_each (\<lambda>v. save_sealed_blocks V (pq_id v)) (prr_requests pr)) (\<lambda>_. run_ok pr))"
    have "returns ?m ?y (\<lambda>v y. v = Inr pr \<and> settled y)"
    proof (rule returns_step [OF applies_return [OF _ a its(2)]], goal_cases)
      case (4 u z)
      show ?case by (rule returns_step [OF saves_return]) (use 4 in \<open>auto simp: returns_basic\<close>)
    qed (use k its(3) in simp_all)
    moreover have "run_keeps flight ?m" by (auto intro!: run_keeps_bind run_keeps_each)
    ultimately obtain z where z: "?m ?y = Some (Inr pr, z)" "settled z" "flight z = flight ?y"
      by (auto simp: returns_def run_keeps_def)
    have "inflight_ok z" by (rule idle_inflight) (use z(3) in \<open>simp add: flight_def\<close>)
    moreover have "on_primary (resolve_inflight_prefill (en_device V)) (x\<lparr>qx_primary := ?w, qx_async_prefill := False\<rparr>) = Some (Inr pr, ?y)"
      using pr by (simp add: on_primary_def case_prod_unfold Let_def)
    ultimately show ?thesis
      using z True q EventDone by (simp add: poll_async_prefill_def run_bind_def [of "on_primary _"])
  qed (use d True q in \<open>simp add: device_fails_def\<close>)
qed

section \<open>Every call\<close>

definition sound :: "('q, 'i, 'g, 'h, 'd, 'o) qwen3_executor \<Rightarrow> bool" where
  "sound x \<longleftrightarrow> settled x \<and> inflight_ok x"

lemma frame_sound:
  assumes "sound x" and "returns m x (\<lambda>_. within x is)" and "run_keeps flight m" and "is \<inter> set (inflight_prefill_ids x) = {}"
  shows "\<exists>y. map_option snd (m x) = Some y \<and> sound y"
proof -
  obtain v y where y: "m x = Some (v, y)" "within x is y" "flight y = flight x"
    using assms(2,3) by (auto simp: returns_def run_keeps_def)
  have "inflight_ok y"
    by (rule inflight_frame [of x]) (use assms(1,4) y in \<open>auto simp: sound_def\<close>)
  thus ?thesis using y by (simp add: sound_def)
qed

lemma apart_sound:
  assumes "sound x" and "returns m x (\<lambda>_ y. settled y \<and> rkv y = rkv x)" and "run_keeps flight m"
  shows "\<exists>y. map_option snd (m x) = Some y \<and> sound y"
  by (rule frame_sound [OF assms(1) _ assms(3), of "{}"]) (rule returns_mono [OF assms(2)], simp_all)

lemma unified_sound:
  assumes x: "sound x" and legal: "legal_executor_call V (CallUnified pl) x"
  shows "\<exists>v y. execute_unified V pl x = Some (v, y) \<and> sound y"
proof -
  have k: "settled x" using x by (simp add: sound_def)
  have l: "distinct (map pi_id (up_prefill_requests pl) @ map di_id (up_decode_requests pl))"
      "\<forall>req \<in> set (up_prefill_requests pl). legal_chunk (rkv x (pi_id req)) req"
    using legal by (simp_all add: legal_executor_call_def call_ids_def list_all_iff)
  obtain v y where y: "execute_unified V pl x = Some (v, y)" "settled y"
      "\<And>u. v = Inr u \<Longrightarrow> qx_overlap x \<Longrightarrow> \<exists>its rest. flight y = (True, Some (its, rest)) \<and> distinct (map pi_id its) \<and>
        (\<forall>it \<in> set its. chunk_granted (rkv y (pi_id it)) it)"
    using execute_unified_returns [OF k l] by (auto simp: returns_def)
  have "inflight_ok y"
  proof (cases "qx_async_prefill x")
    case True
    hence "y = x" using y(1) by (simp add: execute_unified_def run_bind_def run_get_def run_ensure_def run_err_def)
    thus ?thesis using x by (simp add: sound_def)
  next
    case False
    show ?thesis
    proof (cases v)
      case (Inl e)
      hence "qx_async_prefill y = qx_async_prefill x" using unified_async [of V pl] y(1) unfolding err_keeps_def by blast
      thus ?thesis using False by (intro idle_inflight) simp
    next
      case (Inr u)
      show ?thesis
      proof (cases "qx_overlap x")
        case True
        thus ?thesis using y(3) [OF Inr True] by (auto simp: inflight_ok_def list_all_iff)
      next
        case False
        hence "flight y = flight x" using unified_plain y(1) Inr by blast
        thus ?thesis using \<open>\<not> qx_async_prefill x\<close> by (intro idle_inflight) (simp add: flight_def)
      qed
    qed
  qed
  thus ?thesis using y by (auto simp: sound_def)
qed

lemma decode_sound:
  assumes x: "sound x" and legal: "legal_executor_call V (CallDecode pl) x"
  shows "\<exists>y. map_option snd (execute_decode V pl x) = Some y \<and> sound y"
proof (cases "qx_decode_group_compiled x")
  case True
  have k: "settled x" and l: "distinct (map di_id (dp_requests pl))" "set (map di_id (dp_requests pl)) \<inter> set (inflight_prefill_ids x) = {}"
    using x legal by (simp_all add: sound_def legal_executor_call_def call_ids_def)
  obtain v y where y: "execute_decode V pl x = Some (v, y)" "within x (di_id ` set (dp_requests pl)) y"
    using decode_plan_returns [OF k l(1)] by (auto simp: returns_def)
  have "inflight_ok y"
  proof (rule inflight_frame [OF _ flight_compiled [OF y(1) True]])
    fix j assume "j \<in> set (inflight_prefill_ids x)"
    hence "j \<notin> di_id ` set (dp_requests pl)" using l(2) by auto
    thus "rkv y j = rkv x j" using y(2) by simp
  qed (use x in \<open>simp add: sound_def\<close>)
  thus ?thesis using y by (simp add: sound_def)
next
  case False
  let ?pl = "\<lparr>up_prefill_requests = [], up_decode_requests = dp_requests pl, up_sample_seed = dp_sample_seed pl\<rparr>"
  obtain v y where y: "execute_unified V ?pl x = Some (v, y)" "sound y"
    using unified_sound [OF x, of ?pl] legal by (auto simp: legal_executor_call_def call_ids_def)
  thus ?thesis
    using False by (cases v) (simp_all add: execute_decode_def run_bind_def run_get_def run_ok_def)
qed

lemma drop_sound:
  assumes x: "sound x" and legal: "i \<notin> set (inflight_prefill_ids x)"
  shows "\<exists>y. map_option snd (executor_drop_request V i x) = Some y \<and> sound y"
proof -
  have frame: "run_keeps (\<lambda>x. rkv x j) (executor_drop_request V i)" if "j \<noteq> i" for j
  proof -
    have c: "run_keeps (\<lambda>x. rkv x j) m" if "run_keeps qx_request_kvs m" for m :: "('q, 'i, 'g, 'h, 'd, 'o, 'a) exec"
      using that by (auto simp: run_keeps_def)
    have u: "run_keeps (\<lambda>x. rkv x j) (run_upd (\<lambda>x. x\<lparr>qx_request_kvs := AList.delete i (qx_request_kvs x)\<rparr>))"
      using that by (intro run_keeps_upd) (simp add: AList.delete_conv')
    show ?thesis
      unfolding executor_drop_request_def by (intro run_keeps_bind u) (auto intro!: run_keeps_bind c split: option.split)
  qed
  obtain v y where y: "executor_drop_request V i x = Some (v, y)" "settled y"
    using drop_request_returns [of x i] x unfolding returns_def sound_def by blast
  have "inflight_ok y"
  proof (rule inflight_frame [OF _ run_keepsD [OF flight_drop_request y(1)]])
    fix j assume "j \<in> set (inflight_prefill_ids x)"
    hence "j \<noteq> i" using legal by auto
    thus "rkv y j = rkv x j" by (rule run_keepsD [OF frame y(1)])
  qed (use x in \<open>simp add: sound_def\<close>)
  thus ?thesis using y by (simp add: sound_def)
qed

lemma call_sound:
  assumes x: "sound x" and legal: "legal_executor_call V c x" and works: "\<not> (c = CallPoll \<and> qx_async_prefill x \<and> device_fails V x)"
  shows "\<exists>y. run_call V c x = Some y \<and> sound y"
proof -
  have k: "settled x" using x by (simp add: sound_def)
  show ?thesis
  proof (cases c)
    case (CallPrefill pl)
    show ?thesis
      unfolding CallPrefill run_call.simps
      by (rule frame_sound [OF x execute_prefill_returns [OF k] flight_prefill])
        (use legal CallPrefill in \<open>auto simp: legal_executor_call_def call_ids_def list_all_iff\<close>)
  next
    case (CallVerify vs sd)
    show ?thesis
      unfolding CallVerify run_call.simps
      by (rule frame_sound [OF x execute_verify_returns [OF k] flight_verify])
        (use legal CallVerify in \<open>auto simp: legal_executor_call_def call_ids_def list_all_iff\<close>)
  next
    case CallPoll
    thus ?thesis using poll_returns [of x] x works by (auto simp: sound_def)
  next
    case (CallPrefetch i prompt lora floor)
    have "returns (begin_kv_prefetch V i prompt lora floor) x (\<lambda>_. settled)" by (rule begin_prefetch_returns [OF k])
    from apart_sound [OF x keeps_kvs [OF kvs.keeps_prefetch(1) this] flight.keeps_prefetch(1)] show ?thesis using CallPrefetch by simp
  next
    case (CallDrain floor)
    from apart_sound [OF x keeps_kvs [OF kvs.keeps_drain drain_ready_returns [OF k]] flight.keeps_drain] show ?thesis using CallDrain by simp
  next
    case (CallWait floor)
    from apart_sound [OF x keeps_kvs [OF kvs.keeps_prefetch(2) wait_ready_returns [OF k]] flight.keeps_prefetch(2)] show ?thesis using CallWait by simp
  next
    case (CallUnified pl)
    thus ?thesis using unified_sound [OF x, of pl] legal by auto
  next
    case (CallDrop i)
    thus ?thesis using drop_sound [OF x, of i] legal by (simp add: legal_executor_call_def call_ids_def)
  next
    case (CallDecode pl)
    thus ?thesis using decode_sound [OF x, of pl] legal by simp
  next
    case (SaveDone j)
    thus ?thesis using apart_sound [OF x save_done_returns [OF k] flight_save_done] legal by (simp add: legal_executor_call_def)
  next
    case (CallDraft ds)
    thus ?thesis using apart_sound [OF x draft_returns [OF k] flight_draft] by simp
  next
    case (CallLora lc)
    thus ?thesis using apart_sound [OF x lora_returns [OF k] flight_lora_command] by simp
  next
    case (CallNoPrefixCache flag)
    thus ?thesis using apart_sound [OF x policy_returns [OF k] flight_policy] by simp
  qed
qed

end

end
