(* ===== verification/Executor_Safety.thy ===== *)
theory Executor_Safety
  imports Executor_Calls
begin

text \<open>
  What holds of the executor in every state that the scheduler's calls lead to: calls return, its
  requests, prefetches and saves are a state of the KV cache, and no block is lost.
\<close>

section \<open>Runs\<close>

definition executor_started :: "block_pool \<times> 'i block_store \<times> immutable_block \<Rightarrow> ('q, 'i, 'g, 'h, 'd, 'o) qwen3_executor \<Rightarrow> bool" where
  "executor_started p x \<longleftrightarrow> qx_pool x = fst p \<and> qx_store x = fst (snd p) \<and> qx_request_kvs x = [] \<and> qx_prefetch x = [] \<and> qx_pins x = [] \<and>
     \<not> qx_async_prefill x \<and> (\<forall>c ts. qx_vllm_compat x = Some c \<longrightarrow> length (vc_key_chain c ts) = length ts div bp_block_size (fst p))"

inductive executor_reachable :: "('q, 'i, 'g, 'h, 'd, 'o) executor_env \<Rightarrow> ('q, 'i, 'g, 'h, 'd, 'o) qwen3_executor \<Rightarrow>
    ('q, 'i, 'g, 'h, 'd, 'o) qwen3_executor \<Rightarrow> bool"
  for V :: "('q, 'i, 'g, 'h, 'd, 'o) executor_env" and x0 where
  start: "executor_reachable V x0 x0"
| call: "executor_reachable V x0 x \<Longrightarrow> legal_executor_call V c x \<Longrightarrow> run_call V c x = Some y \<Longrightarrow> executor_reachable V x0 y"

text \<open>The executor's holdings as a state of the cache.\<close>

definition executor_world :: "block_pool \<times> 'i block_store \<times> immutable_block \<Rightarrow> ('q, 'i, 'g, 'h, 'd, 'o) qwen3_executor \<Rightarrow> ('q, 'i) kv_world" where
  "executor_world p x =
     \<lparr>kw_store = qx_store x, kw_requests = map snd (qx_request_kvs x), kw_probes = map (ps_probe \<circ> snd) (qx_prefetch x),
      kw_loads = concat (map (\<lambda>e. case ps_phase (snd e) of Loading bs _ \<Rightarrow> [bs] | _ \<Rightarrow> []) (qx_prefetch x)),
      kw_pins = qx_pins x, kw_padding = snd (snd p)\<rparr>"

lemma loads_of_list: "sum_list (map (loads_of \<circ> snd) ps) = mset (concat (map (\<lambda>e. case ps_phase (snd e) of Loading bs _ \<Rightarrow> [bs] | _ \<Rightarrow> []) ps))"
  by (induction ps) (auto simp: loads_of_def split: prefetch_phase.split)

lemma padding_kept: "exec_call I T salt pool c w = Some w' \<Longrightarrow> kw_padding w' = kw_padding w"
  by (cases c) (auto simp: in_request_def bind_eq_Some_conv split: if_split_asm)

lemma reachable_padding: "kv_reachable I T salt pool (world_of p) w \<Longrightarrow> kw_padding w = snd (snd p)"
  by (induction rule: kv_reachable.induct) (auto simp: world_of_def padding_kept split: prod.split)

text \<open>The invariant of the cache does not depend on the order of what is held.\<close>

lemma cache_ok_mset:
  assumes ok: "cache_ok iv entries cap T valid pool w" and s: "kw_store w' = kw_store w" "kw_padding w' = kw_padding w"
    and m: "mset (kw_requests w') = mset (kw_requests w)" "mset (kw_probes w') = mset (kw_probes w)"
      "mset (kw_loads w') = mset (kw_loads w)" "mset (kw_pins w') = mset (kw_pins w)"
  shows "cache_ok iv entries cap T valid pool w'"
proof -
  have c: "mset (concat (map f xs)) = mset (concat (map f ys))" if "mset xs = mset ys" for f :: "'x \<Rightarrow> 'y list" and xs ys
    using that by (metis mset_concat mset_map image_mset.compositionality map_map sum_mset_sum_list)
  have "mset (kw_guards (kw_requests w') w') = mset (kw_guards (kw_requests w) w)"
    using c [OF m(1), of "seq_guards \<circ> request_blocks"] c [OF m(3), of "\<lambda>x. x"] by (simp add: kw_guards_def)
  moreover have "mset (kw_refs (kw_requests w') w') = mset (kw_refs (kw_requests w) w)"
    using c [OF m(1), of "map snd \<circ> (sq_assigned \<circ> request_blocks)"] c [OF m(2), of pb_held] m(4) s(2) by (simp add: kw_refs_def)
  moreover have "set (kw_requests w') = set (kw_requests w)" using m(1) by (rule mset_eq_setD)
  ultimately show ?thesis
    using ok s(1) held_regroup [OF cache_okD(1) [OF ok]] by (auto simp: cache_ok_def)
qed

context executor_cache
begin

lemma started_sound:
  assumes "executor_started p x"
  shows "sound x"
proof -
  have "kv_holds (en_index V) (en_tokens V) (en_salt V) p (fst (snd p)) {#} {#} {#} {#}"
    using kv_holds_start [of "en_index V" "en_tokens V" "en_salt V" "fst p" "fst (snd p)" "snd (snd p)"] by simp
  hence "kept {#} {#} {#} x"
    using assms by (simp add: executor_started_def kept_def executor_holds_def executor_wf_def)
  thus ?thesis
    using assms by (simp add: sound_def executor_started_def idle_inflight)
qed

text \<open>A poll that finds the device broken leaves no state, so whatever a legal call leaves is sound.\<close>

lemma returned_sound:
  assumes "sound x" and "legal_executor_call V c x" and "run_call V c x = Some y"
  shows "sound y"
proof (cases "c = CallPoll \<and> qx_async_prefill x \<and> device_fails V x")
  case True
  hence "run_call V c x = None"
    by (auto simp: poll_async_prefill_def device_fails_def run_bind_def on_primary_def Let_def isl_def
        split: prod.split_asm event_status.split_asm sum.split_asm prod.split)
  thus ?thesis using assms(3) by simp
next
  case False
  thus ?thesis using call_sound [OF assms(1,2)] assms(3) by auto
qed

lemma reachable_sound: "executor_reachable V x0 x \<Longrightarrow> executor_started p x0 \<Longrightarrow> sound x"
  by (induction rule: executor_reachable.induct) (auto intro: started_sound returned_sound)

lemma sound_world:
  assumes "sound x"
  shows "cache_ok iv entries n (en_tokens V) valid (fst p) (executor_world p x)"
proof -
  obtain w where w: "kv_reachable (en_index V) (en_tokens V) (en_salt V) (fst p) (world_of p) w" "kw_store w = qx_store x"
      "mset (kw_requests w) = mset (map snd (qx_request_kvs x))" "mset (kw_probes w) = mset (map (ps_probe \<circ> snd) (qx_prefetch x))"
      "mset (kw_loads w) = sum_list (map (loads_of \<circ> snd) (qx_prefetch x))" "mset (kw_pins w) = mset (qx_pins x)"
    using assms by (auto simp: sound_def kept_def executor_holds_def elim!: kv_holdsE)
  show ?thesis
    by (rule cache_ok_mset [OF reach_ok [OF w(1)]]) (use w reachable_padding [OF w(1)] in \<open>simp_all add: executor_world_def loads_of_list\<close>)
qed

end

section \<open>Properties\<close>

lemmas executor_cacheI = executor_cache.intro [OF kv_cache.intro [OF _ kv_cache_axioms.intro] executor_cache_axioms.intro]

text \<open>
  C8: The executor does not panic. After any legal calls, in any order, a legal call returns: no
  schedule, view, commit, revert, save, prefetch or drop of the executor makes a call the KV cache
  rejects with a panic, whatever the lanes answer, and the abort paths of decode overlap are not
  reached; only a poll whose device event is broken or whose results cannot be read ends the process.
  The cache is well formed afterwards, with the executor's requests, prefetches and saves as holders.
\<close>

theorem executor_calls_return:
  assumes "block_index (en_index V) iv entries n" and "token_laws (en_tokens V) valid" and "iv ix" and "entries ix = []"
    and "build_pool (en_index V) ix dh bs n = Some (Inr p)" and "engine_hits (en_engine V)"
    and "executor_started p x0" and "executor_reachable V x0 x" and "legal_executor_call V c x"
    and "\<not> (c = CallPoll \<and> qx_async_prefill x \<and> device_fails V x)"
  shows "\<exists>y. run_call V c x = Some y \<and> cache_ok iv entries n (en_tokens V) valid (fst p) (executor_world p y)"
proof -
  note E = executor_cacheI [OF assms(1-6)]
  have "executor_cache.sound V p x" by (rule executor_cache.reachable_sound [OF E assms(8,7)])
  from executor_cache.call_sound [OF E this assms(9,10)] show ?thesis
    using executor_cache.sound_world [OF E] by blast
qed

text \<open>
  C9: The executor refines the KV cache's call protocol. In every state the scheduler's calls lead to,
  the store, the requests in \<open>request_kvs\<close>, the probes and reservations of parked prefetches and the
  blocks pinned by saves are those of a state that legal cache calls alone lead to from the new pool;
  so whatever is proved of the cache's runs holds of the executor.
\<close>

theorem executor_refines_cache:
  assumes "block_index (en_index V) iv entries n" and "token_laws (en_tokens V) valid" and "iv ix" and "entries ix = []"
    and "build_pool (en_index V) ix dh bs n = Some (Inr p)" and "engine_hits (en_engine V)"
    and "executor_started p x0" and "executor_reachable V x0 x"
  shows "\<exists>w. kv_reachable (en_index V) (en_tokens V) (en_salt V) (fst p) (world_of p) w \<and> kw_store w = qx_store x \<and>
    mset (kw_requests w) = mset (map snd (qx_request_kvs x)) \<and> mset (kw_probes w) = mset (map (ps_probe \<circ> snd) (qx_prefetch x)) \<and>
    mset (kw_loads w) = mset (kw_loads (executor_world p x)) \<and> mset (kw_pins w) = mset (qx_pins x)"
proof -
  note E = executor_cacheI [OF assms(1-6)]
  have "executor_cache.sound V p x" by (rule executor_cache.reachable_sound [OF E assms(8,7)])
  thus ?thesis
    by (auto simp: executor_cache.sound_def [OF E] executor_cache.kept_def [OF E] executor_holds_def kv_holds_def executor_world_def loads_of_list)
qed


end
