(* ===== verification/Kv_Instance.thy ===== *)
theory Kv_Instance
  imports Kv_Progress "HOL-Library.Code_Target_Nat"
begin

text \<open>
  The cache on concrete data: a token sequence with positional hashes, the LRU backend and a pool
  of four blocks of two tokens. The hypotheses of the properties hold there.
\<close>

section \<open>A token sequence\<close>

text \<open>The hash of a block is its position.\<close>

definition list_block :: "usize \<Rightarrow> nat \<Rightarrow> token_block" where
  "list_block n i = \<lparr>tb_kvbm_sequence_hash = of_nat (i + 1), tb_block_size = n, tb_sequence_hash = 0, tb_block_hash = 0,
     tb_parent_sequence_hash = None\<rparr>"

definition list_tokens :: "(u32 list \<times> usize) token_sequence" where
  "list_tokens = \<lparr>tk_new = (\<lambda>ts n salt. (ts, n)), tk_blocks = (\<lambda>(ts, n). map (list_block n) [0..<length ts div n]),
     tk_block_size = snd, tk_total_tokens = (\<lambda>(ts, n). length ts),
     tk_append = (\<lambda>t (ts, n). Some (if (length ts + 1) mod n = 0 then Some (length ts div n) else None, (ts @ [t], n)))\<rparr>"

lemma list_token_laws: "token_laws list_tokens (\<lambda>(ts, n). 0 < n)"
proof -
  have u: "unat (of_nat k :: seq_hash) = k" if "k \<le> 2 ^ 64" for k
    using that by (simp add: unat_of_nat take_bit_nat_eq_self)
  have d: "distinct (map tb_kvbm_sequence_hash (map (list_block n) [0..<length ts div n]))" if "length ts \<le> usize_max" for ts :: "u32 list" and n
  proof -
    have "length ts div n \<le> length ts" by simp
    also have "\<dots> < 2 ^ 64" using that by (simp add: usize_max_def)
    finally have small: "length ts div n < 2 ^ 64" .
    have "inj_on (\<lambda>i. of_nat (i + 1) :: seq_hash) {0..<length ts div n}"
    proof (rule inj_onI)
      fix x y assume xy: "x \<in> {0..<length ts div n}" "y \<in> {0..<length ts div n}" "(of_nat (x + 1) :: seq_hash) = of_nat (y + 1)"
      have "x + 1 \<le> 2 ^ 64" "y + 1 \<le> 2 ^ 64" using xy(1,2) small by simp_all
      thus "x = y" using u [of "x + 1"] u [of "y + 1"] arg_cong [OF xy(3), of unat] by (metis add_right_cancel)
    qed
    thus ?thesis
      by (simp add: distinct_map o_def list_block_def)
  qed
  have "length ts div n \<le> (length ts + 1) div n" for ts :: "u32 list" and n by (simp add: div_le_mono)
  thus ?thesis
    unfolding token_laws_def using d by (auto simp: list_tokens_def list_block_def take_map)
qed

section \<open>A run\<close>

abbreviation demo_salt :: "string option \<Rightarrow> string option \<Rightarrow> u64" where
  "demo_salt \<equiv> (\<lambda>_ _. 0)"

definition demo_pool :: "block_pool \<times> (usize \<times> entry list) block_store \<times> immutable_block" where
  "demo_pool = (case build_pool demo_index (4, []) 0 2 4 of Some (Inr p) \<Rightarrow> p)"

lemma demo_sizes: "is_power_of_two 2" "[0..<4] = [0, 1, 2, 3 :: nat]" "replicate 4 x = [x, x, x, x]"
proof -
  have "(2 :: nat) = 2 ^ 1" "(1 :: nat) \<in> set [0..<64]" by simp_all
  thus "is_power_of_two 2" unfolding is_power_of_two_def set_map by (rule image_eqI)
  show "[0..<4] = [0, 1, 2, 3 :: nat]" "replicate 4 x = [x, x, x, x]"
    by (simp_all add: upt_rec eval_nat_numeral)
qed

lemma demo_pool_eq [code]:
  "demo_pool = (\<lparr>bp_block_size = 2, bp_padding_block_id = 0\<rparr>,
     \<lparr>bs_slots = [Primary 0 0, Reset, Reset, Reset], bs_free = [1, 2, 3], bs_inactive = (4, []), bs_active = [0 \<mapsto> 0],
      bs_ror = [False, False, False, False], bs_default = False, bs_block_size = 2,
      bs_arcs = [0 \<mapsto> \<lparr>in_block = 0, in_hash = 0, in_primary = True, in_keep = None, in_strong = 1\<rparr>], bs_next = 1,
      bs_presence = (\<lambda>_. 0)(0 := 1)\<rparr>, 0)"
  by (simp add: demo_pool_def build_pool_def demo_sizes demo_defs)

definition demo_run :: "kv_call list \<Rightarrow> (u32 list \<times> usize, usize \<times> entry list) kv_world \<Rightarrow>
    (u32 list \<times> usize, usize \<times> entry list) kv_world" where
  "demo_run cs w = fold (\<lambda>c w. the (exec_call demo_index list_tokens demo_salt (fst demo_pool) c w)) cs w"

definition demo_calls :: "kv_call list" where
  "demo_calls = [NewRequest [1, 2, 3] 4 None None, RunOp 0 (SchedulePrefill 3), RunOp 0 (ApplyPrefill 9), RunOp 0 ScheduleDecode]"

definition demo_world :: "nat \<Rightarrow> (u32 list \<times> usize, usize \<times> entry list) kv_world" where
  "demo_world k = demo_run (take k demo_calls) (world_of demo_pool)"

definition demo_request :: "nat \<Rightarrow> (u32 list \<times> usize) request_kv" where
  "demo_request k = kw_requests (demo_world k) ! 0"

definition demo_cache :: "usize \<times> entry list \<Rightarrow> bool" where
  "demo_cache c \<longleftrightarrow> (case c of (m, es) \<Rightarrow> distinct (map fst es)) \<and> lc_cap list_lru c = 4"

lemma demo_cache_hyps:
  "block_index demo_index demo_cache snd 4" "token_laws list_tokens (\<lambda>(ts, n). 0 < n)" "demo_cache (4, [])"
  "snd (4 :: usize, [] :: entry list) = []" "build_pool demo_index (4, []) 0 2 4 = Some (Inr demo_pool)"
proof -
  show B: "block_index demo_index demo_cache snd 4"
    using lru_store.block_index_axioms [of 4] by (simp add: demo_cache_def [abs_def])
  show c: "demo_cache (4, [])"
    by (simp add: demo_cache_def list_lru_def)
  show "token_laws list_tokens (\<lambda>(ts, n). 0 < n)"
    by (rule list_token_laws)
  obtain p where "build_pool demo_index (4, []) 0 2 4 = Some (Inr p)"
    using build_pool_makes [OF B c, of 2 0] demo_sizes(1) by force
  thus "build_pool demo_index (4, []) 0 2 4 = Some (Inr demo_pool)"
    by (simp add: demo_pool_def)
qed simp

abbreviation demo_reachable :: "nat \<Rightarrow> bool" where
  "demo_reachable k \<equiv> kv_reachable demo_index list_tokens demo_salt (fst demo_pool) (world_of demo_pool) (demo_world k)"

lemma demo_step:
  assumes "demo_reachable k" and "k < length demo_calls" and "legal_call list_tokens (demo_calls ! k) (demo_world k)"
  shows "demo_reachable (Suc k)"
proof -
  obtain w where w: "exec_call demo_index list_tokens demo_salt (fst demo_pool) (demo_calls ! k) (demo_world k) = Some w"
    using block_index.call_ok [OF demo_cache_hyps(1,2) kv_ok [OF demo_cache_hyps assms(1)] assms(3)] by blast
  hence "demo_world (Suc k) = w"
    using assms(2) by (simp add: demo_world_def demo_run_def take_Suc_conv_app_nth)
  thus ?thesis
    using kv_reachable.call [OF assms(1,3) w] by simp
qed

lemma demo_legal:
  "legal_call list_tokens (demo_calls ! 0) (demo_world 0)" "legal_call list_tokens (demo_calls ! 1) (demo_world 1)"
  "legal_call list_tokens (demo_calls ! 2) (demo_world 2)" "legal_call list_tokens (demo_calls ! 3) (demo_world 3)"
  by code_simp+

lemma demo_worlds_reachable: "demo_reachable 0" "demo_reachable 1" "demo_reachable 2" "demo_reachable 3" "demo_reachable 4"
proof -
  show 0: "demo_reachable 0"
    using kv_reachable.start by (simp add: demo_world_def demo_run_def)
  show 1: "demo_reachable 1"
    using demo_step [OF 0 _ demo_legal(1)] by (simp add: demo_calls_def)
  show 2: "demo_reachable 2"
    using demo_step [OF 1 _ demo_legal(2)] by (simp add: demo_calls_def numeral_2_eq_2)
  show 3: "demo_reachable 3"
    using demo_step [OF 2 _ demo_legal(3)] by (simp add: demo_calls_def numeral_3_eq_3)
  show "demo_reachable 4"
    using demo_step [OF 3 _ demo_legal(4)] by (simp add: demo_calls_def eval_nat_numeral)
qed

lemma demo_request_in: "kw_requests (demo_world k) \<noteq> [] \<Longrightarrow> demo_request k \<in> set (kw_requests (demo_world k))"
  by (simp add: demo_request_def)

lemma demo_some_request: "kw_requests (demo_world 1) \<noteq> []" "kw_requests (demo_world 2) \<noteq> []" "kw_requests (demo_world 4) \<noteq> []"
  by code_simp+

lemmas demo_requests = demo_some_request [THEN demo_request_in]

lemma demo_fresh:
  "sc_state (rk_seq (demo_request 1)) = Idle" "rs_num_input_tokens (sc_inner (rk_seq (demo_request 1))) = 3"
  "rs_remaining_tokens (sc_inner (rk_seq (demo_request 1))) = 4" "sc_prefill_position (rk_seq (demo_request 1)) = 0"
  "sq_is_empty (request_blocks (demo_request 1))" "sc_total_tokens list_tokens (rk_seq (demo_request 1)) = 3"
  by code_simp+

lemma demo_room:
  "missing_blocks list_tokens (SchedulePrefill 3) (rk_seq (demo_request 1)) = 2"
  "available_len demo_index (kw_store (demo_world 1)) = 3" "grantable list_tokens (SchedulePrefill 3) (rk_seq (demo_request 1))"
  by code_simp+

section \<open>Witnesses\<close>

text \<open>Witness of C15.\<close>

theorem kv_calls_never_panic_witness:
  "\<exists>w'. exec_call demo_index list_tokens demo_salt (fst demo_pool) (demo_calls ! 1) (demo_world 1) = Some w' \<and>
     cache_ok demo_cache snd 4 list_tokens (\<lambda>(ts, n). 0 < n) (fst demo_pool) w'"
  by (rule kv_calls_never_panic [OF demo_cache_hyps demo_worlds_reachable(2) demo_legal(2)])

text \<open>Witness of C16.\<close>

theorem kv_blocks_not_leaked_witness:
  "blocks_in_use (demo_world 2) = [1, 2, 0] \<and>
   available_len demo_index (kw_store (demo_world 2)) + card (set (blocks_in_use (demo_world 2))) = 4"
proof -
  have "blocks_in_use (demo_world 2) = [1, 2, 0]" by code_simp
  thus ?thesis
    using kv_blocks_not_leaked [OF demo_cache_hyps demo_worlds_reachable(3)] by simp
qed


text \<open>Witness of C18.\<close>

theorem scheduled_view_exact_witness:
  "scheduled_tokens (sc_state (rk_seq (demo_request 2))) = 3 \<and> (\<exists>v. step_view list_tokens 3 (demo_request 2) = Some v \<and> kvw_seq_len v = 3)"
proof -
  have "scheduled_tokens (sc_state (rk_seq (demo_request 2))) = 3" "sc_kv_position (rk_seq (demo_request 2)) = 0"
    by code_simp+
  thus ?thesis
    using scheduled_view_exact [OF demo_cache_hyps demo_worlds_reachable(3) demo_requests(2)] by fastforce
qed

text \<open>Witness of C19.\<close>

theorem schedule_all_or_nothing_witness:
  "\<exists>r' st'. run_kv_op demo_index list_tokens (SchedulePrefill 3) (demo_request 1) (kw_store (demo_world 1)) = Some (True, r', st') \<and>
     available_len demo_index st' = 1"
  using schedule_all_or_nothing [OF demo_cache_hyps demo_worlds_reachable(2) demo_requests(1), of "SchedulePrefill 3"] demo_room
  by auto

text \<open>Witness of C20.\<close>

theorem schedule_then_revert_witness:
  "\<exists>r1 st1 r2 st2. run_kv_op demo_index list_tokens (SchedulePrefill 3) (demo_request 1) (kw_store (demo_world 1)) = Some (True, r1, st1) \<and>
     run_kv_op demo_index list_tokens RevertSchedule r1 st1 = Some (True, r2, st2) \<and> available_len demo_index st2 = 3"
proof -
  have "(case run_kv_op demo_index list_tokens (SchedulePrefill 3) (demo_request 1) (kw_store (demo_world 1)) of
      Some (True, _) \<Rightarrow> True | _ \<Rightarrow> False)"
    by code_simp
  then obtain r1 st1 where r1: "run_kv_op demo_index list_tokens (SchedulePrefill 3) (demo_request 1) (kw_store (demo_world 1)) = Some (True, r1, st1)"
    by (auto split: option.splits prod.splits bool.splits)
  show ?thesis
    using schedule_then_revert [OF demo_cache_hyps demo_worlds_reachable(2) demo_requests(1) _ r1] r1 demo_room(2) by auto
qed

text \<open>Witness of C21.\<close>

theorem request_can_continue_witness:
  "\<exists>r' st'. run_kv_op demo_index list_tokens (SchedulePrefill 3) (demo_request 1) (kw_store (demo_world 1)) = Some (True, r', st')"
  by (rule request_can_continue [OF demo_cache_hyps demo_worlds_reachable(2) demo_requests(1), where m = 3])
    (simp_all add: demo_fresh demo_room del: missing_blocks.simps One_nat_def)

text \<open>Witness of C22.\<close>

theorem prefix_match_leaves_work_witness:
  "\<exists>hit r' st'. kv_match_and_add_prefix demo_index list_tokens (demo_request 1) (kw_store (demo_world 1)) = Some (Inr hit, r', st') \<and> hit < 3"
  using prefix_match_leaves_work [OF demo_cache_hyps demo_worlds_reachable(2) demo_requests(1)] demo_fresh
  by (fastforce simp: usize_max_def)

text \<open>Witness of C23.\<close>

theorem decode_registers_full_blocks_witness:
  "\<exists>r' st'. run_kv_op demo_index list_tokens (ApplyDecode 5) (demo_request 4) (kw_store (demo_world 4)) = Some (True, r', st') \<and>
     assigned_blocks (sc_inner (rk_seq r')) = 2 \<and> sc_kv_position (rk_seq r') = 4"
proof -
  have "sc_state (rk_seq (demo_request 4)) = DecodeScheduled 1" "sc_kv_position (rk_seq (demo_request 4)) = 3"
      "sc_block_size list_tokens (rk_seq (demo_request 4)) = 2"
    by code_simp+
  thus ?thesis
    using decode_registers_full_blocks [OF demo_cache_hyps demo_worlds_reachable(5) demo_requests(3), of 1 5] by auto
qed

end
