(* ===== verification/Lane_Instance.thy ===== *)
theory Lane_Instance
  imports Verify_Lane
begin

text \<open>
  A small device on which the lane's definitions run: a forward pass answers with the successor of
  every token it reads, the hidden states are the tokens themselves, and a draft state counts the rows
  of its context. The witnesses of the lane's properties are evaluated on it.
\<close>

definition demo_device :: "(nat list, token list, nat) device" where
  "demo_device =
     \<lparr>dv_batch_prefill = (\<lambda>prompts views loras echo capture g. (Inr (map (\<lambda>p. last p + 1) prompts, None, if capture then Some (concat prompts) else None), g)),
      dv_batch_decode = (\<lambda>tokens views loras g. (Inr (), map (\<lambda>t. unat t + 1) tokens)),
      dv_unified_step = (\<lambda>prompts views loras tokens dviews dloras g. (Inr (map (\<lambda>p. last p + 1) prompts @ map (\<lambda>t. t + 1) tokens), g)),
      dv_verify_forward = (\<lambda>spans views g. (Inr (map (\<lambda>t. t + 1) (concat spans), concat spans), g)),
      dv_new_verify_bufs = (\<lambda>batch span pages g. (Inr (), g)),
      dv_decode_logits = map of_nat,
      dv_max_rows = (\<lambda>g. 4),
      dv_grow_scratch = (\<lambda>n g. (Inr (), g)),
      dv_select_batch = (\<lambda>logits params sample_seed g. (Inr logits, g)),
      dv_token_logprobs = (\<lambda>logits lps g. (Inr [], g)),
      dv_rows = length,
      dv_copy_page = (\<lambda>source target g. (Inr (), g)),
      dv_copy_rows = (\<lambda>source target n hidden g. (Inr hidden, g)),
      dv_set_rows = take,
      dv_record_event = (\<lambda>g. (Inr (), g)),
      dv_query_event = (\<lambda>g. (EventDone, g)),
      dv_sync_event = (\<lambda>g. (True, g)),
      dv_install_lora = (\<lambda>name path inplace g. (Inr (), g)),
      dv_uninstall_lora = (\<lambda>name g. (Inr (), g)),
      dv_discard_lora = (\<lambda>name g. (Inr (), g)),
      dv_new_draft_state = (\<lambda>cache_len g. (Inr 0, g)),
      dv_pending_len = Some,
      dv_append_context = (\<lambda>hidden offset n d g. (Inr (d + n), g)),
      dv_draft_logits = (\<lambda>tokens states g. (Inr (concat (map (\<lambda>t. [t + 1, t + 2]) tokens), states), g)),
      dv_markov_tokens = (\<lambda>tokens g. (Inr (concat (map (\<lambda>t. [t + 1, t + 2]) tokens)), g)),
      dv_markov_runners = (\<lambda>tokens positions g. (Inr (concat (map (\<lambda>t. [t + 1, t + 2]) tokens)), g)),
      dv_markov_ladder = (\<lambda>chain rows positions g. (Inr chain, g)),
      dv_markov_max_batch = (\<lambda>g. 8),
      dv_auto_chains = (\<lambda>g. None),
      dv_auto_tick = (\<lambda>n committed g. g)\<rparr>"

definition demo_dflash :: "nat dflash" where
  "demo_dflash =
     \<lparr>df_block_size = 2, df_anchor_first = True, df_markov_head = True, df_max_positions = 64,
      df_requests = [7 \<mapsto> 3], df_verified_draft_tokens = 0, df_accepted_draft_tokens = 0,
      df_hedge_blocks = [7 \<mapsto> [[6, 7]]], df_round_chains = 1, df_hedge_cap = 1, df_hedge_branch_positions = [0]\<rparr>"

definition demo_lane :: "(nat list, token list, nat) lane" where
  "demo_lane =
     \<lparr>ln_gpu = [], ln_page_size = 2, ln_buffer_blocks = 8, ln_total_blocks = 4, ln_inflight_prefill = None,
      ln_dflash = Some demo_dflash, ln_verify_bufs = True, ln_tp_graph_enabled = False, ln_precapture_complete = False\<rparr>"

text \<open>A span whose second draft is wrong, verified beside a chain that has it right.\<close>

definition demo_verify_item :: verify_item where
  "demo_verify_item = \<lparr>vi_id = 7, vi_token_ids = [5, 6, 9], vi_params = default_sampling_params\<rparr>"

definition demo_verify_view :: kv_view where
  "demo_verify_view = \<lparr>kvw_page_indices = [0, 1, 2], kvw_seq_len = 6, kvw_page_size = 2\<rparr>"

lemma demo_device_sels [simp]:
  "dv_verify_forward demo_device spans views g = (Inr (map (\<lambda>t. t + 1) (concat spans), concat spans), g)"
  "dv_new_verify_bufs demo_device batch span pages g = (Inr (), g)" "dv_max_rows demo_device g = 4"
  "dv_grow_scratch demo_device n g = (Inr (), g)" "dv_select_batch demo_device logits params sample_seed g = (Inr logits, g)"
  "dv_rows demo_device = length" "dv_copy_page demo_device source target g = (Inr (), g)"
  "dv_copy_rows demo_device source target n hidden g = (Inr hidden, g)" "dv_set_rows demo_device = take"
  "dv_append_context demo_device hidden offset n d g = (Inr (d + n), g)" "dv_auto_chains demo_device g = None"
  by (simp_all add: demo_device_def)

lemma demo_geometry: "hedge_pages_per_chain 2 2 = 2" "max_verify_batch = 256"
  by (simp_all add: hedge_pages_per_chain_def max_def usize_defs usize_max_def div_ceil_def max_verify_batch_def batch_buckets_def)

lemma demo_greedy: "is_greedy default_sampling_params"
  by (simp add: is_greedy_def default_sampling_params_def f32_below_1em5_def)

lemma demo_committed: "committed_len demo_verify_item demo_verify_view 2 = Some 3"
  by (simp add: committed_len_def demo_verify_item_def demo_verify_view_def)

lemma demo_chain: "chain_ids demo_verify_item [] [6, 7] = Some [5, 6, 7]"
  by (simp add: chain_ids_def demo_verify_item_def)

lemma demo_view: "new_kv_view [0, 4, 5] 6 2 = Some \<lparr>kvw_page_indices = [0, 4, 5], kvw_seq_len = 6, kvw_page_size = 2\<rparr>"
  by (simp add: new_kv_view_def div_ceil_def)

lemmas lane_runs = run_bind_def run_ok_def run_get_def run_upd_def run_ensure_def run_opt_def run_on_def gpu_def
  get_dflash_def put_dflash_def

lemma demo_pages: "drop 1 (kvw_page_indices demo_verify_view) = [1, 2]" "take 1 (kvw_page_indices demo_verify_view) = [0]"
  "length (kvw_page_indices demo_verify_view) = 3" "kvw_seq_len demo_verify_view = 6" "page_usize 1 = 1" "page_usize 2 = 2"
  by (simp_all add: demo_verify_view_def page_usize_def)

lemma demo_expansion:
  "hedge_requests demo_device demo_dflash 2 (ln_buffer_blocks demo_lane) [demo_verify_view] (zip [0..<length [demo_verify_item]] [demo_verify_item]) 0
     \<lparr>xp_items = [demo_verify_item], xp_views = [demo_verify_view], xp_spans = [], xp_next_scratch = ln_total_blocks demo_lane\<rparr> demo_lane =
   Some (Inr \<lparr>xp_items = [demo_verify_item, \<lparr>vi_id = 7, vi_token_ids = [5, 6, 7], vi_params = default_sampling_params\<rparr>],
     xp_views = [demo_verify_view, \<lparr>kvw_page_indices = [0, 4, 5], kvw_seq_len = 6, kvw_page_size = 2\<rparr>],
     xp_spans = [(0, [(1, 4), (2, 5)])], xp_next_scratch = 6\<rparr>, demo_lane)"
proof -
  have r: "vi_id demo_verify_item = 7" "vi_params demo_verify_item = default_sampling_params" "length (vi_token_ids demo_verify_item) = 3"
    by (simp_all add: demo_verify_item_def)
  have d: "df_hedge_cap demo_dflash = 1" "df_hedge_blocks demo_dflash 7 = Some [[6, 7]]" "df_block_size demo_dflash = 2" "df_anchor_first demo_dflash"
    by (simp_all add: demo_dflash_def)
  have u: "[4..<6] = [4, 5 :: nat]" by (simp add: upt_rec)
  show ?thesis
    by (simp add: r d u demo_geometry demo_greedy demo_committed demo_chain demo_view demo_pages lane_runs Let_def slice_from_def demo_lane_def
        del: One_nat_def)
qed

lemma demo_verify:
  "map_option fst (execute_dflash_verify demo_device [demo_verify_item] [demo_verify_view] 0 demo_lane) =
   Some (Inr [\<lparr>vr_id = 7, vr_matched_draft_tokens = 2, vr_accepted_tokens = [6, 7, 8]\<rparr>])"
proof -
  have l: "ln_dflash demo_lane = Some demo_dflash" "ln_verify_bufs demo_lane" "ln_page_size demo_lane = 2" "ln_gpu demo_lane = []"
      "ln_buffer_blocks demo_lane \<noteq> ln_total_blocks demo_lane"
    by (simp_all add: demo_lane_def)
  have d: "df_hedge_cap demo_dflash = 1" "df_markov_head demo_dflash" "df_requests demo_dflash 7 = Some 3"
    by (simp_all add: demo_dflash_def)
  have a: "accept_prefix_match [6, 9] [6, 7, 10] = Some [6, 7]" "accept_prefix_match [6, 7] [6, 7, 8] = Some [6, 7, 8]"
    by (simp_all add: accept_prefix_match_def num_accepted_def num_accepted_from.simps)
  have b: "build_verify_results [demo_verify_item, \<lparr>vi_id = 7, vi_token_ids = [5, 6, 7], vi_params = default_sampling_params\<rparr>] [6, 7, 10, 6, 7, 8] =
      Inr [\<lparr>vr_id = 7, vr_matched_draft_tokens = 1, vr_accepted_tokens = [6, 7]\<rparr>, \<lparr>vr_id = 7, vr_matched_draft_tokens = 2, vr_accepted_tokens = [6, 7, 8]\<rparr>]"
    by (simp add: build_verify_results_def demo_verify_item_def a bind_res_def)
  have r: "vi_id demo_verify_item = 7" "vi_token_ids demo_verify_item = [5, 6, 9]"
    by (simp_all add: demo_verify_item_def)
  show ?thesis
    using demo_expansion
    by (simp add: execute_dflash_verify_def lane_runs l d r b try_execute_hedged_verify_def verify_forward_def
      select_step_tokens_def verify_rows_def run_verified_def record_verify_dflash_context_def record_verified_def span_total_def Let_def
      del: hedge_requests.simps)
qed

text \<open>Witness of C11.\<close>

theorem dflash_verify_answers_witness:
  "\<exists>results. map_option fst (execute_dflash_verify demo_device [demo_verify_item] [demo_verify_view] 0 demo_lane) = Some (Inr results) \<and>
     list_all2 verify_fits [demo_verify_item] results \<and> map vr_accepted_tokens results = [[6, 7, 8]]"
proof -
  obtain l where "execute_dflash_verify demo_device [demo_verify_item] [demo_verify_view] 0 demo_lane =
      Some (Inr [\<lparr>vr_id = 7, vr_matched_draft_tokens = 2, vr_accepted_tokens = [6, 7, 8]\<rparr>], l)"
    using demo_verify by auto
  from dflash_verify_answers [OF this] show ?thesis using demo_verify by fastforce
qed

text \<open>Witness of C12.\<close>

theorem hedge_scratch_disjoint_witness:
  "distinct [4, 5 :: usize] \<and> set [4, 5] \<subseteq> {ln_total_blocks demo_lane..<ln_buffer_blocks demo_lane}"
  using hedge_scratch_disjoint [OF demo_expansion] by simp

end
