(* ===== verification/Executor_Instance.thy ===== *)
theory Executor_Instance
  imports Executor_Safety Kv_Instance Lane_Instance
begin

text \<open>
  An executor over the pool of four blocks and the small device, with a host tier that never has
  anything: the laws the executor relies on hold there.
\<close>

definition demo_engine :: "nat offload_engine" where
  "demo_engine =
     \<lparr>oe_query = (\<lambda>i hs now. (Inr (QueryReady None 0), now)), oe_load = (\<lambda>l pages now. (Inr 0, now)), oe_release_lease = (\<lambda>l now. now),
      oe_save = (\<lambda>pages hs now. now), oe_poll = (\<lambda>h now. (Some (Inr ()), now)), oe_wait = (\<lambda>h now. (Inr (), now)),
      oe_now = (\<lambda>now. (now, now + 1))\<rparr>"

definition lru_env :: "(u32 list \<times> usize, usize \<times> entry list, nat list, token list, nat, nat) executor_env" where
  "lru_env =
     \<lparr>en_index = demo_index, en_tokens = list_tokens, en_salt = demo_salt, en_device = demo_device, en_knee = 8, en_engine = demo_engine,
      en_lora_file = (\<lambda>_. Inr ())\<rparr>"

definition lru_executor :: "(u32 list \<times> usize, usize \<times> entry list, nat list, token list, nat, nat) qwen3_executor" where
  "lru_executor =
     \<lparr>qx_block_size = 2, qx_stop_token_ids = [], qx_max_position_embeddings = 64, qx_decode_group_compiled = True, qx_pool = fst demo_pool,
      qx_store = fst (snd demo_pool), qx_padding = snd (snd demo_pool), qx_request_kvs = [],
      qx_primary = \<lparr>rw_lane = demo_lane\<lparr>ln_dflash := None\<rparr>, rw_alive = True\<rparr>, qx_workers = [], qx_loaded_lora_adapters = [], qx_max_loras = 0,
      qx_prefix_cache_requested = True, qx_offload = Some 0, qx_pins = [], qx_saved_cursor = Map.empty, qx_prefetch = [],
      qx_l1_retention_disabled = False, qx_flush_offload_on_finish = False, qx_vllm_compat = None, qx_overlap = False, qx_async_prefill = False,
      qx_speculative = None, qx_spec_decode_counters = None, qx_dflash_ready = []\<rparr>"

lemma lru_env_sels [simp]:
  "en_index lru_env = demo_index" "en_tokens lru_env = list_tokens" "en_salt lru_env = demo_salt" "en_engine lru_env = demo_engine"
  by (simp_all add: lru_env_def)

lemma demo_engine_hits: "engine_hits demo_engine"
  by (simp add: engine_hits_def demo_engine_def)

lemma lru_env_hyps:
  "block_index (en_index lru_env) demo_cache snd 4" "token_laws (en_tokens lru_env) (\<lambda>(ts, n). 0 < n)" "demo_cache (4, [])"
  "snd (4 :: usize, [] :: entry list) = []" "build_pool (en_index lru_env) (4, []) 0 2 4 = Some (Inr demo_pool)" "engine_hits (en_engine lru_env)"
  using demo_cache_hyps demo_engine_hits by simp_all

interpretation demo_kv: kv_cache demo_index demo_cache snd 4 list_tokens "\<lambda>(ts, n). 0 < n" demo_salt "(4, [])" 0 2 demo_pool
  by (intro kv_cache.intro kv_cache_axioms.intro demo_cache_hyps)

interpretation demo: executor_cache lru_env demo_cache snd 4 "\<lambda>(ts, n). 0 < n" "(4, [])" 0 2 demo_pool
  by (rule executor_cacheI [OF lru_env_hyps])

lemma demo_started: "executor_started demo_pool lru_executor"
  by (simp add: executor_started_def lru_executor_def)

section \<open>A prefill\<close>

definition demo_prefill :: executor_call where
  "demo_prefill = CallPrefill \<lparr>pp_requests = [\<lparr>pi_id = 1, pi_prompt_tokens = [1, 2, 3], pi_max_output_tokens = 4, pi_params = default_sampling_params,
     pi_logprobs = 0, pi_echo = False, pi_lora_adapter = None, pi_cached_tokens = 0, pi_chunk_budget = 8, pi_chunk_start = 0, pi_chunk_tokens = 0\<rparr>],
     pp_echo = False, pp_sample_seed = 0\<rparr>"

lemma demo_prefill_legal: "legal_executor_call lru_env demo_prefill lru_executor"
  by (simp add: legal_executor_call_def demo_prefill_def call_ids_def legal_chunk_def inflight_prefill_ids_def flight_def lru_executor_def usize_max_def)

lemma demo_prefilled: "\<exists>x. run_call lru_env demo_prefill lru_executor = Some x \<and> executor_reachable lru_env lru_executor x"
proof -
  obtain x where "run_call lru_env demo_prefill lru_executor = Some x"
    using demo.call_sound [OF demo.started_sound [OF demo_started] demo_prefill_legal] by (auto simp: demo_prefill_def)
  thus ?thesis
    using executor_reachable.call [OF executor_reachable.start demo_prefill_legal] by blast
qed

text \<open>Witness of C8.\<close>

theorem executor_calls_return_witness:
  "legal_executor_call lru_env demo_prefill lru_executor \<and>
   (\<exists>x. run_call lru_env demo_prefill lru_executor = Some x \<and>
     cache_ok demo_cache snd 4 list_tokens (\<lambda>(ts, n). 0 < n) (fst demo_pool) (executor_world demo_pool x))"
  using executor_calls_return [OF lru_env_hyps demo_started executor_reachable.start demo_prefill_legal] demo_prefill_legal
  by (simp add: demo_prefill_def)

text \<open>Witness of C9.\<close>

theorem executor_refines_cache_witness:
  "\<exists>x w. run_call lru_env demo_prefill lru_executor = Some x \<and> kw_store w = qx_store x \<and>
     kv_reachable demo_index list_tokens demo_salt (fst demo_pool) (world_of demo_pool) w"
proof -
  obtain x where x: "run_call lru_env demo_prefill lru_executor = Some x" "executor_reachable lru_env lru_executor x"
    using demo_prefilled by blast
  from executor_refines_cache [OF lru_env_hyps demo_started x(2)] show ?thesis using x(1) by auto
qed


end
