(* ===== verification/Spec2Isabelle.thy ===== *)
theory Spec2Isabelle
  imports Qwen3_Progress Gemma_Kv TinyLFU Executor_Instance
begin

text \<open>
  A verification of the scheduling and KV-cache core of pegainfer, an LLM inference engine in Rust
  (\<open>src/\<close>). A frontend submits requests to a scheduler thread through channels; the scheduler
  keeps one ledger account per request, runs one step after the other and sends what happened to
  each request as one statement per step. The engine behind it (Qwen3 here) chooses prompts and
  tokens to compute within block, slot and token budgets and hands a plan to a GPU executor. The KV
  cache the executor writes is a pool of fixed-size blocks, shared between requests with equal
  prefixes, with an index of inactive blocks that decides what is evicted.

  \<^bold>\<open>The engine contract\<close> (\<open>pegainfer-frontend/src/engine\<close>).
  \<open>Step_Contract\<close> has the vocabulary (\<open>step.rs\<close>, \<open>event.rs\<close>, \<open>kv.rs\<close>, \<open>sampler.rs\<close>), \<open>Ledger\<close>
  the accounts and every ledger call (\<open>ledger.rs\<close>): a call returns, or unwinds with a reason and the
  ledger it leaves. \<open>Contract_System\<close> puts frontend, driver loop, deferred finishes, closed receivers
  and panics around it (\<open>driver.rs\<close>, \<open>wiring.rs\<close>, \<open>request_lifecycle.rs\<close>) as the step relation
  \<open>sys_step\<close>. Its theorems: the stream of a request refines the client protocol, nobody gets two
  terminals, and after a shutdown everybody has been answered.

  \<^bold>\<open>The Qwen3 engine\<close> (\<open>pegainfer-qwen3/src\<close>). \<open>Qwen3_Scheduler\<close> has admission, prefill chunking,
  plans, resolution and effects (\<open>scheduler.rs\<close>, \<open>scheduler/\<close>), \<open>Speculative\<close> the acceptance of draft
  tokens (\<open>speculative.rs\<close>), and \<open>Qwen3_Adapter\<close> the whole step over the ledger
  (\<open>frontend_adapter.rs\<close>). The executor is a record of functions here, and what its answers must look
  like is the hypothesis \<open>executor_ok\<close>. \<open>Qwen3_Mechanics\<close> shows budgets, capacities and chunk selection against a
  reference; \<open>Qwen3_Books\<close> and \<open>Qwen3_Progress\<close> show that queues and accounts agree, so that no step
  panics and no request is lost, but for the active requests after a failed prefill step.

  \<^bold>\<open>The Qwen3 executor\<close> (\<open>executor.rs\<close>, \<open>executor/\<close>). \<open>Step_Run\<close> has calls that answer, fail or panic
  over a state. \<open>Dflash_Lane\<close> (\<open>dflash_lane.rs\<close>, \<open>dflash_prefill.rs\<close>) is drafting on a worker lane,
  \<open>Verify_Lane\<close> the plain and the hedged verify pass, \<open>Qwen3_Lane\<close> the commands of a lane and the step
  that runs one on every rank. What a lane runs on the GPU is the record \<open>device\<close>. \<open>Qwen3_Executor\<close> is
  the scheduler thread's side: the KV each step schedules and commits, saves to and prefetch from the
  host tier (\<open>remote_fetch.rs\<close>; the offload engine is the record \<open>offload_engine\<close>).
  \<open>Qwen3_Model_Executor\<close> adds the speculative transaction (\<open>spec.rs\<close>) and LoRA, and instantiates the
  interface \<open>ModelExecutor\<close>: \<open>qwen3_executor_ok\<close> discharges \<open>executor_ok\<close> for it, so what is proved of
  the scheduler over any such executor holds over this one. The lane's theorems say what a verify pass
  answers, and that hedge chains never write the same scratch page. \<open>Lane_Instance\<close> is a small device
  on which they are evaluated.

  \<^bold>\<open>The executor over the KV cache.\<close> \<open>Kv_Holdings\<close> states the cache below as a contract: what a client
  holds and what each call does with it. The locale \<open>executor_cache\<close> of \<open>Executor_Cache\<close> relies on it; there
  and in \<open>Executor_Steps\<close> each operation of the executor is shown to return and to keep its holdings,
  in a calculus of weakest preconditions (\<open>returns\<close> in \<open>Step_Run\<close>); \<open>Executor_Frame\<close> says what it leaves
  alone. \<open>Executor_Calls\<close> has the calls in any order and how the scheduler makes them, \<open>Executor_Safety\<close>
  the results: no call panics in the cache, the executor's states are states of the cache, and no block
  leaks. \<open>Executor_Instance\<close> is an executor over the pool of four blocks.

  \<^bold>\<open>Paged KV of the CUDA engines.\<close> \<open>Page_Pool\<close> (\<open>pegainfer-core/src/page_pool.rs\<close>, \<open>kv_pool.rs\<close>) and
  \<open>Gemma_Kv\<close> (\<open>pegainfer-gemma4/src/kv.rs\<close>): every page has one owner, capacity grows exactly, the
  sliding window stays resident, two-pool admission is atomic.

  \<^bold>\<open>The logical block manager\<close> (\<open>kvbm/kvbm-logical/src\<close>). \<open>Inactive_Index\<close> has the eviction backends
  behind the interface \<open>inactive_index\<close>, \<open>TinyLFU\<close> the frequency sketch on machine words. \<open>Block_Store\<close>
  is the store of slots (\<open>pools/store.rs\<close>) with reference-counted handles (\<open>blocks/\<close>): a shared
  pointer is an address in \<open>bs_arcs\<close> with its strong count. \<open>Block_Invariant\<close> and \<open>Block_Operations\<close>
  prove, for any index with the laws of the locale \<open>block_index\<close>, that each operation keeps the
  invariant; \<open>Block_Lifecycle\<close> runs them in any order and interprets the locale for the LRU backend.
  \<open>Block_References\<close> is the client's side of that contract: a client owns guards and a multiset of
  references, the strong counts are exactly those references and what duplicates keep, and a call
  does not touch the references of others.

  \<^bold>\<open>Sequences over the store\<close> (\<open>sequence/\<close>, \<open>integrations/\<close>). \<open>Sequence_Blocks\<close> has the three ordered
  collections of a sequence, \<open>Request_Sequence\<close> prefix matching, staging, registration, release and
  reacquisition, and \<open>Scheduled_Sequence\<close> the schedule/apply/revert protocol with its errors.
  \<open>Sequence_Ownership\<close> and \<open>Sequence_Protocol\<close> show that every operation returns and keeps the
  invariant \<open>sequence_ok\<close>: blocks held cover the tokens scheduled, assigned block k is registered under
  hash k. \<open>TokenBlockSequence\<close> (crate \<open>dynamo_tokens\<close>) is the record \<open>T\<close> with the laws
  \<open>token_laws\<close>.

  \<^bold>\<open>The KV cache of an engine\<close> (\<open>pegainfer-kv-cache/src/pool.rs\<close>, \<open>view.rs\<close>). \<open>Kv_Requests\<close> has the
  pool with its padding block, per-request state, the views of a forward pass and the probe and
  reservation of the offload tier. \<open>Kv_World\<close> lets any number of requests, probes, reservations and
  pins share one pool; \<open>exec_call\<close> is one call, \<open>legal_call\<close> how the engines call, and \<open>call_ok\<close> says
  that every legal call returns and keeps \<open>cache_ok\<close>. \<open>Kv_Properties\<close>: nothing leaks, one writer per
  block, exact views. \<open>Kv_Schedule\<close>: grants, refusals and reverts. \<open>Kv_Progress\<close>: the token counters,
  progress, prefix hits and registration. \<open>Kv_Instance\<close> is a run on a pool of four blocks, where all
  hypotheses hold.

  \<^bold>\<open>Conventions.\<close> \<open>usize\<close> is \<open>nat\<close>, with saturation, wrapping and checked arithmetic written out where
  the source has them; hashes, sketch words and page ids are words. A panic is \<open>None\<close> or a value of an
  error type; a \<open>Result\<close> is a sum. Locks are taken per call, so a call is one step. Loops are
  structural, or \<open>function\<close>s with a measure; \<open>pad_loop\<close> alone has a bound, the block size, and
  \<open>pad_loop_ends\<close> shows that it is enough; \<open>lru_allocate_all\<close> is a partial function shown to return.

  \<^bold>\<open>Not modelled.\<close> CUDA and Triton kernels, device buffers, weight loading and graph capture (device
  I/O), hence the forward passes and samplers behind \<open>device\<close> and the start-up of the executor; the
  controller that picks the number of hedge chains from measured times (floating point on a clock); the
  transfer engine of the host tier; HTTP, the vLLM bridge and the router (network I/O); metrics, tracing
  and the event stream of the block registry (observers); the lineage backend and external assignments
  (not used by the engines); the schedulers of Qwen3.5, Gemma 4, GLM-5.2, Kimi K2, K3 and
  DeepSeek-V2-Lite, which implement the same contract with their own executors.
\<close>

section \<open>Frequency tracking and eviction tiers\<close>

lemma ucast_u8_u32: "unat (ucast (t :: u8) :: u32) = unat t"
  using unsigned_less [of t, where 'a = nat] by (simp add: unsigned_ucast_eq take_bit_nat_eq_self)

text \<open>
  A block that was touched often enough since the last decay is kept in the hottest tier, so
  the tiered backend evicts it last: with valid thresholds, the level computed from the sketch is
  3 for every hash touched at least as often as the highest threshold.
\<close>

theorem hot_blocks_reach_the_hot_tier:
  assumes "new_multi_lru C n (t1, t2, t3) = Inr m" and "length touched < unat (from_capacity capacity)"
    and "unat t3 \<le> count_list touched h"
  shows "calculate_priority_level
    (\<lambda>k. tracker_count hash k (fold (tracker_touch hash) touched (new_sketch capacity))) h m = 3"
proof -
  let ?f = "tracker_count hash h (fold (tracker_touch hash) touched (new_sketch capacity))"
  have m: "ml_thresholds m = (t1, t2, t3)" "t1 < t2" "t2 < t3" "t3 \<le> 15"
    using assms(1) by (auto simp: new_multi_lru_def not_less split: if_splits)
  have t3: "unat t3 \<le> 15"
    using m(4) by (simp add: word_le_nat_alt)
  have "tracker_touch hash = increment hash"
    by (auto simp: tracker_touch_def fun_eq_iff)
  hence "min 15 (count_list touched h) \<le> unat ?f"
    using conjunct2 [OF fresh_sketch_estimate [OF assms(2), of hash h]] by (simp only: tracker_count_def)
  hence "unat t3 \<le> unat ?f"
    using assms(3) t3 by linarith
  moreover have "unat t1 < unat t3" "unat t2 < unat t3"
    using m(2,3) by (simp_all add: word_less_nat_alt)
  ultimately show ?thesis
    by (simp add: calculate_priority_level_def m(1) word_less_nat_alt ucast_u8_u32)
qed

text \<open>A concrete sketch.\<close>

theorem hot_blocks_reach_the_hot_tier_witness:
  "calculate_priority_level
    (\<lambda>k. tracker_count (\<lambda>k i. 0) k (fold (tracker_touch (\<lambda>k i. 0)) [5, 5, 5, 5 :: seq_hash] (new_sketch 100))) 5
    \<lparr>ml_pools = replicate 4 (8 :: usize, [] :: entry list), ml_thresholds = (1, 2, 4)\<rparr> = 3"
proof -
  have "new_multi_lru list_lru 8 (1, 2, 4) = Inr \<lparr>ml_pools = replicate 4 (8, []), ml_thresholds = (1, 2, 4)\<rparr>"
    by (simp add: new_multi_lru_def list_lru_def)
  moreover have "length [5, 5, 5, 5 :: seq_hash] < unat (from_capacity 100)"
    by (simp add: from_capacity_def usize_defs usize_max_def min_def)
  moreover have "unat (4 :: u8) \<le> count_list [5, 5, 5, 5] (5 :: seq_hash)"
    by simp
  ultimately show ?thesis
    by (rule hot_blocks_reach_the_hot_tier)
qed

end
